(* ===== verification/Prelude.thy ===== *)
theory Prelude
  imports Main "HOL-Library.Word"
begin

text \<open>
  What every component shares: the machine-integer types of the C code, the two error
  domains (lwext4's errno and ESP-IDF's esp_err_t) with the translation tables between
  them, byte memory with the C library's memcpy, memmove and memset as list operations,
  and the lemmas that let the simplifier compute with them.
\<close>

unbundle bit_operations_syntax

named_theorems mem_simps \<open>reads and writes of byte memory\<close>
named_theorems codec_simps \<open>little-endian encoders and decoders\<close>

type_synonym u8 = "8 word"
type_synonym u16 = "16 word"
type_synonym u32 = "32 word"
type_synonym u64 = "64 word"
type_synonym bytes = "u8 list"

section \<open>Error domains\<close>

text \<open>
  lwext4 functions return an int that is EOK or an errno value.  The values the port
  names are constructors; \<open>Errno n\<close> stands for any other value a library call returns.
\<close>

datatype errno =
    EOK | EIO | ENOENT | ENOMEM | EEXIST | ENOTDIR | EISDIR | EINVAL | EFBIG | ENOSPC
  | EROFS | ENOTSUP | EOVERFLOW | ENOTEMPTY | EBADF | EMFILE | EACCES | EBUSY
  | ENAMETOOLONG | ESTALE | Errno int

datatype esp_err =
    ESP_OK | ESP_FAIL | ESP_ERR_NO_MEM | ESP_ERR_INVALID_ARG | ESP_ERR_INVALID_STATE
  | ESP_ERR_INVALID_SIZE | ESP_ERR_NOT_FOUND | ESP_ERR_NOT_SUPPORTED | Esp_err int

section \<open>Byte memory\<close>

text \<open>
  A buffer is a list of bytes and a C pointer into it is an offset.  The operations are
  total; the accesses the code makes are shown to be in range where it matters.
\<close>

definition mem_read :: "nat \<Rightarrow> nat \<Rightarrow> bytes \<Rightarrow> bytes" where
  "mem_read off n d = take n (drop off d)"

definition mem_write :: "nat \<Rightarrow> bytes \<Rightarrow> bytes \<Rightarrow> bytes" where
  "mem_write off bs d = take off d @ bs @ drop (off + length bs) d"

definition mem_move :: "nat \<Rightarrow> nat \<Rightarrow> nat \<Rightarrow> bytes \<Rightarrow> bytes" where
  "mem_move dst src n d = mem_write dst (mem_read src n d) d"

definition mem_zero :: "nat \<Rightarrow> nat \<Rightarrow> bytes \<Rightarrow> bytes" where
  "mem_zero off n d = mem_write off (replicate n 0) d"

lemma length_mem_read [mem_simps]: "off + n \<le> length d \<Longrightarrow> length (mem_read off n d) = n"
  by (simp add: mem_read_def)

lemma length_mem_write [mem_simps]:
  "off + length bs \<le> length d \<Longrightarrow> length (mem_write off bs d) = length d"
  by (simp add: mem_write_def)

lemma length_mem_move [mem_simps]:
  "dst + n \<le> length d \<Longrightarrow> src + n \<le> length d \<Longrightarrow> length (mem_move dst src n d) = length d"
  by (simp add: mem_move_def mem_simps)

lemma length_mem_zero [mem_simps]: "off + n \<le> length d \<Longrightarrow> length (mem_zero off n d) = length d"
  by (simp add: mem_zero_def mem_simps)

lemma nth_mem_read [mem_simps]: "i < n \<Longrightarrow> off + n \<le> length d \<Longrightarrow> mem_read off n d ! i = d ! (off + i)"
  by (simp add: mem_read_def)

lemma nth_mem_write [mem_simps]:
  "off + length bs \<le> length d \<Longrightarrow> i < length d \<Longrightarrow>
   mem_write off bs d ! i = (if off \<le> i \<and> i < off + length bs then bs ! (i - off) else d ! i)"
  by (auto simp: mem_write_def nth_append)

lemma mem_read_write_same [mem_simps]:
  "off + length bs \<le> length d \<Longrightarrow> n = length bs \<Longrightarrow> mem_read off n (mem_write off bs d) = bs"
  by (simp add: mem_read_def mem_write_def)

lemma mem_read_write_other [mem_simps]:
  assumes "off + length bs \<le> length d" "a + n \<le> length d" "a + n \<le> off \<or> off + length bs \<le> a"
  shows "mem_read a n (mem_write off bs d) = mem_read a n d"
  using assms by (intro nth_equalityI) (auto simp: mem_simps)

lemma mem_read_read [mem_simps]:
  "a + n \<le> m \<Longrightarrow> off + m \<le> length d \<Longrightarrow> mem_read a n (mem_read off m d) = mem_read (off + a) n d"
  by (intro nth_equalityI) (auto simp: mem_simps add.assoc)

lemma mem_read_moved [mem_simps]:
  assumes "dst + n \<le> length d" "src + n \<le> length d" "a + m \<le> n"
  shows "mem_read (dst + a) m (mem_move dst src n d) = mem_read (src + a) m d"
  using assms by (intro nth_equalityI) (auto simp: mem_move_def mem_simps add.assoc)

lemma mem_read_move_other [mem_simps]:
  assumes "dst + n \<le> length d" "src + n \<le> length d" "a + m \<le> length d" "a + m \<le> dst \<or> dst + n \<le> a"
  shows "mem_read a m (mem_move dst src n d) = mem_read a m d"
  using assms by (simp add: mem_move_def mem_simps)

lemma mem_write_commute:
  assumes "a + length xs \<le> b \<or> b + length ys \<le> a" "a + length xs \<le> length d" "b + length ys \<le> length d"
  shows "mem_write a xs (mem_write b ys d) = mem_write b ys (mem_write a xs d)"
  using assms by (intro nth_equalityI) (auto simp: mem_simps)

lemma mem_write_append:
  "off + length xs + length ys \<le> length d \<Longrightarrow>
   mem_write (off + length xs) ys (mem_write off xs d) = mem_write off (xs @ ys) d"
  by (simp add: mem_write_def ac_simps)

lemma mem_read_append: "mem_read off (m + n) d = mem_read off m d @ mem_read (off + m) n d"
  by (simp add: mem_read_def take_add add.commute)

lemma mem_copy_append:
  assumes "a + (m + n) \<le> length src" "off + (m + n) \<le> length d"
  shows "mem_write (off + m) (mem_read (a + m) n src) (mem_write off (mem_read a m src) d)
    = mem_write off (mem_read a (m + n) src) d"
  using mem_write_append [of off "mem_read a m src" "mem_read (a + m) n src" d] assms
  by (simp add: mem_read_append length_mem_read)

lemma mem_read_0 [simp]: "mem_read off 0 d = []"
  by (simp add: mem_read_def)

lemma mem_write_Nil [simp]: "mem_write off [] d = d"
  by (simp add: mem_write_def)

section \<open>Little-endian integers\<close>

text \<open>
  The four accessors read_le16, read_le32, write_le16 and write_le32 copy a
  native integer from or to memory and convert it with to_le16 or to_le32, so
  that memory holds the value least significant byte first on either byte order.
\<close>

definition le16 :: "u16 \<Rightarrow> bytes" where
  "le16 v = [ucast v, ucast (drop_bit 8 v)]"

definition le32 :: "u32 \<Rightarrow> bytes" where
  "le32 v = [ucast v, ucast (drop_bit 8 v), ucast (drop_bit 16 v), ucast (drop_bit 24 v)]"

definition read_le16 :: "bytes \<Rightarrow> nat \<Rightarrow> u16" where
  "read_le16 d off = ucast (d ! off) OR push_bit 8 (ucast (d ! (off + 1)))"

definition read_le32 :: "bytes \<Rightarrow> nat \<Rightarrow> u32" where
  "read_le32 d off = ucast (d ! off) OR push_bit 8 (ucast (d ! (off + 1)))
     OR push_bit 16 (ucast (d ! (off + 2))) OR push_bit 24 (ucast (d ! (off + 3)))"

definition write_le16 :: "nat \<Rightarrow> u16 \<Rightarrow> bytes \<Rightarrow> bytes" where
  "write_le16 off v d = mem_write off (le16 v) d"

definition write_le32 :: "nat \<Rightarrow> u32 \<Rightarrow> bytes \<Rightarrow> bytes" where
  "write_le32 off v d = mem_write off (le32 v) d"

lemma length_le16 [simp]: "length (le16 v) = 2"
  by (simp add: le16_def)

lemma length_le32 [simp]: "length (le32 v) = 4"
  by (simp add: le32_def)

lemma read_le16_eq:
  assumes "off + 2 \<le> length d" "mem_read off 2 d = le16 v"
  shows "read_le16 d off = v"
proof -
  have "d ! off = ucast v" "d ! (off + 1) = ucast (drop_bit 8 v)"
    using assms nth_mem_read [of 0 2 off d] nth_mem_read [of 1 2 off d]
    by (simp_all add: le16_def)
  then show ?thesis
    unfolding read_le16_def by (intro bit_word_eqI) (auto simp: bit_simps)
qed

lemma read_le32_eq:
  assumes "off + 4 \<le> length d" "mem_read off 4 d = le32 v"
  shows "read_le32 d off = v"
proof -
  have "d ! off = ucast v" "d ! (off + 1) = ucast (drop_bit 8 v)"
    "d ! (off + 2) = ucast (drop_bit 16 v)" "d ! (off + 3) = ucast (drop_bit 24 v)"
    using assms nth_mem_read [of 0 4 off d] nth_mem_read [of 1 4 off d]
      nth_mem_read [of 2 4 off d] nth_mem_read [of 3 4 off d]
    by (simp_all add: le32_def)
  moreover have "n - 16 < 8" if "\<not> bit v (24 + (n - 24))" "bit v n" "n < 32" for n :: nat
    using that by (cases "24 \<le> n") auto
  ultimately show ?thesis
    unfolding read_le32_def by (intro bit_word_eqI) (auto simp: bit_simps not_less)
qed

lemma read_le16_cong:
  assumes "mem_read off 2 d = mem_read off' 2 d'" "off + 2 \<le> length d" "off' + 2 \<le> length d'"
  shows "read_le16 d off = read_le16 d' off'"
proof -
  have "d ! (off + i) = d' ! (off' + i)" if "i < 2" for i
    using that assms nth_mem_read [of i 2 off d] nth_mem_read [of i 2 off' d'] by simp
  from this [of 0] this [of 1] show ?thesis by (simp add: read_le16_def)
qed

lemma read_le32_cong:
  assumes "mem_read off 4 d = mem_read off' 4 d'" "off + 4 \<le> length d" "off' + 4 \<le> length d'"
  shows "read_le32 d off = read_le32 d' off'"
proof -
  have "d ! (off + i) = d' ! (off' + i)" if "i < 4" for i
    using that assms nth_mem_read [of i 4 off d] nth_mem_read [of i 4 off' d'] by simp
  from this [of 0] this [of 1] this [of 2] this [of 3] show ?thesis by (simp add: read_le32_def)
qed

section \<open>Word bounds\<close>

lemma unat16_less: "unat (w :: u16) < 65536"
  using unsigned_less [where ?'a = nat and w = w] by simp

lemma unat32_less: "unat (w :: u32) < 4294967296"
  using unsigned_less [where ?'a = nat and w = w] by simp

lemma unat64_less: "unat (w :: u64) < 18446744073709551616"
  using unsigned_less [where ?'a = nat and w = w] by simp

lemma low32_take_bit: "(p :: u64) AND 0xFFFFFFFF = take_bit 32 p"
  by (simp add: take_bit_eq_mask mask_eq_exp_minus_1)

lemma take_bit_unat_id: "unat p < 2 ^ n \<Longrightarrow> take_bit n (p :: 'a::len word) = p"
  by (simp add: word_unat_eq_iff unsigned_take_bit_eq take_bit_nat_eq_self)

section \<open>Widening conversions\<close>

lemma ucast_16_32_64 [simp]: "ucast (ucast (w :: u16) :: u32) = (ucast w :: u64)"
  by (rule bit_word_eqI) (auto simp: bit_simps dest: bit_imp_le_length)

lemma unat_ucast_16_32 [simp]: "unat (ucast (w :: u16) :: u32) = unat w"
  using unat16_less [of w] by (simp add: unsigned_ucast_eq take_bit_nat_eq_self)

lemma unat_ucast_16_64 [simp]: "unat (ucast (w :: u16) :: u64) = unat w"
  using unat16_less [of w] by (simp add: unsigned_ucast_eq take_bit_nat_eq_self)

lemma unat_ucast_32_64 [simp]: "unat (ucast (w :: u32) :: u64) = unat w"
  using unat32_less [of w] by (simp add: unsigned_ucast_eq take_bit_nat_eq_self)

end
