(* ===== verification/Extent_Layout.thy ===== *)
theory Extent_Layout
  imports Prelude
begin

text \<open>
  The on-disk records of an extent node (port/lwext4_extent.c): the 12-byte header,
  the 12-byte extent and index entries, their loads and stores, the 48-bit physical
  block numbers split over two fields, and the length field whose top bit marks an
  unwritten extent.  The locale \<open>entry_codec\<close> is the contract of the two entry kinds;
  everything about arrays of entries (overwriting, shifting with memmove, removing) is
  proved once inside it and interpreted for extents and for indices.
\<close>

section \<open>Constants and records\<close>

abbreviation (input) EXT4_EXTENT_MAGIC :: u16 where "EXT4_EXTENT_MAGIC \<equiv> 0xF30A"
abbreviation (input) EXT4_EXTENT_HEADER_SIZE :: nat where "EXT4_EXTENT_HEADER_SIZE \<equiv> 12"
abbreviation (input) EXT4_EXTENT_SIZE :: nat where "EXT4_EXTENT_SIZE \<equiv> 12"
abbreviation (input) EXT4_EXTENT_INDEX_SIZE :: nat where "EXT4_EXTENT_INDEX_SIZE \<equiv> 12"
abbreviation (input) EXT_INIT_MAX_LEN :: u16 where "EXT_INIT_MAX_LEN \<equiv> 32768"
abbreviation (input) EXT4_EXTENT_MAX_DEPTH :: nat where "EXT4_EXTENT_MAX_DEPTH \<equiv> 5"
abbreviation (input) EXT4_EXTENT_ROOT_MAX_ENTRIES :: nat where "EXT4_EXTENT_ROOT_MAX_ENTRIES \<equiv> 4"
abbreviation (input) UINT32_MAX :: nat where "UINT32_MAX \<equiv> 4294967295"

record ext4_extent_header =
  magic :: u16
  entries_count :: u16
  max_entries_count :: u16
  depth :: u16
  generation :: u32

record ext4_extent =
  first_block :: u32
  block_count :: u16
  start_hi :: u16
  start_lo :: u32

record ext4_extent_index =
  ix_first_block :: u32
  leaf_lo :: u32
  leaf_hi :: u16
  padding :: u16

section \<open>Loads and stores\<close>

definition header_load :: "bytes \<Rightarrow> ext4_extent_header" where
  "header_load data = \<lparr>
     magic = read_le16 data 0,
     entries_count = read_le16 data 2,
     max_entries_count = read_le16 data 4,
     depth = read_le16 data 6,
     generation = read_le32 data 8\<rparr>"

definition header_store :: "ext4_extent_header \<Rightarrow> bytes \<Rightarrow> bytes" where
  "header_store h data =
     write_le32 8 (generation h)
      (write_le16 6 (depth h)
        (write_le16 4 (max_entries_count h)
          (write_le16 2 (entries_count h)
            (write_le16 0 (magic h) data))))"

definition extent_load :: "bytes \<Rightarrow> nat \<Rightarrow> ext4_extent" where
  "extent_load data off = \<lparr>
     first_block = read_le32 data off,
     block_count = read_le16 data (off + 4),
     start_hi = read_le16 data (off + 6),
     start_lo = read_le32 data (off + 8)\<rparr>"

definition extent_store :: "nat \<Rightarrow> ext4_extent \<Rightarrow> bytes \<Rightarrow> bytes" where
  "extent_store off e data =
     write_le32 (off + 8) (start_lo e)
      (write_le16 (off + 6) (start_hi e)
        (write_le16 (off + 4) (block_count e)
          (write_le32 off (first_block e) data)))"

definition index_load :: "bytes \<Rightarrow> nat \<Rightarrow> ext4_extent_index" where
  "index_load data off = \<lparr>
     ix_first_block = read_le32 data off,
     leaf_lo = read_le32 data (off + 4),
     leaf_hi = read_le16 data (off + 8),
     padding = read_le16 data (off + 10)\<rparr>"

definition index_store :: "nat \<Rightarrow> ext4_extent_index \<Rightarrow> bytes \<Rightarrow> bytes" where
  "index_store off x data =
     write_le16 (off + 10) (padding x)
      (write_le16 (off + 8) (leaf_hi x)
        (write_le32 (off + 4) (leaf_lo x)
          (write_le32 off (ix_first_block x) data)))"

section \<open>Field accessors\<close>

definition extent_get_pblock :: "ext4_extent \<Rightarrow> u64" where
  "extent_get_pblock e = push_bit 32 (ucast (start_hi e)) OR ucast (start_lo e)"

definition extent_store_pblock :: "u64 \<Rightarrow> ext4_extent \<Rightarrow> ext4_extent" where
  "extent_store_pblock pblock e =
     e\<lparr>start_lo := ucast (pblock AND 0xFFFFFFFF), start_hi := ucast (drop_bit 32 pblock)\<rparr>"

definition index_get_pblock :: "ext4_extent_index \<Rightarrow> u64" where
  "index_get_pblock x = push_bit 32 (ucast (leaf_hi x)) OR ucast (leaf_lo x)"

definition index_store_pblock :: "u64 \<Rightarrow> ext4_extent_index \<Rightarrow> ext4_extent_index" where
  "index_store_pblock pblock x =
     x\<lparr>leaf_lo := ucast (pblock AND 0xFFFFFFFF), leaf_hi := ucast (drop_bit 32 pblock)\<rparr>"

definition extent_is_unwritten :: "ext4_extent \<Rightarrow> bool" where
  "extent_is_unwritten e \<longleftrightarrow> block_count e > EXT_INIT_MAX_LEN"

definition extent_get_actual_len :: "ext4_extent \<Rightarrow> u16" where
  "extent_get_actual_len e =
     (if extent_is_unwritten e then block_count e - EXT_INIT_MAX_LEN else block_count e)"

definition extent_set_actual_len :: "u16 \<Rightarrow> ext4_extent \<Rightarrow> ext4_extent" where
  "extent_set_actual_len len e = e\<lparr>block_count := len\<rparr>"

definition extent_mark_unwritten :: "ext4_extent \<Rightarrow> ext4_extent" where
  "extent_mark_unwritten e = e\<lparr>block_count := block_count e OR EXT_INIT_MAX_LEN\<rparr>"

section \<open>Round trips\<close>

definition header_bytes :: "ext4_extent_header \<Rightarrow> bytes" where
  "header_bytes h = le16 (magic h) @ le16 (entries_count h) @ le16 (max_entries_count h)
     @ le16 (depth h) @ le32 (generation h)"

definition extent_bytes :: "ext4_extent \<Rightarrow> bytes" where
  "extent_bytes e = le32 (first_block e) @ le16 (block_count e) @ le16 (start_hi e) @ le32 (start_lo e)"

definition index_bytes :: "ext4_extent_index \<Rightarrow> bytes" where
  "index_bytes x = le32 (ix_first_block x) @ le32 (leaf_lo x) @ le16 (leaf_hi x) @ le16 (padding x)"

lemma length_header_bytes [simp]: "length (header_bytes h) = 12"
  by (simp add: header_bytes_def)

lemma length_extent_bytes [simp]: "length (extent_bytes e) = 12"
  by (simp add: extent_bytes_def)

lemma length_index_bytes [simp]: "length (index_bytes x) = 12"
  by (simp add: index_bytes_def)

lemma header_store_bytes:
  assumes "12 \<le> length d"
  shows "header_store h d = mem_write 0 (header_bytes h) d"
  using assms mem_write_append [of 0 "le16 (magic h)" "le16 (entries_count h)" d]
    mem_write_append [of 0 "le16 (magic h) @ le16 (entries_count h)" "le16 (max_entries_count h)" d]
    mem_write_append [of 0 "le16 (magic h) @ le16 (entries_count h) @ le16 (max_entries_count h)"
      "le16 (depth h)" d]
    mem_write_append [of 0 "le16 (magic h) @ le16 (entries_count h) @ le16 (max_entries_count h)
      @ le16 (depth h)" "le32 (generation h)" d]
  by (simp add: header_store_def header_bytes_def write_le16_def write_le32_def
      del: add_2_eq_Suc add_2_eq_Suc')

lemma extent_store_bytes:
  assumes "off + 12 \<le> length d"
  shows "extent_store off e d = mem_write off (extent_bytes e) d"
  using assms mem_write_append [of off "le32 (first_block e)" "le16 (block_count e)" d]
    mem_write_append [of off "le32 (first_block e) @ le16 (block_count e)" "le16 (start_hi e)" d]
    mem_write_append [of off "le32 (first_block e) @ le16 (block_count e) @ le16 (start_hi e)"
      "le32 (start_lo e)" d]
  by (simp add: extent_store_def extent_bytes_def write_le16_def write_le32_def)

lemma index_store_bytes:
  assumes "off + 12 \<le> length d"
  shows "index_store off x d = mem_write off (index_bytes x) d"
  using assms mem_write_append [of off "le32 (ix_first_block x)" "le32 (leaf_lo x)" d]
    mem_write_append [of off "le32 (ix_first_block x) @ le32 (leaf_lo x)" "le16 (leaf_hi x)" d]
    mem_write_append [of off "le32 (ix_first_block x) @ le32 (leaf_lo x) @ le16 (leaf_hi x)"
      "le16 (padding x)" d]
  by (simp add: index_store_def index_bytes_def write_le16_def write_le32_def)

text \<open>A load sees exactly the twelve bytes at its offset.\<close>

lemma mem_read_part:
  "mem_read off n d = bs \<Longrightarrow> off + n \<le> length d \<Longrightarrow> a + k \<le> n \<Longrightarrow> mem_read (off + a) k d = mem_read a k bs"
  using mem_read_read [of a k n off d] by simp

lemma read_le16_part:
  assumes "mem_read off n d = bs" "off + n \<le> length d" "a + 2 \<le> n" "mem_read a 2 bs = le16 v"
  shows "read_le16 d (off + a) = v"
  using assms by (intro read_le16_eq) (simp_all add: mem_read_part [of off n d bs])

lemma read_le32_part:
  assumes "mem_read off n d = bs" "off + n \<le> length d" "a + 4 \<le> n" "mem_read a 4 bs = le32 v"
  shows "read_le32 d (off + a) = v"
  using assms by (intro read_le32_eq) (simp_all add: mem_read_part [of off n d bs])

lemma header_load_bytes:
  assumes "mem_read 0 12 d = header_bytes h" "12 \<le> length d"
  shows "header_load d = h"
proof -
  note r16 = read_le16_part [OF assms(1)] and r32 = read_le32_part [OF assms(1)]
  have "read_le16 d 0 = magic h" "read_le16 d 2 = entries_count h"
    "read_le16 d 4 = max_entries_count h" "read_le16 d 6 = depth h"
    "read_le32 d 8 = generation h"
    using assms(2) r16 [of 0] r16 [of 2] r16 [of 4] r16 [of 6] r32 [of 8]
    by (simp_all add: header_bytes_def mem_read_def numeral_2_eq_2)
  then show ?thesis by (simp add: header_load_def)
qed

lemma extent_load_bytes:
  assumes "mem_read off 12 d = extent_bytes e" "off + 12 \<le> length d"
  shows "extent_load d off = e"
proof -
  note r16 = read_le16_part [OF assms(1)] and r32 = read_le32_part [OF assms(1)]
  have "read_le32 d off = first_block e" "read_le16 d (off + 4) = block_count e"
    "read_le16 d (off + 6) = start_hi e" "read_le32 d (off + 8) = start_lo e"
    using assms(2) r32 [of 0] r16 [of 4] r16 [of 6] r32 [of 8]
    by (simp_all add: extent_bytes_def mem_read_def)
  then show ?thesis by (simp add: extent_load_def)
qed

lemma index_load_bytes:
  assumes "mem_read off 12 d = index_bytes x" "off + 12 \<le> length d"
  shows "index_load d off = x"
proof -
  note r16 = read_le16_part [OF assms(1)] and r32 = read_le32_part [OF assms(1)]
  have "read_le32 d off = ix_first_block x" "read_le32 d (off + 4) = leaf_lo x"
    "read_le16 d (off + 8) = leaf_hi x" "read_le16 d (off + 10) = padding x"
    using assms(2) r32 [of 0] r32 [of 4] r16 [of 8] r16 [of 10]
    by (simp_all add: index_bytes_def mem_read_def)
  then show ?thesis by (simp add: index_load_def)
qed

lemma header_load_store [codec_simps]:
  "12 \<le> length d \<Longrightarrow> header_load (header_store h d) = h"
  by (intro header_load_bytes) (simp_all add: header_store_bytes mem_simps)

lemma extent_load_store [codec_simps]:
  "off + 12 \<le> length d \<Longrightarrow> extent_load (extent_store off e d) off = e"
  by (intro extent_load_bytes) (simp_all add: extent_store_bytes mem_simps)

lemma index_load_store [codec_simps]:
  "off + 12 \<le> length d \<Longrightarrow> index_load (index_store off x d) off = x"
  by (intro index_load_bytes) (simp_all add: index_store_bytes mem_simps)

lemma read_le16_cong_at:
  assumes "mem_read off n d = mem_read off' n d'" "off + n \<le> length d" "off' + n \<le> length d'" "a + 2 \<le> n"
  shows "read_le16 d (off + a) = read_le16 d' (off' + a)"
  using assms mem_read_part [of off n d _ a 2] mem_read_part [of off' n d' _ a 2]
  by (intro read_le16_cong) simp_all

lemma read_le32_cong_at:
  assumes "mem_read off n d = mem_read off' n d'" "off + n \<le> length d" "off' + n \<le> length d'" "a + 4 \<le> n"
  shows "read_le32 d (off + a) = read_le32 d' (off' + a)"
  using assms mem_read_part [of off n d _ a 4] mem_read_part [of off' n d' _ a 4]
  by (intro read_le32_cong) simp_all

lemma header_load_cong:
  assumes "mem_read 0 12 d = mem_read 0 12 d'" "12 \<le> length d" "12 \<le> length d'"
  shows "header_load d = header_load d'"
proof -
  note c16 = read_le16_cong_at [OF assms(1)] and c32 = read_le32_cong_at [OF assms(1)]
  show ?thesis
    using assms(2,3) c16 [of 0] c16 [of 2] c16 [of 4] c16 [of 6] c32 [of 8]
    by (simp add: header_load_def numeral_2_eq_2)
qed

lemma extent_load_cong:
  assumes "mem_read off 12 d = mem_read off' 12 d'" "off + 12 \<le> length d" "off' + 12 \<le> length d'"
  shows "extent_load d off = extent_load d' off'"
proof -
  note c16 = read_le16_cong_at [OF assms(1)] and c32 = read_le32_cong_at [OF assms(1)]
  show ?thesis
    using assms(2,3) c32 [of 0] c16 [of 4] c16 [of 6] c32 [of 8]
    by (simp add: extent_load_def)
qed

lemma index_load_cong:
  assumes "mem_read off 12 d = mem_read off' 12 d'" "off + 12 \<le> length d" "off' + 12 \<le> length d'"
  shows "index_load d off = index_load d' off'"
proof -
  note c16 = read_le16_cong_at [OF assms(1)] and c32 = read_le32_cong_at [OF assms(1)]
  show ?thesis
    using assms(2,3) c32 [of 0] c32 [of 4] c16 [of 8] c16 [of 10]
    by (simp add: index_load_def)
qed

lemma first_block_extent_load [codec_simps]: "first_block (extent_load d off) = read_le32 d off"
  by (simp add: extent_load_def)

lemma ix_first_block_index_load [codec_simps]: "ix_first_block (index_load d off) = read_le32 d off"
  by (simp add: index_load_def)

section \<open>Physical block numbers and lengths\<close>

lemma extent_pblock_trunc: "extent_get_pblock (extent_store_pblock p e) = take_bit 48 p"
  unfolding extent_get_pblock_def extent_store_pblock_def low32_take_bit
  by (rule bit_word_eqI) (auto simp: bit_simps)

lemma index_pblock_trunc: "index_get_pblock (index_store_pblock p x) = take_bit 48 p"
  unfolding index_get_pblock_def index_store_pblock_def low32_take_bit
  by (rule bit_word_eqI) (auto simp: bit_simps)

lemma extent_store_pblock_other [simp]:
  "first_block (extent_store_pblock p e) = first_block e"
  "block_count (extent_store_pblock p e) = block_count e"
  "extent_get_actual_len (extent_store_pblock p e) = extent_get_actual_len e"
  by (simp_all add: extent_store_pblock_def extent_get_actual_len_def extent_is_unwritten_def)

lemma index_store_pblock_other [simp]: "ix_first_block (index_store_pblock p x) = ix_first_block x"
  by (simp add: index_store_pblock_def)

lemma extent_set_actual_len_other [simp]:
  "first_block (extent_set_actual_len n e) = first_block e"
  "extent_get_pblock (extent_set_actual_len n e) = extent_get_pblock e"
  by (simp_all add: extent_set_actual_len_def extent_get_pblock_def)

lemma extent_mark_unwritten_other [simp]:
  "first_block (extent_mark_unwritten e) = first_block e"
  "extent_get_pblock (extent_mark_unwritten e) = extent_get_pblock e"
  by (simp_all add: extent_mark_unwritten_def extent_get_pblock_def)

lemma unat_actual_len:
  "unat (extent_get_actual_len e) =
     (if unat (block_count e) > 32768 then unat (block_count e) - 32768 else unat (block_count e))"
  by (auto simp: extent_get_actual_len_def extent_is_unwritten_def word_less_nat_alt unat_sub
      word_le_nat_alt)

lemma actual_len_le: "unat (extent_get_actual_len e) \<le> 32768"
  using unat16_less [of "block_count e"] by (auto simp: unat_actual_len)

lemma unwritten_len_less: "extent_is_unwritten e \<Longrightarrow> unat (extent_get_actual_len e) < 32768"
  using unat16_less [of "block_count e"]
  by (simp add: unat_actual_len extent_is_unwritten_def word_less_nat_alt)

lemma or_top_bit:
  assumes "unat (n :: u16) < 32768"
  shows "n OR 32768 = n + 32768"
proof -
  have "\<not> bit (unat n) 15"
    using assms by (simp add: bit_iff_odd)
  then have "\<not> bit n 15" by (simp add: bit_unsigned_iff)
  then have "bit n i \<Longrightarrow> \<not> bit (32768 :: u16) i" for i
    using bit_exp_iff [of 15 i, where ?'a = u16] by auto
  then show ?thesis by (intro disjunctive_add_eq_or [symmetric] bit_word_eqI) (auto simp: bit_simps)
qed

lemma unwritten_roundtrip:
  assumes "0 < unat n" "unat n < 32768"
  shows "extent_is_unwritten (extent_mark_unwritten (extent_set_actual_len n e))"
    and "extent_get_actual_len (extent_mark_unwritten (extent_set_actual_len n e)) = n"
proof -
  let ?e = "extent_mark_unwritten (extent_set_actual_len n e)"
  have "block_count ?e = n + 32768"
    using assms(2) by (simp add: extent_mark_unwritten_def extent_set_actual_len_def or_top_bit)
  moreover from this have "unat (block_count ?e) = unat n + 32768"
    using assms by (simp add: unat_word_ariths)
  ultimately show "extent_is_unwritten ?e" "extent_get_actual_len ?e = n"
    using assms by (simp_all add: extent_is_unwritten_def extent_get_actual_len_def word_less_nat_alt)
qed

lemma initialized_roundtrip:
  assumes "unat n \<le> 32768"
  shows "\<not> extent_is_unwritten (extent_set_actual_len n e)"
    and "extent_get_actual_len (extent_set_actual_len n e) = n"
  using assms
  by (simp_all add: extent_set_actual_len_def extent_is_unwritten_def extent_get_actual_len_def
      word_less_nat_alt)

end
