(* ===== verification/Extent_Slots.thy ===== *)
theory Extent_Slots
  imports Extent_Layout
begin

text \<open>
  A node is an array of twelve-byte slots behind its header.  The locale
  \<open>entry_codec\<close> states what the array code relies on: a load sees the twelve bytes of
  its slot, a store overwrites exactly these, and a load returns what was stored.  The
  memmove idioms of the port (open a gap, close a gap, copy the upper half to a new
  node) are proved once here as list equations and interpreted for both entry kinds.
\<close>

definition slot :: "nat \<Rightarrow> nat" where
  "slot i = EXT4_EXTENT_HEADER_SIZE + i * EXT4_EXTENT_SIZE"

lemma slot_Suc: "slot (Suc i) = slot i + 12"
  by (simp add: slot_def)

lemma slot_le: "i \<le> j \<Longrightarrow> slot i \<le> slot j"
  by (simp add: slot_def)

lemma slot_ge_header: "12 \<le> slot i"
  by (simp add: slot_def)

definition slots :: "(bytes \<Rightarrow> nat \<Rightarrow> 'a) \<Rightarrow> nat \<Rightarrow> bytes \<Rightarrow> 'a list" where
  "slots load n d = map (\<lambda>i. load d (slot i)) [0..<n]"

lemma length_slots [simp]: "length (slots load n d) = n"
  by (simp add: slots_def)

lemma nth_slots [simp]: "i < n \<Longrightarrow> slots load n d ! i = load d (slot i)"
  by (simp add: slots_def)

lemma slots_take: "m \<le> n \<Longrightarrow> take m (slots load n d) = slots load m d"
  by (simp add: slots_def take_map)

lemma slots_0 [simp]: "slots load 0 d = []"
  by (simp add: slots_def)

lemma slots_Suc: "slots load (Suc n) d = slots load n d @ [load d (slot n)]"
  by (simp add: slots_def)

locale entry_codec =
  fixes load :: "bytes \<Rightarrow> nat \<Rightarrow> 'a"
    and store :: "nat \<Rightarrow> 'a \<Rightarrow> bytes \<Rightarrow> bytes"
    and enc :: "'a \<Rightarrow> bytes"
  assumes load_cong: "mem_read off 12 d = mem_read off' 12 d' \<Longrightarrow> off + 12 \<le> length d \<Longrightarrow>
      off' + 12 \<le> length d' \<Longrightarrow> load d off = load d' off'"
    and store_write: "off + 12 \<le> length d \<Longrightarrow> store off x d = mem_write off (enc x) d"
    and length_enc: "length (enc x) = 12"
    and load_store: "off + 12 \<le> length d \<Longrightarrow> load (store off x d) off = x"
begin

lemma length_store: "off + 12 \<le> length d \<Longrightarrow> length (store off x d) = length d"
  by (simp add: store_write length_enc mem_simps)

lemma read_store_other:
  "off + 12 \<le> length d \<Longrightarrow> a + n \<le> length d \<Longrightarrow> a + n \<le> off \<or> off + 12 \<le> a \<Longrightarrow>
   mem_read a n (store off x d) = mem_read a n d"
  by (simp add: store_write length_enc mem_simps)

lemma load_store_other:
  "off + 12 \<le> length d \<Longrightarrow> a + 12 \<le> length d \<Longrightarrow> a + 12 \<le> off \<or> off + 12 \<le> a \<Longrightarrow>
   load (store off x d) a = load d a"
  by (rule load_cong) (simp_all add: read_store_other length_store)

lemma store_commute:
  "off + 12 \<le> length d \<Longrightarrow> a + 12 \<le> length d \<Longrightarrow> a + 12 \<le> off \<or> off + 12 \<le> a \<Longrightarrow>
   store off x (store a y d) = store a y (store off x d)"
  using mem_write_commute [of off "enc x" a "enc y" d]
  by (simp add: store_write length_enc mem_simps disj_commute)

lemma slots_cong:
  assumes "\<And>i. i < n \<Longrightarrow> mem_read (slot i) 12 d = mem_read (slot i) 12 d'"
    and "slot n \<le> length d" "slot n \<le> length d'"
  shows "slots load n d = slots load n d'"
proof (rule nth_equalityI)
  fix i assume "i < length (slots load n d)"
  then have "i < n" by simp
  then have "slot i + 12 \<le> slot n" by (simp add: slot_def)
  with assms \<open>i < n\<close> show "slots load n d ! i = slots load n d' ! i"
    by (auto intro!: load_cong)
qed simp

lemma slots_header_store:
  assumes "slot n \<le> length d"
  shows "slots load n (header_store h d) = slots load n d"
proof -
  have len: "12 \<le> length d" using assms slot_ge_header [of n] by linarith
  show ?thesis
  proof (rule slots_cong)
    fix i assume "i < n"
    then show "mem_read (slot i) 12 (header_store h d) = mem_read (slot i) 12 d"
      using assms len by (simp add: header_store_bytes mem_simps slot_def)
  qed (use assms len in \<open>simp_all add: header_store_bytes mem_simps\<close>)
qed

lemma slots_store:
  assumes "pos < n" "slot n \<le> length d"
  shows "slots load n (store (slot pos) x d) = (slots load n d)[pos := x]"
proof (rule nth_equalityI)
  fix i assume "i < length (slots load n (store (slot pos) x d))"
  then have i: "i < n" by simp
  then have "slot i + 12 \<le> length d" "slot pos + 12 \<le> length d"
    using assms by (simp_all add: slot_def)
  moreover have "i \<noteq> pos \<Longrightarrow> slot i + 12 \<le> slot pos \<or> slot pos + 12 \<le> slot i"
    by (auto simp: slot_def)
  ultimately show "slots load n (store (slot pos) x d) ! i = (slots load n d)[pos := x] ! i"
    using i by (cases "i = pos") (simp_all add: load_store load_store_other)
qed simp

text \<open>Opening a gap: entries from \<open>pos\<close> on move one slot up and the gap is filled.\<close>

lemma load_moved:
  assumes "slot (dst + m) \<le> length d" "slot (src + m) \<le> length d" "i < m"
  shows "load (mem_move (slot dst) (slot src) (m * 12) d) (slot (dst + i)) = load d (slot (src + i))"
proof (rule load_cong)
  have "mem_read (slot dst + i * 12) 12 (mem_move (slot dst) (slot src) (m * 12) d)
      = mem_read (slot src + i * 12) 12 d"
    using assms by (intro mem_read_moved) (auto simp: slot_def)
  then show "mem_read (slot (dst + i)) 12 (mem_move (slot dst) (slot src) (m * 12) d)
      = mem_read (slot (src + i)) 12 d"
    by (simp add: slot_def algebra_simps)
  show "slot (dst + i) + 12 \<le> length (mem_move (slot dst) (slot src) (m * 12) d)"
    using assms by (subst length_mem_move) (auto simp: slot_def)
qed (use assms in \<open>auto simp: slot_def\<close>)

lemma load_move_other:
  assumes "slot (dst + m) \<le> length d" "slot (src + m) \<le> length d" "slot (Suc i) \<le> length d"
    and "i < dst \<or> dst + m \<le> i"
  shows "load (mem_move (slot dst) (slot src) (m * 12) d) (slot i) = load d (slot i)"
proof (rule load_cong)
  show "mem_read (slot i) 12 (mem_move (slot dst) (slot src) (m * 12) d) = mem_read (slot i) 12 d"
    using assms by (intro mem_read_move_other) (auto simp: slot_def)
  show "slot i + 12 \<le> length (mem_move (slot dst) (slot src) (m * 12) d)"
    using assms by (subst length_mem_move) (auto simp: slot_def)
qed (use assms in \<open>auto simp: slot_def\<close>)

lemma length_slot_move:
  "slot (dst + m) \<le> length d \<Longrightarrow> slot (src + m) \<le> length d \<Longrightarrow>
   length (mem_move (slot dst) (slot src) (m * 12) d) = length d"
  by (rule length_mem_move) (auto simp: slot_def)

lemma slots_insert:
  assumes "pos \<le> n" "slot (Suc n) \<le> length d"
  shows "slots load (Suc n)
      (store (slot pos) x (mem_move (slot (pos + 1)) (slot pos) ((n - pos) * 12) d))
    = take pos (slots load n d) @ x # drop pos (slots load n d)"
    (is "slots load _ (store _ _ ?m) = _")
proof (rule nth_equalityI)
  have bounds: "slot (pos + 1 + (n - pos)) \<le> length d" "slot (pos + (n - pos)) \<le> length d"
    using assms by (auto simp: slot_def)
  note len = length_slot_move [OF bounds]
  fix i assume "i < length (slots load (Suc n) (store (slot pos) x ?m))"
  then have i: "i < Suc n" by simp
  have st: "load (store (slot pos) x ?m) (slot i) = (if i = pos then x else load ?m (slot i))"
    using i assms len
    by (auto simp: load_store slot_def intro!: load_store_other)
  have hi: "load ?m (slot i) = load d (slot (i - 1))" if "pos < i"
    using load_moved [OF bounds, of "i - 1 - pos"] that i by simp
  have lo: "load ?m (slot i) = load d (slot i)" if "i < pos"
    using load_move_other [OF bounds, of i] that i assms by (auto simp: slot_def)
  show "slots load (Suc n) (store (slot pos) x ?m) ! i
      = (take pos (slots load n d) @ x # drop pos (slots load n d)) ! i"
    using i assms(1) st hi lo
    by (cases i pos rule: linorder_cases) (auto simp: nth_append min_def nth_Cons')
qed (use assms in simp)

text \<open>Closing a gap: the entries behind \<open>src\<close> move down to \<open>dst\<close>.\<close>

lemma slots_close_gap:
  assumes "dst \<le> src" "src \<le> n" "slot n \<le> length d"
  shows "slots load (dst + (n - src)) (mem_move (slot dst) (slot src) ((n - src) * 12) d)
    = take dst (slots load n d) @ drop src (slots load n d)"
proof (rule nth_equalityI)
  have bounds: "slot (dst + (n - src)) \<le> length d" "slot (src + (n - src)) \<le> length d"
    using assms by (auto simp: slot_def)
  fix i assume "i < length (slots load (dst + (n - src)) (mem_move (slot dst) (slot src) ((n - src) * 12) d))"
  then have i: "i < dst + (n - src)" by simp
  show "slots load (dst + (n - src)) (mem_move (slot dst) (slot src) ((n - src) * 12) d) ! i
      = (take dst (slots load n d) @ drop src (slots load n d)) ! i"
  proof (cases "i < dst")
    case True
    then show ?thesis
      using i assms load_move_other [OF bounds, of i] by (auto simp: nth_append slot_def)
  next
    case False
    then show ?thesis
      using i assms load_moved [OF bounds, of "i - dst"] by (auto simp: nth_append)
  qed
qed (use assms in simp)

text \<open>Copying the slots from \<open>src\<close> on to the start of another node.\<close>

lemma slots_copy:
  assumes "src + m \<le> n" "slot n \<le> length d" "slot m \<le> length d'"
  shows "slots load m (mem_write (slot 0) (mem_read (slot src) (m * 12) d) d')
    = take m (drop src (slots load n d))"
proof (rule nth_equalityI)
  have len: "length (mem_read (slot src) (m * 12) d) = m * 12"
    using assms by (subst length_mem_read) (auto simp: slot_def)
  fix i assume "i < length (slots load m (mem_write (slot 0) (mem_read (slot src) (m * 12) d) d'))"
  then have i: "i < m" by simp
  have "mem_read (slot i) 12 (mem_write (slot 0) (mem_read (slot src) (m * 12) d) d')
      = mem_read (i * 12) 12 (mem_read (slot src) (m * 12) d)"
    using i assms len
    by (intro nth_equalityI) (auto simp: mem_simps slot_def add.assoc)
  also have "\<dots> = mem_read (slot (src + i)) 12 d"
    using i assms by (subst mem_read_read) (auto simp: slot_def algebra_simps)
  finally have "load (mem_write (slot 0) (mem_read (slot src) (m * 12) d) d') (slot i)
      = load d (slot (src + i))"
    using i assms len by (intro load_cong) (auto simp: mem_simps slot_def)
  then show "slots load m (mem_write (slot 0) (mem_read (slot src) (m * 12) d) d') ! i
      = take m (drop src (slots load n d)) ! i"
    using i assms by simp
qed (use assms in simp)

end

interpretation ext: entry_codec extent_load extent_store extent_bytes
  by unfold_locales (erule (2) extent_load_cong, erule extent_store_bytes, simp, erule extent_load_store)

interpretation idx: entry_codec index_load index_store index_bytes
  by unfold_locales (erule (2) index_load_cong, erule index_store_bytes, simp, erule index_load_store)

end
