(* ===== verification/Extent_Node.thy ===== *)
theory Extent_Node
  imports Extent_Slots
begin

text \<open>
  Operations on one node held in memory: the binary searches of a leaf and of an index
  node, the header check, the full and the selective check of the entries, the merge
  test and the insertion position.  Each is shown to compute what its specification on
  the list of entries says.
\<close>

section \<open>The file system constants the port reads\<close>

text \<open>
  The superblock and inode fields behind ext4_sb_get_blocks_cnt,
  ext4_sb_get_block_size, features_read_only, uuid, the inode number and
  generation.  From lwext4 itself come \<open>csum_flag\<close>, the value of
  EXT4_FRO_COM_METADATA_CSUM, \<open>crc32_init\<close>, the value of EXT4_CRC32_INIT, and \<open>crc32c\<close>,
  the function ext4_crc32c.
\<close>

record ext4_sb =
  sb_block_size :: u32
  sb_blocks_cnt :: u64
  features_read_only :: u32
  csum_flag :: u32
  uuid :: bytes
  ino_index :: u32
  ino_generation :: u32
  crc32_init :: u32
  crc32c :: "u32 \<Rightarrow> bytes \<Rightarrow> u32"

section \<open>Binary search\<close>

text \<open>
  The loop variables l and r are uint32_t; they stay between 0 and 65535 (the
  search starts at l = 1, so m is at least 1 and m - 1 does not wrap), hence
  \<open>int\<close> computes the same values.
\<close>

function binsearch_extent_loop :: "bytes \<Rightarrow> u32 \<Rightarrow> int \<Rightarrow> int \<Rightarrow> int" where
  "binsearch_extent_loop data lblock l r =
     (if l \<le> r then
        (let m = l + (r - l) div 2;
             ext = extent_load data (slot (nat m)) in
         if lblock < first_block ext then binsearch_extent_loop data lblock l (m - 1)
         else binsearch_extent_loop data lblock (m + 1) r)
      else l)"
  by pat_completeness auto
termination
  by (relation "measure (\<lambda>(data, lblock, l, r). nat (r + 1 - l))") auto

definition binsearch_extent :: "bytes \<Rightarrow> ext4_extent_header \<Rightarrow> u32 \<Rightarrow> ext4_extent \<times> nat" where
  "binsearch_extent data header lblock =
     (if entries_count header = 0 then (extent_load data (slot 0), 0)
      else
        let l = binsearch_extent_loop data lblock 1 (int (unat (entries_count header)) - 1);
            pos = nat (l - 1)
        in (extent_load data (slot pos), pos))"

function binsearch_idx_loop :: "bytes \<Rightarrow> u32 \<Rightarrow> int \<Rightarrow> int \<Rightarrow> int" where
  "binsearch_idx_loop data lblock l r =
     (if l \<le> r then
        (let m = l + (r - l) div 2;
             index = index_load data (slot (nat m)) in
         if lblock < ix_first_block index then
           (if m = 0 then l else binsearch_idx_loop data lblock l (m - 1))
         else binsearch_idx_loop data lblock (m + 1) r)
      else l)"
  by pat_completeness auto
termination
  by (relation "measure (\<lambda>(data, lblock, l, r). nat (r + 1 - l))") auto

definition binsearch_idx :: "bytes \<Rightarrow> bool \<Rightarrow> ext4_extent_header \<Rightarrow> u32 \<Rightarrow> nat option" where
  "binsearch_idx data is_root header lblock =
     (if entries_count header = 0 then None
      else
        let l = binsearch_idx_loop data lblock 1 (int (unat (entries_count header)) - 1)
        in if l = 0 then None else Some (nat (l - 1)))"

declare binsearch_extent_loop.simps [simp del] binsearch_idx_loop.simps [simp del]

section \<open>Checks\<close>

definition validate_header :: "bool \<Rightarrow> u32 \<Rightarrow> ext4_extent_header \<Rightarrow> errno" where
  "validate_header is_root block_size header =
     (let capacity = (if is_root then of_nat EXT4_EXTENT_ROOT_MAX_ENTRIES
                      else (block_size - 12) div 12) in
      if magic header \<noteq> EXT4_EXTENT_MAGIC \<or> unat (depth header) > EXT4_EXTENT_MAX_DEPTH then EIO
      else if max_entries_count header = 0 \<or> entries_count header > max_entries_count header \<or>
         ucast (max_entries_count header) > (capacity :: u32) then EIO
      else EOK)"

function validate_entries_loop ::
  "u64 \<Rightarrow> bytes \<Rightarrow> ext4_extent_header \<Rightarrow> nat \<Rightarrow> u64 \<Rightarrow> u32 \<Rightarrow> errno" where
  "validate_entries_loop fs_blocks data header i previous_end previous_key =
     (if i < unat (entries_count header) then
        (if depth header = 0 then
           (let extent = extent_load data (slot i);
                len = ucast (extent_get_actual_len extent) :: u32;
                logical_end = ucast (first_block extent) + ucast len :: u64;
                physical = extent_get_pblock extent in
            if len = 0 \<or> logical_end > of_nat UINT32_MAX + 1 \<or> physical = 0 \<or> physical \<ge> fs_blocks \<or>
               ucast len > fs_blocks - physical then EIO
            else if i > 0 \<and> ucast (first_block extent) < previous_end then EIO
            else validate_entries_loop fs_blocks data header (i + 1) logical_end previous_key)
         else
           (let index = index_load data (slot i);
                child = index_get_pblock index in
            if child = 0 \<or> child \<ge> fs_blocks \<or> (i > 0 \<and> ix_first_block index \<le> previous_key) then EIO
            else validate_entries_loop fs_blocks data header (i + 1) previous_end (ix_first_block index)))
      else EOK)"
  by pat_completeness auto
termination
  by (relation "measure (\<lambda>(fs, data, h, i, pe, pk). unat (entries_count h) - i)") auto

declare validate_entries_loop.simps [simp del]

definition validate_entries :: "ext4_sb \<Rightarrow> bytes \<Rightarrow> ext4_extent_header \<Rightarrow> errno" where
  "validate_entries sb data header = validate_entries_loop (sb_blocks_cnt sb) data header 0 0 0"

definition validate_selected_entry :: "ext4_sb \<Rightarrow> bytes \<Rightarrow> ext4_extent_header \<Rightarrow> nat \<Rightarrow> errno" where
  "validate_selected_entry sb data header pos =
     (let fs_blocks = sb_blocks_cnt sb in
      if pos \<ge> unat (entries_count header) then EIO
      else if depth header = 0 then
        (let current = extent_load data (slot pos);
             len = ucast (extent_get_actual_len current) :: u32;
             logical_end = ucast (first_block current) + ucast len :: u64;
             physical = extent_get_pblock current;
             previous = extent_load data (slot (pos - 1));
             next = extent_load data (slot (pos + 1)) in
         if len = 0 \<or> logical_end > of_nat UINT32_MAX + 1 \<or> physical = 0 \<or> physical \<ge> fs_blocks \<or>
            ucast len > fs_blocks - physical then EIO
         else if pos > 0 \<and>
            (ucast (first_block previous) + ucast (extent_get_actual_len previous) :: u64)
              > ucast (first_block current) then EIO
         else if pos + 1 < unat (entries_count header) \<and> logical_end > ucast (first_block next) then EIO
         else EOK)
      else
        (let current = index_load data (slot pos);
             child = index_get_pblock current;
             previous = index_load data (slot (pos - 1));
             next = index_load data (slot (pos + 1)) in
         if child = 0 \<or> child \<ge> fs_blocks then EIO
         else if pos > 0 \<and> ix_first_block previous \<ge> ix_first_block current then EIO
         else if pos + 1 < unat (entries_count header) \<and> ix_first_block current \<ge> ix_first_block next then EIO
         else EOK))"

section \<open>Merging and inserting\<close>

definition can_merge :: "ext4_extent \<Rightarrow> ext4_extent \<Rightarrow> bool" where
  "can_merge ex1 ex2 =
     (if extent_is_unwritten ex1 \<noteq> extent_is_unwritten ex2 then False
      else
        let len1 = extent_get_actual_len ex1; len2 = extent_get_actual_len ex2 in
        if first_block ex1 + ucast len1 \<noteq> first_block ex2 then False
        else
          let max_len = (if extent_is_unwritten ex1 then ucast EXT_INIT_MAX_LEN - 1
                         else ucast EXT_INIT_MAX_LEN) :: u32 in
          if ucast len1 + ucast len2 > max_len then False
          else extent_get_pblock ex1 + ucast len1 = extent_get_pblock ex2)"

text \<open>entry_insert_pos: the argument is the entry array behind the header.\<close>

function entry_insert_pos_from :: "bytes \<Rightarrow> nat \<Rightarrow> u32 \<Rightarrow> nat \<Rightarrow> nat" where
  "entry_insert_pos_from data count fblk pos =
     (if pos < count then
        (if read_le32 data (slot pos) > fblk then pos
         else entry_insert_pos_from data count fblk (pos + 1))
      else pos)"
  by pat_completeness auto
termination
  by (relation "measure (\<lambda>(data, count, fblk, pos). count - pos)") auto

declare entry_insert_pos_from.simps [simp del]

definition entry_insert_pos :: "bytes \<Rightarrow> nat \<Rightarrow> u32 \<Rightarrow> nat" where
  "entry_insert_pos data count fblk = entry_insert_pos_from data count fblk 0"

section \<open>Correctness of the binary searches\<close>

text \<open>
  Both searches run the same loop over a key array.  \<open>binary_search\<close> is the contract of
  the loop: how one iteration moves the bounds.  No sortedness is needed to say where
  the loop stops.
\<close>

locale binary_search =
  fixes key :: "nat \<Rightarrow> u32"
    and loop :: "u32 \<Rightarrow> int \<Rightarrow> int \<Rightarrow> int"
  assumes loop_stop: "r < l \<Longrightarrow> loop lb l r = l"
    and loop_left: "1 \<le> l \<Longrightarrow> l \<le> r \<Longrightarrow> lb < key (nat (l + (r - l) div 2)) \<Longrightarrow>
      loop lb l r = loop lb l (l + (r - l) div 2 - 1)"
    and loop_right: "1 \<le> l \<Longrightarrow> l \<le> r \<Longrightarrow> \<not> lb < key (nat (l + (r - l) div 2)) \<Longrightarrow>
      loop lb l r = loop lb (l + (r - l) div 2 + 1) r"
begin

lemma loop_result:
  assumes "1 \<le> l" "l \<le> r + 1"
  shows "l \<le> loop lb l r \<and> loop lb l r \<le> r + 1
    \<and> (l < loop lb l r \<longrightarrow> \<not> lb < key (nat (loop lb l r - 1)))
    \<and> (loop lb l r \<le> r \<longrightarrow> lb < key (nat (loop lb l r)))"
  using assms
proof (induction "nat (r + 1 - l)" arbitrary: l r rule: less_induct)
  case less
  define m where "m = l + (r - l) div 2"
  show ?case
  proof (cases "l \<le> r")
    case False
    then have "loop lb l r = l" by (intro loop_stop) simp
    with False less.prems show ?thesis by simp
  next
    case True
    then have m: "l \<le> m" "m \<le> r" by (simp_all add: m_def)
    show ?thesis
    proof (cases "lb < key (nat m)")
      case True
      with m less.prems \<open>l \<le> r\<close> have "loop lb l r = loop lb l (m - 1)"
        using loop_left [of l r lb] by (simp add: m_def)
      with less.hyps [of "m - 1" l] less.prems m True show ?thesis
        by (cases "loop lb l (m - 1) = m") auto
    next
      case False
      with m less.prems \<open>l \<le> r\<close> have "loop lb l r = loop lb (m + 1) r"
        using loop_right [of l r lb] by (simp add: m_def)
      with less.hyps [of r "m + 1"] less.prems m False show ?thesis
        by (cases "loop lb (m + 1) r = m + 1") auto
    qed
  qed
qed

text \<open>The search over entries 1 to n - 1, as a position in 0 to n - 1.\<close>

lemma search_result:
  assumes "0 < n" "pos = nat (loop lb 1 (int n - 1) - 1)"
  shows "pos < n" and "0 < pos \<Longrightarrow> key pos \<le> lb" and "pos + 1 < n \<Longrightarrow> lb < key (pos + 1)"
    and "0 < loop lb 1 (int n - 1)"
proof -
  let ?l = "loop lb 1 (int n - 1)"
  have *: "1 \<le> ?l \<and> ?l \<le> int n - 1 + 1 \<and> (1 < ?l \<longrightarrow> \<not> lb < key (nat (?l - 1)))
      \<and> (?l \<le> int n - 1 \<longrightarrow> lb < key (nat ?l))"
    using assms(1) by (intro loop_result) simp_all
  then have l: "?l = int pos + 1" using assms(2) by simp
  from * show "0 < ?l" by simp
  from * show "pos < n" unfolding l by simp
  from * show "0 < pos \<Longrightarrow> key pos \<le> lb" unfolding l by (simp add: not_less)
  from * show "pos + 1 < n \<Longrightarrow> lb < key (pos + 1)" unfolding l
    by (simp add: nat_add_distrib)
qed

end

interpretation ext_search: binary_search
  "\<lambda>m. first_block (extent_load data (slot m))" "binsearch_extent_loop data" for data
  by unfold_locales (simp_all add: binsearch_extent_loop.simps [of data] Let_def)

interpretation idx_search: binary_search
  "\<lambda>m. ix_first_block (index_load data (slot m))" "binsearch_idx_loop data" for data
  by unfold_locales (auto simp: binsearch_idx_loop.simps [of data] Let_def)

lemma binsearch_extent_pos:
  assumes "entries_count h \<noteq> 0" "binsearch_extent data h lblock = (e, pos)"
  shows "pos < unat (entries_count h)" and "e = extent_load data (slot pos)"
    and "0 < pos \<Longrightarrow> first_block e \<le> lblock"
    and "pos + 1 < unat (entries_count h) \<Longrightarrow> lblock < first_block (extent_load data (slot (pos + 1)))"
proof -
  have n: "0 < unat (entries_count h)" using assms(1) by (simp add: unat_gt_0)
  have pos: "pos = nat (binsearch_extent_loop data lblock 1 (int (unat (entries_count h)) - 1) - 1)"
    and e: "e = extent_load data (slot pos)"
    using assms by (auto simp: binsearch_extent_def Let_def)
  note r = ext_search.search_result [OF n pos]
  show "pos < unat (entries_count h)" "e = extent_load data (slot pos)" by (fact r(1), fact e)
  show "0 < pos \<Longrightarrow> first_block e \<le> lblock" using r(2) e by simp
  show "pos + 1 < unat (entries_count h) \<Longrightarrow> lblock < first_block (extent_load data (slot (pos + 1)))"
    by (fact r(3))
qed

lemma binsearch_idx_pos:
  assumes "binsearch_idx data is_root h lblock = Some pos"
  shows "pos < unat (entries_count h)"
    and "0 < pos \<Longrightarrow> ix_first_block (index_load data (slot pos)) \<le> lblock"
    and "pos + 1 < unat (entries_count h) \<Longrightarrow> lblock < ix_first_block (index_load data (slot (pos + 1)))"
proof -
  have ne: "entries_count h \<noteq> 0" using assms by (auto simp: binsearch_idx_def)
  have n: "0 < unat (entries_count h)" using ne by (simp add: unat_gt_0)
  have pos: "pos = nat (binsearch_idx_loop data lblock 1 (int (unat (entries_count h)) - 1) - 1)"
    using assms ne by (auto simp: binsearch_idx_def Let_def split: if_splits)
  note r = idx_search.search_result [OF n pos]
  show "pos < unat (entries_count h)" by (fact r(1))
  show "0 < pos \<Longrightarrow> ix_first_block (index_load data (slot pos)) \<le> lblock" by (fact r(2))
  show "pos + 1 < unat (entries_count h) \<Longrightarrow> lblock < ix_first_block (index_load data (slot (pos + 1)))"
    by (fact r(3))
qed

lemma binsearch_idx_None: "binsearch_idx data is_root h lblock = None \<longleftrightarrow> entries_count h = 0"
proof (cases "entries_count h = 0")
  case False
  then have "0 < binsearch_idx_loop data lblock 1 (int (unat (entries_count h)) - 1)"
    by (intro idx_search.search_result(4)) (simp_all add: unat_gt_0)
  with False show ?thesis by (simp add: binsearch_idx_def Let_def)
qed (simp add: binsearch_idx_def)

section \<open>What the checks accept\<close>

text \<open>
  The specifications speak of natural numbers, where nothing wraps: an extent maps
  \<open>e_len e\<close> blocks from \<open>e_first e\<close> to \<open>e_phys e\<close>.
\<close>

definition e_first :: "ext4_extent \<Rightarrow> nat" where "e_first e = unat (first_block e)"
definition e_len :: "ext4_extent \<Rightarrow> nat" where "e_len e = unat (extent_get_actual_len e)"
definition e_end :: "ext4_extent \<Rightarrow> nat" where "e_end e = e_first e + e_len e"
definition e_phys :: "ext4_extent \<Rightarrow> nat" where "e_phys e = unat (extent_get_pblock e)"

definition extent_ok :: "u64 \<Rightarrow> ext4_extent \<Rightarrow> bool" where
  "extent_ok fs_blocks e \<longleftrightarrow> 0 < e_len e \<and> e_end e \<le> 2 ^ 32 \<and> 0 < e_phys e
     \<and> e_phys e + e_len e \<le> unat fs_blocks"

definition extents_ok :: "u64 \<Rightarrow> ext4_extent list \<Rightarrow> bool" where
  "extents_ok fs_blocks es \<longleftrightarrow> (\<forall>e \<in> set es. extent_ok fs_blocks e)
     \<and> sorted_wrt (\<lambda>a b. e_end a \<le> e_first b) es"

definition index_ok :: "u64 \<Rightarrow> ext4_extent_index \<Rightarrow> bool" where
  "index_ok fs_blocks x \<longleftrightarrow> 0 < index_get_pblock x \<and> index_get_pblock x < fs_blocks"

definition indices_ok :: "u64 \<Rightarrow> ext4_extent_index list \<Rightarrow> bool" where
  "indices_ok fs_blocks xs \<longleftrightarrow> (\<forall>x \<in> set xs. index_ok fs_blocks x)
     \<and> sorted_wrt (\<lambda>a b. ix_first_block a < ix_first_block b) xs"

lemma unat_logical_end:
  "unat (ucast (first_block e) + ucast (ucast (extent_get_actual_len e) :: u32) :: u64) = e_end e"
  "unat (ucast (first_block e) + ucast (extent_get_actual_len e) :: u64) = e_end e"
  using unat32_less [of "first_block e"] unat16_less [of "extent_get_actual_len e"]
  by (simp_all add: unat_word_ariths e_end_def e_first_def e_len_def)

lemma unat_len32: "unat (ucast (extent_get_actual_len e) :: u32) = e_len e"
  by (simp add: e_len_def)

lemma unat_len64: "unat (ucast (extent_get_actual_len e) :: u64) = e_len e"
  by (simp add: e_len_def)

lemma unat_first64: "unat (ucast (first_block e) :: u64) = e_first e"
  by (simp add: e_first_def)

lemmas extent_nat_simps = unat_logical_end unat_len32 unat_len64 unat_first64

lemma extent_check_iff:
  "(ucast (extent_get_actual_len e) = (0 :: u32) \<or>
    (ucast (first_block e) + ucast (ucast (extent_get_actual_len e) :: u32) :: u64) > of_nat UINT32_MAX + 1 \<or>
    extent_get_pblock e = 0 \<or> extent_get_pblock e \<ge> fs_blocks \<or>
    (ucast (ucast (extent_get_actual_len e) :: u32) :: u64) > fs_blocks - extent_get_pblock e)
   \<longleftrightarrow> \<not> extent_ok fs_blocks e"
proof -
  have "ucast (extent_get_actual_len e) = (0 :: u32) \<longleftrightarrow> e_len e = 0"
    using unat_len32 [of e] by (metis unat_eq_zero)
  moreover have "extent_get_pblock e = 0 \<longleftrightarrow> e_phys e = 0"
    by (simp add: e_phys_def unat_eq_zero)
  moreover have "(extent_get_pblock e \<ge> fs_blocks) \<longleftrightarrow> unat fs_blocks \<le> e_phys e"
    by (simp add: e_phys_def word_le_nat_alt)
  moreover have "(ucast (first_block e) + ucast (ucast (extent_get_actual_len e) :: u32) :: u64)
      > of_nat UINT32_MAX + 1 \<longleftrightarrow> 2 ^ 32 < e_end e"
    by (simp add: word_less_nat_alt unat_logical_end)
  moreover have "(ucast (ucast (extent_get_actual_len e) :: u32) :: u64) > fs_blocks - extent_get_pblock e
      \<longleftrightarrow> unat fs_blocks < e_phys e + e_len e" if "e_phys e < unat fs_blocks"
    using that by (auto simp: word_less_nat_alt e_len_def e_phys_def unat_sub_if')
  ultimately show ?thesis by (auto simp: extent_ok_def not_le)
qed

lemma index_check_iff:
  "(index_get_pblock x = 0 \<or> index_get_pblock x \<ge> fs_blocks) \<longleftrightarrow> \<not> index_ok fs_blocks x"
  by (auto simp: index_ok_def word_neq_0_conv not_less)

lemma leaf_order_iff:
  "(ucast (first_block e) :: u64) < ucast (first_block p) + ucast (ucast (extent_get_actual_len p) :: u32)
     \<longleftrightarrow> \<not> e_end p \<le> e_first e"
  "(ucast (first_block p) + ucast (extent_get_actual_len p) :: u64) > ucast (first_block e)
     \<longleftrightarrow> \<not> e_end p \<le> e_first e"
  "(ucast (first_block p) + ucast (ucast (extent_get_actual_len p) :: u32) :: u64) > ucast (first_block e)
     \<longleftrightarrow> \<not> e_end p \<le> e_first e"
  by (simp_all add: word_less_nat_alt unat_logical_end e_first_def not_le)

text \<open>The scan of the whole node accepts exactly the well-formed entry lists.\<close>

lemma validate_leaf_loop:
  assumes "depth h = 0" "i \<le> unat (entries_count h)"
    and "i = 0 \<or> pe = ucast (first_block (extent_load data (slot (i - 1))))
      + ucast (extent_get_actual_len (extent_load data (slot (i - 1))))"
  shows "validate_entries_loop fs data h i pe pk = EOK \<longleftrightarrow>
    (\<forall>j. i \<le> j \<and> j < unat (entries_count h) \<longrightarrow> extent_ok fs (extent_load data (slot j))
       \<and> (0 < j \<longrightarrow> e_end (extent_load data (slot (j - 1))) \<le> e_first (extent_load data (slot j))))"
  using assms
proof (induction "unat (entries_count h) - i" arbitrary: i pe pk)
  case 0
  then show ?case by (auto simp: validate_entries_loop.simps [of fs data h i])
next
  case (Suc k)
  then have i: "i < unat (entries_count h)" by simp
  let ?e = "extent_load data (slot i)" and ?p = "extent_load data (slot (i - 1))"
  let ?lend = "ucast (first_block ?e) + ucast (ucast (extent_get_actual_len ?e) :: u32) :: u64"
  have order: "(0 < i \<and> ucast (first_block ?e) < pe) \<longleftrightarrow> \<not> (0 < i \<longrightarrow> e_end ?p \<le> e_first ?e)"
    using Suc.prems(3) leaf_order_iff(1) [of ?e ?p] by auto
  have step: "validate_entries_loop fs data h i pe pk =
      (if \<not> extent_ok fs ?e then EIO
       else if \<not> (0 < i \<longrightarrow> e_end ?p \<le> e_first ?e) then EIO
       else validate_entries_loop fs data h (i + 1) ?lend pk)"
    using i Suc.prems(1) order
    by (subst validate_entries_loop.simps) (simp only: Let_def extent_check_iff if_True simp_thms)
  have IH: "validate_entries_loop fs data h (i + 1) ?lend pk = EOK \<longleftrightarrow>
    (\<forall>j. i + 1 \<le> j \<and> j < unat (entries_count h) \<longrightarrow> extent_ok fs (extent_load data (slot j))
       \<and> (0 < j \<longrightarrow> e_end (extent_load data (slot (j - 1))) \<le> e_first (extent_load data (slot j))))"
    using i Suc.hyps(2) Suc.prems(1) by (intro Suc.hyps(1)) simp_all
  show ?case
    unfolding step using i IH
    by (auto simp: le_eq_less_or_eq [of i] Suc_le_eq simp del: ucast_16_32_64)
qed

lemma validate_index_loop:
  assumes "depth h \<noteq> 0" "i \<le> unat (entries_count h)"
    and "i = 0 \<or> pk = ix_first_block (index_load data (slot (i - 1)))"
  shows "validate_entries_loop fs data h i pe pk = EOK \<longleftrightarrow>
    (\<forall>j. i \<le> j \<and> j < unat (entries_count h) \<longrightarrow> index_ok fs (index_load data (slot j))
       \<and> (0 < j \<longrightarrow> ix_first_block (index_load data (slot (j - 1))) < ix_first_block (index_load data (slot j))))"
  using assms
proof (induction "unat (entries_count h) - i" arbitrary: i pe pk)
  case 0
  then show ?case by (auto simp: validate_entries_loop.simps [of fs data h i])
next
  case (Suc k)
  then have i: "i < unat (entries_count h)" by simp
  let ?x = "index_load data (slot i)" and ?p = "index_load data (slot (i - 1))"
  have step: "validate_entries_loop fs data h i pe pk =
      (if \<not> index_ok fs ?x then EIO
       else if \<not> (0 < i \<longrightarrow> ix_first_block ?p < ix_first_block ?x) then EIO
       else validate_entries_loop fs data h (i + 1) pe (ix_first_block ?x))"
    using i Suc.prems(1,3) index_check_iff [of ?x fs]
    by (subst validate_entries_loop.simps) (auto simp: Let_def not_less)
  have IH: "validate_entries_loop fs data h (i + 1) pe (ix_first_block ?x) = EOK \<longleftrightarrow>
    (\<forall>j. i + 1 \<le> j \<and> j < unat (entries_count h) \<longrightarrow> index_ok fs (index_load data (slot j))
       \<and> (0 < j \<longrightarrow> ix_first_block (index_load data (slot (j - 1))) < ix_first_block (index_load data (slot j))))"
    using i Suc.hyps(2) Suc.prems(1) by (intro Suc.hyps(1)) simp_all
  show ?case
    unfolding step using i IH by (auto simp: le_eq_less_or_eq [of i] Suc_le_eq)
qed

lemma transp_extent_order: "transp (\<lambda>a b. e_end a \<le> e_first b)"
  by (rule transpI) (simp add: e_end_def)

lemma transp_index_order: "transp (\<lambda>a b. ix_first_block a < ix_first_block b)"
  by (rule transpI) simp

lemma adjacent_pred: "(\<forall>j. j < n \<longrightarrow> 0 < j \<longrightarrow> P (j - 1) j) \<longleftrightarrow> (\<forall>i. Suc i < n \<longrightarrow> P i (Suc i))"
  by (metis Suc_pred' diff_Suc_1 zero_less_Suc)

lemma extents_ok_slots:
  "extents_ok fs (slots extent_load n data) \<longleftrightarrow>
    (\<forall>j < n. extent_ok fs (extent_load data (slot j))
       \<and> (0 < j \<longrightarrow> e_end (extent_load data (slot (j - 1))) \<le> e_first (extent_load data (slot j))))"
  using adjacent_pred [of n "\<lambda>i j. e_end (extent_load data (slot i)) \<le> e_first (extent_load data (slot j))"]
  by (auto simp: extents_ok_def sorted_wrt_iff_nth_Suc_transp [OF transp_extent_order]
      all_set_conv_all_nth)

lemma indices_ok_slots:
  "indices_ok fs (slots index_load n data) \<longleftrightarrow>
    (\<forall>j < n. index_ok fs (index_load data (slot j))
       \<and> (0 < j \<longrightarrow> ix_first_block (index_load data (slot (j - 1))) < ix_first_block (index_load data (slot j))))"
  using adjacent_pred [of n "\<lambda>i j. ix_first_block (index_load data (slot i)) < ix_first_block (index_load data (slot j))"]
  by (auto simp: indices_ok_def sorted_wrt_iff_nth_Suc_transp [OF transp_index_order]
      all_set_conv_all_nth)

abbreviation leaf_list :: "ext4_extent_header \<Rightarrow> bytes \<Rightarrow> ext4_extent list" where
  "leaf_list h data \<equiv> slots extent_load (unat (entries_count h)) data"

abbreviation index_list :: "ext4_extent_header \<Rightarrow> bytes \<Rightarrow> ext4_extent_index list" where
  "index_list h data \<equiv> slots index_load (unat (entries_count h)) data"

lemma validate_entries_iff:
  "validate_entries sb data h = EOK \<longleftrightarrow>
    (if depth h = 0 then extents_ok (sb_blocks_cnt sb) (leaf_list h data)
     else indices_ok (sb_blocks_cnt sb) (index_list h data))"
  by (auto simp: validate_entries_def validate_leaf_loop validate_index_loop
      extents_ok_slots indices_ok_slots)

lemma validate_entries_range: "validate_entries sb data h = EOK \<or> validate_entries sb data h = EIO"
proof -
  have "validate_entries_loop fs data h i pe pk \<in> {EOK, EIO}" for fs i pe pk
    by (induction fs data h i pe pk rule: validate_entries_loop.induct)
      (subst validate_entries_loop.simps, auto simp: Let_def)
  then show ?thesis by (simp add: validate_entries_def)
qed

text \<open>The check of one selected entry: that entry and its two neighbours.\<close>

lemma validate_selected_leaf:
  assumes "depth h = 0"
  shows "validate_selected_entry sb data h pos = EOK \<longleftrightarrow>
    pos < unat (entries_count h) \<and> extent_ok (sb_blocks_cnt sb) (extent_load data (slot pos))
    \<and> (0 < pos \<longrightarrow> e_end (extent_load data (slot (pos - 1))) \<le> e_first (extent_load data (slot pos)))
    \<and> (pos + 1 < unat (entries_count h) \<longrightarrow>
         e_end (extent_load data (slot pos)) \<le> e_first (extent_load data (slot (pos + 1))))"
  using assms
  by (simp only: validate_selected_entry_def Let_def extent_check_iff leaf_order_iff) auto

lemma validate_selected_index:
  assumes "depth h \<noteq> 0"
  shows "validate_selected_entry sb data h pos = EOK \<longleftrightarrow>
    pos < unat (entries_count h) \<and> index_ok (sb_blocks_cnt sb) (index_load data (slot pos))
    \<and> (0 < pos \<longrightarrow> ix_first_block (index_load data (slot (pos - 1))) < ix_first_block (index_load data (slot pos)))
    \<and> (pos + 1 < unat (entries_count h) \<longrightarrow>
         ix_first_block (index_load data (slot pos)) < ix_first_block (index_load data (slot (pos + 1))))"
  using assms index_check_iff [of "index_load data (slot pos)" "sb_blocks_cnt sb"]
  by (auto simp: validate_selected_entry_def Let_def not_le)

text \<open>
  A node passes the full scan exactly when every one of its entries passes the selective
  check: the cheap test on the lookup path loses nothing but the entries not visited.
\<close>

lemma selected_all_iff:
  "(\<forall>pos < unat (entries_count h). validate_selected_entry sb data h pos = EOK)
     \<longleftrightarrow> validate_entries sb data h = EOK"
proof (cases "depth h = 0")
  case True
  have "e_end (extent_load data (slot pos)) \<le> e_first (extent_load data (slot (Suc pos)))"
    if "Suc pos < unat (entries_count h)" "extents_ok (sb_blocks_cnt sb) (leaf_list h data)" for pos
    using that unfolding extents_ok_slots by (metis diff_Suc_1 zero_less_Suc)
  with True show ?thesis
    by (auto simp: validate_entries_iff validate_selected_leaf extents_ok_slots)
next
  case False
  have "ix_first_block (index_load data (slot pos)) < ix_first_block (index_load data (slot (Suc pos)))"
    if "Suc pos < unat (entries_count h)" "indices_ok (sb_blocks_cnt sb) (index_list h data)" for pos
    using that unfolding indices_ok_slots by (metis diff_Suc_1 zero_less_Suc)
  with False show ?thesis
    by (auto simp: validate_entries_iff validate_selected_index indices_ok_slots)
qed

end
