(* ===== verification/Extent_Map.thy ===== *)
theory Extent_Map
  imports Extent_Node
begin

text \<open>
  The abstract specification of an extent tree: the partial map from logical blocks to
  physical blocks (with the unwritten mark) that a list of extents denotes, and how the
  list operations the port performs (merge two neighbours, insert, cut) change that map.
\<close>

fun ext_map :: "ext4_extent list \<Rightarrow> nat \<Rightarrow> (nat \<times> bool) option" where
  "ext_map [] lb = None"
| "ext_map (e # es) lb =
     (if e_first e \<le> lb \<and> lb < e_end e then Some (e_phys e + (lb - e_first e), extent_is_unwritten e)
      else ext_map es lb)"

definition ext_covers :: "ext4_extent \<Rightarrow> nat \<Rightarrow> bool" where
  "ext_covers e lb \<longleftrightarrow> e_first e \<le> lb \<and> lb < e_end e"

lemma ext_map_append: "ext_map (xs @ ys) lb = (case ext_map xs lb of None \<Rightarrow> ext_map ys lb | Some r \<Rightarrow> Some r)"
  by (induction xs) auto

lemma ext_map_None: "ext_map es lb = None \<longleftrightarrow> (\<forall>e \<in> set es. \<not> ext_covers e lb)"
  by (induction es) (auto simp: ext_covers_def)

lemma ext_map_below: "\<forall>e \<in> set es. lb < e_first e \<Longrightarrow> ext_map es lb = None"
  by (auto simp: ext_map_None ext_covers_def)

lemma ext_map_above: "\<forall>e \<in> set es. e_end e \<le> lb \<Longrightarrow> ext_map es lb = None"
  by (auto simp: ext_map_None ext_covers_def)

abbreviation sorted_extents :: "ext4_extent list \<Rightarrow> bool" where
  "sorted_extents \<equiv> sorted_wrt (\<lambda>a b. e_end a \<le> e_first b)"

lemma e_first_le_end: "e_first e \<le> e_end e"
  by (simp add: e_end_def)

lemma extents_ok_append:
  "extents_ok fs (xs @ ys) \<longleftrightarrow> extents_ok fs xs \<and> extents_ok fs ys
     \<and> (\<forall>a \<in> set xs. \<forall>b \<in> set ys. e_end a \<le> e_first b)"
  by (auto simp: extents_ok_def sorted_wrt_append)

lemma extents_ok_Cons:
  "extents_ok fs (x # ys) \<longleftrightarrow> extent_ok fs x \<and> extents_ok fs ys \<and> (\<forall>b \<in> set ys. e_end x \<le> e_first b)"
  by (auto simp: extents_ok_def)

lemma extents_ok_Nil [simp]: "extents_ok fs []"
  by (simp add: extents_ok_def)

lemma sorted_extents_nth:
  "sorted_extents es \<Longrightarrow> i < j \<Longrightarrow> j < length es \<Longrightarrow> e_end (es ! i) \<le> e_first (es ! j)"
  by (simp add: sorted_wrt_iff_nth_less)

text \<open>
  What a search position means: when \<open>pos\<close> is the last entry that starts at or before
  \<open>lb\<close> (or 0 when there is none), the map at \<open>lb\<close> is decided by the entry at \<open>pos\<close>.
\<close>

definition search_pos :: "ext4_extent list \<Rightarrow> nat \<Rightarrow> nat \<Rightarrow> bool" where
  "search_pos es lb pos \<longleftrightarrow> pos < length es \<and> (0 < pos \<longrightarrow> e_first (es ! pos) \<le> lb)
     \<and> (pos + 1 < length es \<longrightarrow> lb < e_first (es ! (pos + 1)))"

lemma search_pos_map:
  assumes "sorted_extents es" "search_pos es lb pos"
  shows "ext_map es lb = ext_map [es ! pos] lb"
proof -
  have pos: "pos < length es" using assms(2) by (simp add: search_pos_def)
  then have split: "es = take pos es @ es ! pos # drop (Suc pos) es"
    by (rule id_take_nth_drop)
  have "ext_map (take pos es) lb = None"
  proof (rule ext_map_above, rule ballI)
    fix e assume "e \<in> set (take pos es)"
    then obtain i where "i < pos" "e = es ! i" using pos by (auto simp: in_set_conv_nth)
    with assms pos sorted_extents_nth [of es i pos] show "e_end e \<le> lb"
      by (auto simp: search_pos_def)
  qed
  moreover have "ext_map (drop (Suc pos) es) lb = None"
  proof (rule ext_map_below, rule ballI)
    fix e assume "e \<in> set (drop (Suc pos) es)"
    then obtain i where i: "i < length es - Suc pos" "e = es ! (Suc pos + i)"
      by (auto simp: in_set_conv_nth)
    then have "0 < i \<Longrightarrow> e_end (es ! Suc pos) \<le> e_first e"
      using sorted_extents_nth [OF assms(1), of "Suc pos" "Suc pos + i"] by simp
    then have "e_first (es ! Suc pos) \<le> e_first e"
      using i(2) e_first_le_end [of "es ! Suc pos"] by (cases "i = 0") auto
    with i assms(2) show "lb < e_first e" by (auto simp: search_pos_def)
  qed
  ultimately show ?thesis
    by (subst split) (simp add: ext_map_append split: option.splits)
qed

text \<open>The position is unique, the extents being sorted and not empty.\<close>

lemma search_pos_unique:
  assumes "sorted_extents es" "search_pos es lb i" "search_pos es lb j" "\<forall>e \<in> set es. 0 < e_len e"
  shows "i = j"
proof -
  have "\<not> a < b" if "search_pos es lb a" "search_pos es lb b" for a b
  proof
    assume "a < b"
    with that have len: "b < length es" "a + 1 < length es" and low: "e_first (es ! b) \<le> lb"
      and high: "lb < e_first (es ! (a + 1))"
      by (auto simp: search_pos_def)
    have "e_first (es ! (a + 1)) \<le> e_first (es ! b)"
      using sorted_extents_nth [OF assms(1), of "a + 1" b] e_first_le_end [of "es ! (a + 1)"] \<open>a < b\<close> len
      by (cases "a + 1 = b") auto
    with low high show False by simp
  qed
  with assms(2,3) show ?thesis by (metis linorder_neqE_nat)
qed

section \<open>Merging two neighbours\<close>

definition merged_extent :: "ext4_extent \<Rightarrow> ext4_extent \<Rightarrow> ext4_extent" where
  "merged_extent left_ext right_ext =
     (let len = extent_get_actual_len left_ext + extent_get_actual_len right_ext;
          unwritten = extent_is_unwritten left_ext;
          ext = extent_set_actual_len len left_ext in
      if unwritten then extent_mark_unwritten ext else ext)"

lemma pblock_less: "e_phys e < 2 ^ 48"
proof -
  have "take_bit 48 (extent_get_pblock e) = extent_get_pblock e"
    unfolding extent_get_pblock_def by (rule bit_word_eqI) (auto simp: bit_simps dest: bit_imp_le_length)
  then have "unat (extent_get_pblock e) = take_bit 48 (unat (extent_get_pblock e))"
    by (metis unsigned_take_bit_eq)
  then show ?thesis by (metis e_phys_def take_bit_nat_less_exp)
qed

lemma can_merge_iff:
  "can_merge a b \<longleftrightarrow> extent_is_unwritten a = extent_is_unwritten b
     \<and> (e_first a + e_len a) mod 2 ^ 32 = e_first b
     \<and> e_len a + e_len b \<le> (if extent_is_unwritten a then 32767 else 32768)
     \<and> e_phys a + e_len a = e_phys b"
proof -
  have "first_block a + ucast (extent_get_actual_len a) = first_block b
      \<longleftrightarrow> (e_first a + e_len a) mod 2 ^ 32 = e_first b"
    by (simp add: word_unat_eq_iff unat_word_ariths e_first_def e_len_def)
  moreover have "unat (ucast (extent_get_actual_len a) + ucast (extent_get_actual_len b) :: u32) = e_len a + e_len b"
    using unat16_less [of "extent_get_actual_len a"] unat16_less [of "extent_get_actual_len b"]
    by (simp add: unat_word_ariths e_len_def)
  then have "ucast (extent_get_actual_len a) + ucast (extent_get_actual_len b) > (n :: u32)
      \<longleftrightarrow> e_len a + e_len b > unat n" for n
    by (simp add: word_less_nat_alt)
  moreover have "extent_get_pblock a + ucast (extent_get_actual_len a) = extent_get_pblock b
      \<longleftrightarrow> e_phys a + e_len a = e_phys b"
    using pblock_less [of a] unat16_less [of "extent_get_actual_len a"]
    by (simp add: word_unat_eq_iff unat_word_ariths e_phys_def e_len_def)
  ultimately show ?thesis by (auto simp: can_merge_def Let_def not_less)
qed

lemma merged_extent_fields:
  assumes "can_merge a b" "0 < e_len a"
  shows "e_first (merged_extent a b) = e_first a" "e_len (merged_extent a b) = e_len a + e_len b"
    "e_phys (merged_extent a b) = e_phys a"
    "extent_is_unwritten (merged_extent a b) = extent_is_unwritten a"
proof -
  let ?n = "extent_get_actual_len a + extent_get_actual_len b"
  have n: "unat ?n = e_len a + e_len b"
    "e_len a + e_len b \<le> (if extent_is_unwritten a then 32767 else 32768)"
    using assms(1) by (auto simp: can_merge_iff unat_word_ariths e_len_def split: if_splits)
  show "e_first (merged_extent a b) = e_first a" "e_phys (merged_extent a b) = e_phys a"
    by (simp_all add: merged_extent_def Let_def e_first_def e_phys_def)
  show "e_len (merged_extent a b) = e_len a + e_len b"
    "extent_is_unwritten (merged_extent a b) = extent_is_unwritten a"
    using n assms(2) unwritten_roundtrip [of ?n a] initialized_roundtrip [of ?n a]
    by (auto simp: merged_extent_def Let_def e_len_def split: if_splits)
qed

lemma merged_extent_map:
  assumes "can_merge a b" "0 < e_len a" "e_end a < 2 ^ 32"
  shows "ext_map (merged_extent a b # es) = ext_map (a # b # es)"
proof
  fix lb
  from assms(1,3) have "e_end a = e_first b" "e_phys b = e_phys a + e_len a"
    "extent_is_unwritten b = extent_is_unwritten a"
    by (simp_all add: can_merge_iff e_end_def)
  with merged_extent_fields [OF assms(1,2)]
  show "ext_map (merged_extent a b # es) lb = ext_map (a # b # es) lb"
    by (auto simp: e_end_def)
qed

section \<open>The insertion position\<close>

lemma entry_insert_pos_from_spec:
  assumes "pos \<le> n" "\<And>i. i < pos \<Longrightarrow> read_le32 d (slot i) \<le> b"
  shows "pos \<le> entry_insert_pos_from d n b pos \<and> entry_insert_pos_from d n b pos \<le> n
    \<and> (\<forall>i < entry_insert_pos_from d n b pos. read_le32 d (slot i) \<le> b)
    \<and> (entry_insert_pos_from d n b pos < n \<longrightarrow> b < read_le32 d (slot (entry_insert_pos_from d n b pos)))"
  using assms
proof (induction d n b pos rule: entry_insert_pos_from.induct)
  case (1 d n b pos)
  show ?case
  proof (cases "pos < n \<and> \<not> read_le32 d (slot pos) > b")
    case True
    then have "entry_insert_pos_from d n b pos = entry_insert_pos_from d n b (pos + 1)"
      by (simp add: entry_insert_pos_from.simps [of d n b pos])
    moreover have "read_le32 d (slot i) \<le> b" if "i < pos + 1" for i
      using that True "1.prems"(2) by (cases "i = pos") auto
    ultimately show ?thesis using "1.IH" True by auto
  next
    case False
    then have "entry_insert_pos_from d n b pos = pos"
      by (auto simp: entry_insert_pos_from.simps [of d n b pos])
    with False "1.prems" show ?thesis by auto
  qed
qed

lemma entry_insert_pos_spec:
  shows "entry_insert_pos d n b \<le> n"
    and "i < entry_insert_pos d n b \<Longrightarrow> read_le32 d (slot i) \<le> b"
    and "entry_insert_pos d n b < n \<Longrightarrow> b < read_le32 d (slot (entry_insert_pos d n b))"
  using entry_insert_pos_from_spec [of 0 n d b] by (auto simp: entry_insert_pos_def)

end
