(* ===== verification/Extent_Io.thy ===== *)
theory Extent_Io
  imports Extent_Map
begin

text \<open>
  The state an extent operation works on, the lwext4 services it calls, and the layer of
  port/lwext4_extent.c that reads and writes single nodes: the journal guard,
  block handles, the metadata checksum and the accessors of one node entry.

  \<open>root\<close> is the 60-byte inode->blocks array, \<open>root_dirty\<close> the flag
  inode_ref->dirty as far as the port sets it, and \<open>bufs\<close> the shared buffers
  behind struct ext4_block handles: block.data of a handle on block \<open>pb\<close> is
  \<open>bufs s pb\<close>, so two handles on one block alias.  \<open>env\<close> is the private state of lwext4
  (block cache bookkeeping, journal, allocator), of an arbitrary type.

  The lwext4 functions are the fields of \<open>lwext4\<close>: functions of their arguments and of
  \<open>env\<close> that return their int result.  They are arbitrary; what a theorem needs of
  them is a hypothesis of that theorem.  Reading them as acting on \<open>env\<close> only states the
  documented contract that a handle gives access to the current content of its block and
  that the allocator and the journal do not write into extent nodes.
\<close>

record 'e istate =
  root :: bytes
  root_dirty :: bool
  bufs :: "u64 \<Rightarrow> bytes"
  env :: 'e

record 'e lwext4 =
  sb :: ext4_sb
  journaling_enable :: bool                       \<comment> \<open>CONFIG_JOURNALING_ENABLE\<close>
  journal_active :: "'e \<Rightarrow> bool"                  \<comment> \<open>jbd_journal and curr_trans are set\<close>
  trans_block_get :: "u64 \<Rightarrow> 'e \<Rightarrow> errno \<times> 'e"
  trans_block_get_noread :: "u64 \<Rightarrow> 'e \<Rightarrow> errno \<times> 'e"
  trans_set_block_dirty :: "u64 \<Rightarrow> 'e \<Rightarrow> errno \<times> 'e"
  block_set :: "u64 \<Rightarrow> 'e \<Rightarrow> errno \<times> 'e"
  balloc_alloc_block :: "u64 \<Rightarrow> 'e \<Rightarrow> errno \<times> u64 \<times> 'e"
  balloc_free_block :: "u64 \<Rightarrow> 'e \<Rightarrow> errno \<times> 'e"
  balloc_free_blocks :: "u64 \<Rightarrow> u32 \<Rightarrow> 'e \<Rightarrow> errno \<times> 'e"
  inode_to_goal_block :: "'e \<Rightarrow> u64"
  inode_set_extents_flag :: "'e \<Rightarrow> 'e"

section \<open>Calls into lwext4\<close>

definition ext_call :: "('e \<Rightarrow> errno \<times> 'e) \<Rightarrow> 'e istate \<Rightarrow> errno \<times> 'e istate" where
  "ext_call f s = (case f (env s) of (r, e) \<Rightarrow> (r, s\<lparr>env := e\<rparr>))"

definition ext4_block_set :: "'e lwext4 \<Rightarrow> u64 \<Rightarrow> 'e istate \<Rightarrow> errno \<times> 'e istate" where
  "ext4_block_set io pb = ext_call (block_set io pb)"

definition ext4_trans_block_get_noread :: "'e lwext4 \<Rightarrow> u64 \<Rightarrow> 'e istate \<Rightarrow> errno \<times> 'e istate" where
  "ext4_trans_block_get_noread io pb = ext_call (trans_block_get_noread io pb)"

definition ext4_balloc_free_block :: "'e lwext4 \<Rightarrow> u64 \<Rightarrow> 'e istate \<Rightarrow> errno \<times> 'e istate" where
  "ext4_balloc_free_block io pb = ext_call (balloc_free_block io pb)"

definition ext4_balloc_free_blocks :: "'e lwext4 \<Rightarrow> u64 \<Rightarrow> u32 \<Rightarrow> 'e istate \<Rightarrow> errno \<times> 'e istate" where
  "ext4_balloc_free_blocks io pb n = ext_call (balloc_free_blocks io pb n)"

definition ext4_balloc_alloc_block :: "'e lwext4 \<Rightarrow> u64 \<Rightarrow> 'e istate \<Rightarrow> errno \<times> u64 \<times> 'e istate" where
  "ext4_balloc_alloc_block io goal s =
     (case balloc_alloc_block io goal (env s) of (r, pb, e) \<Rightarrow> (r, pb, s\<lparr>env := e\<rparr>))"

definition fs_inode_to_goal_block :: "'e lwext4 \<Rightarrow> 'e istate \<Rightarrow> u64" where
  "fs_inode_to_goal_block io s = inode_to_goal_block io (env s)"

text \<open>ext4_block_set where the code ignores its result.\<close>

definition release :: "'e lwext4 \<Rightarrow> u64 \<Rightarrow> 'e istate \<Rightarrow> 'e istate" where
  "release io pb s = snd (ext4_block_set io pb s)"

definition release_held :: "'e lwext4 \<Rightarrow> u64 option \<Rightarrow> 'e istate \<Rightarrow> 'e istate" where
  "release_held io held s = (case held of None \<Rightarrow> s | Some pb \<Rightarrow> release io pb s)"

section \<open>Nodes\<close>

text \<open>A node is addressed by \<open>pblock_of_node\<close>: 0 is the inode root, else a block.\<close>

definition node_data :: "u64 \<Rightarrow> 'e istate \<Rightarrow> bytes" where
  "node_data pb s = (if pb = 0 then root s else bufs s pb)"

definition set_node_data :: "u64 \<Rightarrow> bytes \<Rightarrow> 'e istate \<Rightarrow> 'e istate" where
  "set_node_data pb d s = (if pb = 0 then s\<lparr>root := d\<rparr> else s\<lparr>bufs := (bufs s)(pb := d)\<rparr>)"

definition mark_dirty :: "'e istate \<Rightarrow> 'e istate" where
  "mark_dirty s = s\<lparr>root_dirty := True\<rparr>"

definition require_journaled_mutation :: "'e lwext4 \<Rightarrow> 'e istate \<Rightarrow> errno" where
  "require_journaled_mutation io s =
     (if journaling_enable io \<and> journal_active io (env s) then EOK else ENOTSUP)"

definition node_block_get :: "'e lwext4 \<Rightarrow> u64 \<Rightarrow> 'e istate \<Rightarrow> errno \<times> 'e istate" where
  "node_block_get io pb = ext_call (trans_block_get io pb)"

definition node_block_put :: "'e lwext4 \<Rightarrow> u64 \<Rightarrow> 'e istate \<Rightarrow> errno \<times> 'e istate" where
  "node_block_put io pb s =
     (case ext_call (trans_set_block_dirty io pb) s of (r, s1) \<Rightarrow>
      case ext4_block_set io pb s1 of (put_r, s2) \<Rightarrow>
      (if r \<noteq> EOK then r else put_r, s2))"

section \<open>Metadata checksum\<close>

definition metadata_csum_enabled :: "ext4_sb \<Rightarrow> bool" where
  "metadata_csum_enabled b \<longleftrightarrow> (features_read_only b AND csum_flag b) \<noteq> 0"

definition extent_block_checksum :: "ext4_sb \<Rightarrow> bytes \<Rightarrow> nat \<Rightarrow> u32" where
  "extent_block_checksum b data tail_offset =
     (let checksum = crc32c b (crc32_init b) (uuid b);
          checksum = crc32c b checksum (le32 (ino_index b));
          checksum = crc32c b checksum (le32 (ino_generation b))
      in crc32c b checksum (mem_read 0 tail_offset data))"

definition tail_offset_of :: "ext4_extent_header \<Rightarrow> nat" where
  "tail_offset_of header = EXT4_EXTENT_HEADER_SIZE + unat (max_entries_count header) * EXT4_EXTENT_SIZE"

definition verify_extent_block_checksum :: "ext4_sb \<Rightarrow> bytes \<Rightarrow> errno" where
  "verify_extent_block_checksum b data =
     (if \<not> metadata_csum_enabled b then EOK
      else
        let header = header_load data; tail_offset = tail_offset_of header;
            block_size = unat (sb_block_size b) in
        if magic header \<noteq> EXT4_EXTENT_MAGIC then EIO
        else if tail_offset > block_size \<or> tail_offset + 4 > block_size then EIO
        else if read_le32 data tail_offset = extent_block_checksum b data tail_offset then EOK
        else EIO)"

definition set_extent_block_checksum :: "ext4_sb \<Rightarrow> bytes \<Rightarrow> bool \<Rightarrow> errno \<times> bytes" where
  "set_extent_block_checksum b data is_root =
     (if is_root then (EOK, data)
      else if \<not> metadata_csum_enabled b then (EOK, data)
      else
        let header = header_load data; tail_offset = tail_offset_of header;
            block_size = unat (sb_block_size b) in
        if magic header \<noteq> EXT4_EXTENT_MAGIC then (EINVAL, data)
        else if tail_offset > block_size \<or> tail_offset + 4 > block_size then (EIO, data)
        else (EOK, write_le32 tail_offset (extent_block_checksum b data tail_offset) data))"

text \<open>
  The sequence that ends every change of an external node: recompute the checksum, give
  the handle back without dirtying it when that fails, else mark it dirty and put it.
\<close>

definition checksum_and_put :: "'e lwext4 \<Rightarrow> u64 \<Rightarrow> 'e istate \<Rightarrow> errno \<times> 'e istate" where
  "checksum_and_put io pb s =
     (case set_extent_block_checksum (sb io) (bufs s pb) False of (r, d) \<Rightarrow>
      let s1 = s\<lparr>bufs := (bufs s)(pb := d)\<rparr> in
      if r \<noteq> EOK then (r, release io pb s1) else node_block_put io pb s1)"

text \<open>
  The same for a node that may be the root: the root needs no checksum and no handle,
  only the dirty flag of the inode.
\<close>

definition commit_node :: "'e lwext4 \<Rightarrow> u64 \<Rightarrow> 'e istate \<Rightarrow> errno \<times> 'e istate" where
  "commit_node io pb s = (if pb = 0 then (EOK, mark_dirty s) else checksum_and_put io pb s)"

text \<open>Opening a node for change: nothing for the root, a handle for a block.\<close>

definition open_node :: "'e lwext4 \<Rightarrow> u64 \<Rightarrow> 'e istate \<Rightarrow> errno \<times> 'e istate" where
  "open_node io pb s = (if pb = 0 then (EOK, s) else node_block_get io pb s)"

definition close_node :: "'e lwext4 \<Rightarrow> u64 \<Rightarrow> 'e istate \<Rightarrow> 'e istate" where
  "close_node io pb s = (if pb = 0 then s else release io pb s)"

section \<open>Search paths\<close>

record extent_path_node =
  header :: ext4_extent_header
  index :: ext4_extent_index
  extent :: ext4_extent
  have_index :: bool
  have_extent :: bool
  position :: nat
  pblock :: u64
  pblock_of_node :: u64

record extent_search_path =
  path_depth :: nat
  maxdepth :: nat
  path :: "extent_path_node list"

definition empty_index :: ext4_extent_index where
  "empty_index = \<lparr>ix_first_block = 0, leaf_lo = 0, leaf_hi = 0, padding = 0\<rparr>"

definition empty_extent :: ext4_extent where
  "empty_extent = \<lparr>first_block = 0, block_count = 0, start_hi = 0, start_lo = 0\<rparr>"

definition leaf_of :: "extent_search_path \<Rightarrow> extent_path_node" where
  "leaf_of p = path p ! path_depth p"

section \<open>Entries of a node on a path\<close>

definition node_get_extent ::
  "'e lwext4 \<Rightarrow> extent_path_node \<Rightarrow> nat \<Rightarrow> 'e istate \<Rightarrow> (errno + ext4_extent) \<times> 'e istate" where
  "node_get_extent io node pos s =
     (if pblock_of_node node = 0 then (Inr (extent_load (root s) (slot pos)), s)
      else
        case node_block_get io (pblock_of_node node) s of (r, s1) \<Rightarrow>
        if r \<noteq> EOK then (Inl r, s1)
        else
          let out = extent_load (bufs s1 (pblock_of_node node)) (slot pos) in
          case ext4_block_set io (pblock_of_node node) s1 of (r, s2) \<Rightarrow>
          if r \<noteq> EOK then (Inl r, s2) else (Inr out, s2))"

definition node_get_index ::
  "'e lwext4 \<Rightarrow> extent_path_node \<Rightarrow> nat \<Rightarrow> 'e istate \<Rightarrow> (errno + ext4_extent_index) \<times> 'e istate" where
  "node_get_index io node pos s =
     (if pblock_of_node node = 0 then (Inr (index_load (root s) (slot pos)), s)
      else
        case node_block_get io (pblock_of_node node) s of (r, s1) \<Rightarrow>
        if r \<noteq> EOK then (Inl r, s1)
        else
          let out = index_load (bufs s1 (pblock_of_node node)) (slot pos) in
          case ext4_block_set io (pblock_of_node node) s1 of (r, s2) \<Rightarrow>
          if r \<noteq> EOK then (Inl r, s2) else (Inr out, s2))"

section \<open>The checksum written is the checksum verified\<close>

lemma header_load_write_le32:
  assumes "12 \<le> off" "off + 4 \<le> length d"
  shows "header_load (write_le32 off v d) = header_load d"
  using assms by (intro header_load_cong) (simp_all add: write_le32_def mem_simps)

lemma slots_write_le32:
  assumes "slot n \<le> off" "off + 4 \<le> length d"
  shows "slots extent_load n (write_le32 off v d) = slots extent_load n d"
    and "slots index_load n (write_le32 off v d) = slots index_load n d"
proof -
  have "mem_read (slot i) 12 (write_le32 off v d) = mem_read (slot i) 12 d" if "i < n" for i
    using that assms by (simp add: write_le32_def mem_simps slot_def)
  then show "slots extent_load n (write_le32 off v d) = slots extent_load n d"
    "slots index_load n (write_le32 off v d) = slots index_load n d"
    using assms by (auto intro!: ext.slots_cong idx.slots_cong simp: write_le32_def mem_simps)
qed

lemma read_write_le32: "off + 4 \<le> length d \<Longrightarrow> read_le32 (write_le32 off v d) off = v"
  by (intro read_le32_eq) (simp_all add: write_le32_def mem_simps)

text \<open>
  \<open>sealed b data d\<close>: \<open>d\<close> is \<open>data\<close> with its checksum brought up to date.  It passes the
  check, and header and entries are those of \<open>data\<close>.
\<close>

lemma set_checksum_sealed:
  assumes "set_extent_block_checksum b data False = (EOK, d)" "length data = unat (sb_block_size b)"
  shows "verify_extent_block_checksum b d = EOK" "length d = length data"
    "header_load d = header_load data"
    "n \<le> unat (max_entries_count (header_load data)) \<Longrightarrow> slot n \<le> length data \<Longrightarrow>
       slots extent_load n d = slots extent_load n data \<and> slots index_load n d = slots index_load n data"
proof -
  let ?t = "tail_offset_of (header_load data)"
  have "(verify_extent_block_checksum b d = EOK \<and> length d = length data \<and> header_load d = header_load data)
    \<and> (n \<le> unat (max_entries_count (header_load data)) \<longrightarrow> slot n \<le> length data \<longrightarrow>
       slots extent_load n d = slots extent_load n data \<and> slots index_load n d = slots index_load n data)"
  proof (cases "metadata_csum_enabled b")
    case False
    with assms show ?thesis by (auto simp: set_extent_block_checksum_def verify_extent_block_checksum_def)
  next
    case True
    with assms have mg: "magic (header_load data) = EXT4_EXTENT_MAGIC" and fit: "?t + 4 \<le> length data"
      and d: "d = write_le32 ?t (extent_block_checksum b data ?t) data"
      by (auto simp: set_extent_block_checksum_def Let_def split: if_splits)
    have t: "12 \<le> ?t" by (simp add: tail_offset_of_def)
    have hd: "header_load d = header_load data"
      unfolding d using t fit by (rule header_load_write_le32)
    have ln: "length d = length data"
      using fit by (simp add: d write_le32_def mem_simps)
    have "mem_read 0 ?t d = mem_read 0 ?t data"
      using fit by (simp add: d write_le32_def mem_simps)
    then have "extent_block_checksum b d ?t = extent_block_checksum b data ?t"
      by (simp add: extent_block_checksum_def)
    moreover have "read_le32 d ?t = extent_block_checksum b data ?t"
      unfolding d using fit by (rule read_write_le32)
    ultimately have "verify_extent_block_checksum b d = EOK"
      using mg fit assms(2) True by (simp add: verify_extent_block_checksum_def Let_def hd)
    moreover have "slot n \<le> ?t" if "n \<le> unat (max_entries_count (header_load data))"
      using that by (simp add: slot_def tail_offset_of_def)
    ultimately show ?thesis
      using hd ln slots_write_le32 [of n ?t data] fit by (simp add: d)
  qed
  then show "verify_extent_block_checksum b d = EOK" "length d = length data"
    "header_load d = header_load data"
    "n \<le> unat (max_entries_count (header_load data)) \<Longrightarrow> slot n \<le> length data \<Longrightarrow>
       slots extent_load n d = slots extent_load n data \<and> slots index_load n d = slots index_load n data"
    by blast+
qed

text \<open>The tail fits behind the entries of a node of any power-of-two block size.\<close>

lemma power2_mod_12: "2 \<le> k \<Longrightarrow> (2 ^ k :: nat) mod 12 = (if even k then 4 else 8)"
proof (induction k rule: nat_induct_at_least)
  case (Suc k)
  have "(2 ^ Suc k :: nat) mod 12 = (2 * (2 ^ k mod 12)) mod 12" by (simp add: mod_mult_right_eq)
  with Suc show ?case by (auto split: if_splits)
qed simp

lemma tail_fits_power2:
  assumes "validate_header False bs h = EOK" "unat bs = 2 ^ k" "10 \<le> k"
  shows "tail_offset_of h + 4 \<le> unat bs"
proof -
  have "12 \<le> (2 :: nat) ^ k"
  proof -
    have "(2 :: nat) ^ 10 \<le> 2 ^ k" using assms(3) by (intro power_increasing) simp_all
    then show ?thesis by simp
  qed
  then have u: "unat (bs - 12) = 2 ^ k - 12" using assms(2) by (simp add: unat_sub word_le_nat_alt)
  have "ucast (max_entries_count h) \<le> (bs - 12) div 12"
    using assms(1) by (auto simp: validate_header_def Let_def not_less split: if_splits)
  then have mx: "unat (max_entries_count h) \<le> (2 ^ k - 12) div 12"
    using u by (simp add: word_le_nat_alt unat_div)
  define n :: nat where "n = 2 ^ k - 12"
  have n: "2 ^ k = n + 12" using \<open>12 \<le> 2 ^ k\<close> by (simp add: n_def)
  have "n mod 12 = 2 ^ k mod 12" by (simp add: n)
  then have "4 \<le> n mod 12" using power2_mod_12 [of k] assms(3) by simp
  moreover have "n = 12 * (n div 12) + n mod 12" by simp
  moreover have "unat (max_entries_count h) \<le> n div 12" using mx by (simp only: n_def)
  ultimately have "unat (max_entries_count h) * 12 + 4 \<le> n" by linarith
  then show ?thesis using assms(2) n by (simp add: tail_offset_of_def)
qed

end
