(* ===== verification/Extent_Lookup.thy ===== *)
theory Extent_Lookup
  imports Extent_Io
begin

text \<open>
  Walking down the tree: find_extent, which fills the search path of a logical
  block, and find_next_extent with leftmost_extent_below, which
  return the mapping that follows a path.
\<close>

section \<open>find_extent\<close>

definition mk_index_node ::
  "ext4_extent_header \<Rightarrow> ext4_extent_index \<Rightarrow> nat \<Rightarrow> u64 \<Rightarrow> extent_path_node" where
  "mk_index_node h x pos pbn = \<lparr>
     header = h, index = x, extent = empty_extent, have_index = True, have_extent = False,
     position = pos, pblock = index_get_pblock x, pblock_of_node = pbn\<rparr>"

text \<open>The part after the loop: the leaf entry and the resolved block.\<close>

definition find_leaf ::
  "'e lwext4 \<Rightarrow> u32 \<Rightarrow> nat \<Rightarrow> ext4_extent_header \<Rightarrow> u64 option \<Rightarrow> extent_path_node list
     \<Rightarrow> 'e istate \<Rightarrow> (errno + extent_search_path) \<times> 'e istate" where
  "find_leaf io lblock max_depth h held nodes s =
     (let pbn = (case held of None \<Rightarrow> 0 | Some pb \<Rightarrow> pb);
          node_data = node_data pbn s;
          (ext, pos) = binsearch_extent node_data h lblock;
          r = (if entries_count h > 0 then validate_selected_entry (sb io) node_data h pos else EOK);
          have_ext = (entries_count h > 0);
          s1 = release_held io held s in
      if r \<noteq> EOK then (Inl r, s1)
      else
        let pb = (if \<not> have_ext then 0
                  else if lblock \<ge> first_block ext \<and>
                     lblock < first_block ext + ucast (extent_get_actual_len ext)
                  then extent_get_pblock ext + ucast (lblock - first_block ext)
                  else 0);
            leaf = \<lparr>header = h, index = empty_index, extent = ext, have_index = False,
                    have_extent = have_ext, position = pos, pblock = pb, pblock_of_node = pbn\<rparr> in
        (Inr \<lparr>path_depth = length nodes, maxdepth = max_depth, path = nodes @ [leaf]\<rparr>, s1))"

text \<open>
  The loop \<open>while (depth > 0)\<close>.  \<open>held\<close> is the block whose handle the loop holds (none
  while the current node is the root), \<open>h\<close> the header of the current node.
\<close>

fun find_descend ::
  "'e lwext4 \<Rightarrow> u32 \<Rightarrow> nat \<Rightarrow> nat \<Rightarrow> ext4_extent_header \<Rightarrow> u64 option \<Rightarrow> extent_path_node list
     \<Rightarrow> 'e istate \<Rightarrow> (errno + extent_search_path) \<times> 'e istate" where
  "find_descend io lblock max_depth 0 h held nodes s = find_leaf io lblock max_depth h held nodes s"
| "find_descend io lblock max_depth (Suc d) h held nodes s =
     (let pbn = (case held of None \<Rightarrow> 0 | Some pb \<Rightarrow> pb);
          node_data = node_data pbn s in
      case binsearch_idx node_data (held = None) h lblock of
        None \<Rightarrow> (Inl ENOENT, release_held io held s)
      | Some pos \<Rightarrow>
        let r = validate_selected_entry (sb io) node_data h pos in
        if r \<noteq> EOK then (Inl r, release_held io held s)
        else
          let x = index_load node_data (slot pos);
              node = mk_index_node h x pos pbn;
              next_block = index_get_pblock x in
          case node_block_get io next_block s of (r, s1) \<Rightarrow>
          if r \<noteq> EOK then (Inl r, release_held io held s1)
          else
            let r = verify_extent_block_checksum (sb io) (bufs s1 next_block) in
            if r \<noteq> EOK then (Inl r, release_held io held (release io next_block s1))
            else
              let s2 = release_held io held s1;
                  h' = header_load (bufs s2 next_block);
                  r = validate_header False (sb_block_size (sb io)) h' in
              if r \<noteq> EOK then (Inl r, release io next_block s2)
              else if unat (depth h') \<noteq> d then (Inl EIO, release io next_block s2)
              else find_descend io lblock max_depth d h' (Some next_block) (nodes @ [node]) s2)"

definition find_extent ::
  "'e lwext4 \<Rightarrow> u32 \<Rightarrow> 'e istate \<Rightarrow> (errno + extent_search_path) \<times> 'e istate" where
  "find_extent io lblock s =
     (let h = header_load (root s);
          r = validate_header True (sb_block_size (sb io)) h in
      if r \<noteq> EOK then (Inl r, s)
      else
        let r = validate_entries (sb io) (root s) h in
        if r \<noteq> EOK then (Inl r, s)
        else find_descend io lblock (unat (depth h)) (unat (depth h)) h None [] s)"

section \<open>find_next_extent\<close>

text \<open>
  \<open>for (;;)\<close> of leftmost_extent_below: the header's depth must equal
  expected_depth, so the loop ends at the latest when that is 0.
\<close>

fun leftmost_extent_below ::
  "'e lwext4 \<Rightarrow> u64 \<Rightarrow> nat \<Rightarrow> 'e istate \<Rightarrow> (errno + ext4_extent) \<times> 'e istate" where
  "leftmost_extent_below io pb expected_depth s =
     (case node_block_get io pb s of (r, s1) \<Rightarrow>
      if r \<noteq> EOK then (Inl r, s1)
      else
        let data = bufs s1 pb;
            h = header_load data;
            r = verify_extent_block_checksum (sb io) data;
            r = (if r = EOK then validate_header False (sb_block_size (sb io)) h else r);
            r = (if r = EOK \<and> unat (depth h) \<noteq> expected_depth then EIO else r);
            r = (if r = EOK then validate_entries (sb io) data h else r) in
        if r \<noteq> EOK \<or> entries_count h = 0 then
          (case ext4_block_set io pb s1 of (put_r, s2) \<Rightarrow>
           (Inl (if r \<noteq> EOK then r else if put_r \<noteq> EOK then put_r else EIO), s2))
        else
          (case expected_depth of
             0 \<Rightarrow> (case ext4_block_set io pb s1 of (r, s2) \<Rightarrow>
                 if r \<noteq> EOK then (Inl r, s2) else (Inr (extent_load data (slot 0)), s2))
           | Suc d \<Rightarrow>
               (let next_pblock = index_get_pblock (index_load data (slot 0)) in
                case ext4_block_set io pb s1 of (r, s2) \<Rightarrow>
                if r \<noteq> EOK then (Inl r, s2)
                else leftmost_extent_below io next_pblock d s2)))"

declare leftmost_extent_below.simps [simp del]

fun find_next_up ::
  "'e lwext4 \<Rightarrow> extent_search_path \<Rightarrow> nat \<Rightarrow> 'e istate \<Rightarrow> (errno + ext4_extent) \<times> 'e istate" where
  "find_next_up io p 0 s = (Inl ENOENT, s)"
| "find_next_up io p (Suc level) s =
     (let parent = path p ! level in
      if position parent + 1 < unat (entries_count (header parent)) then
        (case node_get_index io parent (position parent + 1) s of
           (Inl r, s1) \<Rightarrow> (Inl r, s1)
         | (Inr sibling, s1) \<Rightarrow>
             if depth (header parent) = 0 then (Inl EIO, s1)
             else leftmost_extent_below io (index_get_pblock sibling)
                    (unat (depth (header parent)) - 1) s1)
      else find_next_up io p level s)"

definition find_next_extent ::
  "'e lwext4 \<Rightarrow> extent_search_path \<Rightarrow> 'e istate \<Rightarrow> (errno + ext4_extent) \<times> 'e istate" where
  "find_next_extent io p s =
     (let leaf = leaf_of p in
      if position leaf + 1 < unat (entries_count (header leaf))
      then node_get_extent io leaf (position leaf + 1) s
      else find_next_up io p (path_depth p) s)"

section \<open>Lookups leave the tree alone\<close>

text \<open>\<open>same_tree s s'\<close>: everything but lwext4's private state is unchanged.\<close>

definition same_tree :: "'e istate \<Rightarrow> 'e istate \<Rightarrow> bool" where
  "same_tree s s' \<longleftrightarrow> root s' = root s \<and> root_dirty s' = root_dirty s \<and> bufs s' = bufs s"

lemma same_tree_refl [simp]: "same_tree s s"
  by (simp add: same_tree_def)

lemma same_tree_trans: "same_tree s t \<Longrightarrow> same_tree t u \<Longrightarrow> same_tree s u"
  by (simp add: same_tree_def)

lemma same_tree_call: "ext_call f s = (r, s') \<Longrightarrow> same_tree s s'"
  by (auto simp: ext_call_def same_tree_def split: prod.splits)

lemma same_tree_block_get: "node_block_get io pb s = (r, s') \<Longrightarrow> same_tree s s'"
  by (auto simp: node_block_get_def intro: same_tree_call)

lemma same_tree_block_set: "ext4_block_set io pb s = (r, s') \<Longrightarrow> same_tree s s'"
  by (auto simp: ext4_block_set_def intro: same_tree_call)

lemma same_tree_release [simp]: "same_tree s (release io pb t) \<longleftrightarrow> same_tree s t"
  by (auto simp: release_def ext4_block_set_def ext_call_def same_tree_def split: prod.splits)

lemma same_tree_release_held [simp]: "same_tree s (release_held io held t) \<longleftrightarrow> same_tree s t"
  by (cases held) (simp_all add: release_held_def)

lemma release_fields [simp]:
  "root (release io pb s) = root s" "bufs (release io pb s) = bufs s"
  "root_dirty (release io pb s) = root_dirty s"
  using same_tree_release [of s io pb s] by (simp_all add: same_tree_def)

lemma release_held_fields [simp]:
  "root (release_held io held s) = root s" "bufs (release_held io held s) = bufs s"
  "root_dirty (release_held io held s) = root_dirty s"
  by (cases held; simp add: release_held_def)+

lemma same_tree_data: "same_tree s s' \<Longrightarrow> node_data pb s' = node_data pb s"
  by (simp add: same_tree_def node_data_def)

lemma same_tree_find_leaf: "find_leaf io lb md h held nodes s = (r, s') \<Longrightarrow> same_tree s s'"
  by (auto simp: find_leaf_def Let_def split: prod.splits if_splits)

abbreviation held_block :: "u64 option \<Rightarrow> u64" where
  "held_block held \<equiv> (case held of None \<Rightarrow> 0 | Some pb \<Rightarrow> pb)"

lemma find_descend_Suc_cases:
  assumes "find_descend io lb md (Suc d) h held nodes s = (r, s')"
  shows "(\<exists>e. r = Inl e \<and> same_tree s s')
    \<or> (\<exists>pos x s1. binsearch_idx (node_data (held_block held) s) (held = None) h lb = Some pos
        \<and> validate_selected_entry (sb io) (node_data (held_block held) s) h pos = EOK
        \<and> x = index_load (node_data (held_block held) s) (slot pos)
        \<and> node_block_get io (index_get_pblock x) s = (EOK, s1) \<and> same_tree s s1
        \<and> verify_extent_block_checksum (sb io) (bufs s (index_get_pblock x)) = EOK
        \<and> validate_header False (sb_block_size (sb io)) (header_load (bufs s (index_get_pblock x))) = EOK
        \<and> unat (depth (header_load (bufs s (index_get_pblock x)))) = d
        \<and> find_descend io lb md d (header_load (bufs s (index_get_pblock x)))
             (Some (index_get_pblock x)) (nodes @ [mk_index_node h x pos (held_block held)])
             (release_held io held s1) = (r, s'))"
proof (cases "binsearch_idx (node_data (held_block held) s) (held = None) h lb")
  case None
  with assms show ?thesis by (auto simp: Let_def)
next
  case (Some pos)
  let ?x = "index_load (node_data (held_block held) s) (slot pos)"
  obtain r1 s1 where g: "node_block_get io (index_get_pblock ?x) s = (r1, s1)"
    by (cases "node_block_get io (index_get_pblock ?x) s")
  then have st: "same_tree s s1" by (rule same_tree_block_get)
  then have [simp]: "bufs s1 = bufs s" by (simp add: same_tree_def)
  show ?thesis
    using assms g st by (simp add: Some Let_def split: if_split_asm) auto
qed

lemma find_descend_SucE:
  assumes "find_descend io lb md (Suc d) h held nodes s = (r, s')"
  obtains (fail) e where "r = Inl e" "same_tree s s'"
  | (step) pos x s1 where
      "binsearch_idx (node_data (held_block held) s) (held = None) h lb = Some pos"
      "validate_selected_entry (sb io) (node_data (held_block held) s) h pos = EOK"
      "x = index_load (node_data (held_block held) s) (slot pos)"
      "node_block_get io (index_get_pblock x) s = (EOK, s1)" "same_tree s s1"
      "verify_extent_block_checksum (sb io) (bufs s (index_get_pblock x)) = EOK"
      "validate_header False (sb_block_size (sb io)) (header_load (bufs s (index_get_pblock x))) = EOK"
      "unat (depth (header_load (bufs s (index_get_pblock x)))) = d"
      "find_descend io lb md d (header_load (bufs s (index_get_pblock x)))
         (Some (index_get_pblock x)) (nodes @ [mk_index_node h x pos (held_block held)])
         (release_held io held s1) = (r, s')"
  using find_descend_Suc_cases [OF assms] by blast

lemma same_tree_descend: "find_descend io lb md d h held nodes s = (r, s') \<Longrightarrow> same_tree s s'"
proof (induction d arbitrary: h held nodes s)
  case 0
  then show ?case by (simp add: same_tree_find_leaf)
next
  case (Suc d)
  from Suc.prems show ?case
  proof (cases rule: find_descend_SucE)
    case (step pos x s1)
    with Suc.IH [OF step(9)] show ?thesis by (simp add: same_tree_def)
  qed simp
qed

lemma same_tree_find_extent: "find_extent io lb s = (r, s') \<Longrightarrow> same_tree s s'"
  by (auto simp: find_extent_def Let_def split: if_splits intro: same_tree_descend)

lemma same_tree_node_get_extent: "node_get_extent io n i s = (r, s') \<Longrightarrow> same_tree s s'"
  by (auto simp: node_get_extent_def Let_def split: if_splits prod.splits
      dest!: same_tree_block_get same_tree_block_set intro: same_tree_trans)

lemma same_tree_node_get_index: "node_get_index io n i s = (r, s') \<Longrightarrow> same_tree s s'"
  by (auto simp: node_get_index_def Let_def split: if_splits prod.splits
      dest!: same_tree_block_get same_tree_block_set intro: same_tree_trans)

lemma same_tree_leftmost: "leftmost_extent_below io pb d s = (r, s') \<Longrightarrow> same_tree s s'"
proof (induction d arbitrary: pb s)
  case 0
  then show ?case
    by (subst (asm) leftmost_extent_below.simps)
      (auto simp: Let_def split: if_splits prod.splits
        dest!: same_tree_block_get same_tree_block_set intro: same_tree_trans)
next
  case (Suc d)
  from Suc.prems show ?case
    by (subst (asm) leftmost_extent_below.simps)
      (auto simp: Let_def split: if_splits prod.splits
        dest!: same_tree_block_get same_tree_block_set Suc.IH intro: same_tree_trans)
qed

lemma same_tree_find_next_up: "find_next_up io p level s = (r, s') \<Longrightarrow> same_tree s s'"
  by (induction level)
    (auto simp: Let_def split: if_splits prod.splits sum.splits
      dest!: same_tree_node_get_index same_tree_leftmost intro: same_tree_trans)

lemma same_tree_find_next_extent: "find_next_extent io p s = (r, s') \<Longrightarrow> same_tree s s'"
  by (auto simp: find_next_extent_def Let_def split: if_splits
      dest!: same_tree_node_get_extent same_tree_find_next_up)

end
