(* ===== verification/Extent_Insert.thy ===== *)
theory Extent_Insert
  imports Extent_Lookup
begin

text \<open>
  Insertion: merging with a neighbour, inserting an entry into a node with room,
  splitting a full node, growing the tree by a level, and insert_extent,
  which combines them.
\<close>

definition h_full :: "ext4_extent_header \<Rightarrow> bool" where
  "h_full h \<longleftrightarrow> entries_count h \<ge> max_entries_count h"

section \<open>Merging\<close>

text \<open>
  The merged extent is written back here only when the leaf's max_entries_count
  exceeds the capacity of the root; for the root the caller stores it.
\<close>

definition merge_extent ::
  "'e lwext4 \<Rightarrow> extent_search_path \<Rightarrow> ext4_extent \<Rightarrow> ext4_extent \<Rightarrow> nat
     \<Rightarrow> 'e istate \<Rightarrow> (errno + ext4_extent) \<times> 'e istate" where
  "merge_extent io p left_ext right_ext target_pos s =
     (let leaf = leaf_of p; pb = pblock_of_node leaf;
          left_ext' = merged_extent left_ext right_ext in
      if unat (max_entries_count (header leaf)) > EXT4_EXTENT_ROOT_MAX_ENTRIES then
        (case node_block_get io pb s of (r, s1) \<Rightarrow>
         if r \<noteq> EOK then (Inl r, s1)
         else
           let s2 = s1\<lparr>bufs := (bufs s1)(pb := extent_store (slot target_pos) left_ext' (bufs s1 pb))\<rparr> in
           case checksum_and_put io pb s2 of (r, s3) \<Rightarrow>
           if r \<noteq> EOK then (Inl r, s3) else (Inr left_ext', s3))
      else (Inr left_ext', s))"

text \<open>What the callers do after merge_extent returned EOK.\<close>

definition store_merged ::
  "'e lwext4 \<Rightarrow> extent_search_path \<Rightarrow> ext4_extent \<Rightarrow> ext4_extent \<Rightarrow> nat \<Rightarrow> 'e istate \<Rightarrow> errno \<times> 'e istate" where
  "store_merged io p left_ext right_ext target_pos s =
     (case merge_extent io p left_ext right_ext target_pos s of
        (Inl r, s1) \<Rightarrow> (r, s1)
      | (Inr merged, s1) \<Rightarrow>
          if pblock_of_node (leaf_of p) = 0
          then (EOK, mark_dirty (s1\<lparr>root := extent_store (slot target_pos) merged (root s1)\<rparr>))
          else (EOK, s1))"

section \<open>Inserting a child separator\<close>

definition free_new_metadata_block :: "'e lwext4 \<Rightarrow> u64 \<Rightarrow> errno \<Rightarrow> 'e istate \<Rightarrow> errno \<times> 'e istate" where
  "free_new_metadata_block io pb primary_error s =
     (case ext4_balloc_free_block io pb s of (free_error, s1) \<Rightarrow>
      (if primary_error \<noteq> EOK then primary_error else free_error, s1))"

definition insert_index_bytes ::
  "ext4_extent_header \<Rightarrow> nat \<Rightarrow> u32 \<Rightarrow> u64 \<Rightarrow> bytes \<Rightarrow> bytes" where
  "insert_index_bytes h pos fblk pb data =
     (let count = unat (entries_count h);
          data1 = (if pos < count then mem_move (slot (pos + 1)) (slot pos) ((count - pos) * 12) data
                   else data);
          new_index = index_store_pblock pb (empty_index\<lparr>ix_first_block := fblk\<rparr>);
          data2 = index_store (slot pos) new_index data1
      in header_store (h\<lparr>entries_count := entries_count h + 1\<rparr>) data2)"

definition insert_index_entry ::
  "'e lwext4 \<Rightarrow> extent_search_path \<Rightarrow> nat \<Rightarrow> u32 \<Rightarrow> u64 \<Rightarrow> 'e istate \<Rightarrow> errno \<times> 'e istate" where
  "insert_index_entry io p level fblk pb s =
     (let node = path p ! level; h = header node; pbn = pblock_of_node node in
      if depth h = 0 \<or> h_full h then (ENOSPC, s)
      else
        case open_node io pbn s of (r, s1) \<Rightarrow>
        if r \<noteq> EOK then (r, s1)
        else
          let data = node_data pbn s1;
              disk_header = header_load data;
              r = (if pbn = 0 then EOK
                   else
                     let r1 = validate_header False (sb_block_size (sb io)) disk_header in
                     if r1 = EOK then validate_entries (sb io) data disk_header else r1) in
          if pbn \<noteq> 0 \<and> (r \<noteq> EOK \<or> depth disk_header \<noteq> depth h \<or>
               entries_count disk_header \<noteq> entries_count h \<or>
               max_entries_count disk_header \<noteq> max_entries_count h)
          then (if r \<noteq> EOK then r else EIO, release io pbn s1)
          else
            let pos = entry_insert_pos data (unat (entries_count h)) fblk in
            if pos > 0 \<and> read_le32 data (slot (pos - 1)) = fblk then (EEXIST, close_node io pbn s1)
            else commit_node io pbn (set_node_data pbn (insert_index_bytes h pos fblk pb data) s1))"

section \<open>Splitting a full node\<close>

definition split_right_bytes :: "u32 \<Rightarrow> ext4_extent_header \<Rightarrow> nat \<Rightarrow> nat \<Rightarrow> bytes \<Rightarrow> bytes \<Rightarrow> bytes" where
  "split_right_bytes block_size h mid entries source_data right_data =
     (let capacity = (block_size - 12) div 12;
          right_entries = entries - mid;
          data0 = mem_zero 0 (unat block_size) right_data;
          right_header = \<lparr>magic = EXT4_EXTENT_MAGIC, entries_count = of_nat right_entries,
             max_entries_count = ucast capacity, depth = depth h, generation = 0\<rparr>;
          data1 = header_store right_header data0
      in mem_write (slot 0) (mem_read (slot mid) (right_entries * 12) source_data) data1)"

definition split_left_bytes :: "ext4_extent_header \<Rightarrow> nat \<Rightarrow> nat \<Rightarrow> bytes \<Rightarrow> bytes" where
  "split_left_bytes h mid entries data =
     mem_zero (slot mid) ((entries - mid) * 12)
       (header_store (h\<lparr>entries_count := of_nat mid\<rparr>) data)"

definition split_full_node ::
  "'e lwext4 \<Rightarrow> extent_search_path \<Rightarrow> nat \<Rightarrow> 'e istate \<Rightarrow> errno \<times> 'e istate" where
  "split_full_node io p level s =
     (let node = path p ! level; h = header node; pbn = pblock_of_node node;
          block_size = sb_block_size (sb io);
          entries = unat (entries_count h); mid = entries div 2;
          parent = path p ! (level - 1) in
      if level = 0 \<or> pbn = 0 \<or> entries < 2 \<or> entries_count h \<noteq> max_entries_count h then (EINVAL, s)
      else if h_full (header parent) then (ENOSPC, s)
      else
        case node_block_get io pbn s of (r, s1) \<Rightarrow>
        if r \<noteq> EOK then (r, s1)
        else
          let source_header = header_load (bufs s1 pbn);
              r = validate_header False block_size source_header;
              r = (if r = EOK then validate_entries (sb io) (bufs s1 pbn) source_header else r) in
          if r \<noteq> EOK \<or> depth source_header \<noteq> depth h \<or> unat (entries_count source_header) \<noteq> entries \<or>
             max_entries_count source_header \<noteq> max_entries_count h
          then (if r \<noteq> EOK then r else EIO, release io pbn s1)
          else
            case ext4_balloc_alloc_block io (fs_inode_to_goal_block io s1) s1 of (r, new_block_addr, s2) \<Rightarrow>
            if r \<noteq> EOK then (r, release io pbn s2)
            else
              case ext4_trans_block_get_noread io new_block_addr s2 of (r, s3) \<Rightarrow>
              if r \<noteq> EOK then free_new_metadata_block io new_block_addr r (release io pbn s3)
              else
                let right = split_right_bytes block_size h mid entries (bufs s3 pbn) (bufs s3 new_block_addr);
                    first_right = read_le32 right (slot 0);
                    s4 = s3\<lparr>bufs := (bufs s3)(new_block_addr := right)\<rparr> in
                case ext4_block_set io pbn s4 of (r, s5) \<Rightarrow>
                if r \<noteq> EOK then free_new_metadata_block io new_block_addr r (release io new_block_addr s5)
                else
                  case checksum_and_put io new_block_addr s5 of (r, s6) \<Rightarrow>
                  if r \<noteq> EOK then free_new_metadata_block io new_block_addr r s6
                  else
                    case insert_index_entry io p (level - 1) first_right new_block_addr s6 of (r, s7) \<Rightarrow>
                    if r \<noteq> EOK then free_new_metadata_block io new_block_addr r s7
                    else
                      case node_block_get io pbn s7 of (r, s8) \<Rightarrow>
                      if r \<noteq> EOK then (r, s8)
                      else
                        checksum_and_put io pbn
                          (s8\<lparr>bufs := (bufs s8)(pbn := split_left_bytes h mid entries (bufs s8 pbn))\<rparr>))"

section \<open>Growing the tree\<close>

definition grow_child_bytes :: "u32 \<Rightarrow> ext4_extent_header \<Rightarrow> bytes \<Rightarrow> bytes \<Rightarrow> bytes" where
  "grow_child_bytes block_size old_header root_bytes new_data =
     (let old_entries = unat (entries_count old_header);
          data0 = mem_zero 0 (unat block_size) new_data;
          new_header = \<lparr>magic = EXT4_EXTENT_MAGIC, entries_count = entries_count old_header,
             max_entries_count = ucast ((block_size - 12) div 12), depth = depth old_header,
             generation = 0\<rparr>;
          data1 = header_store new_header data0
      in if old_entries > 0
         then mem_write (slot 0) (mem_read (slot 0) (old_entries * 12) root_bytes) data1
         else data1)"

definition grow_root_bytes :: "u32 \<Rightarrow> u64 \<Rightarrow> bytes \<Rightarrow> bytes" where
  "grow_root_bytes first_logical_block new_block_addr root_bytes =
     (let h = header_load root_bytes;
          h' = h\<lparr>entries_count := 1, max_entries_count := of_nat EXT4_EXTENT_ROOT_MAX_ENTRIES,
                 depth := depth h + 1\<rparr>;
          d1 = mem_zero 12 (60 - 12) (header_store h' root_bytes);
          root_index = index_store_pblock new_block_addr (empty_index\<lparr>ix_first_block := first_logical_block\<rparr>)
      in index_store (slot 0) root_index d1)"

definition grow_indepth :: "'e lwext4 \<Rightarrow> 'e istate \<Rightarrow> errno \<times> 'e istate" where
  "grow_indepth io s =
     (let old_header = header_load (root s);
          block_size = sb_block_size (sb io) in
      if unat (depth old_header) \<ge> EXT4_EXTENT_MAX_DEPTH then (EFBIG, s)
      else
        case ext4_balloc_alloc_block io (fs_inode_to_goal_block io s) s of (r, new_block_addr, s1) \<Rightarrow>
        if r \<noteq> EOK then (r, s1)
        else
          case ext4_trans_block_get_noread io new_block_addr s1 of (r, s2) \<Rightarrow>
          if r \<noteq> EOK then (r, snd (ext4_balloc_free_block io new_block_addr s2))
          else
            let first_logical_block =
                  (if entries_count old_header > 0 then first_block (extent_load (root s2) (slot 0)) else 0);
                s3 = s2\<lparr>bufs := (bufs s2)(new_block_addr :=
                       grow_child_bytes block_size old_header (root s2) (bufs s2 new_block_addr))\<rparr> in
            case checksum_and_put io new_block_addr s3 of (r, s4) \<Rightarrow>
            if r \<noteq> EOK then (r, snd (ext4_balloc_free_block io new_block_addr s4))
            else
              (EOK, mark_dirty (s4\<lparr>root := grow_root_bytes first_logical_block new_block_addr (root s4)\<rparr>)))"

section \<open>Making room on the insertion path\<close>

definition first_full_level :: "extent_search_path \<Rightarrow> nat option" where
  "first_full_level p = find (\<lambda>level. h_full (header (path p ! level))) [1..<path_depth p + 1]"

fun ensure_insert_room_loop ::
  "'e lwext4 \<Rightarrow> u32 \<Rightarrow> nat \<Rightarrow> 'e istate \<Rightarrow> (errno + extent_search_path) \<times> 'e istate" where
  "ensure_insert_room_loop io fblk 0 s = (Inl EIO, s)"
| "ensure_insert_room_loop io fblk (Suc attempts) s =
     (case find_extent io fblk s of
        (Inl r, s1) \<Rightarrow> (Inl r, s1)
      | (Inr p, s1) \<Rightarrow>
          if h_full (header (path p ! 0)) then
            (case grow_indepth io s1 of (r, s2) \<Rightarrow>
             if r \<noteq> EOK then (Inl r, s2) else ensure_insert_room_loop io fblk attempts s2)
          else
            (case first_full_level p of
               Some level \<Rightarrow>
                 (case split_full_node io p level s1 of (r, s2) \<Rightarrow>
                  if r \<noteq> EOK then (Inl r, s2) else ensure_insert_room_loop io fblk attempts s2)
             | None \<Rightarrow> (Inr p, s1)))"

definition ensure_insert_room ::
  "'e lwext4 \<Rightarrow> u32 \<Rightarrow> 'e istate \<Rightarrow> (errno + extent_search_path) \<times> 'e istate" where
  "ensure_insert_room io fblk = ensure_insert_room_loop io fblk (EXT4_EXTENT_MAX_DEPTH * 2 + 4)"

section \<open>Index keys above a changed leaf\<close>

definition write_index_at ::
  "'e lwext4 \<Rightarrow> extent_path_node \<Rightarrow> nat \<Rightarrow> ext4_extent_index \<Rightarrow> 'e istate \<Rightarrow> errno \<times> 'e istate" where
  "write_index_at io node pos x s =
     (let pbn = pblock_of_node node in
      case open_node io pbn s of (r, s1) \<Rightarrow>
      if r \<noteq> EOK then (r, s1)
      else commit_node io pbn (set_node_data pbn (index_store (slot pos) x (node_data pbn s1)) s1))"

fun correct_indexes ::
  "'e lwext4 \<Rightarrow> extent_search_path \<Rightarrow> nat \<Rightarrow> u32 \<Rightarrow> 'e istate \<Rightarrow> errno \<times> 'e istate" where
  "correct_indexes io p 0 new_first_block s = (EOK, s)"
| "correct_indexes io p (Suc parent) new_first_block s =
     (let parent_node = path p ! parent;
          updated = (index parent_node)\<lparr>ix_first_block := new_first_block\<rparr> in
      case write_index_at io parent_node (position parent_node) updated s of (r, s1) \<Rightarrow>
      if r \<noteq> EOK then (r, s1)
      else if position parent_node \<noteq> 0 then (EOK, s1)
      else correct_indexes io p parent new_first_block s1)"

section \<open>insert_new_extent and insert_extent\<close>

definition new_extent_pos :: "extent_path_node \<Rightarrow> ext4_extent \<Rightarrow> nat" where
  "new_extent_pos node new_extent =
     (if have_extent node \<and> position node = 0 \<and> first_block new_extent < first_block (extent node)
      then 0 else position node + 1)"

definition insert_extent_bytes :: "ext4_extent_header \<Rightarrow> nat \<Rightarrow> ext4_extent \<Rightarrow> bytes \<Rightarrow> bytes" where
  "insert_extent_bytes h pos new_extent data =
     (let count = unat (entries_count h);
          data1 = (if pos < count then mem_move (slot (pos + 1)) (slot pos) ((count - pos) * 12) data
                   else data);
          data2 = extent_store (slot pos) new_extent data1
      in header_store (h\<lparr>entries_count := entries_count h + 1\<rparr>) data2)"

text \<open>
  insert_new_extent and insert_extent call each other: a full root
  leaf is pushed down one level and the insertion starts again.  \<open>retry\<close> stands for that
  call of insert_extent.
\<close>

definition insert_new_extent ::
  "(u32 \<Rightarrow> ext4_extent \<Rightarrow> 'e istate \<Rightarrow> errno \<times> 'e istate) \<Rightarrow> 'e lwext4 \<Rightarrow> extent_search_path
     \<Rightarrow> ext4_extent \<Rightarrow> 'e istate \<Rightarrow> errno \<times> 'e istate" where
  "insert_new_extent retry io p new_extent s =
     (let node = leaf_of p; h = header node; pbn = pblock_of_node node;
          pos = new_extent_pos node new_extent in
      if path_depth p = 0 then
        (if entries_count h = 0 then
           (EOK, mark_dirty (s\<lparr>root := header_store (h\<lparr>entries_count := 1\<rparr>)
                                 (extent_store (slot 0) new_extent (root s))\<rparr>))
         else if entries_count h = max_entries_count h then
           (case grow_indepth io s of (r, s1) \<Rightarrow>
            if r \<noteq> EOK then (r, s1) else retry (first_block new_extent) new_extent s1)
         else (EOK, mark_dirty (s\<lparr>root := insert_extent_bytes h pos new_extent (root s)\<rparr>)))
      else
        case node_block_get io pbn s of (r, s1) \<Rightarrow>
        if r \<noteq> EOK then (r, s1)
        else
          case checksum_and_put io pbn
                 (s1\<lparr>bufs := (bufs s1)(pbn := insert_extent_bytes h pos new_extent (bufs s1 pbn))\<rparr>) of (r, s2) \<Rightarrow>
          if r \<noteq> EOK then (r, s2)
          else if pos = 0 then correct_indexes io p (path_depth p) (first_block new_extent) s2
          else (EOK, s2))"

text \<open>The last part of insert_extent: no merge applied.\<close>

definition insert_unmerged ::
  "(u32 \<Rightarrow> ext4_extent \<Rightarrow> 'e istate \<Rightarrow> errno \<times> 'e istate) \<Rightarrow> 'e lwext4 \<Rightarrow> u32 \<Rightarrow> extent_search_path
     \<Rightarrow> ext4_extent \<Rightarrow> 'e istate \<Rightarrow> errno \<times> 'e istate" where
  "insert_unmerged retry io fblk p new_extent s =
     (if \<not> h_full (header (leaf_of p)) then insert_new_extent retry io p new_extent s
      else
        case ensure_insert_room io fblk s of
          (Inl r, s1) \<Rightarrow> (r, s1)
        | (Inr p', s1) \<Rightarrow>
            if h_full (header (leaf_of p')) then (EIO, s1)
            else insert_new_extent retry io p' new_extent s1)"

definition insert_extent_body ::
  "(u32 \<Rightarrow> ext4_extent \<Rightarrow> 'e istate \<Rightarrow> errno \<times> 'e istate) \<Rightarrow> 'e lwext4 \<Rightarrow> u32 \<Rightarrow> ext4_extent
     \<Rightarrow> 'e istate \<Rightarrow> errno \<times> 'e istate" where
  "insert_extent_body retry io fblk new_extent s =
     (case find_extent io fblk s of
        (Inl r, s1) \<Rightarrow> (r, s1)
      | (Inr p, s1) \<Rightarrow>
          let leaf = leaf_of p in
          if entries_count (header leaf) = 0 then insert_new_extent retry io p new_extent s1
          else if \<not> have_extent leaf then insert_unmerged retry io fblk p new_extent s1
          else
            let ex = extent leaf; pos = position leaf;
                last_pos = unat (entries_count (header leaf)) - 1 in
            if fblk \<ge> first_block ex \<and> fblk < first_block ex + ucast (extent_get_actual_len ex)
            then (EEXIST, s1)
            else if can_merge ex new_extent then store_merged io p ex new_extent pos s1
            else
              let try_prev = (\<lambda>s.
                    if pos > 0 \<and>
                       first_block new_extent + ucast (extent_get_actual_len new_extent) < first_block ex then
                      (case node_get_extent io leaf (pos - 1) s of
                         (Inl r, s2) \<Rightarrow> (r, s2)
                       | (Inr prev, s2) \<Rightarrow>
                           if can_merge prev new_extent then store_merged io p prev new_extent (pos - 1) s2
                           else insert_unmerged retry io fblk p new_extent s2)
                    else insert_unmerged retry io fblk p new_extent s) in
              if pos < last_pos \<and>
                 first_block ex + ucast (extent_get_actual_len ex) < first_block new_extent then
                (case node_get_extent io leaf (pos + 1) s1 of
                   (Inl r, s2) \<Rightarrow> (r, s2)
                 | (Inr next, s2) \<Rightarrow>
                     if can_merge new_extent next then store_merged io p new_extent next (pos + 1) s2
                     else try_prev s2)
              else try_prev s1)"

text \<open>
  The recursion with fuel.  One unit is enough, since the recursive call is never
  reached (\<open>insert_extent_fuel_enough\<close>): insert_extent enters
  insert_new_extent with an empty leaf or with a leaf that has room.
\<close>

fun insert_extent_fuel ::
  "nat \<Rightarrow> 'e lwext4 \<Rightarrow> u32 \<Rightarrow> ext4_extent \<Rightarrow> 'e istate \<Rightarrow> errno \<times> 'e istate" where
  "insert_extent_fuel 0 io fblk new_extent s = (EIO, s)"
| "insert_extent_fuel (Suc n) io fblk new_extent s =
     insert_extent_body (insert_extent_fuel n io) io fblk new_extent s"

definition insert_extent :: "'e lwext4 \<Rightarrow> u32 \<Rightarrow> ext4_extent \<Rightarrow> 'e istate \<Rightarrow> errno \<times> 'e istate" where
  "insert_extent = insert_extent_fuel 1"

lemma insert_new_extent_no_retry:
  "entries_count (header (leaf_of p)) = 0 \<or> \<not> h_full (header (leaf_of p)) \<Longrightarrow>
   insert_new_extent retry io p new_extent s = insert_new_extent retry' io p new_extent s"
  by (auto simp: insert_new_extent_def h_full_def Let_def)

lemma insert_unmerged_no_retry:
  "insert_unmerged retry io fblk p new_extent s = insert_unmerged retry' io fblk p new_extent s"
  unfolding insert_unmerged_def
  using insert_new_extent_no_retry [of _ retry io new_extent _ retry']
  by (auto split: prod.splits sum.splits)

lemma insert_extent_body_no_retry:
  "insert_extent_body retry io fblk new_extent s = insert_extent_body retry' io fblk new_extent s"
  unfolding insert_extent_body_def Let_def insert_unmerged_no_retry [of retry io fblk _ _ _ retry']
  using insert_new_extent_no_retry [of _ retry io new_extent _ retry']
  by (auto split: prod.splits sum.splits)

lemma insert_extent_fuel_enough: "insert_extent_fuel (Suc n) = insert_extent"
  by (intro ext) (simp add: insert_extent_def insert_extent_body_no_retry
      [of "insert_extent_fuel n _" _ _ _ _ "insert_extent_fuel 0 _"])

text \<open>The mutual recursion of the C code, as an equation.\<close>

lemma insert_extent_unfold:
  "insert_extent io fblk new_extent s = insert_extent_body (insert_extent io) io fblk new_extent s"
  unfolding insert_extent_def One_nat_def insert_extent_fuel.simps
  by (rule insert_extent_body_no_retry)

end
