(* ===== verification/Extent_Remove.thy ===== *)
theory Extent_Remove
  imports Extent_Insert
begin

text \<open>
  Removal: freeing the data blocks of (part of) an extent, rewriting a leaf, dropping an
  emptied node from its parent, and cutting a range out of the middle of one extent.
\<close>

definition remove_blocks :: "'e lwext4 \<Rightarrow> ext4_extent \<Rightarrow> u32 \<Rightarrow> u32 \<Rightarrow> 'e istate \<Rightarrow> errno \<times> 'e istate" where
  "remove_blocks io ext from_blk to_blk s =
     (let len = to_blk - from_blk + 1;
          num = from_blk - first_block ext;
          start = extent_get_pblock ext + ucast num
      in ext4_balloc_free_blocks io start len s)"

section \<open>remove_index\<close>

definition remove_index_block :: "'e lwext4 \<Rightarrow> ext4_extent_index \<Rightarrow> 'e istate \<Rightarrow> errno \<times> 'e istate" where
  "remove_index_block io x s = ext4_balloc_free_blocks io (index_get_pblock x) 1 s"

definition remove_index_bytes :: "ext4_extent_header \<Rightarrow> nat \<Rightarrow> bytes \<Rightarrow> bytes" where
  "remove_index_bytes h pos data =
     (let entries = unat (entries_count h);
          data1 = (if pos \<noteq> entries - 1 then
                     mem_zero (slot (entries - 1)) 12
                       (mem_move (slot pos) (slot (pos + 1)) ((entries - pos - 1) * 12) data)
                   else data)
      in header_store (h\<lparr>entries_count := of_nat (entries - 1)\<rparr>) data1)"

text \<open>
  The recursion goes up one level while the node is emptied and is not the root.  At
  level 0 the node is the root, so there is no level below 0 to go to.
\<close>

fun remove_index ::
  "'e lwext4 \<Rightarrow> extent_search_path \<Rightarrow> nat \<Rightarrow> 'e istate \<Rightarrow> errno \<times> 'e istate" where
  "remove_index io p level s =
     (let node = path p ! level; h = header node; pbn = pblock_of_node node;
          pos = position node; entries = unat (entries_count h) in
      case open_node io pbn s of (r, s1) \<Rightarrow>
      if r \<noteq> EOK then (r, s1)
      else
        let data = remove_index_bytes h pos (node_data pbn s1);
            first_after = read_le32 data (slot 0) in
        case commit_node io pbn (set_node_data pbn data s1) of (r, s2) \<Rightarrow>
        if r \<noteq> EOK then (r, s2)
        else
          case remove_index_block io (index node) s2 of (r, s3) \<Rightarrow>
          if r \<noteq> EOK then (r, s3)
          else
            case (if pos = 0 \<and> entries - 1 > 0 then correct_indexes io p level first_after s3
                  else (EOK, s3)) of (r, s4) \<Rightarrow>
            if r \<noteq> EOK then (r, s4)
            else if entries - 1 = 0 then
              (if pbn = 0 then
                 (EOK, mark_dirty (s4\<lparr>root := header_store ((header_load (root s4))\<lparr>depth := 0\<rparr>) (root s4)\<rparr>))
               else (case level of 0 \<Rightarrow> (EIO, s4) | Suc level' \<Rightarrow> remove_index io p level' s4))
            else (EOK, s4))"

declare remove_index.simps [simp del]

section \<open>remove_leaf\<close>

text \<open>
  One iteration's decision for an extent that reaches into the range: which part is freed
  and what is kept.  \<open>keep_len = 0\<close> drops the entry.
\<close>

record leaf_cut =
  cut_start :: u32
  cut_len :: u16
  keep_len :: u16
  keep_start :: u32
  keep_block :: u64

definition cut_extent :: "ext4_extent \<Rightarrow> u32 \<Rightarrow> u32 \<Rightarrow> leaf_cut" where
  "cut_extent ex from_blk to_blk =
     (let len = extent_get_actual_len ex;
          start = first_block ex;
          newblock = extent_get_pblock ex in
      if start < from_blk then
        \<lparr>cut_start = from_blk,
         cut_len = ucast ((ucast len :: u32) - (from_blk - start)),
         keep_len = ucast (from_blk - start),
         keep_start = start, keep_block = newblock\<rparr>
      else if start + ucast len - 1 > to_blk then
        (let new_len = ucast (start + ucast len - 1 - to_blk) :: u16 in
         \<lparr>cut_start = start, cut_len = len - new_len, keep_len = new_len,
          keep_start = to_blk + 1, keep_block = newblock + ucast (to_blk + 1 - start)\<rparr>)
      else \<lparr>cut_start = start, cut_len = len, keep_len = 0, keep_start = start, keep_block = newblock\<rparr>)"

definition kept_extent :: "ext4_extent \<Rightarrow> leaf_cut \<Rightarrow> ext4_extent" where
  "kept_extent ex c =
     (let ex1 = ex\<lparr>first_block := keep_start c\<rparr>;
          unwritten = extent_is_unwritten ex1;
          ex2 = extent_set_actual_len (keep_len c) (extent_store_pblock (keep_block c) ex1)
      in if unwritten then extent_mark_unwritten ex2 else ex2)"

function remove_leaf_loop ::
  "'e lwext4 \<Rightarrow> u64 \<Rightarrow> u32 \<Rightarrow> u32 \<Rightarrow> nat \<Rightarrow> nat \<Rightarrow> nat \<Rightarrow> nat \<Rightarrow> 'e istate
     \<Rightarrow> (errno + nat \<times> nat \<times> nat) \<times> 'e istate" where
  "remove_leaf_loop io pbn from_blk to_blk entry_count i write new_count s =
     (if i < entry_count then
        (let ex = extent_load (node_data pbn s) (slot i) in
         if first_block ex > to_blk then (Inr (i, write, new_count), s)
         else if first_block ex + ucast (extent_get_actual_len ex) - 1 < from_blk then
           remove_leaf_loop io pbn from_blk to_blk entry_count (i + 1) (write + 1) new_count
             (set_node_data pbn (extent_store (slot write) ex (node_data pbn s)) s)
         else
           let c = cut_extent ex from_blk to_blk in
           case remove_blocks io ex (cut_start c) (cut_start c + ucast (cut_len c) - 1) s of (r, s1) \<Rightarrow>
           if r \<noteq> EOK then (Inl r, close_node io pbn s1)
           else if keep_len c = 0 then
             remove_leaf_loop io pbn from_blk to_blk entry_count (i + 1) write (new_count - 1) s1
           else
             remove_leaf_loop io pbn from_blk to_blk entry_count (i + 1) (write + 1) new_count
               (set_node_data pbn (extent_store (slot write) (kept_extent ex c) (node_data pbn s1)) s1))
      else (Inr (i, write, new_count), s))"
  by pat_completeness auto
termination
  by (relation "measure (\<lambda>(io, pbn, f, t, n, i, w, c, s). n - i)") auto

declare remove_leaf_loop.simps [simp del]

definition remove_leaf_bytes :: "ext4_extent_header \<Rightarrow> nat \<Rightarrow> nat \<Rightarrow> nat \<Rightarrow> bytes \<Rightarrow> bytes" where
  "remove_leaf_bytes h i write new_count data =
     (let entry_count = unat (entries_count h);
          data1 = (if write \<noteq> i \<and> i < entry_count then
                     mem_move (slot write) (slot i) ((entry_count - i) * 12) data
                   else data)
      in header_store (h\<lparr>entries_count := of_nat new_count\<rparr>) data1)"

definition remove_leaf ::
  "'e lwext4 \<Rightarrow> extent_search_path \<Rightarrow> u32 \<Rightarrow> u32 \<Rightarrow> 'e istate \<Rightarrow> errno \<times> 'e istate" where
  "remove_leaf io p from_blk to_blk s =
     (let leaf = leaf_of p; h = header leaf; pbn = pblock_of_node leaf;
          entry_count = unat (entries_count h); pos = position leaf in
      case open_node io pbn s of (r, s1) \<Rightarrow>
      if r \<noteq> EOK then (r, s1)
      else
        case remove_leaf_loop io pbn from_blk to_blk entry_count pos pos entry_count s1 of
          (Inl r, s2) \<Rightarrow> (r, s2)
        | (Inr (i, write, new_count), s2) \<Rightarrow>
            let data = remove_leaf_bytes h i write new_count (node_data pbn s2);
                first_after = read_le32 data (slot 0) in
            case commit_node io pbn (set_node_data pbn data s2) of (r, s3) \<Rightarrow>
            if r \<noteq> EOK then (r, s3)
            else
              case (if pos = 0 \<and> new_count > 0 then correct_indexes io p (path_depth p) first_after s3
                    else (EOK, s3)) of (r, s4) \<Rightarrow>
              if r \<noteq> EOK then (r, s4)
              else if new_count = 0 then
                (if pbn = 0 then (EOK, s4) else remove_index io p (path_depth p - 1) s4)
              else (EOK, s4))"

section \<open>remove_middle_of_extent\<close>

definition middle_prefix :: "ext4_extent \<Rightarrow> u32 \<Rightarrow> ext4_extent" where
  "middle_prefix original from_blk =
     (let prefix = extent_set_actual_len (ucast (from_blk - first_block original)) original
      in if extent_is_unwritten original then extent_mark_unwritten prefix else prefix)"

definition middle_suffix :: "ext4_extent \<Rightarrow> u32 \<Rightarrow> ext4_extent" where
  "middle_suffix original to_blk =
     (let original_end = ucast (first_block original) + ucast (extent_get_actual_len original) - 1 :: u64;
          s1 = empty_extent\<lparr>first_block := to_blk + 1\<rparr>;
          s2 = extent_set_actual_len (ucast (original_end - ucast to_blk)) s1;
          s3 = extent_store_pblock
                 (extent_get_pblock original + ucast (to_blk + 1 - first_block original)) s2
      in if extent_is_unwritten original then extent_mark_unwritten s3 else s3)"

definition split_middle_bytes ::
  "ext4_extent_header \<Rightarrow> nat \<Rightarrow> ext4_extent \<Rightarrow> ext4_extent \<Rightarrow> bytes \<Rightarrow> bytes" where
  "split_middle_bytes h pos prefix suffix data =
     (let entries = unat (entries_count h);
          data1 = (if pos + 1 < entries then
                     mem_move (slot (pos + 2)) (slot (pos + 1)) ((entries - pos - 1) * 12) data
                   else data);
          data2 = extent_store (slot pos) prefix data1;
          data3 = extent_store (slot (pos + 1)) suffix data2
      in header_store (h\<lparr>entries_count := entries_count h + 1\<rparr>) data3)"

definition remove_middle_of_extent ::
  "'e lwext4 \<Rightarrow> u32 \<Rightarrow> u32 \<Rightarrow> 'e istate \<Rightarrow> errno \<times> 'e istate" where
  "remove_middle_of_extent io from_blk to_blk s =
     (case ensure_insert_room io from_blk s of
        (Inl r, s1) \<Rightarrow> (r, s1)
      | (Inr p, s1) \<Rightarrow>
          let leaf = leaf_of p; h = header leaf; pbn = pblock_of_node leaf;
              original = extent leaf;
              original_end = ucast (first_block original)
                + ucast (extent_get_actual_len original) - 1 :: u64 in
          if h_full h \<or> first_block original \<ge> from_blk \<or> ucast to_blk \<ge> original_end then (EIO, s1)
          else
            case open_node io pbn s1 of (r, s2) \<Rightarrow>
            if r \<noteq> EOK then (r, s2)
            else
              case commit_node io pbn
                     (set_node_data pbn
                        (split_middle_bytes h (position leaf) (middle_prefix original from_blk)
                           (middle_suffix original to_blk) (node_data pbn s2)) s2) of (r, s3) \<Rightarrow>
              if r \<noteq> EOK then (r, s3)
              else remove_blocks io original from_blk to_blk s3)"

end
