(* ===== verification/Extent_Ops.thy ===== *)
theory Extent_Ops
  imports Extent_Remove
begin

text \<open>
  The three hooks lwext4 calls: ext4_extent_tree_init,
  ext4_extent_get_blocks (lookup and allocation) and
  ext4_extent_remove_space.
\<close>

section \<open>ext4_extent_tree_init\<close>

definition ext4_extent_tree_init :: "'e lwext4 \<Rightarrow> 'e istate \<Rightarrow> 'e istate" where
  "ext4_extent_tree_init io s =
     (let h = \<lparr>magic = EXT4_EXTENT_MAGIC, entries_count = 0,
               max_entries_count = of_nat EXT4_EXTENT_ROOT_MAX_ENTRIES, depth = 0, generation = 0\<rparr>;
          d = mem_zero 12 (60 - 12) (header_store h (root s))
      in mark_dirty (s\<lparr>root := d, env := inode_set_extents_flag io (env s)\<rparr>))"

section \<open>ext4_extent_get_blocks\<close>

text \<open>
  The allocation loop: up to \<open>cap\<close> blocks, contiguous from the first one.  On success
  the first block and the count.
\<close>

function alloc_run ::
  "'e lwext4 \<Rightarrow> nat \<Rightarrow> u64 \<Rightarrow> nat \<Rightarrow> u64 \<Rightarrow> 'e istate \<Rightarrow> (errno + u64 \<times> nat) \<times> 'e istate" where
  "alloc_run io cap first count goal s =
     (if count < cap then
        (case ext4_balloc_alloc_block io goal s of (r, candidate, s1) \<Rightarrow>
         if r \<noteq> EOK then
           (if count = 0 then (Inl r, s1)
            else if r \<noteq> ENOSPC then
              (case ext4_balloc_free_blocks io first (of_nat count) s1 of (free_r, s2) \<Rightarrow>
               (Inl (if free_r \<noteq> EOK then free_r else r), s2))
            else (Inr (first, count), s1))
         else if count = 0 then alloc_run io cap candidate 1 (candidate + 1) s1
         else if candidate = first + of_nat count then
           alloc_run io cap first (count + 1) (candidate + 1) s1
         else
           (case ext4_balloc_free_block io candidate s1 of (r, s2) \<Rightarrow>
            if r \<noteq> EOK then
              (case ext4_balloc_free_blocks io first (of_nat count) s2 of (free_r, s3) \<Rightarrow>
               (Inl (if free_r \<noteq> EOK then free_r else r), s3))
            else (Inr (first, count), s2)))
      else (Inr (first, count), s))"
  by pat_completeness auto
termination
  by (relation "measure (\<lambda>(io, cap, first, count, goal, s). cap - count)") auto

declare alloc_run.simps [simp del]

text \<open>How many blocks may be mapped at \<open>iblock\<close>: max_blocks, the longest extent, the gap.\<close>

definition alloc_cap ::
  "'e lwext4 \<Rightarrow> extent_search_path \<Rightarrow> u32 \<Rightarrow> u32 \<Rightarrow> 'e istate \<Rightarrow> (errno + u32) \<times> 'e istate" where
  "alloc_cap io p iblock max_blocks s =
     (let leaf = leaf_of p; n = unat (entries_count (header leaf));
          cap = (if max_blocks < ucast EXT_INIT_MAX_LEN then max_blocks else ucast EXT_INIT_MAX_LEN) in
      if have_extent leaf \<and> n > 0 then
        (if iblock < first_block (extent leaf) then
           (Inr (min cap (first_block (extent leaf) - iblock)), s)
         else if position leaf + 1 < n then
           (case node_get_extent io leaf (position leaf + 1) s of
              (Inl r, s1) \<Rightarrow> (Inl r, s1)
            | (Inr next, s1) \<Rightarrow> (Inr (min cap (first_block next - iblock)), s1))
         else
           (case find_next_extent io p s of
              (Inr next, s1) \<Rightarrow>
                if first_block next \<le> iblock then (Inl EIO, s1)
                else (Inr (min cap (first_block next - iblock)), s1)
            | (Inl r, s1) \<Rightarrow> if r \<noteq> ENOENT then (Inl r, s1) else (Inr cap, s1)))
      else (Inr cap, s))"

text \<open>
  The result pointers are always given here: the value is \<open>(*result, *blocks_count)\<close>.
  On an error return both have been set to 0.
\<close>

definition ext4_extent_get_blocks ::
  "'e lwext4 \<Rightarrow> u32 \<Rightarrow> u32 \<Rightarrow> bool \<Rightarrow> 'e istate \<Rightarrow> (errno + u64 \<times> u32) \<times> 'e istate" where
  "ext4_extent_get_blocks io iblock max_blocks create s =
     (case find_extent io iblock s of
        (Inl r, s1) \<Rightarrow> (Inl r, s1)
      | (Inr p, s1) \<Rightarrow>
          let leaf = leaf_of p; ex = extent leaf; n = entries_count (header leaf);
              actual_len = ucast (extent_get_actual_len ex) :: u32 in
          if have_extent leaf \<and> n > 0 \<and> first_block ex \<le> iblock \<and> iblock < first_block ex + actual_len
          then
            (if extent_is_unwritten ex then
               (if create then (Inl ENOTSUP, s1) else (Inr (0, 0), s1))
             else
               let off = iblock - first_block ex; avail = actual_len - off in
               (Inr (extent_get_pblock ex + ucast off, min max_blocks avail), s1))
          else if \<not> create then (Inr (0, 0), s1)
          else if require_journaled_mutation io s1 \<noteq> EOK then (Inl (require_journaled_mutation io s1), s1)
          else
            case alloc_cap io p iblock max_blocks s1 of
              (Inl r, s2) \<Rightarrow> (Inl r, s2)
            | (Inr cap, s2) \<Rightarrow>
                if cap = 0 then (Inl EEXIST, s2)
                else
                  let goal = (if have_extent leaf \<and> n > 0 \<and> first_block ex + actual_len = iblock
                              then extent_get_pblock ex + ucast (extent_get_actual_len ex)
                              else fs_inode_to_goal_block io s2) in
                  case alloc_run io (unat cap) 0 0 goal s2 of
                    (Inl r, s3) \<Rightarrow> (Inl r, s3)
                  | (Inr (first, count), s3) \<Rightarrow>
                      if count = 0 then (Inl ENOSPC, s3)
                      else
                        let new_extent = extent_store_pblock first
                              (empty_extent\<lparr>first_block := iblock, block_count := of_nat count\<rparr>) in
                        case insert_extent io iblock new_extent s3 of (r, s4) \<Rightarrow>
                        if r \<noteq> EOK then
                          (case ext4_balloc_free_blocks io first (of_nat count) s4 of (free_r, s5) \<Rightarrow>
                           (Inl (if free_r \<noteq> EOK then free_r else r), s5))
                        else (Inr (first, of_nat count), s4))"

section \<open>ext4_extent_remove_space\<close>

text \<open>
  The loop \<open>while (from <= to)\<close> with fuel: \<open>None\<close> is "still running".  On a damaged tree
  the loop may run forever, so no bound holds for every state.
\<close>

fun remove_space_loop ::
  "nat \<Rightarrow> 'e lwext4 \<Rightarrow> u32 \<Rightarrow> u32 \<Rightarrow> 'e istate \<Rightarrow> (errno \<times> 'e istate) option" where
  "remove_space_loop 0 io from_blk to_blk s = None"
| "remove_space_loop (Suc fuel) io from_blk to_blk s =
     (if from_blk \<le> to_blk then
        (case find_extent io from_blk s of
           (Inl r, s1) \<Rightarrow> Some (r, s1)
         | (Inr p, s1) \<Rightarrow>
             let leaf = leaf_of p; ex = extent leaf in
             if \<not> have_extent leaf \<or> entries_count (header leaf) = 0 \<or> first_block ex > to_blk
             then Some (EOK, s1)
             else
               let ex_first = first_block ex;
                   ex_last = ex_first + ucast (extent_get_actual_len ex) - 1 in
               if ex_first < from_blk \<and> to_blk < ex_last
               then Some (remove_middle_of_extent io from_blk to_blk s1)
               else if ex_last < from_blk then
                 (case find_next_extent io p s1 of
                    (Inl r, s2) \<Rightarrow> if r = ENOENT then Some (EOK, s2) else Some (r, s2)
                  | (Inr next, s2) \<Rightarrow> remove_space_loop fuel io (first_block next) to_blk s2)
               else
                 let remove_to = (if ex_last < to_blk then ex_last else to_blk) in
                 case remove_leaf io p from_blk remove_to s1 of (r, s2) \<Rightarrow>
                 if r \<noteq> EOK then Some (r, s2)
                 else if remove_to = 0xFFFFFFFF then Some (EOK, s2)
                 else remove_space_loop fuel io (remove_to + 1) to_blk s2)
      else Some (EOK, s))"

definition ext4_extent_remove_space ::
  "nat \<Rightarrow> 'e lwext4 \<Rightarrow> u32 \<Rightarrow> u32 \<Rightarrow> 'e istate \<Rightarrow> (errno \<times> 'e istate) option" where
  "ext4_extent_remove_space fuel io from_blk to_blk s =
     (if require_journaled_mutation io s \<noteq> EOK then Some (require_journaled_mutation io s, s)
      else remove_space_loop fuel io from_blk to_blk s)"

end
