(* ===== verification/Extent_Tree.thy ===== *)
theory Extent_Tree
  imports Extent_Ops
begin

text \<open>
  The tree as a whole.  \<open>extents_of\<close> reads the extents of a (sub)tree left to right out of
  the node blocks, \<open>tree_ok\<close> is the well-formedness of a tree, \<open>tree_map\<close> the map it
  denotes.  The main result is that find_extent, on a well-formed tree of any
  depth, ends at the extent that decides the map at the logical block.
\<close>

section \<open>Well-formed trees\<close>

fun extents_of :: "(u64 \<Rightarrow> bytes) \<Rightarrow> nat \<Rightarrow> bytes \<Rightarrow> ext4_extent list" where
  "extents_of B 0 data = leaf_list (header_load data) data"
| "extents_of B (Suc d) data =
     concat (map (\<lambda>x. extents_of B d (B (index_get_pblock x))) (index_list (header_load data) data))"

text \<open>An external node at distance \<open>d\<close> from the leaves.\<close>

definition node_ok :: "ext4_sb \<Rightarrow> nat \<Rightarrow> bytes \<Rightarrow> bool" where
  "node_ok b d data \<longleftrightarrow> length data = unat (sb_block_size b)
     \<and> verify_extent_block_checksum b data = EOK
     \<and> validate_header False (sb_block_size b) (header_load data) = EOK
     \<and> unat (depth (header_load data)) = d
     \<and> entries_count (header_load data) \<noteq> 0
     \<and> validate_entries b data (header_load data) = EOK"

definition child_ok :: "(u64 \<Rightarrow> bytes) \<Rightarrow> ext4_extent_index \<Rightarrow> bool" where
  "child_ok B x \<longleftrightarrow> ix_first_block x = read_le32 (B (index_get_pblock x)) (slot 0)"

fun subtree_ok :: "ext4_sb \<Rightarrow> (u64 \<Rightarrow> bytes) \<Rightarrow> nat \<Rightarrow> bytes \<Rightarrow> bool" where
  "subtree_ok b B 0 data = node_ok b 0 data"
| "subtree_ok b B (Suc d) data = (node_ok b (Suc d) data
     \<and> (\<forall>x \<in> set (index_list (header_load data) data).
          child_ok B x \<and> subtree_ok b B d (B (index_get_pblock x))))"

definition root_depth :: "'e istate \<Rightarrow> nat" where
  "root_depth s = unat (depth (header_load (root s)))"

definition root_ok :: "ext4_sb \<Rightarrow> bytes \<Rightarrow> bool" where
  "root_ok b data \<longleftrightarrow> length data = 60
     \<and> validate_header True (sb_block_size b) (header_load data) = EOK
     \<and> validate_entries b data (header_load data) = EOK
     \<and> (depth (header_load data) \<noteq> 0 \<longrightarrow> entries_count (header_load data) \<noteq> 0)"

definition tree_extents :: "'e istate \<Rightarrow> ext4_extent list" where
  "tree_extents s = extents_of (bufs s) (root_depth s) (root s)"

definition tree_ok :: "ext4_sb \<Rightarrow> 'e istate \<Rightarrow> bool" where
  "tree_ok b s \<longleftrightarrow> root_ok b (root s)
     \<and> (root_depth s \<noteq> 0 \<longrightarrow> (\<forall>x \<in> set (index_list (header_load (root s)) (root s)).
          child_ok (bufs s) x \<and> subtree_ok b (bufs s) (root_depth s - 1) (bufs s (index_get_pblock x))))
     \<and> extents_ok (sb_blocks_cnt b) (tree_extents s)"

definition tree_map :: "'e istate \<Rightarrow> nat \<Rightarrow> (nat \<times> bool) option" where
  "tree_map s = ext_map (tree_extents s)"

text \<open>The I/O services answer every request.\<close>

definition io_reliable :: "'e lwext4 \<Rightarrow> bool" where
  "io_reliable io \<longleftrightarrow> (\<forall>pb e. fst (trans_block_get io pb e) = EOK
     \<and> fst (block_set io pb e) = EOK \<and> fst (trans_set_block_dirty io pb e) = EOK
     \<and> fst (trans_block_get_noread io pb e) = EOK)"

section \<open>The first key of a subtree\<close>

lemma subtree_node_ok: "subtree_ok b B d data \<Longrightarrow> node_ok b d data"
  by (cases d) auto

lemma slots_hd: "0 < n \<Longrightarrow> hd (slots load n data) = load data (slot 0)"
  by (simp add: hd_conv_nth flip: length_greater_0_conv)

lemma subtree_first:
  assumes "subtree_ok b B d data"
  shows "extents_of B d data \<noteq> [] \<and> first_block (hd (extents_of B d data)) = read_le32 data (slot 0)"
  using assms
proof (induction d arbitrary: data)
  case 0
  then have "0 < unat (entries_count (header_load data))"
    by (simp add: node_ok_def unat_gt_0)
  then show ?case
    by (simp add: slots_hd codec_simps flip: length_greater_0_conv)
next
  case (Suc d)
  let ?xs = "index_list (header_load data) data"
  from Suc.prems have "0 < unat (entries_count (header_load data))"
    by (simp add: node_ok_def unat_gt_0)
  then obtain x xs where xs: "?xs = x # xs" "x = index_load data (slot 0)"
    by (metis length_slots list.exhaust list.sel(1) list.size(3) not_less0 slots_hd)
  with Suc.prems have "child_ok B x" "subtree_ok b B d (B (index_get_pblock x))" by auto
  with Suc.IH [of "B (index_get_pblock x)"] xs show ?case
    by (simp add: child_ok_def codec_simps)
qed

section \<open>Where a lookup ends\<close>

text \<open>
  \<open>lookup_split E lb L\<close>: the leaf list \<open>L\<close> is a segment of all extents \<open>E\<close>, everything
  behind it starts above \<open>lb\<close>, if anything precedes it then it starts at or below \<open>lb\<close>,
  and it is empty only when there are no extents at all.
\<close>

definition lookup_split :: "ext4_extent list \<Rightarrow> u32 \<Rightarrow> ext4_extent list \<Rightarrow> ext4_extent list \<Rightarrow> ext4_extent list \<Rightarrow> bool" where
  "lookup_split E lb pre L post \<longleftrightarrow> E = pre @ L @ post
     \<and> (\<forall>e \<in> set post. lb < first_block e) \<and> (pre \<noteq> [] \<longrightarrow> first_block (hd L) \<le> lb)
     \<and> (L = [] \<longrightarrow> pre = [] \<and> post = [])"

lemma sorted_first_mono:
  assumes "sorted_extents (x # xs)" "e \<in> set xs"
  shows "first_block x \<le> first_block e"
  using assms e_first_le_end [of x] by (auto simp: e_first_def word_le_nat_alt)

lemma sorted_concat_part:
  "sorted_extents (concat (map f xs)) \<Longrightarrow> x \<in> set xs \<Longrightarrow> sorted_extents (f x)"
  by (induction xs) (auto simp: sorted_wrt_append)

lemma lookup_split_index:
  assumes xs: "xs = take pos xs @ x # drop (Suc pos) xs"
    and sub: "lookup_split (f x) lb pre L post"
    and sorted: "sorted_extents (concat (map f xs))"
    and key: "\<And>y. y \<in> set xs \<Longrightarrow> f y \<noteq> [] \<and> first_block (hd (f y)) = ix_first_block y"
    and low: "0 < pos \<Longrightarrow> ix_first_block x \<le> lb"
    and high: "Suc pos < length xs \<Longrightarrow> lb < ix_first_block (xs ! Suc pos)"
    and pos: "pos < length xs"
  shows "lookup_split (concat (map f xs)) lb (concat (map f (take pos xs)) @ pre) L
           (post @ concat (map f (drop (Suc pos) xs)))"
proof -
  have "concat (map f xs) = concat (map f (take pos xs)) @ f x @ concat (map f (drop (Suc pos) xs))"
    by (subst xs) simp
  with sub have E: "concat (map f xs) = (concat (map f (take pos xs)) @ pre) @ L
      @ post @ concat (map f (drop (Suc pos) xs))"
    by (simp add: lookup_split_def)
  have after: "lb < first_block e" if e: "e \<in> set (concat (map f (drop (Suc pos) xs)))" for e
  proof -
    have lt: "Suc pos < length xs"
      using e by (cases "Suc pos < length xs") auto
    let ?y = "xs ! Suc pos"
    have y: "?y \<in> set xs" using lt by simp
    have d: "drop (Suc pos) xs = ?y # drop (Suc (Suc pos)) xs"
      using lt by (rule Cons_nth_drop_Suc [symmetric])
    have "sorted_extents (concat (map f (drop (Suc pos) xs)))"
      using sorted by (subst (asm) E) (simp add: sorted_wrt_append)
    moreover have "concat (map f (drop (Suc pos) xs))
        = hd (f ?y) # tl (f ?y) @ concat (map f (drop (Suc (Suc pos)) xs))"
      using key [OF y] by (simp add: d)
    moreover have "e \<in> set (hd (f ?y) # tl (f ?y) @ concat (map f (drop (Suc (Suc pos)) xs)))"
      using e calculation(2) by metis
    ultimately have "first_block (hd (f ?y)) \<le> first_block e"
      using sorted_first_mono
      by (metis order_refl set_ConsD)
    with key [OF y] high [OF lt] show ?thesis by simp
  qed
  have "x \<in> set xs" by (subst xs) simp
  then have x: "f x \<noteq> []" "first_block (hd (f x)) = ix_first_block x"
    using key [of x] by simp_all
  have L: "L \<noteq> []" using x(1) sub by (auto simp: lookup_split_def)
  have first_L: "first_block (hd L) \<le> lb" if "pre \<noteq> [] \<or> 0 < pos"
    using that sub x L low by (cases "pre = []") (auto simp: lookup_split_def)
  have "concat (map f (take pos xs)) @ pre \<noteq> [] \<Longrightarrow> pre \<noteq> [] \<or> 0 < pos" by (cases pos) auto
  with E after first_L L sub show ?thesis by (auto simp: lookup_split_def)
qed

section \<open>find_extent\<close>

text \<open>What the leaf record at the end of a path says about the leaf it names.\<close>

definition found_leaf :: "'e istate \<Rightarrow> u32 \<Rightarrow> extent_path_node \<Rightarrow> bool" where
  "found_leaf s lb n \<longleftrightarrow> (let data = node_data (pblock_of_node n) s in
     header n = header_load data
     \<and> have_extent n = (entries_count (header n) \<noteq> 0)
     \<and> (have_extent n \<longrightarrow> extent n = leaf_list (header n) data ! position n
          \<and> search_pos (leaf_list (header n) data) (unat lb) (position n)))"

lemma find_leaf_found:
  assumes "find_leaf io lb md h held nodes s = (Inr p, s')"
    and "h = header_load (node_data (held_block held) s)"
  shows "path_depth p = length nodes \<and> found_leaf s lb (leaf_of p)
    \<and> pblock_of_node (leaf_of p) = held_block held \<and> header (leaf_of p) = h"
proof (cases "entries_count h = 0")
  case True
  with assms show ?thesis
    by (auto simp: find_leaf_def Let_def leaf_of_def found_leaf_def nth_append split: prod.splits)
next
  case False
  obtain e pos where b: "binsearch_extent (node_data (held_block held) s) h lb = (e, pos)"
    by (cases "binsearch_extent (node_data (held_block held) s) h lb")
  note r = binsearch_extent_pos [OF False b]
  have "search_pos (leaf_list h (node_data (held_block held) s)) (unat lb) pos"
    using r by (simp add: search_pos_def e_first_def word_le_nat_alt word_less_nat_alt)
  with assms b r False show ?thesis
    by (auto simp: find_leaf_def Let_def leaf_of_def found_leaf_def nth_append word_neq_0_conv
        split: if_splits)
qed

lemma indices_ok_child: "indices_ok fs xs \<Longrightarrow> x \<in> set xs \<Longrightarrow> index_get_pblock x \<noteq> 0"
  by (auto simp: indices_ok_def index_ok_def)

text \<open>A node a walk may stand on: the root or a node below it.\<close>

definition walk_ok :: "ext4_sb \<Rightarrow> (u64 \<Rightarrow> bytes) \<Rightarrow> nat \<Rightarrow> bytes \<Rightarrow> bool" where
  "walk_ok b B d data \<longleftrightarrow> unat (depth (header_load data)) = d
     \<and> validate_entries b data (header_load data) = EOK
     \<and> (0 < d \<longrightarrow> entries_count (header_load data) \<noteq> 0)
     \<and> (\<forall>d'. d = Suc d' \<longrightarrow> (\<forall>x \<in> set (index_list (header_load data) data).
          child_ok B x \<and> subtree_ok b B d' (B (index_get_pblock x))))"

lemma subtree_walk_ok: "subtree_ok b B d data \<Longrightarrow> walk_ok b B d data"
  by (cases d) (auto simp: walk_ok_def node_ok_def)

lemma tree_walk_ok: "tree_ok b s \<Longrightarrow> walk_ok b (bufs s) (root_depth s) (root s)"
  by (auto simp: walk_ok_def tree_ok_def root_ok_def root_depth_def unat_eq_zero unat_gt_0)

lemma walk_ok_child:
  assumes "walk_ok b B (Suc d) data" "x \<in> set (index_list (header_load data) data)"
  shows "subtree_ok b B d (B (index_get_pblock x))" "index_get_pblock x \<noteq> 0"
    and "extents_of B d (B (index_get_pblock x)) \<noteq> []
      \<and> first_block (hd (extents_of B d (B (index_get_pblock x)))) = ix_first_block x"
proof -
  from assms show s: "subtree_ok b B d (B (index_get_pblock x))" by (auto simp: walk_ok_def)
  from assms have "indices_ok (sb_blocks_cnt b) (index_list (header_load data) data)"
    by (auto simp: walk_ok_def validate_entries_iff split: if_splits)
  then show "index_get_pblock x \<noteq> 0" using assms(2) by (rule indices_ok_child)
  from assms have "child_ok B x" by (auto simp: walk_ok_def)
  with subtree_first [OF s] show "extents_of B d (B (index_get_pblock x)) \<noteq> []
      \<and> first_block (hd (extents_of B d (B (index_get_pblock x)))) = ix_first_block x"
    by (simp add: child_ok_def)
qed

text \<open>The walk ends at the leaf that decides the map at the logical block.\<close>

lemma find_descend_split:
  assumes "find_descend io lb md d (header_load data) held nodes s = (Inr p, s')"
    and "data = node_data (held_block held) s"
    and "walk_ok (sb io) (bufs s) d data" "sorted_extents (extents_of (bufs s) d data)"
  shows "path_depth p = length nodes + d \<and> found_leaf s lb (leaf_of p)
    \<and> (\<exists>pre post. lookup_split (extents_of (bufs s) d data) lb pre
         (leaf_list (header (leaf_of p)) (node_data (pblock_of_node (leaf_of p)) s)) post)"
  using assms
proof (induction d arbitrary: data held nodes s)
  case 0
  then have r: "path_depth p = length nodes \<and> found_leaf s lb (leaf_of p)
    \<and> pblock_of_node (leaf_of p) = held_block held \<and> header (leaf_of p) = header_load data"
    by (intro find_leaf_found) simp_all
  have "lookup_split (leaf_list (header_load data) data) lb [] (leaf_list (header_load data) data) []"
    by (simp add: lookup_split_def)
  with r "0.prems"(2) show ?case by auto
next
  case (Suc d)
  let ?xs = "index_list (header_load data) data"
  let ?f = "\<lambda>x. extents_of (bufs s) d (bufs s (index_get_pblock x))"
  from Suc.prems(1) show ?case
  proof (cases rule: find_descend_SucE)
    case (step pos x s1)
    note b = binsearch_idx_pos [OF step(1)]
    have pos: "pos < length ?xs" using b(1) Suc.prems(2) by simp
    have x: "x = ?xs ! pos" using pos step(3) Suc.prems(2) by simp
    have x_in: "x \<in> set ?xs" unfolding x by (rule nth_mem [OF pos])
    note ch = walk_ok_child [OF Suc.prems(3) x_in]
    have same: "bufs (release_held io held s1) = bufs s" "root (release_held io held s1) = root s"
      using step(5) by (simp_all add: same_tree_def)
    have nd: "node_data pb (release_held io held s1) = node_data pb s" for pb
      using same by (simp add: node_data_def)
    have srt: "sorted_extents (concat (map ?f ?xs))" using Suc.prems(4) by simp
    let ?s = "release_held io held s1"
    have fl: "found_leaf ?s lb n = found_leaf s lb n" for n by (simp add: found_leaf_def nd)
    have "path_depth p = length (nodes @ [mk_index_node (header_load data) x pos (held_block held)]) + d
        \<and> found_leaf ?s lb (leaf_of p)
        \<and> (\<exists>pre post. lookup_split (extents_of (bufs ?s) d (bufs s (index_get_pblock x))) lb pre
         (leaf_list (header (leaf_of p)) (node_data (pblock_of_node (leaf_of p)) ?s)) post)"
    proof (rule Suc.IH [OF step(9)])
      show "bufs s (index_get_pblock x) = node_data (held_block (Some (index_get_pblock x))) ?s"
        using ch(2) same(1) by (simp add: node_data_def)
      show "walk_ok (sb io) (bufs ?s) d (bufs s (index_get_pblock x))"
        unfolding same(1) by (rule subtree_walk_ok [OF ch(1)])
      show "sorted_extents (extents_of (bufs ?s) d (bufs s (index_get_pblock x)))"
        unfolding same(1) by (rule sorted_concat_part [OF srt x_in])
    qed
    then obtain pre post where IH: "path_depth p = length nodes + Suc d" "found_leaf s lb (leaf_of p)"
      "lookup_split (?f x) lb pre
         (leaf_list (header (leaf_of p)) (node_data (pblock_of_node (leaf_of p)) s)) post"
      unfolding fl nd same(1) by auto
    have "lookup_split (concat (map ?f ?xs)) lb (concat (map ?f (take pos ?xs)) @ pre)
        (leaf_list (header (leaf_of p)) (node_data (pblock_of_node (leaf_of p)) s))
        (post @ concat (map ?f (drop (Suc pos) ?xs)))"
    proof (rule lookup_split_index [where x = x])
      show "?xs = take pos ?xs @ x # drop (Suc pos) ?xs"
        using pos x id_take_nth_drop by blast
      show "?f y \<noteq> [] \<and> first_block (hd (?f y)) = ix_first_block y" if "y \<in> set ?xs" for y
        using that by (rule walk_ok_child(3) [OF Suc.prems(3)])
    qed (use IH(3) srt b step(3) pos Suc.prems(2) in simp_all)
    with IH(1,2) show ?thesis by auto
  qed simp
qed

lemma lookup_split_search_pos:
  assumes "lookup_split E lb pre L post" "search_pos L (unat lb) pos"
  shows "search_pos E (unat lb) (length pre + pos)" "E ! (length pre + pos) = L ! pos"
proof -
  have E: "E = pre @ L @ post" and post: "\<forall>e \<in> set post. lb < first_block e"
    and pre: "pre \<noteq> [] \<Longrightarrow> first_block (hd L) \<le> lb"
    using assms(1) by (auto simp: lookup_split_def)
  have pos: "pos < length L" using assms(2) by (simp add: search_pos_def)
  show nth: "E ! (length pre + pos) = L ! pos" using pos by (simp add: E nth_append)
  have "e_first (L ! pos) \<le> unat lb" if "0 < length pre + pos"
    using that assms(2) pre
    by (cases pos) (auto simp: search_pos_def e_first_def word_le_nat_alt hd_conv_nth)
  moreover have "unat lb < e_first (E ! (length pre + pos + 1))" if lt: "length pre + pos + 1 < length E"
  proof (cases "pos + 1 < length L")
    case True
    then have "E ! (length pre + pos + 1) = L ! (pos + 1)" by (simp add: E nth_append)
    with True assms(2) show ?thesis by (simp add: search_pos_def)
  next
    case False
    with pos have "pos + 1 = length L" by simp
    then have "E ! (length pre + pos + 1) = post ! 0" "0 < length post"
      using lt by (simp_all add: E nth_append)
    then have "E ! (length pre + pos + 1) \<in> set post" by simp
    with post show ?thesis by (auto simp: e_first_def word_less_nat_alt)
  qed
  ultimately show "search_pos E (unat lb) (length pre + pos)"
    using pos nth by (simp add: search_pos_def E)
qed

text \<open>
  What a successful lookup in a well-formed tree means, whatever the I/O services do:
  the path ends at the leaf level and its extent alone decides the map at \<open>lb\<close>.
\<close>

lemma find_extent_decides:
  assumes "tree_ok (sb io) s" "find_extent io lb s = (Inr p, s')"
  shows "path_depth p = root_depth s" "found_leaf s lb (leaf_of p)"
    and "have_extent (leaf_of p) \<Longrightarrow> extent (leaf_of p) \<in> set (tree_extents s)
      \<and> tree_map s (unat lb) = ext_map [extent (leaf_of p)] (unat lb)"
    and "\<not> have_extent (leaf_of p) \<Longrightarrow> tree_extents s = []"
proof -
  let ?L = "leaf_list (header (leaf_of p)) (node_data (pblock_of_node (leaf_of p)) s)"
  have srt: "sorted_extents (tree_extents s)" using assms(1) by (simp add: tree_ok_def extents_ok_def)
  have "find_descend io lb (root_depth s) (root_depth s) (header_load (root s)) None [] s = (Inr p, s')"
    using assms(2) by (auto simp: find_extent_def Let_def root_depth_def split: if_splits)
  then have *: "path_depth p = length ([] :: extent_path_node list) + root_depth s
      \<and> found_leaf s lb (leaf_of p)
      \<and> (\<exists>pre post. lookup_split (extents_of (bufs s) (root_depth s) (root s)) lb pre ?L post)"
    by (rule find_descend_split)
      (use srt tree_walk_ok [OF assms(1)] in \<open>simp_all add: node_data_def tree_extents_def\<close>)
  then show "path_depth p = root_depth s" and fl: "found_leaf s lb (leaf_of p)" by simp_all
  from * obtain pre post where sp: "lookup_split (tree_extents s) lb pre ?L post"
    by (auto simp: tree_extents_def)
  show "extent (leaf_of p) \<in> set (tree_extents s)
      \<and> tree_map s (unat lb) = ext_map [extent (leaf_of p)] (unat lb)" if "have_extent (leaf_of p)"
  proof -
    have s: "search_pos ?L (unat lb) (position (leaf_of p))"
      "extent (leaf_of p) = ?L ! position (leaf_of p)"
      using fl that unfolding found_leaf_def Let_def by blast+
    note r = lookup_split_search_pos [OF sp s(1)]
    have "length pre + position (leaf_of p) < length (tree_extents s)"
      using r(1) by (simp only: search_pos_def)
    then have "extent (leaf_of p) \<in> set (tree_extents s)"
      using nth_mem r(2) s(2) by metis
    then show ?thesis
      using search_pos_map [OF srt r(1)] r(2) s(2) by (simp only: tree_map_def)
  qed
  show "tree_extents s = []" if no: "\<not> have_extent (leaf_of p)"
    using fl no sp by (auto simp: found_leaf_def Let_def lookup_split_def)
qed

text \<open>With I/O that answers, the lookup in a well-formed tree succeeds.\<close>

lemma ext_call_EOK: "fst (f (env s)) = EOK \<Longrightarrow> fst (ext_call f s) = EOK"
  by (auto simp: ext_call_def split: prod.splits)

lemma reliable_block_get: "io_reliable io \<Longrightarrow> \<exists>s1. node_block_get io pb s = (EOK, s1)"
  unfolding node_block_get_def io_reliable_def by (metis ext_call_EOK prod.collapse)

lemma selected_ok:
  "validate_entries b data h = EOK \<Longrightarrow> pos < unat (entries_count h) \<Longrightarrow>
   validate_selected_entry b data h pos = EOK"
  using selected_all_iff [of h b data] by blast

lemma find_leaf_returns:
  assumes "h = header_load (node_data (held_block held) s)"
    and "validate_entries (sb io) (node_data (held_block held) s) h = EOK"
  shows "\<exists>p s'. find_leaf io lb md h held nodes s = (Inr p, s')"
proof (cases "entries_count h = 0")
  case True
  then show ?thesis by (auto simp: find_leaf_def Let_def split: prod.splits)
next
  case False
  obtain e pos where b: "binsearch_extent (node_data (held_block held) s) h lb = (e, pos)"
    by (cases "binsearch_extent (node_data (held_block held) s) h lb")
  with selected_ok [OF assms(2) binsearch_extent_pos(1) [OF False b]] False
  show ?thesis by (simp add: find_leaf_def Let_def)
qed

lemma find_descend_returns:
  assumes "io_reliable io" "data = node_data (held_block held) s"
    and "walk_ok (sb io) (bufs s) d data"
  shows "\<exists>p s'. find_descend io lb md d (header_load data) held nodes s = (Inr p, s')"
  using assms(2,3)
proof (induction d arbitrary: data held nodes s)
  case 0
  then show ?case using find_leaf_returns [of "header_load data" held s io] by (simp add: walk_ok_def)
next
  case (Suc d)
  let ?h = "header_load data"
  have "binsearch_idx data (held = None) ?h lb \<noteq> None"
    using Suc.prems(2) by (simp add: binsearch_idx_None walk_ok_def)
  then obtain pos where pos: "binsearch_idx data (held = None) ?h lb = Some pos" by auto
  note b = binsearch_idx_pos(1) [OF pos]
  let ?x = "index_load data (slot pos)"
  have x_in: "?x \<in> set (index_list ?h data)" using nth_mem [of pos "index_list ?h data"] b by simp
  note ch = walk_ok_child [OF Suc.prems(2) x_in]
  obtain s1 where g: "node_block_get io (index_get_pblock ?x) s = (EOK, s1)"
    using reliable_block_get [OF assms(1)] by blast
  then have same: "bufs s1 = bufs s" "root s1 = root s"
    using same_tree_block_get [OF g] by (simp_all add: same_tree_def)
  have sel: "validate_selected_entry (sb io) data ?h pos = EOK"
    using Suc.prems(2) b by (auto simp: walk_ok_def intro: selected_ok)
  note n = subtree_node_ok [OF ch(1), unfolded node_ok_def]
  have "\<exists>p s'. find_descend io lb md d (header_load (bufs s (index_get_pblock ?x)))
      (Some (index_get_pblock ?x)) (nodes @ [mk_index_node ?h ?x pos (held_block held)])
      (release_held io held s1) = (Inr p, s')"
    using ch(2) same subtree_walk_ok [OF ch(1)] by (intro Suc.IH) (simp_all add: node_data_def)
  moreover have "find_descend io lb md (Suc d) ?h held nodes s =
      find_descend io lb md d (header_load (bufs s (index_get_pblock ?x)))
      (Some (index_get_pblock ?x)) (nodes @ [mk_index_node ?h ?x pos (held_block held)])
      (release_held io held s1)"
    unfolding find_descend.simps Let_def Suc.prems(1) [symmetric] pos option.case sel g prod.case
    using n same by simp
  ultimately show ?case by simp
qed

lemma find_extent_returns:
  assumes "io_reliable io" "tree_ok (sb io) s"
  shows "\<exists>p s'. find_extent io lb s = (Inr p, s')"
  using find_descend_returns [OF assms(1) _ tree_walk_ok [OF assms(2)], of None lb "root_depth s" "[]"]
    assms(2)
  by (simp add: find_extent_def Let_def tree_ok_def root_ok_def node_data_def root_depth_def)

section \<open>ext4_extent_get_blocks as a lookup\<close>

lemma ext_map_member:
  "sorted_extents es \<Longrightarrow> e \<in> set es \<Longrightarrow> ext_covers e lb \<Longrightarrow>
   ext_map es lb = Some (e_phys e + (lb - e_first e), extent_is_unwritten e)"
  by (induction es) (auto simp: ext_covers_def)

lemma covers_unique:
  assumes "sorted_extents es" "a \<in> set es" "b \<in> set es" "ext_covers a lb" "ext_covers b lb"
  shows "a = b"
proof -
  obtain i j where ij: "i < length es" "a = es ! i" "j < length es" "b = es ! j"
    using assms(2,3) by (auto simp: in_set_conv_nth)
  have "\<not> i < j" "\<not> j < i"
    using sorted_extents_nth [OF assms(1), of i j] sorted_extents_nth [OF assms(1), of j i] ij assms(4,5)
    by (auto simp: ext_covers_def)
  with ij show ?thesis by simp
qed

lemma unat_ext_end: "e_end e < 2 ^ 32 \<Longrightarrow> unat (first_block e + ucast (extent_get_actual_len e)) = e_end e"
  by (simp add: unat_word_ariths e_end_def e_first_def e_len_def)

lemma covers_word:
  "e_end e < 2 ^ 32 \<Longrightarrow> first_block e \<le> lb \<and> lb < first_block e + ucast (extent_get_actual_len e)
     \<longleftrightarrow> ext_covers e (unat lb)"
  by (simp add: ext_covers_def word_le_nat_alt word_less_nat_alt unat_ext_end e_first_def)

lemma unat_phys_off:
  assumes "first_block e \<le> lb"
  shows "unat (extent_get_pblock e + ucast (lb - first_block e)) = e_phys e + (unat lb - e_first e)"
proof -
  have "unat (lb - first_block e) = unat lb - e_first e"
    using assms by (simp add: unat_sub word_le_nat_alt e_first_def)
  with pblock_less [of e] unat32_less [of lb] show ?thesis
    by (simp add: unat_word_ariths e_phys_def)
qed

lemma unat_avail:
  assumes "e_end e < 2 ^ 32" "ext_covers e (unat lb)"
  shows "unat (ucast (extent_get_actual_len e) - (lb - first_block e)) = e_end e - unat lb"
proof -
  have le: "first_block e \<le> lb"
    using assms(2) by (simp add: ext_covers_def word_le_nat_alt e_first_def)
  then have off: "unat (lb - first_block e) = unat lb - e_first e"
    by (simp add: unat_sub word_le_nat_alt e_first_def)
  with assms(2) have "lb - first_block e \<le> ucast (extent_get_actual_len e)"
    by (simp add: word_le_nat_alt e_len_def [symmetric] e_end_def ext_covers_def le_diff_conv)
  with off assms(2) show ?thesis
    by (simp add: unat_sub word_le_nat_alt e_len_def [symmetric] e_end_def ext_covers_def)
qed

text \<open>The answer the specification gives for a lookup of up to \<open>mx\<close> blocks at \<open>ib\<close>.\<close>

definition lookup_answer :: "ext4_extent list \<Rightarrow> u32 \<Rightarrow> u32 \<Rightarrow> u64 \<Rightarrow> u32 \<Rightarrow> bool" where
  "lookup_answer es ib mx pb n \<longleftrightarrow>
     (case ext_map es (unat ib) of
        Some (phys, False) \<Rightarrow> unat pb = phys
          \<and> (\<forall>i < unat n. ext_map es (unat ib + i) = Some (phys + i, False))
          \<and> (\<exists>e \<in> set es. ext_covers e (unat ib) \<and> unat n = min (unat mx) (e_end e - unat ib))
      | _ \<Rightarrow> pb = 0 \<and> n = 0)"

lemma unat_min: "unat (min a b :: 'a::len word) = min (unat a) (unat b)"
  by (simp add: min_def word_le_nat_alt)

lemma lookup_answer_covered:
  assumes "sorted_extents es" "e \<in> set es" "e_end e < 2 ^ 32" "ext_covers e (unat ib)"
    and "\<not> extent_is_unwritten e"
  shows "lookup_answer es ib mx (extent_get_pblock e + ucast (ib - first_block e))
    (min mx (ucast (extent_get_actual_len e) - (ib - first_block e)))"
proof -
  let ?n = "min mx (ucast (extent_get_actual_len e) - (ib - first_block e))"
  have n: "unat ?n = min (unat mx) (e_end e - unat ib)"
    unfolding unat_min unat_avail [OF assms(3,4)] ..
  have run: "ext_map es (unat ib + i) = Some (e_phys e + (unat ib - e_first e) + i, False)"
    if "i < e_end e - unat ib" for i
    using that assms ext_map_member [OF assms(1,2), of "unat ib + i"] by (simp add: ext_covers_def)
  have "first_block e \<le> ib" using assms(4) by (simp add: ext_covers_def word_le_nat_alt e_first_def)
  note off = unat_phys_off [OF this]
  have "ext_map es (unat ib) = Some (e_phys e + (unat ib - e_first e), False)"
    using run [of 0] assms(4) by (simp add: ext_covers_def)
  then show ?thesis
    unfolding lookup_answer_def using n run off assms(2,4) by auto
qed

lemma lookup_answer_hole:
  "(\<And>phys. ext_map es (unat ib) \<noteq> Some (phys, False)) \<Longrightarrow> lookup_answer es ib mx 0 0"
  by (auto simp: lookup_answer_def split: option.splits bool.splits)

text \<open>An end at 2^32 wraps to 0, so the test of the code fails for every block of such an extent.\<close>

lemma covers_code:
  assumes "e_end e \<le> 2 ^ 32"
  shows "first_block e \<le> lb \<and> lb < first_block e + ucast (extent_get_actual_len e)
    \<longleftrightarrow> ext_covers e (unat lb) \<and> e_end e < 2 ^ 32"
proof (cases "e_end e < 2 ^ 32")
  case False
  with assms have "unat (first_block e + ucast (extent_get_actual_len e)) = 0"
    by (simp add: unat_word_ariths e_end_def e_first_def e_len_def)
  with False show ?thesis by (simp add: word_less_nat_alt)
qed (simp add: covers_word)

text \<open>The answer of every lookup that succeeds, on every well-formed tree.\<close>

lemma get_blocks_answer_any:
  assumes "tree_ok (sb io) s" "ext4_extent_get_blocks io ib mx False s = (Inr (pb, n), s')"
  shows "if \<exists>e \<in> set (tree_extents s). ext_covers e (unat ib) \<and> e_end e = 2 ^ 32
    then pb = 0 \<and> n = 0 else lookup_answer (tree_extents s) ib mx pb n"
proof -
  obtain p where f: "find_extent io ib s = (Inr p, s')"
    using assms(2) by (auto simp: ext4_extent_get_blocks_def Let_def split: prod.splits sum.splits if_splits)
  let ?leaf = "leaf_of p" and ?E = "tree_extents s"
  let ?x = "extent ?leaf"
  note d = find_extent_decides [OF assms(1) f]
  have srt: "sorted_extents ?E" and ends: "\<And>e. e \<in> set ?E \<Longrightarrow> e_end e \<le> 2 ^ 32"
    using assms(1) by (auto simp: tree_ok_def extents_ok_def extent_ok_def)
  have have_n: "have_extent ?leaf = (0 < entries_count (header ?leaf))"
    using d(2) by (simp add: found_leaf_def Let_def word_neq_0_conv)
  show ?thesis
  proof (cases "have_extent ?leaf \<and> ext_covers ?x (unat ib) \<and> e_end ?x < 2 ^ 32")
    case True
    then have h: "have_extent ?leaf" "ext_covers ?x (unat ib)" "e_end ?x < 2 ^ 32" by simp_all
    have e: "?x \<in> set ?E" using d(3) [OF h(1)] by simp
    have "?x = e" if "e \<in> set ?E" "ext_covers e (unat ib)" for e
      using covers_unique [OF srt e that(1) h(2) that(2)] .
    with h(3) have no: "\<not> (\<exists>e \<in> set ?E. ext_covers e (unat ib) \<and> e_end e = 2 ^ 32)" by force
    have hit: "have_extent ?leaf \<and> 0 < entries_count (header ?leaf) \<and> first_block ?x \<le> ib
        \<and> ib < first_block ?x + ucast (extent_get_actual_len ?x)"
      using h have_n covers_word [OF h(3), of ib] by simp
    show ?thesis
    proof (cases "extent_is_unwritten ?x")
      case True
      with assms(2) f hit have "pb = 0" "n = 0" by (simp_all add: ext4_extent_get_blocks_def Let_def)
      with True ext_map_member [OF srt e h(2)] show ?thesis
        unfolding if_not_P [OF no] by (auto intro: lookup_answer_hole)
    next
      case False
      with assms(2) f hit have "pb = extent_get_pblock ?x + ucast (ib - first_block ?x)"
        "n = min mx (ucast (extent_get_actual_len ?x) - (ib - first_block ?x))"
        by (simp_all add: ext4_extent_get_blocks_def Let_def)
      with lookup_answer_covered [OF srt e h(3,2) False] show ?thesis unfolding if_not_P [OF no] by simp
    qed
  next
    case False
    have "pb = 0 \<and> n = 0"
      using assms(2) f False d(3) ends covers_code [of ?x ib]
      by (auto simp: ext4_extent_get_blocks_def Let_def split: if_splits)
    moreover have "ext_map ?E (unat ib) = None"
      if no: "\<not> (\<exists>e \<in> set ?E. ext_covers e (unat ib) \<and> e_end e = 2 ^ 32)"
    proof (cases "have_extent ?leaf")
      case True
      have x: "?x \<in> set ?E" "tree_map s (unat ib) = ext_map [?x] (unat ib)" using d(3) [OF True] by simp_all
      with False True no ends [OF x(1)] have "\<not> ext_covers ?x (unat ib)" by force
      with x(2) show ?thesis by (simp add: tree_map_def ext_covers_def)
    qed (use d(4) in simp)
    ultimately show ?thesis by (auto intro: lookup_answer_hole)
  qed
qed

lemma get_blocks_answer:
  assumes "tree_ok (sb io) s" "\<forall>e \<in> set (tree_extents s). e_end e < 2 ^ 32"
    and "ext4_extent_get_blocks io ib mx False s = (Inr (pb, n), s')"
  shows "lookup_answer (tree_extents s) ib mx pb n"
  using get_blocks_answer_any [OF assms(1,3)] assms(2) by (auto split: if_splits)

lemma get_blocks_returns:
  assumes "io_reliable io" "tree_ok (sb io) s"
  shows "\<exists>pb n s'. ext4_extent_get_blocks io ib mx False s = (Inr (pb, n), s')"
proof -
  obtain p s' where "find_extent io ib s = (Inr p, s')"
    using find_extent_returns [OF assms] by blast
  then show ?thesis by (auto simp: ext4_extent_get_blocks_def Let_def)
qed

lemma same_tree_get_blocks:
  "ext4_extent_get_blocks io ib mx False s = (r, s') \<Longrightarrow> same_tree s s'"
  by (auto simp: ext4_extent_get_blocks_def Let_def split: prod.splits sum.splits if_splits
      intro: same_tree_find_extent)

end
