(* ===== verification/Extent_Update.thy ===== *)
theory Extent_Update
  imports Extent_Tree
begin

text \<open>
  What the byte rewrites of insertion, splitting and growing do to the entry list of a
  node, and insertion into a tree whose root is its only leaf as an update of the map.
\<close>

section \<open>Header checks as arithmetic\<close>

lemma validate_header_root_iff:
  "validate_header True bs h = EOK \<longleftrightarrow> magic h = EXT4_EXTENT_MAGIC \<and> unat (depth h) \<le> 5
     \<and> 0 < unat (max_entries_count h) \<and> unat (entries_count h) \<le> unat (max_entries_count h)
     \<and> unat (max_entries_count h) \<le> 4"
  by (auto simp: validate_header_def Let_def word_less_nat_alt word_le_nat_alt unat_gt_0)

lemma validate_header_block_iff:
  "validate_header False bs h = EOK \<longleftrightarrow> magic h = EXT4_EXTENT_MAGIC \<and> unat (depth h) \<le> 5
     \<and> 0 < unat (max_entries_count h) \<and> unat (entries_count h) \<le> unat (max_entries_count h)
     \<and> unat (max_entries_count h) \<le> unat ((bs - 12) div 12)"
  by (auto simp: validate_header_def Let_def word_less_nat_alt word_le_nat_alt unat_gt_0)

lemma leaf_root_tree_ok:
  "root_depth s = 0 \<Longrightarrow> tree_ok b s \<longleftrightarrow> length (root s) = 60
     \<and> validate_header True (sb_block_size b) (header_load (root s)) = EOK
     \<and> extents_ok (sb_blocks_cnt b) (leaf_list (header_load (root s)) (root s))"
  by (auto simp: tree_ok_def root_ok_def root_depth_def tree_extents_def validate_entries_iff
      unat_eq_zero)

section \<open>Rewrites of one node\<close>

lemma mem_move_0 [simp]: "mem_move dst src 0 d = d"
  by (simp add: mem_move_def mem_read_def mem_write_def)

lemma length_header_store [mem_simps]: "12 \<le> length d \<Longrightarrow> length (header_store h d) = length d"
  by (simp add: header_store_bytes mem_simps)

lemma insert_extent_bytes_effect:
  assumes "pos \<le> unat (entries_count h)" "slot (Suc (unat (entries_count h))) \<le> length data"
  shows "header_load (insert_extent_bytes h pos x data) = h\<lparr>entries_count := entries_count h + 1\<rparr>"
    and "length (insert_extent_bytes h pos x data) = length data"
    and "slots extent_load (Suc (unat (entries_count h))) (insert_extent_bytes h pos x data)
      = take pos (leaf_list h data) @ x # drop pos (leaf_list h data)"
proof -
  let ?n = "unat (entries_count h)"
  let ?m = "mem_move (slot (pos + 1)) (slot pos) ((?n - pos) * 12) data"
  have eq: "insert_extent_bytes h pos x data
      = header_store (h\<lparr>entries_count := entries_count h + 1\<rparr>) (extent_store (slot pos) x ?m)"
    using assms(1) by (cases "pos = ?n") (simp_all add: insert_extent_bytes_def Let_def)
  have lm: "length ?m = length data"
    using assms by (intro ext.length_slot_move) (auto simp: slot_def)
  have sp: "slot pos + 12 \<le> length data" using assms by (simp add: slot_def)
  have ls: "length (extent_store (slot pos) x ?m) = length data"
    using sp lm by (simp only: ext.length_store)
  have l12: "12 \<le> length data" using assms(2) by (simp add: slot_def)
  show "header_load (insert_extent_bytes h pos x data) = h\<lparr>entries_count := entries_count h + 1\<rparr>"
    unfolding eq using l12 ls by (simp add: codec_simps)
  show "length (insert_extent_bytes h pos x data) = length data"
    unfolding eq using l12 ls by (simp add: mem_simps)
  show "slots extent_load (Suc ?n) (insert_extent_bytes h pos x data)
      = take pos (leaf_list h data) @ x # drop pos (leaf_list h data)"
    unfolding eq using assms ls by (simp only: ext.slots_header_store ext.slots_insert)
qed

section \<open>Inserting an extent into a sorted list\<close>

definition map_insert :: "ext4_extent \<Rightarrow> (nat \<Rightarrow> (nat \<times> bool) option) \<Rightarrow> nat \<Rightarrow> (nat \<times> bool) option" where
  "map_insert x m lb = (if ext_covers x lb then Some (e_phys x + (lb - e_first x), extent_is_unwritten x)
                        else m lb)"

definition apart :: "ext4_extent \<Rightarrow> ext4_extent \<Rightarrow> bool" where
  "apart a b \<longleftrightarrow> e_end a \<le> e_first b \<or> e_end b \<le> e_first a"

text \<open>An extent that may be inserted: valid, not ending at the last block, hitting nothing.\<close>

definition insertable :: "u64 \<Rightarrow> ext4_extent list \<Rightarrow> ext4_extent \<Rightarrow> bool" where
  "insertable fs es x \<longleftrightarrow> extent_ok fs x \<and> e_end x < 2 ^ 32 \<and> (\<forall>e \<in> set es. e_end e < 2 ^ 32 \<and> apart e x)"

lemma ext_map_insert:
  assumes "\<forall>e \<in> set (xs @ ys). apart e x"
  shows "ext_map (xs @ x # ys) = map_insert x (ext_map (xs @ ys))"
proof
  fix lb
  have "ext_map xs lb = None" if "ext_covers x lb"
    unfolding ext_map_None
  proof
    fix e assume "e \<in> set xs"
    with assms have "apart e x" by simp
    with that show "\<not> ext_covers e lb" by (auto simp: ext_covers_def apart_def)
  qed
  then show "ext_map (xs @ x # ys) lb = map_insert x (ext_map (xs @ ys)) lb"
    by (auto simp: map_insert_def ext_map_append ext_covers_def split: option.splits)
qed

lemma extents_ok_insert:
  assumes "extents_ok fs (xs @ ys)" "insertable fs (xs @ ys) x"
    and "\<And>e. e \<in> set xs \<Longrightarrow> e_first e \<le> e_first x" "\<And>e. e \<in> set ys \<Longrightarrow> e_first x \<le> e_first e"
  shows "extents_ok fs (xs @ x # ys)"
proof -
  have len: "0 < e_len e" if "e \<in> set (xs @ ys)" for e
    using assms(1) that by (auto simp: extents_ok_def extent_ok_def)
  have x: "extent_ok fs x" "0 < e_len x" using assms(2) by (simp_all add: insertable_def extent_ok_def)
  have ap: "apart e x" if "e \<in> set (xs @ ys)" for e
    using assms(2) that by (auto simp: insertable_def)
  have "e_end e \<le> e_first x" if "e \<in> set xs" for e
    using that assms(3) [of e] ap [of e] x by (auto simp: apart_def e_end_def)
  moreover have "e_end x \<le> e_first e" if "e \<in> set ys" for e
    using that assms(4) [of e] ap [of e] len [of e] x by (auto simp: apart_def e_end_def)
  ultimately show ?thesis
    using assms(1) x by (auto simp: extents_ok_append extents_ok_Cons)
qed

text \<open>Merging two neighbours keeps the list well formed.\<close>

lemma extents_ok_merge:
  assumes "extents_ok fs (xs @ a # b # ys)" "can_merge a b" "e_end a < 2 ^ 32"
  shows "extents_ok fs (xs @ merged_extent a b # ys)"
proof -
  have a: "0 < e_len a" and ok: "extent_ok fs a" "extent_ok fs b"
    using assms(1) by (auto simp: extents_ok_append extents_ok_Cons extent_ok_def)
  note m = merged_extent_fields [OF assms(2) a]
  have "e_end a = e_first b" "e_phys a + e_len a = e_phys b"
    using assms(2,3) by (simp_all add: can_merge_iff e_end_def)
  then have e: "e_end (merged_extent a b) = e_end b" "extent_ok fs (merged_extent a b)"
    using m ok by (auto simp: e_end_def extent_ok_def)
  then show ?thesis
    using assms(1) m(1) by (auto simp: extents_ok_append extents_ok_Cons)
qed

lemma ext_map_merge:
  assumes "can_merge a b" "0 < e_len a" "e_end a < 2 ^ 32"
  shows "ext_map (xs @ merged_extent a b # ys) = ext_map (xs @ a # b # ys)"
  using merged_extent_map [OF assms, of ys] by (intro ext) (simp only: ext_map_append)

text \<open>
  Where insert_extent puts a new extent, given the position a search for its first block
  returned: before the first entry, or behind the entry found.
\<close>

definition gap_pos :: "ext4_extent list \<Rightarrow> ext4_extent \<Rightarrow> nat \<Rightarrow> nat" where
  "gap_pos es x pos = (if pos = 0 \<and> e_first x < e_first (es ! 0) then 0 else pos + 1)"

lemma gap_pos_le: "search_pos es lb pos \<Longrightarrow> gap_pos es x pos \<le> length es"
  by (auto simp: gap_pos_def search_pos_def)

lemma sorted_first_le:
  assumes "sorted_extents es" "i \<le> j" "j < length es"
  shows "e_first (es ! i) \<le> e_first (es ! j)"
  using assms sorted_extents_nth [of es i j] e_first_le_end [of "es ! i"]
  by (cases "i = j") auto

lemma gap_pos_split:
  assumes "sorted_extents es" "search_pos es (e_first x) pos"
  shows "e \<in> set (take (gap_pos es x pos) es) \<Longrightarrow> e_first e \<le> e_first x"
    and "e \<in> set (drop (gap_pos es x pos) es) \<Longrightarrow> e_first x \<le> e_first e"
proof -
  have pos: "pos < length es" using assms(2) by (simp add: search_pos_def)
  have low: "e_first (es ! i) \<le> e_first x" if "i < gap_pos es x pos" for i
  proof -
    from that have "i \<le> pos" "e_first (es ! pos) \<le> e_first x"
      using assms(2) by (auto simp: gap_pos_def search_pos_def split: if_splits)
    with sorted_first_le [OF assms(1) _ pos, of i] show ?thesis by simp
  qed
  have high: "e_first x \<le> e_first (es ! i)" if "gap_pos es x pos \<le> i" "i < length es" for i
  proof -
    have "e_first x \<le> e_first (es ! gap_pos es x pos)"
      using assms(2) that by (auto simp: gap_pos_def search_pos_def split: if_splits)
    with sorted_first_le [OF assms(1) that] show ?thesis by simp
  qed
  show "e \<in> set (take (gap_pos es x pos) es) \<Longrightarrow> e_first e \<le> e_first x"
    using low by (auto simp: in_set_conv_nth)
  show "e \<in> set (drop (gap_pos es x pos) es) \<Longrightarrow> e_first x \<le> e_first e"
    using high by (auto simp: in_set_conv_nth)
qed

lemma gap_insert:
  assumes "extents_ok fs es" "insertable fs es x" "search_pos es (e_first x) pos"
  shows "extents_ok fs (take (gap_pos es x pos) es @ x # drop (gap_pos es x pos) es)"
    and "ext_map (take (gap_pos es x pos) es @ x # drop (gap_pos es x pos) es)
      = map_insert x (ext_map es)"
proof -
  have srt: "sorted_extents es" using assms(1) by (simp add: extents_ok_def)
  show "extents_ok fs (take (gap_pos es x pos) es @ x # drop (gap_pos es x pos) es)"
    using assms by (intro extents_ok_insert gap_pos_split [OF srt assms(3)]) simp_all
  show "ext_map (take (gap_pos es x pos) es @ x # drop (gap_pos es x pos) es)
      = map_insert x (ext_map es)"
    using assms(2) by (subst ext_map_insert) (auto simp: insertable_def simp flip: set_append)
qed

text \<open>Merging the new extent with the entry before it.\<close>

lemma merge_left:
  assumes "extents_ok fs es" "insertable fs es x" "search_pos es (e_first x) pos"
    and "can_merge (es ! pos) x"
  shows "extents_ok fs (es[pos := merged_extent (es ! pos) x])"
    and "ext_map (es[pos := merged_extent (es ! pos) x]) = map_insert x (ext_map es)"
proof -
  let ?a = "es ! pos"
  have pos: "pos < length es" using assms(3) by (simp add: search_pos_def)
  then have a: "?a \<in> set es" by simp
  have len: "0 < e_len ?a" using assms(1) a by (auto simp: extents_ok_def extent_ok_def)
  have small: "e_end ?a < 2 ^ 32" using assms(2) a by (auto simp: insertable_def)
  with assms(4) have "e_end ?a = e_first x" by (simp add: can_merge_iff e_end_def)
  with len pos have gap: "gap_pos es x pos = pos + 1"
    by (auto simp: gap_pos_def e_end_def)
  have split: "take (pos + 1) es @ x # drop (pos + 1) es = take pos es @ ?a # x # drop (pos + 1) es"
    using pos by (simp add: take_Suc_conv_app_nth)
  have up: "es[pos := merged_extent ?a x] = take pos es @ merged_extent ?a x # drop (pos + 1) es"
    using pos by (simp add: upd_conv_take_nth_drop)
  note g = gap_insert [OF assms(1-3), unfolded gap split]
  show "extents_ok fs (es[pos := merged_extent ?a x])"
    unfolding up by (rule extents_ok_merge [OF g(1) assms(4) small])
  show "ext_map (es[pos := merged_extent ?a x]) = map_insert x (ext_map es)"
    unfolding up ext_map_merge [OF assms(4) len small] by (rule g(2))
qed

text \<open>Merging it with the entry behind it.\<close>

lemma merge_right:
  assumes "extents_ok fs es" "insertable fs es x" "search_pos es (e_first x) pos"
    and "can_merge x (es ! (pos + 1))" "pos + 1 < length es" "e_first (es ! pos) \<le> e_first x"
  shows "extents_ok fs (es[pos + 1 := merged_extent x (es ! (pos + 1))])"
    and "ext_map (es[pos + 1 := merged_extent x (es ! (pos + 1))]) = map_insert x (ext_map es)"
proof -
  let ?b = "es ! (pos + 1)"
  have len: "0 < e_len x" and small: "e_end x < 2 ^ 32"
    using assms(2) by (simp_all add: insertable_def extent_ok_def)
  have gap: "gap_pos es x pos = pos + 1" using assms(6) by (auto simp: gap_pos_def)
  have split: "take (pos + 1) es @ x # drop (pos + 1) es
      = take (pos + 1) es @ x # ?b # drop (pos + 2) es"
    using assms(5) by (simp add: Cons_nth_drop_Suc)
  have up: "es[pos + 1 := merged_extent x ?b] = take (pos + 1) es @ merged_extent x ?b # drop (pos + 2) es"
    using assms(5) by (simp add: upd_conv_take_nth_drop)
  note g = gap_insert [OF assms(1-3), unfolded gap split]
  show "extents_ok fs (es[pos + 1 := merged_extent x ?b])"
    unfolding up by (rule extents_ok_merge [OF g(1) assms(4) small])
  show "ext_map (es[pos + 1 := merged_extent x ?b]) = map_insert x (ext_map es)"
    unfolding up ext_map_merge [OF assms(4) len small] by (rule g(2))
qed

section \<open>Insertion when the root is the only leaf\<close>

lemma header_load_extent_store:
  "slot i + 12 \<le> length d \<Longrightarrow> header_load (extent_store (slot i) x d) = header_load d"
  using slot_ge_header [of i]
  by (intro header_load_cong) (simp_all add: ext.read_store_other ext.length_store)

lemma find_extent_root_leaf:
  assumes "tree_ok (sb io) s" "root_depth s = 0"
  shows "\<exists>p. find_extent io lb s = (Inr p, s) \<and> path_depth p = 0 \<and> found_leaf s lb (leaf_of p)
    \<and> pblock_of_node (leaf_of p) = 0 \<and> header (leaf_of p) = header_load (root s)"
proof -
  let ?h = "header_load (root s)"
  have f: "find_extent io lb s = find_leaf io lb 0 ?h None [] s"
    using assms by (simp add: find_extent_def Let_def tree_ok_def root_ok_def root_depth_def)
  obtain p s' where r: "find_leaf io lb 0 ?h None [] s = (Inr p, s')"
    using find_leaf_returns [of ?h None s io lb 0 "[]"] assms
    by (auto simp: tree_ok_def root_ok_def node_data_def)
  have "s' = s" using r by (auto simp: find_leaf_def Let_def release_held_def split: prod.splits if_splits)
  with f r find_leaf_found [OF r] show ?thesis by (auto simp: node_data_def)
qed

text \<open>The root after a change: it stays the only leaf and holds the list \<open>es\<close>.\<close>

definition root_leaf :: "ext4_sb \<Rightarrow> ext4_extent list \<Rightarrow> 'e istate \<Rightarrow> bool" where
  "root_leaf b es s \<longleftrightarrow> tree_ok b s \<and> root_depth s = 0 \<and> tree_extents s = es"

lemma root_leaf_iff:
  "root_leaf b es s \<longleftrightarrow> length (root s) = 60 \<and> depth (header_load (root s)) = 0
     \<and> validate_header True (sb_block_size b) (header_load (root s)) = EOK
     \<and> es = leaf_list (header_load (root s)) (root s) \<and> extents_ok (sb_blocks_cnt b) es"
  using leaf_root_tree_ok [of s b]
  by (auto simp: root_leaf_def root_depth_def tree_extents_def unat_eq_zero)

lemma root_leaf_mark_dirty [simp]: "root_leaf b es (mark_dirty s) = root_leaf b es s"
  by (simp add: root_leaf_iff mark_dirty_def)

lemma root_leaf_update:
  assumes "root_leaf b es s" "i < length es" "extents_ok (sb_blocks_cnt b) (es[i := x])"
  shows "root_leaf b (es[i := x]) (s\<lparr>root := extent_store (slot i) x (root s)\<rparr>)"
proof -
  let ?h = "header_load (root s)"
  have h: "unat (entries_count ?h) \<le> 4" "i < unat (entries_count ?h)" "length (root s) = 60"
    using assms by (auto simp: root_leaf_iff validate_header_root_iff)
  then have "slot i + 12 \<le> length (root s)" "slot (unat (entries_count ?h)) \<le> length (root s)"
    by (simp_all add: slot_def)
  then show ?thesis
    using assms h by (simp add: root_leaf_iff header_load_extent_store ext.length_store ext.slots_store)
qed

lemma not_h_full: "\<not> h_full h \<longleftrightarrow> unat (entries_count h) < unat (max_entries_count h)"
  by (auto simp: h_full_def word_le_nat_alt)

lemma root_leaf_length: "root_leaf b es s \<Longrightarrow> length es = unat (entries_count (header_load (root s)))"
  by (simp add: root_leaf_iff)

lemma unat_Suc16: "unat n < 65535 \<Longrightarrow> unat (n + 1 :: u16) = Suc (unat n)"
  by (simp add: unat_word_ariths)

lemma root_leaf_insert:
  assumes "root_leaf b es s" "i \<le> length es" "\<not> h_full (header_load (root s))"
    and "extents_ok (sb_blocks_cnt b) (take i es @ x # drop i es)"
  shows "root_leaf b (take i es @ x # drop i es)
    (s\<lparr>root := insert_extent_bytes (header_load (root s)) i x (root s)\<rparr>)"
proof -
  let ?h = "header_load (root s)"
  have h: "unat (entries_count ?h) < unat (max_entries_count ?h)" "unat (max_entries_count ?h) \<le> 4"
    "length (root s) = 60" "i \<le> unat (entries_count ?h)" "es = leaf_list ?h (root s)"
    using assms by (auto simp: root_leaf_iff validate_header_root_iff not_h_full)
  then have "slot (Suc (unat (entries_count ?h))) \<le> length (root s)" by (simp add: slot_def)
  note e = insert_extent_bytes_effect [OF h(4) this, of x]
  show ?thesis
    using assms h e by (simp add: root_leaf_iff validate_header_root_iff unat_Suc16)
qed

text \<open>The map after an insertion, whichever way the leaf changed.\<close>

definition inserted :: "ext4_sb \<Rightarrow> 'e istate \<Rightarrow> ext4_extent \<Rightarrow> 'e istate \<Rightarrow> bool" where
  "inserted b s x s' \<longleftrightarrow> tree_ok b s' \<and> root_depth s' = root_depth s
     \<and> tree_map s' = map_insert x (tree_map s)"

lemma root_leaf_inserted:
  "root_leaf b es s \<Longrightarrow> root_leaf b es' s' \<Longrightarrow> ext_map es' = map_insert x (ext_map es) \<Longrightarrow> inserted b s x s'"
  by (simp add: inserted_def root_leaf_def tree_map_def)

lemma store_merged_root:
  assumes "root_leaf b es s" "pblock_of_node (leaf_of p) = 0"
    and "header (leaf_of p) = header_load (root s)"
  shows "store_merged io p l r i s
    = (EOK, mark_dirty (s\<lparr>root := extent_store (slot i) (merged_extent l r) (root s)\<rparr>))"
  using assms
  by (auto simp: store_merged_def merge_extent_def Let_def root_leaf_iff validate_header_root_iff)

lemma insert_new_extent_root:
  assumes "root_leaf b es s" "insertable (sb_blocks_cnt b) es x" "es \<noteq> [] \<Longrightarrow> search_pos es (e_first x) pos"
    and "path_depth p = 0" "header (leaf_of p) = header_load (root s)"
    and "have_extent (leaf_of p) = (es \<noteq> [])" "es \<noteq> [] \<Longrightarrow> extent (leaf_of p) = es ! pos"
    and "position (leaf_of p) = pos" "\<not> h_full (header_load (root s))"
  shows "\<exists>s'. insert_new_extent retry io p x s = (EOK, s') \<and> bufs s' = bufs s \<and> inserted b s x s'"
proof (cases "es = []")
  case True
  let ?h = "header_load (root s)"
  have h: "entries_count ?h = 0" "length (root s) = 60"
    using assms(1) True root_leaf_length [OF assms(1)] by (auto simp: root_leaf_iff unat_eq_zero)
  then have eq: "header_store (?h\<lparr>entries_count := 1\<rparr>) (extent_store (slot 0) x (root s))
      = insert_extent_bytes ?h 0 x (root s)"
    by (simp add: insert_extent_bytes_def)
  have "extents_ok (sb_blocks_cnt b) [x]"
    using assms(2) by (simp add: insertable_def extents_ok_Cons)
  then have "root_leaf b [x] (s\<lparr>root := insert_extent_bytes ?h 0 x (root s)\<rparr>)"
    using root_leaf_insert [OF assms(1) _ assms(9), of 0 x] True by simp
  with True assms(1) have "inserted b s x (mark_dirty (s\<lparr>root := insert_extent_bytes ?h 0 x (root s)\<rparr>))"
    by (intro root_leaf_inserted) (auto simp: map_insert_def ext_covers_def)
  with h(1) assms(4,5) eq show ?thesis by (simp add: insert_new_extent_def Let_def mark_dirty_def)
next
  case False
  let ?h = "header_load (root s)"
  have h: "entries_count ?h \<noteq> 0"
    using False root_leaf_length [OF assms(1)] by auto
  have ok: "extents_ok (sb_blocks_cnt b) es" using assms(1) unfolding root_leaf_iff by blast
  have np: "new_extent_pos (leaf_of p) x = gap_pos es x pos"
    using assms(6-8) False
    by (auto simp: new_extent_pos_def gap_pos_def e_first_def word_less_nat_alt)
  note sp = assms(3) [OF False]
  note g = gap_insert [OF ok assms(2) sp]
  have "root_leaf b (take (gap_pos es x pos) es @ x # drop (gap_pos es x pos) es)
      (s\<lparr>root := insert_extent_bytes ?h (gap_pos es x pos) x (root s)\<rparr>)"
    by (rule root_leaf_insert [OF assms(1) gap_pos_le [OF sp] assms(9) g(1)])
  then have "inserted b s x (mark_dirty (s\<lparr>root := insert_extent_bytes ?h (gap_pos es x pos) x (root s)\<rparr>))"
    using g(2) assms(1) by (intro root_leaf_inserted) simp_all
  with h np assms(4,5,9) show ?thesis
    by (auto simp: insert_new_extent_def Let_def mark_dirty_def h_full_def)
qed

text \<open>
  What insert_extent decides from the leaf it found: no collision, and no merge with the
  entry before the found one, which lies behind the new extent.
\<close>

lemma no_collision:
  assumes "insertable fs es x" "e \<in> set es"
  shows "\<not> (first_block e \<le> first_block x \<and> first_block x < first_block e + ucast (extent_get_actual_len e))"
proof -
  have "e_end e < 2 ^ 32" "apart e x" "0 < e_len x"
    using assms by (auto simp: insertable_def extent_ok_def)
  then show ?thesis
    unfolding covers_word [OF \<open>e_end e < 2 ^ 32\<close>]
    by (auto simp: apart_def ext_covers_def e_end_def simp flip: e_first_def)
qed

lemma no_prev_merge:
  assumes "insertable fs es x" "search_pos es (e_first x) pos" "0 < pos"
  shows "\<not> first_block x + ucast (extent_get_actual_len x) < first_block (es ! pos)"
proof -
  have "unat (first_block x + ucast (extent_get_actual_len x)) = e_end x"
    using assms(1) by (intro unat_ext_end) (simp add: insertable_def)
  then show ?thesis
    using assms(2,3) by (auto simp: word_less_nat_alt search_pos_def e_end_def simp flip: e_first_def)
qed

lemma insert_extent_decision:
  fixes p :: extent_search_path and x :: ext4_extent
  defines "ex \<equiv> extent (leaf_of p)" and "pos \<equiv> position (leaf_of p)"
  assumes f: "find_extent io lb s = (Inr p, s1)"
    and n: "have_extent (leaf_of p)" "entries_count (header (leaf_of p)) \<noteq> 0"
    and nc: "\<not> (first_block ex \<le> lb \<and> lb < first_block ex + ucast (extent_get_actual_len ex))"
    and np: "\<not> (0 < pos \<and> first_block x + ucast (extent_get_actual_len x) < first_block ex)"
  shows "insert_extent io lb x s =
    (if can_merge ex x then store_merged io p ex x pos s1
     else if pos < unat (entries_count (header (leaf_of p))) - 1 \<and>
        first_block ex + ucast (extent_get_actual_len ex) < first_block x then
       (case node_get_extent io (leaf_of p) (pos + 1) s1 of
          (Inl r, s2) \<Rightarrow> (r, s2)
        | (Inr next, s2) \<Rightarrow>
            if can_merge x next then store_merged io p x next (pos + 1) s2
            else insert_unmerged (insert_extent io) io lb p x s2)
     else insert_unmerged (insert_extent io) io lb p x s1)"
proof -
  note nc = nc [unfolded ex_def] and np = np [unfolded ex_def pos_def]
  show ?thesis
    unfolding ex_def pos_def
    by (subst insert_extent_unfold)
      (simp only: insert_extent_body_def f prod.case sum.case Let_def n nc np simp_thms if_False if_True)
qed

lemma root_leaf_lookup:
  assumes "root_leaf (sb io) es s"
  shows "\<exists>p. find_extent io lb s = (Inr p, s) \<and> path_depth p = 0 \<and> pblock_of_node (leaf_of p) = 0
    \<and> header (leaf_of p) = header_load (root s) \<and> have_extent (leaf_of p) = (es \<noteq> [])
    \<and> (es \<noteq> [] \<longrightarrow> search_pos es (unat lb) (position (leaf_of p))
         \<and> extent (leaf_of p) = es ! position (leaf_of p))"
proof -
  have tree: "tree_ok (sb io) s" "root_depth s = 0"
    using assms by (simp_all add: root_leaf_def)
  have L: "es = leaf_list (header_load (root s)) (root s)"
    using assms unfolding root_leaf_iff by blast
  obtain p where f: "find_extent io lb s = (Inr p, s)" and d: "path_depth p = 0"
    and fl: "found_leaf s lb (leaf_of p)" and pb: "pblock_of_node (leaf_of p) = 0"
    and hd: "header (leaf_of p) = header_load (root s)"
    using find_extent_root_leaf [OF tree] by blast
  have nd: "node_data (pblock_of_node (leaf_of p)) s = root s" by (simp add: pb node_data_def)
  have "have_extent (leaf_of p) = (entries_count (header_load (root s)) \<noteq> 0)"
    using fl unfolding found_leaf_def Let_def hd by blast
  then have have_ex: "have_extent (leaf_of p) = (es \<noteq> [])"
    using root_leaf_length [OF assms] by (auto simp: unat_eq_zero)
  have "search_pos es (unat lb) (position (leaf_of p))" "extent (leaf_of p) = es ! position (leaf_of p)"
    if "es \<noteq> []"
    using that fl have_ex unfolding found_leaf_def Let_def hd nd L [symmetric] by blast+
  with f d pb hd have_ex show ?thesis by blast
qed

lemma insert_extent_root:
  assumes "root_leaf (sb io) es s" "insertable (sb_blocks_cnt (sb io)) es x"
    and "\<not> h_full (header_load (root s))"
  shows "\<exists>s'. insert_extent io (first_block x) x s = (EOK, s') \<and> bufs s' = bufs s
    \<and> inserted (sb io) s x s'"
proof -
  let ?h = "header_load (root s)"
  have tree: "tree_ok (sb io) s" "root_depth s = 0" "tree_extents s = es"
    using assms(1) by (simp_all add: root_leaf_def)
  have ok: "extents_ok (sb_blocks_cnt (sb io)) es" and L: "es = leaf_list ?h (root s)"
    using assms(1) unfolding root_leaf_iff by blast+
  obtain p where f: "find_extent io (first_block x) s = (Inr p, s)" and d: "path_depth p = 0"
    and pb: "pblock_of_node (leaf_of p) = 0" and hd: "header (leaf_of p) = ?h"
    and have_ex: "have_extent (leaf_of p) = (es \<noteq> [])"
    and found: "es \<noteq> [] \<longrightarrow> search_pos es (unat (first_block x)) (position (leaf_of p))
      \<and> extent (leaf_of p) = es ! position (leaf_of p)"
    using root_leaf_lookup [OF assms(1)] by blast
  let ?ex = "extent (leaf_of p)" and ?pos = "position (leaf_of p)"
  have sp: "search_pos es (e_first x) ?pos" and ex: "?ex = es ! ?pos" if "es \<noteq> []"
    using found that by (simp_all add: e_first_def)
  have new: "\<exists>s'. insert_new_extent (insert_extent io) io p x s = (EOK, s') \<and> bufs s' = bufs s
      \<and> inserted (sb io) s x s'"
    using assms sp d hd have_ex ex by (intro insert_new_extent_root) simp_all
  have plain: "insert_unmerged (insert_extent io) io (first_block x) p x s
      = insert_new_extent (insert_extent io) io p x s"
    using assms(3) hd by (simp add: insert_unmerged_def)
  show ?thesis
  proof (cases "es = []")
    case True
    then have "entries_count ?h = 0" using root_leaf_length [OF assms(1)] by (simp add: unat_eq_zero)
    with f hd new show ?thesis
      unfolding insert_extent_unfold [of io "first_block x"] by (simp add: insert_extent_body_def Let_def)
  next
    case False
    note sp = sp [OF False] and ex = ex [OF False]
    have pos: "?pos < length es" using sp by (simp add: search_pos_def)
    have n: "entries_count ?h \<noteq> 0" "unat (entries_count ?h) = length es"
      using False root_leaf_length [OF assms(1)] by auto
    have get: "node_get_extent io (leaf_of p) i s = (Inr (es ! i), s)" if "i < length es" for i
      using that pb L by (simp add: node_get_extent_def)
    have up: "inserted (sb io) s x (mark_dirty (s\<lparr>root := extent_store (slot i) m (root s)\<rparr>))"
      if "i < length es" "extents_ok (sb_blocks_cnt (sb io)) (es[i := m])"
        "ext_map (es[i := m]) = map_insert x (ext_map es)" for i m
      using root_leaf_update [OF assms(1) that(1,2)] that(3) assms(1)
      by (intro root_leaf_inserted) simp_all
    have nc: "\<not> (first_block x \<ge> first_block ?ex \<and> first_block x < first_block ?ex + ucast (extent_get_actual_len ?ex))"
      using no_collision [OF assms(2), of ?ex] ex pos by simp
    have np: "\<not> (0 < ?pos \<and> first_block x + ucast (extent_get_actual_len x) < first_block ?ex)"
      using no_prev_merge [OF assms(2) sp] ex by auto
    let ?next = "?pos < length es - 1 \<and> first_block ?ex + ucast (extent_get_actual_len ?ex) < first_block x"
    have hx: "have_extent (leaf_of p)" using False have_ex by simp
    have eq: "insert_extent io (first_block x) x s =
        (if can_merge ?ex x then store_merged io p ?ex x ?pos s
         else if ?next \<and> can_merge x (es ! (?pos + 1)) then store_merged io p x (es ! (?pos + 1)) (?pos + 1) s
         else insert_new_extent (insert_extent io) io p x s)"
      using get [of "?pos + 1"]
      unfolding insert_extent_decision [OF f hx n(1) [folded hd] nc np] hd n(2) plain
      by (cases ?next) (auto simp: plain)
    show ?thesis
    proof (cases "can_merge ?ex x")
      case True
      note m = merge_left [OF ok assms(2) sp True [unfolded ex]]
      from up [OF pos m] True show ?thesis
        unfolding eq by (simp add: store_merged_root [OF assms(1) pb hd] ex mark_dirty_def)
    next
      case no_left: False
      show ?thesis
      proof (cases "?next \<and> can_merge x (es ! (?pos + 1))")
        case True
        then have lt: "?pos + 1 < length es" and cm: "can_merge x (es ! (?pos + 1))" by auto
        have "e_end ?ex < 2 ^ 32" using assms(2) pos ex by (simp add: insertable_def)
        with True have "e_end ?ex < e_first x"
          by (simp add: word_less_nat_alt unat_ext_end flip: e_first_def)
        then have "e_first (es ! ?pos) \<le> e_first x" using ex by (simp add: e_end_def)
        note m = merge_right [OF ok assms(2) sp cm lt this]
        from up [OF lt m] no_left True show ?thesis
          unfolding eq by (simp add: store_merged_root [OF assms(1) pb hd] mark_dirty_def)
      next
        case False
        with no_left new show ?thesis unfolding eq by auto
      qed
    qed
  qed
qed

end
