(* ===== verification/Extent_Cut.thy ===== *)
theory Extent_Cut
  imports Extent_Update
begin

text \<open>
  Removing a range from one leaf.  \<open>cut_list\<close> is the specification on lists: what stays of
  the extents when the blocks from \<open>f\<close> to \<open>t\<close> go.  remove_leaf's in-place
  rewrite with its two cursors computes it and frees exactly the blocks that go.
\<close>

section \<open>One extent\<close>

definition e_last :: "ext4_extent \<Rightarrow> u32" where
  "e_last e = first_block e + ucast (extent_get_actual_len e) - 1"

text \<open>The extent does not stick out of the range on both sides.\<close>

definition one_sided :: "u32 \<Rightarrow> u32 \<Rightarrow> ext4_extent \<Rightarrow> bool" where
  "one_sided f t e \<longleftrightarrow> \<not> (first_block e < f \<and> t < e_last e)"

lemma unat_e_last: "e_end e < 2 ^ 32 \<Longrightarrow> 0 < e_len e \<Longrightarrow> unat (e_last e) = e_end e - 1"
proof -
  assume a: "e_end e < 2 ^ 32" "0 < e_len e"
  have "unat (first_block e + ucast (extent_get_actual_len e)) = e_end e"
    by (rule unat_ext_end [OF a(1)])
  moreover have "(1 :: u32) \<le> first_block e + ucast (extent_get_actual_len e)"
    using a calculation by (simp add: word_le_nat_alt e_end_def)
  ultimately show ?thesis by (simp add: e_last_def unat_sub)
qed

definition cut_pieces :: "u32 \<Rightarrow> u32 \<Rightarrow> ext4_extent \<Rightarrow> ext4_extent list" where
  "cut_pieces f t e = (let c = cut_extent e f t in if keep_len c = 0 then [] else [kept_extent e c])"

lemma unat_ucast16: "unat (w :: u32) < 65536 \<Longrightarrow> unat (ucast w :: u16) = unat w"
  by (simp add: unsigned_ucast_eq take_bit_nat_eq_self)

text \<open>The prefix that stays in front of the range.\<close>

lemma cut_prefix:
  fixes e :: ext4_extent and f t :: u32
  assumes "first_block e < f" "f \<le> e_last e" "e_end e < 2 ^ 32" "0 < e_len e"
  defines "c \<equiv> cut_extent e f t"
  shows "unat (keep_len c) = unat f - e_first e" "keep_start c = first_block e"
    "keep_block c = extent_get_pblock e" "cut_start c = f" "unat (cut_len c) = e_end e - unat f"
proof -
  have le: "e_len e \<le> 32768" using actual_len_le by (simp add: e_len_def)
  have f: "e_first e < unat f" "unat f < e_end e"
    using assms(1,2) unat_e_last [OF assms(3,4)] assms(4)
    by (auto simp: word_less_nat_alt word_le_nat_alt e_first_def e_end_def)
  have d: "unat (f - first_block e) = unat f - e_first e"
    using f by (simp add: unat_sub word_le_nat_alt e_first_def)
  then have "f - first_block e \<le> ucast (extent_get_actual_len e)"
    using f by (simp add: word_le_nat_alt e_len_def [symmetric] e_end_def)
  then have "unat (ucast (extent_get_actual_len e) - (f - first_block e)) = e_len e - (unat f - e_first e)"
    using d by (simp add: unat_sub e_len_def)
  then show "unat (cut_len c) = e_end e - unat f"
    using assms(1) f le by (simp add: c_def cut_extent_def Let_def unat_ucast16 e_end_def)
  show "unat (keep_len c) = unat f - e_first e"
    using assms(1) f le d by (simp add: c_def cut_extent_def Let_def unat_ucast16 e_end_def)
qed (use assms(1) in \<open>simp_all add: c_def cut_extent_def Let_def\<close>)

text \<open>The suffix that stays behind it.\<close>

lemma cut_suffix:
  fixes e :: ext4_extent and f t :: u32
  assumes "f \<le> first_block e" "first_block e \<le> t" "t < e_last e" "e_end e < 2 ^ 32" "0 < e_len e"
  defines "c \<equiv> cut_extent e f t"
  shows "unat (keep_len c) = e_end e - 1 - unat t" "keep_start c = t + 1"
    "unat (keep_block c) = e_phys e + (unat t + 1 - e_first e)" "cut_start c = first_block e"
    "unat (cut_len c) = unat t + 1 - e_first e"
proof -
  have le: "e_len e \<le> 32768" using actual_len_le by (simp add: e_len_def)
  have t: "e_first e \<le> unat t" "unat t < e_end e - 1"
    using assms(2,3) unat_e_last [OF assms(4,5)]
    by (auto simp: word_less_nat_alt word_le_nat_alt e_first_def)
  have c: "cut_extent e f t = \<lparr>cut_start = first_block e,
      cut_len = extent_get_actual_len e - ucast (e_last e - t), keep_len = ucast (e_last e - t),
      keep_start = t + 1, keep_block = extent_get_pblock e + ucast (t + 1 - first_block e)\<rparr>"
    using leD [OF assms(1)] assms(3) by (simp add: cut_extent_def Let_def e_last_def)
  have "unat (e_last e - t) = e_end e - 1 - unat t"
    using t unat_e_last [OF assms(4,5)] by (simp add: unat_sub word_le_nat_alt)
  then have k: "unat (ucast (e_last e - t) :: u16) = e_end e - 1 - unat t"
    using t le by (simp add: unat_ucast16 e_end_def)
  then show "unat (keep_len c) = e_end e - 1 - unat t" by (simp add: c_def c)
  have "ucast (e_last e - t) \<le> extent_get_actual_len e"
    using k t by (simp add: word_le_nat_alt e_len_def [symmetric] e_end_def)
  then show "unat (cut_len c) = unat t + 1 - e_first e"
    using k t by (simp add: c_def c unat_sub e_len_def [symmetric] e_end_def)
  have "unat (t + 1) = unat t + 1"
    using t assms(4) by (simp add: unat_word_ariths)
  then have "unat (t + 1 - first_block e) = unat t + 1 - e_first e"
    using t by (simp add: unat_sub word_le_nat_alt e_first_def)
  moreover have "unat t < 4294967296" by (rule unat32_less)
  ultimately show "unat (keep_block c) = e_phys e + (unat t + 1 - e_first e)"
    using pblock_less [of e] by (simp add: c_def c unat_word_ariths e_phys_def)
qed (use leD [OF assms(1)] assms(3) in \<open>simp_all add: c_def cut_extent_def Let_def e_last_def\<close>)

lemma cut_whole:
  assumes "f \<le> first_block e" "e_last e \<le> t"
  shows "cut_extent e f t = \<lparr>cut_start = first_block e, cut_len = extent_get_actual_len e, keep_len = 0,
    keep_start = first_block e, keep_block = extent_get_pblock e\<rparr>"
  using leD [OF assms(1)] leD [OF assms(2)] by (simp add: cut_extent_def Let_def e_last_def)

text \<open>The fields of the extent that stays.\<close>

lemma kept_extent_fields:
  assumes "0 < unat (keep_len c)" "unat (keep_len c) < 32768" "unat (keep_block c) < 2 ^ 48"
  shows "e_first (kept_extent e c) = unat (keep_start c)" "e_len (kept_extent e c) = unat (keep_len c)"
    "e_phys (kept_extent e c) = unat (keep_block c)"
    "extent_is_unwritten (kept_extent e c) = extent_is_unwritten e"
proof -
  let ?e = "extent_store_pblock (keep_block c) (e\<lparr>first_block := keep_start c\<rparr>)"
  have u: "extent_is_unwritten (e\<lparr>first_block := keep_start c\<rparr>) = extent_is_unwritten e"
    by (simp add: extent_is_unwritten_def)
  have k: "kept_extent e c = (if extent_is_unwritten e then extent_mark_unwritten (extent_set_actual_len (keep_len c) ?e)
      else extent_set_actual_len (keep_len c) ?e)"
    by (simp add: kept_extent_def Let_def u)
  show "e_first (kept_extent e c) = unat (keep_start c)" by (simp add: k e_first_def)
  show "e_phys (kept_extent e c) = unat (keep_block c)"
    using take_bit_unat_id [OF assms(3)] by (simp add: k e_phys_def extent_pblock_trunc)
  show "e_len (kept_extent e c) = unat (keep_len c)"
    "extent_is_unwritten (kept_extent e c) = extent_is_unwritten e"
    using unwritten_roundtrip [OF assms(1,2), of ?e] initialized_roundtrip [of "keep_len c" ?e] assms(2)
    by (simp_all add: k e_len_def)
qed

section \<open>A sorted list of extents\<close>

fun cut_list :: "u32 \<Rightarrow> u32 \<Rightarrow> ext4_extent list \<Rightarrow> ext4_extent list" where
  "cut_list f t [] = []"
| "cut_list f t (e # es) =
     (if first_block e > t then e # es
      else if e_last e < f then e # cut_list f t es
      else cut_pieces f t e @ cut_list f t es)"

text \<open>The runs of physical blocks given to ext4_balloc_free_blocks, in order.\<close>

fun freed_list :: "u32 \<Rightarrow> u32 \<Rightarrow> ext4_extent list \<Rightarrow> (u64 \<times> u32) list" where
  "freed_list f t [] = []"
| "freed_list f t (e # es) =
     (if first_block e > t then []
      else if e_last e < f then freed_list f t es
      else (let c = cut_extent e f t in
            (extent_get_pblock e + ucast (cut_start c - first_block e), ucast (cut_len c)) # freed_list f t es))"

text \<open>
  What a cut needs of an extent: valid, not ending at the last block, one-sided, and all
  its blocks addressable with the 48 bits an extent has for a physical block.
\<close>

definition cuttable :: "u64 \<Rightarrow> u32 \<Rightarrow> u32 \<Rightarrow> ext4_extent \<Rightarrow> bool" where
  "cuttable fs f t e \<longleftrightarrow> extent_ok fs e \<and> e_end e < 2 ^ 32 \<and> one_sided f t e
     \<and> e_phys e + e_len e \<le> 2 ^ 48"

lemma cut_pieces_spec:
  assumes "cuttable fs f t e" "first_block e \<le> t" "f \<le> e_last e"
  shows "ext_map (cut_pieces f t e) lb
      = (if unat f \<le> lb \<and> lb \<le> unat t then None else ext_map [e] lb)"
    and "extents_ok fs (cut_pieces f t e)"
    and "x \<in> set (cut_pieces f t e) \<Longrightarrow> e_first e \<le> e_first x \<and> e_end x \<le> e_end e"
proof -
  have e: "extent_ok fs e" "e_end e < 2 ^ 32" "0 < e_len e" and os: "one_sided f t e"
    using assms(1) by (simp_all add: cuttable_def extent_ok_def)
  have le: "e_len e \<le> 32768" using actual_len_le by (simp add: e_len_def)
  have p: "e_phys e + e_len e \<le> unat fs" "0 < e_phys e" using e(1) by (simp_all add: extent_ok_def)
  let ?c = "cut_extent e f t"
  have "(\<forall>lb. ext_map (cut_pieces f t e) lb
      = (if unat f \<le> lb \<and> lb \<le> unat t then None else ext_map [e] lb))
    \<and> extents_ok fs (cut_pieces f t e)
    \<and> (\<forall>x \<in> set (cut_pieces f t e). e_first e \<le> e_first x \<and> e_end x \<le> e_end e)"
  proof -
    consider (prefix) "first_block e < f" | (suffix) "f \<le> first_block e" "t < e_last e"
      | (whole) "f \<le> first_block e" "e_last e \<le> t" by fastforce
    then show ?thesis
    proof cases
      case prefix
      note c = cut_prefix [OF prefix assms(3) e(2,3), of t]
      have f: "e_first e < unat f" "unat f < e_end e"
        using prefix assms(3) unat_e_last [OF e(2,3)] e(3)
        by (auto simp: word_less_nat_alt word_le_nat_alt e_first_def e_end_def)
      have t: "e_end e \<le> unat t + 1"
        using prefix os unat_e_last [OF e(2,3)] by (auto simp: one_sided_def word_less_nat_alt)
      have k: "0 < unat (keep_len ?c)" "unat (keep_len ?c) < 32768" "unat (keep_block ?c) < 2 ^ 48"
        using c f le pblock_less [of e] by (auto simp: e_end_def e_phys_def [symmetric])
      note kf = kept_extent_fields [OF k, of e, unfolded c, folded e_first_def e_phys_def]
      have "cut_pieces f t e = [kept_extent e ?c]"
        using k(1) by (auto simp: cut_pieces_def Let_def)
      then show ?thesis
        using kf f t p e(2) by (auto simp: extents_ok_Cons extent_ok_def e_end_def)
    next
      case suffix
      note c = cut_suffix [OF suffix(1) assms(2) suffix(2) e(2,3)]
      have t: "e_first e \<le> unat t" "unat t < e_end e - 1" "unat f \<le> e_first e"
        using assms(2) suffix unat_e_last [OF e(2,3)]
        by (auto simp: word_less_nat_alt word_le_nat_alt e_first_def)
      have tS: "unat (t + 1) = unat t + 1"
        using t e(2) by (simp add: unat_word_ariths)
      have k: "0 < unat (keep_len ?c)" "unat (keep_len ?c) < 32768" "unat (keep_block ?c) < 2 ^ 48"
      proof -
        show "0 < unat (keep_len ?c)" "unat (keep_len ?c) < 32768"
          using c t le by (auto simp: e_end_def)
        show "unat (keep_block ?c) < 2 ^ 48"
          using c t assms(1) by (auto simp: cuttable_def e_end_def)
      qed
      note kf = kept_extent_fields [OF k, of e, unfolded c tS]
      have "cut_pieces f t e = [kept_extent e ?c]"
        using k(1) by (auto simp: cut_pieces_def Let_def)
      then show ?thesis
        using kf t p e(2) by (auto simp: extents_ok_Cons extent_ok_def e_end_def)
    next
      case whole
      then have "cut_pieces f t e = []" by (simp add: cut_pieces_def cut_whole)
      moreover have "unat f \<le> e_first e" "e_end e \<le> unat t + 1"
        using whole unat_e_last [OF e(2,3)] by (auto simp: word_le_nat_alt e_first_def)
      ultimately show ?thesis by auto
    qed
  qed
  then show "ext_map (cut_pieces f t e) lb
      = (if unat f \<le> lb \<and> lb \<le> unat t then None else ext_map [e] lb)"
    "extents_ok fs (cut_pieces f t e)"
    "x \<in> set (cut_pieces f t e) \<Longrightarrow> e_first e \<le> e_first x \<and> e_end x \<le> e_end e"
    by blast+
qed

lemma cut_list_within:
  assumes "\<forall>e \<in> set es. cuttable fs f t e" "x \<in> set (cut_list f t es)"
  shows "\<exists>e \<in> set es. e_first e \<le> e_first x \<and> e_end x \<le> e_end e"
  using assms
proof (induction es)
  case (Cons e es)
  consider (keep) "x = e" | (rest) "x \<in> set es" | (cut) "x \<in> set (cut_list f t es)"
    | (piece) "first_block e \<le> t" "f \<le> e_last e" "x \<in> set (cut_pieces f t e)"
    using Cons.prems(2) by (auto split: if_splits simp: not_less)
  then show ?case
  proof cases
    case cut
    with Cons show ?thesis by auto
  next
    case piece
    with cut_pieces_spec(3) [of fs f t e x] Cons.prems(1) show ?thesis by auto
  qed auto
qed simp

text \<open>
  The cut list is well formed and denotes the old map without the range.
\<close>

lemma cut_list_spec:
  assumes "extents_ok fs es" "\<forall>e \<in> set es. cuttable fs f t e"
  shows "extents_ok fs (cut_list f t es)
    \<and> (\<forall>lb. ext_map (cut_list f t es) lb
         = (if unat f \<le> lb \<and> lb \<le> unat t then None else ext_map es lb))"
  using assms
proof (induction es)
  case (Cons e es)
  have e: "cuttable fs f t e" "extent_ok fs e" "0 < e_len e" "e_end e < 2 ^ 32"
    using Cons.prems(2) by (auto simp: cuttable_def extent_ok_def)
  have behind: "\<forall>b \<in> set es. e_end e \<le> e_first b" and ok: "extents_ok fs es"
    using Cons.prems(1) by (auto simp: extents_ok_Cons)
  have IH: "extents_ok fs (cut_list f t es)" "ext_map (cut_list f t es) lb
      = (if unat f \<le> lb \<and> lb \<le> unat t then None else ext_map es lb)" for lb
    using Cons.IH [OF ok] Cons.prems(2) by auto
  have behind': "e_end e \<le> e_first x" if "x \<in> set (cut_list f t es)" for x
    using cut_list_within [of es fs f t x] that Cons.prems(2) behind by fastforce
  consider (above) "t < first_block e" | (below) "\<not> t < first_block e" "e_last e < f"
    | (hit) "first_block e \<le> t" "f \<le> e_last e" by fastforce
  then show ?case
  proof cases
    case above
    have "ext_map (e # es) lb = None" if "lb \<le> unat t" for lb
    proof (rule ext_map_below, rule ballI)
      fix x assume "x \<in> set (e # es)"
      then have "e_first e \<le> e_first x" using behind e_first_le_end [of e] by fastforce
      with above that show "lb < e_first x" by (simp add: word_less_nat_alt e_first_def)
    qed
    with above Cons.prems(1) show ?thesis by auto
  next
    case below
    then have "e_end e \<le> unat f"
      using unat_e_last [OF e(4,3)] by (auto simp: word_less_nat_alt)
    with below IH behind' e(2) show ?thesis by (auto simp: extents_ok_Cons)
  next
    case hit
    note pc = cut_pieces_spec [OF e(1) hit]
    have cl: "cut_list f t (e # es) = cut_pieces f t e @ cut_list f t es"
      using hit by (simp add: not_less [symmetric])
    have "extents_ok fs (cut_list f t (e # es))"
      unfolding cl extents_ok_append using pc(2,3) IH(1) behind' by fastforce
    moreover have "ext_map (cut_list f t (e # es)) lb
        = (if unat f \<le> lb \<and> lb \<le> unat t then None else ext_map (e # es) lb)" for lb
      unfolding cl ext_map_append pc(1) IH(2) by auto
    ultimately show ?thesis by blast
  qed
qed simp

text \<open>The runs freed are the physical blocks the range was mapped to, each extent's run in order.\<close>

definition run_blocks :: "u64 \<times> u32 \<Rightarrow> nat set" where
  "run_blocks r = {unat (fst r)..<unat (fst r) + unat (snd r)}"

lemma shifted_range:
  fixes s a b q p :: nat
  assumes "s \<le> a"
  shows "p \<in> {q + (a - s)..<q + (a - s) + (b - a)} \<longleftrightarrow> (\<exists>lb. a \<le> lb \<and> lb < b \<and> p = q + (lb - s))"
proof
  assume "p \<in> {q + (a - s)..<q + (a - s) + (b - a)}"
  with assms have "a \<le> p - q + s \<and> p - q + s < b \<and> p = q + (p - q + s - s)" by auto
  then show "\<exists>lb. a \<le> lb \<and> lb < b \<and> p = q + (lb - s)" by blast
qed (use assms in auto)

lemma freed_piece:
  assumes "cuttable fs f t e" "first_block e \<le> t" "f \<le> e_last e"
  shows "run_blocks (extent_get_pblock e + ucast (cut_start (cut_extent e f t) - first_block e),
           ucast (cut_len (cut_extent e f t)))
    = {p. \<exists>lb u. unat f \<le> lb \<and> lb \<le> unat t \<and> ext_map [e] lb = Some (p, u)}"
proof -
  have e: "e_end e < 2 ^ 32" "0 < e_len e" and os: "one_sided f t e"
    using assms(1) by (simp_all add: cuttable_def extent_ok_def)
  let ?a = "max (unat f) (e_first e)" and ?b = "min (unat t + 1) (e_end e)"
  have lst: "unat f < e_end e" "e_first e \<le> unat t"
    using assms(2,3) unat_e_last [OF e] e(2)
    by (auto simp: word_le_nat_alt e_first_def e_end_def)
  have run: "unat (extent_get_pblock e + ucast (cut_start (cut_extent e f t) - first_block e))
        = e_phys e + (?a - e_first e) \<and> unat (cut_len (cut_extent e f t)) = ?b - ?a"
  proof -
    consider (prefix) "first_block e < f" | (suffix) "f \<le> first_block e" "t < e_last e"
      | (whole) "f \<le> first_block e" "e_last e \<le> t" by fastforce
    then show ?thesis
    proof cases
      case prefix
      note c = cut_prefix [OF prefix assms(3) e, of t]
      have "e_end e \<le> unat t + 1"
        using prefix os unat_e_last [OF e] by (auto simp: one_sided_def word_less_nat_alt)
      moreover have "first_block e \<le> f" using prefix by simp
      ultimately show ?thesis
        using c prefix unat_phys_off [of e f] by (auto simp: word_less_nat_alt e_first_def)
    next
      case suffix
      note c = cut_suffix [OF suffix(1) assms(2) suffix(2) e]
      have "unat t + 1 \<le> e_end e" "unat f \<le> e_first e"
        using suffix unat_e_last [OF e] by (auto simp: word_less_nat_alt word_le_nat_alt e_first_def)
      then show ?thesis using c lst by (simp add: e_phys_def)
    next
      case whole
      then have "e_end e \<le> unat t + 1" "unat f \<le> e_first e"
        using unat_e_last [OF e] by (auto simp: word_le_nat_alt e_first_def)
      then show ?thesis
        using lst e(2) by (simp add: cut_whole [OF whole] e_phys_def e_end_def flip: e_len_def)
    qed
  qed
  have "p \<in> run_blocks (extent_get_pblock e + ucast (cut_start (cut_extent e f t) - first_block e),
           ucast (cut_len (cut_extent e f t)))
      \<longleftrightarrow> (\<exists>lb u. unat f \<le> lb \<and> lb \<le> unat t \<and> ext_map [e] lb = Some (p, u))" for p
  proof -
    have "p \<in> run_blocks (extent_get_pblock e + ucast (cut_start (cut_extent e f t) - first_block e),
           ucast (cut_len (cut_extent e f t)))
        \<longleftrightarrow> (\<exists>lb. ?a \<le> lb \<and> lb < ?b \<and> p = e_phys e + (lb - e_first e))"
      unfolding run_blocks_def fst_conv snd_conv unat_ucast_16_32 conjunct1 [OF run] conjunct2 [OF run]
      by (rule shifted_range) simp
    moreover have "ext_map [e] lb = Some (p, u) \<longleftrightarrow> e_first e \<le> lb \<and> lb < e_end e
        \<and> p = e_phys e + (lb - e_first e) \<and> u = extent_is_unwritten e" for lb u
      by auto
    moreover have "?a \<le> lb \<longleftrightarrow> unat f \<le> lb \<and> e_first e \<le> lb" "lb < ?b \<longleftrightarrow> lb \<le> unat t \<and> lb < e_end e" for lb
      by auto
    ultimately show ?thesis by blast
  qed
  then show ?thesis by blast
qed

lemma freed_list_blocks:
  assumes "extents_ok fs es" "\<forall>e \<in> set es. cuttable fs f t e"
  shows "(\<Union>r \<in> set (freed_list f t es). run_blocks r)
    = {p. \<exists>lb u. unat f \<le> lb \<and> lb \<le> unat t \<and> ext_map es lb = Some (p, u)}"
  using assms
proof (induction es)
  case (Cons e es)
  have e: "cuttable fs f t e" "0 < e_len e" "e_end e < 2 ^ 32"
    using Cons.prems(2) by (auto simp: cuttable_def extent_ok_def)
  have ok: "extents_ok fs es" and behind: "\<forall>b \<in> set es. e_end e \<le> e_first b"
    using Cons.prems(1) by (auto simp: extents_ok_Cons)
  have IH: "(\<Union>r \<in> set (freed_list f t es). run_blocks r)
      = {p. \<exists>lb u. unat f \<le> lb \<and> lb \<le> unat t \<and> ext_map es lb = Some (p, u)}"
    using Cons.IH [OF ok] Cons.prems(2) by simp
  have split: "ext_map (e # es) lb = Some (p, u) \<longleftrightarrow> ext_map [e] lb = Some (p, u) \<or> ext_map es lb = Some (p, u)"
    for lb p u
  proof (cases "lb < e_end e")
    case True
    then have "ext_map es lb = None" using behind by (intro ext_map_below) auto
    then show ?thesis by simp
  qed simp
  consider (above) "t < first_block e" | (below) "\<not> t < first_block e" "e_last e < f"
    | (hit) "first_block e \<le> t" "f \<le> e_last e" by fastforce
  then show ?case
  proof cases
    case above
    have "ext_map (e # es) lb = None" if "lb \<le> unat t" for lb
    proof (rule ext_map_below, rule ballI)
      fix x assume "x \<in> set (e # es)"
      then have "e_first e \<le> e_first x" using behind e_first_le_end [of e] by fastforce
      with above that show "lb < e_first x" by (simp add: word_less_nat_alt e_first_def)
    qed
    with above show ?thesis by auto
  next
    case below
    then have "e_end e \<le> unat f" using unat_e_last [OF e(3,2)] by (auto simp: word_less_nat_alt)
    then have no: "\<not> (unat f \<le> lb \<and> ext_map [e] lb = Some (p, u))" for lb p u by auto
    have fl: "freed_list f t (e # es) = freed_list f t es" using below by simp
    have eq: "(unat f \<le> lb \<and> lb \<le> unat t \<and> ext_map (e # es) lb = Some (p, u))
        \<longleftrightarrow> (unat f \<le> lb \<and> lb \<le> unat t \<and> ext_map es lb = Some (p, u))" for lb p u
      unfolding split using no [of lb p u] by blast
    show ?thesis unfolding fl IH by (simp only: eq)
  next
    case hit
    then have fl: "freed_list f t (e # es) = (extent_get_pblock e
        + ucast (cut_start (cut_extent e f t) - first_block e), ucast (cut_len (cut_extent e f t))) # freed_list f t es"
      by (simp add: Let_def not_less [symmetric])
    show ?thesis
      unfolding fl list.set UN_insert freed_piece [OF e(1) hit] IH
      by (simp only: split conj_disj_distribL ex_disj_distrib Collect_disj_eq)
  qed
qed simp

section \<open>remove_leaf computes the cut\<close>

definition run_frees :: "'e lwext4 \<Rightarrow> (u64 \<times> u32) list \<Rightarrow> 'e \<Rightarrow> 'e" where
  "run_frees io rs e = fold (\<lambda>(pb, n) e. snd (balloc_free_blocks io pb n e)) rs e"

lemma env_update: "env (s\<lparr>env := e\<rparr>) = e"
  by simp

lemma env_again: "s\<lparr>env := e, env := e'\<rparr> = (s\<lparr>env := e'\<rparr> :: 'e istate)"
  by simp

lemma run_frees_Nil [simp]: "run_frees io [] e = e"
  by (simp add: run_frees_def)

lemma run_frees_Cons [simp]:
  "run_frees io ((pb, n) # rs) e = run_frees io rs (snd (balloc_free_blocks io pb n e))"
  by (simp add: run_frees_def)

definition frees_ok :: "'e lwext4 \<Rightarrow> bool" where
  "frees_ok io \<longleftrightarrow> (\<forall>pb n e. fst (balloc_free_blocks io pb n e) = EOK)"

lemma node_data_set [simp]: "node_data pb (set_node_data pb d s) = d"
  by (simp add: node_data_def set_node_data_def)

lemma node_data_env [simp]: "node_data pb (s\<lparr>env := e\<rparr>) = node_data pb s"
  by (simp add: node_data_def)

lemma env_set_node_data [simp]: "env (set_node_data pb d s) = env s"
  by (simp add: set_node_data_def)

lemma set_node_data_twice [simp]:
  "set_node_data pb d2 ((set_node_data pb d1 s)\<lparr>env := e\<rparr>) = set_node_data pb d2 (s\<lparr>env := e\<rparr>)"
  by (simp add: set_node_data_def)

lemma set_node_data_same [simp]: "set_node_data pb (node_data pb s) (s\<lparr>env := e\<rparr>) = s\<lparr>env := e\<rparr>"
  by (simp add: set_node_data_def node_data_def)

lemma set_node_data_own [simp]: "set_node_data pb (node_data pb s) s = s"
  by (simp add: set_node_data_def node_data_def)

lemma remove_blocks_cut:
  assumes "frees_ok io"
  shows "remove_blocks io ex (cut_start c) (cut_start c + ucast (cut_len c) - 1) s
    = (EOK, s\<lparr>env := snd (balloc_free_blocks io (extent_get_pblock ex + ucast (cut_start c - first_block ex))
         (ucast (cut_len c)) (env s))\<rparr>)"
proof -
  have len: "cut_start c + ucast (cut_len c) - 1 - cut_start c + 1 = (ucast (cut_len c) :: u32)" by simp
  obtain r e where "balloc_free_blocks io (extent_get_pblock ex + ucast (cut_start c - first_block ex))
      (ucast (cut_len c)) (env s) = (r, e)"
    by fastforce
  moreover from this have "r = EOK" using assms by (metis frees_ok_def fst_conv)
  ultimately show ?thesis
    unfolding remove_blocks_def Let_def len by (simp add: ext4_balloc_free_blocks_def ext_call_def)
qed

lemma exI3: "P a b c \<Longrightarrow> \<exists>a b c. P a b c"
  by blast

lemma take_update_drop:
  assumes "w \<le> i" "i < length L"
  shows "take (Suc w) (L[w := x]) = take w L @ [x]" "drop (Suc i) (L[w := x]) = drop (Suc i) L"
  using assms by (simp_all add: take_Suc_conv_app_nth)

lemma remove_leaf_loop_spec:
  assumes "frees_ok io" "w \<le> i" "i \<le> n" "slot n \<le> length (node_data pbn s)"
  shows "\<exists>i' w' d. remove_leaf_loop io pbn f t n i w (n - (i - w)) s
        = (Inr (i', w', n - (i' - w')), set_node_data pbn d (s\<lparr>env := run_frees io
             (freed_list f t (drop i (slots extent_load n (node_data pbn s)))) (env s)\<rparr>))
      \<and> w' \<le> i' \<and> i' \<le> n \<and> length d = length (node_data pbn s)
      \<and> take w' (slots extent_load n d) @ drop i' (slots extent_load n d)
        = take w (slots extent_load n (node_data pbn s))
          @ cut_list f t (drop i (slots extent_load n (node_data pbn s)))"
  using assms(2-)
proof (induction "n - i" arbitrary: i w s)
  case 0
  then have i: "i = n" by simp
  have "remove_leaf_loop io pbn f t n i w (n - (i - w)) s = (Inr (i, w, n - (i - w)), s)"
    using i by (subst remove_leaf_loop.simps) simp
  then show ?case
    using "0.prems" i
    by (intro exI3 [where a = i and b = w and c = "node_data pbn s"]) simp
next
  case (Suc k)
  let ?D = "node_data pbn s"
  let ?L = "slots extent_load n ?D"
  let ?ex = "extent_load ?D (slot i)"
  let ?c = "cut_extent ?ex f t"
  from Suc.hyps(2) have i: "i < n" "k = n - Suc i" by simp_all
  have ex: "drop i ?L = ?ex # drop (Suc i) ?L"
    using i by (simp add: Cons_nth_drop_Suc [symmetric])
  have w: "slot w + 12 \<le> length ?D" "w < n" using Suc.prems i by (auto simp: slot_def)
  have next_count: "n - (i - w) - 1 = n - (Suc i - w)"
    using Suc.prems(1) i by simp_all
  have Suc_w: "Suc w \<le> Suc i" and Suc_i: "Suc i \<le> n" using Suc.prems(1) i by simp_all
  have st: "take (Suc w) (?L[w := x]) = take w ?L @ [x]" "drop (Suc i) (?L[w := x]) = drop (Suc i) ?L" for x
    using take_update_drop [OF Suc.prems(1), of ?L] i by simp_all
  have slots_st: "slots extent_load n (extent_store (slot w) x ?D) = ?L[w := x]" for x
    using w Suc.prems(3) by (simp add: ext.slots_store)
  have len_st: "length (extent_store (slot w) x ?D) = length ?D" for x
    using w(1) by (simp add: ext.length_store)
  consider (stop) "first_block ?ex > t" | (skip) "\<not> first_block ?ex > t" "e_last ?ex < f"
    | (drop) "\<not> first_block ?ex > t" "\<not> e_last ?ex < f" "keep_len ?c = 0"
    | (cut) "\<not> first_block ?ex > t" "\<not> e_last ?ex < f" "keep_len ?c \<noteq> 0" by blast
  then show ?case
  proof cases
    case stop
    then show ?thesis
      using Suc.prems i ex
      by (intro exI3 [where a = i and b = w and c = ?D]) (simp add: remove_leaf_loop.simps [of io pbn f t n i])
  next
    case skip
    let ?s = "set_node_data pbn (extent_store (slot w) ?ex ?D) s"
    have "remove_leaf_loop io pbn f t n i w (n - (i - w)) s
        = remove_leaf_loop io pbn f t n (Suc i) (Suc w) (n - (Suc i - Suc w)) ?s"
      using i skip
      by (subst remove_leaf_loop.simps) (simp add: Let_def e_last_def)
    moreover have "slot n \<le> length (node_data pbn ?s)" using Suc.prems(3) by (simp add: len_st)
    note IH = Suc.hyps(1) [OF i(2) Suc_w Suc_i this, unfolded node_data_set len_st slots_st st
        env_set_node_data]
    moreover have "cut_list f t (?ex # R) = ?ex # cut_list f t R" "freed_list f t (?ex # R) = freed_list f t R" for R
      using skip by simp_all
    ultimately show ?thesis
      unfolding ex using IH by (simp only: append_assoc append_Cons append_Nil set_node_data_twice)
  next
    case drop
    let ?s = "s\<lparr>env := snd (balloc_free_blocks io (extent_get_pblock ?ex + ucast (cut_start ?c - first_block ?ex))
         (ucast (cut_len ?c)) (env s))\<rparr>"
    have "remove_leaf_loop io pbn f t n i w (n - (i - w)) s
        = remove_leaf_loop io pbn f t n (Suc i) w (n - (Suc i - w)) ?s"
      using i drop next_count
      by (subst remove_leaf_loop.simps) (simp add: Let_def e_last_def remove_blocks_cut [OF assms(1)])
    moreover have "slot n \<le> length (node_data pbn ?s)" using Suc.prems(3) by simp
    note IH = Suc.hyps(1) [OF i(2) le_SucI [OF Suc.prems(1)] Suc_i this, unfolded node_data_env]
    moreover have "cut_list f t (?ex # R) = cut_list f t R" "freed_list f t (?ex # R)
        = (extent_get_pblock ?ex + ucast (cut_start ?c - first_block ?ex), ucast (cut_len ?c)) # freed_list f t R" for R
      using drop by (simp_all add: cut_pieces_def Let_def)
    ultimately show ?thesis
      unfolding ex using IH by (simp only: run_frees_Cons env_update env_again)
  next
    case cut
    let ?e = "snd (balloc_free_blocks io (extent_get_pblock ?ex + ucast (cut_start ?c - first_block ?ex))
         (ucast (cut_len ?c)) (env s))"
    let ?s = "set_node_data pbn (extent_store (slot w) (kept_extent ?ex ?c) ?D) (s\<lparr>env := ?e\<rparr>)"
    have "remove_leaf_loop io pbn f t n i w (n - (i - w)) s
        = remove_leaf_loop io pbn f t n (Suc i) (Suc w) (n - (Suc i - Suc w)) ?s"
      using i cut
      by (subst remove_leaf_loop.simps) (simp add: Let_def e_last_def remove_blocks_cut [OF assms(1)])
    moreover have "slot n \<le> length (node_data pbn ?s)" using Suc.prems(3) by (simp add: len_st)
    note IH = Suc.hyps(1) [OF i(2) Suc_w Suc_i this, unfolded node_data_set len_st slots_st st
        env_set_node_data]
    moreover have "cut_list f t (?ex # R) = kept_extent ?ex ?c # cut_list f t R" "freed_list f t (?ex # R)
        = (extent_get_pblock ?ex + ucast (cut_start ?c - first_block ?ex), ucast (cut_len ?c)) # freed_list f t R" for R
      using cut by (simp_all add: cut_pieces_def Let_def)
    ultimately show ?thesis
      unfolding ex using IH by (simp only: append_assoc append_Cons append_Nil set_node_data_twice
        run_frees_Cons env_update env_again)
  qed
qed

end
