(* ===== verification/Extent_Space.thy ===== *)
theory Extent_Space
  imports Extent_Cut
begin

text \<open>
  ext4_extent_remove_space on a tree whose root is its only leaf: it returns, takes
  exactly the range out of the map and frees exactly the blocks that were mapped there.
\<close>

section \<open>remove_leaf on the root\<close>

lemma remove_leaf_bytes_effect:
  assumes "w \<le> i" "i \<le> unat (entries_count h)" "slot (unat (entries_count h)) \<le> length d"
  defines "n \<equiv> unat (entries_count h)"
  shows "header_load (remove_leaf_bytes h i w (n - (i - w)) d) = h\<lparr>entries_count := of_nat (n - (i - w))\<rparr>"
    and "length (remove_leaf_bytes h i w (n - (i - w)) d) = length d"
    and "slots extent_load (n - (i - w)) (remove_leaf_bytes h i w (n - (i - w)) d)
      = take w (slots extent_load n d) @ drop i (slots extent_load n d)"
    and "unat (of_nat (n - (i - w)) :: u16) = n - (i - w)"
proof -
  let ?m = "if w \<noteq> i \<and> i < n then mem_move (slot w) (slot i) ((n - i) * 12) d else d"
  have eq: "remove_leaf_bytes h i w (n - (i - w)) d
      = header_store (h\<lparr>entries_count := of_nat (n - (i - w))\<rparr>) ?m"
    by (simp add: remove_leaf_bytes_def Let_def n_def)
  have n: "w \<le> i" "i \<le> n" "slot n \<le> length d" using assms by simp_all
  then have "slot (w + (n - i)) \<le> length d" "slot (i + (n - i)) \<le> length d" if "i < n"
    using that by (auto simp: slot_def)
  then have lm: "length ?m = length d" using ext.length_slot_move by simp
  have l12: "12 \<le> length d" using n(3) slot_ge_header [of n] by simp
  have le: "slot (n - (i - w)) \<le> length d"
    using n(3) slot_le [of "n - (i - w)" n] by simp
  show "header_load (remove_leaf_bytes h i w (n - (i - w)) d) = h\<lparr>entries_count := of_nat (n - (i - w))\<rparr>"
    unfolding eq using l12 lm by (simp add: codec_simps)
  show "length (remove_leaf_bytes h i w (n - (i - w)) d) = length d"
    unfolding eq using l12 lm by (simp add: mem_simps)
  have "slots extent_load (n - (i - w)) ?m = take w (slots extent_load n d) @ drop i (slots extent_load n d)"
  proof -
    consider (same) "w = i" | (none) "w \<noteq> i" "i = n" | (gap) "w \<noteq> i" "i < n" using n by linarith
    then show ?thesis
    proof cases
      case none
      with n(1) have "n - (i - w) = w" by simp
      with none n(1) show ?thesis by (simp add: slots_take)
    next
      case gap
      with n have c: "n - (i - w) = w + (n - i)" by simp
      show ?thesis
        unfolding c using gap ext.slots_close_gap [OF n] by simp
    qed simp
  qed
  then show "slots extent_load (n - (i - w)) (remove_leaf_bytes h i w (n - (i - w)) d)
      = take w (slots extent_load n d) @ drop i (slots extent_load n d)"
    unfolding eq using le lm by (simp add: ext.slots_header_store)
  show "unat (of_nat (n - (i - w)) :: u16) = n - (i - w)"
    using unat16_less [of "entries_count h"]
    by (simp add: unsigned_of_nat take_bit_nat_eq_self n_def)
qed

text \<open>The state after a removal that frees the runs \<open>rs\<close>.\<close>

lemma remove_leaf_root:
  assumes "root_leaf b es s" "frees_ok io" "pblock_of_node (leaf_of p) = 0"
    and "header (leaf_of p) = header_load (root s)" "path_depth p = 0" "position (leaf_of p) \<le> length es"
    and "extents_ok (sb_blocks_cnt b)
      (take (position (leaf_of p)) es @ cut_list f t (drop (position (leaf_of p)) es))"
  shows "\<exists>s'. remove_leaf io p f t s = (EOK, s')
    \<and> root_leaf b (take (position (leaf_of p)) es @ cut_list f t (drop (position (leaf_of p)) es)) s'
    \<and> bufs s' = bufs s \<and> max_entries_count (header_load (root s')) = max_entries_count (header_load (root s))
    \<and> env s' = run_frees io (freed_list f t (drop (position (leaf_of p)) es)) (env s)"
proof -
  let ?h = "header_load (root s)" and ?pos = "position (leaf_of p)"
  let ?n = "unat (entries_count ?h)"
  have L: "es = leaf_list ?h (root s)" and len: "length (root s) = 60" and ok: "extents_ok (sb_blocks_cnt b) es"
    and hd: "validate_header True (sb_block_size b) ?h = EOK" "depth ?h = 0"
    using assms(1) unfolding root_leaf_iff by blast+
  have n: "?n \<le> 4" "?n = length es"
    using hd(1) root_leaf_length [OF assms(1)] by (auto simp: validate_header_root_iff)
  then have sl: "slot ?n \<le> length (root s)" using len by (simp add: slot_def)
  have pl: "?pos \<le> ?n" and n0: "node_data 0 s = root s"
    using assms(6) n(2) by (simp_all add: node_data_def)
  let ?e = "run_frees io (freed_list f t (drop ?pos es)) (env s)"
  obtain i w d where lp: "remove_leaf_loop io 0 f t ?n ?pos ?pos (?n - (?pos - ?pos)) s
      = (Inr (i, w, ?n - (i - w)), set_node_data 0 d (s\<lparr>env := ?e\<rparr>))"
    and iw: "w \<le> i" "i \<le> ?n" "length d = length (root s)"
    and eq: "take w (slots extent_load ?n d) @ drop i (slots extent_load ?n d)
      = take ?pos es @ cut_list f t (drop ?pos es)"
    using remove_leaf_loop_spec [OF assms(2) order_refl pl, of 0 s f t, unfolded n0, OF sl]
    unfolding L [symmetric] by blast
  note r = remove_leaf_bytes_effect [OF iw(1,2), of d, unfolded iw(3), OF sl]
  let ?s' = "mark_dirty (s\<lparr>env := ?e, root := remove_leaf_bytes ?h i w (?n - (i - w)) d\<rparr>)"
  have nodes: "node_data 0 (set_node_data 0 d (s\<lparr>env := ?e\<rparr>)) = d" by simp
  have st: "set_node_data 0 x (set_node_data 0 d (s\<lparr>env := e\<rparr>)) = s\<lparr>env := e, root := x\<rparr>" for x e
    by (simp add: set_node_data_def)
  have ci: "correct_indexes io p (path_depth p) k q = (EOK, q)" for k q by (simp add: assms(5))
  have "remove_leaf io p f t s = (EOK, ?s')"
    using lp unfolding remove_leaf_def Let_def assms(3,4) open_node_def
    by (simp add: nodes st ci commit_node_def)
  moreover have mx: "?n - (i - w) \<le> unat (max_entries_count ?h)"
    using hd(1) by (auto simp: validate_header_root_iff)
  have "root_leaf b (take ?pos es @ cut_list f t (drop ?pos es)) ?s'"
    using r eq iw(3) hd n(1) assms(7) len mx
    by (simp add: root_leaf_iff mark_dirty_def validate_header_root_iff)
  ultimately show ?thesis using r(1) by (auto simp: mark_dirty_def)
qed

section \<open>Cutting at a search position\<close>

definition cut_map :: "u32 \<Rightarrow> u32 \<Rightarrow> (nat \<Rightarrow> (nat \<times> bool) option) \<Rightarrow> nat \<Rightarrow> (nat \<times> bool) option" where
  "cut_map f t m lb = (if unat f \<le> lb \<and> lb \<le> unat t then None else m lb)"

definition mapped_blocks :: "u32 \<Rightarrow> u32 \<Rightarrow> (nat \<Rightarrow> (nat \<times> bool) option) \<Rightarrow> nat set" where
  "mapped_blocks f t m = {p. \<exists>lb u. unat f \<le> lb \<and> lb \<le> unat t \<and> m lb = Some (p, u)}"

text \<open>Extents a removal handles exactly: none ends at the last block, all fit 48 bits.\<close>

definition removable :: "u64 \<Rightarrow> ext4_extent list \<Rightarrow> bool" where
  "removable fs es \<longleftrightarrow> extents_ok fs es \<and> (\<forall>e \<in> set es. e_end e < 2 ^ 32) \<and> unat fs \<le> 2 ^ 48"

lemma removable_sorted: "removable fs es \<Longrightarrow> sorted_extents es"
  by (simp add: removable_def extents_ok_def)

lemma removable_nth:
  "removable fs es \<Longrightarrow> i < length es \<Longrightarrow> extent_ok fs (es ! i) \<and> e_end (es ! i) < 2 ^ 32 \<and> 0 < e_len (es ! i)"
  by (auto simp: removable_def extents_ok_def extent_ok_def)

lemma before_found:
  assumes "removable fs es" "search_pos es (unat f) pos" "e \<in> set (take pos es)"
  shows "e_end e \<le> unat f" "e_last e < f" "first_block e < f"
proof -
  from assms(2,3) obtain i where i: "i < pos" "pos < length es" "e = es ! i"
    by (auto simp: search_pos_def in_set_conv_nth)
  then have "e_end e \<le> e_first (es ! pos)"
    using sorted_extents_nth [OF removable_sorted [OF assms(1)]] by simp
  with i assms(2) show "e_end e \<le> unat f" by (auto simp: search_pos_def)
  with removable_nth [OF assms(1), of i] i unat_e_last [of e]
  show "e_last e < f" "first_block e < f"
    by (auto simp: word_less_nat_alt e_end_def simp flip: e_first_def)
qed

lemma behind_found:
  assumes "removable fs es" "pos < length es" "e \<in> set (drop (Suc pos) es)"
  shows "e_end (es ! pos) \<le> e_first e"
proof -
  from assms(3) obtain i where "i < length es - Suc pos" "e = es ! (Suc pos + i)"
    by (auto simp: in_set_conv_nth)
  then show ?thesis using sorted_extents_nth [OF removable_sorted [OF assms(1)], of pos "Suc pos + i"] by simp
qed

text \<open>The iteration of remove_space that cuts the extent found, up to its end at most.\<close>

lemma cut_at_found:
  assumes rem: "removable fs es" and sp: "search_pos es (unat f) pos"
    and hit: "f \<le> t" "first_block (es ! pos) \<le> t" "f \<le> e_last (es ! pos)" "t \<le> e_last (es ! pos)"
    and os: "one_sided f t (es ! pos)"
  shows "take pos es @ cut_list f t (drop pos es) = cut_list f t es"
    and "cut_list f t es = take pos es @ cut_pieces f t (es ! pos) @ drop (Suc pos) es"
    and "freed_list f t (drop pos es) = freed_list f t es"
    and "\<forall>e \<in> set es. cuttable fs f t e"
proof -
  have pos: "pos < length es" using sp by (simp add: search_pos_def)
  note ok = removable_nth [OF rem pos]
  have split: "drop pos es = es ! pos # drop (Suc pos) es" using pos by (simp add: Cons_nth_drop_Suc)
  have above: "first_block e > t" if "e \<in> set (drop (Suc pos) es)" for e
    using behind_found [OF rem pos that] hit(4) unat_e_last [of "es ! pos"] ok
    by (auto simp: word_less_nat_alt word_le_nat_alt e_first_def e_end_def)
  have skip: "cut_list f t (xs @ ys) = xs @ cut_list f t ys \<and> freed_list f t (xs @ ys) = freed_list f t ys"
    if "set xs \<subseteq> set (take pos es)" for xs ys
    using that
  proof (induction xs)
    case (Cons e xs)
    then have "e \<in> set (take pos es)" by simp
    from before_found [OF rem sp this] hit(1) have "\<not> t < first_block e" "e_last e < f" by auto
    with Cons show ?case by simp
  qed simp
  have rest: "cut_list f t (drop (Suc pos) es) = drop (Suc pos) es"
    using above by (cases "drop (Suc pos) es") auto
  have c: "cut_list f t es = take pos es @ cut_list f t (drop pos es)"
    using skip [of "take pos es" "drop pos es"] by simp
  show "take pos es @ cut_list f t (drop pos es) = cut_list f t es" by (simp only: c)
  show "cut_list f t es = take pos es @ cut_pieces f t (es ! pos) @ drop (Suc pos) es"
    unfolding c split using hit rest by (simp add: not_less [symmetric])
  show "freed_list f t (drop pos es) = freed_list f t es"
    using skip [of "take pos es" "drop pos es"] by simp
  show "\<forall>e \<in> set es. cuttable fs f t e"
  proof
    fix e assume e: "e \<in> set es"
    then have fs: "extent_ok fs e" "e_end e < 2 ^ 32" "e_phys e + e_len e \<le> 2 ^ 48"
      using rem by (auto simp: removable_def extents_ok_def extent_ok_def)
    have "es = take pos es @ es ! pos # drop (Suc pos) es" using pos by (rule id_take_nth_drop)
    with e consider "e \<in> set (take pos es)" | "e = es ! pos" | "e \<in> set (drop (Suc pos) es)"
      by (metis Un_iff set_ConsD set_append)
    then have "one_sided f t e"
    proof cases
      case 1
      from before_found(2) [OF rem sp 1] hit(1) have "\<not> t < e_last e" by (simp add: not_less)
      then show ?thesis by (simp add: one_sided_def)
    next
      case 3
      from above [OF 3] hit(1) have "\<not> first_block e < f" by simp
      then show ?thesis by (simp add: one_sided_def)
    qed (use os in simp)
    with fs show "cuttable fs f t e" by (simp add: cuttable_def)
  qed
qed

section \<open>The middle of one extent\<close>

lemma store_pblock_set_len:
  "extent_store_pblock p (extent_set_actual_len n e) = extent_set_actual_len n (extent_store_pblock p e)"
  by (cases e) (simp add: extent_store_pblock_def extent_set_actual_len_def)

lemma middle_fields:
  fixes e :: ext4_extent and f t :: u32
  assumes "extent_ok fs e" "e_end e < 2 ^ 32" "unat fs \<le> 2 ^ 48"
    and "first_block e < f" "f \<le> t" "t < e_last e"
  shows "e_first (middle_prefix e f) = e_first e" "e_len (middle_prefix e f) = unat f - e_first e"
    "e_phys (middle_prefix e f) = e_phys e"
    "extent_is_unwritten (middle_prefix e f) = extent_is_unwritten e"
    "e_first (middle_suffix e t) = unat t + 1" "e_len (middle_suffix e t) = e_end e - 1 - unat t"
    "e_phys (middle_suffix e t) = e_phys e + (unat t + 1 - e_first e)"
    "extent_is_unwritten (middle_suffix e t) = extent_is_unwritten e"
    "e_first e < unat f" "unat f \<le> unat t" "unat t < e_end e - 1"
proof -
  have len: "0 < e_len e" using assms(1) by (simp add: extent_ok_def)
  have le: "e_len e \<le> 32768" using actual_len_le by (simp add: e_len_def)
  have ph: "e_phys e + e_len e \<le> 2 ^ 48" using assms(1,3) by (simp add: extent_ok_def)
  show ft: "e_first e < unat f" "unat f \<le> unat t" "unat t < e_end e - 1"
    using assms(4-6) unat_e_last [OF assms(2) len]
    by (simp_all add: word_less_nat_alt word_le_nat_alt e_first_def)
  have d: "unat (f - first_block e) = unat f - e_first e"
    using ft by (simp add: unat_sub word_le_nat_alt e_first_def)
  let ?k = "ucast (f - first_block e) :: u16"
  have k: "unat ?k = unat f - e_first e" "0 < unat ?k" "unat ?k < 32768"
    using d ft le by (simp_all add: unat_ucast16 e_end_def)
  note pw = unwritten_roundtrip [OF k(2,3), of e] initialized_roundtrip [of ?k e]
  show "e_first (middle_prefix e f) = e_first e" "e_phys (middle_prefix e f) = e_phys e"
    by (simp_all add: middle_prefix_def Let_def e_first_def e_phys_def)
  show "e_len (middle_prefix e f) = unat f - e_first e"
    "extent_is_unwritten (middle_prefix e f) = extent_is_unwritten e"
    using pw k by (simp_all add: middle_prefix_def Let_def e_len_def)
  let ?oe = "ucast (first_block e) + ucast (extent_get_actual_len e) - 1 :: u64"
  have oe: "unat ?oe = e_end e - 1"
  proof -
    have "(1 :: u64) \<le> ucast (first_block e) + ucast (extent_get_actual_len e)"
      using len by (simp add: word_le_nat_alt unat_logical_end e_end_def)
    then show ?thesis by (simp add: unat_sub unat_logical_end)
  qed
  have "unat (?oe - ucast t) = e_end e - 1 - unat t"
    using oe ft by (simp add: unat_sub word_le_nat_alt)
  moreover have "e_end e - 1 - unat t < 65536" using ft le by (simp add: e_end_def)
  ultimately have m: "unat (ucast (?oe - ucast t) :: u16) = e_end e - 1 - unat t"
    by (simp add: unsigned_ucast_eq take_bit_nat_eq_self)
  let ?m = "ucast (?oe - ucast t) :: u16"
  have m0: "0 < unat ?m" "unat ?m < 32768" using m ft le by (simp_all add: e_end_def)
  have tS: "unat (t + 1) = unat t + 1" using ft assms(2) by (simp add: unat_word_ariths)
  have off: "unat (t + 1 - first_block e) = unat t + 1 - e_first e"
    using tS ft by (simp add: unat_sub word_le_nat_alt e_first_def)
  let ?p = "extent_get_pblock e + ucast (t + 1 - first_block e)"
  have p: "unat ?p = e_phys e + (unat t + 1 - e_first e)"
    using off pblock_less [of e] unat32_less [of t]
    by (simp add: unat_word_ariths e_phys_def)
  then have "unat ?p < 2 ^ 48" using ph ft by (simp add: e_end_def)
  then have tb: "take_bit 48 ?p = ?p" by (rule take_bit_unat_id)
  let ?s = "empty_extent\<lparr>first_block := t + 1\<rparr>"
  have ms: "middle_suffix e t = (if extent_is_unwritten e
      then extent_mark_unwritten (extent_set_actual_len ?m (extent_store_pblock ?p ?s))
      else extent_set_actual_len ?m (extent_store_pblock ?p ?s))"
    by (simp add: middle_suffix_def Let_def store_pblock_set_len)
  note sw = unwritten_roundtrip [OF m0, of "extent_store_pblock ?p ?s"]
    initialized_roundtrip [of ?m "extent_store_pblock ?p ?s"]
  show "e_first (middle_suffix e t) = unat t + 1" by (simp add: ms e_first_def tS)
  show "e_phys (middle_suffix e t) = e_phys e + (unat t + 1 - e_first e)"
    using p tb by (simp add: ms e_phys_def extent_pblock_trunc)
  show "e_len (middle_suffix e t) = e_end e - 1 - unat t"
    "extent_is_unwritten (middle_suffix e t) = extent_is_unwritten e"
    using sw m m0 by (simp_all add: ms e_len_def)
qed

lemma middle_list:
  assumes rem: "removable fs es" and pos: "pos < length es"
    and hit: "first_block (es ! pos) < f" "f \<le> t" "t < e_last (es ! pos)"
  defines "es' \<equiv> take pos es @ [middle_prefix (es ! pos) f, middle_suffix (es ! pos) t] @ drop (Suc pos) es"
  shows "removable fs es'" and "ext_map es' = cut_map f t (ext_map es)"
    and "mapped_blocks f t (ext_map es)
      = {e_phys (es ! pos) + (unat f - e_first (es ! pos))..<e_phys (es ! pos) + (unat f - e_first (es ! pos)) + (unat t + 1 - unat f)}"
proof -
  let ?e = "es ! pos"
  note ok = removable_nth [OF rem pos]
  have fs: "unat fs \<le> 2 ^ 48" using rem by (simp add: removable_def)
  note m = middle_fields [OF conjunct1 [OF ok] conjunct1 [OF conjunct2 [OF ok]] fs hit]
  have split: "es = take pos es @ ?e # drop (Suc pos) es" using pos by (rule id_take_nth_drop)
  have oks: "extents_ok fs (take pos es @ ?e # drop (Suc pos) es)"
    using rem split by (simp add: removable_def)
  have small: "\<forall>e \<in> set (take pos es) \<union> set (drop (Suc pos) es). e_end e < 2 ^ 32"
    using rem by (auto simp: removable_def dest: in_set_takeD in_set_dropD)
  have pieces: "extent_ok fs (middle_prefix ?e f)" "extent_ok fs (middle_suffix ?e t)"
    "e_end (middle_prefix ?e f) = unat f" "e_end (middle_suffix ?e t) = e_end ?e"
    using m ok by (auto simp: extent_ok_def e_end_def)
  have "extents_ok fs es'"
    using oks m pieces by (auto simp: es'_def extents_ok_append extents_ok_Cons)
  with small pieces fs ok m(9-11) show "removable fs es'"
    by (auto simp: removable_def es'_def)
  have behind: "\<forall>b \<in> set (drop (Suc pos) es). e_end ?e \<le> e_first b"
    and ahead: "\<forall>a \<in> set (take pos es). e_end a \<le> e_first ?e"
    using oks by (auto simp: extents_ok_append extents_ok_Cons)
  have map_e: "ext_map es lb = (if e_first ?e \<le> lb \<and> lb < e_end ?e
      then Some (e_phys ?e + (lb - e_first ?e), extent_is_unwritten ?e)
      else ext_map (take pos es @ drop (Suc pos) es) lb)" for lb
  proof -
    have "ext_map (take pos es) lb = None" if "e_first ?e \<le> lb"
      using ahead that by (intro ext_map_above) auto
    then show ?thesis
      by (subst split) (auto simp: ext_map_append split: option.splits)
  qed
  have map_e': "ext_map es' lb = (if e_first ?e \<le> lb \<and> lb < unat f \<or> unat t < lb \<and> lb < e_end ?e
      then Some (e_phys ?e + (lb - e_first ?e), extent_is_unwritten ?e)
      else ext_map (take pos es @ drop (Suc pos) es) lb)" for lb
  proof -
    have "ext_map (take pos es) lb = None" if "e_first ?e \<le> lb"
      using ahead that by (intro ext_map_above) auto
    then show ?thesis
      using m pieces by (auto simp: es'_def ext_map_append split: option.splits)
  qed
  have gone: "ext_map (take pos es @ drop (Suc pos) es) lb = None" if "e_first ?e \<le> lb" "lb < e_end ?e" for lb
    using ahead behind that ext_map_above [of "take pos es" lb] ext_map_below [of "drop (Suc pos) es" lb]
    by (force simp: ext_map_append)
  show "ext_map es' = cut_map f t (ext_map es)"
  proof
    fix lb show "ext_map es' lb = cut_map f t (ext_map es) lb"
      unfolding map_e' cut_map_def map_e using gone [of lb] m(9-11) by auto
  qed
  have inside: "ext_map es lb = Some (e_phys ?e + (lb - e_first ?e), extent_is_unwritten ?e)"
    if "unat f \<le> lb" "lb \<le> unat t" for lb
    unfolding map_e using that m(9-11) by auto
  show "mapped_blocks f t (ext_map es)
      = {e_phys ?e + (unat f - e_first ?e)..<e_phys ?e + (unat f - e_first ?e) + (unat t + 1 - unat f)}"
  proof (rule set_eqI)
    fix q
    have "q \<in> mapped_blocks f t (ext_map es)
        \<longleftrightarrow> (\<exists>lb. unat f \<le> lb \<and> lb < unat t + 1 \<and> q = e_phys ?e + (lb - e_first ?e))"
      using inside by (auto simp: mapped_blocks_def less_Suc_eq_le)
    also have "\<dots> \<longleftrightarrow> q \<in> {e_phys ?e + (unat f - e_first ?e)..<e_phys ?e + (unat f - e_first ?e) + (unat t + 1 - unat f)}"
      using m(9) by (intro shifted_range [symmetric]) simp
    finally show "q \<in> mapped_blocks f t (ext_map es) \<longleftrightarrow>
      q \<in> {e_phys ?e + (unat f - e_first ?e)..<e_phys ?e + (unat f - e_first ?e) + (unat t + 1 - unat f)}" .
  qed
qed

lemma split_middle_bytes_effect:
  assumes "pos < unat (entries_count h)" "slot (Suc (unat (entries_count h))) \<le> length d"
  defines "n \<equiv> unat (entries_count h)"
  shows "header_load (split_middle_bytes h pos x y d) = h\<lparr>entries_count := entries_count h + 1\<rparr>"
    and "length (split_middle_bytes h pos x y d) = length d"
    and "slots extent_load (Suc n) (split_middle_bytes h pos x y d)
      = take pos (slots extent_load n d) @ [x, y] @ drop (Suc pos) (slots extent_load n d)"
proof -
  have n: "Suc pos \<le> n" "slot (Suc n) \<le> length d" using assms by simp_all
  let ?m = "mem_move (slot (Suc pos + 1)) (slot (Suc pos)) ((n - Suc pos) * 12) d"
  have "(if pos + 1 < n then mem_move (slot (pos + 2)) (slot (pos + 1)) ((n - pos - 1) * 12) d else d) = ?m"
    using n(1) by (cases "n = Suc pos") simp_all
  then have eq: "split_middle_bytes h pos x y d = header_store (h\<lparr>entries_count := entries_count h + 1\<rparr>)
      (extent_store (slot (Suc pos)) y (extent_store (slot pos) x ?m))"
    by (simp add: split_middle_bytes_def Let_def n_def)
  have lm: "length ?m = length d"
    using n by (intro ext.length_slot_move) (auto simp: slot_def)
  have sp: "slot pos + 12 \<le> length d" "slot (Suc pos) + 12 \<le> length d"
    using n by (simp_all add: slot_def)
  have com: "extent_store (slot (Suc pos)) y (extent_store (slot pos) x ?m)
      = extent_store (slot pos) x (extent_store (slot (Suc pos)) y ?m)"
    using sp lm by (intro ext.store_commute) (simp_all add: slot_Suc)
  have ls: "length (extent_store (slot (Suc pos)) y ?m) = length d"
    using sp lm by (simp only: ext.length_store)
  have ls2: "length (extent_store (slot pos) x (extent_store (slot (Suc pos)) y ?m)) = length d"
    using sp ls by (simp only: ext.length_store)
  have l12: "12 \<le> length d" using n(2) slot_ge_header [of "Suc n"] by simp
  show "header_load (split_middle_bytes h pos x y d) = h\<lparr>entries_count := entries_count h + 1\<rparr>"
    unfolding eq com using l12 ls2 by (simp add: codec_simps)
  show "length (split_middle_bytes h pos x y d) = length d"
    unfolding eq com using l12 ls2 by (simp add: mem_simps)
  have "slots extent_load (Suc n) (extent_store (slot pos) x (extent_store (slot (Suc pos)) y ?m))
      = (take (Suc pos) (slots extent_load n d) @ y # drop (Suc pos) (slots extent_load n d))[pos := x]"
    using n ls by (subst ext.slots_store) (simp_all only: ext.slots_insert)
  also have "\<dots> = take pos (slots extent_load n d) @ [x, y] @ drop (Suc pos) (slots extent_load n d)"
    using n(1) by (simp add: take_Suc_conv_app_nth list_update_append)
  finally show "slots extent_load (Suc n) (split_middle_bytes h pos x y d)
      = take pos (slots extent_load n d) @ [x, y] @ drop (Suc pos) (slots extent_load n d)"
    unfolding eq com using n(2) ls2 by (simp only: ext.slots_header_store)
qed

section \<open>The loop of remove_space\<close>

text \<open>
  \<open>range_removed io f t s s'\<close>: the tree lost exactly the blocks from \<open>f\<close> to \<open>t\<close>, and the
  allocator got back exactly the physical blocks they were mapped to.
\<close>

definition range_removed :: "'e lwext4 \<Rightarrow> u32 \<Rightarrow> u32 \<Rightarrow> 'e istate \<Rightarrow> 'e istate \<Rightarrow> bool" where
  "range_removed io f t s s' \<longleftrightarrow> tree_ok (sb io) s' \<and> root_depth s' = root_depth s \<and> bufs s' = bufs s
     \<and> tree_map s' = cut_map f t (tree_map s)
     \<and> (\<exists>rs. env s' = run_frees io rs (env s) \<and> (\<Union>r \<in> set rs. run_blocks r) = mapped_blocks f t (tree_map s))"

lemma run_frees_append: "run_frees io (xs @ ys) e = run_frees io ys (run_frees io xs e)"
  by (simp add: run_frees_def)

lemma range_removed_nothing:
  assumes "tree_ok (sb io) s" "\<And>lb. unat f \<le> lb \<Longrightarrow> lb \<le> unat t \<Longrightarrow> tree_map s lb = None"
  shows "range_removed io f t s s"
  unfolding range_removed_def using assms
  by (auto simp: cut_map_def mapped_blocks_def intro!: exI [of _ "[]"])

lemma range_removed_step:
  assumes "range_removed io f r s s1" "range_removed io g t s1 s2" "unat g = unat r + 1" "f \<le> r" "r \<le> t"
  shows "range_removed io f t s s2"
proof -
  obtain xs ys where rs: "env s1 = run_frees io xs (env s)"
    "(\<Union>r \<in> set xs. run_blocks r) = mapped_blocks f r (tree_map s)"
    "env s2 = run_frees io ys (env s1)" "(\<Union>r \<in> set ys. run_blocks r) = mapped_blocks g t (tree_map s1)"
    using assms(1,2) by (auto simp: range_removed_def)
  have m1: "tree_map s1 = cut_map f r (tree_map s)" and m2: "tree_map s2 = cut_map g t (tree_map s1)"
    using assms(1,2) by (simp_all add: range_removed_def)
  have ord: "unat f \<le> unat r" "unat r \<le> unat t" using assms(4,5) by (simp_all add: word_le_nat_alt)
  have m: "tree_map s2 = cut_map f t (tree_map s)"
    unfolding m1 m2 using ord assms(3) by (auto simp: cut_map_def fun_eq_iff)
  have "mapped_blocks f t (tree_map s) = mapped_blocks f r (tree_map s) \<union> mapped_blocks g t (tree_map s1)"
  proof -
    have "unat f \<le> lb \<and> lb \<le> unat t \<longleftrightarrow> (unat f \<le> lb \<and> lb \<le> unat r) \<or> (unat g \<le> lb \<and> lb \<le> unat t)" for lb
      using ord assms(3) by auto
    moreover have "unat g \<le> lb \<Longrightarrow> tree_map s1 lb = tree_map s lb" for lb
      using assms(3) by (simp add: m1 cut_map_def)
    ultimately show ?thesis unfolding mapped_blocks_def by (auto, metis+)
  qed
  then have "(\<Union>r \<in> set (xs @ ys). run_blocks r) = mapped_blocks f t (tree_map s)"
    unfolding set_append UN_Un rs(2,4) by simp
  moreover have "env s2 = run_frees io (xs @ ys) (env s)" by (simp only: run_frees_append rs)
  ultimately show ?thesis
    using assms(1,2) m unfolding range_removed_def by metis
qed

lemma range_removed_skip:
  assumes "range_removed io g t s s'" "unat f \<le> unat g"
    and "\<And>lb. unat f \<le> lb \<Longrightarrow> lb < unat g \<Longrightarrow> lb \<le> unat t \<Longrightarrow> tree_map s lb = None"
  shows "range_removed io f t s s'"
proof -
  have "cut_map f t (tree_map s) = cut_map g t (tree_map s)"
    using assms(2,3) by (auto simp: cut_map_def fun_eq_iff not_le)
  moreover have "(unat f \<le> lb \<and> lb \<le> unat t \<and> tree_map s lb = Some (p, u))
      \<longleftrightarrow> (unat g \<le> lb \<and> lb \<le> unat t \<and> tree_map s lb = Some (p, u))" for lb p u
    using assms(2) assms(3) [of lb] by (cases "lb < unat g") auto
  then have "mapped_blocks f t (tree_map s) = mapped_blocks g t (tree_map s)"
    unfolding mapped_blocks_def by simp
  ultimately show ?thesis using assms(1) by (simp add: range_removed_def)
qed

lemma root_leaf_removable: "root_leaf b es s \<Longrightarrow> tree_map s = ext_map es"
  by (simp add: root_leaf_def tree_map_def)

lemma end_not_reached:
  assumes "e_end e < 2 ^ 32" "0 < e_len e" "t < e_last e"
  shows "\<not> ucast t \<ge> (ucast (first_block e) + ucast (extent_get_actual_len e) - 1 :: u64)"
proof -
  have "(1 :: u64) \<le> ucast (first_block e) + ucast (extent_get_actual_len e)"
    using assms(2) by (simp add: word_le_nat_alt unat_logical_end e_end_def)
  then have "unat (ucast (first_block e) + ucast (extent_get_actual_len e) - 1 :: u64) = e_end e - 1"
    by (simp add: unat_sub unat_logical_end)
  then show ?thesis
    using assms(3) unat_e_last [OF assms(1,2)] by (simp add: word_le_nat_alt word_less_nat_alt)
qed

lemma remove_middle_root:
  assumes rl: "root_leaf (sb io) es s" and rem: "removable (sb_blocks_cnt (sb io)) es" and fr: "frees_ok io"
    and full: "\<not> h_full (header_load (root s))"
    and sp: "search_pos es (unat f) pos"
    and hit: "first_block (es ! pos) < f" "f \<le> t" "t < e_last (es ! pos)"
  shows "\<exists>s'. remove_middle_of_extent io f t s = (EOK, s') \<and> range_removed io f t s s'"
proof -
  let ?h = "header_load (root s)"
  have pos: "pos < length es" using sp by (simp add: search_pos_def)
  then have ne: "es \<noteq> []" by auto
  obtain p where f: "find_extent io f s = (Inr p, s)" and d: "path_depth p = 0"
    and pb: "pblock_of_node (leaf_of p) = 0" and hd: "header (leaf_of p) = ?h"
    and found: "search_pos es (unat f) (position (leaf_of p))" "extent (leaf_of p) = es ! position (leaf_of p)"
    using root_leaf_lookup [OF rl] ne by blast
  have pp: "position (leaf_of p) = pos"
    by (rule search_pos_unique [OF removable_sorted [OF rem]]) (use rem found sp in \<open>auto simp: removable_def extents_ok_def extent_ok_def\<close>)
  have ex: "extent (leaf_of p) = es ! pos" using found(2) pp by simp
  have p0: "header (path p ! 0) = ?h" using hd d by (simp add: leaf_of_def)
  have room: "ensure_insert_room io f s = (Inr p, s)"
    using full by (simp add: ensure_insert_room_def eval_nat_numeral f p0 first_full_level_def d)
  note ok = removable_nth [OF rem pos]
  have L: "es = leaf_list ?h (root s)" and len: "length (root s) = 60"
    and hh: "validate_header True (sb_block_size (sb io)) ?h = EOK" "depth ?h = 0"
    using rl unfolding root_leaf_iff by blast+
  have n: "unat (entries_count ?h) < unat (max_entries_count ?h)" "unat (max_entries_count ?h) \<le> 4"
    "pos < unat (entries_count ?h)"
    using full hh(1) pos root_leaf_length [OF rl] by (auto simp: validate_header_root_iff not_h_full)
  then have sl: "slot (Suc (unat (entries_count ?h))) \<le> length (root s)" using len by (simp add: slot_def)
  let ?x = "middle_prefix (es ! pos) f" and ?y = "middle_suffix (es ! pos) t"
  note e = split_middle_bytes_effect [OF n(3) sl, of ?x ?y]
  note ml = middle_list [OF rem pos hit]
  let ?es' = "take pos es @ [?x, ?y] @ drop (Suc pos) es"
  let ?s1 = "mark_dirty (s\<lparr>root := split_middle_bytes ?h pos ?x ?y (root s)\<rparr>)"
  let ?run = "(extent_get_pblock (es ! pos) + ucast (f - first_block (es ! pos)), t - f + 1)"
  let ?s2 = "?s1\<lparr>env := snd (balloc_free_blocks io (fst ?run) (snd ?run) (env s))\<rparr>"
  have nge: "\<not> ucast t \<ge> (ucast (first_block (es ! pos)) + ucast (extent_get_actual_len (es ! pos)) - 1 :: u64)"
    using hit(3) ok by (intro end_not_reached) auto
  have "remove_blocks io (es ! pos) f t ?s1 = (EOK, ?s2)"
  proof -
    obtain r e where b: "balloc_free_blocks io (fst ?run) (snd ?run) (env s) = (r, e)" by fastforce
    moreover from this have "r = EOK" using fr by (metis frees_ok_def fst_conv)
    ultimately show ?thesis
      by (simp add: remove_blocks_def Let_def ext4_balloc_free_blocks_def ext_call_def mark_dirty_def)
  qed
  then have "remove_middle_of_extent io f t s = (EOK, ?s2)"
    using full hit(1) nge
    by (simp add: remove_middle_of_extent_def room Let_def hd pb ex pp open_node_def commit_node_def
        node_data_def set_node_data_def not_le)
  moreover have "root_leaf (sb io) ?es' ?s2"
    using e n hh len ml(1) unfolding root_leaf_iff L [symmetric]
    by (simp add: mark_dirty_def validate_header_root_iff unat_Suc16 removable_def)
  then have "range_removed io f t s ?s2"
  proof -
    assume r: "root_leaf (sb io) ?es' ?s2"
    have rb: "run_blocks ?run = mapped_blocks f t (tree_map s)"
    proof -
      note m = middle_fields [OF conjunct1 [OF ok] conjunct1 [OF conjunct2 [OF ok]] _ hit]
      have "unat t < e_end (es ! pos) - 1" and le: "unat f \<le> unat t"
        using m(10,11) rem by (simp_all add: removable_def)
      moreover have "e_end (es ! pos) < 4294967296" using ok by simp
      ultimately have "Suc (unat t - unat f) < 4294967296" by linarith
      then have "unat (t - f + 1) = unat t + 1 - unat f"
        using hit(2) le by (simp add: unat_word_ariths unat_sub)
      moreover have "unat (extent_get_pblock (es ! pos) + ucast (f - first_block (es ! pos)))
          = e_phys (es ! pos) + (unat f - e_first (es ! pos))"
        using hit(1) by (intro unat_phys_off) simp
      ultimately show ?thesis
        unfolding root_leaf_removable [OF rl] ml(3) run_blocks_def fst_conv snd_conv by simp
    qed
    have "tree_map ?s2 = cut_map f t (tree_map s)"
      unfolding root_leaf_removable [OF r] root_leaf_removable [OF rl] by (rule ml(2))
    moreover have "\<exists>rs. env ?s2 = run_frees io rs (env s)
        \<and> (\<Union>r \<in> set rs. run_blocks r) = mapped_blocks f t (tree_map s)"
      using rb by (intro exI [of _ "[?run]"]) (simp add: mark_dirty_def)
    ultimately show ?thesis
      using r rl by (simp add: range_removed_def root_leaf_def mark_dirty_def)
  qed
  ultimately show ?thesis by blast
qed

lemma removable_cut:
  assumes "removable fs es" "\<forall>e \<in> set es. cuttable fs f t e"
  shows "removable fs (cut_list f t es)"
proof -
  have "e_end x < 2 ^ 32" if "x \<in> set (cut_list f t es)" for x
    using cut_list_within [OF assms(2) that] assms(1) by (force simp: removable_def)
  with assms cut_list_spec [of fs es f t] show ?thesis by (simp add: removable_def)
qed

lemma remove_leaf_step:
  assumes rl: "root_leaf (sb io) es s" and rem: "removable (sb_blocks_cnt (sb io)) es" and fr: "frees_ok io"
    and leaf: "pblock_of_node (leaf_of p) = 0" "header (leaf_of p) = header_load (root s)" "path_depth p = 0"
    and sp: "search_pos es (unat f) (position (leaf_of p))"
    and hit: "f \<le> r" "first_block (es ! position (leaf_of p)) \<le> r" "f \<le> e_last (es ! position (leaf_of p))"
      "r \<le> e_last (es ! position (leaf_of p))"
    and os: "one_sided f r (es ! position (leaf_of p))"
  shows "\<exists>s'. remove_leaf io p f r s = (EOK, s') \<and> range_removed io f r s s'
    \<and> root_leaf (sb io) (cut_list f r es) s' \<and> removable (sb_blocks_cnt (sb io)) (cut_list f r es)
    \<and> max_entries_count (header_load (root s')) = max_entries_count (header_load (root s))"
proof -
  let ?pos = "position (leaf_of p)"
  note c = cut_at_found [OF rem sp hit os]
  have ok: "extents_ok (sb_blocks_cnt (sb io)) es" using rem by (simp add: removable_def)
  note spec = cut_list_spec [OF ok c(4)]
  have pos: "?pos \<le> length es" using sp by (simp add: search_pos_def)
  obtain s' where s': "remove_leaf io p f r s = (EOK, s')" "root_leaf (sb io) (cut_list f r es) s'"
    "bufs s' = bufs s" "max_entries_count (header_load (root s')) = max_entries_count (header_load (root s))"
    "env s' = run_frees io (freed_list f r es) (env s)"
    using remove_leaf_root [OF rl fr leaf pos, of f r] conjunct1 [OF spec] unfolding c(1,3) by blast
  have "range_removed io f r s s'"
    using s' rl spec freed_list_blocks [OF ok c(4)]
    by (auto simp: range_removed_def root_leaf_def tree_map_def cut_map_def mapped_blocks_def fun_eq_iff
        intro!: exI [of _ "freed_list f r es"])
  with s' removable_cut [OF rem c(4)] show ?thesis by blast
qed

definition weight :: "u32 \<Rightarrow> ext4_extent list \<Rightarrow> nat" where
  "weight f es = 2 * length (filter (\<lambda>e. unat f < e_end e) es)
     + (if \<exists>e \<in> set es. ext_covers e (unat f) then 0 else 1)"

lemma length_filter_le_imp: "(\<And>x. x \<in> set xs \<Longrightarrow> P x \<Longrightarrow> Q x) \<Longrightarrow> length (filter P xs) \<le> length (filter Q xs)"
  by (induction xs) auto

lemma weight_skip:
  assumes "\<not> (\<exists>e \<in> set es. ext_covers e (unat f))" "\<exists>e \<in> set es. ext_covers e (unat g)" "unat f \<le> unat g"
  shows "weight g es < weight f es"
proof -
  have "length (filter (\<lambda>e. unat g < e_end e) es) \<le> length (filter (\<lambda>e. unat f < e_end e) es)"
    using assms(3) by (intro length_filter_le_imp) simp
  with assms show ?thesis by (simp add: weight_def)
qed

lemma weight_cut:
  assumes rem: "removable fs es" and sp: "search_pos es (unat f) pos"
    and hit: "first_block (es ! pos) \<le> e_last (es ! pos)" "f \<le> e_last (es ! pos)"
    and os: "one_sided f (e_last (es ! pos)) (es ! pos)" and g: "unat g = unat (e_last (es ! pos)) + 1"
  shows "weight g (cut_list f (e_last (es ! pos)) es) < weight f es"
proof -
  let ?P = "\<lambda>e. unat g < e_end e" and ?r = "e_last (es ! pos)"
  have pos: "pos < length es" using sp by (simp add: search_pos_def)
  note ok = removable_nth [OF rem pos]
  have e: "unat ?r = e_end (es ! pos) - 1" "unat g = e_end (es ! pos)"
    using unat_e_last [of "es ! pos"] ok g by (auto simp: e_end_def)
  note c = cut_at_found [OF rem sp hit(2,1) hit(2) order_refl os]
  have "cuttable fs f ?r (es ! pos)" using c(4) pos by simp
  note pc = cut_pieces_spec(3) [OF this hit]
  have fr: "unat f \<le> unat ?r" using hit(2) by (simp add: word_le_nat_alt)
  have "filter ?P (take pos es) = []"
    using before_found(1) [OF rem sp] e fr ok by (force simp: filter_empty_conv e_end_def)
  moreover have "filter ?P (cut_pieces f ?r (es ! pos)) = []"
    using pc e by (force simp: filter_empty_conv)
  ultimately have "length (filter ?P (cut_list f ?r es)) \<le> length (drop (Suc pos) es)"
    unfolding c(2) using length_filter_le [of ?P "drop (Suc pos) es"] by simp
  moreover have "Suc (length (drop (Suc pos) es)) \<le> length (filter (\<lambda>e. unat f < e_end e) es)"
  proof -
    have "unat f < e_end x" if "x \<in> set (drop pos es)" for x
    proof -
      from that have "x = es ! pos \<or> x \<in> set (drop (Suc pos) es)"
        using pos by (auto simp: Cons_nth_drop_Suc [symmetric])
      moreover have "unat f < e_end (es ! pos)" using fr e ok by (auto simp: e_end_def)
      ultimately show ?thesis
        using behind_found [OF rem pos, of x] e_first_le_end [of x] by auto
    qed
    then have "filter (\<lambda>e. unat f < e_end e) (drop pos es) = drop pos es"
      by (simp add: filter_id_conv)
    then have "length (filter (\<lambda>e. unat f < e_end e) (take pos es @ drop pos es)) \<ge> length (drop pos es)"
      unfolding filter_append by simp
    with pos show ?thesis by simp
  qed
  ultimately show ?thesis by (auto simp: weight_def)
qed

lemma cut_list_length: "length (cut_list f t es) \<le> length es"
  by (induction es) (auto simp: cut_pieces_def Let_def)

lemma gap_unmapped:
  assumes "removable fs es" "search_pos es (unat f) pos" "e_last (es ! pos) < f"
    and "unat f \<le> lb" "Suc pos < length es \<Longrightarrow> lb < e_first (es ! Suc pos)"
  shows "ext_map es lb = None"
proof -
  have pos: "pos < length es" using assms(2) by (simp add: search_pos_def)
  note ok = removable_nth [OF assms(1) pos]
  have e: "e_end (es ! pos) \<le> unat f"
    using assms(3) unat_e_last [of "es ! pos"] ok by (simp add: word_less_nat_alt)
  have "search_pos es lb pos"
    using assms(2,4,5) pos by (auto simp: search_pos_def)
  from search_pos_map [OF removable_sorted [OF assms(1)] this] e assms(4) show ?thesis by simp
qed

lemma remove_space_loop_root:
  assumes "root_leaf (sb io) es s" "removable (sb_blocks_cnt (sb io)) es" "frees_ok io"
    and "\<not> h_full (header_load (root s))" "weight f es < fuel"
  shows "\<exists>s'. remove_space_loop fuel io f t s = Some (EOK, s') \<and> range_removed io f t s s'"
  using assms(1,2,4,5)
proof (induction fuel arbitrary: f es s)
  case (Suc fuel)
  note rl = Suc.prems(1) and rem = Suc.prems(2)
  have tree: "tree_ok (sb io) s" using rl by (simp add: root_leaf_def)
  have map_s: "tree_map s = ext_map es" by (rule root_leaf_removable [OF rl])
  obtain p where fe: "find_extent io f s = (Inr p, s)" and d: "path_depth p = 0"
    and pb: "pblock_of_node (leaf_of p) = 0" and hd: "header (leaf_of p) = header_load (root s)"
    and have_ex: "have_extent (leaf_of p) = (es \<noteq> [])"
    and found: "es \<noteq> [] \<longrightarrow> search_pos es (unat f) (position (leaf_of p))
      \<and> extent (leaf_of p) = es ! position (leaf_of p)"
    using root_leaf_lookup [OF rl] by blast
  let ?pos = "position (leaf_of p)" and ?ex = "es ! position (leaf_of p)"
  show ?case
  proof (cases "f \<le> t \<and> es \<noteq> [] \<and> first_block ?ex \<le> t")
    case False
    have "tree_map s lb = None" if "unat f \<le> lb" "lb \<le> unat t" for lb
    proof (cases "es = []")
      case ne: False
      from that have "f \<le> t" by (simp add: word_le_nat_alt)
      with False ne have above: "t < first_block ?ex" by auto
      from found ne have sp: "search_pos es (unat f) ?pos" by simp
      have "?pos = 0"
        using sp above \<open>f \<le> t\<close>
        by (auto simp: search_pos_def e_first_def word_le_nat_alt word_less_nat_alt)
      have "\<forall>e \<in> set es. lb < e_first e"
      proof
        fix e assume "e \<in> set es"
        then obtain i where "i < length es" "e = es ! i" by (auto simp: in_set_conv_nth)
        then have "e_first ?ex \<le> e_first e"
          using sorted_first_le [OF removable_sorted [OF rem], of 0 i] \<open>?pos = 0\<close> by simp
        with above that show "lb < e_first e" by (simp add: e_first_def word_less_nat_alt)
      qed
      then show ?thesis unfolding map_s by (rule ext_map_below)
    qed (simp add: map_s)
    from range_removed_nothing [OF tree this] False fe found have_ex show ?thesis
      by (auto simp: Let_def hd not_le)
  next
    case True
    then have ft: "f \<le> t" and ne: "es \<noteq> []" and first: "first_block ?ex \<le> t" by simp_all
    from found ne have sp: "search_pos es (unat f) ?pos" and ex: "extent (leaf_of p) = ?ex" by simp_all
    have pos: "?pos < length es" using sp by (simp add: search_pos_def)
    note ok = removable_nth [OF rem pos]
    have n: "entries_count (header_load (root s)) \<noteq> 0" "unat (entries_count (header_load (root s))) = length es"
      using ne root_leaf_length [OF rl] by auto
    have el: "first_block ?ex + ucast (extent_get_actual_len ?ex) - 1 = e_last ?ex"
      by (simp add: e_last_def)
    have first_last: "first_block ?ex \<le> e_last ?ex"
      using unat_e_last [of ?ex] ok by (auto simp: word_le_nat_alt e_end_def e_first_def)
    have step: "remove_space_loop (Suc fuel) io f t s =
        (if first_block ?ex < f \<and> t < e_last ?ex then Some (remove_middle_of_extent io f t s)
         else if e_last ?ex < f then
           (case find_next_extent io p s of
              (Inl r, s2) \<Rightarrow> if r = ENOENT then Some (EOK, s2) else Some (r, s2)
            | (Inr next, s2) \<Rightarrow> remove_space_loop fuel io (first_block next) t s2)
         else
           let r = (if e_last ?ex < t then e_last ?ex else t) in
           case remove_leaf io p f r s of (q, s2) \<Rightarrow>
           if q \<noteq> EOK then Some (q, s2)
           else if r = 0xFFFFFFFF then Some (EOK, s2)
           else remove_space_loop fuel io (r + 1) t s2)"
      using ft first ne have_ex n(1)
      by (simp only: remove_space_loop.simps fe prod.case sum.case Let_def ex hd el if_True
          if_False leD [OF first] simp_thms)
    consider (middle) "first_block ?ex < f \<and> t < e_last ?ex"
      | (skip) "\<not> (first_block ?ex < f \<and> t < e_last ?ex)" "e_last ?ex < f"
      | (cut) "\<not> (first_block ?ex < f \<and> t < e_last ?ex)" "\<not> e_last ?ex < f" by blast
    then show ?thesis
    proof cases
      case middle
      with remove_middle_root [OF rl rem assms(3) Suc.prems(3) sp _ ft] show ?thesis
        unfolding step by auto
    next
      case skip
      note gap = gap_unmapped [OF rem sp skip(2)]
      show ?thesis
      proof (cases "?pos + 1 < length es")
        case True
        let ?next = "es ! (?pos + 1)"
        have L: "es = leaf_list (header_load (root s)) (root s)" using rl unfolding root_leaf_iff by blast
        have "find_next_extent io p s = (Inr ?next, s)"
          using True pb n by (subst L) (simp add: find_next_extent_def hd node_get_extent_def)
        then have loop: "remove_space_loop (Suc fuel) io f t s = remove_space_loop fuel io (first_block ?next) t s"
          unfolding step using skip by auto
        have fn: "unat f < unat (first_block ?next)"
          using sp True by (simp add: search_pos_def e_first_def)
        have "\<not> (\<exists>e \<in> set es. ext_covers e (unat f))"
          using gap [of "unat f"] fn by (auto simp: ext_map_None e_first_def)
        moreover have "\<exists>e \<in> set es. ext_covers e (unat (first_block ?next))"
          using True removable_nth [OF rem True]
          by (intro bexI [of _ ?next]) (auto simp: ext_covers_def e_end_def simp flip: e_first_def)
        ultimately have "weight (first_block ?next) es < weight f es"
          using fn by (intro weight_skip) simp_all
        with Suc.IH [OF rl rem Suc.prems(3), of "first_block ?next"] Suc.prems(4)
        obtain s' where s': "remove_space_loop fuel io (first_block ?next) t s = Some (EOK, s')"
          "range_removed io (first_block ?next) t s s'" by auto
        have "range_removed io f t s s'"
        proof (rule range_removed_skip [OF s'(2)])
          fix lb assume "unat f \<le> lb" "lb < unat (first_block ?next)"
          then show "tree_map s lb = None" unfolding map_s by (intro gap) (simp_all add: e_first_def)
        qed (use fn in simp)
        with s'(1) loop show ?thesis by simp
      next
        case False
        then have "find_next_extent io p s = (Inl ENOENT, s)"
          by (simp add: find_next_extent_def Let_def hd n d)
        moreover have "range_removed io f t s s"
          using False by (intro range_removed_nothing [OF tree]) (simp add: map_s gap)
        ultimately show ?thesis unfolding step using skip by auto
      qed
    next
      case cut
      define r where "r = (if e_last ?ex < t then e_last ?ex else t)"
      have r: "f \<le> r" "first_block ?ex \<le> r" "f \<le> e_last ?ex" "r \<le> e_last ?ex" "r \<le> t"
        using cut ft first first_last by (auto simp: r_def not_less)
      have os: "one_sided f r ?ex"
        using cut(1) by (auto simp: one_sided_def r_def not_less split: if_splits)
      obtain s1 where s1: "remove_leaf io p f r s = (EOK, s1)" "range_removed io f r s s1"
        "root_leaf (sb io) (cut_list f r es) s1" "removable (sb_blocks_cnt (sb io)) (cut_list f r es)"
        "max_entries_count (header_load (root s1)) = max_entries_count (header_load (root s))"
        using remove_leaf_step [OF rl rem assms(3) pb hd d sp r(1-4) os] by blast
      have "unat r < 2 ^ 32 - 1"
        using r(4) ok unat_e_last [of ?ex] by (auto simp: word_le_nat_alt)
      then have rS: "unat (r + 1) = unat r + 1" and rm: "r \<noteq> 0xFFFFFFFF"
        by (auto simp: unat_word_ariths)
      have loop: "remove_space_loop (Suc fuel) io f t s = remove_space_loop fuel io (r + 1) t s1"
        unfolding step Let_def r_def [symmetric] using cut s1(1) rm by auto
      have full1: "\<not> h_full (header_load (root s1))"
        using Suc.prems(3) root_leaf_length [OF rl] root_leaf_length [OF s1(3)] s1(5)
          cut_list_length [of f r es]
        by (simp add: not_h_full)
      have "\<exists>s'. remove_space_loop fuel io (r + 1) t s1 = Some (EOK, s') \<and> range_removed io (r + 1) t s1 s'"
      proof (cases "r = t")
        case True
        have "unat f < e_end ?ex"
          using r(3) unat_e_last [of ?ex] ok by (auto simp: word_le_nat_alt e_end_def)
        then have "filter (\<lambda>e. unat f < e_end e) es \<noteq> []"
          using nth_mem [OF pos] by (auto simp: filter_empty_conv)
        then have "0 < length (filter (\<lambda>e. unat f < e_end e) es)" by simp
        with Suc.prems(4) obtain k where "fuel = Suc k" by (cases fuel) (auto simp: weight_def)
        moreover have "\<not> r + 1 \<le> t" using True rS by (simp add: word_le_nat_alt)
        moreover have "range_removed io (r + 1) t s1 s1"
          using s1(3) rS True by (intro range_removed_nothing) (auto simp: root_leaf_def)
        ultimately show ?thesis by simp
      next
        case False
        then have rl': "r = e_last ?ex" by (auto simp: r_def split: if_splits)
        have "weight (r + 1) (cut_list f r es) < weight f es"
          unfolding rl' using rS r os by (intro weight_cut [OF rem sp first_last]) (simp_all add: rl')
        with Suc.IH [OF s1(3,4) full1, of "r + 1"] Suc.prems(4) show ?thesis by simp
      qed
      then show ?thesis
        using loop range_removed_step [OF s1(2) _ rS r(1,5)] by auto
    qed
  qed
qed simp

lemma weight_bound: "weight f es \<le> 2 * length es + 1"
  unfolding weight_def by (rule add_mono [OF mult_le_mono2 [OF length_filter_le]]) simp

end
