(* ===== verification/Extent_Examples.thy ===== *)
theory Extent_Examples
  imports Extent_Space
begin

text \<open>
  Concrete trees on which the theorems are applied: a file system with three entries per
  node block, I/O services that always answer, a tree of two leaves below the root, trees
  with the root as the only leaf, and two images that pass validation but are damaged.
\<close>

named_theorems demo_simps \<open>facts of the concrete trees\<close>

section \<open>Services\<close>

definition demo_sb :: ext4_sb where
  "demo_sb = \<lparr>sb_block_size = 36, sb_blocks_cnt = 8192, features_read_only = 0, csum_flag = 0x400,
     uuid = [], ino_index = 12, ino_generation = 0, crc32_init = 0xFFFFFFFF, crc32c = (\<lambda>c bs. c)\<rparr>"

text \<open>\<open>env\<close> counts nothing and remembers the runs freed.\<close>

definition demo_io :: "(u64 \<times> u32) list lwext4" where
  "demo_io = \<lparr>sb = demo_sb, journaling_enable = True, journal_active = (\<lambda>_. True),
     trans_block_get = (\<lambda>_ e. (EOK, e)), trans_block_get_noread = (\<lambda>_ e. (EOK, e)),
     trans_set_block_dirty = (\<lambda>_ e. (EOK, e)), block_set = (\<lambda>_ e. (EOK, e)),
     balloc_alloc_block = (\<lambda>g e. (EOK, 60, e)), balloc_free_block = (\<lambda>_ e. (EOK, e)),
     balloc_free_blocks = (\<lambda>pb n e. (EOK, e @ [(pb, n)])), inode_to_goal_block = (\<lambda>_. 100),
     inode_set_extents_flag = (\<lambda>e. e)\<rparr>"

lemma demo_io_reliable: "io_reliable demo_io" "frees_ok demo_io" "sb demo_io = demo_sb"
  by (simp_all add: io_reliable_def frees_ok_def demo_io_def)

section \<open>Two leaves below the root\<close>

definition demo_root :: bytes where
  "demo_root = [10,243, 2,0, 4,0, 1,0, 0,0,0,0,
     0,0,0,0, 50,0,0,0, 0,0, 0,0,
     100,0,0,0, 51,0,0,0, 0,0, 0,0,
     0,0,0,0, 0,0,0,0, 0,0,0,0,
     0,0,0,0, 0,0,0,0, 0,0,0,0]"

definition demo_leaf_a :: bytes where
  "demo_leaf_a = [10,243, 2,0, 2,0, 0,0, 0,0,0,0,
     0,0,0,0, 10,0, 0,0, 232,3,0,0,
     20,0,0,0, 5,0, 0,0, 208,7,0,0]"

definition demo_leaf_b :: bytes where
  "demo_leaf_b = [10,243, 1,0, 2,0, 0,0, 0,0,0,0,
     100,0,0,0, 50,0, 0,0, 184,11,0,0,
     0,0,0,0, 0,0, 0,0, 0,0,0,0]"

definition demo_tree :: "(u64 \<times> u32) list istate" where
  "demo_tree = \<lparr>root = demo_root, root_dirty = False,
     bufs = (\<lambda>_. [])(50 := demo_leaf_a, 51 := demo_leaf_b), env = []\<rparr>"

lemmas load_defs = header_load_def extent_load_def index_load_def read_le16_def read_le32_def slot_def

lemma slots_1: "slots load 1 d = [load d (slot 0)]" "slots load (Suc 0) d = [load d (slot 0)]"
  by (simp_all add: slots_def)

lemma slots_2: "slots load 2 d = [load d (slot 0), load d (slot 1)]"
  by (simp add: slots_def numeral_2_eq_2)

lemma demo_headers [demo_simps]:
  "header_load demo_root = \<lparr>magic = 0xF30A, entries_count = 2, max_entries_count = 4, depth = 1, generation = 0\<rparr>"
  "header_load demo_leaf_a = \<lparr>magic = 0xF30A, entries_count = 2, max_entries_count = 2, depth = 0, generation = 0\<rparr>"
  "header_load demo_leaf_b = \<lparr>magic = 0xF30A, entries_count = 1, max_entries_count = 2, depth = 0, generation = 0\<rparr>"
  by (simp_all add: demo_root_def demo_leaf_a_def demo_leaf_b_def load_defs)

lemma demo_entries [demo_simps]:
  "index_load demo_root (slot 0) = \<lparr>ix_first_block = 0, leaf_lo = 50, leaf_hi = 0, padding = 0\<rparr>"
  "index_load demo_root (slot (Suc 0)) = \<lparr>ix_first_block = 100, leaf_lo = 51, leaf_hi = 0, padding = 0\<rparr>"
  "extent_load demo_leaf_a (slot 0) = \<lparr>first_block = 0, block_count = 10, start_hi = 0, start_lo = 1000\<rparr>"
  "extent_load demo_leaf_a (slot (Suc 0)) = \<lparr>first_block = 20, block_count = 5, start_hi = 0, start_lo = 2000\<rparr>"
  "extent_load demo_leaf_b (slot 0) = \<lparr>first_block = 100, block_count = 50, start_hi = 0, start_lo = 3000\<rparr>"
  "read_le32 demo_leaf_a (slot 0) = 0" "read_le32 demo_leaf_b (slot 0) = 100"
  "length demo_leaf_a = 36" "length demo_leaf_b = 36" "length demo_root = 60"
  by (simp_all add: demo_root_def demo_leaf_a_def demo_leaf_b_def load_defs)

lemmas extent_fact_defs = extents_ok_def indices_ok_def index_ok_def extent_ok_def e_first_def e_end_def
  e_len_def e_phys_def extent_get_pblock_def index_get_pblock_def extent_get_actual_len_def
  extent_is_unwritten_def

lemma demo_extents: "tree_extents demo_tree =
   [\<lparr>first_block = 0, block_count = 10, start_hi = 0, start_lo = 1000\<rparr>,
    \<lparr>first_block = 20, block_count = 5, start_hi = 0, start_lo = 2000\<rparr>,
    \<lparr>first_block = 100, block_count = 50, start_hi = 0, start_lo = 3000\<rparr>]"
  by (simp add: tree_extents_def root_depth_def demo_tree_def demo_simps index_get_pblock_def slots_1 slots_2)

lemma demo_tree_ok: "tree_ok demo_sb demo_tree"
  unfolding tree_ok_def demo_extents
  by (simp add: root_ok_def root_depth_def demo_tree_def demo_simps child_ok_def slots_1 slots_2
      validate_header_root_iff validate_header_block_iff node_ok_def validate_entries_iff demo_sb_def
      verify_extent_block_checksum_def metadata_csum_enabled_def extent_fact_defs)

lemma demo_small: "\<forall>e \<in> set (tree_extents demo_tree). e_end e < 2 ^ 32"
  by (simp add: demo_extents extent_fact_defs)

section \<open>The root as the only leaf\<close>

text \<open>Blocks 0 to 9 and 20 to 24.\<close>

definition flat_root :: bytes where
  "flat_root = [10,243, 2,0, 4,0, 0,0, 0,0,0,0,
     0,0,0,0, 10,0, 0,0, 232,3,0,0,
     20,0,0,0, 5,0, 0,0, 208,7,0,0,
     0,0,0,0, 0,0,0,0, 0,0,0,0,
     0,0,0,0, 0,0,0,0, 0,0,0,0]"

definition flat_tree :: "(u64 \<times> u32) list istate" where
  "flat_tree = \<lparr>root = flat_root, root_dirty = False, bufs = (\<lambda>_. []), env = []\<rparr>"

definition flat_list :: "ext4_extent list" where
  "flat_list = [\<lparr>first_block = 0, block_count = 10, start_hi = 0, start_lo = 1000\<rparr>,
    \<lparr>first_block = 20, block_count = 5, start_hi = 0, start_lo = 2000\<rparr>]"

lemma flat_root_facts [demo_simps]:
  "header_load flat_root = \<lparr>magic = 0xF30A, entries_count = 2, max_entries_count = 4, depth = 0, generation = 0\<rparr>"
  "extent_load flat_root (slot 0) = \<lparr>first_block = 0, block_count = 10, start_hi = 0, start_lo = 1000\<rparr>"
  "extent_load flat_root (slot (Suc 0)) = \<lparr>first_block = 20, block_count = 5, start_hi = 0, start_lo = 2000\<rparr>"
  "length flat_root = 60"
  by (simp_all add: flat_root_def load_defs)

lemma flat_root_leaf: "root_leaf demo_sb flat_list flat_tree"
  by (simp add: root_leaf_iff flat_tree_def demo_simps slots_2 flat_list_def validate_header_root_iff
      demo_sb_def extent_fact_defs)

lemma flat_removable: "removable (sb_blocks_cnt demo_sb) flat_list"
  by (simp add: removable_def flat_list_def demo_sb_def extent_fact_defs)

lemma flat_not_full: "\<not> h_full (header_load (root flat_tree))"
  by (simp add: h_full_def flat_tree_def demo_simps)

text \<open>Block 4294967288 to the last block.\<close>

definition last_root :: bytes where
  "last_root = [10,243, 1,0, 4,0, 0,0, 0,0,0,0,
     248,255,255,255, 8,0, 0,0, 232,3,0,0,
     0,0,0,0, 0,0,0,0, 0,0,0,0,
     0,0,0,0, 0,0,0,0, 0,0,0,0,
     0,0,0,0, 0,0,0,0, 0,0,0,0]"

definition last_tree :: "(u64 \<times> u32) list istate" where
  "last_tree = \<lparr>root = last_root, root_dirty = False, bufs = (\<lambda>_. []), env = []\<rparr>"

lemma last_root_facts [demo_simps]:
  "header_load last_root = \<lparr>magic = 0xF30A, entries_count = 1, max_entries_count = 4, depth = 0, generation = 0\<rparr>"
  "extent_load last_root (slot 0) = \<lparr>first_block = 4294967288, block_count = 8, start_hi = 0, start_lo = 1000\<rparr>"
  "length last_root = 60"
  by (simp_all add: last_root_def load_defs)

lemma last_root_leaf: "root_leaf demo_sb
    [\<lparr>first_block = 4294967288, block_count = 8, start_hi = 0, start_lo = 1000\<rparr>] last_tree"
  by (simp add: root_leaf_iff last_tree_def demo_simps slots_1 validate_header_root_iff
      demo_sb_def extent_fact_defs)

section \<open>Damaged trees that pass validation\<close>

text \<open>
  The second leaf starts at block 5 although its key is 100: each node on its own is
  valid.
\<close>

definition bad_leaf_a :: bytes where
  "bad_leaf_a = [10,243, 1,0, 2,0, 0,0, 0,0,0,0,
     0,0,0,0, 5,0, 0,0, 232,3,0,0,
     0,0,0,0, 0,0, 0,0, 0,0,0,0]"

definition bad_leaf_b :: bytes where
  "bad_leaf_b = [10,243, 1,0, 2,0, 0,0, 0,0,0,0,
     5,0,0,0, 50,0, 0,0, 184,11,0,0,
     0,0,0,0, 0,0, 0,0, 0,0,0,0]"

definition bad_tree :: "(u64 \<times> u32) list istate" where
  "bad_tree = \<lparr>root = demo_root, root_dirty = False,
     bufs = (\<lambda>_. [])(50 := bad_leaf_a, 51 := bad_leaf_b), env = []\<rparr>"

lemma bad_leaf_facts [demo_simps]:
  "header_load bad_leaf_a = \<lparr>magic = 0xF30A, entries_count = 1, max_entries_count = 2, depth = 0, generation = 0\<rparr>"
  "header_load bad_leaf_b = \<lparr>magic = 0xF30A, entries_count = 1, max_entries_count = 2, depth = 0, generation = 0\<rparr>"
  "extent_load bad_leaf_a (slot 0) = \<lparr>first_block = 0, block_count = 5, start_hi = 0, start_lo = 1000\<rparr>"
  "extent_load bad_leaf_b (slot 0) = \<lparr>first_block = 5, block_count = 50, start_hi = 0, start_lo = 3000\<rparr>"
  by (simp_all add: bad_leaf_a_def bad_leaf_b_def load_defs)

lemma bad_node_checks:
  "validate_header False (sb_block_size demo_sb) (header_load bad_leaf_a) = EOK"
  "validate_header False (sb_block_size demo_sb) (header_load bad_leaf_b) = EOK"
  "validate_header True (sb_block_size demo_sb) (header_load demo_root) = EOK"
  "validate_entries demo_sb bad_leaf_a (header_load bad_leaf_a) = EOK"
  "validate_entries demo_sb bad_leaf_b (header_load bad_leaf_b) = EOK"
  "validate_entries demo_sb demo_root (header_load demo_root) = EOK"
  "verify_extent_block_checksum demo_sb d = EOK"
  by (simp_all add: demo_simps slots_1 slots_2 validate_header_root_iff validate_header_block_iff
      validate_entries_iff demo_sb_def verify_extent_block_checksum_def metadata_csum_enabled_def
      extent_fact_defs)

text \<open>A lookup at 20 or at 5 ends at the first leaf, and the next extent starts at 5.\<close>

lemma bad_calls [demo_simps]:
  "node_block_get demo_io pb bad_tree = (EOK, bad_tree)"
  "ext4_block_set demo_io pb bad_tree = (EOK, bad_tree)"
  "release demo_io pb bad_tree = bad_tree"
  by (simp_all add: node_block_get_def ext4_block_set_def ext_call_def demo_io_def release_def bad_tree_def)

definition bad_path :: extent_search_path where
  "bad_path = \<lparr>path_depth = 1, maxdepth = 1, path =
     [mk_index_node (header_load demo_root) (index_load demo_root (slot 0)) 0 0,
      \<lparr>header = header_load bad_leaf_a, index = empty_index, extent = extent_load bad_leaf_a (slot 0),
       have_index = False, have_extent = True, position = 0, pblock = 0, pblock_of_node = 50\<rparr>]\<rparr>"

lemma bad_find: "lb = 20 \<or> lb = 5 \<Longrightarrow> find_extent demo_io lb bad_tree = (Inr bad_path, bad_tree)"
proof -
  assume lb: "lb = 20 \<or> lb = 5"
  have bufs: "bufs bad_tree 50 = bad_leaf_a" "root bad_tree = demo_root"
    by (simp_all add: bad_tree_def)
  have pos: "binsearch_idx demo_root True (header_load demo_root) lb = Some 0"
    using lb by (auto simp: binsearch_idx_def demo_simps binsearch_idx_loop.simps Let_def)
  have ext: "binsearch_extent bad_leaf_a (header_load bad_leaf_a) lb = (extent_load bad_leaf_a (slot 0), 0)"
    by (simp add: binsearch_extent_def demo_simps binsearch_extent_loop.simps Let_def)
  have sel: "validate_selected_entry demo_sb demo_root (header_load demo_root) 0 = EOK"
    "validate_selected_entry demo_sb bad_leaf_a (header_load bad_leaf_a) 0 = EOK"
    by (auto intro!: selected_ok simp: bad_node_checks) (simp_all add: demo_simps)
  have child: "index_get_pblock (index_load demo_root (slot 0)) = 50"
    by (simp add: demo_simps index_get_pblock_def)
  have d: "unat (depth (header_load demo_root)) = Suc 0" "unat (depth (header_load bad_leaf_a)) = 0"
    "entries_count (header_load bad_leaf_a) > 0"
    by (simp_all add: demo_simps)
  have ef: "extent_get_actual_len (extent_load bad_leaf_a (slot 0)) = 5"
    "first_block (extent_load bad_leaf_a (slot 0)) = 0"
    by (simp_all add: demo_simps extent_get_actual_len_def extent_is_unwritten_def)
  have leaf: "find_leaf demo_io lb 1 (header_load bad_leaf_a) (Some 50)
      [mk_index_node (header_load demo_root) (index_load demo_root (slot 0)) 0 0] bad_tree
      = (Inr bad_path, bad_tree)"
    using lb
    by (auto simp: find_leaf_def Let_def node_data_def bufs ext demo_io_reliable sel d release_held_def
        bad_calls bad_path_def ef)
  show ?thesis
    by (simp add: find_extent_def Let_def bufs demo_io_reliable bad_node_checks d node_data_def pos sel
        child bad_calls release_held_def leaf [unfolded One_nat_def])
qed

lemma bad_next: "find_next_extent demo_io bad_path bad_tree = (Inr (extent_load bad_leaf_b (slot 0)), bad_tree)"
proof -
  have bufs: "bufs bad_tree 51 = bad_leaf_b" "root bad_tree = demo_root"
    by (simp_all add: bad_tree_def)
  have "leftmost_extent_below demo_io 51 0 bad_tree = (Inr (extent_load bad_leaf_b (slot 0)), bad_tree)"
    by (subst leftmost_extent_below.simps)
      (simp add: bad_calls bufs demo_io_reliable bad_node_checks Let_def, simp add: demo_simps)
  then show ?thesis
    by (simp add: find_next_extent_def leaf_of_def bad_path_def Let_def mk_index_node_def
        node_get_index_def bufs demo_simps index_get_pblock_def)
qed

end
