(* ===== verification/Extent_Properties.thy ===== *)
theory Extent_Properties
  imports Extent_Examples
begin

text \<open>
  The properties of the extent tree, each with a witness that applies it to one of the
  concrete trees of Extent_Examples.
\<close>

section \<open>Lookup\<close>

text \<open>C1: On a well-formed tree of any depth, with I/O that answers and no extent ending at
  the very last logical block, a lookup (ext4_extent_get_blocks without create) succeeds,
  changes nothing, and answers what the map of the tree says: the physical block and the
  longest run inside the extent, clipped to the request, or 0 and 0 for a hole and for an
  unwritten extent.\<close>

theorem get_blocks_lookup:
  assumes "io_reliable io" "tree_ok (sb io) s" "\<forall>e \<in> set (tree_extents s). e_end e < 2 ^ 32"
  shows "\<exists>pb n s'. ext4_extent_get_blocks io ib mx False s = (Inr (pb, n), s')
    \<and> lookup_answer (tree_extents s) ib mx pb n \<and> same_tree s s'"
  using get_blocks_returns [OF assms(1,2)] get_blocks_answer [OF assms(2,3)] same_tree_get_blocks
  by blast

lemma get_blocks_lookup_witness:
  "\<exists>pb n s'. ext4_extent_get_blocks demo_io 105 8 False demo_tree = (Inr (pb, n), s')
    \<and> lookup_answer (tree_extents demo_tree) 105 8 pb n \<and> same_tree demo_tree s'"
  by (rule get_blocks_lookup) (use demo_io_reliable demo_tree_ok demo_small in simp_all)

text \<open>C12: Whatever the I/O services do (including failing at any point), if a lookup in a
  well-formed tree reports success then its answer is the one of the map, for every block,
  with one exception that is stated too: a block of an extent that ends at the very last
  logical block is answered 0 and 0.\<close>

theorem get_blocks_any_io:
  assumes "tree_ok (sb io) s" "ext4_extent_get_blocks io ib mx False s = (Inr (pb, n), s')"
  shows "if \<exists>e \<in> set (tree_extents s). ext_covers e (unat ib) \<and> e_end e = 2 ^ 32
    then pb = 0 \<and> n = 0 else lookup_answer (tree_extents s) ib mx pb n"
  by (rule get_blocks_answer_any [OF assms])

lemma get_blocks_any_io_witness:
  "\<exists>pb n s'. ext4_extent_get_blocks demo_io 15 4 False demo_tree = (Inr (pb, n), s')
    \<and> lookup_answer (tree_extents demo_tree) 15 4 pb n"
proof -
  have ok: "tree_ok (sb demo_io) demo_tree" using demo_io_reliable demo_tree_ok by simp
  obtain pb n s' where r: "ext4_extent_get_blocks demo_io 15 4 False demo_tree = (Inr (pb, n), s')"
    using get_blocks_returns [OF demo_io_reliable(1) ok] by blast
  have "\<not> (\<exists>e \<in> set (tree_extents demo_tree). ext_covers e (unat (15 :: u32)) \<and> e_end e = 2 ^ 32)"
    using demo_small by force
  with get_blocks_any_io [OF ok r] r show ?thesis by (auto split: if_splits)
qed

text \<open>C24: Lookups never write: with arbitrary I/O services and on arbitrary node contents,
  find_extent, find_next_extent and get_blocks without create leave the root, every node
  buffer and the dirty flag as they were.\<close>

theorem lookups_read_only:
  "same_tree s (snd (find_extent io lb s)) \<and> same_tree s (snd (find_next_extent io p s))
    \<and> same_tree s (snd (ext4_extent_get_blocks io ib mx False s))"
  using same_tree_find_extent [of io lb s] same_tree_find_next_extent [of io p s]
    same_tree_get_blocks [of io ib mx s]
  by (metis prod.collapse)

text \<open>The binary search of a leaf stops at the last entry that starts at or before the
  logical block, or at the first entry when there is none; the search of an index node does
  the same on its keys and fails only on an empty node.\<close>

theorem searches_correct:
  assumes "entries_count h \<noteq> 0"
  shows "(case binsearch_extent data h lb of (e, pos) \<Rightarrow>
      pos < unat (entries_count h) \<and> e = extent_load data (slot pos)
      \<and> (0 < pos \<longrightarrow> first_block e \<le> lb)
      \<and> (pos + 1 < unat (entries_count h) \<longrightarrow> lb < first_block (extent_load data (slot (pos + 1)))))
    \<and> (\<exists>pos. binsearch_idx data is_root h lb = Some pos \<and> pos < unat (entries_count h)
      \<and> (0 < pos \<longrightarrow> ix_first_block (index_load data (slot pos)) \<le> lb)
      \<and> (pos + 1 < unat (entries_count h) \<longrightarrow> lb < ix_first_block (index_load data (slot (pos + 1)))))"
proof -
  obtain e pos where e: "binsearch_extent data h lb = (e, pos)" by fastforce
  obtain q where q: "binsearch_idx data is_root h lb = Some q"
    using assms by (metis binsearch_idx_None not_None_eq)
  from binsearch_extent_pos [OF assms e] binsearch_idx_pos [OF q] show ?thesis
    by (simp add: e q)
qed

lemma searches_correct_witness:
  "(\<exists>pos. binsearch_extent demo_leaf_a (header_load demo_leaf_a) 12 = (extent_load demo_leaf_a (slot pos), pos) \<and> pos < 2)
    \<and> (\<exists>pos. binsearch_idx demo_root True (header_load demo_root) 120 = Some pos \<and> pos < 2)"
  using searches_correct [of "header_load demo_leaf_a" demo_leaf_a 12 False]
    searches_correct [of "header_load demo_root" demo_root 120 True]
  by (auto simp: demo_simps split: prod.splits)

section \<open>Checks\<close>

text \<open>C19: The full check of a node accepts it exactly when its entries are well formed: a
  leaf when every extent is non-empty, ends inside the 32-bit logical space, lies inside the
  file system at a physical block other than 0, and the extents are sorted and disjoint; an
  index node when every child is a block of the file system and the keys increase.\<close>

theorem validate_entries_exact:
  "validate_entries b data h = EOK \<longleftrightarrow>
    (if depth h = 0 then extents_ok (sb_blocks_cnt b) (leaf_list h data)
     else indices_ok (sb_blocks_cnt b) (index_list h data))"
  by (rule validate_entries_iff)

text \<open>The selective check on the lookup path is the full check taken one entry at a
  time: a node passes the full check exactly when each of its entries passes the selective
  one.\<close>

theorem selective_check_exact:
  "(\<forall>pos < unat (entries_count h). validate_selected_entry b data h pos = EOK)
     \<longleftrightarrow> validate_entries b data h = EOK"
  by (rule selected_all_iff)

lemma selective_check_exact_witness:
  "validate_selected_entry demo_sb demo_leaf_a (header_load demo_leaf_a) 0 = EOK
    \<and> validate_selected_entry demo_sb demo_leaf_a (header_load demo_leaf_a) 1 = EOK"
proof -
  have "validate_entries demo_sb demo_leaf_a (header_load demo_leaf_a) = EOK"
    by (simp add: validate_entries_iff demo_simps slots_2 demo_sb_def extent_fact_defs)
  then have "\<forall>pos < unat (entries_count (header_load demo_leaf_a)).
      validate_selected_entry demo_sb demo_leaf_a (header_load demo_leaf_a) pos = EOK"
    unfolding selective_check_exact .
  then show ?thesis by (simp add: demo_simps)
qed

section \<open>Insertion\<close>

text \<open>Two extents that can_merge accepts may be replaced by the merged one: the map is
  the same, blocks, run and unwritten mark included (the first must not end at the last
  logical block).\<close>

theorem merge_keeps_map:
  assumes "can_merge a b" "0 < e_len a" "e_end a < 2 ^ 32"
  shows "ext_map (xs @ merged_extent a b # ys) = ext_map (xs @ a # b # ys)"
  by (rule ext_map_merge [OF assms])

lemma merge_keeps_map_witness:
  "ext_map [merged_extent (extent_load flat_root (slot 0)) \<lparr>first_block = 10, block_count = 5, start_hi = 0, start_lo = 1010\<rparr>]
    = ext_map [extent_load flat_root (slot 0), \<lparr>first_block = 10, block_count = 5, start_hi = 0, start_lo = 1010\<rparr>]"
  using merge_keeps_map [of "extent_load flat_root (slot 0)"
      "\<lparr>first_block = 10, block_count = 5, start_hi = 0, start_lo = 1010\<rparr>" "[]" "[]"]
  by (simp add: demo_simps can_merge_def Let_def extent_fact_defs)

text \<open>insert_extent of a new extent that collides with nothing, into a file whose root
  is its only leaf and has a free entry: it returns EOK, the tree is well formed again, and
  the map is the old one with the new blocks added, whether the extent was merged with the
  entry before it, with the entry behind it, or got an entry of its own.\<close>

theorem insert_extent_root_leaf:
  assumes "root_leaf (sb io) es s" "insertable (sb_blocks_cnt (sb io)) es x"
    and "\<not> h_full (header_load (root s))"
  shows "\<exists>s'. insert_extent io (first_block x) x s = (EOK, s') \<and> tree_ok (sb io) s'
    \<and> root_depth s' = 0 \<and> bufs s' = bufs s \<and> tree_map s' = map_insert x (tree_map s)"
  using insert_extent_root [OF assms] assms(1) by (auto simp: inserted_def root_leaf_def)

definition new_demo :: ext4_extent where
  "new_demo = \<lparr>first_block = 10, block_count = 5, start_hi = 0, start_lo = 1010\<rparr>"

lemma insert_extent_root_leaf_witness:
  "\<exists>s'. insert_extent demo_io (first_block new_demo) new_demo flat_tree = (EOK, s') \<and> tree_ok demo_sb s'
    \<and> root_depth s' = 0 \<and> bufs s' = bufs flat_tree \<and> tree_map s' = map_insert new_demo (tree_map flat_tree)"
proof -
  have "insertable (sb_blocks_cnt demo_sb) flat_list new_demo"
    by (simp add: insertable_def apart_def new_demo_def flat_list_def demo_sb_def extent_fact_defs)
  from insert_extent_root_leaf [of demo_io, unfolded demo_io_reliable, OF flat_root_leaf this flat_not_full]
  show ?thesis .
qed

text \<open>The mutual recursion of insert_extent and insert_new_extent never recurses: one
  level of the call is the whole function for any fuel, so the pair of functions is total.\<close>

theorem insert_extent_no_recursion:
  "insert_extent_fuel (Suc n) = insert_extent
    \<and> insert_extent io fblk x s = insert_extent_body (insert_extent io) io fblk x s"
  using insert_extent_fuel_enough insert_extent_unfold by blast

section \<open>Removal\<close>

text \<open>ext4_extent_remove_space on a file whose root is its only leaf (with a free entry,
  needed only when the range falls inside one extent): the loop ends within two rounds per
  extent, the result is a well-formed tree whose map is the old one without the blocks from
  \<open>f\<close> to \<open>t\<close>, and the runs handed to the allocator are exactly the physical blocks those
  logical blocks were mapped to.\<close>

theorem remove_space_root_leaf:
  assumes "root_leaf (sb io) es s" "removable (sb_blocks_cnt (sb io)) es" "frees_ok io"
    and "\<not> h_full (header_load (root s))" "require_journaled_mutation io s = EOK"
    and "2 * length es + 1 < fuel"
  shows "\<exists>s'. ext4_extent_remove_space fuel io f t s = Some (EOK, s') \<and> tree_ok (sb io) s'
    \<and> bufs s' = bufs s \<and> tree_map s' = cut_map f t (tree_map s)
    \<and> (\<exists>rs. env s' = run_frees io rs (env s) \<and> (\<Union>r \<in> set rs. run_blocks r) = mapped_blocks f t (tree_map s))"
  using remove_space_loop_root [OF assms(1-4) le_less_trans [OF weight_bound assms(6)]] assms(5)
  by (fastforce simp: ext4_extent_remove_space_def range_removed_def)

lemma remove_space_root_leaf_witness:
  "\<exists>s'. ext4_extent_remove_space 6 demo_io 5 21 flat_tree = Some (EOK, s') \<and> tree_ok demo_sb s'
    \<and> bufs s' = bufs flat_tree \<and> tree_map s' = cut_map 5 21 (tree_map flat_tree)
    \<and> (\<exists>rs. env s' = run_frees demo_io rs (env flat_tree)
         \<and> (\<Union>r \<in> set rs. run_blocks r) = mapped_blocks 5 21 (tree_map flat_tree))"
proof -
  have j: "require_journaled_mutation demo_io flat_tree = EOK"
    by (simp add: require_journaled_mutation_def demo_io_def)
  show ?thesis
    using remove_space_root_leaf [of demo_io, unfolded demo_io_reliable(3), OF flat_root_leaf flat_removable
        demo_io_reliable(2) flat_not_full j, of 6]
    by (simp add: flat_list_def)
qed

text \<open>The cut of a sorted list of extents: what remove_leaf keeps denotes the old map
  without the range and is well formed again, and the runs it frees are exactly the blocks
  the range was mapped to.\<close>

theorem cut_list_correct:
  assumes "extents_ok fs es" "\<forall>e \<in> set es. cuttable fs f t e"
  shows "extents_ok fs (cut_list f t es) \<and> ext_map (cut_list f t es) = cut_map f t (ext_map es)
    \<and> (\<Union>r \<in> set (freed_list f t es). run_blocks r) = mapped_blocks f t (ext_map es)"
  using cut_list_spec [OF assms] freed_list_blocks [OF assms]
  by (auto simp: cut_map_def mapped_blocks_def fun_eq_iff)

lemma cut_list_correct_witness:
  "extents_ok 8192 (cut_list 5 21 flat_list) \<and> ext_map (cut_list 5 21 flat_list) = cut_map 5 21 (ext_map flat_list)
    \<and> (\<Union>r \<in> set (freed_list 5 21 flat_list). run_blocks r) = mapped_blocks 5 21 (ext_map flat_list)"
  by (rule cut_list_correct)
    (simp_all add: flat_list_def cuttable_def one_sided_def e_last_def extent_fact_defs)

text \<open>C13: remove_leaf's in-place rewrite with a read and a write cursor computes that cut:
  from any start position, and with every free granted, the entries in front of the cursors
  plus the ones still to read are the specification's list, and the environment has seen
  exactly the specified frees in order.\<close>

theorem remove_leaf_loop_refines:
  assumes "frees_ok io" "w \<le> i" "i \<le> n" "slot n \<le> length (node_data pbn s)"
  shows "\<exists>i' w' d. remove_leaf_loop io pbn f t n i w (n - (i - w)) s
        = (Inr (i', w', n - (i' - w')), set_node_data pbn d (s\<lparr>env := run_frees io
             (freed_list f t (drop i (slots extent_load n (node_data pbn s)))) (env s)\<rparr>))
      \<and> w' \<le> i' \<and> i' \<le> n \<and> length d = length (node_data pbn s)
      \<and> take w' (slots extent_load n d) @ drop i' (slots extent_load n d)
        = take w (slots extent_load n (node_data pbn s))
          @ cut_list f t (drop i (slots extent_load n (node_data pbn s)))"
  by (rule remove_leaf_loop_spec [OF assms])

lemma remove_leaf_loop_refines_witness:
  "\<exists>i' w' d. remove_leaf_loop demo_io 0 5 9 2 0 0 2 flat_tree
        = (Inr (i', w', 2 - (i' - w')), set_node_data 0 d (flat_tree\<lparr>env := run_frees demo_io
             (freed_list 5 9 (slots extent_load 2 flat_root)) []\<rparr>))
      \<and> take w' (slots extent_load 2 d) @ drop i' (slots extent_load 2 d)
        = cut_list 5 9 (slots extent_load 2 flat_root)"
proof -
  have n: "node_data 0 flat_tree = flat_root" "env flat_tree = []"
    by (simp_all add: node_data_def flat_tree_def)
  have sl: "slot 2 \<le> length (node_data 0 flat_tree)" by (simp add: n demo_simps slot_def)
  from remove_leaf_loop_refines [OF demo_io_reliable(2) order_refl _ sl, of 0 5 9]
  show ?thesis unfolding n by fastforce
qed

section \<open>Journal, checksum, codecs\<close>

text \<open>Without an active transaction nothing is changed: remove_space returns ENOTSUP at
  once, and get_blocks with create either answers from the existing map or fails, leaving
  the tree and the dirty flag as they were.\<close>

theorem no_journal_no_change:
  assumes "\<And>t. require_journaled_mutation io t = ENOTSUP"
  shows "ext4_extent_remove_space fuel io f t s = Some (ENOTSUP, s)
    \<and> same_tree s (snd (ext4_extent_get_blocks io ib mx create s))"
proof -
  have "same_tree s s'" if "ext4_extent_get_blocks io ib mx create s = (r, s')" for r s'
    using that assms
    by (auto simp: ext4_extent_get_blocks_def Let_def split: prod.splits sum.splits if_splits
        intro: same_tree_find_extent)
  then show ?thesis using assms by (simp add: ext4_extent_remove_space_def) (metis prod.collapse)
qed

lemma no_journal_no_change_witness:
  "ext4_extent_remove_space 3 (demo_io\<lparr>journaling_enable := False\<rparr>) 0 9 flat_tree = Some (ENOTSUP, flat_tree)
    \<and> same_tree flat_tree (snd (ext4_extent_get_blocks (demo_io\<lparr>journaling_enable := False\<rparr>) 12 4 True flat_tree))"
  by (rule no_journal_no_change) (simp add: require_journaled_mutation_def)

text \<open>C39: The checksum written by set_extent_block_checksum is the one
  verify_extent_block_checksum accepts, for any CRC function; header and entries of the node
  are untouched, so sealing a node never changes the mapping.\<close>

theorem checksum_seal:
  assumes "set_extent_block_checksum b data False = (EOK, d)" "length data = unat (sb_block_size b)"
  shows "verify_extent_block_checksum b d = EOK \<and> length d = length data \<and> header_load d = header_load data
    \<and> (n \<le> unat (max_entries_count (header_load data)) \<and> slot n \<le> length data \<longrightarrow>
       slots extent_load n d = slots extent_load n data \<and> slots index_load n d = slots index_load n data)"
  using set_checksum_sealed [OF assms] by blast

definition csum_sb :: ext4_sb where
  "csum_sb = demo_sb\<lparr>sb_block_size := 40, features_read_only := 0x400,
     crc32c := (\<lambda>c bs. c + of_nat (length bs))\<rparr>"

lemma checksum_seal_witness:
  "verify_extent_block_checksum csum_sb
     (snd (set_extent_block_checksum csum_sb (demo_leaf_a @ [0, 0, 0, 0]) False)) = EOK"
proof -
  have "header_load (demo_leaf_a @ [0, 0, 0, 0]) = \<lparr>magic = 0xF30A, entries_count = 2, max_entries_count = 2, depth = 0, generation = 0\<rparr>"
    by (simp add: demo_leaf_a_def load_defs)
  then have "set_extent_block_checksum csum_sb (demo_leaf_a @ [0, 0, 0, 0]) False
      = (EOK, snd (set_extent_block_checksum csum_sb (demo_leaf_a @ [0, 0, 0, 0]) False))"
    by (simp add: set_extent_block_checksum_def csum_sb_def demo_sb_def metadata_csum_enabled_def
        tail_offset_of_def)
  from checksum_seal [OF this] show ?thesis by (simp add: demo_simps csum_sb_def demo_sb_def)
qed

text \<open>The checksum tail always has room: in every node whose header passes the check, on
  every power-of-two block size from 1024 up, the four bytes behind the last possible entry
  lie inside the block.\<close>

theorem checksum_tail_fits:
  assumes "validate_header False bs h = EOK" "unat bs = 2 ^ k" "10 \<le> k"
  shows "tail_offset_of h + 4 \<le> unat bs"
  by (rule tail_fits_power2 [OF assms])

lemma checksum_tail_fits_witness:
  "tail_offset_of \<lparr>magic = 0xF30A, entries_count = 0, max_entries_count = 340, depth = 1, generation = 0\<rparr> + 4 \<le> 4096"
  using checksum_tail_fits [of 4096 "\<lparr>magic = 0xF30A, entries_count = 0, max_entries_count = 340, depth = 1, generation = 0\<rparr>" 12]
  by (simp add: validate_header_block_iff unat_div)

text \<open>The loads invert the stores: a header, an extent or an index entry written to a
  node is read back field by field, and a store to one slot leaves every other slot alone.\<close>

theorem codec_roundtrip:
  assumes "off + 12 \<le> length d" "12 \<le> length d"
  shows "header_load (header_store h d) = h \<and> extent_load (extent_store off e d) off = e
    \<and> index_load (index_store off x d) off = x
    \<and> (a + 12 \<le> length d \<and> (a + 12 \<le> off \<or> off + 12 \<le> a) \<longrightarrow>
        extent_load (extent_store off e d) a = extent_load d a
        \<and> index_load (index_store off x d) a = index_load d a)"
  using assms by (simp add: codec_simps ext.load_store_other idx.load_store_other)

lemma codec_roundtrip_witness:
  "extent_load (extent_store (slot 1) new_demo demo_leaf_a) (slot 1) = new_demo"
  using codec_roundtrip [of "slot 1" demo_leaf_a] by (simp add: demo_simps slot_def)

text \<open>A physical block number survives the split into a 16-bit and a 32-bit field up to
  48 bits, in extents and in index entries, and a length survives together with the
  unwritten mark for 1 to 32767 blocks, without the mark for up to 32768.\<close>

theorem field_roundtrips:
  assumes "unat n \<le> 32768"
  shows "extent_get_pblock (extent_store_pblock p e) = take_bit 48 p
    \<and> index_get_pblock (index_store_pblock p x) = take_bit 48 p
    \<and> extent_get_actual_len (extent_set_actual_len n e) = n
    \<and> \<not> extent_is_unwritten (extent_set_actual_len n e)
    \<and> (0 < n \<and> n < 32768 \<longrightarrow> extent_is_unwritten (extent_mark_unwritten (extent_set_actual_len n e))
         \<and> extent_get_actual_len (extent_mark_unwritten (extent_set_actual_len n e)) = n)"
  using assms initialized_roundtrip [of n e] unwritten_roundtrip [of n e]
  by (auto simp: extent_pblock_trunc index_pblock_trunc word_less_nat_alt)

lemma field_roundtrips_witness:
  "extent_get_actual_len (extent_mark_unwritten (extent_set_actual_len 7 new_demo)) = 7"
  using field_roundtrips [of 7] by simp

section \<open>Where the code does not do what it means to\<close>

text \<open>C32: An extent that ends at the very last logical block passes every check, yet its
  blocks read as a hole: the end computed in 32 bits wraps to 0, so a lookup there answers 0
  although the map has the block.\<close>

theorem last_block_reads_as_hole:
  assumes "io_reliable io" "tree_ok (sb io) s" "e \<in> set (tree_extents s)" "e_end e = 2 ^ 32"
    and "ext_covers e (unat ib)"
  shows "tree_map s (unat ib) = Some (e_phys e + (unat ib - e_first e), extent_is_unwritten e)
    \<and> (\<exists>s'. ext4_extent_get_blocks io ib mx False s = (Inr (0, 0), s'))"
proof -
  have srt: "sorted_extents (tree_extents s)" using assms(2) by (simp add: tree_ok_def extents_ok_def)
  obtain p s' where f: "find_extent io ib s = (Inr p, s')"
    using find_extent_returns [OF assms(1,2)] by blast
  note d = find_extent_decides [OF assms(2) f]
  have map_s: "tree_map s (unat ib) = Some (e_phys e + (unat ib - e_first e), extent_is_unwritten e)"
    unfolding tree_map_def by (rule ext_map_member [OF srt assms(3,5)])
  have "\<not> ib < first_block (extent (leaf_of p)) + ucast (extent_get_actual_len (extent (leaf_of p)))"
    if "have_extent (leaf_of p)"
  proof -
    have "extent (leaf_of p) \<in> set (tree_extents s)" "ext_covers (extent (leaf_of p)) (unat ib)"
      using d(3) [OF that] map_s by (auto simp: ext_covers_def split: if_splits)
    then have "extent (leaf_of p) = e" by (rule covers_unique [OF srt _ assms(3) _ assms(5)])
    then have "unat (first_block (extent (leaf_of p)) + ucast (extent_get_actual_len (extent (leaf_of p)))) = 0"
      using assms(4) by (simp add: unat_word_ariths e_end_def e_first_def e_len_def)
    then show ?thesis by (simp add: word_less_nat_alt)
  qed
  then have "ext4_extent_get_blocks io ib mx False s = (Inr (0, 0), s')"
    using f by (auto simp: ext4_extent_get_blocks_def Let_def)
  with map_s show ?thesis by blast
qed

lemma last_block_reads_as_hole_witness:
  "tree_map last_tree 4294967290 = Some (1002, False)
    \<and> (\<exists>s'. ext4_extent_get_blocks demo_io 4294967290 1 False last_tree = (Inr (0, 0), s'))"
proof -
  have t: "tree_ok demo_sb last_tree"
    "tree_extents last_tree = [\<lparr>first_block = 4294967288, block_count = 8, start_hi = 0, start_lo = 1000\<rparr>]"
    using last_root_leaf by (simp_all add: root_leaf_def)
  from last_block_reads_as_hole [of demo_io last_tree "\<lparr>first_block = 4294967288, block_count = 8, start_hi = 0, start_lo = 1000\<rparr>" 4294967290]
  show ?thesis using t demo_io_reliable by (simp add: extent_fact_defs ext_covers_def)
qed

text \<open>Merging in an external leaf whose header allows at most four entries (the header
  check accepts it) reports success and writes nothing: the new blocks are lost.\<close>

theorem merge_in_small_leaf_lost:
  assumes "unat (max_entries_count (header (leaf_of p))) \<le> 4" "pblock_of_node (leaf_of p) \<noteq> 0"
  shows "store_merged io p l r i s = (EOK, s)"
  using assms by (simp add: store_merged_def merge_extent_def)

lemma merge_in_small_leaf_lost_witness:
  "store_merged demo_io bad_path (extent_load bad_leaf_a (slot 0)) new_demo 0 bad_tree = (EOK, bad_tree)"
  by (rule merge_in_small_leaf_lost) (simp_all add: bad_path_def leaf_of_def demo_simps)

text \<open>The first extent inserted into an empty external leaf (again accepted by the
  checks) is written to the second slot while the count becomes 1, so the leaf then maps
  whatever bytes the first slot held.\<close>

theorem empty_leaf_insert_misplaced:
  assumes "unat (entries_count h) = 0" "slot 2 \<le> length data" "\<not> have_extent n" "position n = 0"
  shows "leaf_list (header_load (insert_extent_bytes h (new_extent_pos n x) x data))
      (insert_extent_bytes h (new_extent_pos n x) x data) = [extent_load data (slot 0)]"
proof -
  have l: "slot 1 + 12 \<le> length data" "slot 0 + 12 \<le> length data" "12 \<le> length data"
    using assms(2) by (simp_all add: slot_def)
  have e0: "entries_count h = 0" using assms(1) by (simp add: unat_eq_zero)
  have "insert_extent_bytes h (new_extent_pos n x) x data
      = header_store (h\<lparr>entries_count := 1\<rparr>) (extent_store (slot 1) x data)"
    using assms(3,4) e0 by (simp add: insert_extent_bytes_def new_extent_pos_def)
  moreover have "extent_load (extent_store (slot 1) x data) (slot 0) = extent_load data (slot 0)"
    using l by (intro ext.load_store_other) (simp_all add: slot_def)
  moreover have "slots extent_load 1 (header_store (h\<lparr>entries_count := 1\<rparr>) (extent_store (slot 1) x data))
      = slots extent_load 1 (extent_store (slot 1) x data)"
    using l by (intro ext.slots_header_store) (simp only: ext.length_store)
  ultimately show ?thesis
    using l by (simp add: codec_simps ext.length_store slots_1)
qed

lemma empty_leaf_insert_misplaced_witness:
  "leaf_list (header_load (insert_extent_bytes ((header_load demo_leaf_b)\<lparr>entries_count := 0\<rparr>)
        (new_extent_pos ((leaf_of bad_path)\<lparr>have_extent := False\<rparr>) new_demo) new_demo demo_leaf_b))
      (insert_extent_bytes ((header_load demo_leaf_b)\<lparr>entries_count := 0\<rparr>)
        (new_extent_pos ((leaf_of bad_path)\<lparr>have_extent := False\<rparr>) new_demo) new_demo demo_leaf_b)
    = [extent_load demo_leaf_b (slot 0)]"
  by (rule empty_leaf_insert_misplaced) (simp_all add: demo_simps slot_def bad_path_def leaf_of_def)

text \<open>C31: The comment in remove_space says the start block strictly progresses.  On a tree
  whose nodes all pass the checks but whose second leaf starts below its key, it does not:
  the loop never ends, whatever the fuel.\<close>

theorem remove_space_may_hang:
  "ext4_extent_remove_space fuel demo_io 20 200 bad_tree = None"
proof -
  have leaf: "leaf_of bad_path = \<lparr>header = header_load bad_leaf_a, index = empty_index,
      extent = extent_load bad_leaf_a (slot 0), have_index = False, have_extent = True,
      position = 0, pblock = 0, pblock_of_node = 50\<rparr>"
    by (simp add: bad_path_def leaf_of_def)
  have step: "remove_space_loop (Suc n) demo_io lb 200 bad_tree = remove_space_loop n demo_io 5 200 bad_tree"
    if "lb = 20 \<or> lb = 5" for n lb
    using that
    by (auto simp: bad_find bad_next leaf demo_simps extent_get_actual_len_def extent_is_unwritten_def)
  have "remove_space_loop n demo_io lb 200 bad_tree = None" if "lb = 20 \<or> lb = 5" for n lb
    using that
  proof (induction n arbitrary: lb)
    case (Suc n)
    from Suc.IH [of 5] show ?case unfolding step [OF Suc.prems] by simp
  qed simp
  then show ?thesis
    by (simp add: ext4_extent_remove_space_def require_journaled_mutation_def demo_io_def)
qed

end
