(* ===== verification/Extent_Path.thy ===== *)
theory Extent_Path
  imports Extent_Update
begin

text \<open>
  Trees of any depth under change.  All nodes of a state are one store \<open>nodes s\<close>, a function
  from block numbers to bytes in which 0 names the inode root.  \<open>exts\<close>, \<open>blks\<close> and \<open>sub\<close> are the
  extents, the blocks and the well-formedness of the subtree at a block; \<open>path_at\<close> says that a
  list of path nodes leads from one node to another.  The central lemma replaces the subtree
  at the end of a path: everything beside the path stays what it was.
\<close>

section \<open>The store and its subtrees\<close>

definition nodes :: "'e istate \<Rightarrow> u64 \<Rightarrow> bytes" where
  "nodes s = (\<lambda>pb. node_data pb s)"

definition kids :: "bytes \<Rightarrow> ext4_extent_index list" where
  "kids data = index_list (header_load data) data"

definition leaves :: "bytes \<Rightarrow> ext4_extent list" where
  "leaves data = leaf_list (header_load data) data"

lemma length_kids: "length (kids data) = unat (entries_count (header_load data))"
  by (simp add: kids_def)

lemma length_leaves: "length (leaves data) = unat (entries_count (header_load data))"
  by (simp add: leaves_def)

abbreviation first_key :: "bytes \<Rightarrow> u32" where
  "first_key data \<equiv> read_le32 data (slot 0)"

primrec exts :: "(u64 \<Rightarrow> bytes) \<Rightarrow> nat \<Rightarrow> u64 \<Rightarrow> ext4_extent list" where
  "exts N 0 pb = leaves (N pb)"
| "exts N (Suc d) pb = concat (map (\<lambda>x. exts N d (index_get_pblock x)) (kids (N pb)))"

primrec blks :: "(u64 \<Rightarrow> bytes) \<Rightarrow> nat \<Rightarrow> u64 \<Rightarrow> u64 list" where
  "blks N 0 pb = [pb]"
| "blks N (Suc d) pb = pb # concat (map (\<lambda>x. blks N d (index_get_pblock x)) (kids (N pb)))"

text \<open>
  The form of a node at distance \<open>d\<close> from the leaves, apart from its checksum.  Blocks hold
  more than the four entries of a root, as ext4 formats them.
\<close>

definition node_form :: "ext4_sb \<Rightarrow> u64 \<Rightarrow> nat \<Rightarrow> bytes \<Rightarrow> bool" where
  "node_form b pb d data \<longleftrightarrow>
     (if pb = 0 then root_ok b data
      else length data = unat (sb_block_size b)
        \<and> validate_header False (sb_block_size b) (header_load data) = EOK
        \<and> entries_count (header_load data) \<noteq> 0
        \<and> validate_entries b data (header_load data) = EOK
        \<and> 4 < unat (max_entries_count (header_load data)))
     \<and> unat (depth (header_load data)) = d"

definition node_valid :: "ext4_sb \<Rightarrow> u64 \<Rightarrow> nat \<Rightarrow> bytes \<Rightarrow> bool" where
  "node_valid b pb d data \<longleftrightarrow> node_form b pb d data
     \<and> (pb \<noteq> 0 \<longrightarrow> verify_extent_block_checksum b data = EOK)"

primrec sub :: "ext4_sb \<Rightarrow> (u64 \<Rightarrow> bytes) \<Rightarrow> nat \<Rightarrow> u64 \<Rightarrow> bool" where
  "sub b N 0 pb = node_valid b pb 0 (N pb)"
| "sub b N (Suc d) pb = (node_valid b pb (Suc d) (N pb)
     \<and> (\<forall>x \<in> set (kids (N pb)). ix_first_block x = first_key (N (index_get_pblock x))
          \<and> sub b N d (index_get_pblock x)))"

lemma sub_node: "sub b N d pb \<Longrightarrow> node_valid b pb d (N pb)"
  by (cases d) simp_all

lemma node_valid_kids:
  assumes "node_valid b pb (Suc d) data"
  shows "indices_ok (sb_blocks_cnt b) (kids data)" "kids data \<noteq> []"
    and "x \<in> set (kids data) \<Longrightarrow> index_get_pblock x \<noteq> 0"
proof -
  have d: "depth (header_load data) \<noteq> 0"
    using assms by (auto simp: node_valid_def node_form_def)
  have n: "entries_count (header_load data) \<noteq> 0"
    using assms d by (auto simp: node_valid_def node_form_def root_ok_def split: if_splits)
  show i: "indices_ok (sb_blocks_cnt b) (kids data)"
    using assms d
    by (auto simp: kids_def node_valid_def node_form_def root_ok_def validate_entries_iff split: if_splits)
  show "kids data \<noteq> []"
    using n by (simp add: unat_gt_0 length_kids flip: length_greater_0_conv)
  show "x \<in> set (kids data) \<Longrightarrow> index_get_pblock x \<noteq> 0"
    using i by (rule indices_ok_child)
qed

lemma node_valid_leaves:
  assumes "node_valid b pb 0 data"
  shows "extents_ok (sb_blocks_cnt b) (leaves data)" "pb \<noteq> 0 \<Longrightarrow> leaves data \<noteq> []"
  using assms
  by (auto simp: leaves_def node_valid_def node_form_def root_ok_def validate_entries_iff unat_eq_zero
      simp flip: length_0_conv split: if_splits)

lemma sub_child:
  assumes "sub b N (Suc d) pb" "x \<in> set (kids (N pb))"
  shows "index_get_pblock x \<noteq> 0" "sub b N d (index_get_pblock x)"
    "ix_first_block x = first_key (N (index_get_pblock x))"
  using assms node_valid_kids(3) [of b pb d "N pb" x] by auto

section \<open>Agreement with the single-state definitions\<close>

lemma sub_subtree_ok: "sub b (nodes s) d pb \<Longrightarrow> pb \<noteq> 0 \<Longrightarrow> subtree_ok b (bufs s) d (bufs s pb)"
proof (induction d arbitrary: pb)
  case 0
  then show ?case by (simp add: nodes_def node_data_def node_valid_def node_form_def node_ok_def)
next
  case (Suc d)
  have N: "nodes s pb = bufs s pb" using Suc.prems(2) by (simp add: nodes_def node_data_def)
  have v: "node_ok b (Suc d) (bufs s pb)"
    using Suc.prems sub_node [OF Suc.prems(1)]
    by (simp add: N node_valid_def node_form_def node_ok_def)
  have "child_ok (bufs s) x \<and> subtree_ok b (bufs s) d (bufs s (index_get_pblock x))"
    if "x \<in> set (kids (bufs s pb))" for x
    using sub_child [OF Suc.prems(1), of x] Suc.IH [of "index_get_pblock x"] that Suc.prems(2)
    by (simp add: child_ok_def nodes_def node_data_def)
  with v show ?case by (simp add: kids_def)
qed

lemma exts_extents_of: "sub b (nodes s) d pb \<Longrightarrow> extents_of (bufs s) d (nodes s pb) = exts (nodes s) d pb"
proof (induction d arbitrary: pb)
  case (Suc d)
  have "extents_of (bufs s) d (bufs s (index_get_pblock x)) = exts (nodes s) d (index_get_pblock x)"
    if "x \<in> set (kids (nodes s pb))" for x
    using sub_child [OF Suc.prems that] Suc.IH [of "index_get_pblock x"]
    by (simp add: nodes_def node_data_def)
  then show ?case by (simp add: kids_def cong: map_cong)
qed (simp add: leaves_def)

lemma sub_tree_ok:
  assumes "sub b (nodes s) (root_depth s) 0" "extents_ok (sb_blocks_cnt b) (exts (nodes s) (root_depth s) 0)"
  shows "tree_ok b s" "tree_extents s = exts (nodes s) (root_depth s) 0"
proof -
  have N: "nodes s 0 = root s" by (simp add: nodes_def node_data_def)
  show e: "tree_extents s = exts (nodes s) (root_depth s) 0"
    using exts_extents_of [OF assms(1)] by (simp add: tree_extents_def N)
  have r: "root_ok b (root s)"
    using sub_node [OF assms(1)] by (simp add: N node_valid_def node_form_def)
  have "child_ok (bufs s) x \<and> subtree_ok b (bufs s) (root_depth s - 1) (bufs s (index_get_pblock x))"
    if x: "x \<in> set (kids (root s))" and "root_depth s \<noteq> 0" for x
  proof -
    from that obtain d where d: "root_depth s = Suc d" by (cases "root_depth s") auto
    note c = sub_child [OF assms(1) [unfolded d], of x, unfolded N, OF x]
    from c sub_subtree_ok [OF c(2,1)] d show ?thesis
      by (simp add: child_ok_def nodes_def node_data_def)
  qed
  with r assms(2) e show "tree_ok b s" by (simp add: tree_ok_def kids_def)
qed

section \<open>The first key of a subtree\<close>

lemma sub_first:
  assumes "sub b N d pb" "pb \<noteq> 0 \<or> d \<noteq> 0"
  shows "exts N d pb \<noteq> [] \<and> first_block (hd (exts N d pb)) = first_key (N pb)"
  using assms
proof (induction d arbitrary: pb)
  case 0
  then have "leaves (N pb) \<noteq> []" by (intro node_valid_leaves(2)) simp_all
  then show ?case by (simp add: leaves_def slots_hd codec_simps flip: length_greater_0_conv)
next
  case (Suc d)
  have ne: "kids (N pb) \<noteq> []" using sub_node [OF Suc.prems(1)] by (rule node_valid_kids(2))
  then obtain x xs where xs: "kids (N pb) = x # xs" by (cases "kids (N pb)") auto
  have "hd (kids (N pb)) = index_load (N pb) (slot 0)"
    using ne unfolding kids_def by (intro slots_hd) (simp flip: length_greater_0_conv)
  then have x: "x = index_load (N pb) (slot 0)" by (simp add: xs)
  have c: "sub b N d (index_get_pblock x)" "index_get_pblock x \<noteq> 0"
    "ix_first_block x = first_key (N (index_get_pblock x))"
    using sub_child [OF Suc.prems(1), of x] by (simp_all add: xs)
  from Suc.IH [OF c(1)] c show ?case by (simp add: xs x codec_simps)
qed

section \<open>Stores that agree on a subtree\<close>

lemma blks_self [simp]: "pb \<in> set (blks N d pb)"
  by (cases d) simp_all

lemma blks_kid: "x \<in> set (kids (N pb)) \<Longrightarrow> q \<in> set (blks N d (index_get_pblock x)) \<Longrightarrow> q \<in> set (blks N (Suc d) pb)"
  by auto

lemma agree:
  assumes "\<forall>q \<in> set (blks N d pb). N' q = N q"
  shows "exts N' d pb = exts N d pb \<and> blks N' d pb = blks N d pb \<and> sub b N' d pb = sub b N d pb"
  using assms
proof (induction d arbitrary: pb)
  case (Suc d)
  have pb: "N' pb = N pb" using Suc.prems by simp
  have "\<forall>q \<in> set (blks N d (index_get_pblock x)). N' q = N q" if "x \<in> set (kids (N pb))" for x
    using that Suc.prems blks_kid [of x N pb _ d] by blast
  then have IH: "exts N' d (index_get_pblock x) = exts N d (index_get_pblock x)"
    "blks N' d (index_get_pblock x) = blks N d (index_get_pblock x)"
    "sub b N' d (index_get_pblock x) = sub b N d (index_get_pblock x)"
    "N' (index_get_pblock x) = N (index_get_pblock x)"
    if "x \<in> set (kids (N pb))" for x
    using that Suc.IH by (blast, blast, blast, blast intro: blks_self)
  then show ?case by (simp add: pb cong: map_cong)
qed simp

section \<open>Paths\<close>

text \<open>\<open>ns\<close> are the index nodes on the way from \<open>pb\<close>, at distance \<open>d\<close> from the leaves, to \<open>pb'\<close>.\<close>

fun path_at :: "(u64 \<Rightarrow> bytes) \<Rightarrow> nat \<Rightarrow> u64 \<Rightarrow> extent_path_node list \<Rightarrow> nat \<Rightarrow> u64 \<Rightarrow> bool" where
  "path_at N d pb [] d' pb' \<longleftrightarrow> d' = d \<and> pb' = pb"
| "path_at N d pb (n # ns) d' pb' \<longleftrightarrow> d \<noteq> 0 \<and> pblock_of_node n = pb \<and> header n = header_load (N pb)
     \<and> position n < length (kids (N pb)) \<and> index n = kids (N pb) ! position n
     \<and> path_at N (d - 1) (index_get_pblock (index n)) ns d' pb'"

text \<open>The extents to the left and to the right of the path.\<close>

fun before :: "(u64 \<Rightarrow> bytes) \<Rightarrow> nat \<Rightarrow> u64 \<Rightarrow> extent_path_node list \<Rightarrow> ext4_extent list" where
  "before N d pb [] = []"
| "before N d pb (n # ns) =
     concat (map (\<lambda>x. exts N (d - 1) (index_get_pblock x)) (take (position n) (kids (N pb))))
     @ before N (d - 1) (index_get_pblock (index n)) ns"

fun after :: "(u64 \<Rightarrow> bytes) \<Rightarrow> nat \<Rightarrow> u64 \<Rightarrow> extent_path_node list \<Rightarrow> ext4_extent list" where
  "after N d pb [] = []"
| "after N d pb (n # ns) = after N (d - 1) (index_get_pblock (index n)) ns
     @ concat (map (\<lambda>x. exts N (d - 1) (index_get_pblock x)) (drop (Suc (position n)) (kids (N pb))))"

lemma path_at_length: "path_at N d pb ns d' pb' \<Longrightarrow> d = length ns + d'"
proof (induction ns arbitrary: d pb)
  case (Cons n ns)
  then have "d - 1 = length ns + d'" "d \<noteq> 0" by auto
  then show ?case by simp
qed simp

lemma path_at_append:
  "path_at N d pb (ns @ ms) d' pb' \<longleftrightarrow> (\<exists>d1 p1. path_at N d pb ns d1 p1 \<and> path_at N d1 p1 ms d' pb')"
  by (induction ns arbitrary: d pb) auto

lemma path_at_snoc:
  "path_at N d pb (ns @ [n]) d' pb' \<longleftrightarrow> path_at N d pb ns (Suc d') (pblock_of_node n)
     \<and> header n = header_load (N (pblock_of_node n)) \<and> position n < length (kids (N (pblock_of_node n)))
     \<and> index n = kids (N (pblock_of_node n)) ! position n \<and> pb' = index_get_pblock (index n)"
  unfolding path_at_append by (auto simp: path_at_length gr0_conv_Suc)

lemma path_sub: "path_at N d pb ns d' pb' \<Longrightarrow> sub b N d pb \<Longrightarrow> sub b N d' pb'"
proof (induction ns arbitrary: d pb)
  case (Cons n ns)
  then obtain d1 where d: "d = Suc d1" by (cases d) auto
  have "index n \<in> set (kids (N pb))" using Cons.prems(1) nth_mem by fastforce
  with Cons.prems(2) have "sub b N d1 (index_get_pblock (index n))" unfolding d by (rule sub_child(2))
  with Cons show ?case by (auto simp: d)
qed simp

lemma path_nonzero:
  assumes "path_at N d pb ns d' pb'" "sub b N d pb" "ns \<noteq> []"
  shows "pb' \<noteq> 0"
proof -
  from assms(3) obtain ms n where ns: "ns = ms @ [n]" by (cases ns rule: rev_cases) auto
  then have n: "path_at N d pb ms (Suc d') (pblock_of_node n)" "pb' = index_get_pblock (index n)"
    "index n \<in> set (kids (N (pblock_of_node n)))"
    using assms(1) by (auto simp: path_at_snoc)
  from sub_child(1) [OF path_sub [OF n(1) assms(2)] n(3)] n(2) show ?thesis by simp
qed

lemma kids_split:
  "i < length xs \<Longrightarrow> concat (map f xs) = concat (map f (take i xs)) @ f (xs ! i) @ concat (map f (drop (Suc i) xs))"
  by (subst id_take_nth_drop [of i xs]) simp_all

lemma path_exts:
  "path_at N d pb ns d' pb' \<Longrightarrow> exts N d pb = before N d pb ns @ exts N d' pb' @ after N d pb ns"
proof (induction ns arbitrary: d pb)
  case (Cons n ns)
  then obtain d1 where d: "d = Suc d1" by (cases d) auto
  have "exts N d1 (index_get_pblock (index n)) = before N d1 (index_get_pblock (index n)) ns
      @ exts N d' pb' @ after N d1 (index_get_pblock (index n)) ns"
    using Cons by (auto simp: d)
  moreover have "position n < length (kids (N pb))" "index n = kids (N pb) ! position n"
    using Cons.prems by simp_all
  ultimately show ?case
    using kids_split [of "position n" "kids (N pb)" "\<lambda>x. exts N d1 (index_get_pblock x)"]
    by (simp add: d)
qed simp

lemma path_step:
  assumes "path_at N (Suc d) pb (n # ns) d' pb'"
  defines "f \<equiv> \<lambda>x. blks N d (index_get_pblock x)"
  shows "index n \<in> set (kids (N pb))" "path_at N d (index_get_pblock (index n)) ns d' pb'"
    "position n < length (kids (N pb))" "index n = kids (N pb) ! position n"
    "blks N (Suc d) pb = pb # concat (map f (take (position n) (kids (N pb)))) @ f (index n)
       @ concat (map f (drop (Suc (position n)) (kids (N pb))))"
proof -
  show n: "position n < length (kids (N pb))" "index n = kids (N pb) ! position n"
    "path_at N d (index_get_pblock (index n)) ns d' pb'"
    using assms(1) by auto
  then show "index n \<in> set (kids (N pb))" by simp
  show "blks N (Suc d) pb = pb # concat (map f (take (position n) (kids (N pb)))) @ f (index n)
       @ concat (map f (drop (Suc (position n)) (kids (N pb))))"
    using kids_split [OF n(1), of f] n(2) by (simp add: f_def)
qed

lemma path_blks: "path_at N d pb ns d' pb' \<Longrightarrow> set (blks N d' pb') \<subseteq> set (blks N d pb)"
proof (induction ns arbitrary: d pb)
  case (Cons n ns)
  then obtain d1 where d: "d = Suc d1" by (cases d) auto
  note st = path_step [OF Cons.prems [unfolded d]]
  from Cons.IH [OF st(2)] show ?case unfolding d st(5) by auto
qed simp

lemma path_off:
  assumes "path_at N d pb ns d' pb'" "ns \<noteq> []" "distinct (blks N d pb)"
  shows "pb \<notin> set (blks N d' pb')"
proof -
  from assms(2) obtain n ms where ns: "ns = n # ms" by (cases ns) auto
  with assms(1) obtain d1 where d: "d = Suc d1" by (cases d) auto
  note st = path_step [OF assms(1) [unfolded d ns]]
  show ?thesis
    using path_blks [OF st(2)] assms(3) unfolding d st(5) by auto
qed

text \<open>Replacing the subtree at the end of a path.  \<open>F\<close> are blocks new to the tree.\<close>

definition around :: "(u64 \<Rightarrow> bytes) \<Rightarrow> (u64 \<Rightarrow> bytes) \<Rightarrow> nat \<Rightarrow> u64 \<Rightarrow> nat \<Rightarrow> u64 \<Rightarrow> bool" where
  "around N N' d pb d' pb' \<longleftrightarrow> (\<exists>ba bb. blks N d pb = ba @ blks N d' pb' @ bb
     \<and> blks N' d pb = ba @ blks N' d' pb' @ bb)"

lemma around_distinct:
  assumes "around N N' d pb d' pb'" "distinct (blks N d pb)" "distinct (blks N' d' pb')"
    and "set (blks N' d' pb') \<subseteq> set (blks N d' pb') \<union> F" "F \<inter> set (blks N d pb) = {}"
  shows "distinct (blks N' d pb)" "set (blks N' d pb) \<subseteq> set (blks N d pb) \<union> F"
  using assms unfolding around_def by (elim exE conjE; simp; blast)+

lemma replace_path:
  assumes "path_at N d pb ns d' pb'" "sub b N d pb" "distinct (blks N d pb)"
    and same: "\<And>q. q \<notin> set (blks N d' pb') \<Longrightarrow> q \<notin> F \<Longrightarrow> N' q = N q"
    and new: "F \<inter> set (blks N d pb) = {}"
    and sub': "sub b N' d' pb'" "ns \<noteq> [] \<Longrightarrow> first_key (N' pb') = first_key (N pb')"
  shows "sub b N' d pb" "exts N' d pb = before N d pb ns @ exts N' d' pb' @ after N d pb ns"
    "around N N' d pb d' pb'"
proof -
  have "sub b N' d pb \<and> exts N' d pb = before N d pb ns @ exts N' d' pb' @ after N d pb ns
      \<and> around N N' d pb d' pb'"
    using assms(1-3,5,7)
  proof (induction ns arbitrary: d pb)
    case Nil
    then have "d' = d" "pb' = pb" by simp_all
    then show ?case using sub'(1) unfolding around_def by (auto intro: exI [of _ "[]"])
  next
    case (Cons n ns)
    then obtain d1 where d: "d = Suc d1" by (cases d) auto
    let ?c = "index_get_pblock (index n)" and ?xs = "kids (N pb)" and ?i = "position n"
    let ?b = "\<lambda>x. blks N d1 (index_get_pblock x)"
    note st = path_step [OF Cons.prems(1) [unfolded d]]
    note c = sub_child [OF Cons.prems(2) [unfolded d] st(1)]
    note bl = path_blks [OF st(2)]
    let ?l = "concat (map ?b (take ?i ?xs))" and ?r = "concat (map ?b (drop (Suc ?i) ?xs))"
    have dist: "distinct (pb # ?l @ ?b (index n) @ ?r)" and F: "F \<inter> set (pb # ?l @ ?b (index n) @ ?r) = {}"
      using Cons.prems(3,4) unfolding d st(5) .
    have off: "N' q = N q" if "q \<in> set (pb # ?l @ ?r)" for q
      using that dist F bl by (intro same) auto
    have IH: "sub b N' d1 ?c" "exts N' d1 ?c = before N d1 ?c ns @ exts N' d' pb' @ after N d1 ?c ns"
      "around N N' d1 ?c d' pb'"
      using Cons.IH [OF st(2) c(2)] dist F Cons.prems(5) by auto
    have key: "first_key (N' ?c) = first_key (N ?c)"
    proof (cases "ns = []")
      case True
      with st(2) Cons.prems(5) show ?thesis by simp
    next
      case False
      have "distinct (blks N d1 ?c)" using dist by simp
      from path_off [OF st(2) False this] have "?c \<notin> set (blks N d' pb')" .
      moreover have "?c \<notin> F" using F by auto
      ultimately show ?thesis by (simp add: same)
    qed
    have side: "exts N' d1 (index_get_pblock x) = exts N d1 (index_get_pblock x)
        \<and> ?b x = blks N' d1 (index_get_pblock x) \<and> sub b N' d1 (index_get_pblock x)
        \<and> ix_first_block x = first_key (N' (index_get_pblock x))"
      if x: "x \<in> set (take ?i ?xs) \<or> x \<in> set (drop (Suc ?i) ?xs)" for x
    proof -
      have x_in: "x \<in> set ?xs" using x in_set_takeD in_set_dropD by metis
      have "\<forall>q \<in> set (?b x). N' q = N q" using x off by auto
      with agree [OF this, of b] sub_child [OF Cons.prems(2) [unfolded d] x_in] show ?thesis by auto
    qed
    have pb: "N' pb = N pb" using off by simp
    have xs: "?xs = take ?i ?xs @ index n # drop (Suc ?i) ?xs"
      using id_take_nth_drop [OF st(3)] st(4) by simp
    have "ix_first_block x = first_key (N' (index_get_pblock x)) \<and> sub b N' d1 (index_get_pblock x)"
      if "x \<in> set ?xs" for x
    proof -
      from that have "x = index n \<or> x \<in> set (take ?i ?xs) \<or> x \<in> set (drop (Suc ?i) ?xs)"
        by (subst (asm) xs) auto
      then show ?thesis using side [of x] IH(1) key c(3) by auto
    qed
    with sub_node [OF Cons.prems(2)] have sub': "sub b N' d pb" by (simp add: d pb)
    have "exts N' d pb = before N d pb (n # ns) @ exts N' d' pb' @ after N d pb (n # ns)"
      using kids_split [OF st(3), of "\<lambda>x. exts N' d1 (index_get_pblock x)"] IH(2) st(4) side
      by (simp add: d pb cong: map_cong)
    moreover have "around N N' d pb d' pb'"
    proof -
      obtain ba bb where "blks N d1 ?c = ba @ blks N d' pb' @ bb" "blks N' d1 ?c = ba @ blks N' d' pb' @ bb"
        using IH(3) by (auto simp: around_def)
      moreover have "blks N' d pb = pb # ?l @ blks N' d1 ?c @ ?r"
        using kids_split [OF st(3), of "\<lambda>x. blks N' d1 (index_get_pblock x)"] st(4) side
        by (simp add: d pb cong: map_cong)
      ultimately show ?thesis
        unfolding around_def d st(5)
        by (intro exI [of _ "pb # ?l @ ba"] exI [of _ "bb @ ?r"]) simp
    qed
    ultimately show ?case using sub' by blast
  qed
  then show "sub b N' d pb" "exts N' d pb = before N d pb ns @ exts N' d' pb' @ after N d pb ns"
    "around N N' d pb d' pb'" by blast+
qed

section \<open>The path of a lookup\<close>

text \<open>
  What the services promise about the blocks in use: only the allocator changes \<open>used\<close>, it
  hands out blocks that are not in use and that an index entry can name.
\<close>

definition alloc_laws :: "'e lwext4 \<Rightarrow> ('e \<Rightarrow> u64 set) \<Rightarrow> bool" where
  "alloc_laws io used \<longleftrightarrow>
     (\<forall>pb e. used (snd (trans_block_get io pb e)) = used e
       \<and> used (snd (trans_block_get_noread io pb e)) = used e
       \<and> used (snd (trans_set_block_dirty io pb e)) = used e
       \<and> used (snd (block_set io pb e)) = used e)
   \<and> (\<forall>goal e. case balloc_alloc_block io goal e of (r, pb, e') \<Rightarrow>
        if r = EOK then pb \<notin> used e \<and> used e' = insert pb (used e)
          \<and> pb \<noteq> 0 \<and> pb < sb_blocks_cnt (sb io) \<and> unat pb < 2 ^ 48
        else used e' = used e)"

text \<open>A step that leaves the nodes and the blocks in use alone.\<close>

definition calm :: "('e \<Rightarrow> u64 set) \<Rightarrow> 'e istate \<Rightarrow> 'e istate \<Rightarrow> bool" where
  "calm used s s' \<longleftrightarrow> nodes s' = nodes s \<and> bufs s' = bufs s \<and> used (env s') = used (env s)"

lemma calm_refl [simp]: "calm used s s"
  by (simp add: calm_def)

lemma calm_trans: "calm used s t \<Longrightarrow> calm used t u \<Longrightarrow> calm used s u"
  by (simp add: calm_def)

lemma same_tree_nodes: "same_tree s s' \<Longrightarrow> nodes s' = nodes s"
  by (simp add: nodes_def same_tree_def node_data_def fun_eq_iff)

lemma calm_call:
  "ext_call f s = (r, s') \<Longrightarrow> (\<And>e. used (snd (f e)) = used e) \<Longrightarrow> calm used s s'"
proof -
  assume c: "ext_call f s = (r, s')" and f: "\<And>e. used (snd (f e)) = used e"
  have "same_tree s s'" using c by (rule same_tree_call)
  moreover have "env s' = snd (f (env s))" using c by (auto simp: ext_call_def split: prod.splits)
  ultimately show ?thesis using f by (simp add: calm_def same_tree_nodes) (simp add: same_tree_def)
qed

lemma calm_block_get: "alloc_laws io used \<Longrightarrow> node_block_get io pb s = (r, s') \<Longrightarrow> calm used s s'"
  unfolding node_block_get_def by (erule calm_call) (simp add: alloc_laws_def)

lemma calm_block_set: "alloc_laws io used \<Longrightarrow> ext4_block_set io pb s = (r, s') \<Longrightarrow> calm used s s'"
  unfolding ext4_block_set_def by (erule calm_call) (simp add: alloc_laws_def)

lemma calm_release: "alloc_laws io used \<Longrightarrow> calm used s (release io pb s)"
  unfolding release_def by (rule calm_block_set) (auto intro: surjective_pairing)

lemma calm_release_held: "alloc_laws io used \<Longrightarrow> calm used s (release_held io held s)"
  by (cases held) (simp_all add: release_held_def calm_release)

lemma calm_find_leaf: "alloc_laws io used \<Longrightarrow> find_leaf io lb md h held nds s = (r, s') \<Longrightarrow> calm used s s'"
  by (auto simp: find_leaf_def Let_def calm_release_held split: prod.splits if_splits)

lemma calm_descend:
  assumes "alloc_laws io used"
  shows "find_descend io lb md d h held nds s = (Inr p, s') \<Longrightarrow> calm used s s'"
proof (induction d arbitrary: h held nds s)
  case 0
  then show ?case using calm_find_leaf [OF assms] by simp
next
  case (Suc d)
  from Suc.prems show ?case
  proof (cases rule: find_descend_SucE)
    case (step pos x s1)
    from calm_block_get [OF assms step(4)] calm_release_held [OF assms, of s1 held] Suc.IH [OF step(9)]
    show ?thesis by (blast intro: calm_trans)
  qed simp
qed

lemma calm_find_extent: "alloc_laws io used \<Longrightarrow> find_extent io lb s = (Inr p, s') \<Longrightarrow> calm used s s'"
  by (auto simp: find_extent_def Let_def split: if_splits intro: calm_descend)

text \<open>The entry a search for \<open>lb\<close> selects: the last one with a key up to \<open>lb\<close>, or the first.\<close>

definition key_pos :: "ext4_extent_index list \<Rightarrow> u32 \<Rightarrow> nat" where
  "key_pos xs lb = length (takeWhile (\<lambda>x. ix_first_block x \<le> lb) (tl xs))"

lemma key_pos_spec:
  assumes "xs \<noteq> []"
  shows "key_pos xs lb < length xs" "0 < key_pos xs lb \<Longrightarrow> ix_first_block (xs ! key_pos xs lb) \<le> lb"
    "Suc (key_pos xs lb) < length xs \<Longrightarrow> lb < ix_first_block (xs ! Suc (key_pos xs lb))"
proof -
  obtain x ys where xs: "xs = x # ys" using assms by (cases xs) auto
  let ?P = "\<lambda>x. ix_first_block x \<le> lb"
  have k: "key_pos xs lb = length (takeWhile ?P ys)" by (simp add: key_pos_def xs)
  have le: "length (takeWhile ?P ys) \<le> length ys" by (rule length_takeWhile_le)
  then show "key_pos xs lb < length xs" unfolding k by (simp add: xs)
  show "0 < key_pos xs lb \<Longrightarrow> ix_first_block (xs ! key_pos xs lb) \<le> lb"
    unfolding k using nth_mem [of "length (takeWhile ?P ys) - 1" "takeWhile ?P ys"]
      takeWhile_nth [of "length (takeWhile ?P ys) - 1" ?P ys] set_takeWhileD
    by (fastforce simp: xs nth_Cons')
  show "Suc (key_pos xs lb) < length xs \<Longrightarrow> lb < ix_first_block (xs ! Suc (key_pos xs lb))"
    unfolding k using nth_length_takeWhile [of ?P ys] by (simp add: xs not_le)
qed

lemma key_pos_unique:
  assumes "sorted_wrt (\<lambda>a b. ix_first_block a < ix_first_block b) xs" "pos < length xs"
    and "0 < pos \<Longrightarrow> ix_first_block (xs ! pos) \<le> lb"
    and "Suc pos < length xs \<Longrightarrow> lb < ix_first_block (xs ! Suc pos)"
  shows "key_pos xs lb = pos"
proof -
  let ?k = "key_pos xs lb"
  have "xs \<noteq> []" using assms(2) by auto
  note spec = key_pos_spec [OF this, of lb]
  have ordered: "ix_first_block (xs ! i) < ix_first_block (xs ! j)" if "i < j" "j < length xs" for i j
    using sorted_wrt_nth_less [OF assms(1) that] .
  show ?thesis
  proof (cases ?k pos rule: linorder_cases)
    case less
    then have "lb < ix_first_block (xs ! Suc ?k)" "ix_first_block (xs ! pos) \<le> lb"
      using spec(3) assms(2,3) by auto
    with \<open>?k < pos\<close> assms(2) ordered [of "Suc ?k" pos] show ?thesis
      by (cases "Suc ?k = pos") auto
  next
    case greater
    then have "lb < ix_first_block (xs ! Suc pos)" "ix_first_block (xs ! ?k) \<le> lb"
      using spec(1,2) assms(4) by auto
    with greater spec(1) ordered [of "Suc pos" ?k] show ?thesis
      by (cases "Suc pos = ?k") auto
  qed simp
qed

text \<open>The records a walk collects describe the way to the leaf it ends at.\<close>

definition found_path :: "'e istate \<Rightarrow> nat \<Rightarrow> u64 \<Rightarrow> u32 \<Rightarrow> extent_path_node list \<Rightarrow> extent_path_node \<Rightarrow> bool" where
  "found_path s d pb lb ns leaf \<longleftrightarrow>
     (\<forall>n \<in> set ns. position n = key_pos (kids (nodes s (pblock_of_node n))) lb) \<and> path_at (nodes s) d pb ns 0 (pblock_of_node leaf) \<and> found_leaf s lb leaf
     \<and> lookup_split (exts (nodes s) d pb) lb (before (nodes s) d pb ns)
         (leaves (nodes s (pblock_of_node leaf))) (after (nodes s) d pb ns)"

lemma find_leaf_path:
  assumes "find_leaf io lb md h held nds s = (Inr p, s')" "h = header_load (nodes s (held_block held))"
  shows "path p = nds @ [leaf_of p] \<and> path_depth p = length nds
    \<and> found_path s 0 (held_block held) lb [] (leaf_of p)"
proof -
  have r: "path_depth p = length nds" "found_leaf s lb (leaf_of p)"
    "pblock_of_node (leaf_of p) = held_block held"
    using find_leaf_found [OF assms(1)] assms(2) by (simp_all add: nodes_def)
  have "\<exists>leaf. path p = nds @ [leaf]"
    using assms(1) by (auto simp: find_leaf_def Let_def split: prod.splits if_splits)
  then show ?thesis
    using r by (auto simp: leaf_of_def found_path_def lookup_split_def)
qed

lemma find_descend_path:
  assumes "find_descend io lb md d (header_load (nodes s (held_block held))) held nds s = (Inr p, s')"
    and "sub (sb io) (nodes s) d (held_block held)" "sorted_extents (exts (nodes s) d (held_block held))"
  shows "\<exists>ns. path p = nds @ ns @ [leaf_of p] \<and> path_depth p = length nds + d
    \<and> found_path s d (held_block held) lb ns (leaf_of p)"
  using assms
proof (induction d arbitrary: held nds s)
  case 0
  then show ?case using find_leaf_path [of io lb md _ held nds s p s'] by fastforce
next
  case (Suc d)
  let ?N = "nodes s" and ?pb = "held_block held"
  let ?xs = "kids (?N ?pb)" and ?f = "\<lambda>x. exts ?N d (index_get_pblock x)"
  from Suc.prems(1) show ?case
  proof (cases rule: find_descend_SucE)
    case (step pos x s1)
    let ?n = "mk_index_node (header_load (?N ?pb)) x pos ?pb" and ?c = "index_get_pblock x"
    note b = binsearch_idx_pos [OF step(1)]
    have pos: "pos < length ?xs" using b(1) by (simp add: length_kids)
    have x: "x = ?xs ! pos" using pos step(3) by (simp add: kids_def nodes_def)
    have x_in: "x \<in> set ?xs" unfolding x by (rule nth_mem [OF pos])
    note ch = sub_child [OF Suc.prems(2) x_in]
    let ?s = "release_held io held s1"
    have N: "nodes ?s = ?N" using step(5) by (intro same_tree_nodes) simp
    have "find_descend io lb md d (header_load (nodes ?s (held_block (Some ?c)))) (Some ?c) (nds @ [?n]) ?s
        = (Inr p, s')"
      using step(9) ch(1) unfolding N by (simp add: nodes_def node_data_def)
    moreover have "sorted_extents (exts ?N d ?c)"
      using sorted_concat_part [of ?f ?xs x] Suc.prems(3) x_in by simp
    ultimately obtain ns where ns: "path p = (nds @ [?n]) @ ns @ [leaf_of p]"
      "path_depth p = length (nds @ [?n]) + d" "found_path ?s d ?c lb ns (leaf_of p)"
      using Suc.IH [of ?s "Some ?c" "nds @ [?n]"] ch(2) unfolding N by auto
    have fl: "found_leaf ?s lb n = found_leaf s lb n" for n
      using fun_cong [OF N] by (simp add: found_leaf_def nodes_def)
    have "key_pos ?xs lb = pos"
    proof (rule key_pos_unique)
      show "sorted_wrt (\<lambda>a b. ix_first_block a < ix_first_block b) ?xs"
        using node_valid_kids(1) [OF sub_node [OF Suc.prems(2)]] by (simp add: indices_ok_def)
    qed (use b pos in \<open>simp_all add: kids_def nodes_def\<close>)
    moreover have fp: "path_at ?N d ?c ns 0 (pblock_of_node (leaf_of p))" "found_leaf s lb (leaf_of p)"
      "lookup_split (?f x) lb (before ?N d ?c ns) (leaves (?N (pblock_of_node (leaf_of p)))) (after ?N d ?c ns)"
      "\<forall>n \<in> set ns. position n = key_pos (kids (?N (pblock_of_node n))) lb"
      using ns(3) unfolding found_path_def N fl by auto
    moreover have "lookup_split (concat (map ?f ?xs)) lb (concat (map ?f (take pos ?xs)) @ before ?N d ?c ns)
        (leaves (?N (pblock_of_node (leaf_of p)))) (after ?N d ?c ns @ concat (map ?f (drop (Suc pos) ?xs)))"
    proof (rule lookup_split_index [where x = x])
      show "?xs = take pos ?xs @ x # drop (Suc pos) ?xs"
        using pos x id_take_nth_drop by blast
      show "?f y \<noteq> [] \<and> first_block (hd (?f y)) = ix_first_block y" if "y \<in> set ?xs" for y
        using sub_first [of "sb io" ?N d "index_get_pblock y"] sub_child [OF Suc.prems(2) that] by simp
      show "lb < ix_first_block (?xs ! Suc pos)" if "Suc pos < length ?xs"
        using b(3) that by (simp add: kids_def nodes_def)
    qed (use fp(3) Suc.prems(3) b(2) step(3) pos in \<open>simp_all add: nodes_def\<close>)
    ultimately have "found_path s (Suc d) ?pb lb (?n # ns) (leaf_of p)"
      using x pos by (simp add: found_path_def mk_index_node_def)
    with ns(1,2) show ?thesis by (intro exI [of _ "?n # ns"]) simp
  qed simp
qed

lemma find_extent_path:
  assumes "find_extent io lb s = (Inr p, s')" "sub (sb io) (nodes s) (root_depth s) 0"
    and "extents_ok fs (exts (nodes s) (root_depth s) 0)"
  obtains ns where "path p = ns @ [leaf_of p]" "path_depth p = length ns" "length ns = root_depth s"
    "found_path s (root_depth s) 0 lb ns (leaf_of p)"
proof -
  have N: "nodes s 0 = root s" by (simp add: nodes_def node_data_def)
  have "find_descend io lb (root_depth s) (root_depth s) (header_load (root s)) None [] s = (Inr p, s')"
    using assms(1) by (auto simp: find_extent_def Let_def root_depth_def split: if_splits)
  from find_descend_path [of io lb "root_depth s" "root_depth s" s None "[]" p s'] this assms(2,3)
  obtain ns where ns: "path p = ns @ [leaf_of p]" "path_depth p = root_depth s"
    "found_path s (root_depth s) 0 lb ns (leaf_of p)"
    by (auto simp: N extents_ok_def)
  have pt: "path_at (nodes s) (root_depth s) 0 ns 0 (pblock_of_node (leaf_of p))"
    using ns(3) by (simp add: found_path_def)
  from path_at_length [OF pt] have "length ns = root_depth s" by simp
  with ns that show ?thesis by simp
qed

end
