(* ===== verification/Extent_Write.thy ===== *)
theory Extent_Write
  imports Extent_Path
begin

text \<open>
  Writing one node of a deep tree: what the sequence "get the block, change it, recompute the
  checksum, put it" does to the store, which new entry lists make a node well formed, and
  correct_indexes, which carries a changed first key up the path.
\<close>

section \<open>Sealing a node\<close>

text \<open>ext4 block sizes: powers of two from 1 KiB to 64 KiB.\<close>

definition block_size_ok :: "ext4_sb \<Rightarrow> bool" where
  "block_size_ok b \<longleftrightarrow> (\<exists>k. unat (sb_block_size b) = 2 ^ k \<and> 10 \<le> k \<and> k \<le> 16)"

definition sealed :: "ext4_sb \<Rightarrow> u64 \<Rightarrow> bytes \<Rightarrow> bytes \<Rightarrow> bool" where
  "sealed b pb data d \<longleftrightarrow>
     (if pb = 0 then d = data else set_extent_block_checksum b data False = (EOK, d))"

lemma capacity_slots: "n \<le> unat ((bs - 12) div 12 :: u32) \<Longrightarrow> 12 \<le> unat bs \<Longrightarrow> slot n \<le> unat bs"
proof -
  assume n: "n \<le> unat ((bs - 12) div 12)" and bs: "12 \<le> unat bs"
  have "unat (bs - 12) = unat bs - 12" using bs by (simp add: unat_sub word_le_nat_alt)
  then have "n \<le> (unat bs - 12) div 12" using n by (simp add: unat_div)
  then have "n * 12 \<le> unat bs - 12" using div_times_less_eq_dividend [of "unat bs - 12" 12] by linarith
  then show ?thesis using bs by (simp add: slot_def)
qed

lemma block_size_bounds:
  assumes "block_size_ok b"
  shows "1024 \<le> unat (sb_block_size b)" "unat (sb_block_size b) \<le> 65536"
proof -
  obtain k where k: "unat (sb_block_size b) = 2 ^ k" "10 \<le> k" "k \<le> 16"
    using assms by (auto simp: block_size_ok_def)
  show "1024 \<le> unat (sb_block_size b)"
    using power_increasing [OF k(2), of "2 :: nat"] k(1) by simp
  show "unat (sb_block_size b) \<le> 65536"
    using power_increasing [OF k(3), of "2 :: nat"] k(1) by simp
qed

lemma node_form_fits:
  assumes "node_form b pb d data" "block_size_ok b"
  shows "slot (unat (max_entries_count (header_load data))) \<le> length data"
    "unat (entries_count (header_load data)) \<le> unat (max_entries_count (header_load data))"
  using assms capacity_slots [of "unat (max_entries_count (header_load data))" "sb_block_size b"]
    block_size_bounds [OF assms(2)]
  by (auto simp: node_form_def root_ok_def validate_header_root_iff validate_header_block_iff slot_def
      split: if_splits)

lemma sealed_node:
  assumes "sealed b pb data d" "node_form b pb dep data" "block_size_ok b"
  shows "node_valid b pb dep d" "length d = length data" "header_load d = header_load data"
    "kids d = kids data" "leaves d = leaves data"
    and "entries_count (header_load data) \<noteq> 0 \<Longrightarrow> first_key d = first_key data"
proof -
  let ?h = "header_load data"
  have fit: "slot (unat (max_entries_count ?h)) \<le> length data"
    "unat (entries_count ?h) \<le> unat (max_entries_count ?h)"
    using node_form_fits [OF assms(2,3)] by simp_all
  have "node_valid b pb dep d \<and> length d = length data \<and> header_load d = ?h
      \<and> kids d = kids data \<and> leaves d = leaves data"
  proof (cases "pb = 0")
    case True
    with assms show ?thesis by (simp add: sealed_def node_valid_def)
  next
    case False
    then have s: "set_extent_block_checksum b data False = (EOK, d)" "length data = unat (sb_block_size b)"
      using assms by (auto simp: sealed_def node_form_def)
    note q = set_checksum_sealed [OF s]
    have "slot (unat (entries_count ?h)) \<le> length data"
      using fit by (meson le_trans slot_le)
    note e = q(4) [OF fit(2) this]
    have k: "kids d = kids data" "leaves d = leaves data"
      using e by (simp_all add: kids_def leaves_def q(3))
    then have "node_valid b pb dep d"
      using assms(2) False q(1,2) e
      by (simp add: node_valid_def node_form_def q(3) validate_entries_iff split: if_splits)
    with k q show ?thesis by simp
  qed
  then show "node_valid b pb dep d" "length d = length data" and h: "header_load d = ?h"
    and k: "kids d = kids data" and "leaves d = leaves data" by simp_all
  show "first_key d = first_key data" if "entries_count ?h \<noteq> 0"
  proof -
    have "0 < unat (entries_count ?h)" using that by (simp add: unat_gt_0)
    then have "kids d ! 0 = index_load d (slot 0)" "kids data ! 0 = index_load data (slot 0)"
      by (simp_all add: kids_def h)
    with k show ?thesis by (metis ix_first_block_index_load)
  qed
qed

lemma seal_exists:
  assumes "node_form b pb dep data" "block_size_ok b"
  shows "\<exists>d. sealed b pb data d"
proof (cases "pb = 0")
  case False
  with assms obtain k where v: "validate_header False (sb_block_size b) (header_load data) = EOK"
    and k: "unat (sb_block_size b) = 2 ^ k" "10 \<le> k"
    by (auto simp: node_form_def block_size_ok_def)
  have "magic (header_load data) = EXT4_EXTENT_MAGIC" using v by (simp add: validate_header_block_iff)
  then show ?thesis
    using tail_fits_power2 [OF v k] False
    by (auto simp: sealed_def set_extent_block_checksum_def Let_def)
qed (simp add: sealed_def)

section \<open>Writing a node back\<close>

text \<open>\<open>s'\<close> is \<open>s\<close> with the node \<open>pb\<close> replaced by \<open>data\<close> under a fresh checksum.\<close>

definition stored :: "ext4_sb \<Rightarrow> ('e \<Rightarrow> u64 set) \<Rightarrow> 'e istate \<Rightarrow> u64 \<Rightarrow> bytes \<Rightarrow> 'e istate \<Rightarrow> bool" where
  "stored b used s pb data s' \<longleftrightarrow> used (env s') = used (env s)
     \<and> (\<exists>d. sealed b pb data d \<and> nodes s' = (nodes s)(pb := d))"

lemma nodes_root [simp]: "nodes s 0 = root s"
  by (simp add: nodes_def node_data_def)

lemma nodes_block: "pb \<noteq> 0 \<Longrightarrow> nodes s pb = bufs s pb"
  by (simp add: nodes_def node_data_def)

lemma nodes_set: "nodes (set_node_data pb d s) = (nodes s)(pb := d)"
  by (auto simp: nodes_def node_data_def set_node_data_def fun_eq_iff)

lemma nodes_bufs: "pb \<noteq> 0 \<Longrightarrow> nodes (s\<lparr>bufs := (bufs s)(pb := d)\<rparr>) = (nodes s)(pb := d)"
  by (auto simp: nodes_def node_data_def fun_eq_iff)

lemma nodes_update_root: "nodes (s\<lparr>root := d\<rparr>) = (nodes s)(0 := d)"
  by (auto simp: nodes_def node_data_def fun_eq_iff)

lemma nodes_mark_dirty [simp]: "nodes (mark_dirty s) = nodes s" "env (mark_dirty s) = env s"
  by (simp_all add: mark_dirty_def nodes_def node_data_def fun_eq_iff)

lemma ext_call_calm:
  assumes "\<And>e. fst (f e) = EOK" "\<And>e. used (snd (f e)) = used e"
  shows "\<exists>s'. ext_call f s = (EOK, s') \<and> calm used s s'"
proof -
  obtain s' where "ext_call f s = (EOK, s')"
    using assms(1) [of "env s"] by (cases "f (env s)") (auto simp: ext_call_def)
  with calm_call [where used = used, OF this assms(2)] show ?thesis by blast
qed

lemma reliable_get:
  assumes "io_reliable io" "alloc_laws io used"
  shows "\<exists>s'. node_block_get io pb s = (EOK, s') \<and> calm used s s'"
  unfolding node_block_get_def
  using assms by (intro ext_call_calm) (simp_all add: io_reliable_def alloc_laws_def)

lemma reliable_get_noread:
  assumes "io_reliable io" "alloc_laws io used"
  shows "\<exists>s'. ext4_trans_block_get_noread io pb s = (EOK, s') \<and> calm used s s'"
  unfolding ext4_trans_block_get_noread_def
  using assms by (intro ext_call_calm) (simp_all add: io_reliable_def alloc_laws_def)

lemma reliable_set:
  assumes "io_reliable io" "alloc_laws io used"
  shows "\<exists>s'. ext4_block_set io pb s = (EOK, s') \<and> calm used s s'"
  unfolding ext4_block_set_def
  using assms by (intro ext_call_calm) (simp_all add: io_reliable_def alloc_laws_def)

lemma reliable_put:
  assumes "io_reliable io" "alloc_laws io used"
  shows "\<exists>s'. node_block_put io pb s = (EOK, s') \<and> calm used s s'"
proof -
  obtain s1 where s1: "ext_call (trans_set_block_dirty io pb) s = (EOK, s1)" "calm used s s1"
    using assms ext_call_calm [of "trans_set_block_dirty io pb" used s]
    by (auto simp: io_reliable_def alloc_laws_def)
  obtain s2 where "ext4_block_set io pb s1 = (EOK, s2)" "calm used s1 s2"
    using reliable_set [OF assms] by blast
  with s1 show ?thesis by (auto simp: node_block_put_def intro: calm_trans)
qed

lemma checksum_and_put_stored:
  assumes "io_reliable io" "alloc_laws io used" "block_size_ok (sb io)" "pb \<noteq> 0"
    and "node_form (sb io) pb dep (bufs s pb)"
  shows "\<exists>s'. checksum_and_put io pb s = (EOK, s') \<and> stored (sb io) used s pb (bufs s pb) s'"
proof -
  obtain d where d: "set_extent_block_checksum (sb io) (bufs s pb) False = (EOK, d)"
    using seal_exists [OF assms(5,3)] assms(4) by (auto simp: sealed_def)
  let ?s = "s\<lparr>bufs := (bufs s)(pb := d)\<rparr>"
  obtain s' where "node_block_put io pb ?s = (EOK, s')" "calm used ?s s'"
    using reliable_put [OF assms(1,2)] by blast
  with d assms(4) show ?thesis
    by (auto simp: checksum_and_put_def stored_def sealed_def calm_def nodes_bufs)
qed

lemma commit_node_stored:
  assumes "io_reliable io" "alloc_laws io used" "block_size_ok (sb io)"
    and "node_form (sb io) pb dep (nodes s pb)"
  shows "\<exists>s'. commit_node io pb s = (EOK, s') \<and> stored (sb io) used s pb (nodes s pb) s'"
proof (cases "pb = 0")
  case True
  then show ?thesis by (simp add: commit_node_def stored_def sealed_def fun_upd_idem)
next
  case False
  with checksum_and_put_stored [OF assms(1-3) False, of dep s] assms(4) show ?thesis
    by (simp add: commit_node_def nodes_block)
qed

text \<open>Two changes of one node count as the last one.\<close>

lemma stored_set: "stored b used (set_node_data pb x s) pb data s' \<longleftrightarrow> stored b used s pb data s'"
  by (simp add: stored_def nodes_set) (simp add: set_node_data_def)

lemma stored_calm: "calm used s s1 \<Longrightarrow> stored b used s1 pb data s' \<Longrightarrow> stored b used s pb data s'"
  by (simp add: stored_def calm_def)

lemma open_node_calm:
  assumes "io_reliable io" "alloc_laws io used"
  shows "\<exists>s'. open_node io pb s = (EOK, s') \<and> calm used s s'"
  using reliable_get [OF assms, of pb s] by (simp add: open_node_def)

lemma write_index_at_stored:
  fixes s :: "'e istate" and n :: extent_path_node
  defines "q \<equiv> pblock_of_node n"
  assumes "io_reliable io" "alloc_laws io used" "block_size_ok (sb io)"
    and "node_form (sb io) q dep (index_store (slot pos) x (nodes s q))"
  shows "\<exists>s'. write_index_at io n pos x s = (EOK, s')
    \<and> stored (sb io) used s q (index_store (slot pos) x (nodes s q)) s'"
proof -
  obtain s1 where s1: "open_node io q s = (EOK, s1)" "calm used s s1"
    using open_node_calm [OF assms(2,3)] by blast
  let ?d = "index_store (slot pos) x (nodes s q)"
  let ?s = "set_node_data q ?d s1"
  have N: "nodes s1 = nodes s" using s1(2) by (simp add: calm_def)
  have "nodes ?s q = ?d" by (simp add: nodes_set)
  with commit_node_stored [OF assms(2-4), of q dep ?s] assms(5)
  obtain s' where "commit_node io q ?s = (EOK, s')" "stored (sb io) used ?s q ?d s'" by auto
  moreover have "node_data q s1 = nodes s q" using fun_cong [OF N, of q] by (simp add: nodes_def)
  ultimately show ?thesis
    using s1 by (auto simp: write_index_at_def q_def [symmetric] stored_set intro: stored_calm)
qed

section \<open>Changed keys\<close>

text \<open>Index keys are in order when the extents below them are.\<close>

lemma extents_ok_order:
  assumes "extents_ok fs (xs @ ys)" "a \<in> set xs" "c \<in> set ys"
  shows "first_block a < first_block c"
proof -
  have "0 < e_len a" "e_end a \<le> e_first c"
    using assms by (auto simp: extents_ok_def extent_ok_def sorted_wrt_append)
  then show ?thesis by (simp add: word_less_nat_alt e_end_def flip: e_first_def)
qed

lemma extents_ok_mid: "extents_ok fs (xs @ ys @ zs) \<Longrightarrow> extents_ok fs ys"
  by (simp add: extents_ok_append)

lemma kids_sorted:
  assumes "\<And>y. y \<in> set ys \<Longrightarrow> index_ok fs y \<and> f y \<noteq> [] \<and> first_block (hd (f y)) = ix_first_block y"
    and "extents_ok fs (concat (map f ys))"
  shows "indices_ok fs ys"
  using assms
proof (induction ys)
  case (Cons y ys)
  have "ix_first_block y < ix_first_block z" if z: "z \<in> set ys" for z
  proof -
    have "hd (f y) \<in> set (f y)" "hd (f z) \<in> set (concat (map f ys))"
      using Cons.prems(1) [of y] Cons.prems(1) [of z] z by (auto intro!: bexI [of _ z])
    with extents_ok_order [of fs "f y" "concat (map f ys)" "hd (f y)" "hd (f z)"] Cons.prems z
    show ?thesis by simp
  qed
  moreover have "indices_ok fs ys"
    using Cons by (auto simp: extents_ok_append)
  ultimately show ?case using Cons.prems(1) by (auto simp: indices_ok_def)
qed (simp add: indices_ok_def)

lemma sub_kids:
  assumes "node_form b q (Suc d) data" "sealed b q data (N q)" "block_size_ok b"
    and "\<And>x. x \<in> set (kids data) \<Longrightarrow> ix_first_block x = first_key (N (index_get_pblock x))
      \<and> sub b N d (index_get_pblock x)"
  shows "sub b N (Suc d) q"
  using sealed_node [OF assms(2,1,3)] assms(4) by simp

text \<open>Changing entries of a node without changing its header or its length.\<close>

lemma node_form_index:
  assumes "node_form b q (Suc d) data" "header_load data' = header_load data" "length data' = length data"
    and "indices_ok (sb_blocks_cnt b) (kids data')"
  shows "node_form b q (Suc d) data'"
proof -
  have "depth (header_load data) \<noteq> 0" using assms(1) by (auto simp: node_form_def)
  with assms show ?thesis
    by (auto simp: node_form_def root_ok_def validate_entries_iff kids_def split: if_splits)
qed

lemma header_load_index_store:
  "slot i + 12 \<le> length d \<Longrightarrow> header_load (index_store (slot i) x d) = header_load d"
  using slot_ge_header [of i]
  by (intro header_load_cong) (simp_all add: idx.read_store_other idx.length_store)

lemma index_store_effect:
  assumes "node_form b q d data" "block_size_ok b" "pos < length (kids data)"
  shows "header_load (index_store (slot pos) x data) = header_load data"
    "length (index_store (slot pos) x data) = length data"
    "kids (index_store (slot pos) x data) = (kids data)[pos := x]"
proof -
  let ?n = "unat (entries_count (header_load data))"
  have n: "pos < ?n" using assms(3) by (simp add: length_kids)
  have fit: "slot ?n \<le> length data"
    using node_form_fits [OF assms(1,2)] slot_le le_trans by blast
  have "slot (Suc pos) \<le> slot ?n" using n by (intro slot_le) simp
  with fit have sp: "slot pos + 12 \<le> length data" by (simp add: slot_Suc)
  show h: "header_load (index_store (slot pos) x data) = header_load data"
    using sp by (rule header_load_index_store)
  show "length (index_store (slot pos) x data) = length data" using sp by (rule idx.length_store)
  show "kids (index_store (slot pos) x data) = (kids data)[pos := x]"
    unfolding kids_def h using n fit by (rule idx.slots_store)
qed

abbreviation exts_below :: "(u64 \<Rightarrow> bytes) \<Rightarrow> nat \<Rightarrow> ext4_extent_index list \<Rightarrow> ext4_extent list" where
  "exts_below N d xs \<equiv> concat (map (\<lambda>x. exts N d (index_get_pblock x)) xs)"

abbreviation blks_below :: "(u64 \<Rightarrow> bytes) \<Rightarrow> nat \<Rightarrow> ext4_extent_index list \<Rightarrow> u64 list" where
  "blks_below N d xs \<equiv> concat (map (\<lambda>x. blks N d (index_get_pblock x)) xs)"

text \<open>Two stores that differ on the blocks \<open>X\<close> at most.\<close>

definition frame :: "(u64 \<Rightarrow> bytes) \<Rightarrow> (u64 \<Rightarrow> bytes) \<Rightarrow> u64 set \<Rightarrow> bool" where
  "frame N N' X \<longleftrightarrow> (\<forall>q. q \<notin> X \<longrightarrow> N' q = N q)"

lemma frame_trans: "frame N M X \<Longrightarrow> frame M N' Y \<Longrightarrow> frame N N' (X \<union> Y)"
  by (simp add: frame_def)

lemma frame_mono: "frame N N' X \<Longrightarrow> X \<subseteq> Y \<Longrightarrow> frame N N' Y"
  by (auto simp: frame_def)

lemma frame_update: "q \<in> X \<Longrightarrow> frame N M X \<Longrightarrow> frame N (M(q := d)) X"
  by (auto simp: frame_def)

lemma concat_map_update:
  "i < length xs \<Longrightarrow> concat (map f (xs[i := y])) = concat (map f (take i xs)) @ f y @ concat (map f (drop (Suc i) xs))"
  by (simp add: upd_conv_take_nth_drop)

lemma first_key_kids: "kids data \<noteq> [] \<Longrightarrow> first_key data = ix_first_block (kids data ! 0)"
  unfolding kids_def by (subst nth_slots) (simp_all add: codec_simps flip: length_greater_0_conv)

text \<open>
  One step of correct_indexes.  Below entry \<open>i\<close> of the node \<open>q\<close> the subtree was replaced
  (store \<open>N1\<close> instead of \<open>N\<close>), perhaps with another first key; then the entry gets that key.
\<close>

lemma fix_index:
  assumes sub: "sub b N (Suc d) q" and i: "i < length (kids (N q))" "x = kids (N q) ! i" "c = index_get_pblock x"
    and dist: "distinct (blks N (Suc d) q)" and F: "F \<inter> set (blks N (Suc d) q) = {}"
    and same: "frame N N1 (set (blks N d c) \<union> F)"
    and c: "sub b N1 d c" "set (blks N1 d c) \<subseteq> set (blks N d c) \<union> F"
    and ok: "extents_ok (sb_blocks_cnt b) (exts_below N d (take i (kids (N q))) @ exts N1 d c
      @ exts_below N d (drop (Suc i) (kids (N q))))"
    and bs: "block_size_ok b"
    and data: "data = index_store (slot i) (x\<lparr>ix_first_block := first_key (N1 c)\<rparr>) (N1 q)"
  shows "node_form b q (Suc d) data"
    and "sealed b q data d2 \<Longrightarrow> sub b (N1(q := d2)) (Suc d) q
      \<and> exts (N1(q := d2)) (Suc d) q = exts_below N d (take i (kids (N q))) @ exts N1 d c
          @ exts_below N d (drop (Suc i) (kids (N q)))
      \<and> blks (N1(q := d2)) (Suc d) q = q # blks_below N d (take i (kids (N q))) @ blks N1 d c
          @ blks_below N d (drop (Suc i) (kids (N q)))
      \<and> first_key d2 = (if i = 0 then first_key (N1 c) else first_key (N q))"
proof -
  let ?xs = "kids (N q)" and ?x' = "x\<lparr>ix_first_block := first_key (N1 c)\<rparr>"
  have bl: "blks N (Suc d) q = q # blks_below N d (take i ?xs) @ blks N d c @ blks_below N d (drop (Suc i) ?xs)"
    using kids_split [OF i(1), of "\<lambda>x. blks N d (index_get_pblock x)"] i(2,3) by simp
  have x_in: "x \<in> set ?xs" using i by simp
  have gx: "index_get_pblock ?x' = c" by (simp add: i(3) index_get_pblock_def)
  have cq: "c \<noteq> 0" using sub_child(1) [OF sub x_in] i(3) by simp
  have q: "q \<notin> set (blks N d c)" "q \<notin> F" "q \<notin> set (blks N1 d c)"
    using dist F c(2) unfolding bl by auto
  then have N1q: "N1 q = N q" using same by (simp add: frame_def)
  have form: "node_form b q (Suc d) (N q)" using sub_node [OF sub] by (simp add: node_valid_def)
  have "data = index_store (slot i) ?x' (N q)" using data N1q by simp
  note e = index_store_effect [OF form bs i(1), of ?x', folded this]
  define M where "M D = N1(q := D)" for D
  have side: "exts (M D) d (index_get_pblock y) = exts N d (index_get_pblock y)
      \<and> blks (M D) d (index_get_pblock y) = blks N d (index_get_pblock y)
      \<and> sub b (M D) d (index_get_pblock y) \<and> ix_first_block y = first_key (M D (index_get_pblock y))
      \<and> y \<in> set ?xs"
    if y: "y \<in> set (take i ?xs) \<or> y \<in> set (drop (Suc i) ?xs)" for y D
  proof -
    have y_in: "y \<in> set ?xs" using y in_set_takeD in_set_dropD by metis
    have "M D p = N p" if "p \<in> set (blks N d (index_get_pblock y))" for p
    proof -
      have "p \<noteq> q" "p \<notin> set (blks N d c)" "p \<notin> F" using that y dist F unfolding bl by auto
      then show ?thesis using same by (simp add: M_def frame_def)
    qed
    with agree [of N d "index_get_pblock y" "M D" b] sub_child [OF sub y_in] y_in show ?thesis by auto
  qed
  have mid: "exts (M D) d c = exts N1 d c \<and> blks (M D) d c = blks N1 d c \<and> sub b (M D) d c
      \<and> M D c = N1 c" for D
  proof -
    have "c \<noteq> q" using q(3) blks_self by metis
    with agree [of N1 d c "M D" b] q(3) c(1) show ?thesis by (auto simp: M_def)
  qed
  have kd: "kids data = take i ?xs @ ?x' # drop (Suc i) ?xs"
    using e(3) i(1) by (simp add: upd_conv_take_nth_drop)
  have kids_ok: "index_ok (sb_blocks_cnt b) y \<and> sub b (M D) d (index_get_pblock y)
      \<and> index_get_pblock y \<noteq> 0 \<and> ix_first_block y = first_key (M D (index_get_pblock y))"
    if "y \<in> set (kids data)" for y D
  proof -
    have ix: "index_ok (sb_blocks_cnt b) z \<and> index_get_pblock z \<noteq> 0" if "z \<in> set ?xs" for z
      using node_valid_kids [OF sub_node [OF sub]] that by (auto simp: indices_ok_def)
    from that have "y = ?x' \<or> y \<in> set (take i ?xs) \<or> y \<in> set (drop (Suc i) ?xs)"
      unfolding kd by auto
    then show ?thesis
      using ix [of y] ix [OF x_in] side [of y D] mid [of D] gx i(3) cq by (auto simp: index_ok_def)
  qed
  have below: "exts_below (M D) d (kids data) = exts_below N d (take i ?xs) @ exts N1 d c
      @ exts_below N d (drop (Suc i) ?xs)"
    "blks_below (M D) d (kids data) = blks_below N d (take i ?xs) @ blks N1 d c
      @ blks_below N d (drop (Suc i) ?xs)" for D
    using side mid by (simp_all add: kd gx cong: map_cong)
  have "indices_ok (sb_blocks_cnt b) (kids data)"
  proof (rule kids_sorted [where f = "\<lambda>x. exts (M []) d (index_get_pblock x)"])
    fix y assume "y \<in> set (kids data)"
    note k = kids_ok [OF this, of "[]"]
    with sub_first [of b "M []" d "index_get_pblock y"]
    show "index_ok (sb_blocks_cnt b) y \<and> exts (M []) d (index_get_pblock y) \<noteq> []
        \<and> first_block (hd (exts (M []) d (index_get_pblock y))) = ix_first_block y" by simp
  qed (simp only: below ok)
  from node_form_index [OF form e(1,2) this] show nf: "node_form b q (Suc d) data" .
  show "sub b (N1(q := d2)) (Suc d) q
      \<and> exts (N1(q := d2)) (Suc d) q = exts_below N d (take i ?xs) @ exts N1 d c @ exts_below N d (drop (Suc i) ?xs)
      \<and> blks (N1(q := d2)) (Suc d) q = q # blks_below N d (take i ?xs) @ blks N1 d c @ blks_below N d (drop (Suc i) ?xs)
      \<and> first_key d2 = (if i = 0 then first_key (N1 c) else first_key (N q))"
    if s: "sealed b q data d2"
  proof -
    note sl = sealed_node [OF s nf bs]
    have Mq: "N1(q := d2) = M d2" "M d2 q = d2" by (simp_all add: M_def)
    have "sub b (M d2) (Suc d) q"
      using sub_kids [OF nf _ bs, of "M d2"] s kids_ok Mq(2) by auto
    moreover have "exts (M d2) (Suc d) q = exts_below (M d2) d (kids data)"
      "blks (M d2) (Suc d) q = q # blks_below (M d2) d (kids data)" by (simp_all add: Mq(2) sl(4))
    moreover have "first_key d2 = (if i = 0 then first_key (N1 c) else first_key (N q))"
    proof -
      have "kids d2 ! 0 = (if i = 0 then ?x' else ?xs ! 0)"
        using i(1) by (auto simp: sl(4) kd nth_append)
      moreover have "kids d2 \<noteq> []" "?xs \<noteq> []" using i(1) by (auto simp: sl(4) kd)
      ultimately show ?thesis using first_key_kids [of d2] first_key_kids [of "N q"] by simp
    qed
    ultimately show ?thesis unfolding Mq(1) below by blast
  qed
qed

section \<open>correct_indexes\<close>

definition lengths_ok :: "ext4_sb \<Rightarrow> (u64 \<Rightarrow> bytes) \<Rightarrow> bool" where
  "lengths_ok b N \<longleftrightarrow> (\<forall>q. q \<noteq> 0 \<longrightarrow> length (N q) = unat (sb_block_size b))"

lemma lengths_ok_update:
  assumes "lengths_ok b N" "sealed b pb data d" "node_form b pb dep data" "block_size_ok b"
  shows "lengths_ok b (N(pb := d))"
proof -
  have "length d = unat (sb_block_size b)" if "pb \<noteq> 0"
    using sealed_node(2) [OF assms(2-4)] assms(3) that by (simp add: node_form_def)
  with assms(1) show ?thesis by (auto simp: lengths_ok_def)
qed

text \<open>
  \<open>spliced\<close>: in the tree below \<open>pb\<close> the subtree at the end of the path \<open>ns\<close>, which in \<open>N\<close> was
  the one at \<open>c\<close>, now has the extents \<open>es\<close> and the blocks \<open>bl\<close>; the rest is what it was.
\<close>

definition spliced :: "ext4_sb \<Rightarrow> (u64 \<Rightarrow> bytes) \<Rightarrow> nat \<Rightarrow> u64 \<Rightarrow> extent_path_node list \<Rightarrow> nat \<Rightarrow> u64
    \<Rightarrow> ext4_extent list \<Rightarrow> u64 list \<Rightarrow> (u64 \<Rightarrow> bytes) \<Rightarrow> bool" where
  "spliced b N d pb ns d' c es bl N' \<longleftrightarrow> sub b N' d pb
     \<and> exts N' d pb = before N d pb ns @ es @ after N d pb ns
     \<and> (\<exists>ba bb. blks N d pb = ba @ blks N d' c @ bb \<and> blks N' d pb = ba @ bl @ bb)"

lemma spliced_distinct:
  assumes "spliced b N d pb ns d' c es bl N'" "distinct (blks N d pb)" "distinct bl"
    and "set bl \<subseteq> set (blks N d' c) \<union> F" "F \<inter> set (blks N d pb) = {}"
  shows "distinct (blks N' d pb)" "set (blks N' d pb) \<subseteq> set (blks N d pb) \<union> F"
  using assms unfolding spliced_def by (elim exE conjE; simp; blast)+

lemma replace_spliced:
  assumes "path_at N d pb ns d' c" "sub b N d pb" "distinct (blks N d pb)"
    and "frame N N' (set (blks N d' c) \<union> F)"
    and "F \<inter> set (blks N d pb) = {}"
    and "sub b N' d' c" "ns \<noteq> [] \<Longrightarrow> first_key (N' c) = first_key (N c)"
  shows "spliced b N d pb ns d' c (exts N' d' c) (blks N' d' c) N'"
  using replace_path [OF assms(1-3) _ assms(5-7)] assms(4)
  by (auto simp: spliced_def around_def frame_def)

lemma before_after_snoc:
  assumes "path_at N d pb ns (Suc d') (pblock_of_node n)"
  shows "before N d pb (ns @ [n]) = before N d pb ns
      @ exts_below N d' (take (position n) (kids (N (pblock_of_node n))))"
    and "after N d pb (ns @ [n])
      = exts_below N d' (drop (Suc (position n)) (kids (N (pblock_of_node n)))) @ after N d pb ns"
  using assms by (induction ns arbitrary: d pb) auto

text \<open>One level up: the subtree of a path's last node, spliced into the tree at its parent.\<close>

lemma spliced_snoc:
  assumes "path_at N d pb (ns @ [n]) d' c" "q = pblock_of_node n"
    and sp: "spliced b N d pb ns (Suc d') q es bl N'"
    and "es = exts_below N d' (take (position n) (kids (N q))) @ es' @ exts_below N d' (drop (Suc (position n)) (kids (N q)))"
    and "bl = q # blks_below N d' (take (position n) (kids (N q))) @ bl' @ blks_below N d' (drop (Suc (position n)) (kids (N q)))"
  shows "spliced b N d pb (ns @ [n]) d' c es' bl' N'"
proof -
  have n: "path_at N d pb ns (Suc d') q" "position n < length (kids (N q))"
    "index n = kids (N q) ! position n" "c = index_get_pblock (index n)"
    using assms(1,2) by (auto simp: path_at_snoc)
  have bl: "blks N (Suc d') q = q # blks_below N d' (take (position n) (kids (N q))) @ blks N d' c
      @ blks_below N d' (drop (Suc (position n)) (kids (N q)))"
    using kids_split [OF n(2), of "\<lambda>x. blks N d' (index_get_pblock x)"] n(3,4) by simp
  have "exts N' d pb = before N d pb (ns @ [n]) @ es' @ after N d pb (ns @ [n])" "sub b N' d pb"
    using sp before_after_snoc [OF n(1) [unfolded assms(2)]] assms(2,4) by (simp_all add: spliced_def)
  moreover have "\<exists>ba bb. blks N d pb = ba @ blks N d' c @ bb \<and> blks N' d pb = ba @ bl' @ bb"
  proof -
    obtain ba bb where "blks N d pb = ba @ blks N (Suc d') q @ bb" "blks N' d pb = ba @ bl @ bb"
      using sp by (auto simp: spliced_def)
    then show ?thesis
      unfolding bl assms(5)
      by (intro exI [of _ "ba @ q # blks_below N d' (take (position n) (kids (N q)))"]
          exI [of _ "blks_below N d' (drop (Suc (position n)) (kids (N q))) @ bb"]) simp
  qed
  ultimately show ?thesis by (simp add: spliced_def)
qed

lemma correct_indexes_ok:
  assumes io: "io_reliable io" "alloc_laws io used" "block_size_ok (sb io)"
    and tree: "sub (sb io) N d 0" "distinct (blks N d 0)" "F \<inter> set (blks N d 0) = {}"
    and p: "\<And>i. i < length ns \<Longrightarrow> path p ! i = ns ! i"
    and "path_at N d 0 ns d' c"
    and "frame N (nodes s) (set (blks N d' c) \<union> F)"
    and "sub (sb io) (nodes s) d' c" "set (blks (nodes s) d' c) \<subseteq> set (blks N d' c) \<union> F"
    and "extents_ok (sb_blocks_cnt (sb io)) (before N d 0 ns @ exts (nodes s) d' c @ after N d 0 ns)"
    and "lengths_ok (sb io) (nodes s)"
  shows "\<exists>s'. correct_indexes io p (length ns) (first_key (nodes s c)) s = (EOK, s')
    \<and> used (env s') = used (env s) \<and> lengths_ok (sb io) (nodes s')
    \<and> spliced (sb io) N d 0 ns d' c (exts (nodes s) d' c) (blks (nodes s) d' c) (nodes s')"
  using assms(7-)
proof (induction ns arbitrary: d' c s rule: rev_induct)
  case Nil
  then show ?case by (auto simp: spliced_def intro: exI [of _ "[]"])
next
  case (snoc n ns)
  define q where "q = pblock_of_node n"
  let ?N1 = "nodes s" and ?i = "position n" and ?x = "index n"
  have n: "path_at N d 0 ns (Suc d') q" "?i < length (kids (N q))" "?x = kids (N q) ! ?i"
    "c = index_get_pblock ?x"
    using snoc.prems(2) by (auto simp: path_at_snoc q_def)
  have nth: "path p ! length ns = n" "\<And>i. i < length ns \<Longrightarrow> path p ! i = ns ! i"
    using snoc.prems(1) [of "length ns"] snoc.prems(1) by (auto simp: nth_append)
  let ?data = "index_store (slot ?i) (?x\<lparr>ix_first_block := first_key (?N1 c)\<rparr>) (?N1 q)"
  have sub_q: "sub (sb io) N (Suc d') q" using path_sub [OF n(1) tree(1)] .
  have blq: "set (blks N (Suc d') q) \<subseteq> set (blks N d 0)" using path_blks [OF n(1)] .
  have dist_q: "distinct (blks N (Suc d') q)"
    using replace_spliced [where F = "{}" and N' = N, OF n(1) tree(1,2)] sub_q tree(2)
    by (auto simp: spliced_def frame_def)
  have F_q: "F \<inter> set (blks N (Suc d') q) = {}" using tree(3) blq by auto
  let ?es = "exts_below N d' (take ?i (kids (N q))) @ exts ?N1 d' c @ exts_below N d' (drop (Suc ?i) (kids (N q)))"
  let ?bl = "q # blks_below N d' (take ?i (kids (N q))) @ blks ?N1 d' c @ blks_below N d' (drop (Suc ?i) (kids (N q)))"
  note ba = before_after_snoc [OF n(1) [unfolded q_def], folded q_def]
  have "extents_ok (sb_blocks_cnt (sb io)) (before N d 0 ns @ ?es @ after N d 0 ns)"
    using snoc.prems(6) by (simp add: ba)
  then have ok: "extents_ok (sb_blocks_cnt (sb io)) ?es" by (rule extents_ok_mid)
  note fx = fix_index [OF sub_q n(2-4) dist_q F_q snoc.prems(3-5) ok io(3) refl]
  obtain s1 where s1: "write_index_at io n ?i (?x\<lparr>ix_first_block := first_key (?N1 c)\<rparr>) s = (EOK, s1)"
    "stored (sb io) used s q ?data s1"
    using write_index_at_stored [OF io, of n "Suc d'" ?i _ s] fx(1) by (auto simp: q_def)
  then obtain d2 where d2: "sealed (sb io) q ?data d2" "nodes s1 = ?N1(q := d2)" "used (env s1) = used (env s)"
    by (auto simp: stored_def)
  note f2 = fx(2) [OF d2(1), folded d2(2)]
  have f2: "sub (sb io) (nodes s1) (Suc d') q" "exts (nodes s1) (Suc d') q = ?es"
    "blks (nodes s1) (Suc d') q = ?bl"
    "first_key (nodes s1 q) = (if ?i = 0 then first_key (?N1 c) else first_key (N q))"
    using f2 d2(2) by (simp_all only: fun_upd_same)
  have len: "lengths_ok (sb io) (nodes s1)"
    using lengths_ok_update [OF snoc.prems(7) d2(1) fx(1) io(3)] d2(2) by simp
  have "set (blks N d' c) \<subseteq> set (blks N (Suc d') q)"
    using path_blks [of N "Suc d'" q "[n]" d' c] n by (auto simp: q_def)
  with snoc.prems(3) have frame: "frame N (nodes s1) (set (blks N (Suc d') q) \<union> F)"
    unfolding d2(2) by (intro frame_update) (auto elim: frame_mono)
  let ?goal = "\<lambda>s'. spliced (sb io) N d 0 (ns @ [n]) d' c (exts ?N1 d' c) (blks ?N1 d' c) (nodes s')"
  have up: "?goal s'" if "spliced (sb io) N d 0 ns (Suc d') q ?es ?bl (nodes s')" for s'
    using spliced_snoc [OF snoc.prems(2) q_def that refl refl] .
  have step: "correct_indexes io p (length (ns @ [n])) (first_key (?N1 c)) s
      = (if ?i \<noteq> 0 then (EOK, s1) else correct_indexes io p (length ns) (first_key (?N1 c)) s1)"
    using s1(1) nth(1) by simp
  show ?case
  proof (cases "?i = 0")
    case False
    then have "spliced (sb io) N d 0 ns (Suc d') q ?es ?bl (nodes s1)"
      using replace_spliced [OF n(1) tree(1,2) frame tree(3) f2(1)] f2(2-4) by simp
    with up False len d2(3) show ?thesis unfolding step by auto
  next
    case True
    have "set ?bl \<subseteq> set (blks N (Suc d') q) \<union> F"
      using snoc.prems(5) kids_split [OF n(2), of "\<lambda>x. blks N d' (index_get_pblock x)"] n(3,4) by auto
    then obtain s' where "correct_indexes io p (length ns) (first_key (?N1 c)) s1 = (EOK, s')"
      "used (env s') = used (env s1)" "lengths_ok (sb io) (nodes s')"
      "spliced (sb io) N d 0 ns (Suc d') q ?es ?bl (nodes s')"
      using snoc.IH [OF nth(2) n(1) frame f2(1), unfolded f2(2,3)] len True f2(4)
        \<open>extents_ok _ (before N d 0 ns @ ?es @ after N d 0 ns)\<close> by auto
    with up True d2(3) show ?thesis unfolding step by auto
  qed
qed

end
