(* ===== verification/Extent_Deep.thy ===== *)
theory Extent_Deep
  imports Extent_Write
begin

text \<open>
  Insertion into the leaf a lookup found, in a tree of any depth: the invariant of a tree and
  of the blocks it occupies, the new extent in a gap of the leaf or merged with a neighbour,
  and the keys above it.
\<close>

section \<open>The invariant\<close>

definition tree_inv :: "ext4_sb \<Rightarrow> ('e \<Rightarrow> u64 set) \<Rightarrow> 'e istate \<Rightarrow> bool" where
  "tree_inv b used s \<longleftrightarrow> sub b (nodes s) (root_depth s) 0
     \<and> extents_ok (sb_blocks_cnt b) (exts (nodes s) (root_depth s) 0)
     \<and> distinct (blks (nodes s) (root_depth s) 0) \<and> lengths_ok b (nodes s)
     \<and> set (blks (nodes s) (root_depth s) 0) \<subseteq> insert 0 (used (env s))"

lemma tree_inv_tree_ok:
  assumes "tree_inv b used s"
  shows "tree_ok b s" "tree_extents s = exts (nodes s) (root_depth s) 0"
  using assms sub_tree_ok [of b s] by (simp_all add: tree_inv_def)

lemma sub_root_depth: "sub b (nodes s) d 0 \<Longrightarrow> root_depth s = d"
  using sub_node [of b "nodes s" d 0] by (simp add: node_valid_def node_form_def root_depth_def)

lemma calm_root: "calm used s s' \<Longrightarrow> root s' = root s"
  unfolding calm_def by (metis nodes_root)

text \<open>The blocks of a tree; a change adds exactly the blocks that it allocated.\<close>

definition tree_blocks :: "'e istate \<Rightarrow> u64 set" where
  "tree_blocks s = set (blks (nodes s) (root_depth s) 0)"

definition takes_new :: "('e \<Rightarrow> u64 set) \<Rightarrow> 'e istate \<Rightarrow> 'e istate \<Rightarrow> bool" where
  "takes_new used s s' \<longleftrightarrow> used (env s) \<subseteq> used (env s')
     \<and> tree_blocks s' = tree_blocks s \<union> (used (env s') - used (env s))"

lemma takes_new_trans: "takes_new used s t \<Longrightarrow> takes_new used t u \<Longrightarrow> takes_new used s u"
  unfolding takes_new_def by blast

lemma calm_inv:
  assumes "calm used s s'"
  shows "tree_inv b used s' = tree_inv b used s" "tree_extents s' = tree_extents s"
    "root_depth s' = root_depth s" "tree_map s' = tree_map s" "tree_blocks s' = tree_blocks s"
  using assms calm_root [OF assms]
  by (simp_all add: calm_def tree_inv_def tree_extents_def root_depth_def tree_map_def tree_blocks_def)

lemma calm_takes_new: "calm used s s' \<Longrightarrow> takes_new used s s'"
  using calm_inv(5) [of used s s'] by (simp add: takes_new_def calm_def)

lemma tree_inv_spliced:
  assumes inv: "tree_inv b used s" and sp: "spliced b (nodes s) (root_depth s) 0 ns d' c es bl (nodes s')"
    and ok: "extents_ok (sb_blocks_cnt b)
      (before (nodes s) (root_depth s) 0 ns @ es @ after (nodes s) (root_depth s) 0 ns)"
    and bl: "distinct bl" "set bl \<subseteq> set (blks (nodes s) d' c) \<union> F"
    and F: "F \<inter> set (blks (nodes s) (root_depth s) 0) = {}" "F \<subseteq> used (env s')"
    and used: "used (env s) \<subseteq> used (env s')" and len: "lengths_ok b (nodes s')"
  shows "tree_inv b used s'" "root_depth s' = root_depth s"
    "tree_extents s' = before (nodes s) (root_depth s) 0 ns @ es @ after (nodes s) (root_depth s) 0 ns"
    "tree_blocks s' = (tree_blocks s - set (blks (nodes s) d' c)) \<union> set bl"
proof -
  have s: "sub b (nodes s') (root_depth s) 0"
    "exts (nodes s') (root_depth s) 0 = before (nodes s) (root_depth s) 0 ns @ es @ after (nodes s) (root_depth s) 0 ns"
    using sp by (simp_all add: spliced_def)
  show d: "root_depth s' = root_depth s" using sub_root_depth [OF s(1)] .
  have dist: "distinct (blks (nodes s) (root_depth s) 0)" using inv by (simp add: tree_inv_def)
  note b = spliced_distinct [OF sp this bl F(1)]
  have "set (blks (nodes s') (root_depth s) 0) \<subseteq> insert 0 (used (env s'))"
    using b(2) F(2) used inv unfolding tree_inv_def by blast
  then show t: "tree_inv b used s'"
    using s ok b(1) len unfolding tree_inv_def d by simp
  obtain ba bb where "blks (nodes s) (root_depth s) 0 = ba @ blks (nodes s) d' c @ bb"
    "blks (nodes s') (root_depth s) 0 = ba @ bl @ bb" using sp by (auto simp: spliced_def)
  then show "tree_blocks s' = (tree_blocks s - set (blks (nodes s) d' c)) \<union> set bl"
    using dist by (auto simp: tree_blocks_def d)
  show "tree_extents s' = before (nodes s) (root_depth s) 0 ns @ es @ after (nodes s) (root_depth s) 0 ns"
    using tree_inv_tree_ok(2) [OF t] s(2) d by simp
qed

section \<open>One leaf changes\<close>

text \<open>
  A leaf at the end of a path gets the content \<open>data\<close>; if that changes its first key,
  correct_indexes follows.
\<close>

lemma leaf_changed:
  assumes io: "io_reliable io" "alloc_laws io used" "block_size_ok (sb io)"
    and inv: "tree_inv (sb io) used s" and pt: "path_at (nodes s) (root_depth s) 0 ns 0 c"
    and p: "path p = ns @ [leaf]" "path_depth p = length ns"
    and st: "stored (sb io) used s c data s1" and form: "node_form (sb io) c 0 data"
    and ok: "extents_ok (sb_blocks_cnt (sb io))
      (before (nodes s) (root_depth s) 0 ns @ leaves data @ after (nodes s) (root_depth s) 0 ns)"
  defines "es \<equiv> before (nodes s) (root_depth s) 0 ns @ leaves data @ after (nodes s) (root_depth s) 0 ns"
  shows "ns = [] \<or> first_key data = first_key (nodes s c) \<Longrightarrow>
      tree_inv (sb io) used s1 \<and> tree_extents s1 = es \<and> takes_new used s s1"
    and "first_key data = key \<Longrightarrow> leaves data \<noteq> [] \<Longrightarrow> \<exists>s2. correct_indexes io p (path_depth p) key s1 = (EOK, s2)
      \<and> tree_inv (sb io) used s2 \<and> tree_extents s2 = es \<and> takes_new used s s2"
proof -
  have tree: "sub (sb io) (nodes s) (root_depth s) 0" "distinct (blks (nodes s) (root_depth s) 0)"
    "lengths_ok (sb io) (nodes s)"
    using inv by (simp_all add: tree_inv_def)
  have c_in: "insert c (tree_blocks s) = tree_blocks s"
    using path_blks [OF pt] by (auto simp: tree_blocks_def)
  obtain d where d: "sealed (sb io) c data d" "nodes s1 = (nodes s)(c := d)" "used (env s1) = used (env s)"
    using st by (auto simp: stored_def)
  note sl = sealed_node [OF d(1) form io(3)]
  have sub1: "sub (sb io) (nodes s1) 0 c" using sl(1) by (simp add: d(2))
  have es1: "exts (nodes s1) 0 c = leaves data" "blks (nodes s1) 0 c = [c]"
    by (simp_all add: d(2) sl(5))
  have fr: "frame (nodes s) (nodes s1) (set (blks (nodes s) 0 c) \<union> {})" by (simp add: frame_def d(2))
  have len: "lengths_ok (sb io) (nodes s1)"
    using lengths_ok_update [OF tree(3) d(1) form io(3)] by (simp add: d(2))
  note fin = tree_inv_spliced [OF inv, of ns 0 c "leaves data" "[c]", where F = "{}"]
  show "tree_inv (sb io) used s1 \<and> tree_extents s1 = es \<and> takes_new used s s1"
    if "ns = [] \<or> first_key data = first_key (nodes s c)"
  proof -
    have ne: "entries_count (header_load data) \<noteq> 0" if "ns \<noteq> []"
      using form path_nonzero [OF pt tree(1) that] by (simp add: node_form_def)
    have "spliced (sb io) (nodes s) (root_depth s) 0 ns 0 c (leaves data) [c] (nodes s1)"
      using replace_spliced [OF pt tree(1,2) fr _ sub1] that ne sl(6) unfolding es1 by (auto simp: d(2))
    from fin [OF this ok _ _ _ _ _ len] d(3) show ?thesis by (simp add: es_def takes_new_def c_in)
  qed
  show "\<exists>s2. correct_indexes io p (path_depth p) key s1 = (EOK, s2)
      \<and> tree_inv (sb io) used s2 \<and> tree_extents s2 = es \<and> takes_new used s s2"
    if "first_key data = key" "leaves data \<noteq> []"
  proof -
    have "entries_count (header_load data) \<noteq> 0"
      using that(2) by (auto simp: leaves_def)
    then have key: "key = first_key (nodes s1 c)" using that(1) sl(6) by (simp add: d(2))
    have nth: "\<And>i. i < length ns \<Longrightarrow> path p ! i = ns ! i" by (simp add: p(1) nth_append)
    obtain s2 where s2: "correct_indexes io p (length ns) key s1 = (EOK, s2)" "used (env s2) = used (env s1)"
      "lengths_ok (sb io) (nodes s2)"
      "spliced (sb io) (nodes s) (root_depth s) 0 ns 0 c (leaves data) [c] (nodes s2)"
      using correct_indexes_ok [OF io tree(1,2) _ nth pt fr sub1, unfolded es1 key [symmetric]] ok len by auto
    from fin [OF s2(4) ok _ _ _ _ _ s2(3)] s2(1,2) d(3) p(2) show ?thesis by (simp add: es_def takes_new_def c_in)
  qed
qed

section \<open>The new content of a leaf\<close>

lemma found_leaf_leaves:
  fixes s :: "'e istate" and n :: extent_path_node
  defines "L \<equiv> leaves (nodes s (pblock_of_node n))"
  assumes "found_leaf s lb n"
  shows "header n = header_load (nodes s (pblock_of_node n))" "have_extent n = (L \<noteq> [])"
    "unat (entries_count (header n)) = length L"
    "L \<noteq> [] \<Longrightarrow> extent n = L ! position n" "L \<noteq> [] \<Longrightarrow> search_pos L (unat lb) (position n)"
proof -
  show h: "header n = header_load (nodes s (pblock_of_node n))"
    using assms(2) unfolding found_leaf_def Let_def nodes_def by blast
  show n: "unat (entries_count (header n)) = length L" by (simp add: L_def length_leaves h)
  then show v: "have_extent n = (L \<noteq> [])"
    using assms(2) unfolding found_leaf_def Let_def by (metis length_0_conv unat_eq_zero)
  have "L = leaf_list (header n) (node_data (pblock_of_node n) s)"
    by (simp add: L_def leaves_def h nodes_def)
  then show "L \<noteq> [] \<Longrightarrow> extent n = L ! position n" "L \<noteq> [] \<Longrightarrow> search_pos L (unat lb) (position n)"
    using assms(2) v unfolding found_leaf_def Let_def by metis+
qed

lemma first_key_leaves: "leaves data \<noteq> [] \<Longrightarrow> first_key data = first_block (leaves data ! 0)"
  unfolding leaves_def by (subst nth_slots) (simp_all add: codec_simps flip: length_greater_0_conv)

lemma node_form_leaf:
  "node_form b c 0 data \<longleftrightarrow> depth (header_load data) = 0 \<and> extents_ok (sb_blocks_cnt b) (leaves data)
     \<and> (if c = 0 then length data = 60 \<and> validate_header True (sb_block_size b) (header_load data) = EOK
        else length data = unat (sb_block_size b)
          \<and> validate_header False (sb_block_size b) (header_load data) = EOK
          \<and> leaves data \<noteq> [] \<and> 4 < unat (max_entries_count (header_load data)))"
  by (auto simp: node_form_def root_ok_def validate_entries_iff leaves_def unat_eq_zero
      simp flip: length_0_conv)

lemma insert_form:
  assumes "node_form b c 0 data" "block_size_ok b" "\<not> h_full (header_load data)" "i \<le> length (leaves data)"
    and "extents_ok (sb_blocks_cnt b) (take i (leaves data) @ x # drop i (leaves data))"
  defines "data' \<equiv> insert_extent_bytes (header_load data) i x data"
  shows "node_form b c 0 data'" "leaves data' = take i (leaves data) @ x # drop i (leaves data)"
    "first_key data' = (if i = 0 then first_block x else first_key data)"
proof -
  let ?h = "header_load data"
  have n: "unat (entries_count ?h) < unat (max_entries_count ?h)" using assms(3) by (simp add: not_h_full)
  have i: "i \<le> unat (entries_count ?h)" using assms(4) by (simp add: length_leaves)
  have "slot (Suc (unat (entries_count ?h))) \<le> slot (unat (max_entries_count ?h))" using n by (intro slot_le) simp
  with node_form_fits(1) [OF assms(1,2)] have "slot (Suc (unat (entries_count ?h))) \<le> length data" by simp
  note e = insert_extent_bytes_effect [OF i this, of x, folded data'_def]
  have c: "unat (entries_count ?h + 1) = Suc (unat (entries_count ?h))"
    using n unat16_less [of "max_entries_count ?h"] by (intro unat_Suc16) simp
  show L: "leaves data' = take i (leaves data) @ x # drop i (leaves data)"
    using e(3) by (simp add: leaves_def e(1) c)
  show "node_form b c 0 data'"
    using assms(1,5) n unfolding node_form_leaf L
    by (auto simp: e(1,2) c validate_header_root_iff validate_header_block_iff)
  have "leaves data' \<noteq> []" by (simp add: L)
  from first_key_leaves [OF this] first_key_leaves [of data] assms(4)
  show "first_key data' = (if i = 0 then first_block x else first_key data)"
    by (cases "leaves data") (auto simp: L nth_append)
qed

lemma store_form:
  assumes "node_form b c 0 data" "block_size_ok b" "i < length (leaves data)"
    and "extents_ok (sb_blocks_cnt b) ((leaves data)[i := x])"
    and "i = 0 \<Longrightarrow> first_block x = first_block (leaves data ! 0)"
  defines "data' \<equiv> extent_store (slot i) x data"
  shows "node_form b c 0 data'" "leaves data' = (leaves data)[i := x]" "first_key data' = first_key data"
proof -
  let ?h = "header_load data" and ?n = "unat (entries_count (header_load data))"
  have i: "i < ?n" using assms(3) by (simp add: length_leaves)
  have fit: "slot ?n \<le> length data" using node_form_fits [OF assms(1,2)] slot_le le_trans by blast
  have "slot (Suc i) \<le> slot ?n" using i by (intro slot_le) simp
  with fit have sp: "slot i + 12 \<le> length data" by (simp add: slot_Suc)
  have h: "header_load data' = ?h" "length data' = length data"
    using sp by (simp_all add: data'_def header_load_extent_store ext.length_store)
  show L: "leaves data' = (leaves data)[i := x]"
    using ext.slots_store [OF i fit] by (simp add: leaves_def h) (simp add: data'_def)
  show "node_form b c 0 data'" using assms(1,4) unfolding node_form_leaf L by (simp add: h)
  have "leaves data \<noteq> []" "leaves data' \<noteq> []" using assms(3) by (auto simp: L)
  with first_key_leaves assms(3,5) show "first_key data' = first_key data"
    by (auto simp: L nth_list_update)
qed

text \<open>A change of the found leaf, seen as a change of all extents.\<close>

lemma split_search:
  assumes "lookup_split E lb pre L post" "search_pos L (unat lb) pos" "e_first x = unat lb"
  shows "search_pos E (e_first x) (length pre + pos)" "E ! (length pre + pos) = L ! pos"
    "gap_pos E x (length pre + pos) = length pre + gap_pos L x pos"
    "E = pre @ L @ post" "pos < length L"
proof -
  show "search_pos E (e_first x) (length pre + pos)" "E ! (length pre + pos) = L ! pos"
    using lookup_split_search_pos [OF assms(1,2)] assms(3) by simp_all
  show E: "E = pre @ L @ post" using assms(1) by (simp add: lookup_split_def)
  show p: "pos < length L" using assms(2) by (simp add: search_pos_def)
  have "e_first (L ! 0) \<le> e_first x" if "pre \<noteq> []"
    using assms(1,3) that p by (auto simp: lookup_split_def e_first_def word_le_nat_alt hd_conv_nth)
  then show "gap_pos E x (length pre + pos) = length pre + gap_pos L x pos"
    using p by (cases "pre = []") (auto simp: gap_pos_def E nth_append)
qed

lemma split_insert:
  assumes "lookup_split E lb pre L post" "search_pos L (unat lb) pos" "e_first x = unat lb"
    and "extents_ok fs E" "insertable fs E x"
  defines "g \<equiv> gap_pos L x pos"
  shows "extents_ok fs (pre @ (take g L @ x # drop g L) @ post)"
    "ext_map (pre @ (take g L @ x # drop g L) @ post) = map_insert x (ext_map E)"
proof -
  note s = split_search [OF assms(1-3), folded g_def]
  have "g \<le> length L" using assms(2) unfolding g_def by (rule gap_pos_le)
  then have "take (length pre + g) E @ x # drop (length pre + g) E = pre @ (take g L @ x # drop g L) @ post"
    by (simp add: s(4))
  with gap_insert [OF assms(4,5) s(1)] s(3)
  show "extents_ok fs (pre @ (take g L @ x # drop g L) @ post)"
    "ext_map (pre @ (take g L @ x # drop g L) @ post) = map_insert x (ext_map E)" by simp_all
qed

lemma list_update_mid: "i < length ys \<Longrightarrow> (xs @ ys @ zs)[length xs + i := y] = xs @ ys[i := y] @ zs"
  by (simp add: list_update_append)

lemma split_merge_left:
  assumes "lookup_split E lb pre L post" "search_pos L (unat lb) pos" "e_first x = unat lb"
    and "extents_ok fs E" "insertable fs E x" "can_merge (L ! pos) x"
  shows "extents_ok fs (pre @ L[pos := merged_extent (L ! pos) x] @ post)"
    "ext_map (pre @ L[pos := merged_extent (L ! pos) x] @ post) = map_insert x (ext_map E)"
proof -
  note s = split_search [OF assms(1-3)]
  from merge_left [OF assms(4,5) s(1)] assms(6) s(2) list_update_mid [OF s(5), of pre post] s(4)
  show "extents_ok fs (pre @ L[pos := merged_extent (L ! pos) x] @ post)"
    "ext_map (pre @ L[pos := merged_extent (L ! pos) x] @ post) = map_insert x (ext_map E)" by simp_all
qed

lemma split_merge_right:
  assumes "lookup_split E lb pre L post" "search_pos L (unat lb) pos" "e_first x = unat lb"
    and "extents_ok fs E" "insertable fs E x" "can_merge x (L ! (pos + 1))" "pos + 1 < length L"
    and "e_first (L ! pos) \<le> e_first x"
  shows "extents_ok fs (pre @ L[pos + 1 := merged_extent x (L ! (pos + 1))] @ post)"
    "ext_map (pre @ L[pos + 1 := merged_extent x (L ! (pos + 1))] @ post) = map_insert x (ext_map E)"
proof -
  note s = split_search [OF assms(1-3)]
  have nx: "E ! (length pre + pos + 1) = L ! (pos + 1)" "length pre + pos + 1 < length E"
    using assms(7) by (simp_all add: s(4) nth_append)
  have up: "E[length pre + pos + 1 := y] = pre @ L[pos + 1 := y] @ post" for y
    using list_update_mid [OF assms(7), of pre post y] by (simp add: s(4) add.assoc)
  from merge_right [OF assms(4,5) s(1)] assms(6,8) s(2) nx
  show "extents_ok fs (pre @ L[pos + 1 := merged_extent x (L ! (pos + 1))] @ post)"
    "ext_map (pre @ L[pos + 1 := merged_extent x (L ! (pos + 1))] @ post) = map_insert x (ext_map E)"
    by (simp_all add: up [simplified])
qed

section \<open>insert_new_extent\<close>

definition added :: "ext4_sb \<Rightarrow> ('e \<Rightarrow> u64 set) \<Rightarrow> ext4_extent \<Rightarrow> 'e istate \<Rightarrow> 'e istate \<Rightarrow> bool" where
  "added b used x s s' \<longleftrightarrow> tree_inv b used s' \<and> tree_map s' = map_insert x (tree_map s)
     \<and> takes_new used s s'"

lemma stored_bufs:
  "c \<noteq> 0 \<Longrightarrow> stored b used (s\<lparr>bufs := (bufs s)(c := y)\<rparr>) c data s' = stored b used s c data s'"
  by (simp add: stored_def nodes_bufs)

lemma update_block:
  assumes "io_reliable io" "alloc_laws io used" "block_size_ok (sb io)" "c \<noteq> 0"
    and "node_form (sb io) c dep (f (nodes s c))"
  shows "\<exists>s1 s2. node_block_get io c s = (EOK, s1)
    \<and> checksum_and_put io c (s1\<lparr>bufs := (bufs s1)(c := f (bufs s1 c))\<rparr>) = (EOK, s2)
    \<and> stored (sb io) used s c (f (nodes s c)) s2"
proof -
  obtain s1 where s1: "node_block_get io c s = (EOK, s1)" "calm used s s1"
    using reliable_get [OF assms(1,2)] by blast
  then have b: "bufs s1 c = nodes s c" using assms(4) by (simp add: calm_def nodes_block)
  let ?s = "s1\<lparr>bufs := (bufs s1)(c := f (bufs s1 c))\<rparr>"
  from checksum_and_put_stored [OF assms(1-4), of dep ?s] assms(5)
  obtain s2 where "checksum_and_put io c ?s = (EOK, s2)" "stored (sb io) used ?s c (f (nodes s c)) s2"
    by (auto simp: b)
  with s1 stored_calm show ?thesis by (fastforce simp: stored_bufs [OF assms(4)])
qed

text \<open>A path from the root and the leaf it ends at, as find_extent returns them.\<close>

definition walked :: "'e istate \<Rightarrow> u32 \<Rightarrow> extent_search_path \<Rightarrow> extent_path_node list \<Rightarrow> bool" where
  "walked s lb p ns \<longleftrightarrow> path p = ns @ [leaf_of p] \<and> path_depth p = length ns
     \<and> length ns = root_depth s \<and> found_path s (root_depth s) 0 lb ns (leaf_of p)"

lemma walkedE:
  fixes s :: "'e istate" and p :: extent_search_path and ns :: "extent_path_node list"
  defines "c \<equiv> pblock_of_node (leaf_of p)"
  defines "L \<equiv> leaves (nodes s c)"
    and "pre \<equiv> before (nodes s) (root_depth s) 0 ns" and "post \<equiv> after (nodes s) (root_depth s) 0 ns"
  assumes "walked s lb p ns" "tree_inv b used s"
  shows "path_at (nodes s) (root_depth s) 0 ns 0 c" "lookup_split (tree_extents s) lb pre L post"
    "found_leaf s lb (leaf_of p)" "node_form b c 0 (nodes s c)" "extents_ok (sb_blocks_cnt b) (tree_extents s)"
    "ns = [] \<longleftrightarrow> c = 0" "L = [] \<Longrightarrow> ns = [] \<and> tree_extents s = []"
proof -
  show pt: "path_at (nodes s) (root_depth s) 0 ns 0 c"
    using assms(5) by (simp add: walked_def found_path_def c_def)
  show sp: "lookup_split (tree_extents s) lb pre L post"
    using assms(5) tree_inv_tree_ok(2) [OF assms(6)]
    by (simp add: walked_def found_path_def c_def L_def pre_def post_def)
  show "found_leaf s lb (leaf_of p)" using assms(5) by (simp add: walked_def found_path_def)
  have t: "sub b (nodes s) (root_depth s) 0" using assms(6) by (simp add: tree_inv_def)
  have v: "node_valid b c 0 (nodes s c)" using path_sub [OF pt t] by simp
  then show "node_form b c 0 (nodes s c)" by (simp add: node_valid_def)
  show "extents_ok (sb_blocks_cnt b) (tree_extents s)"
    using assms(6) tree_inv_tree_ok(2) [OF assms(6)] by (simp add: tree_inv_def)
  show nc: "ns = [] \<longleftrightarrow> c = 0" using pt path_nonzero [OF pt t] by auto
  show "L = [] \<Longrightarrow> ns = [] \<and> tree_extents s = []"
    using node_valid_leaves(2) [OF v] nc sp by (auto simp: L_def lookup_split_def)
qed

lemma insert_new_extent_deep:
  assumes io: "io_reliable io" "alloc_laws io used" "block_size_ok (sb io)"
    and inv: "tree_inv (sb io) used s" and x: "insertable (sb_blocks_cnt (sb io)) (tree_extents s) x"
    and w: "walked s (first_block x) p ns" and room: "\<not> h_full (header (leaf_of p))"
  shows "\<exists>s'. insert_new_extent retry io p x s = (EOK, s') \<and> added (sb io) used x s s'"
proof -
  let ?n = "leaf_of p"
  define c where "c = pblock_of_node ?n"
  define data where "data = nodes s c"
  let ?L = "leaves data" and ?h = "header_load data" and ?i = "new_extent_pos ?n x"
  let ?pre = "before (nodes s) (root_depth s) 0 ns" and ?post = "after (nodes s) (root_depth s) 0 ns"
  note wk = walkedE [OF w inv, folded c_def, folded data_def]
  note fl = found_leaf_leaves [OF wk(3), folded c_def, folded data_def]
  define g where "g = (if ?L = [] then 0 else ?i)"
  let ?new = "insert_extent_bytes ?h g x data"
  have xf: "e_first x = unat (first_block x)" by (simp add: e_first_def)
  have g: "g \<le> length ?L" "extents_ok (sb_blocks_cnt (sb io)) (?pre @ (take g ?L @ x # drop g ?L) @ ?post)"
    "ext_map (?pre @ (take g ?L @ x # drop g ?L) @ ?post) = map_insert x (tree_map s)"
  proof -
    have "g \<le> length ?L \<and> extents_ok (sb_blocks_cnt (sb io)) (?pre @ (take g ?L @ x # drop g ?L) @ ?post)
        \<and> ext_map (?pre @ (take g ?L @ x # drop g ?L) @ ?post) = map_insert x (tree_map s)"
    proof (cases "?L = []")
      case True
      then have "?pre = []" "?post = []" "tree_extents s = []"
        using wk(2) by (auto simp: lookup_split_def)
      moreover have "extents_ok (sb_blocks_cnt (sb io)) [x]"
        using x by (simp add: insertable_def extents_ok_Cons)
      ultimately show ?thesis
        using True by (auto simp: g_def tree_map_def map_insert_def ext_covers_def)
    next
      case False
      note sp = fl(5) [OF False]
      have "g = gap_pos ?L x (position ?n)"
        using False fl(2,4) by (auto simp: g_def new_extent_pos_def gap_pos_def e_first_def word_less_nat_alt)
      with split_insert [OF wk(2) sp xf wk(5) x] gap_pos_le [OF sp] show ?thesis
        by (simp add: tree_map_def)
    qed
    then show "g \<le> length ?L" "extents_ok (sb_blocks_cnt (sb io)) (?pre @ (take g ?L @ x # drop g ?L) @ ?post)"
      "ext_map (?pre @ (take g ?L @ x # drop g ?L) @ ?post) = map_insert x (tree_map s)" by blast+
  qed
  have room': "\<not> h_full ?h" using room fl(1) by simp
  note nf = insert_form [OF wk(4) io(3) room' g(1) extents_ok_mid [OF g(2)]]
  have fin: "added (sb io) used x s s'"
    if "tree_inv (sb io) used s' \<and> tree_extents s' = ?pre @ leaves ?new @ ?post \<and> takes_new used s s'" for s'
    using that g(3) by (simp add: added_def tree_map_def nf(2))
  have ok: "extents_ok (sb_blocks_cnt (sb io)) (?pre @ leaves ?new @ ?post)" using g(2) by (simp only: nf(2))
  have pp: "path p = ns @ [?n]" "path_depth p = length ns" using w by (simp_all add: walked_def)
  show ?thesis
  proof (cases "ns = []")
    case True
    then have c: "c = 0" "data = root s" and d0: "path_depth p = 0" using wk(6) pp by (simp_all add: data_def)
    let ?s = "mark_dirty (s\<lparr>root := ?new\<rparr>)"
    have "insert_new_extent retry io p x s = (EOK, ?s)"
    proof (cases "?L = []")
      case True
      then have "entries_count ?h = 0" using fl(1,3) by (simp add: unat_eq_zero)
      then show ?thesis
        using True d0 fl(1) c(2) by (simp add: insert_new_extent_def Let_def g_def insert_extent_bytes_def)
    next
      case False
      then have "entries_count ?h \<noteq> 0" using fl(1,3) by auto
      then show ?thesis
        using False d0 fl(1) c(2) room' by (auto simp: insert_new_extent_def Let_def g_def h_full_def)
    qed
    moreover have "stored (sb io) used s 0 ?new ?s"
      by (simp add: stored_def sealed_def nodes_update_root)
    then have "tree_inv (sb io) used ?s \<and> tree_extents ?s = ?pre @ leaves ?new @ ?post \<and> takes_new used s ?s"
      using leaf_changed(1) [OF io inv wk(1) pp _ nf(1) ok] True c(1) by simp
    ultimately show ?thesis using fin by blast
  next
    case False
    then have c: "c \<noteq> 0" and d: "path_depth p \<noteq> 0" and L: "?L \<noteq> []" and gi: "g = ?i"
      using wk(6,7) pp(2) by (auto simp: g_def)
    obtain s1 s2 where s12: "node_block_get io c s = (EOK, s1)"
      "checksum_and_put io c (s1\<lparr>bufs := (bufs s1)(c := insert_extent_bytes ?h g x (bufs s1 c))\<rparr>) = (EOK, s2)"
      "stored (sb io) used s c ?new s2"
      using update_block [OF io c, of 0 "insert_extent_bytes ?h g x" s] nf(1) by (auto simp: data_def)
    have eq: "insert_new_extent retry io p x s
        = (if g = 0 then correct_indexes io p (path_depth p) (first_block x) s2 else (EOK, s2))"
      using s12(1,2) d fl(1) by (simp add: insert_new_extent_def Let_def gi flip: c_def)
    note ch = leaf_changed [OF io inv wk(1) pp s12(3) nf(1) ok]
    show ?thesis
    proof (cases "g = 0")
      case True
      from ch(2) [of "first_block x"] nf(2,3) True fin show ?thesis by (auto simp: eq)
    next
      case gpos: False
      from ch(1) nf(3) gpos fin show ?thesis by (auto simp: eq data_def)
    qed
  qed
qed

section \<open>insert_extent when the leaf has room or the extent merges\<close>

lemma store_merged_stored:
  fixes p :: extent_search_path and s :: "'e istate"
  defines "c \<equiv> pblock_of_node (leaf_of p)"
  assumes io: "io_reliable io" "alloc_laws io used" "block_size_ok (sb io)"
    and h: "header (leaf_of p) = header_load (nodes s c)" and form: "node_form (sb io) c 0 (nodes s c)"
    and form': "node_form (sb io) c 0 (extent_store (slot i) (merged_extent l r) (nodes s c))"
  shows "\<exists>s'. store_merged io p l r i s = (EOK, s')
    \<and> stored (sb io) used s c (extent_store (slot i) (merged_extent l r) (nodes s c)) s'"
proof (cases "c = 0")
  case True
  then have "unat (max_entries_count (header_load (root s))) \<le> 4"
    using form by (simp add: node_form_leaf validate_header_root_iff)
  with True h show ?thesis
    by (simp add: store_merged_def merge_extent_def Let_def c_def stored_def sealed_def nodes_update_root)
next
  case False
  then have m: "4 < unat (max_entries_count (header_load (nodes s c)))"
    using form by (simp add: node_form_leaf)
  obtain s1 s2 where s12: "node_block_get io c s = (EOK, s1)"
    "checksum_and_put io c (s1\<lparr>bufs := (bufs s1)(c := extent_store (slot i) (merged_extent l r) (bufs s1 c))\<rparr>) = (EOK, s2)"
    "stored (sb io) used s c (extent_store (slot i) (merged_extent l r) (nodes s c)) s2"
    using update_block [OF io False, of 0 "extent_store (slot i) (merged_extent l r)" s] form' by auto
  have "store_merged io p l r i s = (EOK, s2)"
    using s12(1,2) m False h by (simp add: store_merged_def merge_extent_def Let_def flip: c_def)
  with s12(3) show ?thesis by blast
qed

lemma node_get_extent_reliable:
  assumes "io_reliable io" "alloc_laws io used" "header n = header_load (nodes s (pblock_of_node n))"
    and "i < length (leaves (nodes s (pblock_of_node n)))"
  shows "\<exists>s'. node_get_extent io n i s = (Inr (leaves (nodes s (pblock_of_node n)) ! i), s') \<and> calm used s s'"
proof (cases "pblock_of_node n = 0")
  case True
  with assms(4) show ?thesis by (simp add: node_get_extent_def leaves_def)
next
  case False
  obtain s1 where s1: "node_block_get io (pblock_of_node n) s = (EOK, s1)" "calm used s s1"
    using reliable_get [OF assms(1,2)] by blast
  obtain s2 where s2: "ext4_block_set io (pblock_of_node n) s1 = (EOK, s2)" "calm used s1 s2"
    using reliable_set [OF assms(1,2)] by blast
  have "bufs s1 (pblock_of_node n) = nodes s (pblock_of_node n)"
    using s1(2) False by (simp add: calm_def nodes_block)
  with s1 s2 False assms(4) show ?thesis
    by (auto simp: node_get_extent_def leaves_def intro: calm_trans)
qed

lemma walked_calm: "calm used s s' \<Longrightarrow> walked s' lb p ns = walked s lb p ns"
proof -
  assume c: "calm used s s'"
  then have N: "nodes s' = nodes s" by (simp add: calm_def)
  then have "node_data pb s' = node_data pb s" for pb
    by (simp add: nodes_def fun_eq_iff)
  then have "found_leaf s' lb n = found_leaf s lb n" for n
    by (simp add: found_leaf_def)
  with N calm_inv(3) [OF c] show ?thesis by (simp add: walked_def found_path_def)
qed

lemma added_calm: "calm used s s1 \<Longrightarrow> added b used x s1 s' = added b used x s s'"
  by (simp add: added_def takes_new_def calm_inv) (simp add: calm_def)

lemma find_extent_walked:
  assumes "io_reliable io" "alloc_laws io used" "tree_inv (sb io) used s"
  shows "\<exists>p s1 ns. find_extent io lb s = (Inr p, s1) \<and> calm used s s1 \<and> walked s lb p ns"
proof -
  obtain p s1 where f: "find_extent io lb s = (Inr p, s1)"
    using find_extent_returns [OF assms(1) tree_inv_tree_ok(1) [OF assms(3)]] by blast
  from find_extent_path [OF f] assms(3)
  obtain ns where "path p = ns @ [leaf_of p]" "path_depth p = length ns" "length ns = root_depth s"
    "found_path s (root_depth s) 0 lb ns (leaf_of p)" by (auto simp: tree_inv_def)
  with f calm_find_extent [OF assms(2) f] show ?thesis by (auto simp: walked_def)
qed

text \<open>
  insert_extent either succeeds at once, by a merge or into an empty root, or it comes to
  the insertion of an entry of its own.
\<close>

lemma insert_extent_merges:
  assumes io: "io_reliable io" "alloc_laws io used" "block_size_ok (sb io)"
    and inv: "tree_inv (sb io) used s" and x: "insertable (sb_blocks_cnt (sb io)) (tree_extents s) x"
  shows "(\<exists>s'. insert_extent io (first_block x) x s = (EOK, s') \<and> added (sb io) used x s s')
    \<or> (\<exists>p s1 ns. insert_extent io (first_block x) x s
          = insert_unmerged (insert_extent io) io (first_block x) p x s1
        \<and> calm used s s1 \<and> walked s1 (first_block x) p ns)"
proof -
  obtain p s1 ns where f: "find_extent io (first_block x) s = (Inr p, s1)" and cm: "calm used s s1"
    and w: "walked s (first_block x) p ns"
    using find_extent_walked [OF io(1,2) inv] by blast
  let ?n = "leaf_of p" and ?ex = "extent (leaf_of p)" and ?pos = "position (leaf_of p)"
  define c where "c = pblock_of_node ?n"
  define data where "data = nodes s c"
  let ?L = "leaves data" and ?E = "tree_extents s"
  let ?pre = "before (nodes s) (root_depth s) 0 ns" and ?post = "after (nodes s) (root_depth s) 0 ns"
  note wk = walkedE [OF w inv, folded c_def, folded data_def]
  note fl = found_leaf_leaves [OF wk(3), folded c_def, folded data_def]
  have w1: "walked s1 (first_block x) p ns" using w walked_calm [OF cm] by simp
  have inv1: "tree_inv (sb io) used s1" "insertable (sb_blocks_cnt (sb io)) (tree_extents s1) x"
    using inv x calm_inv [OF cm] by simp_all
  show ?thesis
  proof (cases "?L = []")
    case True
    then have e: "entries_count (header ?n) = 0" using fl(3) by (simp add: unat_eq_zero)
    have h: "header ?n = header_load (root s)" "ns = []"
      using fl(1) wk(6,7) True by (simp_all add: data_def)
    have "0 < unat (max_entries_count (header ?n))"
      using wk(4,6) h by (simp add: node_form_leaf validate_header_root_iff data_def)
    then have "\<not> h_full (header ?n)" using e by (simp add: not_h_full)
    from insert_new_extent_deep [OF io inv1 w1 this, of "insert_extent io"] e f
    show ?thesis
      by (subst insert_extent_unfold) (auto simp: insert_extent_body_def Let_def added_calm [OF cm])
  next
    case False
    note sp = fl(5) [OF False]
    have xf: "e_first x = unat (first_block x)" by (simp add: e_first_def)
    note sE = split_search [OF wk(2) sp xf]
    have exL: "?ex = ?L ! ?pos" using fl(4) [OF False] .
    have hv: "have_extent ?n" "entries_count (header ?n) \<noteq> 0"
      using fl(2,3) False by auto
    have nc: "\<not> (first_block ?ex \<le> first_block x \<and> first_block x < first_block ?ex + ucast (extent_get_actual_len ?ex))"
      using no_collision [OF x, of ?ex] sE(4,5) exL by auto
    have np: "\<not> (0 < ?pos \<and> first_block x + ucast (extent_get_actual_len x) < first_block ?ex)"
      using no_prev_merge [OF x sE(1)] sE(2) exL by auto
    note dec = insert_extent_decision [OF f hv nc np]
    have merged: "\<exists>s'. store_merged io p l r i t = (EOK, s') \<and> added (sb io) used x s s'"
      if t: "calm used s t" and i: "i < length ?L"
        and ok: "extents_ok (sb_blocks_cnt (sb io)) (?pre @ ?L[i := merged_extent l r] @ ?post)"
        and map: "ext_map (?pre @ ?L[i := merged_extent l r] @ ?post) = map_insert x (ext_map ?E)"
        and first: "i = 0 \<Longrightarrow> first_block l = first_block (?L ! 0)" for l r i t
    proof -
      have N: "nodes t = nodes s" using t by (simp add: calm_def)
      have "first_block (merged_extent l r) = first_block l" by (simp add: merged_extent_def Let_def)
      note sf = store_form [OF wk(4) io(3) i extents_ok_mid [OF ok], unfolded this, OF first]
      obtain s' where s': "store_merged io p l r i t = (EOK, s')"
        "stored (sb io) used t c (extent_store (slot i) (merged_extent l r) data) s'"
        using store_merged_stored [OF io, of p t i l r] fl(1) wk(4) sf(1)
        by (auto simp: N data_def simp flip: c_def)
      have "tree_inv (sb io) used s' \<and> tree_extents s' = ?pre @ ?L[i := merged_extent l r] @ ?post
          \<and> takes_new used s s'"
        using leaf_changed(1) [OF io inv wk(1) _ _ stored_calm [OF t s'(2)] sf(1)] w ok sf(2,3)
        by (auto simp: walked_def data_def)
      with s'(1) map show ?thesis by (auto simp: added_def tree_map_def)
    qed
    show ?thesis
    proof (cases "can_merge ?ex x")
      case True
      note m = split_merge_left [OF wk(2) sp xf wk(5) x True [unfolded exL]]
      from merged [OF cm sE(5) m] True show ?thesis unfolding dec by (auto simp: exL)
    next
      case no_left: False
      show ?thesis
      proof (cases "?pos < unat (entries_count (header ?n)) - 1
          \<and> first_block ?ex + ucast (extent_get_actual_len ?ex) < first_block x")
        case no_next: False
        have "insert_extent io (first_block x) x s
            = insert_unmerged (insert_extent io) io (first_block x) p x s1"
          unfolding dec by (simp only: no_left no_next if_False)
        with cm w1 show ?thesis by blast
      next
        case nxt: True
        then have lt: "?pos + 1 < length ?L" using fl(3) by auto
        have "e_end ?ex < 2 ^ 32" using x sE(4,5) exL by (auto simp: insertable_def)
        with nxt have "e_end ?ex < e_first x"
          by (simp add: word_less_nat_alt unat_ext_end flip: e_first_def)
        then have le: "e_first (?L ! ?pos) \<le> e_first x" using exL by (simp add: e_end_def)
        have N1: "nodes s1 = nodes s" using cm by (simp add: calm_def)
        obtain s2 where s2: "node_get_extent io ?n (?pos + 1) s1 = (Inr (?L ! (?pos + 1)), s2)" "calm used s1 s2"
          using node_get_extent_reliable [OF io(1,2), of ?n s1 "?pos + 1"] fl(1) lt
          by (auto simp: N1 data_def simp flip: c_def)
        have cm2: "calm used s s2" using cm s2(2) by (rule calm_trans)
        have eq: "insert_extent io (first_block x) x s =
            (if can_merge x (?L ! (?pos + 1)) then store_merged io p x (?L ! (?pos + 1)) (?pos + 1) s2
             else insert_unmerged (insert_extent io) io (first_block x) p x s2)"
          unfolding dec using no_left nxt s2(1) by simp
        show ?thesis
        proof (cases "can_merge x (?L ! (?pos + 1))")
          case True
          note m = split_merge_right [OF wk(2) sp xf wk(5) x True lt le]
          from merged [OF cm2 lt m] True show ?thesis unfolding eq by auto
        next
          case False
          with eq have "insert_extent io (first_block x) x s
              = insert_unmerged (insert_extent io) io (first_block x) p x s2" by simp
          moreover have "walked s2 (first_block x) p ns" using w walked_calm [OF cm2] by simp
          ultimately show ?thesis using cm2 by blast
        qed
      qed
    qed
  qed
qed

end
