(* ===== verification/Extent_Grow.thy ===== *)
theory Extent_Grow
  imports Extent_Deep
begin

text \<open>
  Making room: grow_indepth pushes the root one level down, split_full_node divides a full
  node over two blocks.  Neither changes the extents of the tree, and a failed allocation
  leaves the tree as it was.
\<close>

section \<open>Allocation\<close>

text \<open>\<open>r\<close> is an error the block allocator returned.\<close>

definition alloc_error :: "'e lwext4 \<Rightarrow> errno \<Rightarrow> bool" where
  "alloc_error io r \<longleftrightarrow> r \<noteq> EOK \<and> (\<exists>goal e pb e'. balloc_alloc_block io goal e = (r, pb, e'))"

lemma alloc_block_cases:
  assumes "alloc_laws io used"
  obtains (ok) pb s1 where "ext4_balloc_alloc_block io goal s = (EOK, pb, s1)" "nodes s1 = nodes s"
      "bufs s1 = bufs s" "root s1 = root s" "used (env s1) = insert pb (used (env s))"
      "pb \<notin> used (env s)" "pb \<noteq> 0" "pb < sb_blocks_cnt (sb io)" "unat pb < 2 ^ 48"
  | (fail) r pb s1 where "r \<noteq> EOK" "ext4_balloc_alloc_block io goal s = (r, pb, s1)" "calm used s s1"
      "alloc_error io r"
proof -
  obtain r pb e where a: "balloc_alloc_block io goal (env s) = (r, pb, e)"
    by (cases "balloc_alloc_block io goal (env s)")
  then have eq: "ext4_balloc_alloc_block io goal s = (r, pb, s\<lparr>env := e\<rparr>)"
    by (simp add: ext4_balloc_alloc_block_def)
  have N: "nodes (s\<lparr>env := e\<rparr>) = nodes s" by (simp add: nodes_def node_data_def fun_eq_iff)
  have "case balloc_alloc_block io goal (env s) of (r, pb, e') \<Rightarrow>
      if r = EOK then pb \<notin> used (env s) \<and> used e' = insert pb (used (env s))
          \<and> pb \<noteq> 0 \<and> pb < sb_blocks_cnt (sb io) \<and> unat pb < 2 ^ 48
      else used e' = used (env s)"
    using assms by (simp only: alloc_laws_def)
  then have l: "if r = EOK then pb \<notin> used (env s) \<and> used e = insert pb (used (env s))
          \<and> pb \<noteq> 0 \<and> pb < sb_blocks_cnt (sb io) \<and> unat pb < 2 ^ 48
      else used e = used (env s)" by (simp add: a)
  show ?thesis
  proof (cases "r = EOK")
    case True
    with ok [of pb "s\<lparr>env := e\<rparr>"] eq N l show ?thesis by simp
  next
    case False
    moreover from this a have "alloc_error io r" unfolding alloc_error_def by blast
    ultimately show ?thesis using fail [of r pb "s\<lparr>env := e\<rparr>"] eq N l by (simp add: calm_def)
  qed
qed

section \<open>Nodes built from parts of others\<close>

text \<open>A header and \<open>m\<close> entries copied from another node.\<close>

lemma copied_node:
  fixes h :: ext4_extent_header
  assumes "12 \<le> length d0" "src + m \<le> n" "slot n \<le> length source" "slot m \<le> length d0"
  defines "d \<equiv> mem_write (slot 0) (mem_read (slot src) (m * 12) source) (header_store h d0)"
  shows "header_load d = h" "length d = length d0"
    "slots extent_load m d = take m (drop src (slots extent_load n source))"
    "slots index_load m d = take m (drop src (slots index_load n source))"
proof -
  have l: "length (header_store h d0) = length d0" using assms(1) by (simp add: mem_simps)
  have "slot (src + m) \<le> slot n" using assms(2) by (rule slot_le)
  then have r: "length (mem_read (slot src) (m * 12) source) = m * 12"
    using assms(3) by (subst length_mem_read) (simp_all add: slot_def)
  have fit: "slot 0 + length (mem_read (slot src) (m * 12) source) \<le> length (header_store h d0)"
    unfolding r l using assms(4) by (simp add: slot_def)
  show "length d = length d0" unfolding d_def using fit l by (simp add: length_mem_write)
  then have "header_load d = header_load (header_store h d0)"
    unfolding d_def using fit l assms(1)
    by (intro header_load_cong mem_read_write_other) (simp_all add: slot_def)
  then show "header_load d = h" using assms(1) by (simp add: codec_simps)
  show "slots extent_load m d = take m (drop src (slots extent_load n source))"
    unfolding d_def using assms(2-4) l by (intro ext.slots_copy) simp_all
  show "slots index_load m d = take m (drop src (slots index_load n source))"
    unfolding d_def using assms(2-4) l by (intro idx.slots_copy) simp_all
qed

text \<open>A node whose children are among those of another node.\<close>

lemma sub_part:
  assumes "sub b N (Suc d) pb" "node_valid b nb (Suc d) (N' nb)" "kids (N' nb) = ys" "set ys \<subseteq> set (kids (N pb))"
    and "\<forall>q \<in> set (blks_below N d ys). N' q = N q"
  shows "sub b N' (Suc d) nb" "exts N' (Suc d) nb = exts_below N d ys" "blks N' (Suc d) nb = nb # blks_below N d ys"
proof -
  have kid: "exts N' d (index_get_pblock y) = exts N d (index_get_pblock y)"
    "blks N' d (index_get_pblock y) = blks N d (index_get_pblock y)"
    "sub b N' d (index_get_pblock y)" "ix_first_block y = first_key (N' (index_get_pblock y))"
    if y: "y \<in> set ys" for y
  proof -
    have "\<forall>q \<in> set (blks N d (index_get_pblock y)). N' q = N q" using y assms(5) by auto
    with agree [OF this, of b] sub_child [OF assms(1), of y] y assms(4) blks_self
    show "exts N' d (index_get_pblock y) = exts N d (index_get_pblock y)"
      "blks N' d (index_get_pblock y) = blks N d (index_get_pblock y)"
      "sub b N' d (index_get_pblock y)" "ix_first_block y = first_key (N' (index_get_pblock y))"
      by (auto simp: subset_iff)
  qed
  show "sub b N' (Suc d) nb" using assms(2,3) kid by simp
  show "exts N' (Suc d) nb = exts_below N d ys" "blks N' (Suc d) nb = nb # blks_below N d ys"
    using kid by (simp_all add: assms(3) cong: map_cong)
qed

section \<open>grow_indepth\<close>

lemma capacity_bounds:
  assumes "block_size_ok b"
  shows "80 < unat ((sb_block_size b - 12) div 12)"
    "unat (ucast ((sb_block_size b - 12) div 12) :: u16) = unat ((sb_block_size b - 12) div 12)"
proof -
  note bb = block_size_bounds [OF assms]
  have u: "unat ((sb_block_size b - 12) div 12) = (unat (sb_block_size b) - 12) div 12"
    using bb by (simp add: unat_div unat_sub word_le_nat_alt)
  with bb show "80 < unat ((sb_block_size b - 12) div 12)" by simp
  have "unat ((sb_block_size b - 12) div 12) < 2 ^ 16" using u bb by simp
  then show "unat (ucast ((sb_block_size b - 12) div 12) :: u16) = unat ((sb_block_size b - 12) div 12)"
    by (simp add: unsigned_ucast_eq take_bit_nat_eq_self)
qed

lemma mem_zero_all: "length d = n \<Longrightarrow> length (mem_zero 0 n d) = n"
  by (simp add: mem_simps)

text \<open>A new block with a fresh header and entries copied from a valid node.\<close>

lemma copied_form:
  fixes h :: ext4_extent_header
  assumes "node_form b pb D source" "block_size_ok b" "c \<noteq> 0" "length d0 = unat (sb_block_size b)"
    and "src + m \<le> unat (entries_count (header_load source))" "0 < m"
    and "m \<le> unat ((sb_block_size b - 12) div 12)"
    and "h = \<lparr>magic = EXT4_EXTENT_MAGIC, entries_count = of_nat m,
      max_entries_count = ucast ((sb_block_size b - 12) div 12), depth = depth (header_load source), generation = 0\<rparr>"
  defines "d \<equiv> mem_write (slot 0) (mem_read (slot src) (m * 12) source) (header_store h d0)"
  shows "node_form b c D d" "kids d = take m (drop src (kids source))" "leaves d = take m (drop src (leaves source))"
    "header_load d = h" "unat (entries_count h) = m"
proof -
  let ?n = "unat (entries_count (header_load source))" and ?cap = "(sb_block_size b - 12) div 12"
  note cap = capacity_bounds [OF assms(2)]
  have "slot ?n \<le> length source" using node_form_fits [OF assms(1,2)] slot_le le_trans by blast
  moreover have "slot m \<le> length d0"
    using capacity_slots [OF assms(7)] block_size_bounds [OF assms(2)] assms(4) by simp
  ultimately have c: "header_load d = h" "length d = length d0"
    "slots extent_load m d = take m (drop src (slots extent_load ?n source))"
    "slots index_load m d = take m (drop src (slots index_load ?n source))"
    unfolding d_def using copied_node [of d0 src m ?n source h] assms(4,5) block_size_bounds [OF assms(2)]
    by simp_all
  have "m < 2 ^ 16" using assms(7) cap(2) unat16_less [of "ucast ?cap"] by simp
  then show em: "unat (entries_count h) = m"
    by (simp add: assms(8) unat_of_nat take_bit_nat_eq_self)
  show "header_load d = h" by (fact c(1))
  show k: "kids d = take m (drop src (kids source))" and l: "leaves d = take m (drop src (leaves source))"
    using c em by (simp_all add: kids_def leaves_def)
  have dep: "unat (depth (header_load source)) = D" "depth (header_load source) = 0 \<longleftrightarrow> D = 0"
    using assms(1) by (auto simp: node_form_def unat_eq_zero)
  have "D \<le> 5" using assms(1) dep
    by (auto simp: node_form_def root_ok_def validate_header_root_iff validate_header_block_iff split: if_splits)
  then have v: "validate_header False (sb_block_size b) h = EOK"
    using em assms(7,8) cap dep(1) by (simp add: validate_header_block_iff)
  have part: "xs = take src xs @ take m (drop src xs) @ drop m (drop src xs)" for xs :: "'x list"
    by (metis append_take_drop_id)
  have "validate_entries b d h = EOK"
  proof (cases "D = 0")
    case True
    then have "extents_ok (sb_blocks_cnt b) (leaves source)"
      using assms(1) dep(2) by (auto simp: node_form_leaf)
    then have "extents_ok (sb_blocks_cnt b) (leaves d)"
      unfolding l by (subst (asm) part) (rule extents_ok_mid)
    with True dep(2) show ?thesis by (simp add: validate_entries_iff assms(8) leaves_def c(1))
  next
    case False
    then have "indices_ok (sb_blocks_cnt b) (kids source)"
      using assms(1) dep(2) by (auto simp: node_form_def root_ok_def validate_entries_iff kids_def split: if_splits)
    then have "indices_ok (sb_blocks_cnt b) (kids d)"
      unfolding k by (auto simp: indices_ok_def sorted_wrt_take sorted_wrt_drop dest!: in_set_takeD in_set_dropD)
    with False dep(2) show ?thesis by (simp add: validate_entries_iff assms(8) kids_def c(1))
  qed
  moreover have "entries_count h \<noteq> 0" using em assms(6) by auto
  ultimately show "node_form b c D d"
    using assms(3,4,8) v cap dep(1) by (simp add: node_form_def c(1,2))
qed

lemma unat_Suc_depth: "unat (h :: u16) < 5 \<Longrightarrow> unat (h + 1) = Suc (unat h)"
  by (rule unat_Suc16) simp

lemma grow_root_form:
  fixes k :: u32
  assumes "node_form b 0 D data" "D < 5" "nb \<noteq> 0" "nb < sb_blocks_cnt b" "unat nb < 2 ^ 48"
  defines "x \<equiv> index_store_pblock nb (empty_index\<lparr>ix_first_block := k\<rparr>)"
  shows "node_form b 0 (Suc D) (grow_root_bytes k nb data)" "kids (grow_root_bytes k nb data) = [x]"
    "ix_first_block x = k" "index_get_pblock x = nb" "index_ok (sb_blocks_cnt b) x"
    "header_load (grow_root_bytes k nb data) = (header_load data)\<lparr>entries_count := 1,
       max_entries_count := 4, depth := depth (header_load data) + 1\<rparr>"
proof -
  let ?h = "header_load data"
  let ?h' = "?h\<lparr>entries_count := 1, max_entries_count := of_nat EXT4_EXTENT_ROOT_MAX_ENTRIES, depth := depth ?h + 1\<rparr>"
  let ?d1 = "mem_zero 12 (60 - 12) (header_store ?h' data)" and ?new = "grow_root_bytes k nb data"
  have len: "length data = 60" "length (header_store ?h' data) = 60" "length ?d1 = 60"
    using assms(1) by (simp_all add: node_form_def root_ok_def mem_simps)
  have new: "?new = index_store (slot 0) x ?d1" by (simp add: grow_root_bytes_def Let_def x_def)
  have sp: "slot 0 + 12 \<le> length ?d1" unfolding len(3) by (simp add: slot_def)
  have "header_load ?d1 = header_load (header_store ?h' data)"
    using len by (intro header_load_cong) (simp_all add: mem_zero_def mem_simps)
  then have h: "header_load ?new = ?h'"
    unfolding new using header_load_index_store [OF sp] len(1) by (simp add: codec_simps)
  then show "header_load ?new = ?h\<lparr>entries_count := 1, max_entries_count := 4, depth := depth ?h + 1\<rparr>"
    by simp
  have "length ?new = 60" unfolding new using sp len(3) by (simp add: idx.length_store)
  show k: "kids ?new = [x]"
    using sp by (simp add: kids_def h slots_def) (simp add: new idx.load_store)
  show "ix_first_block x = k" by (simp add: x_def)
  show g: "index_get_pblock x = nb" using assms(5) by (simp add: x_def index_pblock_trunc take_bit_unat_id)
  then show ix: "index_ok (sb_blocks_cnt b) x" using assms(3,4) by (simp add: index_ok_def word_neq_0_conv)
  have d: "unat (depth ?h + 1) = Suc D" using assms(1,2) unat_Suc_depth [of "depth ?h"] by (simp add: node_form_def)
  then have dn: "depth ?h + 1 \<noteq> 0" by auto
  have "validate_entries b ?new (header_load ?new) = EOK"
    using dn ix k unfolding validate_entries_iff kids_def by (simp add: h indices_ok_def)
  with \<open>length ?new = 60\<close> d assms(1,2) show "node_form b 0 (Suc D) ?new"
    by (simp add: node_form_def root_ok_def h validate_header_root_iff)
qed

text \<open>
  \<open>reshaped\<close>: the tree denotes the same extents as before; its blocks are the old ones and
  freshly allocated ones.
\<close>

definition reshaped :: "ext4_sb \<Rightarrow> ('e \<Rightarrow> u64 set) \<Rightarrow> 'e istate \<Rightarrow> 'e istate \<Rightarrow> bool" where
  "reshaped b used s s' \<longleftrightarrow> tree_inv b used s' \<and> tree_extents s' = tree_extents s \<and> takes_new used s s'"

lemma reshaped_calm: "calm used s s' \<Longrightarrow> tree_inv b used s \<Longrightarrow> reshaped b used s s'"
  by (simp add: reshaped_def calm_inv calm_takes_new)

text \<open>The nodes after growing: the old root moved to \<open>nb\<close>, where there is plenty of room.\<close>

definition grown :: "(u64 \<Rightarrow> bytes) \<Rightarrow> nat \<Rightarrow> u64 \<Rightarrow> (u64 \<Rightarrow> bytes) \<Rightarrow> bool" where
  "grown N D nb N' \<longleftrightarrow> nb \<notin> set (blks N D 0) \<and> nb \<noteq> 0
     \<and> (\<exists>x. kids (N' 0) = [x] \<and> index_get_pblock x = nb) \<and> kids (N' nb) = kids (N 0)
     \<and> unat (max_entries_count (header_load (N' 0))) = 4
     \<and> 80 < unat (max_entries_count (header_load (N' nb)))
     \<and> (\<forall>r. r \<noteq> 0 \<longrightarrow> r \<noteq> nb \<longrightarrow> N' r = N r)"

lemma grow_indepth_ok:
  assumes io: "io_reliable io" "alloc_laws io used" "block_size_ok (sb io)"
    and inv: "tree_inv (sb io) used s" and n: "entries_count (header_load (root s)) \<noteq> 0"
  shows "\<exists>r s'. grow_indepth io s = (r, s') \<and> reshaped (sb io) used s s'
    \<and> (if r = EOK then root_depth s' = Suc (root_depth s)
           \<and> (\<exists>nb. grown (nodes s) (root_depth s) nb (nodes s'))
         else root_depth s' = root_depth s \<and> (r = EFBIG \<and> root_depth s = 5 \<or> alloc_error io r))"
proof (cases "root_depth s < 5")
  case False
  have "root_ok (sb io) (root s)" using tree_inv_tree_ok(1) [OF inv] by (simp add: tree_ok_def)
  then have "root_depth s \<le> 5" by (simp add: root_ok_def validate_header_root_iff root_depth_def)
  with False have "root_depth s = 5" by simp
  then show ?thesis using reshaped_calm [OF calm_refl inv] by (simp add: grow_indepth_def Let_def root_depth_def)
next
  case deep: True
  let ?b = "sb io" and ?D = "root_depth s" and ?h = "header_load (root s)" and ?N = "nodes s"
  let ?goal = "fs_inode_to_goal_block io s"
  have tree: "sub ?b ?N ?D 0" "distinct (blks ?N ?D 0)" "lengths_ok ?b ?N"
    "set (blks ?N ?D 0) \<subseteq> insert 0 (used (env s))" "extents_ok (sb_blocks_cnt ?b) (exts ?N ?D 0)"
    using inv by (simp_all add: tree_inv_def)
  have form: "node_form ?b 0 ?D (root s)" using sub_node [OF tree(1)] by (simp add: node_valid_def)
  from io(2) show ?thesis
  proof (cases rule: alloc_block_cases [where goal = ?goal and s = s])
    case (fail r pb s1)
    then have "grow_indepth io s = (r, s1)"
      using deep by (simp add: grow_indepth_def Let_def root_depth_def)
    with reshaped_calm [OF fail(3) inv] fail(1,4) calm_inv(3) [OF fail(3)] show ?thesis by auto
  next
    case (ok nb s1)
    obtain s2 where s2: "ext4_trans_block_get_noread io nb s1 = (EOK, s2)" "calm used s1 s2"
      using reliable_get_noread [OF io(1,2)] by blast
    have fresh: "nb \<notin> used (env s)" by (fact ok(6))
    have s2': "nodes s2 = ?N" "root s2 = root s" "bufs s2 = bufs s"
      "used (env s2) = insert nb (used (env s))"
      using s2(2) ok calm_root [OF s2(2)] by (simp_all add: calm_def)
    let ?child = "grow_child_bytes (sb_block_size ?b) ?h (root s) (bufs s nb)"
    let ?s3 = "s2\<lparr>bufs := (bufs s2)(nb := ?child)\<rparr>"
    have en: "0 < unat (entries_count ?h)" "unat (entries_count ?h) \<le> unat ((sb_block_size ?b - 12) div 12)"
      using n form capacity_bounds(1) [OF io(3)]
      by (simp_all add: unat_gt_0 node_form_def root_ok_def validate_header_root_iff)
    have l: "length (mem_zero 0 (unat (sb_block_size ?b)) (bufs s nb)) = unat (sb_block_size ?b)"
      using tree(3) ok(7) by (intro mem_zero_all) (simp add: lengths_ok_def nodes_block)
    have cf: "node_form ?b nb ?D ?child" "kids ?child = kids (root s)" "leaves ?child = leaves (root s)"
      "80 < unat (max_entries_count (header_load ?child))"
      using copied_form(1-4) [OF form io(3) ok(7) l _ en refl, of 0] en capacity_bounds [OF io(3)]
      by (simp_all add: grow_child_bytes_def Let_def length_kids length_leaves)
    have N3: "nodes ?s3 = ?N(nb := ?child)" using nodes_bufs [OF ok(7), of s2 ?child] by (simp add: s2')
    have "node_form ?b nb ?D (bufs ?s3 nb)" using cf(1) by simp
    from checksum_and_put_stored [OF io ok(7) this]
    obtain s4 d where s4: "checksum_and_put io nb ?s3 = (EOK, s4)" "sealed ?b nb ?child d"
      "nodes s4 = ?N(nb := d)" "used (env s4) = insert nb (used (env s))"
      unfolding stored_def N3 by (auto simp: s2')
    note sl = sealed_node [OF s4(2) cf(1) io(3)]
    have root4: "root s4 = root s" using fun_cong [OF s4(3), of 0] ok(7) by simp
    let ?k = "first_block (extent_load (root s) (slot 0))" and ?s' = "mark_dirty (s4\<lparr>root := grow_root_bytes
      (first_block (extent_load (root s) (slot 0))) nb (root s)\<rparr>)"
    have run: "grow_indepth io s = (EOK, ?s')"
      using deep ok(1) s2 s4(1) n root4
      by (simp add: grow_indepth_def Let_def root_depth_def s2' word_neq_0_conv)
    note gr = grow_root_form [OF form deep ok(7-9), of ?k]
    define N' where "N' = nodes ?s'"
    have Neq: "N' = ?N(nb := d, 0 := grow_root_bytes ?k nb (root s))"
      by (simp add: N'_def nodes_update_root s4(3))
    have N0: "N' 0 = grow_root_bytes ?k nb (root s)" and Nn: "N' nb = d"
      and Nq: "q \<noteq> 0 \<Longrightarrow> q \<noteq> nb \<Longrightarrow> N' q = ?N q" for q
      using ok(7) by (simp_all add: Neq)
    have nb: "nb \<notin> set (blks ?N ?D 0)" using tree(4) ok(6,7) by auto
    have child: "sub ?b N' ?D nb \<and> exts N' ?D nb = exts ?N ?D 0 \<and> blks N' ?D nb = nb # tl (blks ?N ?D 0)"
    proof (cases ?D)
      case 0
      with sl(1,5) cf(3) show ?thesis by (simp add: Nn)
    next
      case (Suc e)
      have "\<forall>q \<in> set (blks_below ?N e (kids (root s))). N' q = ?N q"
      proof
        fix q assume "q \<in> set (blks_below ?N e (kids (root s)))"
        moreover from this have "q \<noteq> nb" using nb by (auto simp: Suc)
        ultimately show "N' q = ?N q" using tree(2) by (intro Nq) (auto simp: Suc)
      qed
      then show ?thesis
        using sub_part [OF tree(1) [unfolded Suc], where nb = nb and N' = N' and ys = "kids (root s)"]
          sl(1,4) cf(2) by (simp add: Suc Nn)
    qed
    have key: "?k = first_key (N' nb)"
    proof -
      have "kids (root s) \<noteq> []" using en(1) by (simp add: length_kids flip: length_greater_0_conv)
      with first_key_kids [of d] first_key_kids [of "root s"] sl(4) cf(2)
      show ?thesis by (simp add: Nn codec_simps)
    qed
    have s5: "sub ?b N' (Suc ?D) 0"
      using gr(1-4) child key by (simp add: N0 node_valid_def)
    have e: "exts N' (Suc ?D) 0 = exts ?N ?D 0" "blks N' (Suc ?D) 0 = 0 # nb # tl (blks ?N ?D 0)"
      using gr(2,4) child by (simp_all add: N0)
    have "length d = unat (sb_block_size ?b)" using sl(2) cf(1) ok(7) by (simp add: node_form_def)
    then have len: "lengths_ok ?b N'" using tree(3) Nn Nq unfolding lengths_ok_def by metis
    obtain T where T: "blks ?N ?D 0 = 0 # T" by (cases ?D) simp_all
    then have bl: "distinct (0 # nb # tl (blks ?N ?D 0))"
      "set (0 # nb # tl (blks ?N ?D 0)) \<subseteq> insert 0 (insert nb (used (env s)))"
      using tree(2,4) nb ok(7) unfolding T by auto
    have d5: "root_depth ?s' = Suc ?D" using sub_root_depth s5 unfolding N'_def by blast
    have "used (env ?s') = insert nb (used (env s))" using s4(4) by simp
    with s5 e len bl d5 tree(5) have "tree_inv ?b used ?s'"
      unfolding tree_inv_def N'_def [symmetric] by simp
    moreover from tree_inv_tree_ok(2) [OF this] have "tree_extents ?s' = tree_extents s"
      using tree_inv_tree_ok(2) [OF inv] e(1) d5 N'_def by simp
    moreover have "tree_blocks ?s' = insert nb (tree_blocks s)"
    proof -
      have "tree_blocks ?s' = set (blks N' (Suc ?D) 0)" unfolding tree_blocks_def d5 N'_def ..
      moreover have "tree_blocks s = insert 0 (set T)" unfolding tree_blocks_def T by simp
      ultimately show ?thesis unfolding e(2) T by auto
    qed
    then have "takes_new used s ?s'"
      using s4(4) fresh by (auto simp: takes_new_def)
    moreover have "grown ?N ?D nb N'"
    proof -
      have "header_load d = header_load ?child" by (fact sl(3))
      moreover have "80 < unat (max_entries_count (header_load ?child))" by (fact cf(4))
      ultimately show ?thesis
        unfolding grown_def using nb ok(7) gr(2,4,6) sl(4) cf(2) N0 Nn Nq by simp
    qed
    ultimately show ?thesis using run d5 unfolding reshaped_def N'_def by auto
  qed
qed

end
