(* ===== verification/Extent_Split.thy ===== *)
theory Extent_Split
  imports Extent_Grow
begin

text \<open>
  split_full_node: the upper half of a full node moves to a new block, and the parent gets an
  index entry for it.  The extents of the tree stay the same.
\<close>

section \<open>The parent's new entry\<close>

definition new_index :: "u32 \<Rightarrow> u64 \<Rightarrow> ext4_extent_index" where
  "new_index fblk pb = index_store_pblock pb (empty_index\<lparr>ix_first_block := fblk\<rparr>)"

lemma new_index_fields:
  "ix_first_block (new_index k pb) = k" "unat pb < 2 ^ 48 \<Longrightarrow> index_get_pblock (new_index k pb) = pb"
  by (simp_all add: new_index_def index_pblock_trunc take_bit_unat_id)

lemma insert_index_bytes_effect:
  assumes "pos \<le> unat (entries_count h)" "slot (Suc (unat (entries_count h))) \<le> length data"
  shows "header_load (insert_index_bytes h pos k pb data) = h\<lparr>entries_count := entries_count h + 1\<rparr>"
    and "length (insert_index_bytes h pos k pb data) = length data"
    and "slots index_load (Suc (unat (entries_count h))) (insert_index_bytes h pos k pb data)
      = take pos (index_list h data) @ new_index k pb # drop pos (index_list h data)"
proof -
  let ?n = "unat (entries_count h)"
  let ?m = "mem_move (slot (pos + 1)) (slot pos) ((?n - pos) * 12) data"
  let ?d = "index_store (slot pos) (new_index k pb) ?m"
  have eq: "insert_index_bytes h pos k pb data = header_store (h\<lparr>entries_count := entries_count h + 1\<rparr>) ?d"
    using assms(1) by (cases "pos = ?n") (simp_all add: insert_index_bytes_def new_index_def Let_def)
  have "length ?m = length data"
    using assms by (intro idx.length_slot_move) (auto simp: slot_def)
  moreover have "slot pos + 12 \<le> length data" using assms by (simp add: slot_def)
  ultimately have ls: "length ?d = length data" by (simp only: idx.length_store)
  have l12: "12 \<le> length data" using assms(2) by (simp add: slot_def)
  show "header_load (insert_index_bytes h pos k pb data) = h\<lparr>entries_count := entries_count h + 1\<rparr>"
    unfolding eq using l12 ls by (simp add: codec_simps)
  show "length (insert_index_bytes h pos k pb data) = length data"
    unfolding eq using l12 ls by (simp add: mem_simps)
  show "slots index_load (Suc ?n) (insert_index_bytes h pos k pb data)
      = take pos (index_list h data) @ new_index k pb # drop pos (index_list h data)"
    unfolding eq using assms ls by (simp only: idx.slots_header_store idx.slots_insert)
qed

lemma insert_index_form:
  fixes k :: u32 and pb :: u64
  assumes "node_form b q (Suc d) data" "block_size_ok b" "\<not> h_full (header_load data)" "i \<le> length (kids data)"
  defines "data' \<equiv> insert_index_bytes (header_load data) i k pb data"
  shows "kids data' = take i (kids data) @ new_index k pb # drop i (kids data)"
    and "indices_ok (sb_blocks_cnt b) (kids data') \<Longrightarrow> node_form b q (Suc d) data'"
    and "header_load data' = (header_load data)\<lparr>entries_count := entries_count (header_load data) + 1\<rparr>"
    and "unat (entries_count (header_load data')) = Suc (length (kids data))"
proof -
  let ?h = "header_load data"
  have n: "unat (entries_count ?h) < unat (max_entries_count ?h)" using assms(3) by (simp add: not_h_full)
  have i: "i \<le> unat (entries_count ?h)" using assms(4) by (simp add: length_kids)
  have "slot (Suc (unat (entries_count ?h))) \<le> slot (unat (max_entries_count ?h))" using n by (intro slot_le) simp
  with node_form_fits(1) [OF assms(1,2)] have "slot (Suc (unat (entries_count ?h))) \<le> length data" by simp
  note e = insert_index_bytes_effect [OF i this, of k pb, folded data'_def]
  have c: "unat (entries_count ?h + 1) = Suc (unat (entries_count ?h))"
    using n unat16_less [of "max_entries_count ?h"] by (intro unat_Suc16) simp
  then have c0: "entries_count ?h + 1 \<noteq> 0" by auto
  show "header_load data' = ?h\<lparr>entries_count := entries_count ?h + 1\<rparr>" by (fact e(1))
  show "unat (entries_count (header_load data')) = Suc (length (kids data))" by (simp add: e(1) c length_kids)
  show "kids data' = take i (kids data) @ new_index k pb # drop i (kids data)"
    using e(3) by (simp add: kids_def e(1) c)
  have d: "depth ?h \<noteq> 0" using assms(1) by (auto simp: node_form_def)
  show "node_form b q (Suc d) data'" if "indices_ok (sb_blocks_cnt b) (kids data')"
    using assms(1) n d that c0
    by (auto simp: node_form_def root_ok_def validate_entries_iff kids_def e(1,2) c
        validate_header_root_iff validate_header_block_iff split: if_splits)
qed

lemma calm_node_data: "calm used s s1 \<Longrightarrow> node_data q s1 = nodes s q"
  unfolding calm_def nodes_def by metis

lemma insert_index_entry_stored:
  fixes p :: extent_search_path and l :: nat and s :: "'e istate"
  defines "q \<equiv> pblock_of_node (path p ! l)"
  defines "data \<equiv> nodes s q"
  assumes io: "io_reliable io" "alloc_laws io used" "block_size_ok (sb io)"
    and h: "header (path p ! l) = header_load data" and v: "node_valid (sb io) q (Suc d) data"
    and room: "\<not> h_full (header_load data)"
    and pos: "entry_insert_pos data (length (kids data)) k = Suc i" "i < length (kids data)"
    and new: "ix_first_block (kids data ! i) \<noteq> k"
    and form: "node_form (sb io) q (Suc d) (insert_index_bytes (header_load data) (Suc i) k pb data)"
  shows "\<exists>s'. insert_index_entry io p l k pb s = (EOK, s')
    \<and> stored (sb io) used s q (insert_index_bytes (header_load data) (Suc i) k pb data) s'"
proof -
  let ?new = "insert_index_bytes (header_load data) (Suc i) k pb data"
  obtain s1 where s1: "open_node io q s = (EOK, s1)" "calm used s s1"
    using open_node_calm [OF io(1,2)] by blast
  have nd: "node_data q s1 = data" using calm_node_data [OF s1(2)] by (simp add: data_def)
  let ?s = "set_node_data q ?new s1"
  have "nodes ?s q = ?new" by (simp add: nodes_set)
  with commit_node_stored [OF io, of q "Suc d" ?s] form
  obtain s' where s': "commit_node io q ?s = (EOK, s')" "stored (sb io) used ?s q ?new s'" by auto
  have st: "stored (sb io) used s q ?new s'" using s'(2) stored_calm [OF s1(2)] by (simp add: stored_set)
  have dep: "depth (header_load data) \<noteq> 0" using v by (auto simp: node_valid_def node_form_def)
  have chk: "q \<noteq> 0 \<Longrightarrow> validate_header False (sb_block_size (sb io)) (header_load data) = EOK
      \<and> validate_entries (sb io) data (header_load data) = EOK"
    using v by (simp add: node_valid_def node_form_def)
  have "read_le32 data (slot i) = ix_first_block (kids data ! i)"
    using pos(2) by (simp add: kids_def codec_simps)
  then have "insert_index_entry io p l k pb s = (EOK, s')"
    using s1(1) s'(1) dep room chk pos new h nd
    by (simp add: insert_index_entry_def Let_def length_kids flip: q_def)
  with st show ?thesis by blast
qed

lemma insert_pos_sorted:
  assumes "sorted_wrt (\<lambda>a b. ix_first_block a < ix_first_block b) (take (Suc i) (kids data) @ y # drop (Suc i) (kids data))"
    and "i < length (kids data)"
  shows "entry_insert_pos data (length (kids data)) (ix_first_block y) = Suc i"
    "ix_first_block (kids data ! i) < ix_first_block y"
proof -
  let ?n = "length (kids data)" and ?k = "ix_first_block y"
  let ?p = "entry_insert_pos data ?n ?k"
  have key: "read_le32 data (slot j) = ix_first_block (kids data ! j)" if "j < ?n" for j
    using that by (simp add: kids_def codec_simps)
  have low: "ix_first_block (kids data ! j) < ?k" if "j \<le> i" for j
  proof -
    have "kids data ! j \<in> set (take (Suc i) (kids data))"
      using that assms(2) by (auto simp: in_set_conv_nth intro!: exI [of _ j])
    with assms(1) show ?thesis by (auto simp: sorted_wrt_append)
  qed
  then show "ix_first_block (kids data ! i) < ?k" by simp
  have high: "?k < ix_first_block (kids data ! Suc i)" if "Suc i < ?n"
  proof -
    have "kids data ! Suc i \<in> set (drop (Suc i) (kids data))"
      using that by (metis Cons_nth_drop_Suc list.set_intros(1))
    with assms(1) show ?thesis by (auto simp: sorted_wrt_append)
  qed
  note spec = entry_insert_pos_spec [where d = data and n = ?n and b = ?k]
  show "?p = Suc i"
  proof (rule ccontr)
    assume "?p \<noteq> Suc i"
    then consider "?p \<le> i" | "Suc i < ?p" by linarith
    then show False
    proof cases
      case 1
      with assms(2) have "?p < ?n" by simp
      with spec(3) key low [OF 1] show False by (metis less_asym)
    next
      case 2
      with spec(1) have "Suc i < ?n" by simp
      with spec(2) [OF 2] key high show False by (metis leD)
    qed
  qed
qed

section \<open>The two halves\<close>

lemma left_form:
  assumes "node_form b c D data" "block_size_ok b" "c \<noteq> 0" "0 < mid" "mid \<le> unat (entries_count (header_load data))"
  defines "d \<equiv> split_left_bytes (header_load data) mid (unat (entries_count (header_load data))) data"
  shows "node_form b c D d" "kids d = take mid (kids data)" "leaves d = take mid (leaves data)"
    "header_load d = (header_load data)\<lparr>entries_count := of_nat mid\<rparr>"
    "unat (entries_count (header_load d)) = mid"
proof -
  let ?h = "header_load data" and ?n = "unat (entries_count (header_load data))"
  let ?h' = "?h\<lparr>entries_count := of_nat mid\<rparr>"
  let ?d1 = "header_store ?h' data"
  have fit: "slot ?n \<le> length data" using node_form_fits [OF assms(1,2)] slot_le le_trans by blast
  have l1: "length ?d1 = length data" "12 \<le> length data"
    using fit slot_ge_header [of ?n] by (simp_all add: mem_simps)
  have em: "unat (of_nat mid :: u16) = mid"
    using assms(5) unat16_less [of "entries_count ?h"] by (simp add: unat_of_nat take_bit_nat_eq_self)
  have z: "slot mid + (?n - mid) * 12 \<le> length data"
    using fit assms(5) by (simp add: slot_def)
  have d: "d = mem_zero (slot mid) ((?n - mid) * 12) ?d1" by (simp add: d_def split_left_bytes_def)
  have ld: "length d = length data" unfolding d using z l1 by (simp add: mem_simps)
  have rd: "mem_read a k d = mem_read a k ?d1" if "a + k \<le> slot mid" for a k
    unfolding d mem_zero_def using that z l1 by (intro mem_read_write_other) simp_all
  have "header_load d = header_load ?d1"
    using rd [of 0 12] slot_ge_header [of mid] ld l1 by (intro header_load_cong) simp_all
  then show h: "header_load d = ?h'" using l1(2) by (simp add: codec_simps)
  then show "unat (entries_count (header_load d)) = mid" by (simp add: em)
  have sm: "slot mid \<le> length data" using z by simp
  have "mem_read (slot j) 12 d = mem_read (slot j) 12 ?d1" if "j < mid" for j
    using rd [of "slot j" 12] that by (simp add: slot_def)
  then have "slots extent_load mid d = slots extent_load mid ?d1" "slots index_load mid d = slots index_load mid ?d1"
    using sm ld l1 by (intro ext.slots_cong idx.slots_cong; simp)+
  then have sl: "slots extent_load mid d = take mid (slots extent_load ?n data)"
    "slots index_load mid d = take mid (slots index_load ?n data)"
    using sm assms(5) by (simp_all add: ext.slots_header_store idx.slots_header_store slots_take)
  show k: "kids d = take mid (kids data)" and l: "leaves d = take mid (leaves data)"
    using sl by (simp_all add: kids_def leaves_def h em)
  have v: "validate_entries b d (header_load d) = EOK"
  proof (cases "depth ?h = 0")
    case True
    then have "extents_ok (sb_blocks_cnt b) (leaves data)"
      using assms(1,3) by (simp add: node_form_def validate_entries_iff leaves_def)
    then have "extents_ok (sb_blocks_cnt b) (leaves d)"
      unfolding l by (metis append_Nil append_take_drop_id extents_ok_mid)
    with True show ?thesis by (simp add: validate_entries_iff h leaves_def)
  next
    case False
    then have "indices_ok (sb_blocks_cnt b) (kids data)"
      using assms(1,3) by (simp add: node_form_def validate_entries_iff kids_def)
    then have "indices_ok (sb_blocks_cnt b) (kids d)"
      unfolding k by (auto simp: indices_ok_def sorted_wrt_take dest!: in_set_takeD)
    with False show ?thesis by (simp add: validate_entries_iff h kids_def)
  qed
  moreover have "of_nat mid \<noteq> (0 :: u16)" using em assms(4) by (metis less_irrefl unat_0)
  ultimately show "node_form b c D d"
    using assms(1,3,5) em ld by (simp add: node_form_def h validate_header_block_iff)
qed

text \<open>The two nodes together hold the subtrees the full node held.\<close>

lemma halves:
  assumes "sub b N D c" "c \<noteq> 0" "node_valid b c D (N' c)" "node_valid b nb D (N' nb)"
    and "kids (N' c) = take m (kids (N c))" "kids (N' nb) = drop m (kids (N c))"
    and "leaves (N' c) = take m (leaves (N c))" "leaves (N' nb) = drop m (leaves (N c))"
    and "\<forall>q \<in> set (tl (blks N D c)). N' q = N q"
  shows "sub b N' D c" "sub b N' D nb" "exts N' D c @ exts N' D nb = exts N D c"
    "\<exists>B1 B2. blks N' D c = c # B1 \<and> blks N' D nb = nb # B2 \<and> blks N D c = c # B1 @ B2"
proof -
  have "sub b N' D c \<and> sub b N' D nb \<and> exts N' D c @ exts N' D nb = exts N D c
    \<and> (\<exists>B1 B2. blks N' D c = c # B1 \<and> blks N' D nb = nb # B2 \<and> blks N D c = c # B1 @ B2)"
  proof (cases D)
    case 0
    with assms show ?thesis by simp
  next
    case (Suc e)
    let ?xs = "kids (N c)"
    have split: "exts_below N e ?xs = exts_below N e (take m ?xs) @ exts_below N e (drop m ?xs)"
      "blks_below N e ?xs = blks_below N e (take m ?xs) @ blks_below N e (drop m ?xs)"
      by (simp_all flip: concat_append map_append)
    have fr: "\<forall>q \<in> set (blks_below N e ?xs). N' q = N q" using assms(9) by (simp add: Suc)
    have part: "\<forall>q \<in> set (blks_below N e (take m ?xs)). N' q = N q"
      "\<forall>q \<in> set (blks_below N e (drop m ?xs)). N' q = N q"
      using fr unfolding split by auto
    note l = sub_part [OF assms(1) [unfolded Suc] assms(3) [unfolded Suc] assms(5) set_take_subset part(1)]
    note r = sub_part [OF assms(1) [unfolded Suc] assms(4) [unfolded Suc] assms(6) set_drop_subset part(2)]
    from l r split show ?thesis by (simp add: Suc)
  qed
  then show "sub b N' D c" "sub b N' D nb" "exts N' D c @ exts N' D nb = exts N D c"
    "\<exists>B1 B2. blks N' D c = c # B1 \<and> blks N' D nb = nb # B2 \<and> blks N D c = c # B1 @ B2" by blast+
qed

text \<open>What stands below the parent \<open>q\<close> once both halves are in place and \<open>nb\<close> is linked.\<close>

lemma split_kids:
  fixes N N' :: "u64 \<Rightarrow> bytes" and nb :: u64
  defines "ys \<equiv> \<lambda>ks j. take (Suc j) ks @ new_index (first_key (N' nb)) nb # drop (Suc j) ks"
  assumes sub: "sub b N (Suc D) q" and i: "i < length (kids (N q))" "c = index_get_pblock (kids (N q) ! i)"
    and dist: "distinct (blks N (Suc D) q)"
    and nb: "nb \<notin> set (blks N (Suc D) q)" "nb \<noteq> 0" "nb < sb_blocks_cnt b" "unat nb < 2 ^ 48"
    and ok: "extents_ok (sb_blocks_cnt b) (exts N (Suc D) q)"
    and v: "node_valid b c D (N' c)" "node_valid b nb D (N' nb)"
    and half: "kids (N' c) = take m (kids (N c))" "kids (N' nb) = drop m (kids (N c))"
      "leaves (N' c) = take m (leaves (N c))" "leaves (N' nb) = drop m (leaves (N c))"
    and key: "first_key (N' c) = first_key (N c)"
    and fr: "\<And>r. r \<noteq> q \<Longrightarrow> r \<noteq> c \<Longrightarrow> r \<noteq> nb \<Longrightarrow> N' r = N r"
  shows "indices_ok (sb_blocks_cnt b) (ys (kids (N q)) i)"
    and "\<forall>y \<in> set (ys (kids (N q)) i). ix_first_block y = first_key (N' (index_get_pblock y))
      \<and> sub b N' D (index_get_pblock y)"
    and "exts_below N' D (ys (kids (N q)) i) = exts N (Suc D) q"
    and "distinct (q # blks_below N' D (ys (kids (N q)) i))"
    and "set (q # blks_below N' D (ys (kids (N q)) i)) = insert nb (set (blks N (Suc D) q))"
proof -
  let ?ks = "kids (N q)" and ?x = "kids (N q) ! i" and ?y = "new_index (first_key (N' nb)) nb"
  let ?l = "blks_below N D (take i ?ks)" and ?r = "blks_below N D (drop (Suc i) ?ks)"
  have x_in: "?x \<in> set ?ks" using i(1) by simp
  note cx = sub_child [OF sub x_in, folded i(2)]
  have bl: "blks N (Suc D) q = q # ?l @ blks N D c @ ?r"
    using kids_split [OF i(1), of "\<lambda>x. blks N D (index_get_pblock x)"] i(2) by simp
  have ks: "ys ?ks i = take i ?ks @ ?x # ?y # drop (Suc i) ?ks"
    using i(1) by (simp add: ys_def take_Suc_conv_app_nth)
  have ny: "ix_first_block ?y = first_key (N' nb)" "index_get_pblock ?y = nb"
    using nb(4) by (simp_all add: new_index_fields)
  have "\<forall>r \<in> set (tl (blks N D c)). N' r = N r"
  proof
    fix r assume r: "r \<in> set (tl (blks N D c))"
    obtain T where T: "blks N D c = c # T" by (cases D) simp_all
    show "N' r = N r" using r dist nb(1) unfolding bl T by (intro fr) auto
  qed
  note hv = halves [OF cx(2,1) v half this]
  obtain B1 B2 where B: "blks N' D c = c # B1" "blks N' D nb = nb # B2" "blks N D c = c # B1 @ B2"
    using hv(4) by blast
  have side: "exts N' D (index_get_pblock y) = exts N D (index_get_pblock y)
      \<and> blks N' D (index_get_pblock y) = blks N D (index_get_pblock y)
      \<and> sub b N' D (index_get_pblock y) \<and> ix_first_block y = first_key (N' (index_get_pblock y))
      \<and> y \<in> set ?ks"
    if y: "y \<in> set (take i ?ks) \<or> y \<in> set (drop (Suc i) ?ks)" for y
  proof -
    have y_in: "y \<in> set ?ks" using y in_set_takeD in_set_dropD by metis
    have "N' r = N r" if "r \<in> set (blks N D (index_get_pblock y))" for r
    proof -
      have "r \<in> set ?l \<or> r \<in> set ?r" using that y by auto
      then show ?thesis using dist nb(1) unfolding bl B(3) by (intro fr) auto
    qed
    with agree [of N D "index_get_pblock y" N' b] sub_child [OF sub y_in] y_in show ?thesis by auto
  qed
  have kid: "ix_first_block y = first_key (N' (index_get_pblock y)) \<and> sub b N' D (index_get_pblock y)
      \<and> index_ok (sb_blocks_cnt b) y \<and> index_get_pblock y \<noteq> 0"
    if "y \<in> set (ys ?ks i)" for y
  proof -
    have old: "index_ok (sb_blocks_cnt b) z \<and> index_get_pblock z \<noteq> 0" if "z \<in> set ?ks" for z
      using node_valid_kids [OF sub_node [OF sub]] that by (auto simp: indices_ok_def)
    from that consider "y = ?x" | "y = ?y" | "y \<in> set (take i ?ks) \<or> y \<in> set (drop (Suc i) ?ks)"
      unfolding ks by auto
    then show ?thesis
    proof cases
      case 1
      then show ?thesis using old [OF x_in] hv(1) cx(3) key i(2) by simp
    next
      case 2
      then show ?thesis using ny hv(2) nb(2,3) by (simp add: index_ok_def word_neq_0_conv)
    next
      case 3
      then show ?thesis using side [OF 3] old by blast
    qed
  qed
  then show "\<forall>y \<in> set (ys ?ks i). ix_first_block y = first_key (N' (index_get_pblock y))
      \<and> sub b N' D (index_get_pblock y)" by blast
  have "exts_below N' D (ys ?ks i) = exts_below N D (take i ?ks) @ exts N D c @ exts_below N D (drop (Suc i) ?ks)"
    using side hv(3) ny(2) i(2) by (simp add: ks cong: map_cong)
  then show e: "exts_below N' D (ys ?ks i) = exts N (Suc D) q"
    using kids_split [OF i(1), of "\<lambda>x. exts N D (index_get_pblock x)"] i(2) by simp
  have bl': "blks_below N' D (ys ?ks i) = ?l @ (c # B1) @ (nb # B2) @ ?r"
    using side B ny(2) i(2) by (simp add: ks cong: map_cong)
  show "distinct (q # blks_below N' D (ys ?ks i))"
    using dist nb(1) unfolding bl bl' B(3) by auto
  show "set (q # blks_below N' D (ys ?ks i)) = insert nb (set (blks N (Suc D) q))"
    unfolding bl bl' B(3) by auto
  show "indices_ok (sb_blocks_cnt b) (ys ?ks i)"
  proof (rule kids_sorted [where f = "\<lambda>x. exts N' D (index_get_pblock x)"])
    fix y assume "y \<in> set (ys ?ks i)"
    note k = kid [OF this]
    with sub_first [of b N' D "index_get_pblock y"]
    show "index_ok (sb_blocks_cnt b) y \<and> exts N' D (index_get_pblock y) \<noteq> []
        \<and> first_block (hd (exts N' D (index_get_pblock y))) = ix_first_block y" by simp
  qed (use ok e in simp)
qed

section \<open>split_full_node\<close>

text \<open>
  A full node \<open>c\<close> below a parent with room: entry \<open>i\<close> of \<open>q\<close>, both in the tree of \<open>N\<close>.
\<close>

definition splittable :: "ext4_sb \<Rightarrow> (u64 \<Rightarrow> bytes) \<Rightarrow> nat \<Rightarrow> u64 \<Rightarrow> nat \<Rightarrow> u64 \<Rightarrow> bool" where
  "splittable b N D q i c \<longleftrightarrow> sub b N (Suc D) q \<and> i < length (kids (N q)) \<and> c = index_get_pblock (kids (N q) ! i)
     \<and> distinct (blks N (Suc D) q) \<and> extents_ok (sb_blocks_cnt b) (exts N (Suc D) q)
     \<and> h_full (header_load (N c)) \<and> \<not> h_full (header_load (N q))"

definition split_point :: "bytes \<Rightarrow> nat" where
  "split_point data = unat (entries_count (header_load data)) div 2"

definition right_half :: "ext4_sb \<Rightarrow> bytes \<Rightarrow> bytes \<Rightarrow> bytes" where
  "right_half b data buf = split_right_bytes (sb_block_size b) (header_load data) (split_point data)
     (unat (entries_count (header_load data))) data buf"

definition left_half :: "bytes \<Rightarrow> bytes" where
  "left_half data = split_left_bytes (header_load data) (split_point data)
     (unat (entries_count (header_load data))) data"

lemma splittable_child:
  assumes "splittable b N D q i c"
  shows "c \<noteq> 0" "c \<noteq> q" "sub b N D c" "node_form b c D (N c)"
    "unat (entries_count (header_load (N c))) = unat (max_entries_count (header_load (N c)))"
    "4 < unat (entries_count (header_load (N c)))"
    "0 < split_point (N c)" "split_point (N c) < unat (entries_count (header_load (N c)))"
    "unat (entries_count (header_load (N c))) \<le> unat ((sb_block_size b - 12) div 12)"
proof -
  have x: "kids (N q) ! i \<in> set (kids (N q))" using assms by (simp add: splittable_def)
  have s: "sub b N (Suc D) q" "c = index_get_pblock (kids (N q) ! i)" using assms by (simp_all add: splittable_def)
  note c = sub_child [OF s(1) x, folded s(2)]
  show "c \<noteq> 0" "sub b N D c" by (fact c)+
  have "c \<in> set (blks_below N D (kids (N q)))" using x s(2) blks_self [of c N D] by (auto intro!: bexI [OF _ x])
  then show "c \<noteq> q" using assms by (auto simp: splittable_def)
  show f: "node_form b c D (N c)" using sub_node [OF c(2)] by (simp add: node_valid_def)
  then have v: "validate_header False (sb_block_size b) (header_load (N c)) = EOK"
    "4 < unat (max_entries_count (header_load (N c)))" using c(1) by (simp_all add: node_form_def)
  have "h_full (header_load (N c))" using assms unfolding splittable_def by blast
  with v(1) show n: "unat (entries_count (header_load (N c))) = unat (max_entries_count (header_load (N c)))"
    using not_h_full [of "header_load (N c)"] by (auto simp: validate_header_block_iff)
  with v show "4 < unat (entries_count (header_load (N c)))"
    "unat (entries_count (header_load (N c))) \<le> unat ((sb_block_size b - 12) div 12)"
    by (simp_all add: validate_header_block_iff)
  then show "0 < split_point (N c)" "split_point (N c) < unat (entries_count (header_load (N c)))"
    by (simp_all add: split_point_def)
qed

lemma half_forms:
  assumes sp: "splittable b N D q i c" and bs: "block_size_ok b" and nb: "nb \<noteq> 0"
    and buf: "length buf = unat (sb_block_size b)"
  shows "node_form b nb D (right_half b (N c) buf)" "node_form b c D (left_half (N c))"
    "kids (right_half b (N c) buf) = drop (split_point (N c)) (kids (N c))"
    "leaves (right_half b (N c) buf) = drop (split_point (N c)) (leaves (N c))"
    "kids (left_half (N c)) = take (split_point (N c)) (kids (N c))"
    "leaves (left_half (N c)) = take (split_point (N c)) (leaves (N c))"
    "entries_count (header_load (right_half b (N c) buf)) \<noteq> 0"
    "entries_count (header_load (left_half (N c))) \<noteq> 0"
    "first_key (left_half (N c)) = first_key (N c)"
    "max_entries_count (header_load (left_half (N c))) = max_entries_count (header_load (N c))"
    "length (kids (N c)) \<le> unat (max_entries_count (header_load (right_half b (N c) buf)))"
proof -
  let ?n = "unat (entries_count (header_load (N c)))" and ?m = "split_point (N c)"
  note c = splittable_child [OF sp]
  have l: "length (mem_zero 0 (unat (sb_block_size b)) buf) = unat (sb_block_size b)"
    using buf by (rule mem_zero_all)
  have m: "?m + (?n - ?m) \<le> ?n" "0 < ?n - ?m" "?n - ?m \<le> unat ((sb_block_size b - 12) div 12)"
    using c(8,9) by simp_all
  note r = copied_form [OF c(4) bs nb l m refl]
  have eq: "right_half b (N c) buf = mem_write (slot 0) (mem_read (slot ?m) ((?n - ?m) * 12) (N c))
      (header_store \<lparr>magic = EXT4_EXTENT_MAGIC, entries_count = of_nat (?n - ?m),
        max_entries_count = ucast ((sb_block_size b - 12) div 12), depth = depth (header_load (N c)),
        generation = 0\<rparr> (mem_zero 0 (unat (sb_block_size b)) buf))"
    by (simp add: right_half_def split_right_bytes_def Let_def split_point_def)
  show "node_form b nb D (right_half b (N c) buf)" unfolding eq by (rule r(1))
  show "kids (right_half b (N c) buf) = drop ?m (kids (N c))"
    unfolding eq using r(2) by (simp add: length_kids)
  show "leaves (right_half b (N c) buf) = drop ?m (leaves (N c))"
    unfolding eq using r(3) by (simp add: length_leaves)
  show "entries_count (header_load (right_half b (N c) buf)) \<noteq> 0"
    unfolding eq r(4) using r(5) m(2) by auto
  show "length (kids (N c)) \<le> unat (max_entries_count (header_load (right_half b (N c) buf)))"
    unfolding eq r(4) using c(9) capacity_bounds(2) [OF bs] by (simp add: length_kids)
  note f = left_form [OF c(4) bs c(1,7) less_imp_le [OF c(8)], folded left_half_def]
  show "node_form b c D (left_half (N c))" "kids (left_half (N c)) = take ?m (kids (N c))"
    "leaves (left_half (N c)) = take ?m (leaves (N c))" by (fact f(1), fact f(2), fact f(3))
  show n: "entries_count (header_load (left_half (N c))) \<noteq> 0" using f(5) c(7) by auto
  show "max_entries_count (header_load (left_half (N c))) = max_entries_count (header_load (N c))"
    by (simp add: f(4))
  have "kids (left_half (N c)) \<noteq> []" "kids (N c) \<noteq> []"
    using f(5) c(6,7) by (auto simp: length_kids simp flip: length_0_conv)
  then show "first_key (left_half (N c)) = first_key (N c)"
    using first_key_kids f(2) c(7) by simp
qed

lemma split_parent:
  fixes N :: "u64 \<Rightarrow> bytes" and buf :: bytes and nb :: u64 and b :: ext4_sb and q c :: u64 and i :: nat
  defines "right \<equiv> right_half b (N c) buf"
  defines "parent \<equiv> insert_index_bytes (header_load (N q)) (Suc i) (first_key right) nb (N q)"
  assumes sp: "splittable b N D q i c" and bs: "block_size_ok b" and buf: "length buf = unat (sb_block_size b)"
    and nb: "nb \<notin> set (blks N (Suc D) q)" "nb \<noteq> 0" "nb < sb_blocks_cnt b" "unat nb < 2 ^ 48"
  shows "node_form b q (Suc D) parent"
    and "entry_insert_pos (N q) (length (kids (N q))) (first_key right) = Suc i"
    and "ix_first_block (kids (N q) ! i) \<noteq> first_key right"
    and "sealed b c (left_half (N c)) dl \<Longrightarrow> sealed b nb right dr \<Longrightarrow> sealed b q parent dq \<Longrightarrow>
      N' = N(nb := dr, q := dq, c := dl) \<Longrightarrow>
      sub b N' (Suc D) q \<and> exts N' (Suc D) q = exts N (Suc D) q
      \<and> distinct (blks N' (Suc D) q) \<and> set (blks N' (Suc D) q) = insert nb (set (blks N (Suc D) q))
      \<and> first_key (N' q) = first_key (N q)"
proof -
  let ?ks = "kids (N q)"
  have s: "sub b N (Suc D) q" "i < length ?ks" "c = index_get_pblock (?ks ! i)"
    "distinct (blks N (Suc D) q)" "extents_ok (sb_blocks_cnt b) (exts N (Suc D) q)"
    "\<not> h_full (header_load (N q))"
    using sp unfolding splittable_def by blast+
  note c = splittable_child [OF sp]
  note hf = half_forms [OF sp bs nb(2) buf, folded right_def]
  have ne: "nb \<noteq> q" "nb \<noteq> c"
  proof -
    have "c \<in> set (blks N (Suc D) q)"
      using s(2,3) blks_self [of c N D] by (auto intro!: bexI [OF _ nth_mem [OF s(2)]])
    then show "nb \<noteq> q" "nb \<noteq> c" using nb(1) by auto
  qed
  let ?ys = "take (Suc i) ?ks @ new_index (first_key right) nb # drop (Suc i) ?ks"
  have below: "indices_ok (sb_blocks_cnt b) ?ys
      \<and> (\<forall>y \<in> set ?ys. ix_first_block y = first_key (M (index_get_pblock y)) \<and> sub b M D (index_get_pblock y))
      \<and> exts_below M D ?ys = exts N (Suc D) q \<and> distinct (q # blks_below M D ?ys)
      \<and> set (q # blks_below M D ?ys) = insert nb (set (blks N (Suc D) q))"
    if l: "sealed b c (left_half (N c)) dl" and r: "sealed b nb right dr"
      and M: "M c = dl" "M nb = dr" "\<And>r. r \<noteq> q \<Longrightarrow> r \<noteq> c \<Longrightarrow> r \<noteq> nb \<Longrightarrow> M r = N r" for dl dr M
  proof -
    note sl = sealed_node [OF l hf(2) bs] and sr = sealed_node [OF r hf(1) bs]
    have k: "first_key dr = first_key right" "first_key dl = first_key (N c)"
      using sr(6) sl(6) hf(7-9) by simp_all
    note sk = split_kids [OF s(1-4) nb s(5), of M "split_point (N c)", unfolded M(1,2) k(1)]
    have m: "kids dl = take (split_point (N c)) (kids (N c))" "kids dr = drop (split_point (N c)) (kids (N c))"
      "leaves dl = take (split_point (N c)) (leaves (N c))" "leaves dr = drop (split_point (N c)) (leaves (N c))"
      using sl(4,5) sr(4,5) hf(3-6) by simp_all
    note sk = sk [OF sl(1) sr(1) m k(2) M(3)]
    show ?thesis by (intro conjI sk)
  qed
  obtain dl0 dr0 where d0: "sealed b c (left_half (N c)) dl0" "sealed b nb right dr0"
    using seal_exists hf(1,2) bs by blast
  have ys: "indices_ok (sb_blocks_cnt b) ?ys"
    using below [OF d0, of "N(nb := dr0, c := dl0)"] ne by simp
  then have "sorted_wrt (\<lambda>a b. ix_first_block a < ix_first_block b) ?ys" by (simp add: indices_ok_def)
  from insert_pos_sorted [OF this s(2)]
  show "entry_insert_pos (N q) (length ?ks) (first_key right) = Suc i"
    "ix_first_block (?ks ! i) \<noteq> first_key right" by (auto simp: new_index_fields)
  have form: "node_form b q (Suc D) (N q)" using sub_node [OF s(1)] by (simp add: node_valid_def)
  note fp = insert_index_form [OF form bs s(6) Suc_leI [OF s(2)], where k = "first_key right" and pb = nb, folded parent_def]
  show pf: "node_form b q (Suc D) parent" using fp(1,2) ys by simp
  show "sub b N' (Suc D) q \<and> exts N' (Suc D) q = exts N (Suc D) q
      \<and> distinct (blks N' (Suc D) q) \<and> set (blks N' (Suc D) q) = insert nb (set (blks N (Suc D) q))
      \<and> first_key (N' q) = first_key (N q)"
    if d: "sealed b c (left_half (N c)) dl" "sealed b nb right dr" "sealed b q parent dq"
      and N': "N' = N(nb := dr, q := dq, c := dl)"
  proof -
    have M: "N' c = dl" "N' nb = dr" "N' q = dq" "\<And>r. r \<noteq> q \<Longrightarrow> r \<noteq> c \<Longrightarrow> r \<noteq> nb \<Longrightarrow> N' r = N r"
      using ne c(2) by (simp_all add: N')
    note bl = below [OF d(1,2) M(1,2,4)]
    note sq = sealed_node [OF d(3) pf bs]
    have k: "kids dq = ?ys" using sq(4) fp(1) by simp
    have "sealed b q parent (N' q)" unfolding M(3) by (fact d(3))
    moreover have "ix_first_block x = first_key (N' (index_get_pblock x)) \<and> sub b N' D (index_get_pblock x)"
      if "x \<in> set (kids parent)" for x
      using bl that unfolding fp(1) by blast
    ultimately have sub': "sub b N' (Suc D) q" by (intro sub_kids [OF pf _ bs])
    have "?ys \<noteq> []" "?ks \<noteq> []" "?ys ! 0 = ?ks ! 0" using s(2) by (auto simp: nth_append)
    then have "first_key dq = first_key (N q)" using first_key_kids k by metis
    moreover have "exts N' (Suc D) q = exts_below N' D ?ys" "blks N' (Suc D) q = q # blks_below N' D ?ys"
      by (simp_all only: exts.simps blks.simps M(3) k)
    moreover have "q \<in> set (blks N (Suc D) q)" by simp
    ultimately show ?thesis using bl sub' M(3) by simp
  qed
qed

text \<open>The calls split_full_node makes, one after the other.\<close>

lemma split_full_node_run:
  fixes s :: "'e istate" and p :: extent_search_path and l :: nat
  defines "q \<equiv> pblock_of_node (path p ! l)" and "c \<equiv> pblock_of_node (path p ! Suc l)"
  assumes io: "io_reliable io" "alloc_laws io used" "block_size_ok (sb io)"
    and sp: "splittable (sb io) (nodes s) D q i c"
    and h: "header (path p ! l) = header_load (nodes s q)" "header (path p ! Suc l) = header_load (nodes s c)"
    and used: "set (blks (nodes s) (Suc D) q) \<subseteq> insert 0 (used (env s))" and len: "lengths_ok (sb io) (nodes s)"
  shows "(\<exists>r s'. split_full_node io p (Suc l) s = (r, s') \<and> alloc_error io r \<and> calm used s s')
    \<or> (\<exists>s' nb buf dl dr dq. split_full_node io p (Suc l) s = (EOK, s')
        \<and> nb \<notin> used (env s) \<and> nb \<noteq> 0 \<and> nb < sb_blocks_cnt (sb io) \<and> unat nb < 2 ^ 48
        \<and> length buf = unat (sb_block_size (sb io)) \<and> used (env s') = insert nb (used (env s))
        \<and> sealed (sb io) c (left_half (nodes s c)) dl \<and> sealed (sb io) nb (right_half (sb io) (nodes s c) buf) dr
        \<and> sealed (sb io) q (insert_index_bytes (header_load (nodes s q)) (Suc i)
             (first_key (right_half (sb io) (nodes s c) buf)) nb (nodes s q)) dq
        \<and> nodes s' = (nodes s)(nb := dr, q := dq, c := dl))"
proof -
  let ?b = "sb io" and ?N = "nodes s" and ?h = "header_load (nodes s c)"
  note c = splittable_child [OF sp]
  have s: "sub ?b ?N (Suc D) q" "i < length (kids (?N q))" "\<not> h_full (header_load (?N q))"
    using sp unfolding splittable_def by blast+
  obtain s1 where s1: "node_block_get io c s = (EOK, s1)" "calm used s s1"
    using reliable_get [OF io(1,2)] by blast
  have N1: "nodes s1 = ?N" "bufs s1 c = ?N c" using s1(2) c(1) by (simp_all add: calm_def nodes_block)
  have ec: "entries_count ?h = max_entries_count ?h" using c(5) by (simp add: word_unat_eq_iff)
  have guard: "\<not> (c = 0 \<or> unat (entries_count ?h) < 2 \<or> entries_count ?h \<noteq> max_entries_count ?h)"
    using c(1,6) ec by simp
  have v: "validate_header False (sb_block_size ?b) ?h = EOK" "validate_entries ?b (?N c) ?h = EOK"
    using c(1,4) by (simp_all add: node_form_def)
  let ?goal = "fs_inode_to_goal_block io s1"
  from io(2) show ?thesis
  proof (cases rule: alloc_block_cases [where goal = ?goal and s = s1])
    case (fail r pb s2)
    have "split_full_node io p (Suc l) s = (r, release io c s2)"
      using guard s(3) s1(1) v fail(1,2) N1(2) h ec
      by (simp add: split_full_node_def Let_def flip: c_def)
    moreover have "calm used s (release io c s2)"
      using calm_trans [OF s1(2) calm_trans [OF fail(3) calm_release [OF io(2)]]] .
    ultimately show ?thesis using fail(4) by blast
  next
    case (ok nb s2)
    have fresh: "nb \<notin> used (env s)" "used (env s2) = insert nb (used (env s))"
      using ok(5,6) s1(2) by (simp_all add: calm_def)
    then have nbq: "nb \<notin> set (blks ?N (Suc D) q)" using used ok(7) by auto
    have "c \<in> set (blks ?N (Suc D) q)" "q \<in> set (blks ?N (Suc D) q)"
      using sp blks_self [of c ?N D] by (auto simp: splittable_def intro!: bexI [OF _ nth_mem])
    then have ne: "nb \<noteq> c" "nb \<noteq> q" using nbq by auto
    obtain s3 where s3: "ext4_trans_block_get_noread io nb s2 = (EOK, s3)" "calm used s2 s3"
      using reliable_get_noread [OF io(1,2)] by blast
    have N3: "nodes s3 = ?N" "bufs s3 = bufs s1" "used (env s3) = insert nb (used (env s))"
      using s3(2) ok(2,3) N1(1) fresh(2) by (simp_all add: calm_def)
    define buf where "buf = bufs s1 nb"
    have buf: "length buf = unat (sb_block_size ?b)"
      using len N1(1) nodes_block [OF ok(7), of s1] ok(7) unfolding buf_def lengths_ok_def by metis
    let ?right = "right_half ?b (?N c) buf"
    note hf = half_forms [OF sp io(3) ok(7) buf]
    note pr = split_parent [OF sp io(3) buf nbq ok(7-9)]
    let ?s4 = "s3\<lparr>bufs := (bufs s3)(nb := ?right)\<rparr>"
    have N4: "nodes ?s4 = ?N(nb := ?right)" using nodes_bufs [OF ok(7), of s3 ?right] N3(1) by simp
    obtain s5 where s5: "ext4_block_set io c ?s4 = (EOK, s5)" "calm used ?s4 s5"
      using reliable_set [OF io(1,2)] by blast
    have N5: "nodes s5 = ?N(nb := ?right)" "used (env s5) = insert nb (used (env s))"
      using s5(2) N4 N3(3) by (simp_all add: calm_def)
    have "node_form ?b nb D (bufs s5 nb)" using hf(1) N5(1) nodes_block [OF ok(7), of s5] by simp
    from checksum_and_put_stored [OF io ok(7) this]
    obtain s6 dr where s6: "checksum_and_put io nb s5 = (EOK, s6)" "sealed ?b nb ?right dr"
      "nodes s6 = ?N(nb := dr)" "used (env s6) = insert nb (used (env s))"
      using N5 nodes_block [OF ok(7), of s5] by (auto simp: stored_def)
    let ?k = "first_key ?right"
    let ?parent = "insert_index_bytes (header_load (?N q)) (Suc i) ?k nb (?N q)"
    have q6: "nodes s6 q = ?N q" using ne by (simp add: s6(3))
    obtain s7 dq where s7: "insert_index_entry io p l ?k nb s6 = (EOK, s7)" "sealed ?b q ?parent dq"
      "nodes s7 = ?N(nb := dr, q := dq)" "used (env s7) = insert nb (used (env s))"
      using insert_index_entry_stored [OF io, of p l s6 D ?k i nb, folded q_def, unfolded q6]
        h(1) sub_node [OF s(1)] s(2,3) pr(1-3) s6(3,4) by (auto simp: stored_def)
    have c7: "nodes s7 c = ?N c" using ne c(2) by (simp add: s7(3))
    have "node_form ?b c D (split_left_bytes ?h (split_point (?N c)) (unat (entries_count ?h)) (nodes s7 c))"
      using hf(2) by (simp add: c7 left_half_def)
    from update_block [where f = "split_left_bytes ?h (split_point (?N c)) (unat (entries_count ?h))" and s = s7,
        OF io c(1) this]
    obtain s8 s9 dl where s9: "node_block_get io c s7 = (EOK, s8)"
      "checksum_and_put io c (s8\<lparr>bufs := (bufs s8)(c := split_left_bytes ?h (split_point (?N c))
        (unat (entries_count ?h)) (bufs s8 c))\<rparr>) = (EOK, s9)"
      "sealed ?b c (left_half (?N c)) dl" "nodes s9 = ?N(nb := dr, q := dq, c := dl)"
      "used (env s9) = insert nb (used (env s))"
      using s7(3,4) ne c(2) by (auto simp: stored_def left_half_def)
    have r3: "split_right_bytes (sb_block_size ?b) ?h (split_point (?N c)) (unat (entries_count ?h)) (bufs s3 c) (bufs s3 nb)
        = ?right" by (simp add: N3(2) N1(2) right_half_def buf_def)
    have "split_full_node io p (Suc l) s = (EOK, s9)"
      using guard s(3) s1(1) v ok(1) s3(1) s5(1) s6(1) s7(1) s9(1,2) h ec
      by (simp add: split_full_node_def Let_def N1(2) r3 [unfolded split_point_def ec] split_point_def
          flip: c_def)
    with ok fresh buf s6(2) s7(2) s9 show ?thesis by blast
  qed
qed

text \<open>The nodes after a split: the entries of \<open>c\<close> are divided between \<open>c\<close> and \<open>nb\<close>.\<close>

definition did_split :: "(u64 \<Rightarrow> bytes) \<Rightarrow> u64 \<Rightarrow> nat \<Rightarrow> u64 \<Rightarrow> u64 \<Rightarrow> (u64 \<Rightarrow> bytes) \<Rightarrow> bool" where
  "did_split N q i c nb N' \<longleftrightarrow>
     (\<exists>y. kids (N' q) = take (Suc i) (kids (N q)) @ y # drop (Suc i) (kids (N q))
        \<and> ix_first_block y = first_key (N' nb) \<and> index_get_pblock y = nb)
     \<and> kids (N' c) = take (length (kids (N c)) div 2) (kids (N c))
     \<and> kids (N' nb) = drop (length (kids (N c)) div 2) (kids (N c))
     \<and> max_entries_count (header_load (N' q)) = max_entries_count (header_load (N q))
     \<and> max_entries_count (header_load (N' c)) = max_entries_count (header_load (N c))
     \<and> length (kids (N c)) \<le> unat (max_entries_count (header_load (N' nb)))
     \<and> (\<forall>r. r \<noteq> q \<longrightarrow> r \<noteq> c \<longrightarrow> r \<noteq> nb \<longrightarrow> N' r = N r)"

lemma did_split_stored:
  assumes sp: "splittable b N D q i c" and bs: "block_size_ok b" and buf: "length buf = unat (sb_block_size b)"
    and nb: "nb \<notin> set (blks N (Suc D) q)" "nb \<noteq> 0" "nb < sb_blocks_cnt b" "unat nb < 2 ^ 48"
    and d: "sealed b c (left_half (N c)) dl" "sealed b nb (right_half b (N c) buf) dr"
      "sealed b q (insert_index_bytes (header_load (N q)) (Suc i)
        (first_key (right_half b (N c) buf)) nb (N q)) dq"
    and N': "N' = N(nb := dr, q := dq, c := dl)"
  shows "did_split N q i c nb N'"
proof -
  note c = splittable_child [OF sp]
  note hf = half_forms [OF sp bs nb(2) buf]
  note pf = split_parent(1) [OF sp bs buf nb]
  note sl = sealed_node [OF d(1) hf(2) bs] and sr = sealed_node [OF d(2) hf(1) bs] and sq = sealed_node [OF d(3) pf bs]
  have s: "sub b N (Suc D) q" "i < length (kids (N q))" "\<not> h_full (header_load (N q))"
    using sp unfolding splittable_def by blast+
  have form: "node_form b q (Suc D) (N q)" using sub_node [OF s(1)] by (simp add: node_valid_def)
  note fp = insert_index_form [OF form bs s(3) Suc_leI [OF s(2)],
    where k = "first_key (right_half b (N c) buf)" and pb = nb]
  have "c \<in> set (blks N (Suc D) q)"
    using sp blks_self [of c N D] by (auto simp: splittable_def intro!: bexI [OF _ nth_mem])
  then have ne: "nb \<noteq> q" "nb \<noteq> c" using nb(1) by auto
  have mx: "max_entries_count (header_load dl) = max_entries_count (header_load (N c))"
    "length (kids (N c)) \<le> unat (max_entries_count (header_load dr))"
    using hf(10,11) sl(3) sr(3) by simp_all
  have "kids dq = take (Suc i) (kids (N q)) @ new_index (first_key dr) nb # drop (Suc i) (kids (N q))"
    using sq(4) fp(1) sr(6) hf(7) by simp
  moreover have "max_entries_count (header_load dq) = max_entries_count (header_load (N q))"
    using sq(3) fp(3) by simp
  ultimately show ?thesis
    using ne c(2) mx sl(4) sr(4) hf(3,5) nb(4)
    by (auto simp: did_split_def N' split_point_def length_kids new_index_fields)
qed

lemma split_lengths:
  assumes "lengths_ok b N" "block_size_ok b" "splittable b N D q i c" "nb \<noteq> 0" "length buf = unat (sb_block_size b)"
    and "sealed b c (left_half (N c)) dl" "sealed b nb (right_half b (N c) buf) dr"
    and "sealed b q data dq" "node_form b q (Suc D) data"
  shows "lengths_ok b (N(nb := dr, q := dq, c := dl))"
proof -
  note hf = half_forms [OF assms(3,2,4,5)]
  have "lengths_ok b (N(nb := dr))" using assms(1,7) hf(1) assms(2) by (rule lengths_ok_update)
  then have "lengths_ok b (N(nb := dr, q := dq))" using assms(8,9,2) by (rule lengths_ok_update)
  then show ?thesis using assms(6) hf(2) assms(2) by (rule lengths_ok_update)
qed

lemma path_splittable:
  assumes inv: "tree_inv b used s" and pt: "path_at (nodes s) (root_depth s) 0 (ns @ [n]) D c"
    and "h_full (header_load (nodes s c))" "\<not> h_full (header n)"
  shows "splittable b (nodes s) D (pblock_of_node n) (position n) c"
    "path_at (nodes s) (root_depth s) 0 ns (Suc D) (pblock_of_node n)"
    "header n = header_load (nodes s (pblock_of_node n))"
    "set (blks (nodes s) (Suc D) (pblock_of_node n)) \<subseteq> set (blks (nodes s) (root_depth s) 0)"
proof -
  let ?q = "pblock_of_node n"
  have tree: "sub b (nodes s) (root_depth s) 0" "distinct (blks (nodes s) (root_depth s) 0)"
    "extents_ok (sb_blocks_cnt b) (exts (nodes s) (root_depth s) 0)"
    using inv by (simp_all add: tree_inv_def)
  show pq: "path_at (nodes s) (root_depth s) 0 ns (Suc D) ?q" and h: "header n = header_load (nodes s ?q)"
    using pt by (simp_all add: path_at_snoc)
  have c: "position n < length (kids (nodes s ?q))" "c = index_get_pblock (kids (nodes s ?q) ! position n)"
    using pt by (auto simp: path_at_snoc)
  show "set (blks (nodes s) (Suc D) ?q) \<subseteq> set (blks (nodes s) (root_depth s) 0)"
    using pq by (rule path_blks)
  have sub: "sub b (nodes s) (Suc D) ?q" using path_sub [OF pq tree(1)] .
  have "spliced b (nodes s) (root_depth s) 0 ns (Suc D) ?q (exts (nodes s) (Suc D) ?q) (blks (nodes s) (Suc D) ?q) (nodes s)"
    using replace_spliced [where F = "{}" and N' = "nodes s", OF pq tree(1,2)] sub by (simp add: frame_def)
  then have "distinct (blks (nodes s) (Suc D) ?q)" using tree(2) by (auto simp: spliced_def)
  moreover have "extents_ok (sb_blocks_cnt b) (exts (nodes s) (Suc D) ?q)"
    using tree(3) unfolding path_exts [OF pq] by (rule extents_ok_mid)
  ultimately show "splittable b (nodes s) D ?q (position n) c"
    using sub c assms(3,4) h by (simp only: splittable_def simp_thms)
qed

lemma split_full_node_ok:
  assumes io: "io_reliable io" "alloc_laws io used" "block_size_ok (sb io)"
    and inv: "tree_inv (sb io) used s" and pt: "path_at (nodes s) (root_depth s) 0 (ns @ [n]) D c"
    and p: "path p ! length ns = n" "pblock_of_node (path p ! Suc (length ns)) = c"
      "header (path p ! Suc (length ns)) = header_load (nodes s c)"
    and full: "h_full (header_load (nodes s c))" "\<not> h_full (header n)"
  shows "\<exists>r s'. split_full_node io p (Suc (length ns)) s = (r, s') \<and> reshaped (sb io) used s s'
    \<and> (if r = EOK then root_depth s' = root_depth s
           \<and> (\<exists>nb. nb \<notin> set (blks (nodes s) (root_depth s) 0)
                \<and> did_split (nodes s) (pblock_of_node n) (position n) c nb (nodes s'))
         else alloc_error io r)"
proof -
  let ?N = "nodes s" and ?q = "pblock_of_node n" and ?b = "sb io"
  note ps = path_splittable [OF inv pt full]
  have tree: "sub ?b ?N (root_depth s) 0" "distinct (blks ?N (root_depth s) 0)" "lengths_ok ?b ?N"
    "set (blks ?N (root_depth s) 0) \<subseteq> insert 0 (used (env s))"
    "extents_ok (sb_blocks_cnt ?b) (exts ?N (root_depth s) 0)"
    using inv by (simp_all add: tree_inv_def)
  have used: "set (blks ?N (Suc D) ?q) \<subseteq> insert 0 (used (env s))" using ps(4) tree(4) by blast
  from split_full_node_run [where s = s and p = p and l = "length ns" and D = D and i = "position n", OF io, unfolded p, OF ps(1,3) refl used tree(3)]
  show ?thesis
  proof (elim disjE exE conjE)
    fix r s' assume "split_full_node io p (Suc (length ns)) s = (r, s')" "calm used s s'" "alloc_error io r"
    with reshaped_calm inv show ?thesis by (auto simp: alloc_error_def)
  next
    fix s' nb buf dl dr dq
    assume run: "split_full_node io p (Suc (length ns)) s = (EOK, s')"
      and nb: "nb \<notin> used (env s)" "nb \<noteq> 0" "nb < sb_blocks_cnt ?b" "unat nb < 2 ^ 48"
      and buf: "length buf = unat (sb_block_size ?b)" and us: "used (env s') = insert nb (used (env s))"
      and d: "sealed ?b c (left_half (?N c)) dl" "sealed ?b nb (right_half ?b (?N c) buf) dr"
        "sealed ?b ?q (insert_index_bytes (header_load (?N ?q)) (Suc (position n))
             (first_key (right_half ?b (?N c) buf)) nb (?N ?q)) dq"
      and N': "nodes s' = ?N(nb := dr, ?q := dq, c := dl)"
    have fresh: "nb \<notin> set (blks ?N (root_depth s) 0)" using tree(4) nb(1,2) by auto
    then have "nb \<notin> set (blks ?N (Suc D) ?q)" using ps(4) by blast
    note sp = split_parent [OF ps(1) io(3) buf this nb(2-4)]
    note r = sp(4) [OF d N']
    have "c \<in> set (blks ?N (Suc D) ?q)"
      using ps(1) blks_self [of c ?N D] by (auto simp: splittable_def intro!: bexI [OF _ nth_mem])
    then have fr: "frame ?N (nodes s') (set (blks ?N (Suc D) ?q) \<union> {nb})"
      by (auto simp: frame_def N')
    have "spliced ?b ?N (root_depth s) 0 ns (Suc D) ?q (exts (nodes s') (Suc D) ?q) (blks (nodes s') (Suc D) ?q) (nodes s')"
      using r fresh by (intro replace_spliced [OF ps(2) tree(1,2) fr]) auto
    then have spl: "spliced ?b ?N (root_depth s) 0 ns (Suc D) ?q (exts ?N (Suc D) ?q) (blks (nodes s') (Suc D) ?q) (nodes s')"
      using r by simp
    have len: "lengths_ok ?b (nodes s')"
      unfolding N' using split_lengths [OF tree(3) io(3) ps(1) nb(2) buf d sp(1)] .
    have ok: "extents_ok (sb_blocks_cnt ?b)
        (before ?N (root_depth s) 0 ns @ exts ?N (Suc D) ?q @ after ?N (root_depth s) 0 ns)"
      using tree(5) unfolding path_exts [OF ps(2)] .
    have fb: "{nb} \<inter> set (blks ?N (root_depth s) 0) = {}" "{nb} \<subseteq> used (env s')" "used (env s) \<subseteq> used (env s')"
      "distinct (blks (nodes s') (Suc D) ?q)"
      "set (blks (nodes s') (Suc D) ?q) \<subseteq> set (blks ?N (Suc D) ?q) \<union> {nb}"
      using fresh us r by (auto simp del: blks.simps)
    note fin = tree_inv_spliced [OF inv spl ok fb(4,5,1,2,3) len]
    have t: "tree_inv ?b used s'" "tree_extents s' = exts ?N (root_depth s) 0" "root_depth s' = root_depth s"
      "tree_blocks s' = (tree_blocks s - set (blks ?N (Suc D) ?q)) \<union> set (blks (nodes s') (Suc D) ?q)"
      using fin by (simp_all only: path_exts [OF ps(2)])
    have "tree_blocks s' = insert nb (tree_blocks s)"
    proof -
      have "set (blks ?N (Suc D) ?q) \<subseteq> tree_blocks s" using path_blks [OF ps(2)] by (simp only: tree_blocks_def)
      moreover have "set (blks (nodes s') (Suc D) ?q) = insert nb (set (blks ?N (Suc D) ?q))" using r by blast
      ultimately show ?thesis unfolding t(4) by blast
    qed
    then have "takes_new used s s'" using us nb(1) by (auto simp: takes_new_def)
    have "did_split ?N ?q (position n) c nb (nodes s')"
      using did_split_stored [OF ps(1) io(3) buf \<open>nb \<notin> set (blks ?N (Suc D) ?q)\<close> nb(2-4) d N'] .
    with run t fresh tree_inv_tree_ok(2) [OF inv] \<open>takes_new used s s'\<close> show ?thesis
      by (auto simp: reshaped_def)
  qed
qed

end
