(* ===== verification/Extent_Room.thy ===== *)
theory Extent_Room
  imports Extent_Split
begin

text \<open>
  ensure_insert_room and insert_extent on trees of any depth.  Each round of the loop grows
  the tree or splits the topmost full node of the path.  \<open>crowd\<close> sums over the path how close
  each node is to being full; every round lowers it, so the loop's EXT4_EXTENT_MAX_DEPTH * 2 + 4
  attempts are more than enough.
\<close>

section \<open>The route of a lookup\<close>

primrec route :: "(u64 \<Rightarrow> bytes) \<Rightarrow> nat \<Rightarrow> u64 \<Rightarrow> u32 \<Rightarrow> u64 list" where
  "route N 0 pb lb = [pb]"
| "route N (Suc d) pb lb = pb # route N d (index_get_pblock (kids (N pb) ! key_pos (kids (N pb)) lb)) lb"

definition crowding :: "bytes \<Rightarrow> nat" where
  "crowding data = 2 - (unat (max_entries_count (header_load data)) - length (kids data))"

definition crowd :: "(u64 \<Rightarrow> bytes) \<Rightarrow> nat \<Rightarrow> u32 \<Rightarrow> nat" where
  "crowd N d lb = (\<Sum>q \<leftarrow> route N d 0 lb. crowding (N q))"

lemma crowding_full: "h_full (header_load data) \<Longrightarrow> crowding data = 2"
  by (simp add: crowding_def h_full_def length_kids word_le_nat_alt)

lemma length_route [simp]: "length (route N d pb lb) = Suc d"
  by (induction d arbitrary: pb) simp_all

lemma crowd_bound: "crowd N d lb \<le> 2 * Suc d"
proof -
  have "crowd N d lb \<le> (\<Sum>q \<leftarrow> route N d 0 lb. 2)"
    unfolding crowd_def by (rule sum_list_mono) (simp add: crowding_def)
  then show ?thesis by (simp add: sum_list_triv)
qed

lemma chosen_kid:
  assumes "sub b N (Suc d) pb"
  shows "kids (N pb) ! key_pos (kids (N pb)) lb \<in> set (kids (N pb))"
  using key_pos_spec(1) [OF node_valid_kids(2) [OF sub_node [OF assms]]] by simp

lemma route_agree:
  assumes "sub b N d pb" "\<forall>q \<in> set (blks N d pb). N' q = N q"
  shows "route N' d pb lb = route N d pb lb"
  using assms
proof (induction d arbitrary: pb)
  case (Suc d)
  note k = chosen_kid [OF Suc.prems(1), of lb]
  have pb: "N' pb = N pb" using Suc.prems(2) by simp
  have "\<forall>q \<in> set (blks N d (index_get_pblock (kids (N pb) ! key_pos (kids (N pb)) lb))). N' q = N q"
    using Suc.prems(2) blks_kid [where N = N and pb = pb and d = d, OF k] by blast
  with Suc.IH sub_child(2) [OF Suc.prems(1) k] show ?case by (simp add: pb)
qed simp

lemma route_blks: "sub b N d pb \<Longrightarrow> set (route N d pb lb) \<subseteq> set (blks N d pb)"
proof (induction d arbitrary: pb)
  case (Suc d)
  note k = chosen_kid [OF Suc.prems, of lb]
  from Suc.IH [OF sub_child(2) [OF Suc.prems k]] blks_kid [where N = N and pb = pb and d = d, OF k] show ?case by auto
qed simp

lemma route_path:
  assumes "path_at N d pb ns d' c" "\<forall>n \<in> set ns. position n = key_pos (kids (N (pblock_of_node n))) lb"
  shows "route N d pb lb = map pblock_of_node ns @ route N d' c lb"
  using assms
proof (induction ns arbitrary: d pb)
  case (Cons n ns)
  then obtain e where d: "d = Suc e" by (cases d) auto
  from Cons show ?case by (auto simp: d)
qed simp

lemma path_at_cong:
  "\<forall>n \<in> set ns. N' (pblock_of_node n) = N (pblock_of_node n) \<Longrightarrow> path_at N' d pb ns d' c = path_at N d pb ns d' c"
proof (induction ns arbitrary: d pb)
  case (Cons n ns)
  then have "path_at N' (d - 1) (index_get_pblock (index n)) ns d' c
      = path_at N (d - 1) (index_get_pblock (index n)) ns d' c" by simp
  moreover have "N' (pblock_of_node n) = N (pblock_of_node n)" using Cons.prems by simp
  ultimately show ?case by auto
qed simp

lemma path_nodes_off:
  assumes "path_at N d pb ns d' c" "distinct (blks N d pb)" "n \<in> set ns"
  shows "pblock_of_node n \<in> set (blks N d pb)" "pblock_of_node n \<notin> set (blks N d' c)"
proof -
  have "pblock_of_node n \<in> set (blks N d pb) \<and> pblock_of_node n \<notin> set (blks N d' c)"
    using assms
  proof (induction ns arbitrary: d pb)
    case (Cons m ns)
    then obtain e where d: "d = Suc e" by (cases d) auto
    note st = path_step [OF Cons.prems(1) [unfolded d]]
    have m: "pblock_of_node m = pb" using Cons.prems(1) by simp
    have dist: "distinct (blks N e (index_get_pblock (index m)))" "pb \<notin> set (blks N e (index_get_pblock (index m)))"
      using Cons.prems(2) unfolding d st(5) by auto
    have incl: "set (blks N e (index_get_pblock (index m))) \<subseteq> set (blks N d pb)"
      unfolding d st(5) by auto
    show ?case
    proof (cases "n = m")
      case True
      with m dist(2) path_blks [OF st(2)] show ?thesis by auto
    next
      case False
      with Cons.IH [OF st(2) dist(1)] Cons.prems(3) incl show ?thesis by auto
    qed
  qed simp
  then show "pblock_of_node n \<in> set (blks N d pb)" "pblock_of_node n \<notin> set (blks N d' c)" by simp_all
qed

section \<open>Every round makes the route less crowded\<close>

lemma route_hd_tl: "route N d pb lb = pb # tl (route N d pb lb)"
  by (cases d) simp_all

lemma sum_route_eq:
  assumes "\<forall>q \<in> set qs. N' q = N q"
  shows "(\<Sum>q \<leftarrow> qs. crowding (N' q)) = (\<Sum>q \<leftarrow> qs. crowding (N q))"
proof -
  have "map (\<lambda>q. crowding (N' q)) qs = map (\<lambda>q. crowding (N q)) qs" using assms by simp
  then show ?thesis by (simp only:)
qed

lemma crowd_grown:
  assumes "grown N D nb N'" "sub b N D 0" "distinct (blks N D 0)" "h_full (header_load (N 0))"
  shows "crowd N' (Suc D) lb < crowd N D lb"
proof -
  have g: "nb \<notin> set (blks N D 0)" "nb \<noteq> 0" "kids (N' nb) = kids (N 0)"
    "unat (max_entries_count (header_load (N' 0))) = 4" "80 < unat (max_entries_count (header_load (N' nb)))"
    "\<And>r. r \<noteq> 0 \<Longrightarrow> r \<noteq> nb \<Longrightarrow> N' r = N r"
    using assms(1) by (simp_all add: grown_def)
  obtain x where x: "kids (N' 0) = [x]" "index_get_pblock x = nb"
    using assms(1) by (auto simp: grown_def)
  have "route N' D nb lb = nb # tl (route N D 0 lb) \<and> (\<forall>q \<in> set (tl (route N D 0 lb)). N' q = N q)"
  proof (cases D)
    case (Suc e)
    let ?k = "index_get_pblock (kids (N 0) ! key_pos (kids (N 0)) lb)"
    note k = chosen_kid [OF assms(2) [unfolded Suc], of lb]
    note s = sub_child(2) [OF assms(2) [unfolded Suc] k]
    have "\<forall>q \<in> set (blks N e ?k). N' q = N q"
    proof
      fix q assume "q \<in> set (blks N e ?k)"
      with k g(1) assms(3) show "N' q = N q" by (intro g(6)) (auto simp: Suc)
    qed
    with route_agree [OF s this, of lb] route_blks [OF s, of lb] show ?thesis by (auto simp: Suc g(3))
  qed simp
  then have r: "route N' (Suc D) 0 lb = 0 # nb # tl (route N D 0 lb)" "\<forall>q \<in> set (tl (route N D 0 lb)). N' q = N q"
    by (simp_all add: x key_pos_def)
  have "length (kids (N 0)) \<le> 4"
    using sub_node [OF assms(2)]
    by (simp add: node_valid_def node_form_def root_ok_def validate_header_root_iff length_kids)
  then have c: "crowding (N' 0) = 0" "crowding (N' nb) = 0"
    using g(3-5) x(1) by (simp_all add: crowding_def)
  have "crowd N D lb = crowding (N 0) + (\<Sum>q \<leftarrow> tl (route N D 0 lb). crowding (N q))"
    unfolding crowd_def by (subst route_hd_tl) simp
  moreover have "crowd N' (Suc D) lb = (\<Sum>q \<leftarrow> tl (route N D 0 lb). crowding (N' q))"
    unfolding crowd_def r(1) by (simp add: c)
  ultimately show ?thesis
    using crowding_full [OF assms(4)] sum_route_eq [OF r(2)] by simp
qed

abbreviation keys_sorted :: "ext4_extent_index list \<Rightarrow> bool" where
  "keys_sorted \<equiv> sorted_wrt (\<lambda>a b. ix_first_block a < ix_first_block b)"

lemma key_pos_inserted:
  assumes "keys_sorted (take (Suc i) ks @ y # drop (Suc i) ks)" "i = key_pos ks lb" "ks \<noteq> []"
  shows "(take (Suc i) ks @ y # drop (Suc i) ks) ! key_pos (take (Suc i) ks @ y # drop (Suc i) ks) lb
    = (if ix_first_block y \<le> lb then y else ks ! i)"
proof -
  let ?ks = "take (Suc i) ks @ y # drop (Suc i) ks"
  note spec = key_pos_spec [OF assms(3), of lb, folded assms(2)]
  have nth: "?ks ! Suc i = y" "?ks ! i = ks ! i" "Suc i < length ks \<Longrightarrow> ?ks ! Suc (Suc i) = ks ! Suc i"
    using spec(1) by (simp_all add: nth_append min_def)
  show ?thesis
  proof (cases "ix_first_block y \<le> lb")
    case True
    have "key_pos ?ks lb = Suc i"
      by (rule key_pos_unique [OF assms(1)]) (use True nth spec in auto)
    with True nth(1) show ?thesis by simp
  next
    case False
    have "key_pos ?ks lb = i"
      by (rule key_pos_unique [OF assms(1)]) (use False nth spec in auto)
    with False nth(2) show ?thesis by simp
  qed
qed

lemma key_pos_half:
  assumes "keys_sorted ks" "0 < m" "m < length ks"
  shows "ix_first_block (ks ! m) \<le> lb \<Longrightarrow> drop m ks ! key_pos (drop m ks) lb = ks ! key_pos ks lb"
    and "\<not> ix_first_block (ks ! m) \<le> lb \<Longrightarrow> take m ks ! key_pos (take m ks) lb = ks ! key_pos ks lb"
proof -
  let ?j = "key_pos ks lb"
  have "ks \<noteq> []" using assms(3) by auto
  note spec = key_pos_spec [OF this, of lb]
  have mono: "ix_first_block (ks ! a) \<le> ix_first_block (ks ! b)" if "a \<le> b" "b < length ks" for a b
    using sorted_wrt_nth_less [OF assms(1), of a b] that by (cases "a = b") auto
  show "drop m ks ! key_pos (drop m ks) lb = ks ! ?j" if le: "ix_first_block (ks ! m) \<le> lb"
  proof -
    have j: "m \<le> ?j"
    proof (rule ccontr)
      assume "\<not> m \<le> ?j"
      then have "lb < ix_first_block (ks ! Suc ?j)" "ix_first_block (ks ! Suc ?j) \<le> ix_first_block (ks ! m)"
        using spec(3) assms(3) mono [of "Suc ?j" m] by simp_all
      with le show False by simp
    qed
    have "key_pos (drop m ks) lb = ?j - m"
      by (rule key_pos_unique) (use assms j spec in \<open>auto simp: sorted_wrt_drop\<close>)
    with j spec(1) show ?thesis by simp
  qed
  show "take m ks ! key_pos (take m ks) lb = ks ! ?j" if gt: "\<not> ix_first_block (ks ! m) \<le> lb"
  proof -
    have j: "?j < m"
    proof (rule ccontr)
      assume "\<not> ?j < m"
      then have "ix_first_block (ks ! ?j) \<le> lb" "ix_first_block (ks ! m) \<le> ix_first_block (ks ! ?j)"
        using spec(1,2) assms(2) mono [of m ?j] by simp_all
      with gt show False by simp
    qed
    have "key_pos (take m ks) lb = ?j"
      by (rule key_pos_unique) (use assms j spec in \<open>auto simp: sorted_wrt_take\<close>)
    with j show ?thesis by simp
  qed
qed

text \<open>Below the split node the route goes on as before, from one of the halves.\<close>

lemma route_half:
  fixes lb :: u32
  assumes c: "sub b N D c" "distinct (blks N D c)" and sp: "did_split N q i c nb N'"
    and off: "q \<notin> set (blks N D c)" "nb \<notin> set (blks N D c)" and n: "2 \<le> length (kids (N c))"
  defines "h \<equiv> (if first_key (N' nb) \<le> lb then nb else c)"
  shows "route N' D h lb = h # tl (route N D c lb)" "\<forall>r \<in> set (tl (route N D c lb)). N' r = N r"
proof -
  let ?m = "length (kids (N c)) div 2"
  have k: "kids (N' c) = take ?m (kids (N c))" "kids (N' nb) = drop ?m (kids (N c))"
    "\<And>r. r \<noteq> q \<Longrightarrow> r \<noteq> c \<Longrightarrow> r \<noteq> nb \<Longrightarrow> N' r = N r"
    using sp by (simp_all add: did_split_def)
  have m: "0 < ?m" "?m < length (kids (N c))" using n by simp_all
  have "route N' D h lb = h # tl (route N D c lb) \<and> (\<forall>r \<in> set (tl (route N D c lb)). N' r = N r)"
  proof (cases D)
    case (Suc e)
    let ?ks = "kids (N c)"
    let ?z = "?ks ! key_pos ?ks lb"
    have srt: "keys_sorted ?ks"
      using node_valid_kids(1) [OF sub_node [OF c(1) [unfolded Suc]]] by (simp add: indices_ok_def)
    have "kids (N' nb) \<noteq> []" using m by (simp add: k(2))
    then have fk: "first_key (N' nb) = ix_first_block (?ks ! ?m)"
      using first_key_kids [of "N' nb"] m by (simp add: k(2))
    have hz: "kids (N' h) ! key_pos (kids (N' h)) lb = ?z"
      using key_pos_half [OF srt m, of lb] by (auto simp: h_def fk k(1,2))
    note z = chosen_kid [OF c(1) [unfolded Suc], of lb]
    note s = sub_child(2) [OF c(1) [unfolded Suc] z]
    have fr: "\<forall>r \<in> set (blks N e (index_get_pblock ?z)). N' r = N r"
    proof
      fix r assume "r \<in> set (blks N e (index_get_pblock ?z))"
      with z c(2) off show "N' r = N r" by (intro k(3)) (auto simp: Suc)
    qed
    from route_agree [OF s fr, of lb] route_blks [OF s, of lb] fr show ?thesis by (auto simp: Suc hz)
  qed simp
  then show "route N' D h lb = h # tl (route N D c lb)" "\<forall>r \<in> set (tl (route N D c lb)). N' r = N r"
    by blast+
qed

lemma crowd_split:
  assumes inv: "tree_inv b used s" and pt: "path_at (nodes s) (root_depth s) 0 (ns @ [n]) D c"
    and pos: "\<forall>m \<in> set (ns @ [n]). position m = key_pos (kids (nodes s (pblock_of_node m))) lb"
    and full: "h_full (header_load (nodes s c))" "\<not> h_full (header n)"
    and nb: "nb \<notin> set (blks (nodes s) (root_depth s) 0)"
    and sp: "did_split (nodes s) (pblock_of_node n) (position n) c nb N'"
    and sub': "sub b N' (root_depth s) 0"
  shows "crowd N' (root_depth s) lb < crowd (nodes s) (root_depth s) lb"
proof -
  let ?N = "nodes s" and ?q = "pblock_of_node n" and ?i = "position n" and ?D = "root_depth s"
  note ps = path_splittable [OF inv pt full]
  note cc = splittable_child [OF ps(1)]
  let ?ks = "kids (?N ?q)"
  have s: "sub b ?N (Suc D) ?q" "?i < length ?ks" "c = index_get_pblock (?ks ! ?i)"
    "distinct (blks ?N (Suc D) ?q)" "\<not> h_full (header_load (?N ?q))"
    using ps(1) unfolding splittable_def by blast+
  have c_in: "set (blks ?N D c) \<subseteq> set (blks_below ?N D ?ks)" using nth_mem [OF s(2)] s(3) by auto
  have q_off: "?q \<notin> set (blks ?N D c)" using c_in s(4) by auto
  have nb_off: "nb \<notin> set (blks ?N (Suc D) ?q)" "nb \<notin> set (blks ?N D c)"
    using nb ps(4) c_in by auto
  then have "nb \<noteq> ?q" "nb \<noteq> c" using blks_self by metis+
  have dc: "distinct (blks ?N D c)"
    using s(4) kids_split [OF s(2), of "\<lambda>x. blks ?N D (index_get_pblock x)"] s(3) by simp
  obtain y where y: "kids (N' ?q) = take (Suc ?i) ?ks @ y # drop (Suc ?i) ?ks"
    "ix_first_block y = first_key (N' nb)" "index_get_pblock y = nb"
    using sp by (auto simp: did_split_def)
  have k: "kids (N' c) = take (length (kids (?N c)) div 2) (kids (?N c))"
    "kids (N' nb) = drop (length (kids (?N c)) div 2) (kids (?N c))"
    "max_entries_count (header_load (N' ?q)) = max_entries_count (header_load (?N ?q))"
    "max_entries_count (header_load (N' c)) = max_entries_count (header_load (?N c))"
    "length (kids (?N c)) \<le> unat (max_entries_count (header_load (N' nb)))"
    "\<And>r. r \<noteq> ?q \<Longrightarrow> r \<noteq> c \<Longrightarrow> r \<noteq> nb \<Longrightarrow> N' r = ?N r"
    using sp by (simp_all add: did_split_def)
  have tree: "sub b ?N ?D 0" "distinct (blks ?N ?D 0)" using inv by (simp_all add: tree_inv_def)
  have ns: "\<forall>m \<in> set ns. N' (pblock_of_node m) = ?N (pblock_of_node m)"
  proof
    fix m assume "m \<in> set ns"
    note off = path_nodes_off [OF ps(2) tree(2) this]
    have "c \<in> set (blks_below ?N D ?ks)" using c_in blks_self by (rule subsetD)
    then have "c \<in> set (blks ?N (Suc D) ?q)" by simp
    with off nb show "N' (pblock_of_node m) = ?N (pblock_of_node m)" by (intro k(6)) auto
  qed
  have pt': "path_at N' ?D 0 ns (Suc D) ?q" using ps(2) path_at_cong [OF ns] by simp
  have srt: "keys_sorted (kids (N' ?q))"
    using node_valid_kids(1) [OF sub_node [OF path_sub [OF pt' sub']]] by (simp add: indices_ok_def)
  define h where "h = (if first_key (N' nb) \<le> lb then nb else c)"
  have n2: "2 \<le> length (kids (?N c))" using cc(6) by (simp add: length_kids)
  note rh = route_half [OF cc(3) dc sp q_off nb_off(2) n2, where lb = lb, folded h_def]
  have i: "?i = key_pos ?ks lb" "?ks \<noteq> []" using pos s(2) by auto
  have "index_get_pblock (kids (N' ?q) ! key_pos (kids (N' ?q)) lb) = h"
    using key_pos_inserted [OF srt [unfolded y(1)] i] y(2,3) s(3) unfolding y(1) h_def by simp
  then have r': "route N' ?D 0 lb = map pblock_of_node ns @ ?q # h # tl (route ?N D c lb)"
    using route_path [OF pt', of lb] pos ns rh(1) by simp
  have r: "route ?N ?D 0 lb = map pblock_of_node ns @ ?q # c # tl (route ?N D c lb)"
    using route_path [OF ps(2), of lb] pos i(1) s(3) route_hd_tl [of ?N D c lb] by simp
  have "crowding (N' h) = 0"
  proof -
    have "length (kids (?N c)) = unat (max_entries_count (header_load (?N c)))" using cc(5) by (simp add: length_kids)
    moreover have "4 < length (kids (?N c))" using cc(6) by (simp add: length_kids)
    moreover have "length (kids (N' c)) = length (kids (?N c)) div 2"
      "length (kids (N' nb)) = length (kids (?N c)) - length (kids (?N c)) div 2"
      using k(1,2) by simp_all
    ultimately show ?thesis using k(4,5) unfolding h_def crowding_def by (cases "first_key (N' nb) \<le> lb") simp_all
  qed
  moreover have "crowding (N' ?q) \<le> Suc (crowding (?N ?q))"
    using s(2) by (simp add: crowding_def y(1) k(3))
  moreover have "crowding (?N c) = 2" using full(1) by (rule crowding_full)
  moreover have "(\<Sum>r \<leftarrow> map pblock_of_node ns. crowding (N' r)) = (\<Sum>r \<leftarrow> map pblock_of_node ns. crowding (?N r))"
    using ns by (intro sum_route_eq) auto
  ultimately show ?thesis
    unfolding crowd_def r r' using sum_route_eq [OF rh(2)] by simp
qed

section \<open>ensure_insert_room\<close>

lemma first_full_level_Some:
  assumes "first_full_level p = Some l"
  shows "1 \<le> l" "l \<le> path_depth p" "h_full (header (path p ! l))"
    "\<And>j. 1 \<le> j \<Longrightarrow> j < l \<Longrightarrow> \<not> h_full (header (path p ! j))"
proof -
  from assms obtain i where i: "i < length [1..<path_depth p + 1]" "h_full (header (path p ! ([1..<path_depth p + 1] ! i)))"
    "l = [1..<path_depth p + 1] ! i" "\<forall>j < i. \<not> h_full (header (path p ! ([1..<path_depth p + 1] ! j)))"
    unfolding first_full_level_def find_Some_iff by blast
  then have l: "l = Suc i" by (simp del: upt_Suc)
  with i show "1 \<le> l" "l \<le> path_depth p" "h_full (header (path p ! l))" by (simp_all del: upt_Suc)
  show "\<not> h_full (header (path p ! j))" if "1 \<le> j" "j < l" for j
    using i(4) i(1) that l by (auto simp del: upt_Suc dest: spec [of _ "j - 1"])
qed

lemma first_full_level_None:
  assumes "first_full_level p = None" "1 \<le> l" "l \<le> path_depth p"
  shows "\<not> h_full (header (path p ! l))"
  using assms by (auto simp: first_full_level_def find_None_iff)

lemma walked_level:
  fixes p :: extent_search_path and l :: nat
  defines "c \<equiv> pblock_of_node (path p ! Suc l)"
  assumes w: "walked s lb p ns" and inv: "tree_inv b used s" and l: "l < length ns"
  shows "path_at (nodes s) (root_depth s) 0 (take l ns @ [ns ! l]) (root_depth s - Suc l) c"
    "header (path p ! Suc l) = header_load (nodes s c)" "path p ! l = ns ! l"
    "\<forall>m \<in> set (take l ns @ [ns ! l]). position m = key_pos (kids (nodes s (pblock_of_node m))) lb"
proof -
  have p: "path p = ns @ [leaf_of p]" "length ns = root_depth s" using w by (simp_all add: walked_def)
  then show "path p ! l = ns ! l" using l by (simp add: nth_append)
  have ns: "ns = (take l ns @ [ns ! l]) @ drop (Suc l) ns" using l by (simp add: id_take_nth_drop)
  show "\<forall>m \<in> set (take l ns @ [ns ! l]). position m = key_pos (kids (nodes s (pblock_of_node m))) lb"
    using w l by (auto simp: walked_def found_path_def dest: in_set_takeD)
  have pt: "path_at (nodes s) (root_depth s) 0 ns 0 (pblock_of_node (leaf_of p))"
    using walkedE(1) [OF w inv] .
  then obtain d1 p1 where a: "path_at (nodes s) (root_depth s) 0 (take l ns @ [ns ! l]) d1 p1"
    "path_at (nodes s) d1 p1 (drop (Suc l) ns) 0 (pblock_of_node (leaf_of p))"
    by (subst (asm) ns) (auto simp only: path_at_append [of _ _ _ "take l ns @ [ns ! l]"])
  have d1: "d1 = root_depth s - Suc l" using path_at_length [OF a(1)] l by simp
  have "p1 = c \<and> header (path p ! Suc l) = header_load (nodes s c)"
  proof (cases "Suc l = length ns")
    case True
    with a(2) p(1) have "path p ! Suc l = leaf_of p" "p1 = pblock_of_node (leaf_of p)"
      by (simp_all add: nth_append)
    moreover have "found_leaf s lb (leaf_of p)" using w by (simp add: walked_def found_path_def)
    ultimately show ?thesis using found_leaf_leaves(1) by (simp add: c_def)
  next
    case False
    then have lt: "Suc l < length ns" using l by simp
    then have "drop (Suc l) ns = ns ! Suc l # drop (Suc (Suc l)) ns" by (rule Cons_nth_drop_Suc [symmetric])
    with a(2) have "pblock_of_node (ns ! Suc l) = p1" "header (ns ! Suc l) = header_load (nodes s p1)"
      by simp_all
    moreover have "path p ! Suc l = ns ! Suc l" using lt by (simp add: p(1) nth_append)
    ultimately show ?thesis by (simp add: c_def)
  qed
  with a(1) d1 show "path_at (nodes s) (root_depth s) 0 (take l ns @ [ns ! l]) (root_depth s - Suc l) c"
    "header (path p ! Suc l) = header_load (nodes s c)" by simp_all
qed

lemma walked_root:
  assumes w: "walked s lb p ns" and inv: "tree_inv b used s"
  shows "header (path p ! 0) = header_load (root s)"
proof (cases ns)
  case Nil
  then have "path p ! 0 = leaf_of p" using w by (metis append_Nil nth_Cons_0 walked_def)
  moreover have "pblock_of_node (leaf_of p) = 0" using walkedE(6) [OF w inv] Nil by simp
  ultimately show ?thesis
    using found_leaf_leaves(1) [OF walkedE(3) [OF w inv]] by simp
next
  case (Cons n ms)
  then have "path p ! 0 = n" using w by (metis append_Cons nth_Cons_0 walked_def)
  moreover have "pblock_of_node n = 0 \<and> header n = header_load (nodes s 0)"
    using walkedE(1) [OF w inv] Cons by auto
  ultimately show ?thesis by simp
qed

text \<open>What an error of the loop may be: the depth limit, or an error of the allocator.\<close>

definition no_room :: "'e lwext4 \<Rightarrow> 'e istate \<Rightarrow> errno \<Rightarrow> bool" where
  "no_room io s r \<longleftrightarrow> r = EFBIG \<and> root_depth s = 5 \<or> alloc_error io r"

lemma reshaped_trans: "reshaped b used s t \<Longrightarrow> reshaped b used t u \<Longrightarrow> reshaped b used s u"
  unfolding reshaped_def using takes_new_trans by fastforce

lemma room_loop:
  assumes io: "io_reliable io" "alloc_laws io used" "block_size_ok (sb io)"
    and "tree_inv (sb io) used s" "crowd (nodes s) (root_depth s) fblk < attempts"
  shows "\<exists>r s'. ensure_insert_room_loop io fblk attempts s = (r, s') \<and> reshaped (sb io) used s s'
    \<and> (case r of Inl e \<Rightarrow> no_room io s' e
       | Inr p \<Rightarrow> (\<exists>ns. walked s' fblk p ns \<and> \<not> h_full (header (leaf_of p))))"
  using assms(4,5)
proof (induction attempts arbitrary: s)
  case (Suc attempts)
  obtain p s1 ns where f: "find_extent io fblk s = (Inr p, s1)" and cm: "calm used s s1"
    and w0: "walked s fblk p ns"
    using find_extent_walked [OF io(1,2) Suc.prems(1)] by blast
  have inv: "tree_inv (sb io) used s1" and w: "walked s1 fblk p ns" and N: "nodes s1 = nodes s"
    "root_depth s1 = root_depth s"
    using Suc.prems(1) w0 walked_calm [OF cm] calm_inv [OF cm] cm by (simp_all add: calm_def)
  have rs: "reshaped (sb io) used s s1" using cm Suc.prems(1) by (rule reshaped_calm)
  have tree: "sub (sb io) (nodes s1) (root_depth s1) 0" "distinct (blks (nodes s1) (root_depth s1) 0)"
    using inv by (simp_all add: tree_inv_def)
  have next_round: "?case" if step: "ensure_insert_room_loop io fblk (Suc attempts) s
        = ensure_insert_room_loop io fblk attempts s2"
    and "reshaped (sb io) used s1 s2"
    and "crowd (nodes s2) (root_depth s2) fblk < crowd (nodes s1) (root_depth s1) fblk" for s2
  proof -
    have "tree_inv (sb io) used s2" using that(2) by (simp add: reshaped_def)
    from Suc.IH [OF this] that(3) Suc.prems(2) N
    obtain r s' where "ensure_insert_room_loop io fblk attempts s2 = (r, s')" "reshaped (sb io) used s2 s'"
      "case r of Inl e \<Rightarrow> no_room io s' e
       | Inr p \<Rightarrow> (\<exists>ns. walked s' fblk p ns \<and> \<not> h_full (header (leaf_of p)))" by auto
    with step reshaped_trans [OF rs] reshaped_trans [OF that(2)] show ?thesis by auto
  qed
  have stop: "?case" if "ensure_insert_room_loop io fblk (Suc attempts) s = (Inl e, s2)"
    and "reshaped (sb io) used s1 s2" "no_room io s2 e" for e s2
    using that reshaped_trans [OF rs] by auto
  have d: "path_depth p = length ns" using w by (simp add: walked_def)
  show ?case
  proof (cases "h_full (header (path p ! 0))")
    case True
    then have full: "h_full (header_load (root s1))" using walked_root [OF w inv] by simp
    have "root_ok (sb io) (root s1)" using tree_inv_tree_ok(1) [OF inv] by (simp add: tree_ok_def)
    then have "entries_count (header_load (root s1)) \<noteq> 0"
      using full by (auto simp: root_ok_def validate_header_root_iff h_full_def word_le_nat_alt)
    from grow_indepth_ok [OF io inv this]
    obtain r s2 where g: "grow_indepth io s1 = (r, s2)" "reshaped (sb io) used s1 s2"
      "if r = EOK then root_depth s2 = Suc (root_depth s1) \<and> (\<exists>nb. grown (nodes s1) (root_depth s1) nb (nodes s2))
       else root_depth s2 = root_depth s1 \<and> (r = EFBIG \<and> root_depth s1 = 5 \<or> alloc_error io r)" by blast
    show ?thesis
    proof (cases "r = EOK")
      case ok: True
      with g(3) crowd_grown [OF _ tree] full have "crowd (nodes s2) (root_depth s2) fblk < crowd (nodes s1) (root_depth s1) fblk"
        by auto
      with True ok f g(1,2) show ?thesis by (intro next_round) simp_all
    next
      case False
      then have "ensure_insert_room_loop io fblk (Suc attempts) s = (Inl r, s2)"
        using True f g(1) by simp
      moreover have "no_room io s2 r" using False g(3) by (auto simp: no_room_def)
      ultimately show ?thesis using g(2) by (intro stop)
    qed
  next
    case root_room: False
    show ?thesis
    proof (cases "first_full_level p")
      case None
      have "\<not> h_full (header (leaf_of p))"
      proof (cases "path_depth p")
        case 0
        then show ?thesis using root_room by (simp add: leaf_of_def)
      next
        case (Suc k)
        then show ?thesis using first_full_level_None [OF None, of "path_depth p"] by (simp add: leaf_of_def)
      qed
      moreover have "ensure_insert_room_loop io fblk (Suc attempts) s = (Inr p, s1)"
        using f root_room None by simp
      ultimately show ?thesis using w rs by auto
    next
      case (Some k)
      note k = first_full_level_Some [OF Some]
      then obtain l where l: "k = Suc l" "l < length ns" using d by (cases k) auto
      note wl = walked_level [OF w inv l(2)]
      let ?c = "pblock_of_node (path p ! Suc l)" and ?n = "ns ! l"
      have full: "h_full (header_load (nodes s1 ?c))" using k(3) wl(2) by (simp add: l(1))
      have room: "\<not> h_full (header ?n)"
        using root_room k(4) [of l] wl(3) by (cases l) (simp_all add: l(1))
      have lt: "length (take l ns) = l" using l(2) by simp
      from split_full_node_ok [OF io inv wl(1), of p, unfolded lt, OF wl(3) refl wl(2) full room]
      obtain r s2 where g: "split_full_node io p k s1 = (r, s2)" "reshaped (sb io) used s1 s2"
        "if r = EOK then root_depth s2 = root_depth s1 \<and> (\<exists>nb. nb \<notin> set (blks (nodes s1) (root_depth s1) 0)
             \<and> did_split (nodes s1) (pblock_of_node ?n) (position ?n) ?c nb (nodes s2))
         else alloc_error io r" unfolding l(1) by blast
      show ?thesis
      proof (cases "r = EOK")
        case True
        then obtain nb where nb: "root_depth s2 = root_depth s1" "nb \<notin> set (blks (nodes s1) (root_depth s1) 0)"
          "did_split (nodes s1) (pblock_of_node ?n) (position ?n) ?c nb (nodes s2)" using g(3) by auto
        have "sub (sb io) (nodes s2) (root_depth s1) 0"
          using g(2) nb(1) by (simp add: reshaped_def tree_inv_def)
        from crowd_split [OF inv wl(1,4) full room nb(2,3) this]
        have "crowd (nodes s2) (root_depth s2) fblk < crowd (nodes s1) (root_depth s1) fblk" by (simp add: nb(1))
        moreover have "ensure_insert_room_loop io fblk (Suc attempts) s = ensure_insert_room_loop io fblk attempts s2"
          using f root_room Some g(1) True by simp
        ultimately show ?thesis using g(2) by (intro next_round)
      next
        case False
        then have "ensure_insert_room_loop io fblk (Suc attempts) s = (Inl r, s2)"
          using f root_room Some g(1) by simp
        moreover have "no_room io s2 r" using False g(3) by (simp add: no_room_def)
        ultimately show ?thesis using g(2) by (intro stop)
      qed
    qed
  qed
qed simp

lemma tree_inv_depth: "tree_inv b used s \<Longrightarrow> root_depth s \<le> 5"
  using tree_inv_tree_ok(1) [of b used s]
  by (simp add: tree_ok_def root_ok_def validate_header_root_iff root_depth_def)

lemma ensure_insert_room_ok:
  assumes "io_reliable io" "alloc_laws io used" "block_size_ok (sb io)" "tree_inv (sb io) used s"
  shows "\<exists>r s'. ensure_insert_room io fblk s = (r, s') \<and> reshaped (sb io) used s s'
    \<and> (case r of Inl e \<Rightarrow> no_room io s' e
       | Inr p \<Rightarrow> (\<exists>ns. walked s' fblk p ns \<and> \<not> h_full (header (leaf_of p))))"
proof -
  have "crowd (nodes s) (root_depth s) fblk < EXT4_EXTENT_MAX_DEPTH * 2 + 4"
    using crowd_bound [of "nodes s" "root_depth s" fblk] tree_inv_depth [OF assms(4)] by simp
  from room_loop [OF assms this] show ?thesis unfolding ensure_insert_room_def .
qed

section \<open>insert_extent\<close>

text \<open>The outcome of an insertion: the map with the new extent, or the old map and a reason.\<close>

definition insertion :: "'e lwext4 \<Rightarrow> ('e \<Rightarrow> u64 set) \<Rightarrow> ext4_extent \<Rightarrow> 'e istate \<Rightarrow> errno \<Rightarrow> 'e istate \<Rightarrow> bool" where
  "insertion io used x s r s' \<longleftrightarrow> tree_inv (sb io) used s' \<and> takes_new used s s'
     \<and> (if r = EOK then tree_map s' = map_insert x (tree_map s)
        else tree_map s' = tree_map s \<and> no_room io s' r)"

lemma no_room_not_EOK: "no_room io s r \<Longrightarrow> r \<noteq> EOK"
  by (auto simp: no_room_def alloc_error_def)

lemma insert_unmerged_deep:
  assumes io: "io_reliable io" "alloc_laws io used" "block_size_ok (sb io)"
    and inv: "tree_inv (sb io) used s" and x: "insertable (sb_blocks_cnt (sb io)) (tree_extents s) x"
    and w: "walked s (first_block x) p ns"
  shows "\<exists>r s'. insert_unmerged retry io (first_block x) p x s = (r, s') \<and> insertion io used x s r s'"
proof (cases "h_full (header (leaf_of p))")
  case False
  with insert_new_extent_deep [OF io inv x w False, of retry] show ?thesis
    by (auto simp: insert_unmerged_def insertion_def added_def)
next
  case True
  obtain r s' where e: "ensure_insert_room io (first_block x) s = (r, s')" "reshaped (sb io) used s s'"
    "case r of Inl e \<Rightarrow> no_room io s' e
     | Inr p \<Rightarrow> (\<exists>ns. walked s' (first_block x) p ns \<and> \<not> h_full (header (leaf_of p)))"
    using ensure_insert_room_ok [OF io inv] by blast
  have same: "tree_inv (sb io) used s'" "tree_map s' = tree_map s"
    "insertable (sb_blocks_cnt (sb io)) (tree_extents s') x"
    using e(2) x by (simp_all add: reshaped_def tree_map_def)
  show ?thesis
  proof (cases r)
    case (Inl err)
    with e(3) have "no_room io s' err" "err \<noteq> EOK" using no_room_not_EOK by auto
    moreover have "insert_unmerged retry io (first_block x) p x s = (err, s')"
      using True e(1) Inl by (simp add: insert_unmerged_def)
    ultimately show ?thesis using same e(2) by (simp add: insertion_def reshaped_def)
  next
    case (Inr p')
    with e(3) obtain ns' where w': "walked s' (first_block x) p' ns'" "\<not> h_full (header (leaf_of p'))" by auto
    have tn: "takes_new used s s'" using e(2) by (simp add: reshaped_def)
    from insert_new_extent_deep [OF io same(1,3) w', of retry] True e(1) Inr w'(2) same(2)
      takes_new_trans [OF tn]
    show ?thesis by (fastforce simp: insert_unmerged_def insertion_def added_def)
  qed
qed

lemma insert_extent_deep:
  assumes io: "io_reliable io" "alloc_laws io used" "block_size_ok (sb io)"
    and inv: "tree_inv (sb io) used s" and x: "insertable (sb_blocks_cnt (sb io)) (tree_extents s) x"
  shows "\<exists>r s'. insert_extent io (first_block x) x s = (r, s') \<and> insertion io used x s r s'"
  using insert_extent_merges [OF assms]
proof (elim disjE exE conjE)
  fix s' assume "insert_extent io (first_block x) x s = (EOK, s')" "added (sb io) used x s s'"
  then show ?thesis by (auto simp: insertion_def added_def)
next
  fix p s1 ns
  assume eq: "insert_extent io (first_block x) x s = insert_unmerged (insert_extent io) io (first_block x) p x s1"
    and cm: "calm used s s1" and w: "walked s1 (first_block x) p ns"
  have "tree_inv (sb io) used s1" "insertable (sb_blocks_cnt (sb io)) (tree_extents s1) x"
    using inv x calm_inv [OF cm] by simp_all
  from insert_unmerged_deep [OF io this w, of "insert_extent io"]
  show ?thesis unfolding eq insertion_def calm_inv(4) [OF cm]
    using takes_new_trans [OF calm_takes_new [OF cm]] by blast
qed

section \<open>The empty tree\<close>

lemma tree_init_inv:
  assumes "length (root s) = 60" "lengths_ok (sb io) (nodes s)"
  shows "tree_inv (sb io) used (ext4_extent_tree_init io s)" "tree_map (ext4_extent_tree_init io s) = Map.empty"
proof -
  let ?h = "\<lparr>magic = EXT4_EXTENT_MAGIC, entries_count = 0,
      max_entries_count = of_nat EXT4_EXTENT_ROOT_MAX_ENTRIES, depth = 0, generation = 0\<rparr>"
  let ?s = "ext4_extent_tree_init io s"
  have l: "length (header_store ?h (root s)) = 60" using assms(1) by (simp add: mem_simps)
  have r: "root ?s = mem_zero 12 (60 - 12) (header_store ?h (root s))"
    by (simp add: ext4_extent_tree_init_def Let_def mark_dirty_def)
  have h: "header_load (root ?s) = ?h"
  proof -
    have "header_load (root ?s) = header_load (header_store ?h (root s))"
      unfolding r using l by (intro header_load_cong) (simp_all add: mem_zero_def mem_simps)
    then show ?thesis using assms(1) by (simp add: codec_simps)
  qed
  have len: "length (root ?s) = 60" unfolding r using l by (simp add: mem_simps)
  have d: "root_depth ?s = 0" by (simp add: root_depth_def h)
  have L: "leaves (root ?s) = []" by (simp add: leaves_def h)
  have v: "validate_header True (sb_block_size (sb io)) ?h = EOK" by (simp add: validate_header_root_iff)
  have "bufs ?s = bufs s" by (simp add: ext4_extent_tree_init_def Let_def mark_dirty_def)
  then have "lengths_ok (sb io) (nodes ?s)" using assms(2) by (simp add: lengths_ok_def nodes_block)
  moreover have "node_form (sb io) 0 0 (root ?s)"
    using len v L by (simp add: node_form_leaf h extents_ok_def)
  ultimately show i: "tree_inv (sb io) used ?s"
    by (simp add: tree_inv_def d L node_valid_def extents_ok_def)
  have "tree_extents ?s = []" using tree_inv_tree_ok(2) [OF i] by (simp add: d L)
  then show "tree_map ?s = Map.empty" by (auto simp: tree_map_def)
qed

end
