(* ===== verification/Extent_Build.thy ===== *)
theory Extent_Build
  imports Extent_Room
begin

text \<open>
  Insertion seen from the block map alone: an extent may be inserted when the map has none
  of its blocks, and a file built by any sequence of insertions maps exactly the extents
  whose insertion reported success.
\<close>

section \<open>When an extent may be inserted\<close>

definition mappable :: "u64 \<Rightarrow> (nat \<Rightarrow> (nat \<times> bool) option) \<Rightarrow> ext4_extent \<Rightarrow> bool" where
  "mappable fs m x \<longleftrightarrow> extent_ok fs x \<and> e_end x < 2 ^ 32 \<and> m (2 ^ 32 - 1) = None
     \<and> (\<forall>lb. ext_covers x lb \<longrightarrow> m lb = None)"

lemma apart_covers:
  assumes "0 < e_len a" "0 < e_len b"
  shows "apart a b \<longleftrightarrow> \<not> (\<exists>lb. ext_covers a lb \<and> ext_covers b lb)"
proof
  show "apart a b \<Longrightarrow> \<not> (\<exists>lb. ext_covers a lb \<and> ext_covers b lb)"
    by (auto simp: apart_def ext_covers_def)
  assume n: "\<not> (\<exists>lb. ext_covers a lb \<and> ext_covers b lb)"
  have "\<not> ext_covers a (max (e_first a) (e_first b)) \<or> \<not> ext_covers b (max (e_first a) (e_first b))"
    using n by blast
  with assms show "apart a b" by (auto simp: apart_def ext_covers_def e_end_def)
qed

lemma mappable_insertable:
  assumes "extents_ok fs es"
  shows "insertable fs es x \<longleftrightarrow> mappable fs (ext_map es) x"
proof -
  have ok: "0 < e_len e" "e_end e \<le> 2 ^ 32" if "e \<in> set es" for e
    using assms that by (simp_all add: extents_ok_def extent_ok_def)
  have "(\<forall>e \<in> set es. e_end e < 2 ^ 32) \<longleftrightarrow> ext_map es (2 ^ 32 - 1) = None"
  proof -
    have "e_end e < 2 ^ 32 \<longleftrightarrow> \<not> ext_covers e (2 ^ 32 - 1)" if "e \<in> set es" for e
      using ok [OF that] by (auto simp: ext_covers_def e_end_def)
    then show ?thesis by (simp add: ext_map_None)
  qed
  moreover have "(\<forall>e \<in> set es. apart e x) \<longleftrightarrow> (\<forall>lb. ext_covers x lb \<longrightarrow> ext_map es lb = None)"
    if "0 < e_len x"
    using apart_covers [OF ok(1) that] by (auto simp: ext_map_None)
  ultimately show ?thesis
    by (auto simp: insertable_def mappable_def extent_ok_def)
qed

lemma insert_mappable:
  assumes "io_reliable io" "alloc_laws io used" "block_size_ok (sb io)" "tree_inv (sb io) used s"
    and "mappable (sb_blocks_cnt (sb io)) (tree_map s) x"
  shows "\<exists>r s'. insert_extent io (first_block x) x s = (r, s') \<and> insertion io used x s r s'"
proof -
  have "extents_ok (sb_blocks_cnt (sb io)) (tree_extents s)"
    using tree_inv_tree_ok(1) [OF assms(4)] by (simp add: tree_ok_def)
  with assms(5) have "insertable (sb_blocks_cnt (sb io)) (tree_extents s) x"
    by (simp add: mappable_insertable tree_map_def)
  from insert_extent_deep [OF assms(1-4) this] show ?thesis .
qed

section \<open>Building a file\<close>

primrec insert_all :: "'e lwext4 \<Rightarrow> ext4_extent list \<Rightarrow> 'e istate \<Rightarrow> errno list \<times> 'e istate" where
  "insert_all io [] s = ([], s)"
| "insert_all io (x # xs) s =
     (case insert_extent io (first_block x) x s of (r, s1) \<Rightarrow>
      case insert_all io xs s1 of (rs, s2) \<Rightarrow> (r # rs, s2))"

text \<open>The map of the extents whose insertion returned EOK.\<close>

fun accepted :: "ext4_extent list \<Rightarrow> errno list \<Rightarrow> (nat \<Rightarrow> (nat \<times> bool) option) \<Rightarrow> nat \<Rightarrow> (nat \<times> bool) option" where
  "accepted (x # xs) (r # rs) m = accepted xs rs (if r = EOK then map_insert x m else m)"
| "accepted _ _ m = m"

lemma mappable_after_insert:
  assumes "mappable fs m y" "extent_ok fs x" "e_end x < 2 ^ 32" "apart x y"
  shows "mappable fs (map_insert x m) y"
  using assms apart_covers [of x y] by (auto simp: mappable_def map_insert_def extent_ok_def ext_covers_def)

lemma insert_all_run:
  assumes io: "io_reliable io" "alloc_laws io used" "block_size_ok (sb io)"
  shows "tree_inv (sb io) used s \<Longrightarrow> \<forall>x \<in> set xs. mappable (sb_blocks_cnt (sb io)) (tree_map s) x
    \<Longrightarrow> sorted_wrt apart xs \<Longrightarrow> \<exists>rs s'. insert_all io xs s = (rs, s') \<and> tree_inv (sb io) used s'
      \<and> length rs = length xs \<and> tree_map s' = accepted xs rs (tree_map s)
      \<and> (\<forall>r \<in> set rs. r = EOK \<or> r = EFBIG \<or> alloc_error io r)"
proof (induction xs arbitrary: s)
  case (Cons x xs)
  have x: "mappable (sb_blocks_cnt (sb io)) (tree_map s) x" using Cons.prems(2) by simp
  obtain r s1 where r: "insert_extent io (first_block x) x s = (r, s1)" "insertion io used x s r s1"
    using insert_mappable [OF io Cons.prems(1) x] by blast
  have i: "tree_inv (sb io) used s1" "tree_map s1 = (if r = EOK then map_insert x (tree_map s) else tree_map s)"
    "r = EOK \<or> r = EFBIG \<or> alloc_error io r"
    using r(2) by (auto simp: insertion_def no_room_def)
  have "\<forall>y \<in> set xs. mappable (sb_blocks_cnt (sb io)) (tree_map s1) y"
    using Cons.prems(2,3) x by (auto simp: i(2) mappable_def [of _ _ x] intro: mappable_after_insert)
  from Cons.IH [OF i(1) this] Cons.prems(3) obtain rs s2 where
    "insert_all io xs s1 = (rs, s2)" "tree_inv (sb io) used s2" "length rs = length xs"
    "tree_map s2 = accepted xs rs (tree_map s1)" "\<forall>r \<in> set rs. r = EOK \<or> r = EFBIG \<or> alloc_error io r"
    by auto
  with r(1) i(2,3) show ?case by simp
qed simp

end
