(* ===== verification/Extent_Next.thy ===== *)
theory Extent_Next
  imports Extent_Room
begin

text \<open>
  find_next_extent on trees of any depth: it returns the extent behind the found one in the
  list of all extents, or ENOENT at the end of the file.
\<close>

lemma valid_block:
  assumes "node_valid b pb d data" "pb \<noteq> 0"
  shows "verify_extent_block_checksum b data = EOK" "entries_count (header_load data) \<noteq> 0"
    "validate_header False (sb_block_size b) (header_load data) = EOK"
    "validate_entries b data (header_load data) = EOK" "unat (depth (header_load data)) = d"
  using assms by (simp_all add: node_valid_def node_form_def)

lemma leftmost_extent_below_hd:
  assumes io: "io_reliable io" "alloc_laws io used"
  shows "sub (sb io) (nodes s) d pb \<Longrightarrow> pb \<noteq> 0 \<Longrightarrow>
    \<exists>s'. leftmost_extent_below io pb d s = (Inr (hd (exts (nodes s) d pb)), s') \<and> calm used s s'"
proof (induction d arbitrary: pb s)
  case 0
  note v = valid_block [OF sub_node [OF 0(1)] 0(2)]
  obtain s1 where s1: "node_block_get io pb s = (EOK, s1)" "calm used s s1" using reliable_get [OF io] by blast
  obtain s2 where s2: "ext4_block_set io pb s1 = (EOK, s2)" "calm used s1 s2" using reliable_set [OF io] by blast
  have b: "bufs s1 pb = nodes s pb" using s1(2) 0(2) by (simp add: calm_def nodes_block)
  have "leaves (nodes s pb) \<noteq> []" using node_valid_leaves(2) [OF sub_node [OF 0(1)] 0(2)] .
  then have "hd (leaves (nodes s pb)) = extent_load (nodes s pb) (slot 0)"
    unfolding leaves_def by (intro slots_hd) (simp flip: length_greater_0_conv)
  then have "leftmost_extent_below io pb 0 s = (Inr (hd (exts (nodes s) 0 pb)), s2)"
    using s1(1) s2(1) v by (subst leftmost_extent_below.simps) (simp add: b Let_def)
  with calm_trans [OF s1(2) s2(2)] show ?case by blast
next
  case (Suc d)
  note v = valid_block [OF sub_node [OF Suc.prems(1)] Suc.prems(2)]
  obtain s1 where s1: "node_block_get io pb s = (EOK, s1)" "calm used s s1" using reliable_get [OF io] by blast
  obtain s2 where s2: "ext4_block_set io pb s1 = (EOK, s2)" "calm used s1 s2" using reliable_set [OF io] by blast
  have b: "bufs s1 pb = nodes s pb" using s1(2) Suc.prems(2) by (simp add: calm_def nodes_block)
  have cm: "calm used s s2" using s1(2) s2(2) by (rule calm_trans)
  then have N: "nodes s2 = nodes s" by (simp add: calm_def)
  have ne: "kids (nodes s pb) \<noteq> []" using sub_node [OF Suc.prems(1)] by (rule node_valid_kids(2))
  then obtain x xs where xs: "kids (nodes s pb) = x # xs" by (cases "kids (nodes s pb)") auto
  have "hd (kids (nodes s pb)) = index_load (nodes s pb) (slot 0)"
    using ne unfolding kids_def by (intro slots_hd) (simp flip: length_greater_0_conv)
  then have x: "index_load (nodes s pb) (slot 0) = x" by (simp add: xs)
  have c: "index_get_pblock x \<noteq> 0" "sub (sb io) (nodes s2) d (index_get_pblock x)"
    using sub_child [OF Suc.prems(1), of x] by (simp_all add: xs N)
  have "leftmost_extent_below io pb (Suc d) s = leftmost_extent_below io (index_get_pblock x) d s2"
    using s1(1) s2(1) v by (subst leftmost_extent_below.simps) (simp add: b x Let_def)
  moreover have "hd (exts (nodes s) (Suc d) pb) = hd (exts (nodes s) d (index_get_pblock x))"
    using sub_first [OF c(2)] c(1) by (simp add: xs N)
  ultimately show ?case using Suc.IH [OF c(2,1)] calm_trans [OF cm] by (auto simp: N)
qed

lemma node_get_index_reliable:
  assumes "io_reliable io" "alloc_laws io used" "i < length (kids (nodes s (pblock_of_node n)))"
  shows "\<exists>s'. node_get_index io n i s = (Inr (kids (nodes s (pblock_of_node n)) ! i), s') \<and> calm used s s'"
proof (cases "pblock_of_node n = 0")
  case True
  with assms(3) show ?thesis by (simp add: node_get_index_def kids_def)
next
  case False
  obtain s1 where s1: "node_block_get io (pblock_of_node n) s = (EOK, s1)" "calm used s s1"
    using reliable_get [OF assms(1,2)] by blast
  obtain s2 where s2: "ext4_block_set io (pblock_of_node n) s1 = (EOK, s2)" "calm used s1 s2"
    using reliable_set [OF assms(1,2)] by blast
  have "bufs s1 (pblock_of_node n) = nodes s (pblock_of_node n)"
    using s1(2) False by (simp add: calm_def nodes_block)
  with s1 s2 False assms(3) show ?thesis
    by (auto simp: node_get_index_def kids_def intro: calm_trans)
qed

lemma find_next_up_after:
  assumes io: "io_reliable io" "alloc_laws io used" and tree: "sub (sb io) (nodes s) d 0"
  shows "path_at (nodes s) d 0 ns d' c \<Longrightarrow> (\<And>i. i < length ns \<Longrightarrow> path p ! i = ns ! i) \<Longrightarrow>
    \<exists>s'. find_next_up io p (length ns) s
      = ((case after (nodes s) d 0 ns of [] \<Rightarrow> Inl ENOENT | e # _ \<Rightarrow> Inr e), s') \<and> calm used s s'"
proof (induction ns arbitrary: d' c rule: rev_induct)
  case (snoc n ns)
  let ?N = "nodes s" and ?i = "position n"
  define q where "q = pblock_of_node n"
  let ?ks = "kids (?N q)"
  have n: "path_at ?N d 0 ns (Suc d') q" "?i < length ?ks" "header n = header_load (?N q)"
    using snoc.prems(1) by (auto simp: path_at_snoc q_def)
  have nth: "path p ! length ns = n" "\<And>i. i < length ns \<Longrightarrow> path p ! i = ns ! i"
    using snoc.prems(2) [of "length ns"] snoc.prems(2) by (auto simp: nth_append)
  have sub_q: "sub (sb io) ?N (Suc d') q" using path_sub [OF n(1) tree] .
  have len: "unat (entries_count (header n)) = length ?ks" by (simp add: n(3) length_kids)
  have dep: "unat (depth (header n)) = Suc d'"
    using sub_node [OF sub_q] by (simp add: n(3) node_valid_def node_form_def)
  note ba = before_after_snoc(2) [OF n(1) [unfolded q_def], folded q_def]
  show ?case
  proof (cases "?i + 1 < length ?ks")
    case False
    then have "drop (Suc ?i) ?ks = []" by simp
    then have "after ?N d 0 (ns @ [n]) = after ?N d 0 ns" unfolding ba by simp
    with snoc.IH [OF n(1) nth(2)] show ?thesis using False by (simp add: nth(1) len)
  next
    case True
    let ?y = "?ks ! (?i + 1)"
    have y_in: "?y \<in> set ?ks" using True by simp
    note ch = sub_child [OF sub_q y_in]
    obtain s1 where s1: "node_get_index io n (?i + 1) s = (Inr ?y, s1)" "calm used s s1"
      using node_get_index_reliable [OF io, of "?i + 1" s n] True by (auto simp: q_def)
    have N: "nodes s1 = ?N" using s1(2) by (simp add: calm_def)
    obtain s2 where s2: "leftmost_extent_below io (index_get_pblock ?y) d' s1
        = (Inr (hd (exts ?N d' (index_get_pblock ?y))), s2)" "calm used s1 s2"
      using leftmost_extent_below_hd [OF io, of s1 d' "index_get_pblock ?y"] ch(1,2) by (auto simp: N)
    have dz: "depth (header n) \<noteq> 0" using dep by auto
    have "find_next_up io p (length (ns @ [n])) s = (Inr (hd (exts ?N d' (index_get_pblock ?y))), s2)"
      using True s1(1) s2(1) dz dep by (simp add: nth(1) len)
    moreover have "drop (Suc ?i) ?ks = ?y # drop (Suc (Suc ?i)) ?ks"
      using True by (simp add: Cons_nth_drop_Suc)
    then have "after ?N d 0 (ns @ [n]) = exts ?N d' (index_get_pblock ?y)
        @ exts_below ?N d' (drop (Suc (Suc ?i)) ?ks) @ after ?N d 0 ns"
      unfolding ba by simp
    moreover obtain e es where "exts ?N d' (index_get_pblock ?y) = e # es"
      using sub_first [OF ch(2)] ch(1) by (cases "exts ?N d' (index_get_pblock ?y)") auto
    ultimately show ?thesis using calm_trans [OF s1(2) s2(2)] by simp
  qed
qed simp

text \<open>The found extent is number \<open>found_pos s p ns\<close> of the file.\<close>

definition found_pos :: "'e istate \<Rightarrow> extent_search_path \<Rightarrow> extent_path_node list \<Rightarrow> nat" where
  "found_pos s p ns = length (before (nodes s) (root_depth s) 0 ns) + position (leaf_of p)"

lemma found_pos:
  assumes "walked s lb p ns" "tree_inv b used s" "tree_extents s \<noteq> []"
  shows "search_pos (tree_extents s) (unat lb) (found_pos s p ns)"
    "extent (leaf_of p) = tree_extents s ! found_pos s p ns" "have_extent (leaf_of p)"
    "entries_count (header (leaf_of p)) \<noteq> 0"
proof -
  note wk = walkedE [OF assms(1,2)]
  note fl = found_leaf_leaves [OF wk(3)]
  let ?L = "leaves (nodes s (pblock_of_node (leaf_of p)))"
  have L: "?L \<noteq> []" using wk(7) assms(3) by auto
  note sp = lookup_split_search_pos [OF wk(2) fl(5) [OF L]]
  show "search_pos (tree_extents s) (unat lb) (found_pos s p ns)"
    "extent (leaf_of p) = tree_extents s ! found_pos s p ns"
    using sp fl(4) [OF L] by (simp_all add: found_pos_def)
  show "have_extent (leaf_of p)" "entries_count (header (leaf_of p)) \<noteq> 0"
    using fl(2,3) L by auto
qed

lemma find_next_extent_ok:
  assumes io: "io_reliable io" "alloc_laws io used" and w: "walked s lb p ns" and inv: "tree_inv (sb io) used s"
    and ne: "tree_extents s \<noteq> []"
  shows "\<exists>s'. find_next_extent io p s = ((if Suc (found_pos s p ns) < length (tree_extents s)
      then Inr (tree_extents s ! Suc (found_pos s p ns)) else Inl ENOENT), s') \<and> calm used s s'"
proof -
  let ?n = "leaf_of p" and ?N = "nodes s"
  let ?L = "leaves (?N (pblock_of_node ?n))"
  let ?pre = "before ?N (root_depth s) 0 ns" and ?post = "after ?N (root_depth s) 0 ns"
  note wk = walkedE [OF w inv]
  note fl = found_leaf_leaves [OF wk(3)]
  have L: "?L \<noteq> []" using wk(7) ne by auto
  have E: "tree_extents s = ?pre @ ?L @ ?post" using wk(2) by (simp add: lookup_split_def)
  have pos: "position ?n < length ?L" using fl(5) [OF L] by (simp add: search_pos_def)
  show ?thesis
  proof (cases "position ?n + 1 < length ?L")
    case True
    then have "Suc (found_pos s p ns) < length (tree_extents s)"
      "tree_extents s ! Suc (found_pos s p ns) = ?L ! (position ?n + 1)"
      by (simp_all add: found_pos_def E nth_append)
    with node_get_extent_reliable [OF io fl(1) True] True show ?thesis
      by (auto simp: find_next_extent_def Let_def fl(3))
  next
    case False
    then have k: "Suc (found_pos s p ns) = length ?pre + length ?L" using pos by (simp add: found_pos_def)
    have p: "path p = ns @ [?n]" "path_depth p = length ns" using w by (simp_all add: walked_def)
    have nth: "\<And>i. i < length ns \<Longrightarrow> path p ! i = ns ! i" by (subst p(1)) (simp add: nth_append)
    have "sub (sb io) ?N (root_depth s) 0" using inv by (simp add: tree_inv_def)
    from find_next_up_after [OF io this wk(1) nth] False
    show ?thesis
      unfolding k E by (cases ?post) (auto simp: find_next_extent_def Let_def fl(3) p(2) nth_append)
  qed
qed

end
