(* ===== verification/Extent_Account.thy ===== *)
theory Extent_Account
  imports Extent_Build Extent_Next Extent_Space
begin

text \<open>
  Accounting of blocks: what freeing promises, the invariant that every data block and every
  tree block of a file is in use exactly once, and its preservation by insertion.
\<close>

section \<open>Runs of blocks\<close>

definition run_set :: "u64 \<Rightarrow> nat \<Rightarrow> u64 set" where
  "run_set pb n = {b. unat pb \<le> unat b \<and> unat b < unat pb + n}"

lemma run_set_0 [simp]: "run_set pb 0 = {}"
  by (auto simp: run_set_def)

lemma run_set_1 [simp]: "run_set pb (Suc 0) = {pb}"
  by (auto simp: run_set_def intro!: word_unat_eq_iff [THEN iffD2])

lemma unat_add_of_nat:
  fixes pb :: u64
  assumes "unat pb + n < 2 ^ 64"
  shows "unat (pb + of_nat n) = unat pb + n"
  using assms by (simp add: unat_word_ariths unat_of_nat)

lemma run_set_Suc:
  assumes "unat pb + n < 2 ^ 64"
  shows "run_set pb (Suc n) = insert (pb + of_nat n) (run_set pb n)"
proof -
  note u = unat_add_of_nat [OF assms]
  have eq: "b = pb + of_nat n \<longleftrightarrow> unat b = unat pb + n" for b
    unfolding word_unat_eq_iff u ..
  have "b \<in> run_set pb (Suc n) \<longleftrightarrow> b \<in> insert (pb + of_nat n) (run_set pb n)" for b
    unfolding run_set_def insert_iff mem_Collect_eq eq by linarith
  then show ?thesis by blast
qed

lemma unat_run_set: "unat pb + n \<le> 2 ^ 64 \<Longrightarrow> unat ` run_set pb n = {unat pb..<unat pb + n}"
proof -
  assume n: "unat pb + n \<le> 2 ^ 64"
  have "p \<in> unat ` run_set pb n" if p: "unat pb \<le> p" "p < unat pb + n" for p
  proof -
    have "unat (of_nat p :: u64) = p" using p n by (simp add: unat_of_nat)
    with p show ?thesis by (intro image_eqI [of _ _ "of_nat p"]) (simp_all add: run_set_def)
  qed
  then show ?thesis by (auto simp: run_set_def)
qed

text \<open>Freeing succeeds, and of blocks in use exactly the ones given are then free.\<close>

definition free_laws :: "'e lwext4 \<Rightarrow> ('e \<Rightarrow> u64 set) \<Rightarrow> bool" where
  "free_laws io used \<longleftrightarrow>
     (\<forall>pb e. fst (balloc_free_block io pb e) = EOK
        \<and> (pb \<in> used e \<longrightarrow> used (snd (balloc_free_block io pb e)) = used e - {pb}))
   \<and> (\<forall>pb n e. fst (balloc_free_blocks io pb n e) = EOK
        \<and> (run_set pb (unat n) \<subseteq> used e \<longrightarrow> used (snd (balloc_free_blocks io pb n e)) = used e - run_set pb (unat n)))"

lemma free_laws_frees_ok: "free_laws io used \<Longrightarrow> frees_ok io"
  by (simp add: free_laws_def frees_ok_def)

text \<open>A step that changes nothing but the blocks in use.\<close>

definition same_nodes :: "'e istate \<Rightarrow> 'e istate \<Rightarrow> bool" where
  "same_nodes s s' \<longleftrightarrow> nodes s' = nodes s \<and> bufs s' = bufs s \<and> root s' = root s"

lemma same_nodes_refl [simp]: "same_nodes s s"
  by (simp add: same_nodes_def)

lemma same_nodes_trans: "same_nodes s t \<Longrightarrow> same_nodes t u \<Longrightarrow> same_nodes s u"
  by (simp add: same_nodes_def)

lemma same_nodes_calm: "calm used s s' \<Longrightarrow> same_nodes s s'"
  using calm_root by (auto simp: same_nodes_def calm_def)

lemma same_nodes_env [simp]: "same_nodes s (s\<lparr>env := e\<rparr>)"
  by (simp add: same_nodes_def nodes_def node_data_def fun_eq_iff)

lemma free_block_ok:
  assumes "free_laws io used" "pb \<in> used (env s)"
  shows "\<exists>s'. ext4_balloc_free_block io pb s = (EOK, s') \<and> same_nodes s s' \<and> used (env s') = used (env s) - {pb}"
proof -
  obtain r e where f: "balloc_free_block io pb (env s) = (r, e)" by fastforce
  have "fst (balloc_free_block io pb (env s)) = EOK
      \<and> used (snd (balloc_free_block io pb (env s))) = used (env s) - {pb}"
    using assms unfolding free_laws_def by blast
  with f have "r = EOK" "used e = used (env s) - {pb}" by simp_all
  with f show ?thesis by (simp add: ext4_balloc_free_block_def ext_call_def)
qed

lemma free_blocks_ok:
  assumes "free_laws io used" "run_set pb (unat n) \<subseteq> used (env s)"
  shows "\<exists>s'. ext4_balloc_free_blocks io pb n s = (EOK, s') \<and> same_nodes s s'
    \<and> used (env s') = used (env s) - run_set pb (unat n)"
proof -
  obtain r e where f: "balloc_free_blocks io pb n (env s) = (r, e)" by fastforce
  have "fst (balloc_free_blocks io pb n (env s)) = EOK
      \<and> used (snd (balloc_free_blocks io pb n (env s))) = used (env s) - run_set pb (unat n)"
    using assms unfolding free_laws_def by blast
  with f have "r = EOK" "used e = used (env s) - run_set pb (unat n)" by simp_all
  with f show ?thesis by (simp add: ext4_balloc_free_blocks_def ext_call_def)
qed

section \<open>The space invariant\<close>

definition data_blocks :: "(nat \<Rightarrow> (nat \<times> bool) option) \<Rightarrow> nat set" where
  "data_blocks m = {p. \<exists>lb u. m lb = Some (p, u)}"

definition one_to_one :: "(nat \<Rightarrow> (nat \<times> bool) option) \<Rightarrow> bool" where
  "one_to_one m \<longleftrightarrow> (\<forall>a b p u v. m a = Some (p, u) \<longrightarrow> m b = Some (p, v) \<longrightarrow> a = b)"

text \<open>
  No physical block is mapped twice, every mapped block is in use, and none is a block of the
  tree itself.
\<close>

definition space_inv :: "ext4_sb \<Rightarrow> ('e \<Rightarrow> u64 set) \<Rightarrow> 'e istate \<Rightarrow> bool" where
  "space_inv b used s \<longleftrightarrow> tree_inv b used s \<and> one_to_one (tree_map s)
     \<and> data_blocks (tree_map s) \<subseteq> unat ` used (env s)
     \<and> data_blocks (tree_map s) \<inter> unat ` tree_blocks s = {}"

lemma tree_same_nodes:
  assumes "same_nodes s s'"
  shows "root_depth s' = root_depth s" "tree_extents s' = tree_extents s" "tree_map s' = tree_map s"
    "tree_blocks s' = tree_blocks s"
  using assms by (simp_all add: same_nodes_def root_depth_def tree_extents_def tree_map_def tree_blocks_def)

lemma tree_inv_used:
  assumes "tree_inv b used s" "same_nodes s s'" "tree_blocks s \<subseteq> insert 0 (used (env s'))"
  shows "tree_inv b used s'"
  using assms tree_same_nodes [OF assms(2)] by (simp add: tree_inv_def same_nodes_def tree_blocks_def)

lemma tree_blocks_used: "tree_inv b used s \<Longrightarrow> tree_blocks s \<subseteq> insert 0 (used (env s))"
  by (simp add: tree_inv_def tree_blocks_def)

lemma ends_below_top:
  assumes "tree_inv b used s" "tree_map s (2 ^ 32 - 1) = None" "e \<in> set (tree_extents s)"
  shows "e_end e < 2 ^ 32"
proof -
  have "extent_ok (sb_blocks_cnt b) e"
    using assms(1,3) tree_inv_tree_ok(2) [OF assms(1)] by (simp add: tree_inv_def extents_ok_def)
  then have "e_end e \<le> 2 ^ 32" "0 < e_len e" by (simp_all add: extent_ok_def e_end_def)
  moreover have "\<not> ext_covers e (2 ^ 32 - 1)" using assms(2,3) by (simp add: tree_map_def ext_map_None)
  ultimately show ?thesis by (auto simp: ext_covers_def e_end_def)
qed

lemma space_inv_used:
  assumes "space_inv b used s" "same_nodes s s'" "tree_blocks s \<subseteq> insert 0 (used (env s'))"
    "data_blocks (tree_map s) \<subseteq> unat ` used (env s')"
  shows "space_inv b used s'"
  using assms tree_inv_used [OF _ assms(2)] tree_same_nodes [OF assms(2)] by (simp add: space_inv_def)

lemma space_inv_calm: "calm used s s' \<Longrightarrow> space_inv b used s' = space_inv b used s"
  by (simp add: space_inv_def calm_inv) (simp add: calm_def)

lemma data_blocks_insert:
  assumes "\<forall>lb. ext_covers x lb \<longrightarrow> m lb = None"
  shows "data_blocks (map_insert x m) = data_blocks m \<union> {e_phys x..<e_phys x + e_len x}"
proof -
  have "p \<in> data_blocks (map_insert x m)" if p: "e_phys x \<le> p" "p < e_phys x + e_len x" for p
  proof -
    have "ext_covers x (e_first x + (p - e_phys x))" using p by (auto simp: ext_covers_def e_end_def)
    then have "map_insert x m (e_first x + (p - e_phys x)) = Some (p, extent_is_unwritten x)"
      using p by (simp add: map_insert_def)
    then show ?thesis by (auto simp: data_blocks_def)
  qed
  moreover have "p \<in> data_blocks (map_insert x m)" if "m lb = Some (p, u)" for p lb u
  proof -
    have "map_insert x m lb = Some (p, u)" using that assms by (auto simp: map_insert_def)
    then show ?thesis by (auto simp: data_blocks_def)
  qed
  moreover have "p \<in> data_blocks m \<or> e_phys x \<le> p \<and> p < e_phys x + e_len x" if "p \<in> data_blocks (map_insert x m)" for p
    using that by (auto simp: data_blocks_def map_insert_def ext_covers_def e_end_def split: if_splits)
  ultimately show ?thesis by (force simp: data_blocks_def)
qed

lemma one_to_one_insert:
  assumes "one_to_one m" "data_blocks m \<inter> {e_phys x..<e_phys x + e_len x} = {}"
  shows "one_to_one (map_insert x m)"
proof -
  have new: "p \<in> {e_phys x..<e_phys x + e_len x} \<and> a = e_first x + (p - e_phys x)"
    if "ext_covers x a" "p = e_phys x + (a - e_first x)" for a p
    using that by (auto simp: ext_covers_def e_end_def)
  have old: "p \<notin> {e_phys x..<e_phys x + e_len x}" if "m a = Some (p, u)" for a p u
    using that assms(2) unfolding data_blocks_def by blast
  show ?thesis
    unfolding one_to_one_def
  proof (intro allI impI)
    fix a b p u v assume a: "map_insert x m a = Some (p, u)" and b: "map_insert x m b = Some (p, v)"
    show "a = b"
    proof (cases "ext_covers x a")
      case True
      then have "p \<in> {e_phys x..<e_phys x + e_len x}" "a = e_first x + (p - e_phys x)"
        using a new [of a p] by (simp_all add: map_insert_def)
      with b old [of b p v] new [of b p] show ?thesis by (cases "ext_covers x b") (auto simp: map_insert_def)
    next
      case False
      then have m: "m a = Some (p, u)" using a by (simp add: map_insert_def)
      then have "p \<notin> {e_phys x..<e_phys x + e_len x}" by (rule old)
      then have "\<not> ext_covers x b" using b new [of b p] by (auto simp: map_insert_def)
      with b have "m b = Some (p, v)" by (simp add: map_insert_def)
      with m assms(1) show ?thesis by (auto simp: one_to_one_def)
    qed
  qed
qed

text \<open>Insertion of an extent over blocks in use that belong to nobody yet.\<close>

lemma insertion_space:
  assumes inv: "space_inv (sb io) used s" and i: "insertion io used x s r s'"
    and x: "\<forall>lb. ext_covers x lb \<longrightarrow> tree_map s lb = None" "{e_phys x..<e_phys x + e_len x} \<subseteq> unat ` used (env s)"
      "data_blocks (tree_map s) \<inter> {e_phys x..<e_phys x + e_len x} = {}"
      "unat ` tree_blocks s \<inter> {e_phys x..<e_phys x + e_len x} = {}"
  shows "space_inv (sb io) used s'"
    and "r \<noteq> EOK \<Longrightarrow> unat ` tree_blocks s' \<inter> {e_phys x..<e_phys x + e_len x} = {}"
proof -
  let ?R = "{e_phys x..<e_phys x + e_len x}"
  have t: "tree_inv (sb io) used s'" "used (env s) \<subseteq> used (env s')"
    "tree_blocks s' \<subseteq> tree_blocks s \<union> (used (env s') - used (env s))"
    using i by (simp_all add: insertion_def takes_new_def)
  have s: "one_to_one (tree_map s)" "data_blocks (tree_map s) \<subseteq> unat ` used (env s)"
    "data_blocks (tree_map s) \<inter> unat ` tree_blocks s = {}"
    using inv by (simp_all add: space_inv_def)
  have sub: "data_blocks (tree_map s') \<subseteq> data_blocks (tree_map s) \<union> ?R"
    and one: "one_to_one (tree_map s')"
    using i data_blocks_insert [OF x(1)] s(1) one_to_one_insert [OF s(1) x(3)]
    by (auto simp: insertion_def split: if_splits)
  have new: "unat ` (used (env s') - used (env s)) \<inter> unat ` used (env s) = {}"
    by (auto dest!: word_unat_eq_iff [THEN iffD2])
  have fresh: "unat ` tree_blocks s' \<inter> A = {}"
    if "A \<subseteq> unat ` used (env s)" "unat ` tree_blocks s \<inter> A = {}" for A
    using that t(3) new by blast
  from fresh [OF x(2,4)] show "unat ` tree_blocks s' \<inter> ?R = {}" .
  moreover have "unat ` tree_blocks s' \<inter> data_blocks (tree_map s) = {}" using s(2,3) by (intro fresh) auto
  ultimately have "data_blocks (tree_map s') \<inter> unat ` tree_blocks s' = {}" using sub by blast
  moreover have "data_blocks (tree_map s') \<subseteq> unat ` used (env s')" using sub s(2) x(2) t(2) by blast
  ultimately show "space_inv (sb io) used s'" using t(1) one by (simp add: space_inv_def)
qed

section \<open>The blocks of everybody else\<close>

text \<open>
  The blocks in use that are neither mapped by this file nor part of its tree.  An operation
  under which this set stays the same leaks no block and touches no other file's blocks.
\<close>

definition others :: "('e \<Rightarrow> u64 set) \<Rightarrow> 'e istate \<Rightarrow> u64 set" where
  "others used s = {b \<in> used (env s). b \<notin> tree_blocks s \<and> unat b \<notin> data_blocks (tree_map s)}"

lemma others_calm: "calm used s s' \<Longrightarrow> others used s' = others used s"
  by (simp add: others_def calm_inv) (simp add: calm_def)

lemma others_same_nodes:
  "same_nodes s s' \<Longrightarrow> others used s' = {b \<in> used (env s'). b \<notin> tree_blocks s \<and> unat b \<notin> data_blocks (tree_map s)}"
  by (simp add: others_def tree_same_nodes)

lemma insertion_others:
  assumes "insertion io used x s r s'" "\<forall>lb. ext_covers x lb \<longrightarrow> tree_map s lb = None"
  shows "others used s' = {b \<in> others used s. r = EOK \<longrightarrow> unat b \<notin> {e_phys x..<e_phys x + e_len x}}"
proof -
  have "used (env s) \<subseteq> used (env s')" "tree_blocks s' = tree_blocks s \<union> (used (env s') - used (env s))"
    using assms(1) by (simp_all add: insertion_def takes_new_def)
  moreover have "data_blocks (tree_map s') = data_blocks (tree_map s)
      \<union> (if r = EOK then {e_phys x..<e_phys x + e_len x} else {})"
    using assms data_blocks_insert [OF assms(2)] by (auto simp: insertion_def)
  ultimately show ?thesis by (auto simp: others_def)
qed

end
