(* ===== verification/Extent_Prune.thy ===== *)
theory Extent_Prune
  imports Extent_Account
begin

text \<open>
  remove_index on trees of any depth: the entry of an emptied node goes, the node's block is
  freed, and the same happens one level up while nodes become empty; an emptied root is a leaf
  again.  Keys above a node that lost its first entry are corrected.
\<close>

section \<open>An entry less\<close>

lemma remove_index_bytes_effect:
  assumes "i < unat (entries_count h)" "slot (unat (entries_count h)) \<le> length data"
  defines "n \<equiv> unat (entries_count h)" and "d \<equiv> remove_index_bytes h i data"
  shows "header_load d = h\<lparr>entries_count := of_nat (n - 1)\<rparr>" "length d = length data"
    "slots index_load (n - 1) d = take i (slots index_load n data) @ drop (Suc i) (slots index_load n data)"
    "unat (of_nat (n - 1) :: u16) = n - 1"
proof -
  have n: "i < n" "slot n \<le> length data" using assms by simp_all
  let ?m = "mem_move (slot i) (slot (Suc i)) ((n - Suc i) * 12) data"
  let ?z = "mem_zero (slot (n - 1)) 12 ?m"
  define e where "e = (if i \<noteq> n - 1 then ?z else data)"
  have d: "d = header_store (h\<lparr>entries_count := of_nat (n - 1)\<rparr>) e"
    by (simp add: d_def remove_index_bytes_def Let_def n_def e_def)
  have sl: "slot (n - 1) + 12 \<le> length data" "slot (n - 1) \<le> length data" "12 \<le> length data"
    using n slot_ge_header [of n] by (simp_all add: slot_def)
  have lm: "length ?m = length data"
    using n by (intro idx.length_slot_move) (auto simp: slot_def)
  then have lz: "length ?z = length data" using sl by (simp add: mem_simps)
  then have le: "length e = length data" by (simp add: e_def)
  show "header_load d = h\<lparr>entries_count := of_nat (n - 1)\<rparr>" "length d = length data"
    unfolding d using le sl by (simp_all add: codec_simps mem_simps)
  have "slots index_load (n - 1) ?z = slots index_load (n - 1) ?m"
  proof (rule idx.slots_cong)
    show "mem_read (slot j) 12 ?z = mem_read (slot j) 12 ?m" if "j < n - 1" for j
    proof -
      have "slot j + 12 \<le> slot (n - 1)" using that by (simp add: slot_def)
      then show ?thesis unfolding mem_zero_def using sl lm by (intro mem_read_write_other) simp_all
    qed
  qed (use lz lm sl in simp_all)
  also have "\<dots> = take i (slots index_load n data) @ drop (Suc i) (slots index_load n data)"
  proof -
    have "n - 1 = i + (n - Suc i)" using n(1) by simp
    then show ?thesis using n by (simp only: idx.slots_close_gap)
  qed
  finally have "slots index_load (n - 1) e = take i (slots index_load n data) @ drop (Suc i) (slots index_load n data)"
    if "i \<noteq> n - 1" using that by (simp add: e_def)
  moreover have "slots index_load (n - 1) data = take i (slots index_load n data) @ drop (Suc i) (slots index_load n data)"
    if "i = n - 1" using that n(1) by (simp add: slots_take)
  ultimately have "slots index_load (n - 1) e = take i (slots index_load n data) @ drop (Suc i) (slots index_load n data)"
    by (cases "i = n - 1") (simp_all add: e_def)
  then show "slots index_load (n - 1) d = take i (slots index_load n data) @ drop (Suc i) (slots index_load n data)"
    unfolding d using le sl by (simp add: idx.slots_header_store)
  show "unat (of_nat (n - 1) :: u16) = n - 1"
    using unat16_less [of "entries_count h"] by (simp add: unsigned_of_nat take_bit_nat_eq_self n_def)
qed

text \<open>A node may be written back when its header is valid, even without entries.\<close>

lemma commit_any:
  assumes io: "io_reliable io" "alloc_laws io used" "block_size_ok (sb io)"
    and v: "pb \<noteq> 0 \<Longrightarrow> validate_header False (sb_block_size (sb io)) (header_load data) = EOK"
  shows "\<exists>s'. commit_node io pb (set_node_data pb data s) = (EOK, s') \<and> stored (sb io) used s pb data s'"
proof (cases "pb = 0")
  case True
  then show ?thesis by (simp add: commit_node_def stored_def sealed_def nodes_set)
next
  case False
  obtain k where k: "unat (sb_block_size (sb io)) = 2 ^ k" "10 \<le> k"
    using io(3) by (auto simp: block_size_ok_def)
  have "magic (header_load data) = EXT4_EXTENT_MAGIC" using v [OF False] by (simp add: validate_header_block_iff)
  then have "\<exists>d. set_extent_block_checksum (sb io) data False = (EOK, d)"
    using tail_fits_power2 [OF v [OF False] k] by (auto simp: set_extent_block_checksum_def Let_def)
  then obtain d where d: "set_extent_block_checksum (sb io) data False = (EOK, d)" ..
  let ?s = "s\<lparr>bufs := (bufs s)(pb := d)\<rparr>"
  obtain s' where "node_block_put io pb ?s = (EOK, s')" "calm used ?s s'"
    using reliable_put [OF io(1,2)] by blast
  with d False show ?thesis
    by (auto simp: commit_node_def checksum_and_put_def set_node_data_def stored_def sealed_def calm_def nodes_bufs)
qed

text \<open>The kept entries of an index node, with the subtrees below them untouched.\<close>

lemma drop_kid:
  assumes sub: "sub b N (Suc d) q" and i: "i < length (kids (N q))" and c: "c = index_get_pblock (kids (N q) ! i)"
    and dist: "distinct (blks N (Suc d) q)" and fr: "frame N N1 (set (blks N d c))" and bs: "block_size_ok b"
    and ok: "extents_ok (sb_blocks_cnt b) (exts N (Suc d) q)"
  defines "ys \<equiv> take i (kids (N q)) @ drop (Suc i) (kids (N q))"
    and "data \<equiv> remove_index_bytes (header_load (N q)) i (N q)"
  shows "N1 q = N q" "kids data = ys" "length data = length (N q)"
    "header_load data = (header_load (N q))\<lparr>entries_count := of_nat (length ys)\<rparr>"
    "unat (entries_count (header_load data)) = length ys"
    "q \<noteq> 0 \<Longrightarrow> validate_header False (sb_block_size b) (header_load data) = EOK"
    and "ys \<noteq> [] \<Longrightarrow> node_form b q (Suc d) data"
    and "ys \<noteq> [] \<Longrightarrow> sealed b q data d2 \<Longrightarrow> sub b (N1(q := d2)) (Suc d) q
      \<and> exts (N1(q := d2)) (Suc d) q = exts_below N d ys
      \<and> blks (N1(q := d2)) (Suc d) q = q # blks_below N d ys
      \<and> first_key d2 = ix_first_block (ys ! 0)"
proof -
  let ?xs = "kids (N q)" and ?h = "header_load (N q)"
  have bl: "blks N (Suc d) q = q # blks_below N d (take i ?xs) @ blks N d c @ blks_below N d (drop (Suc i) ?xs)"
    using kids_split [OF i, of "\<lambda>x. blks N d (index_get_pblock x)"] c by simp
  show N1q: "N1 q = N q" using dist fr unfolding bl by (auto simp: frame_def)
  have form: "node_form b q (Suc d) (N q)" using sub_node [OF sub] by (simp add: node_valid_def)
  have n: "i < unat (entries_count ?h)" "length ys = unat (entries_count ?h) - 1"
    using i by (simp_all add: length_kids ys_def)
  have fit: "slot (unat (entries_count ?h)) \<le> length (N q)"
    using node_form_fits [OF form bs] slot_le le_trans by blast
  note e = remove_index_bytes_effect [OF n(1) fit, folded data_def n(2)]
  show "header_load data = ?h\<lparr>entries_count := of_nat (length ys)\<rparr>" "length data = length (N q)" by fact+
  show ul: "unat (entries_count (header_load data)) = length ys" by (simp add: e(1,4))
  show kd: "kids data = ys" using e(3) by (simp add: kids_def ul) (simp add: ys_def kids_def)
  have le: "length ys \<le> unat (max_entries_count ?h)" using node_form_fits(2) [OF form bs] n(2) by simp
  show "validate_header False (sb_block_size b) (header_load data) = EOK" if "q \<noteq> 0"
    using form that le by (simp add: node_form_def e(1,4) validate_header_block_iff)
  have y_in: "y \<in> set ?xs" if "y \<in> set ys" for y
    using that by (auto simp: ys_def dest: in_set_takeD in_set_dropD)
  have split: "?xs = take i ?xs @ ?xs ! i # drop (Suc i) ?xs" using i by (rule id_take_nth_drop)
  have "indices_ok (sb_blocks_cnt b) (take i ?xs @ ?xs ! i # drop (Suc i) ?xs)"
    using node_valid_kids(1) [OF sub_node [OF sub]] unfolding split [symmetric] .
  then have ix: "indices_ok (sb_blocks_cnt b) ys"
    by (auto simp: indices_ok_def sorted_wrt_append ys_def)
  have dep: "depth ?h \<noteq> 0" using form by (auto simp: node_form_def)
  have nf: "node_form b q (Suc d) data" if "ys \<noteq> []"
  proof -
    have "entries_count (header_load data) \<noteq> 0" using that ul by auto
    moreover have "validate_entries b data (header_load data) = EOK"
      using ix dep kd by (simp add: validate_entries_iff e(1) kids_def)
    ultimately show ?thesis
      using form e(2) le dep
      by (auto simp: node_form_def root_ok_def validate_header_root_iff validate_header_block_iff e(1,4))
  qed
  then show "ys \<noteq> [] \<Longrightarrow> node_form b q (Suc d) data" .
  show "sub b (N1(q := d2)) (Suc d) q
      \<and> exts (N1(q := d2)) (Suc d) q = exts_below N d ys
      \<and> blks (N1(q := d2)) (Suc d) q = q # blks_below N d ys
      \<and> first_key d2 = ix_first_block (ys ! 0)" if ne: "ys \<noteq> []" and s: "sealed b q data d2"
  proof -
    define M where "M = N1(q := d2)"
    note sl = sealed_node [OF s nf [OF ne] bs]
    have Mq: "M q = d2" by (simp add: M_def)
    have kids2: "kids d2 = ys" using sl(4) kd by simp
    have side: "exts M d (index_get_pblock y) = exts N d (index_get_pblock y)
        \<and> blks M d (index_get_pblock y) = blks N d (index_get_pblock y)
        \<and> sub b M d (index_get_pblock y) \<and> ix_first_block y = first_key (M (index_get_pblock y))"
      if y: "y \<in> set ys" for y
    proof -
      have "M p = N p" if "p \<in> set (blks N d (index_get_pblock y))" for p
      proof -
        have "p \<noteq> q" "p \<notin> set (blks N d c)" using that y dist unfolding bl ys_def by auto
        then show ?thesis using fr by (simp add: M_def frame_def)
      qed
      with agree [of N d "index_get_pblock y" M b] sub_child [OF sub y_in [OF y]] show ?thesis by auto
    qed
    have "sub b M (Suc d) q"
      using sub_kids [OF nf [OF ne] _ bs, of M] s side Mq kd by simp
    moreover have "exts M (Suc d) q = exts_below N d ys" "blks M (Suc d) q = q # blks_below N d ys"
      using side by (simp_all add: Mq kids2 cong: map_cong)
    moreover have "first_key d2 = ix_first_block (ys ! 0)"
      using first_key_kids [of d2] kids2 ne by simp
    ultimately show ?thesis by (simp add: M_def)
  qed
qed

section \<open>remove_index\<close>

text \<open>
  \<open>pruned b used N D U s' es\<close>: from the tree of depth \<open>D\<close> in the store \<open>N\<close>, with the blocks \<open>U\<close> in
  use, a tree with the extents \<open>es\<close> is left, and the blocks it no longer has are free.
\<close>

definition pruned :: "ext4_sb \<Rightarrow> ('e \<Rightarrow> u64 set) \<Rightarrow> (u64 \<Rightarrow> bytes) \<Rightarrow> nat \<Rightarrow> u64 set \<Rightarrow> 'e istate \<Rightarrow> ext4_extent list \<Rightarrow> bool" where
  "pruned b used N D U s' es \<longleftrightarrow> sub b (nodes s') (root_depth s') 0
     \<and> exts (nodes s') (root_depth s') 0 = es \<and> distinct (blks (nodes s') (root_depth s') 0)
     \<and> tree_blocks s' \<subseteq> set (blks N D 0) \<and> used (env s') = U - (set (blks N D 0) - tree_blocks s')
     \<and> lengths_ok b (nodes s')"

lemma pruned_spliced:
  assumes pt: "path_at N D 0 (ns @ [n]) d c" and q: "q = pblock_of_node n"
    and dist: "distinct (blks N D 0)"
    and sp: "spliced b N D 0 ns (Suc d) q (exts_below N d ys) (q # blks_below N d ys) (nodes s')"
    and ys: "ys = take (position n) (kids (N q)) @ drop (Suc (position n)) (kids (N q))"
    and used: "used (env s') = U - set (blks N d c)" and len: "lengths_ok b (nodes s')"
  shows "pruned b used N D U s' (before N D 0 (ns @ [n]) @ after N D 0 (ns @ [n]))"
proof -
  have n: "path_at N D 0 ns (Suc d) q" "position n < length (kids (N q))"
    "index n = kids (N q) ! position n" "c = index_get_pblock (index n)"
    using pt q by (auto simp: path_at_snoc)
  have s: "sub b (nodes s') D 0" "exts (nodes s') D 0 = before N D 0 ns @ exts_below N d ys @ after N D 0 ns"
    using sp by (simp_all add: spliced_def)
  have d: "root_depth s' = D" using sub_root_depth [OF s(1)] .
  have bl: "blks N (Suc d) q = q # blks_below N d (take (position n) (kids (N q))) @ blks N d c
      @ blks_below N d (drop (Suc (position n)) (kids (N q)))"
    using kids_split [OF n(2), of "\<lambda>x. blks N d (index_get_pblock x)"] n(3,4) by simp
  obtain ba bb where b: "blks N D 0 = ba @ blks N (Suc d) q @ bb"
    "blks (nodes s') D 0 = ba @ (q # blks_below N d ys) @ bb"
    using sp by (auto simp: spliced_def)
  have t: "tree_blocks s' = set (blks N D 0) - set (blks N d c)" "distinct (blks (nodes s') D 0)"
    using dist unfolding tree_blocks_def d b bl ys by auto
  have "set (blks N d c) \<subseteq> set (blks N D 0)" unfolding b bl by auto
  then have "used (env s') = U - (set (blks N D 0) - tree_blocks s')" using used t(1) by auto
  then show ?thesis
    using s t len before_after_snoc [OF n(1) [unfolded q]] unfolding pruned_def d ys by (simp add: q)
qed

text \<open>What remove_index does before it looks at the node that is left.\<close>

lemma remove_index_common:
  fixes s :: "'e istate" and p :: extent_search_path and level :: nat
  defines "n \<equiv> path p ! level"
  defines "q \<equiv> pblock_of_node n" and "i \<equiv> position n"
  defines "data \<equiv> remove_index_bytes (header n) i (nodes s q)"
  assumes io: "io_reliable io" "alloc_laws io used" "block_size_ok (sb io)" and fl: "free_laws io used"
    and c: "index_get_pblock (index n) = c" "c \<in> used (env s)"
    and v: "q \<noteq> 0 \<Longrightarrow> validate_header False (sb_block_size (sb io)) (header_load data) = EOK"
  shows "\<exists>s3 d2. sealed (sb io) q data d2 \<and> nodes s3 = (nodes s)(q := d2)
    \<and> used (env s3) = used (env s) - {c}
    \<and> remove_index io p level s =
      (case (if i = 0 \<and> unat (entries_count (header n)) - 1 > 0
             then correct_indexes io p level (first_key data) s3 else (EOK, s3)) of (r, s4) \<Rightarrow>
       if r \<noteq> EOK then (r, s4)
       else if unat (entries_count (header n)) - 1 = 0 then
         (if q = 0 then
            (EOK, mark_dirty (s4\<lparr>root := header_store ((header_load (root s4))\<lparr>depth := 0\<rparr>) (root s4)\<rparr>))
          else (case level of 0 \<Rightarrow> (EIO, s4) | Suc level' \<Rightarrow> remove_index io p level' s4))
       else (EOK, s4))"
proof -
  obtain s1 where s1: "open_node io q s = (EOK, s1)" "calm used s s1" using open_node_calm [OF io(1,2)] by blast
  have c1: "nodes s1 = nodes s" "used (env s1) = used (env s)" using s1(2) by (simp_all add: calm_def)
  have "node_data q s1 = nodes s q" using fun_cong [OF c1(1), of q] by (simp add: nodes_def)
  note N1 = this c1
  obtain s2 where s2: "commit_node io q (set_node_data q data s1) = (EOK, s2)" "stored (sb io) used s1 q data s2"
    using commit_any [OF io v] by blast
  then obtain d2 where d2: "sealed (sb io) q data d2" "nodes s2 = (nodes s)(q := d2)" "used (env s2) = used (env s)"
    by (auto simp: stored_def N1)
  have "run_set c (unat (1 :: u32)) \<subseteq> used (env s2)" using c(2) d2(3) by simp
  from free_blocks_ok [OF fl this] obtain s3 where s3: "ext4_balloc_free_blocks io c 1 s2 = (EOK, s3)"
    "same_nodes s2 s3" "used (env s3) = used (env s2) - {c}" by auto
  have run: "remove_index_block io (index n) s2 = (EOK, s3)"
    using s3(1) by (simp add: remove_index_block_def c(1))
  have nm: "path p ! level = n" "pblock_of_node n = q" "position n = i" by (simp_all only: n_def q_def i_def)
  have "remove_index io p level s =
      (case (if i = 0 \<and> unat (entries_count (header n)) - 1 > 0
             then correct_indexes io p level (first_key data) s3 else (EOK, s3)) of (r, s4) \<Rightarrow>
       if r \<noteq> EOK then (r, s4)
       else if unat (entries_count (header n)) - 1 = 0 then
         (if q = 0 then
            (EOK, mark_dirty (s4\<lparr>root := header_store ((header_load (root s4))\<lparr>depth := 0\<rparr>) (root s4)\<rparr>))
          else (case level of 0 \<Rightarrow> (EIO, s4) | Suc level' \<Rightarrow> remove_index io p level' s4))
       else (EOK, s4))"
    by (subst remove_index.simps)
      (simp only: Let_def nm s1(1) N1(1) data_def [symmetric] s2(1) run prod.case simp_thms if_False)
  moreover have "nodes s3 = (nodes s)(q := d2)" "used (env s3) = used (env s) - {c}"
    using s3(2,3) d2(2,3) by (simp_all add: same_nodes_def)
  ultimately show ?thesis using d2(1) by blast
qed

lemma extents_ok_without: "extents_ok fs (xs @ ys @ zs) \<Longrightarrow> extents_ok fs (xs @ zs)"
  by (simp add: extents_ok_append)

lemma lengths_ok_sealed:
  assumes "lengths_ok b N" "sealed b q data d" "length data = length (N q)"
  shows "lengths_ok b (N(q := d))"
proof -
  have "length d = unat (sb_block_size b)" if "q \<noteq> 0"
  proof -
    have "length data = unat (sb_block_size b)" using assms(1,3) that by (simp add: lengths_ok_def)
    with assms(2) that set_checksum_sealed(2) show ?thesis by (auto simp: sealed_def)
  qed
  with assms(1) show ?thesis by (auto simp: lengths_ok_def)
qed

text \<open>One level: either the removal ends here, or the node became empty and it goes on above.\<close>

lemma remove_index_step:
  assumes io: "io_reliable io" "alloc_laws io used" "block_size_ok (sb io)" and fl: "free_laws io used"
    and tree: "sub (sb io) N D 0" "distinct (blks N D 0)" "extents_ok (sb_blocks_cnt (sb io)) (exts N D 0)"
    and U: "set (blks N D 0) \<subseteq> insert 0 U"
    and pt: "path_at N D 0 (ns @ [n]) d c" and p: "\<And>j. j < Suc (length ns) \<Longrightarrow> path p ! j = (ns @ [n]) ! j"
    and fr: "frame N (nodes s) (set (blks N d c))" and len: "lengths_ok (sb io) (nodes s)"
    and used: "used (env s) = U - (set (blks N d c) - {c})"
  shows "(\<exists>s'. remove_index io p (length ns) s = (EOK, s')
      \<and> pruned (sb io) used N D U s' (before N D 0 (ns @ [n]) @ after N D 0 (ns @ [n])))
    \<or> (\<exists>l s4. length ns = Suc l \<and> remove_index io p (length ns) s = remove_index io p l s4
      \<and> frame N (nodes s4) (set (blks N (Suc d) (pblock_of_node n))) \<and> lengths_ok (sb io) (nodes s4)
      \<and> used (env s4) = U - (set (blks N (Suc d) (pblock_of_node n)) - {pblock_of_node n})
      \<and> before N D 0 (ns @ [n]) = before N D 0 ns \<and> after N D 0 (ns @ [n]) = after N D 0 ns)"
proof -
  define q where "q = pblock_of_node n"
  let ?xs = "kids (N q)" and ?i = "position n" and ?b = "sb io"
  have n: "path_at N D 0 ns (Suc d) q" "?i < length ?xs" "index n = ?xs ! ?i"
    "c = index_get_pblock (?xs ! ?i)" "header n = header_load (N q)"
    using pt by (auto simp: path_at_snoc q_def)
  have nth: "path p ! length ns = n" "\<And>j. j < length ns \<Longrightarrow> path p ! j = ns ! j"
    using p [of "length ns"] p by (auto simp: nth_append)
  have sub_q: "sub ?b N (Suc d) q" using path_sub [OF n(1) tree(1)] .
  have x_in: "?xs ! ?i \<in> set ?xs" using n(2) by simp
  have c0: "c \<noteq> 0" using sub_child(1) [OF sub_q x_in] n(4) by simp
  have blq: "set (blks N (Suc d) q) \<subseteq> set (blks N D 0)" using path_blks [OF n(1)] .
  have "spliced ?b N D 0 ns (Suc d) q (exts N (Suc d) q) (blks N (Suc d) q) N"
    by (rule replace_spliced [where F = "{}", OF n(1) tree(1,2)]) (simp_all add: frame_def sub_q del: sub.simps)
  then have dist_q: "distinct (blks N (Suc d) q)" using tree(2) by (auto simp: spliced_def)
  have E: "exts N D 0 = before N D 0 ns @ exts N (Suc d) q @ after N D 0 ns" using path_exts [OF n(1)] .
  have ok_q: "extents_ok (sb_blocks_cnt ?b) (exts N (Suc d) q)"
    using tree(3) unfolding E by (rule extents_ok_mid)
  have bl: "blks N (Suc d) q = q # blks_below N d (take ?i ?xs) @ blks N d c @ blks_below N d (drop (Suc ?i) ?xs)"
    using kids_split [OF n(2), of "\<lambda>x. blks N d (index_get_pblock x)"] n(4) by simp
  define ys where "ys = take ?i ?xs @ drop (Suc ?i) ?xs"
  define data where "data = remove_index_bytes (header_load (N q)) ?i (N q)"
  note dk = drop_kid [OF sub_q n(2,4) dist_q fr io(3) ok_q, folded ys_def data_def]
  have c_in: "c \<in> set (blks N d c)" by simp
  have "c \<in> set (blks N (Suc d) q)" unfolding bl using c_in by simp
  then have "c \<in> U" using blq U c0 by blast
  then have c_used: "c \<in> used (env s)" by (simp add: used)
  have cnt: "unat (entries_count (header n)) - 1 = length ys" "length ?xs = Suc (length ys)"
    using n(2) by (simp_all add: n(5) ys_def length_kids)
  have cc: "index_get_pblock (index n) = c" by (simp add: n(3,4))
  note common = remove_index_common [OF io fl, of p "length ns" c s, unfolded nth(1), folded q_def,
      unfolded dk(1) n(5), folded data_def, unfolded cnt(1) [unfolded n(5)]]
  obtain s3 d2 where s3: "sealed ?b q data d2" "nodes s3 = (nodes s)(q := d2)" "used (env s3) = used (env s) - {c}"
    and run: "remove_index io p (length ns) s =
      (case (if ?i = 0 \<and> length ys > 0 then correct_indexes io p (length ns) (first_key data) s3 else (EOK, s3)) of (r, s4) \<Rightarrow>
       if r \<noteq> EOK then (r, s4)
       else if length ys = 0 then
         (if q = 0 then
            (EOK, mark_dirty (s4\<lparr>root := header_store ((header_load (root s4))\<lparr>depth := 0\<rparr>) (root s4)\<rparr>))
          else (case length ns of 0 \<Rightarrow> (EIO, s4) | Suc level' \<Rightarrow> remove_index io p level' s4))
       else (EOK, s4))"
    using common [OF cc c_used dk(6)] by blast
  have used3: "used (env s3) = U - set (blks N d c)" unfolding s3(3) used using c_in by auto
  have len3: "lengths_ok ?b (nodes s3)"
    unfolding s3(2) by (rule lengths_ok_sealed [OF len s3(1)]) (simp add: dk(1,3))
  have fr3: "frame N (nodes s3) (set (blks N (Suc d) q))"
    using fr unfolding frame_def s3(2) bl by auto
  note ba = before_after_snoc [OF n(1) [unfolded q_def], folded q_def]
  show ?thesis
  proof (cases "ys = []")
    case False
    note d8 = dk(8) [OF False s3(1), folded s3(2)]
    have e8: "sub ?b (nodes s3) (Suc d) q" "exts (nodes s3) (Suc d) q = exts_below N d ys"
      "blks (nodes s3) (Suc d) q = q # blks_below N d ys" using d8 by blast+
    have fin: ?thesis if "remove_index io p (length ns) s = (EOK, s4)" "used (env s4) = used (env s3)"
      "lengths_ok ?b (nodes s4)"
      "spliced ?b N D 0 ns (Suc d) q (exts_below N d ys) (q # blks_below N d ys) (nodes s4)" for s4
      using that pruned_spliced [OF pt q_def tree(2) that(4) ys_def _ that(3), of used U] used3 by auto
    show ?thesis
    proof (cases "?i = 0")
      case True
      have key: "first_key data = first_key (nodes s3 q)"
      proof -
        have "entries_count (header_load data) \<noteq> 0" using dk(5) False by auto
        from sealed_node(6) [OF s3(1) dk(7) [OF False] io(3) this] show ?thesis by (simp add: s3(2))
      qed
      have ok3: "extents_ok (sb_blocks_cnt ?b) (before N D 0 ns @ exts_below N d ys @ after N D 0 ns)"
      proof -
        have "exts N (Suc d) q = exts_below N d (take ?i ?xs) @ exts N d c @ exts_below N d (drop (Suc ?i) ?xs)"
          using kids_split [OF n(2), of "\<lambda>x. exts N d (index_get_pblock x)"] n(4) by simp
        then have "extents_ok (sb_blocks_cnt ?b) ((before N D 0 ns @ exts_below N d (take ?i ?xs)) @ exts N d c
            @ (exts_below N d (drop (Suc ?i) ?xs) @ after N D 0 ns))" using tree(3) unfolding E by simp
        from extents_ok_without [OF this] show ?thesis by (simp add: ys_def)
      qed
      have "set (blks (nodes s3) (Suc d) q) \<subseteq> set (blks N (Suc d) q) \<union> {}"
        unfolding e8(3) bl ys_def by auto
      from correct_indexes_ok [where F = "{}", OF io tree(1,2) _ nth(2) n(1) _ e8(1) this _ len3, unfolded e8(2,3)] fr3 ok3
      obtain s4 where "correct_indexes io p (length ns) (first_key data) s3 = (EOK, s4)"
        "used (env s4) = used (env s3)" "lengths_ok ?b (nodes s4)"
        "spliced ?b N D 0 ns (Suc d) q (exts_below N d ys) (q # blks_below N d ys) (nodes s4)"
        unfolding key by (auto simp del: blks.simps)
      with run True False show ?thesis by (intro fin) simp_all
    next
      case False
      have "ys ! 0 = ?xs ! 0" using False n(2) by (simp add: ys_def nth_append)
      moreover have "?xs \<noteq> []" using n(2) by auto
      ultimately have "first_key (nodes s3 q) = first_key (N q)"
        using d8 first_key_kids [of "N q"] by (simp add: s3(2))
      then have "spliced ?b N D 0 ns (Suc d) q (exts_below N d ys) (q # blks_below N d ys) (nodes s3)"
        using replace_spliced [where F = "{}", OF n(1) tree(1,2), of "nodes s3"] fr3 d8 by simp
      with run False \<open>ys \<noteq> []\<close> len3 show ?thesis by (intro fin [OF _ refl]) simp_all
    qed
  next
    case True
    then have i0: "?i = 0" "length ?xs = 1" using n(2) cnt(2) by simp_all
    then have none: "take ?i ?xs = []" "drop (Suc ?i) ?xs = []" by simp_all
    have bl1: "blks N (Suc d) q = q # blks N d c" unfolding bl none by simp
    have q_off: "q \<notin> set (blks N d c)" using dist_q unfolding bl1 by simp
    have ba1: "before N D 0 (ns @ [n]) = before N D 0 ns" "after N D 0 (ns @ [n]) = after N D 0 ns"
      unfolding ba none by simp_all
    show ?thesis
    proof (cases "q = 0")
      case False
      have "ns \<noteq> []" using n(1) False by auto
      then obtain l where l: "length ns = Suc l" by (cases ns) auto
      have "remove_index io p (length ns) s = remove_index io p l s3"
        unfolding run using True False l by simp
      moreover have "used (env s3) = U - (set (blks N (Suc d) q) - {q})"
        unfolding used3 bl1 using q_off by auto
      ultimately show ?thesis using l fr3 len3 ba1 unfolding q_def by blast
    next
      case q0: True
      have ns: "ns = []" using path_nonzero [OF n(1) tree(1)] q0 by auto
      then have D: "D = Suc d" using n(1) by simp
      define t where "t = mark_dirty (s3\<lparr>root := header_store ((header_load (root s3))\<lparr>depth := 0\<rparr>) (root s3)\<rparr>)"
      have r3: "root s3 = data" using s3(1) fun_cong [OF s3(2), of 0] by (simp add: q0 sealed_def)
      have eq: "remove_index io p (length ns) s = (EOK, t)" unfolding run using True q0 by (simp add: t_def)
      have form: "node_form ?b 0 (Suc d) (N 0)" using sub_node [OF sub_q] by (simp add: q0 node_valid_def)
      then have l60: "length data = 60" using dk(3) by (simp add: q0 node_form_def root_ok_def)
      have h: "header_load data = (header_load (N 0))\<lparr>entries_count := 0\<rparr>" using dk(4) True by (simp add: q0)
      have r': "root t = header_store ((header_load data)\<lparr>depth := 0\<rparr>) data" by (simp add: t_def r3 mark_dirty_def)
      have h': "header_load (root t) = (header_load (N 0))\<lparr>entries_count := 0, depth := 0\<rparr>" "length (root t) = 60"
        unfolding r' using l60 by (simp_all add: codec_simps mem_simps h)
      have lv: "leaves (root t) = []" by (simp add: leaves_def h' slots_def)
      have "node_form ?b 0 0 (root t)"
        using form h' lv by (simp add: node_form_leaf) (simp add: node_form_def root_ok_def validate_header_root_iff)
      then have sub0: "sub ?b (nodes t) 0 0" by (simp add: node_valid_def)
      have d0: "root_depth t = 0" using sub_root_depth [OF sub0] .
      have tb: "tree_blocks t = {0}" by (simp add: tree_blocks_def d0)
      have "lengths_ok ?b (nodes t)" using len3 by (simp add: lengths_ok_def nodes_block) (simp add: t_def mark_dirty_def)
      moreover have "used (env t) = U - (set (blks N D 0) - {0})"
      proof -
        have "set (blks N D 0) - {0} = set (blks N d c)" using bl1 q_off by (simp add: D q0)
        with used3 show ?thesis by (simp add: t_def)
      qed
      moreover have "before N D 0 (ns @ [n]) = []" "after N D 0 (ns @ [n]) = []" unfolding ba1 by (simp_all add: ns)
      moreover have "0 \<in> set (blks N D 0)" by simp
      ultimately have "pruned ?b used N D U t (before N D 0 (ns @ [n]) @ after N D 0 (ns @ [n]))"
        using sub0 lv tb unfolding pruned_def d0 by simp
      with eq show ?thesis by blast
    qed
  qed
qed

lemma remove_index_ok:
  assumes io: "io_reliable io" "alloc_laws io used" "block_size_ok (sb io)" and fl: "free_laws io used"
    and tree: "sub (sb io) N D 0" "distinct (blks N D 0)" "extents_ok (sb_blocks_cnt (sb io)) (exts N D 0)"
    and U: "set (blks N D 0) \<subseteq> insert 0 U"
  shows "path_at N D 0 (ns @ [n]) d c \<Longrightarrow> (\<And>j. j < Suc (length ns) \<Longrightarrow> path p ! j = (ns @ [n]) ! j) \<Longrightarrow>
    frame N (nodes s) (set (blks N d c)) \<Longrightarrow> lengths_ok (sb io) (nodes s) \<Longrightarrow>
    used (env s) = U - (set (blks N d c) - {c}) \<Longrightarrow>
    \<exists>s'. remove_index io p (length ns) s = (EOK, s')
      \<and> pruned (sb io) used N D U s' (before N D 0 (ns @ [n]) @ after N D 0 (ns @ [n]))"
proof (induction ns arbitrary: n d c s rule: rev_induct)
  case Nil
  from remove_index_step [OF assms Nil(1) _ Nil(3-5), of p] Nil(2) show ?case by auto
next
  case (snoc m ns)
  let ?q = "pblock_of_node n"
  note pt = snoc.prems(1)
  from pt have up: "path_at N D 0 (ns @ [m]) (Suc d) ?q" by (subst (asm) path_at_snoc) simp
  from remove_index_step [OF assms pt _ snoc.prems(3-5), of p] snoc.prems(2)
  consider (ends) s' where "remove_index io p (length (ns @ [m])) s = (EOK, s')"
      "pruned (sb io) used N D U s' (before N D 0 ((ns @ [m]) @ [n]) @ after N D 0 ((ns @ [m]) @ [n]))"
    | (up) s4 where "remove_index io p (length (ns @ [m])) s = remove_index io p (length ns) s4"
      "frame N (nodes s4) (set (blks N (Suc d) ?q))" "lengths_ok (sb io) (nodes s4)"
      "used (env s4) = U - (set (blks N (Suc d) ?q) - {?q})"
      "before N D 0 ((ns @ [m]) @ [n]) = before N D 0 (ns @ [m])" "after N D 0 ((ns @ [m]) @ [n]) = after N D 0 (ns @ [m])"
    by fastforce
  then show ?case
  proof cases
    case ends
    then show ?thesis by blast
  next
    case up_state: up
    have "path p ! j = (ns @ [m]) ! j" if "j < Suc (length ns)" for j
      using snoc.prems(2) [of j] that by (simp add: nth_append)
    from snoc.IH [OF up this up_state(2-4)] up_state(1,5,6) show ?thesis by simp
  qed
qed

end
