(* ===== verification/Extent_Trim.thy ===== *)
theory Extent_Trim
  imports Extent_Prune
begin

text \<open>
  ext4_extent_remove_space on trees of any depth: cutting the extent found, freeing its
  blocks, dropping emptied nodes, and splitting an extent in the middle of which the range
  lies.
\<close>

section \<open>Blocks in use outside the tree\<close>

definition outside :: "('e \<Rightarrow> u64 set) \<Rightarrow> 'e istate \<Rightarrow> u64 set" where
  "outside used s = used (env s) - tree_blocks s"

lemma outside_takes_new: "takes_new used s s' \<Longrightarrow> outside used s' = outside used s"
  by (auto simp: outside_def takes_new_def)

lemma others_outside: "others used s = {b \<in> outside used s. unat b \<notin> data_blocks (tree_map s)}"
  by (auto simp: others_def outside_def)

lemma space_inv_outside:
  "space_inv b used s \<longleftrightarrow> tree_inv b used s \<and> one_to_one (tree_map s)
     \<and> data_blocks (tree_map s) \<subseteq> unat ` outside used s"
proof -
  have "unat ` (used (env s) - tree_blocks s) = unat ` used (env s) - unat ` tree_blocks s"
    by (rule image_set_diff) (auto intro: injI dest: word_unat_eq_iff [THEN iffD2])
  then show ?thesis unfolding space_inv_def outside_def by blast
qed

section \<open>remove_leaf\<close>

lemma leaf_list_form:
  assumes "node_form b c 0 data" "header_load data' = (header_load data)\<lparr>entries_count := n\<rparr>"
    "length data' = length data" "unat n \<le> unat (entries_count (header_load data))" "block_size_ok b"
    and "extents_ok (sb_blocks_cnt b) (leaves data')"
  shows "c \<noteq> 0 \<Longrightarrow> validate_header False (sb_block_size b) (header_load data') = EOK"
    and "c = 0 \<or> leaves data' \<noteq> [] \<Longrightarrow> node_form b c 0 data'"
proof -
  have "unat n \<le> unat (max_entries_count (header_load data))"
    using node_form_fits(2) [OF assms(1,5)] assms(4) by simp
  then show "c \<noteq> 0 \<Longrightarrow> validate_header False (sb_block_size b) (header_load data') = EOK"
    "c = 0 \<or> leaves data' \<noteq> [] \<Longrightarrow> node_form b c 0 data'"
    using assms(1,3,6) unfolding node_form_leaf
    by (auto simp: assms(2) validate_header_root_iff validate_header_block_iff split: if_splits)
qed

lemma remove_leaf_deep:
  fixes s :: "'e istate" and p :: extent_search_path and ns :: "extent_path_node list"
  defines "c \<equiv> pblock_of_node (leaf_of p)" and "pos \<equiv> position (leaf_of p)"
  defines "L \<equiv> leaves (nodes s c)"
    and "pre \<equiv> before (nodes s) (root_depth s) 0 ns" and "post \<equiv> after (nodes s) (root_depth s) 0 ns"
  assumes io: "io_reliable io" "alloc_laws io used" "block_size_ok (sb io)" and fl: "free_laws io used"
    and inv: "tree_inv (sb io) used s" and w: "walked s lb p ns" and ne: "L \<noteq> []"
    and rs: "freed_list f t (drop pos L) = [(pb, n)]" "run_set pb (unat n) \<subseteq> outside used s"
    and ok: "extents_ok (sb_blocks_cnt (sb io)) (pre @ (take pos L @ cut_list f t (drop pos L)) @ post)"
  shows "\<exists>s'. remove_leaf io p f t s = (EOK, s') \<and> tree_inv (sb io) used s'
    \<and> tree_extents s' = pre @ (take pos L @ cut_list f t (drop pos L)) @ post
    \<and> outside used s' = outside used s - run_set pb (unat n)"
proof -
  let ?b = "sb io" and ?N = "nodes s" and ?D = "root_depth s"
  let ?L' = "take pos L @ cut_list f t (drop pos L)" and ?R = "run_set pb (unat n)"
  define data where "data = ?N c"
  let ?h = "header_load data" and ?n = "unat (entries_count (header_load data))"
  note wk = walkedE [OF w inv, folded c_def, folded data_def L_def [folded data_def] pre_def post_def]
  note fl' = found_leaf_leaves [OF wk(3), folded c_def, folded data_def L_def [folded data_def] pos_def]
  have Ld: "L = leaves data" by (simp add: L_def data_def)
  have pos: "pos < length L" using fl'(5) [OF ne] by (simp add: search_pos_def)
  have len: "length L = ?n" by (simp add: Ld length_leaves)
  have form: "node_form ?b c 0 data" by (fact wk(4))
  have fit: "slot ?n \<le> length data" using node_form_fits [OF form io(3)] slot_le le_trans by blast
  obtain s1 where s1: "open_node io c s = (EOK, s1)" "calm used s s1" using open_node_calm [OF io(1,2)] by blast
  have c1: "nodes s1 = ?N" "used (env s1) = used (env s)" using s1(2) by (simp_all add: calm_def)
  have nd: "node_data c s1 = data" using fun_cong [OF c1(1), of c] by (simp add: nodes_def data_def)
  have Ls: "slots extent_load ?n data = L" by (simp add: Ld leaves_def)
  define e where "e = snd (balloc_free_blocks io pb n (env s1))"
  define sF where "sF = s1\<lparr>env := e\<rparr>"
  have fr: "run_frees io (freed_list f t (drop pos L)) (env s1) = e" by (simp add: rs(1) e_def)
  have "?R \<subseteq> used (env s1)" using rs(2) by (auto simp: c1(2) outside_def)
  then have uF: "used e = used (env s) - ?R" using fl by (simp add: e_def free_laws_def c1(2))
  have snF: "same_nodes s sF" using same_nodes_trans [OF same_nodes_calm [OF s1(2)]] by (simp add: sF_def)
  have offR: "tree_blocks s \<inter> ?R = {}" using rs(2) by (auto simp: outside_def)
  have invF: "tree_inv ?b used sF"
    using tree_blocks_used [OF inv] offR by (intro tree_inv_used [OF inv snF]) (auto simp: sF_def uF)
  note tF = tree_same_nodes [OF snF]
  have NF: "nodes sF = ?N" using snF by (simp add: same_nodes_def)
  have outF: "outside used sF = outside used s - ?R" 
  proof -
    have "used (env sF) = used e" by (simp add: sF_def)
    then show ?thesis unfolding outside_def tF(4) by (auto simp: uF)
  qed
  obtain i w' d where lp: "remove_leaf_loop io c f t ?n pos pos ?n s1
      = (Inr (i, w', ?n - (i - w')), set_node_data c d sF)"
    and iw: "w' \<le> i" "i \<le> ?n" "length d = length data"
    and eq: "take w' (slots extent_load ?n d) @ drop i (slots extent_load ?n d) = ?L'"
  proof -
    have "pos \<le> ?n" using pos len by simp
    from remove_leaf_loop_spec [OF free_laws_frees_ok [OF fl] order_refl this, of c s1 f t, unfolded nd, OF fit]
    show ?thesis using that unfolding Ls fr sF_def by auto
  qed
  define data' where "data' = remove_leaf_bytes ?h i w' (?n - (i - w')) d"
  note r = remove_leaf_bytes_effect [OF iw(1,2), of d, unfolded iw(3), OF fit, folded data'_def]
  have ul: "unat (entries_count (header_load data')) = ?n - (i - w')" by (simp add: r(1,4))
  have L': "leaves data' = ?L'" using r(3) eq by (simp add: leaves_def ul)
  then have cnt: "?n - (i - w') = length ?L'" using length_leaves [of data'] ul by simp
  have ok': "extents_ok (sb_blocks_cnt ?b) (leaves data')" using extents_ok_mid [OF ok] L' by simp
  note lf = leaf_list_form [OF form r(1,2) _ io(3) ok']
  have le: "unat (of_nat (?n - (i - w')) :: u16) \<le> ?n" by (simp add: r(4))
  obtain s3 where s3: "commit_node io c (set_node_data c data' (set_node_data c d sF)) = (EOK, s3)"
    "stored ?b used (set_node_data c d sF) c data' s3"
    using commit_any [OF io lf(1) [OF le]] by blast
  have st: "stored ?b used sF c data' s3" using s3(2) by (simp add: stored_set)
  have nm: "pblock_of_node (leaf_of p) = c" "position (leaf_of p) = pos" "header (leaf_of p) = ?h"
    using fl'(1) by (simp_all add: c_def pos_def)
  define m where "m = length ?L'"
  have cm: "?n - (i - w') = m" and dm: "remove_leaf_bytes ?h i w' m d = data'"
    using cnt by (simp_all only: m_def data'_def)
  have run: "remove_leaf io p f t s =
      (case (if pos = 0 \<and> m > 0 then correct_indexes io p (path_depth p) (first_key data') s3 else (EOK, s3)) of (r, s4) \<Rightarrow>
       if r \<noteq> EOK then (r, s4)
       else if m = 0 then (if c = 0 then (EOK, s4) else remove_index io p (path_depth p - 1) s4)
       else (EOK, s4))"
    unfolding remove_leaf_def Let_def nm s1(1) prod.case lp sum.case
    unfolding cm node_data_set dm s3(1) prod.case by simp
  have m0: "m = 0 \<longleftrightarrow> ?L' = []" by (simp only: m_def length_0_conv)
  have pp: "path p = ns @ [leaf_of p]" "path_depth p = length ns" using w by (simp_all add: walked_def)
  have ptF: "path_at (nodes sF) (root_depth sF) 0 ns 0 c" using wk(1) by (simp add: NF tF)
  have okF: "extents_ok (sb_blocks_cnt ?b) (before (nodes sF) (root_depth sF) 0 ns @ leaves data' @ after (nodes sF) (root_depth sF) 0 ns)"
    using ok by (simp add: NF tF L' pre_def post_def)
  have es: "before (nodes sF) (root_depth sF) 0 ns @ leaves data' @ after (nodes sF) (root_depth sF) 0 ns = pre @ ?L' @ post"
    by (simp add: NF tF L' pre_def post_def)
  show ?thesis
  proof (cases "c \<noteq> 0 \<and> ?L' = []")
    case False
    then have nf: "node_form ?b c 0 data'" using lf(2) [OF le] L' by auto
    note ch = leaf_changed [OF io invF ptF pp st nf okF, unfolded es]
    have fin: ?thesis if "remove_leaf io p f t s = (EOK, s')"
      "tree_inv ?b used s' \<and> tree_extents s' = pre @ ?L' @ post \<and> takes_new used sF s'" for s'
      using that outside_takes_new [of used sF s'] outF by auto
    show ?thesis
    proof (cases "pos = 0 \<and> ?L' \<noteq> []")
      case True
      then obtain s4 where "correct_indexes io p (path_depth p) (first_key data') s3 = (EOK, s4)"
        "tree_inv ?b used s4 \<and> tree_extents s4 = pre @ ?L' @ post \<and> takes_new used sF s4"
        using ch(2) [OF refl] L' by auto
      moreover have "pos = 0" "0 < m" "m \<noteq> 0" using True m0 by blast+
      ultimately show ?thesis using run by (intro fin [of s4]) simp_all
    next
      case no_fix: False
      have "ns = [] \<or> first_key data' = first_key (nodes sF c)"
      proof (cases "?L' = []")
        case True
        with False wk(6) show ?thesis by simp
      next
        case False
        then have "pos \<noteq> 0" using no_fix by simp
        then have "?L' ! 0 = L ! 0" using pos by (simp add: nth_append)
        then show ?thesis
          using first_key_leaves [of data'] first_key_leaves [of data] False ne by (simp add: NF L' Ld data_def)
      qed
      moreover have quiet: "\<not> (pos = 0 \<and> 0 < m)" "m = 0 \<longrightarrow> c = 0" using no_fix False m0 by blast+
      then have "remove_leaf io p f t s = (EOK, s3)" unfolding run if_not_P [OF quiet(1)] by simp
      ultimately show ?thesis using ch(1) by (intro fin [of s3]) blast+
    qed
  next
    case True
    then have "ns \<noteq> []" using wk(6) by simp
    then obtain ms u where ns: "ns = ms @ [u]" by (cases ns rule: rev_cases) auto
    obtain d3 where d3: "sealed ?b c data' d3" "nodes s3 = ?N(c := d3)" "used (env s3) = used e"
      using st unfolding stored_def NF by (auto simp: sF_def)
    have tree: "sub ?b ?N ?D 0" "distinct (blks ?N ?D 0)" "extents_ok (sb_blocks_cnt ?b) (exts ?N ?D 0)"
      "lengths_ok ?b ?N" using inv by (simp_all add: tree_inv_def)
    have U: "set (blks ?N ?D 0) \<subseteq> insert 0 (used e)"
      using tree_blocks_used [OF inv] offR by (auto simp: uF tree_blocks_def)
    have pt: "path_at ?N ?D 0 (ms @ [u]) 0 c" using wk(1) ns by simp
    have nth: "path p ! j = (ms @ [u]) ! j" if "j < Suc (length ms)" for j
      using that pp(1) ns by (simp add: nth_append)
    have frm: "frame ?N (nodes s3) (set (blks ?N 0 c))" by (simp add: frame_def d3(2))
    have len3: "lengths_ok ?b (nodes s3)"
      unfolding d3(2) by (rule lengths_ok_sealed [OF tree(4) d3(1)]) (simp add: r(2) data_def iw(3))
    have us: "used (env s3) = used e - (set (blks ?N 0 c) - {c})" by (simp add: d3(3))
    from remove_index_ok [OF io fl tree(1-3) U pt nth frm len3 us]
    obtain s4 where s4: "remove_index io p (length ms) s3 = (EOK, s4)"
      "pruned ?b used ?N ?D (used e) s4 (pre @ post)" by (auto simp: pre_def post_def ns)
    have tb: "tree_blocks s4 \<subseteq> tree_blocks s" "used (env s4) = used e - (tree_blocks s - tree_blocks s4)"
      using s4(2) by (simp_all add: pruned_def tree_blocks_def)
    have "tree_inv ?b used s4"
      using s4(2) ok True tb U unfolding tree_inv_def pruned_def tree_blocks_def by auto
    moreover from tree_inv_tree_ok(2) [OF this] have "tree_extents s4 = pre @ ?L' @ post"
      using s4(2) True by (simp add: pruned_def)
    moreover have "outside used s4 = outside used s - ?R" using tb by (auto simp: outside_def uF)
    moreover have "remove_leaf io p f t s = (EOK, s4)"
    proof -
      have "m = 0" "c \<noteq> 0" using True m0 by blast+
      with run s4(1) show ?thesis by (simp add: pp(2) ns)
    qed
    ultimately show ?thesis by blast
  qed
qed

end
