(* ===== verification/Extent_Carve.thy ===== *)
theory Extent_Carve
  imports Extent_Trim
begin

text \<open>
  ext4_extent_remove_space on trees of any depth, with the accounting of blocks: the blocks
  of the range are unmapped and freed, and no other block changes hands.
\<close>

section \<open>What a removal promises\<close>

definition trimmed :: "'e lwext4 \<Rightarrow> ('e \<Rightarrow> u64 set) \<Rightarrow> u32 \<Rightarrow> u32 \<Rightarrow> 'e istate \<Rightarrow> errno \<Rightarrow> 'e istate \<Rightarrow> bool" where
  "trimmed io used f t s r s' \<longleftrightarrow> space_inv (sb io) used s' \<and> others used s' = others used s
     \<and> (if r = EOK then tree_map s' = cut_map f t (tree_map s)
        else tree_map s' = tree_map s \<and> no_room io s' r)"

lemma data_blocks_cut:
  assumes "one_to_one m"
  shows "data_blocks (cut_map f t m) = data_blocks m - mapped_blocks f t m"
  using assms unfolding one_to_one_def data_blocks_def mapped_blocks_def cut_map_def
  by (auto split: if_splits) (metis option.distinct(1))

lemma cut_space:
  assumes inv: "space_inv b used s" and inv': "tree_inv b used s'"
    and m: "tree_map s' = cut_map f t (tree_map s)"
    and R: "unat ` R = mapped_blocks f t (tree_map s)" and out: "outside used s' = outside used s - R"
  shows "space_inv b used s'" "others used s' = others used s"
proof -
  have s: "one_to_one (tree_map s)" "data_blocks (tree_map s) \<subseteq> unat ` outside used s"
    using inv by (simp_all add: space_inv_outside)
  note d = data_blocks_cut [OF s(1), of f t, folded m R]
  have "unat ` (outside used s - R) = unat ` outside used s - unat ` R"
    by (rule image_set_diff) (auto intro: injI dest: word_unat_eq_iff [THEN iffD2])
  then have "data_blocks (tree_map s') \<subseteq> unat ` outside used s'" using s(2) by (auto simp: d out)
  moreover have "one_to_one (tree_map s')"
    using s(1) by (auto simp: one_to_one_def m cut_map_def split: if_splits)
  ultimately show "space_inv b used s'" using inv' by (simp add: space_inv_outside)
  have "mapped_blocks f t (tree_map s) \<subseteq> data_blocks (tree_map s)"
    by (auto simp: mapped_blocks_def data_blocks_def)
  then have R_data: "unat x \<in> data_blocks (tree_map s)" if "x \<in> R" for x
    using that R by blast
  have "unat x \<in> unat ` R \<longleftrightarrow> x \<in> R" for x by (auto dest: word_unat_eq_iff [THEN iffD2])
  then show "others used s' = others used s"
    using R_data by (auto simp: others_outside out d)
qed

lemma same_map_space:
  assumes "space_inv b used s" "tree_inv b used s'" "tree_map s' = tree_map s" "takes_new used s s'"
  shows "space_inv b used s'" "others used s' = others used s"
  using assms outside_takes_new [OF assms(4)] by (simp_all add: space_inv_outside others_outside)

lemma trimmed_nothing:
  assumes "space_inv (sb io) used s" "\<And>lb. unat f \<le> lb \<Longrightarrow> lb \<le> unat t \<Longrightarrow> tree_map s lb = None" "calm used s s'"
  shows "trimmed io used f t s EOK s'"
  using assms calm_inv(4) [OF assms(3)] space_inv_calm [OF assms(3)] others_calm [OF assms(3)]
  by (auto simp: trimmed_def cut_map_def fun_eq_iff)

lemma trimmed_step:
  assumes "trimmed io used f r s EOK s1" "trimmed io used g t s1 EOK s2" "unat g = unat r + 1" "f \<le> r" "r \<le> t"
  shows "trimmed io used f t s EOK s2"
proof -
  have "unat f \<le> unat r" "unat r \<le> unat t" using assms(4,5) by (simp_all add: word_le_nat_alt)
  with assms(1-3) show ?thesis by (auto simp: trimmed_def cut_map_def fun_eq_iff)
qed

lemma trimmed_skip:
  assumes "trimmed io used g t s EOK s'" "unat f \<le> unat g"
    and "\<And>lb. unat f \<le> lb \<Longrightarrow> lb < unat g \<Longrightarrow> lb \<le> unat t \<Longrightarrow> tree_map s lb = None"
  shows "trimmed io used f t s EOK s'"
proof -
  have "cut_map f t (tree_map s) = cut_map g t (tree_map s)"
    using assms(2,3) by (auto simp: cut_map_def fun_eq_iff not_le)
  then show ?thesis using assms(1) by (simp add: trimmed_def)
qed

lemma trimmed_calm: "calm used s s1 \<Longrightarrow> trimmed io used f t s1 r s' = trimmed io used f t s r s'"
  by (simp add: trimmed_def calm_inv others_calm)

section \<open>One extent\<close>

lemma removable_mid: "removable fs (xs @ ys @ zs) \<Longrightarrow> removable fs ys"
  by (auto simp: removable_def intro: extents_ok_mid)

text \<open>The one run that is freed when the range meets the found extent only.\<close>

definition cut_run :: "u32 \<Rightarrow> u32 \<Rightarrow> ext4_extent \<Rightarrow> u64 \<times> u32" where
  "cut_run f t x = (let c = cut_extent x f t in
     (extent_get_pblock x + ucast (cut_start c - first_block x), ucast (cut_len c)))"

lemma run_blocks_set: "unat ` run_set (extent_get_pblock x + ucast (d :: u32)) (unat (n :: u32))
    = run_blocks (extent_get_pblock x + ucast d, n)"
proof -
  have "unat (extent_get_pblock x + ucast d) \<le> unat (extent_get_pblock x) + unat d"
    by (simp add: unat_word_ariths)
  then have "unat (extent_get_pblock x + ucast d) + unat n \<le> 2 ^ 64"
    using pblock_less [of x] unat32_less [of d] unat32_less [of n] by (simp add: e_phys_def)
  then show ?thesis by (simp add: unat_run_set run_blocks_def)
qed

lemma cut_run_freed:
  assumes rem: "removable fs es" and sp: "search_pos es (unat f) pos"
    and hit: "f \<le> t" "first_block (es ! pos) \<le> t" "f \<le> e_last (es ! pos)" "t \<le> e_last (es ! pos)"
  shows "freed_list f t (drop pos es) = [cut_run f t (es ! pos)]"
proof -
  have pos: "pos < length es" using sp by (simp add: search_pos_def)
  have "t < first_block e" if "e \<in> set (drop (Suc pos) es)" for e
    using behind_found [OF rem pos that] hit(4) unat_e_last [of "es ! pos"] removable_nth [OF rem pos]
    by (auto simp: word_less_nat_alt word_le_nat_alt e_first_def e_end_def)
  then have "freed_list f t (drop (Suc pos) es) = []" by (cases "drop (Suc pos) es") auto
  moreover have "drop pos es = es ! pos # drop (Suc pos) es" using pos by (simp add: Cons_nth_drop_Suc)
  ultimately show ?thesis using hit(2,3) by (simp add: not_less [symmetric] Let_def cut_run_def)
qed

lemma trim_leaf:
  assumes io: "io_reliable io" "alloc_laws io used" "block_size_ok (sb io)" and fl: "free_laws io used"
    and inv: "space_inv (sb io) used s" and rem: "removable (sb_blocks_cnt (sb io)) (tree_extents s)"
    and w: "walked s f p ns" and ne: "tree_extents s \<noteq> []"
  defines "x \<equiv> extent (leaf_of p)"
  assumes hit: "f \<le> r" "first_block x \<le> r" "f \<le> e_last x" "r \<le> e_last x" and os: "one_sided f r x"
  shows "\<exists>s'. remove_leaf io p f r s = (EOK, s') \<and> trimmed io used f r s EOK s'
    \<and> tree_extents s' = cut_list f r (tree_extents s)"
proof -
  let ?fs = "sb_blocks_cnt (sb io)" and ?E = "tree_extents s"
  define L where "L = leaves (nodes s (pblock_of_node (leaf_of p)))"
  define pos where "pos = position (leaf_of p)"
  define pre post where "pre = before (nodes s) (root_depth s) 0 ns" and "post = after (nodes s) (root_depth s) 0 ns"
  have tree: "tree_inv (sb io) used s" using inv by (simp add: space_inv_def)
  note wk = walkedE [OF w tree, folded L_def pre_def post_def]
  have Lne: "L \<noteq> []" using wk(7) ne by blast
  note fL = found_leaf_leaves [OF wk(3), folded L_def pos_def]
  have E: "?E = pre @ L @ post" using wk(2) by (simp add: lookup_split_def)
  have spL: "search_pos L (unat f) pos" and xL: "x = L ! pos" using fL(4,5) Lne by (simp_all add: x_def)
  have pos: "pos < length L" using spL by (simp add: search_pos_def)
  have remL: "removable ?fs L" using rem unfolding E by (rule removable_mid)
  have fp: "found_pos s p ns = length pre + pos" by (simp add: found_pos_def pre_def pos_def)
  note sp = found_pos(1,2) [OF w tree ne, folded x_def, unfolded fp]
  note cE = cut_at_found [OF rem sp(1) hit [unfolded sp(2)] os [unfolded sp(2)]]
  note cL = cut_at_found [OF remL spL hit [unfolded xL] os [unfolded xL]]
  have EL: "?E ! (length pre + pos) = L ! pos" using pos by (simp add: E nth_append)
  have cut: "cut_list f r ?E = pre @ (take pos L @ cut_list f r (drop pos L)) @ post"
    unfolding cL(1) unfolding cL(2) cE(2) EL using pos by (simp add: E)
  have okE: "extents_ok ?fs ?E" using rem by (simp add: removable_def)
  note spec = cut_list_spec [OF okE cE(4)]
  have cx: "cuttable ?fs f r x" using cL(4) pos by (simp add: xL)
  obtain pb n where run: "cut_run f r x = (pb, n)" by fastforce
  have freed: "freed_list f r (drop pos L) = [(pb, n)]" "freed_list f r ?E = [(pb, n)]"
    using cut_run_freed [OF remL spL hit [unfolded xL]] cut_run_freed [OF rem sp(1) hit [unfolded sp(2)]] run cE(3)
    by (simp_all add: EL xL)
  have R: "unat ` run_set pb (unat n) = mapped_blocks f r (tree_map s)"
  proof -
    have "unat ` run_set pb (unat n) = run_blocks (pb, n)"
      using run run_blocks_set [of x] by (auto simp: cut_run_def Let_def)
    also have "\<dots> = mapped_blocks f r (tree_map s)"
      using freed_list_blocks [OF okE cE(4)] by (simp add: freed(2) mapped_blocks_def tree_map_def)
    finally show ?thesis .
  qed
  have "mapped_blocks f r (tree_map s) \<subseteq> unat ` outside used s"
    using inv by (auto simp: space_inv_outside mapped_blocks_def data_blocks_def)
  with R have rs: "run_set pb (unat n) \<subseteq> outside used s"
    by (auto dest!: word_unat_eq_iff [THEN iffD2])
  have "extents_ok ?fs (pre @ (take pos L @ cut_list f r (drop pos L)) @ post)"
    using spec unfolding cut by blast
  from remove_leaf_deep [OF io fl tree w, folded L_def pos_def pre_def post_def, OF Lne freed(1) rs this]
  obtain s' where s': "remove_leaf io p f r s = (EOK, s')" "tree_inv (sb io) used s'"
    "tree_extents s' = cut_list f r ?E" "outside used s' = outside used s - run_set pb (unat n)"
    unfolding cut by blast
  have "tree_map s' = cut_map f r (tree_map s)"
    using spec by (auto simp: tree_map_def s'(3) cut_map_def fun_eq_iff)
  from cut_space [OF inv s'(2) this R s'(4)] this s'(1,3) show ?thesis by (simp add: trimmed_def)
qed

section \<open>The middle of an extent\<close>

lemma middle_form:
  assumes "node_form b c 0 data" "block_size_ok b" "\<not> h_full (header_load data)" "i < length (leaves data)"
    and "extents_ok (sb_blocks_cnt b) (take i (leaves data) @ [x, y] @ drop (Suc i) (leaves data))"
    and "first_block x = first_block (leaves data ! i)"
  defines "data' \<equiv> split_middle_bytes (header_load data) i x y data"
  shows "node_form b c 0 data'" "leaves data' = take i (leaves data) @ [x, y] @ drop (Suc i) (leaves data)"
    "first_key data' = first_key data"
proof -
  let ?h = "header_load data"
  have n: "unat (entries_count ?h) < unat (max_entries_count ?h)" using assms(3) by (simp add: not_h_full)
  have i: "i < unat (entries_count ?h)" using assms(4) by (simp add: length_leaves)
  have "slot (Suc (unat (entries_count ?h))) \<le> slot (unat (max_entries_count ?h))" using n by (intro slot_le) simp
  with node_form_fits(1) [OF assms(1,2)] have "slot (Suc (unat (entries_count ?h))) \<le> length data" by simp
  note e = split_middle_bytes_effect [OF i this, of x y, folded data'_def]
  have c: "unat (entries_count ?h + 1) = Suc (unat (entries_count ?h))"
    using n unat16_less [of "max_entries_count ?h"] by (intro unat_Suc16) simp
  show L: "leaves data' = take i (leaves data) @ [x, y] @ drop (Suc i) (leaves data)"
    using e(3) by (simp add: leaves_def e(1) c)
  show "node_form b c 0 data'"
    using assms(1,5) n unfolding node_form_leaf L
    by (auto simp: e(1,2) c validate_header_root_iff validate_header_block_iff)
  have ne: "leaves data' \<noteq> []" "leaves data \<noteq> []" using assms(4) by (auto simp: L)
  have "first_block (leaves data' ! 0) = first_block (leaves data ! 0)"
    using assms(4,6) by (cases i) (auto simp: L nth_append)
  with first_key_leaves [OF ne(1)] first_key_leaves [OF ne(2)] show "first_key data' = first_key data" by simp
qed

lemma trim_middle:
  assumes io: "io_reliable io" "alloc_laws io used" "block_size_ok (sb io)" and fl: "free_laws io used"
    and inv: "space_inv (sb io) used s" and rem: "removable (sb_blocks_cnt (sb io)) (tree_extents s)"
    and sp: "search_pos (tree_extents s) (unat f) k"
  defines "x \<equiv> tree_extents s ! k"
  assumes hit: "first_block x < f" "f \<le> t" "t < e_last x"
  shows "\<exists>r s'. remove_middle_of_extent io f t s = (r, s') \<and> trimmed io used f t s r s'"
proof -
  let ?b = "sb io" and ?fs = "sb_blocks_cnt (sb io)" and ?E = "tree_extents s"
  have tree: "tree_inv ?b used s" using inv by (simp add: space_inv_def)
  have k: "k < length ?E" using sp by (simp add: search_pos_def)
  obtain q s1 where room: "ensure_insert_room io f s = (q, s1)" and rs: "reshaped ?b used s s1"
    and ans: "case q of Inl e \<Rightarrow> no_room io s1 e
     | Inr p \<Rightarrow> (\<exists>ns. walked s1 f p ns \<and> \<not> h_full (header (leaf_of p)))"
    using ensure_insert_room_ok [OF io tree] by blast
  have E1: "tree_extents s1 = ?E" and tree1: "tree_inv ?b used s1" and tn1: "takes_new used s s1"
    using rs by (simp_all add: reshaped_def)
  then have map1: "tree_map s1 = tree_map s" by (simp add: tree_map_def)
  note sp1 = same_map_space [OF inv tree1 map1 tn1]
  show ?thesis
  proof (cases q)
    case (Inl e)
    then have "no_room io s1 e" "e \<noteq> EOK" using ans no_room_not_EOK by auto
    with sp1 map1 show ?thesis using Inl room by (simp add: remove_middle_of_extent_def trimmed_def)
  next
    case (Inr p)
    with ans obtain ns where w: "walked s1 f p ns" and nf: "\<not> h_full (header (leaf_of p))" by auto
    define c pos L where "c = pblock_of_node (leaf_of p)" and "pos = position (leaf_of p)" and "L = leaves (nodes s1 c)"
    define pre post where "pre = before (nodes s1) (root_depth s1) 0 ns" and "post = after (nodes s1) (root_depth s1) 0 ns"
    note wk = walkedE [OF w tree1, folded c_def, folded L_def pre_def post_def, unfolded E1]
    have ne: "?E \<noteq> []" using k by auto
    have Lne: "L \<noteq> []" using wk(7) ne by blast
    note fL = found_leaf_leaves [OF wk(3), folded c_def, folded L_def pos_def]
    have E: "?E = pre @ L @ post" using wk(2) by (simp add: lookup_split_def)
    have pos: "pos < length L" using fL(5) [OF Lne] by (simp add: search_pos_def)
    have fp: "found_pos s1 p ns = length pre + pos" by (simp add: found_pos_def pre_def pos_def)
    note fd = found_pos(1) [OF w tree1, unfolded E1, OF ne, unfolded fp]
    have kp: "k = length pre + pos"
      by (rule search_pos_unique [OF removable_sorted [OF rem] sp fd]) (use rem in \<open>auto simp: removable_def extents_ok_def extent_ok_def\<close>)
    have xL: "x = L ! pos" using pos by (simp add: x_def kp E nth_append)
    then have ex: "extent (leaf_of p) = x" using fL(4) Lne by simp
    let ?x = "middle_prefix x f" and ?y = "middle_suffix x t"
    note ok = removable_nth [OF rem k, folded x_def]
    note ml = middle_list [OF rem k hit [unfolded x_def], folded x_def]
    let ?L' = "take pos L @ [?x, ?y] @ drop (Suc pos) L"
    have E': "take k ?E @ [?x, ?y] @ drop (Suc k) ?E = pre @ ?L' @ post" using pos by (simp add: E kp)
    have okE: "extents_ok ?fs (pre @ ?L' @ post)" using ml(1) unfolding E' by (simp add: removable_def)
    define data where "data = nodes s1 c"
    have hd: "header (leaf_of p) = header_load data" using fL(1) by (simp add: c_def data_def)
    have Ld: "leaves data = L" by (simp add: L_def data_def)
    note mf = middle_form [OF wk(4) io(3), folded data_def, unfolded Ld, OF nf [unfolded hd] pos extents_ok_mid [OF okE]]
    define data' where "data' = split_middle_bytes (header_load data) pos ?x ?y data"
    have fb: "first_block ?x = first_block (L ! pos)" by (simp add: middle_prefix_def Let_def xL)
    note mf = mf [OF fb, folded data'_def]
    obtain s2 where s2: "open_node io c s1 = (EOK, s2)" "calm used s1 s2" using open_node_calm [OF io(1,2)] by blast
    have N2: "nodes s2 = nodes s1" using s2(2) by (simp add: calm_def)
    have nd: "node_data c s2 = data" using fun_cong [OF N2, of c] by (simp add: nodes_def data_def)
    have vh: "c \<noteq> 0 \<Longrightarrow> validate_header False (sb_block_size ?b) (header_load data') = EOK"
      using mf(1) by (simp add: node_form_leaf)
    obtain s3 where s3: "commit_node io c (set_node_data c data' s2) = (EOK, s3)" "stored ?b used s2 c data' s3"
      using commit_any [OF io vh] by blast
    have st: "stored ?b used s1 c data' s3" using stored_calm [OF s2(2)] s3(2) by blast
    have pp: "path p = ns @ [leaf_of p]" "path_depth p = length ns" using w by (simp_all add: walked_def)
    have es: "before (nodes s1) (root_depth s1) 0 ns @ leaves data' @ after (nodes s1) (root_depth s1) 0 ns = pre @ ?L' @ post"
      by (simp add: mf(2) pre_def post_def)
    have fk: "ns = [] \<or> first_key data' = first_key (nodes s1 c)" using mf(3) by (simp add: data_def)
    from leaf_changed(1) [OF io tree1 wk(1) pp st mf(1), unfolded es, OF okE fk]
    have t3: "tree_inv ?b used s3" "tree_extents s3 = pre @ ?L' @ post" "takes_new used s1 s3" by blast+
    have out3: "outside used s3 = outside used s" using outside_takes_new [OF t3(3)] outside_takes_new [OF tn1] by simp
    let ?pb = "extent_get_pblock x + ucast (f - first_block x)" and ?n = "t - f + 1"
    have R: "unat ` run_set ?pb (unat ?n) = mapped_blocks f t (tree_map s)"
    proof -
      note m = middle_fields [OF conjunct1 [OF ok] conjunct1 [OF conjunct2 [OF ok]] _ hit]
      have mm: "unat t < e_end x - 1" "unat f \<le> unat t" "e_first x < unat f"
        using m(9-11) rem by (simp_all add: removable_def)
      moreover have "e_end x < 4294967296" using ok by simp
      ultimately have "Suc (unat t - unat f) < 4294967296" by linarith
      then have "unat ?n = unat t + 1 - unat f"
        using hit(2) mm by (simp add: unat_word_ariths unat_sub)
      moreover have "unat ?pb = e_phys x + (unat f - e_first x)" using hit(1) by (intro unat_phys_off) simp
      ultimately have "run_blocks (?pb, ?n) = mapped_blocks f t (tree_map s)"
        using ml(3) by (simp add: run_blocks_def tree_map_def)
      then show ?thesis by (simp only: run_blocks_set)
    qed
    have "mapped_blocks f t (tree_map s) \<subseteq> unat ` outside used s"
      using inv by (auto simp: space_inv_outside mapped_blocks_def data_blocks_def)
    with R have Ro: "run_set ?pb (unat ?n) \<subseteq> outside used s3"
      by (auto simp: out3 dest!: word_unat_eq_iff [THEN iffD2])
    then have "run_set ?pb (unat ?n) \<subseteq> used (env s3)" by (auto simp: outside_def)
    from free_blocks_ok [OF fl this] obtain s4 where s4: "ext4_balloc_free_blocks io ?pb ?n s3 = (EOK, s4)"
      "same_nodes s3 s4" "used (env s4) = used (env s3) - run_set ?pb (unat ?n)" by blast
    have oe: "\<not> ucast t \<ge> (ucast (first_block x) + ucast (extent_get_actual_len x) - 1 :: u64)"
      using hit(3) ok by (intro end_not_reached) auto
    have "remove_middle_of_extent io f t s = (EOK, s4)"
      using room Inr nf hit(1) oe s2(1) s3(1) s4(1)
      by (simp add: remove_middle_of_extent_def Let_def ex hd c_def [symmetric] pos_def [symmetric] nd
         data'_def [symmetric] not_le remove_blocks_def)
    moreover have "tree_inv ?b used s4"
      using tree_blocks_used [OF t3(1)] Ro by (intro tree_inv_used [OF t3(1) s4(2)]) (auto simp: s4(3) outside_def)
    moreover have "tree_map s4 = cut_map f t (tree_map s)"
      unfolding tree_same_nodes(3) [OF s4(2)] unfolding tree_map_def t3(2) E' [symmetric] by (rule ml(2))
    moreover have "outside used s4 = outside used s - run_set ?pb (unat ?n)"
      unfolding out3 [symmetric] by (auto simp: outside_def s4(3) tree_same_nodes(4) [OF s4(2)])
    ultimately show ?thesis using cut_space [OF inv _ _ R] by (auto simp: trimmed_def)
  qed
qed

end
