(* ===== verification/Extent_Alloc.thy ===== *)
theory Extent_Alloc
  imports Extent_Account
begin

text \<open>
  The allocating ext4_extent_get_blocks on trees of any depth: the contiguous run it gets
  from the allocator, the bound on its length, and the insertion of the new extent.
\<close>

section \<open>The allocated run\<close>

text \<open>The blocks in use are \<open>U\<close> and, disjoint from it, the run of \<open>n\<close> blocks at \<open>first\<close>.\<close>

definition grabbed :: "'e lwext4 \<Rightarrow> ('e \<Rightarrow> u64 set) \<Rightarrow> u64 set \<Rightarrow> 'e istate \<Rightarrow> u64 \<Rightarrow> nat \<Rightarrow> bool" where
  "grabbed io used U s first n \<longleftrightarrow> used (env s) = U \<union> run_set first n \<and> run_set first n \<inter> U = {}
     \<and> (0 < n \<longrightarrow> first \<noteq> 0 \<and> unat first + n \<le> unat (sb_blocks_cnt (sb io)) \<and> unat first + n \<le> 2 ^ 48)"

lemma grabbed_more:
  assumes "grabbed io used U s first n" "0 < n" "used (env s1) = insert (first + of_nat n) (used (env s))"
    and "first + of_nat n \<notin> used (env s)" "first + of_nat n < sb_blocks_cnt (sb io)" "unat (first + of_nat n) < 2 ^ 48"
  shows "grabbed io used U s1 first (Suc n)"
proof -
  have n: "unat first + n \<le> 2 ^ 48" "first \<noteq> 0" using assms(1,2) by (simp_all add: grabbed_def)
  then have lt: "unat first + n < 2 ^ 64" by simp
  note u = unat_add_of_nat [OF this]
  have "used (env s) = U \<union> run_set first n" "run_set first n \<inter> U = {}"
    using assms(1) by (simp_all add: grabbed_def)
  then show ?thesis
    unfolding grabbed_def run_set_Suc [OF lt] using assms(3-6) n(2) u by (auto simp: word_less_nat_alt)
qed

lemma grabbed_first:
  assumes "grabbed io used U s first 0" "used (env s1) = insert pb (used (env s))"
    and "pb \<notin> used (env s)" "pb < sb_blocks_cnt (sb io)" "unat pb < 2 ^ 48" "pb \<noteq> 0"
  shows "grabbed io used U s1 pb (Suc 0)"
  using assms by (auto simp: grabbed_def word_less_nat_alt)

lemma grabbed_release:
  assumes fl: "free_laws io used" and g: "grabbed io used U s first n" and n: "n \<le> 32768"
  shows "\<exists>s'. ext4_balloc_free_blocks io first (of_nat n) s = (EOK, s') \<and> same_nodes s s' \<and> used (env s') = U"
proof -
  have un: "unat (of_nat n :: u32) = n" using n by (simp add: unat_of_nat)
  have "run_set first (unat (of_nat n :: u32)) \<subseteq> used (env s)" using g by (simp add: un grabbed_def)
  from free_blocks_ok [OF fl this] obtain s' where
    "ext4_balloc_free_blocks io first (of_nat n) s = (EOK, s')" "same_nodes s s'"
    "used (env s') = used (env s) - run_set first n" by (auto simp: un)
  moreover have "used (env s) - run_set first n = U" using g by (auto simp: grabbed_def)
  ultimately show ?thesis by simp
qed

lemma alloc_run_ok:
  assumes al: "alloc_laws io used" and fl: "free_laws io used" and cap: "0 < cap" "cap \<le> 32768"
  shows "grabbed io used U s first count \<Longrightarrow> count \<le> cap \<Longrightarrow>
    \<exists>r s'. alloc_run io cap first count goal s = (r, s') \<and> same_nodes s s'
      \<and> (case r of Inl e \<Rightarrow> alloc_error io e \<and> used (env s') = U
         | Inr (f, n) \<Rightarrow> 0 < n \<and> n \<le> cap \<and> grabbed io used U s' f n)"
proof (induction "cap - count" arbitrary: first count goal s rule: less_induct)
  case less
  note g = less.prems(1)
  show ?case
  proof (cases "count < cap")
    case False
    then have "alloc_run io cap first count goal s = (Inr (first, count), s)"
      by (subst alloc_run.simps) simp
    with False less.prems cap(1) show ?thesis by auto
  next
    case lt: True
    have step: "\<exists>r s'. alloc_run io cap first count goal s = (r, s') \<and> same_nodes s s'
        \<and> (case r of Inl e \<Rightarrow> alloc_error io e \<and> used (env s') = U
           | Inr (f, n) \<Rightarrow> 0 < n \<and> n \<le> cap \<and> grabbed io used U s' f n)"
      if "same_nodes s s1" "grabbed io used U s1 f (Suc count)"
        and "alloc_run io cap first count goal s = alloc_run io cap f (Suc count) gl s1" for s1 f gl
    proof -
      have "cap - Suc count < cap - count" "Suc count \<le> cap" using lt by simp_all
      from less.hyps [OF this(1) that(2) this(2), of gl] that(1,3) show ?thesis
        using same_nodes_trans by fastforce
    qed
    from al show ?thesis
    proof (cases rule: alloc_block_cases [where goal = goal and s = s])
      case (fail r pb s1)
      have sn: "same_nodes s s1" "used (env s1) = used (env s)"
        using same_nodes_calm [OF fail(3)] fail(3) by (simp_all add: calm_def)
      have g1: "grabbed io used U s1 first count" using g sn(2) by (simp add: grabbed_def)
      show ?thesis
      proof (cases "count = 0")
        case True
        then have "alloc_run io cap first count goal s = (Inl r, s1)"
          using lt fail(1,2) by (subst alloc_run.simps) simp
        moreover have "used (env s1) = U" using g1 True by (simp add: grabbed_def)
        ultimately show ?thesis using sn(1) fail(4) by simp
      next
        case c0: False
        show ?thesis
        proof (cases "r = ENOSPC")
          case True
          then have "alloc_run io cap first count goal s = (Inr (first, count), s1)"
            using lt fail(1,2) c0 by (subst alloc_run.simps) simp
          with sn(1) g1 c0 lt show ?thesis by simp
        next
          case False
          have "count \<le> 32768" using lt cap(2) by simp
          from grabbed_release [OF fl g1 this] obtain s2 where
            s2: "ext4_balloc_free_blocks io first (of_nat count) s1 = (EOK, s2)" "same_nodes s1 s2" "used (env s2) = U"
            by blast
          then have "alloc_run io cap first count goal s = (Inl r, s2)"
            using lt fail(1,2) c0 False by (subst alloc_run.simps) simp
          with same_nodes_trans [OF sn(1) s2(2)] s2(3) fail(4) show ?thesis by simp
        qed
      qed
    next
      case (ok pb s1)
      have sn: "same_nodes s s1" using ok by (simp add: same_nodes_def)
      show ?thesis
      proof (cases "count = 0")
        case True
        then have "grabbed io used U s1 pb (Suc count)"
          using grabbed_first [OF _ ok(5,6,8,9,7)] g by simp
        moreover have "alloc_run io cap first count goal s = alloc_run io cap pb (Suc count) (pb + 1) s1"
          using lt ok(1) True by (subst alloc_run.simps) simp
        ultimately show ?thesis using sn by (intro step)
      next
        case c0: False
        then have c: "0 < count" by simp
        show ?thesis
        proof (cases "pb = first + of_nat count")
          case True
          have "grabbed io used U s1 first (Suc count)"
            using ok(5,6,8,9) unfolding True by (intro grabbed_more [OF g c])
          moreover have "alloc_run io cap first count goal s = alloc_run io cap first (Suc count) (pb + 1) s1"
            using lt ok(1) c0 by (subst alloc_run.simps) (simp add: True)
          ultimately show ?thesis using sn by (intro step)
        next
          case False
          have "pb \<in> used (env s1)" using ok(5) by simp
          from free_block_ok [OF fl this] obtain s2 where
            s2: "ext4_balloc_free_block io pb s1 = (EOK, s2)" "same_nodes s1 s2" "used (env s2) = used (env s1) - {pb}"
            by blast
          then have "alloc_run io cap first count goal s = (Inr (first, count), s2)"
            using lt ok(1) c0 False by (subst alloc_run.simps) simp
          moreover have "used (env s2) = used (env s)" using s2(3) ok(5,6) by auto
          then have "grabbed io used U s2 first count" using g by (simp add: grabbed_def)
          ultimately show ?thesis using same_nodes_trans [OF sn s2(2)] c lt by simp
        qed
      qed
    qed
  qed
qed

section \<open>How many blocks fit\<close>

lemma alloc_cap_ok:
  assumes io: "io_reliable io" "alloc_laws io used" and w: "walked s lb p ns" and inv: "tree_inv (sb io) used s"
    and small: "\<forall>e \<in> set (tree_extents s). e_end e < 2 ^ 32" and none: "tree_map s (unat lb) = None"
  shows "\<exists>cap s'. alloc_cap io p lb mx s = (Inr cap, s') \<and> calm used s s'
    \<and> unat cap \<le> min (unat mx) 32768 \<and> (0 < unat mx \<longrightarrow> 0 < unat cap)
    \<and> (\<forall>i. unat lb \<le> i \<longrightarrow> i < unat lb + unat cap \<longrightarrow> tree_map s i = None)"
proof -
  let ?E = "tree_extents s" and ?n = "leaf_of p" and ?k = "found_pos s p ns"
  define c :: u32 where "c = (if mx < 32768 then mx else 32768)"
  have c: "unat c = min (unat mx) 32768" by (simp add: c_def word_less_nat_alt)
  have bound: "unat (min c (f - lb)) = min (unat c) (unat f - unat lb)" if "lb < f" for f :: u32
    using that by (simp add: unat_min unat_sub word_le_nat_alt word_less_nat_alt)
  have ok: "extents_ok (sb_blocks_cnt (sb io)) ?E" using walkedE(5) [OF w inv] .
  then have srt: "sorted_extents ?E" by (simp add: extents_ok_def)
  show ?thesis
  proof (cases "?E = []")
    case True
    have "leaves (nodes s (pblock_of_node ?n)) = []"
      using walkedE(2) [OF w inv] True by (simp add: lookup_split_def)
    then have "\<not> have_extent ?n" using found_leaf_leaves(2) [OF walkedE(3) [OF w inv]] by simp
    then have "alloc_cap io p lb mx s = (Inr c, s)"
      by (simp add: alloc_cap_def Let_def c_def)
    with c True show ?thesis by (auto simp: tree_map_def)
  next
    case False
    note fp = found_pos [OF w inv False]
    have k: "?k < length ?E" using fp(1) by (simp add: search_pos_def)
    let ?ex = "extent ?n"
    have ex: "?ex = ?E ! ?k" "?ex \<in> set ?E" "e_end ?ex < 2 ^ 32" using fp(2) k small by simp_all
    have nc: "\<not> ext_covers ?ex (unat lb)"
      using none search_pos_map [OF srt fp(1)] by (simp add: tree_map_def ex(1) ext_covers_def split: if_splits)
    have out: "tree_map s i = None" if "search_pos ?E i ?k" "\<not> ext_covers ?ex i" for i
      using search_pos_map [OF srt that(1)] that(2) by (simp add: tree_map_def ex(1) ext_covers_def)
    have cw: "e_first ?ex \<le> unat lb \<longleftrightarrow> \<not> lb < first_block ?ex"
      by (auto simp: e_first_def word_less_nat_alt)
    have h: "have_extent ?n" "0 < entries_count (header ?n)" "0 < unat (entries_count (header ?n))"
      using fp(3,4) by (simp_all add: word_neq_0_conv unat_gt_0)
    show ?thesis
    proof (cases "lb < first_block ?ex")
      case True
      then have eq: "alloc_cap io p lb mx s = (Inr (min c (first_block ?ex - lb)), s)"
        using h by (simp add: alloc_cap_def Let_def c_def)
      have k0: "?k = 0" using fp(1) True cw by (auto simp: search_pos_def ex(1))
      have "tree_map s i = None" if "i < unat (first_block ?ex)" for i
      proof (rule out)
        show "\<not> ext_covers ?ex i" using that by (simp add: ext_covers_def e_first_def)
        have "i < e_first (?E ! 1)" if "1 < length ?E"
          using sorted_extents_nth [OF srt, of 0 1] that \<open>i < unat (first_block ?ex)\<close> k0 ex(1) e_first_le_end [of ?ex]
          by (simp add: e_first_def)
        with k k0 show "search_pos ?E i ?k" by (simp add: search_pos_def)
      qed
      with eq bound [OF True] c True show ?thesis
        by (intro exI [of _ "min c (first_block ?ex - lb)"] exI [of _ s]) (auto simp: word_less_nat_alt)
    next
      case behind: False
      then have e_le: "e_end ?ex \<le> unat lb" using nc cw by (simp add: ext_covers_def not_less)
      obtain s1 where s1: "find_next_extent io p s = ((if Suc ?k < length ?E then Inr (?E ! Suc ?k) else Inl ENOENT), s1)"
        "calm used s s1" using find_next_extent_ok [OF io w inv False] by blast
      have gap: "tree_map s i = None"
        if "unat lb \<le> i" "Suc ?k < length ?E \<Longrightarrow> i < e_first (?E ! Suc ?k)" for i
      proof (rule out)
        show "\<not> ext_covers ?ex i" using that(1) e_le by (simp add: ext_covers_def)
        show "search_pos ?E i ?k" using fp(1) that by (auto simp: search_pos_def)
      qed
      have lt_next: "lb < first_block (?E ! Suc ?k)" if "Suc ?k < length ?E"
        using fp(1) that by (simp add: search_pos_def e_first_def word_less_nat_alt)
      have inner: "Suc ?k < length ?E" if "position ?n + 1 < unat (entries_count (header ?n))"
        using that walkedE(2) [OF w inv] found_leaf_leaves(3) [OF walkedE(3) [OF w inv]]
        by (simp add: lookup_split_def found_pos_def)
      have eq: "alloc_cap io p lb mx s
          = (Inr (if Suc ?k < length ?E then min c (first_block (?E ! Suc ?k) - lb) else c), s1)"
      proof (cases "position ?n + 1 < unat (entries_count (header ?n))")
        case True
        then have "node_get_extent io ?n (position ?n + 1) s = (Inr (?E ! Suc ?k), s1)"
          using s1(1) inner [OF True] by (simp add: find_next_extent_def Let_def)
        with True behind h inner [OF True] show ?thesis by (simp add: alloc_cap_def Let_def c_def)
      next
        case False
        have "\<not> first_block (?E ! Suc ?k) \<le> lb" if "Suc ?k < length ?E" using lt_next [OF that] by simp
        with False behind h s1(1) show ?thesis by (simp add: alloc_cap_def Let_def c_def)
      qed
      show ?thesis
      proof (cases "Suc ?k < length ?E")
        case True
        note lt = lt_next [OF True]
        have "tree_map s i = None" if "unat lb \<le> i" "i < unat (first_block (?E ! Suc ?k))" for i
          using gap [OF that(1)] that(2) by (simp add: e_first_def)
        with eq True bound [OF lt] c lt s1(2) show ?thesis
          by (intro exI [of _ "min c (first_block (?E ! Suc ?k) - lb)"] exI [of _ s1]) (auto simp: word_less_nat_alt)
      next
        case False
        with eq c s1(2) gap show ?thesis by (intro exI [of _ c] exI [of _ s1]) auto
      qed
    qed
  qed
qed

section \<open>The new extent\<close>

definition fresh_extent :: "u32 \<Rightarrow> u64 \<Rightarrow> nat \<Rightarrow> ext4_extent" where
  "fresh_extent ib pb n = extent_store_pblock pb (empty_extent\<lparr>first_block := ib, block_count := of_nat n\<rparr>)"

lemma fresh_extent_fields:
  assumes "0 < n" "n \<le> 32768" "unat pb < 2 ^ 48"
  shows "first_block (fresh_extent ib pb n) = ib" "e_first (fresh_extent ib pb n) = unat ib"
    "e_len (fresh_extent ib pb n) = n" "e_phys (fresh_extent ib pb n) = unat pb"
    "\<not> extent_is_unwritten (fresh_extent ib pb n)"
proof -
  have bc: "block_count (fresh_extent ib pb n) = of_nat n" "first_block (fresh_extent ib pb n) = ib"
    by (simp_all add: fresh_extent_def extent_store_pblock_def)
  have un: "unat (of_nat n :: u16) = n" using assms(2) by (simp add: unat_of_nat)
  then show uw: "\<not> extent_is_unwritten (fresh_extent ib pb n)"
    using assms(2) by (simp add: extent_is_unwritten_def bc word_less_nat_alt)
  show "e_len (fresh_extent ib pb n) = n"
    using uw un by (simp add: e_len_def extent_get_actual_len_def bc)
  show "first_block (fresh_extent ib pb n) = ib" "e_first (fresh_extent ib pb n) = unat ib"
    by (simp_all add: e_first_def bc)
  have "extent_get_pblock (fresh_extent ib pb n) = take_bit 48 pb"
    by (simp add: fresh_extent_def extent_pblock_trunc)
  also have "unat (take_bit 48 pb) = unat pb" using assms(3) by (simp add: unsigned_take_bit_eq take_bit_nat_eq_self)
  finally show "e_phys (fresh_extent ib pb n) = unat pb" by (simp add: e_phys_def)
qed

section \<open>ext4_extent_get_blocks with create\<close>

text \<open>The map after \<open>n\<close> blocks from \<open>pb\<close> were mapped at \<open>ib\<close>.\<close>

definition map_run :: "nat \<Rightarrow> nat \<Rightarrow> nat \<Rightarrow> (nat \<Rightarrow> (nat \<times> bool) option) \<Rightarrow> nat \<Rightarrow> (nat \<times> bool) option" where
  "map_run ib pb n m lb = (if ib \<le> lb \<and> lb < ib + n then Some (pb + (lb - ib), False) else m lb)"

definition journaled :: "'e lwext4 \<Rightarrow> bool" where
  "journaled io \<longleftrightarrow> journaling_enable io \<and> (\<forall>e. journal_active io e)"

text \<open>What an allocating lookup of an unmapped block may report.\<close>

definition block_mapped :: "'e lwext4 \<Rightarrow> ('e \<Rightarrow> u64 set) \<Rightarrow> u32 \<Rightarrow> u32 \<Rightarrow> 'e istate
    \<Rightarrow> errno + u64 \<times> u32 \<Rightarrow> 'e istate \<Rightarrow> bool" where
  "block_mapped io used ib mx s r s' \<longleftrightarrow> space_inv (sb io) used s' \<and> others used s' = others used s \<and> (case r of
      Inl e \<Rightarrow> tree_map s' = tree_map s \<and> (e = EFBIG \<or> alloc_error io e)
    | Inr (pb, n) \<Rightarrow> 0 < n \<and> n \<le> mx \<and> n \<le> 32768 \<and> tree_map s' = map_run (unat ib) (unat pb) (unat n) (tree_map s)
        \<and> (\<forall>i. unat ib \<le> i \<longrightarrow> i < unat ib + unat n \<longrightarrow> tree_map s i = None)
        \<and> run_set pb (unat n) \<inter> used (env s) = {} \<and> run_set pb (unat n) \<subseteq> used (env s'))"

lemma insert_grabbed:
  assumes io: "io_reliable io" "alloc_laws io used" "free_laws io used" "block_size_ok (sb io)"
    and inv: "space_inv (sb io) used s" and g: "grabbed io used (used (env s)) s1 pb n" and sn: "same_nodes s s1"
    and n: "0 < n" "n \<le> unat mx" "n \<le> 32768" and top: "unat ib + n < 2 ^ 32" "tree_map s (2 ^ 32 - 1) = None"
    and gap: "\<forall>i. unat ib \<le> i \<longrightarrow> i < unat ib + n \<longrightarrow> tree_map s i = None"
  defines "x \<equiv> fresh_extent ib pb n"
  shows "\<exists>r s'. (case insert_extent io ib x s1 of (r, s4) \<Rightarrow>
      if r \<noteq> EOK then
        (case ext4_balloc_free_blocks io pb (of_nat n) s4 of (free_r, s5) \<Rightarrow>
         (Inl (if free_r \<noteq> EOK then free_r else r), s5))
      else (Inr (pb, of_nat n), s4)) = (r, s') \<and> block_mapped io used ib mx s r s'"
proof -
  let ?U = "used (env s)" and ?R = "{unat pb..<unat pb + n}"
  have gr: "used (env s1) = ?U \<union> run_set pb n" "run_set pb n \<inter> ?U = {}" "pb \<noteq> 0"
    "unat pb + n \<le> unat (sb_blocks_cnt (sb io))" "unat pb + n \<le> 2 ^ 48"
    using g n(1) by (simp_all add: grabbed_def)
  have unR: "unat ` run_set pb n = ?R" using gr(5) by (intro unat_run_set) simp
  have pb: "unat pb < 2 ^ 48" using gr(5) n(1) by simp
  note x = fresh_extent_fields [OF n(1,3) pb, of ib, folded x_def]
  have un: "unat (of_nat n :: u32) = n" using n(3) by (simp add: unat_of_nat)
  note tn = tree_same_nodes [OF sn]
  have s: "tree_inv (sb io) used s" "data_blocks (tree_map s) \<subseteq> unat ` ?U"
    using inv by (simp_all add: space_inv_def)
  have offU: "A \<inter> ?R = {}" if "A \<subseteq> insert 0 (unat ` ?U)" for A
  proof -
    have "unat ` ?U \<inter> ?R = {}" unfolding unR [symmetric] using gr(2)
      by (auto dest!: word_unat_eq_iff [THEN iffD2])
    moreover have "0 \<notin> ?R" using gr(3) by (simp add: unat_eq_zero)
    ultimately show ?thesis using that by blast
  qed
  have tb: "tree_blocks s \<subseteq> insert 0 ?U" using s(1) by (rule tree_blocks_used)
  have off: "data_blocks (tree_map s) \<inter> ?R = {}" "unat ` tree_blocks s \<inter> ?R = {}"
  proof -
    have "data_blocks (tree_map s) \<subseteq> insert 0 (unat ` ?U)" "unat ` tree_blocks s \<subseteq> insert 0 (unat ` ?U)"
      using s(2) tb by force+
    then show "data_blocks (tree_map s) \<inter> ?R = {}" "unat ` tree_blocks s \<inter> ?R = {}"
      by (simp_all only: offU)
  qed
  have inv1: "space_inv (sb io) used s1"
    using space_inv_used [OF inv sn] tb s(2) by (auto simp: gr(1))
  have "mappable (sb_blocks_cnt (sb io)) (tree_map s1) x"
    using gap top gr(3,4) n(1) x
    by (auto simp: tn mappable_def extent_ok_def ext_covers_def e_end_def unat_gt_0)
  then obtain r s4 where r: "insert_extent io ib x s1 = (r, s4)" "insertion io used x s1 r s4"
    using insert_mappable [OF io(1,2,4), of s1 x] inv1 x(1) by (auto simp: space_inv_def)
  have Rx: "{e_phys x..<e_phys x + e_len x} = ?R" by (simp add: x)
  have gapx: "\<forall>lb. ext_covers x lb \<longrightarrow> tree_map s lb = None"
    using gap x by (simp add: ext_covers_def e_end_def)
  note is4 = insertion_space [OF inv1 r(2), unfolded Rx tn, OF gapx]
  have ot: "{b \<in> others used s1. b \<notin> run_set pb n} = others used s"
    unfolding others_same_nodes [OF sn] gr(1) using gr(2) by (auto simp: others_def)
  have oR: "unat b \<in> ?R \<longleftrightarrow> b \<in> run_set pb n" for b by (simp add: run_set_def)
  note io4 = insertion_others [OF r(2), unfolded tn, OF gapx, unfolded Rx oR]
  have in_use: "?R \<subseteq> unat ` used (env s1)" unfolding gr(1) unR [symmetric] by auto
  have sp4: "space_inv (sb io) used s4" using is4(1) in_use off by simp
  have tk: "used (env s1) \<subseteq> used (env s4)" using r(2) by (simp add: insertion_def takes_new_def)
  show ?thesis
  proof (cases "r = EOK")
    case True
    have "tree_map s4 = map_run (unat ib) (unat pb) n (tree_map s)"
      using r(2) True by (auto simp: insertion_def tn map_run_def map_insert_def ext_covers_def e_end_def x fun_eq_iff)
    moreover have "of_nat n \<le> mx" "of_nat n \<le> (32768 :: u32)" "(0 :: u32) < of_nat n"
      using n by (simp_all add: word_le_nat_alt word_less_nat_alt un)
    ultimately have "block_mapped io used ib mx s (Inr (pb, of_nat n)) s4"
      using sp4 gap gr(1,2) tk io4 True ot by (auto simp: block_mapped_def un)
    with r(1) True show ?thesis by simp
  next
    case False
    have m4: "tree_map s4 = tree_map s" "r = EFBIG \<or> alloc_error io r"
      using r(2) False by (auto simp: insertion_def no_room_def tn)
    have "run_set pb n \<subseteq> used (env s4)" using gr(1) tk by auto
    then obtain s5 where s5: "ext4_balloc_free_blocks io pb (of_nat n) s4 = (EOK, s5)" "same_nodes s4 s5"
      "used (env s5) = used (env s4) - run_set pb n" using free_blocks_ok [OF io(3), of pb "of_nat n" s4] by (auto simp: un)
    have "unat ` tree_blocks s4 \<inter> unat ` run_set pb n = {}"
      unfolding unR using is4(2) in_use off False by simp
    then have t5: "tree_blocks s4 \<subseteq> insert 0 (used (env s5))"
      using sp4 tree_blocks_used [of "sb io" used s4] by (auto simp: space_inv_def s5(3))
    have "data_blocks (tree_map s) \<subseteq> unat ` used (env s5)"
    proof -
      have "unat ` ?U \<subseteq> unat ` used (env s5)" using gr(1,2) tk by (auto simp: s5(3))
      with s(2) show ?thesis by blast
    qed
    moreover have "others used s5 = others used s"
      using io4 False ot unfolding others_same_nodes [OF s5(2)] s5(3) by (auto simp: others_def)
    ultimately have "block_mapped io used ib mx s (Inl r) s5"
      using space_inv_used [OF sp4 s5(2) t5] m4 by (simp add: block_mapped_def tree_same_nodes [OF s5(2)])
    with r(1) False s5(1) show ?thesis by simp
  qed
qed

lemma get_blocks_create:
  assumes io: "io_reliable io" "alloc_laws io used" "free_laws io used" "block_size_ok (sb io)" "journaled io"
    and inv: "space_inv (sb io) used s" and top: "tree_map s (2 ^ 32 - 1) = None"
    and range: "0 < mx" "unat ib + min (unat mx) 32768 < 2 ^ 32"
  shows "\<exists>r s'. ext4_extent_get_blocks io ib mx True s = (r, s')
    \<and> (case tree_map s (unat ib) of
        None \<Rightarrow> block_mapped io used ib mx s r s'
      | Some (p, True) \<Rightarrow> r = Inl ENOTSUP \<and> calm used s s'
      | Some (p, False) \<Rightarrow> (\<exists>pb n. r = Inr (pb, n) \<and> lookup_answer (tree_extents s) ib mx pb n) \<and> calm used s s')"
proof -
  have ti: "tree_inv (sb io) used s" using inv by (simp add: space_inv_def)
  note to = tree_inv_tree_ok(1) [OF ti]
  have srt: "sorted_extents (tree_extents s)" "extents_ok (sb_blocks_cnt (sb io)) (tree_extents s)"
    using to by (simp_all add: tree_ok_def extents_ok_def)
  have small: "\<forall>e \<in> set (tree_extents s). e_end e < 2 ^ 32" using ends_below_top [OF ti top] by blast
  obtain p s1 ns where f: "find_extent io ib s = (Inr p, s1)" "calm used s s1" "walked s ib p ns"
    using find_extent_walked [OF io(1,2) ti] by blast
  note d = find_extent_decides [OF to f(1)]
  let ?n = "leaf_of p" and ?ex = "extent (leaf_of p)"
  have have_n: "have_extent ?n = (0 < entries_count (header ?n))"
    using d(2) by (simp add: found_leaf_def Let_def word_neq_0_conv)
  have cw: "have_extent ?n \<Longrightarrow> (first_block ?ex \<le> ib \<and> ib < first_block ?ex + ucast (extent_get_actual_len ?ex))
      = ext_covers ?ex (unat ib)"
    using covers_word d(3) small by blast
  show ?thesis
  proof (cases "tree_map s (unat ib)")
    case None
    have hole: "\<not> (have_extent ?n \<and> 0 < entries_count (header ?n) \<and> first_block ?ex \<le> ib
        \<and> ib < first_block ?ex + ucast (extent_get_actual_len ?ex))"
      using cw d(3) None by (auto simp: ext_covers_def split: if_splits)
    have inv1: "space_inv (sb io) used s1" using inv space_inv_calm [OF f(2)] by simp
    have w1: "walked s1 ib p ns" using f(3) walked_calm [OF f(2)] by simp
    note c1 = calm_inv [OF f(2)]
    obtain cap s2 where c: "alloc_cap io p ib mx s1 = (Inr cap, s2)" "calm used s1 s2"
      "unat cap \<le> min (unat mx) 32768" "0 < unat cap"
      "\<forall>i. unat ib \<le> i \<longrightarrow> i < unat ib + unat cap \<longrightarrow> tree_map s i = None"
      using alloc_cap_ok [OF io(1,2) w1, of mx] ti small None range(1) by (auto simp: c1 word_less_nat_alt)
    have cm: "calm used s s2" using f(2) c(2) by (rule calm_trans)
    have inv2: "space_inv (sb io) used s2" using inv space_inv_calm [OF cm] by simp
    note c2 = calm_inv [OF cm]
    have "grabbed io used (used (env s2)) s2 0 0" by (simp add: grabbed_def)
    moreover define gl where "gl = (if have_extent ?n \<and> entries_count (header ?n) > 0
        \<and> first_block ?ex + ucast (extent_get_actual_len ?ex) = ib
      then extent_get_pblock ?ex + ucast (extent_get_actual_len ?ex) else fs_inode_to_goal_block io s2)"
    ultimately obtain r s3 where r: "alloc_run io (unat cap) 0 0 gl s2 = (r, s3)" "same_nodes s2 s3"
      "case r of Inl e \<Rightarrow> alloc_error io e \<and> used (env s3) = used (env s2)
       | Inr (f, n) \<Rightarrow> 0 < n \<and> n \<le> unat cap \<and> grabbed io used (used (env s2)) s3 f n"
      using alloc_run_ok [OF io(2,3) c(4), of "used (env s2)" s2 0 0 gl] c(3) by auto
    have jr: "require_journaled_mutation io s1 = EOK"
      using io(5) by (simp add: require_journaled_mutation_def journaled_def)
    have cap0: "cap \<noteq> 0" using c(4) by auto
    have eq: "ext4_extent_get_blocks io ib mx True s = (case alloc_run io (unat cap) 0 0 gl s2 of
        (Inl r, s3) \<Rightarrow> (Inl r, s3)
      | (Inr (pb, n), s3) \<Rightarrow> if n = 0 then (Inl ENOSPC, s3) else
          (case insert_extent io ib (fresh_extent ib pb n) s3 of (r, s4) \<Rightarrow>
            if r \<noteq> EOK then
              (case ext4_balloc_free_blocks io pb (of_nat n) s4 of (free_r, s5) \<Rightarrow>
               (Inl (if free_r \<noteq> EOK then free_r else r), s5))
            else (Inr (pb, of_nat n), s4)))"
      using f(1) hole jr c(1) cap0
      by (auto simp: ext4_extent_get_blocks_def Let_def fresh_extent_def gl_def split: prod.splits sum.splits)
    show ?thesis
    proof (cases r)
      case (Inl e)
      then have u3: "used (env s3) = used (env s2)" "alloc_error io e" using r(3) by simp_all
      have "others used s3 = others used s"
        using others_calm [OF cm] unfolding others_same_nodes [OF r(2)] u3(1) by (simp add: others_def)
      moreover have "space_inv (sb io) used s3"
        using inv2 tree_blocks_used [of "sb io" used s2] by (intro space_inv_used [OF inv2 r(2)]) (auto simp: space_inv_def u3)
      ultimately have "block_mapped io used ib mx s (Inl e) s3"
        using u3(2) tree_same_nodes [OF r(2)] by (simp add: block_mapped_def c2)
      with None eq r(1) Inl show ?thesis by simp
    next
      case (Inr q)
      then obtain pb n where q: "r = Inr (pb, n)" by (cases q) simp
      then have n: "0 < n" "n \<le> unat cap" "grabbed io used (used (env s2)) s3 pb n" using r(3) by simp_all
      have "n \<le> unat mx" "n \<le> 32768" "unat ib + n < 2 ^ 32" using n(2) c(3) range(2) by auto
      note b = this
      have gap: "\<forall>i. unat ib \<le> i \<longrightarrow> i < unat ib + n \<longrightarrow> tree_map s2 i = None" using c(5) n(2) by (auto simp: c2)
      have top2: "tree_map s2 (2 ^ 32 - 1) = None" using top by (simp add: c2)
      from insert_grabbed [OF io(1-4) inv2 n(3) r(2) n(1) b top2 gap] obtain r' s' where
        "(case insert_extent io ib (fresh_extent ib pb n) s3 of (r, s4) \<Rightarrow>
            if r \<noteq> EOK then
              (case ext4_balloc_free_blocks io pb (of_nat n) s4 of (free_r, s5) \<Rightarrow>
               (Inl (if free_r \<noteq> EOK then free_r else r), s5))
            else (Inr (pb, of_nat n), s4)) = (r', s')" "block_mapped io used ib mx s2 r' s'" by blast
      moreover have "block_mapped io used ib mx s2 r' s' = block_mapped io used ib mx s r' s'"
      proof -
        have "used (env s2) = used (env s)" using cm by (simp add: calm_def)
        then show ?thesis by (simp only: block_mapped_def c2(4) others_calm [OF cm])
      qed
      ultimately show ?thesis using None eq r(1) q n(1) by simp
    qed
  next
    case (Some a)
    have h: "have_extent ?n" "ext_covers ?ex (unat ib)" "?ex \<in> set (tree_extents s)"
      using Some d(3,4) by (cases "have_extent ?n"; auto simp: ext_covers_def tree_map_def split: if_splits)+
    have uw: "snd a = extent_is_unwritten ?ex"
      using Some ext_map_member [OF srt(1) h(3,2)] by (auto simp: tree_map_def)
    have hit: "have_extent ?n \<and> 0 < entries_count (header ?n) \<and> first_block ?ex \<le> ib
        \<and> ib < first_block ?ex + ucast (extent_get_actual_len ?ex)"
      using h(1,2) have_n cw by simp
    show ?thesis
    proof (cases "snd a")
      case True
      then have "ext4_extent_get_blocks io ib mx True s = (Inl ENOTSUP, s1)"
        using f(1) hit uw by (simp add: ext4_extent_get_blocks_def Let_def)
      with Some True f(2) show ?thesis by (cases a) simp
    next
      case False
      then have "ext4_extent_get_blocks io ib mx True s = (Inr (extent_get_pblock ?ex + ucast (ib - first_block ?ex),
          min mx (ucast (extent_get_actual_len ?ex) - (ib - first_block ?ex))), s1)"
        using f(1) hit uw by (simp add: ext4_extent_get_blocks_def Let_def)
      with Some False f(2) lookup_answer_covered [OF srt(1) h(3) _ h(2)] small h(3) uw show ?thesis
        by (cases a) auto
    qed
  qed
qed

end
