(* ===== verification/Extent_Clear.thy ===== *)
theory Extent_Clear
  imports Extent_Carve Extent_Alloc
begin

text \<open>
  The loop of ext4_extent_remove_space on trees of any depth: it ends, it removes the range,
  and it can only fail, with nothing removed, when the range lies inside one extent and there
  is no room for the second half of it.
\<close>

section \<open>The loop\<close>

text \<open>No extent begins before \<open>f\<close> and goes on behind it.\<close>

definition aligned :: "u32 \<Rightarrow> ext4_extent list \<Rightarrow> bool" where
  "aligned f es \<longleftrightarrow> (\<forall>e \<in> set es. \<not> (e_first e < unat f \<and> unat f < e_end e))"

text \<open>The range lies strictly inside one extent, which a removal has to split.\<close>

definition inner :: "u32 \<Rightarrow> u32 \<Rightarrow> ext4_extent list \<Rightarrow> bool" where
  "inner f t es \<longleftrightarrow> (\<exists>e \<in> set es. e_first e < unat f \<and> unat f \<le> unat t \<and> unat t + 1 < e_end e)"

lemma aligned_not_inner: "aligned f es \<Longrightarrow> \<not> inner f t es"
  by (force simp: aligned_def inner_def)

lemma aligned_first:
  assumes "sorted_extents es" "k < length es"
  shows "aligned (first_block (es ! k)) es"
  unfolding aligned_def
proof
  fix e assume "e \<in> set es"
  then obtain i where i: "i < length es" "e = es ! i" by (auto simp: in_set_conv_nth)
  consider "i < k" | "k \<le> i" by linarith
  then show "\<not> (e_first e < unat (first_block (es ! k)) \<and> unat (first_block (es ! k)) < e_end e)"
  proof cases
    case 1
    with sorted_extents_nth [OF assms(1), of i k] assms(2) i show ?thesis by (simp add: e_first_def)
  next
    case 2
    with sorted_first_le [OF assms(1), of k i] i show ?thesis by (simp add: e_first_def)
  qed
qed

lemma aligned_cut:
  assumes rem: "removable fs es" and sp: "search_pos es (unat f) pos"
    and hit: "first_block (es ! pos) \<le> e_last (es ! pos)" "f \<le> e_last (es ! pos)"
    and os: "one_sided f (e_last (es ! pos)) (es ! pos)" and g: "unat g = unat (e_last (es ! pos)) + 1"
  shows "aligned g (cut_list f (e_last (es ! pos)) es)"
  unfolding aligned_def
proof
  let ?r = "e_last (es ! pos)"
  have pos: "pos < length es" using sp by (simp add: search_pos_def)
  note ok = removable_nth [OF rem pos]
  have e: "unat g = e_end (es ! pos)" "unat ?r = e_end (es ! pos) - 1"
    using unat_e_last [of "es ! pos"] ok g by (auto simp: e_end_def)
  have fr: "unat f \<le> unat ?r" using hit(2) by (simp add: word_le_nat_alt)
  note c = cut_at_found [OF rem sp hit(2,1) hit(2) order_refl os]
  have "cuttable fs f ?r (es ! pos)" using c(4) pos by simp
  note pc = cut_pieces_spec(3) [OF this hit]
  fix x assume "x \<in> set (cut_list f ?r es)"
  then consider "x \<in> set (take pos es)" | "x \<in> set (cut_pieces f ?r (es ! pos))" | "x \<in> set (drop (Suc pos) es)"
    unfolding c(2) by auto
  then show "\<not> (e_first x < unat g \<and> unat g < e_end x)"
  proof cases
    case 1
    with before_found(1) [OF rem sp 1] fr e show ?thesis by auto
  next
    case 2
    with pc [OF 2] e show ?thesis by simp
  next
    case 3
    with behind_found [OF rem pos 3] e show ?thesis by simp
  qed
qed

text \<open>The iteration of the loop, read off at the found extent.\<close>

lemma remove_space_loop_hit:
  assumes "find_extent io f s = (Inr p, s1)" "have_extent (leaf_of p)" "entries_count (header (leaf_of p)) \<noteq> 0"
    and "f \<le> t" "first_block (extent (leaf_of p)) \<le> t"
  defines "x \<equiv> extent (leaf_of p)"
  shows "remove_space_loop (Suc fuel) io f t s =
    (if first_block x < f \<and> t < e_last x then Some (remove_middle_of_extent io f t s1)
     else if e_last x < f then
       (case find_next_extent io p s1 of
          (Inl r, s2) \<Rightarrow> if r = ENOENT then Some (EOK, s2) else Some (r, s2)
        | (Inr next, s2) \<Rightarrow> remove_space_loop fuel io (first_block next) t s2)
     else
       let r = (if e_last x < t then e_last x else t) in
       case remove_leaf io p f r s1 of (q, s2) \<Rightarrow>
       if q \<noteq> EOK then Some (q, s2)
       else if r = 0xFFFFFFFF then Some (EOK, s2)
       else remove_space_loop fuel io (r + 1) t s2)"
proof -
  have el: "first_block x + ucast (extent_get_actual_len x) - 1 = e_last x" by (simp add: e_last_def)
  show ?thesis
    using assms(2-4)
    by (simp only: remove_space_loop.simps assms(1) prod.case sum.case Let_def x_def [symmetric] el if_True
        if_False leD [OF assms(5) [folded x_def]] simp_thms)
qed

lemma remove_space_loop_miss:
  assumes "find_extent io f s = (Inr p, s1)" "\<not> (f \<le> t \<and> have_extent (leaf_of p) \<and> first_block (extent (leaf_of p)) \<le> t)"
  shows "\<exists>s'. remove_space_loop (Suc fuel) io f t s = Some (EOK, s') \<and> (s' = s \<or> s' = s1)"
  using assms by (auto simp: Let_def not_le)

text \<open>In front of the found extent nothing is mapped when the extent lies behind the range.\<close>

lemma nothing_before:
  assumes "sorted_extents es" "search_pos es (unat f) pos" "t < first_block (es ! pos)" "unat f \<le> lb" "lb \<le> unat t"
  shows "ext_map es lb = None"
proof (rule ext_map_below)
  have "pos = 0"
    using assms(2-5) by (auto simp: search_pos_def e_first_def word_le_nat_alt word_less_nat_alt)
  show "\<forall>e \<in> set es. lb < e_first e"
  proof
    fix e assume "e \<in> set es"
    then obtain i where "i < length es" "e = es ! i" by (auto simp: in_set_conv_nth)
    then have "e_first (es ! pos) \<le> e_first e" using sorted_first_le [OF assms(1), of 0 i] \<open>pos = 0\<close> by simp
    with assms(3,5) show "lb < e_first e" by (simp add: e_first_def word_less_nat_alt)
  qed
qed

lemma remove_space_loop_deep:
  assumes io: "io_reliable io" "alloc_laws io used" "block_size_ok (sb io)" and fl: "free_laws io used"
  shows "space_inv (sb io) used s \<Longrightarrow> removable (sb_blocks_cnt (sb io)) (tree_extents s) \<Longrightarrow>
    weight f (tree_extents s) < fuel \<Longrightarrow>
    \<exists>r s'. remove_space_loop fuel io f t s = Some (r, s') \<and> trimmed io used f t s r s'
      \<and> (r = EOK \<or> inner f t (tree_extents s))"
proof (induction fuel arbitrary: f s)
  case (Suc fuel)
  let ?b = "sb io" and ?E = "tree_extents s"
  note rem = Suc.prems(2)
  have tree: "tree_inv ?b used s" using Suc.prems(1) by (simp add: space_inv_def)
  have sorted: "sorted_extents ?E" using rem by (rule removable_sorted)
  obtain p s1 ns where fe: "find_extent io f s = (Inr p, s1)" and cm: "calm used s s1" and w0: "walked s f p ns"
    using find_extent_walked [OF io(1,2) tree] by blast
  have w: "walked s1 f p ns" using w0 walked_calm [OF cm] by simp
  have E1: "tree_extents s1 = ?E" and inv1: "space_inv ?b used s1" and tree1: "tree_inv ?b used s1"
    using calm_inv [OF cm] space_inv_calm [OF cm] Suc.prems(1) tree by simp_all
  have map_s: "tree_map s = ext_map ?E" "tree_map s1 = ext_map ?E" by (simp_all add: tree_map_def E1)
  let ?x = "extent (leaf_of p)"
  have he: "have_extent (leaf_of p) = (?E \<noteq> [])"
    unfolding found_leaf_leaves(2) [OF walkedE(3) [OF w0 tree]]
    using walkedE(2) [OF w0 tree] unfolding lookup_split_def by (metis append_is_Nil_conv)
  have sp: "search_pos ?E (unat f) (found_pos s1 p ns)" and xE: "?x = ?E ! found_pos s1 p ns"
    and en: "entries_count (header (leaf_of p)) \<noteq> 0" if "?E \<noteq> []"
    using found_pos [OF w tree1] that by (simp_all add: E1)
  show ?case
  proof (cases "f \<le> t \<and> ?E \<noteq> [] \<and> first_block ?x \<le> t")
    case False
    then have "\<not> (f \<le> t \<and> have_extent (leaf_of p) \<and> first_block ?x \<le> t)" by (simp add: he)
    from remove_space_loop_miss [OF fe this, of fuel]
    obtain s' where s': "remove_space_loop (Suc fuel) io f t s = Some (EOK, s')" "s' = s \<or> s' = s1" by blast
    from s'(2) cm have quiet: "calm used s s'" by (elim disjE) simp_all
    have "tree_map s lb = None" if "unat f \<le> lb" "lb \<le> unat t" for lb
    proof (cases "?E = []")
      case ne: False
      from that have "f \<le> t" by (simp add: word_le_nat_alt)
      with False ne have "t < first_block (?E ! found_pos s1 p ns)" using xE by auto
      from nothing_before [OF sorted sp [OF ne] this that] show ?thesis by (simp add: map_s)
    qed (simp add: map_s)
    from trimmed_nothing [OF Suc.prems(1) this quiet] s'(1) show ?thesis by blast
  next
    case True
    then have ft: "f \<le> t" and ne: "?E \<noteq> []" and first: "first_block ?x \<le> t" by simp_all
    define k where "k = found_pos s1 p ns"
    have sp: "search_pos ?E (unat f) k" and xE: "?x = ?E ! k" using sp [OF ne] xE [OF ne] by (simp_all add: k_def)
    have k: "k < length ?E" using sp by (simp add: search_pos_def)
    note ok = removable_nth [OF rem k, folded xE]
    have first_last: "first_block ?x \<le> e_last ?x"
      using unat_e_last [of ?x] ok by (auto simp: word_le_nat_alt e_end_def e_first_def)
    note step = remove_space_loop_hit [OF fe _ en [OF ne] ft first, of fuel, unfolded he, OF ne]
    consider (middle) "first_block ?x < f \<and> t < e_last ?x"
      | (skip) "\<not> (first_block ?x < f \<and> t < e_last ?x)" "e_last ?x < f"
      | (cut) "\<not> (first_block ?x < f \<and> t < e_last ?x)" "\<not> e_last ?x < f" by blast
    then show ?thesis
    proof cases
      case middle
      have "e_first ?x < unat f" "unat f \<le> unat t" "unat t + 1 < e_end ?x"
        using middle ft unat_e_last [of ?x] ok by (auto simp: e_first_def word_less_nat_alt word_le_nat_alt)
      with nth_mem [OF k] have "inner f t ?E" unfolding inner_def xE [symmetric] by blast
      moreover from trim_middle [OF io fl inv1, unfolded E1, OF rem sp, folded xE, of t] middle ft
      obtain r s' where "remove_middle_of_extent io f t s1 = (r, s')" "trimmed io used f t s1 r s'" by blast
      ultimately show ?thesis
        unfolding step if_P [OF middle] trimmed_calm [OF cm, of io f t] by simp
    next
      case skip
      note gap = gap_unmapped [OF rem sp skip(2) [unfolded xE]]
      note nx = find_next_extent_ok [OF io(1,2) w tree1, unfolded E1, OF ne, folded k_def]
      show ?thesis
      proof (cases "Suc k < length ?E")
        case True
        let ?next = "?E ! Suc k"
        from nx True obtain s2 where s2: "find_next_extent io p s1 = (Inr ?next, s2)" "calm used s1 s2" by auto
        note c2 = calm_trans [OF cm s2(2)]
        have E2: "tree_extents s2 = ?E" using calm_inv(2) [OF c2] .
        have fn: "unat f < unat (first_block ?next)"
          using sp True by (simp add: search_pos_def e_first_def)
        have "\<not> (\<exists>e \<in> set ?E. ext_covers e (unat f))"
          using gap [of "unat f"] fn by (auto simp: ext_map_None e_first_def)
        moreover have "\<exists>e \<in> set ?E. ext_covers e (unat (first_block ?next))"
          using True removable_nth [OF rem True]
          by (intro bexI [of _ ?next]) (auto simp: ext_covers_def e_end_def simp flip: e_first_def)
        ultimately have "weight (first_block ?next) ?E < weight f ?E"
          using fn by (intro weight_skip) simp_all
        then have "weight (first_block ?next) (tree_extents s2) < fuel" using Suc.prems(3) by (simp add: E2)
        from Suc.IH [OF _ _ this] Suc.prems(1) rem aligned_not_inner [OF aligned_first [OF sorted True]]
        obtain s' where s': "remove_space_loop fuel io (first_block ?next) t s2 = Some (EOK, s')"
          "trimmed io used (first_block ?next) t s EOK s'"
          by (auto simp: E2 space_inv_calm [OF c2] trimmed_calm [OF c2])
        have "trimmed io used f t s EOK s'"
        proof (rule trimmed_skip [OF s'(2)])
          fix lb assume "unat f \<le> lb" "lb < unat (first_block ?next)"
          then show "tree_map s lb = None" unfolding map_s by (intro gap) (simp_all add: e_first_def)
        qed (use fn in simp)
        then show ?thesis
          unfolding step if_not_P [OF skip(1)] if_P [OF skip(2)] s2(1) prod.case sum.case s'(1) by blast
      next
        case False
        with nx obtain s2 where s2: "find_next_extent io p s1 = (Inl ENOENT, s2)" "calm used s1 s2" by auto
        have "trimmed io used f t s EOK s2"
          using False by (intro trimmed_nothing [OF Suc.prems(1) _ calm_trans [OF cm s2(2)]]) (simp add: map_s gap)
        then show ?thesis
          unfolding step if_not_P [OF skip(1)] if_P [OF skip(2)] s2(1) prod.case sum.case by simp
      qed
    next
      case cut
      define r where "r = (if e_last ?x < t then e_last ?x else t)"
      have r: "f \<le> r" "first_block ?x \<le> r" "f \<le> e_last ?x" "r \<le> e_last ?x" "r \<le> t"
        using cut ft first first_last by (auto simp: r_def not_less)
      have os: "one_sided f r ?x"
        using cut(1) by (auto simp: one_sided_def r_def not_less split: if_splits)
      from trim_leaf [OF io fl inv1 _ w, unfolded E1, OF rem ne r(1-4) os]
      obtain s2 where s2: "remove_leaf io p f r s1 = (EOK, s2)" "trimmed io used f r s EOK s2"
        "tree_extents s2 = cut_list f r ?E" by (auto simp: trimmed_calm [OF cm])
      have rem2: "removable (sb_blocks_cnt ?b) (tree_extents s2)"
        unfolding s2(3) using cut_at_found(4) [OF rem sp] r(1-4) os by (intro removable_cut [OF rem]) (simp add: xE)
      have inv2: "space_inv ?b used s2" using s2(2) by (simp add: trimmed_def)
      have "unat r < 2 ^ 32 - 1"
        using r(4) ok unat_e_last [of ?x] by (auto simp: word_le_nat_alt)
      then have rS: "unat (r + 1) = unat r + 1" and rm: "r \<noteq> 0xFFFFFFFF"
        by (auto simp: unat_word_ariths)
      have loop: "remove_space_loop (Suc fuel) io f t s = remove_space_loop fuel io (r + 1) t s2"
        unfolding step if_not_P [OF cut(1)] if_not_P [OF cut(2)] r_def [symmetric] Let_def s2(1) prod.case
        using rm by simp
      have "\<exists>s'. remove_space_loop fuel io (r + 1) t s2 = Some (EOK, s') \<and> trimmed io used (r + 1) t s2 EOK s'"
      proof (cases "r = t")
        case True
        have "unat f < e_end ?x"
          using r(3) unat_e_last [of ?x] ok by (auto simp: word_le_nat_alt e_end_def)
        then have "filter (\<lambda>e. unat f < e_end e) ?E \<noteq> []"
          using nth_mem [OF k] by (auto simp: filter_empty_conv xE)
        then have "0 < length (filter (\<lambda>e. unat f < e_end e) ?E)" by simp
        with Suc.prems(3) obtain j where "fuel = Suc j" by (cases fuel) (auto simp: weight_def)
        moreover have "\<not> r + 1 \<le> t" using True rS by (simp add: word_le_nat_alt)
        moreover have "trimmed io used (r + 1) t s2 EOK s2"
          using rS True by (intro trimmed_nothing [OF inv2]) auto
        ultimately show ?thesis by simp
      next
        case False
        then have rl': "r = e_last ?x" by (auto simp: r_def split: if_splits)
        note hit = first_last [unfolded xE] r(3) [unfolded xE] os [unfolded rl' xE] rS [unfolded rl' xE]
        have "weight (r + 1) (tree_extents s2) < fuel"
          using weight_cut [OF rem sp hit] Suc.prems(3) unfolding s2(3) rl' xE by simp
        moreover have "aligned (r + 1) (tree_extents s2)"
          using aligned_cut [OF rem sp hit] unfolding s2(3) rl' xE .
        ultimately show ?thesis using Suc.IH [OF inv2 rem2] aligned_not_inner by blast
      qed
      then show ?thesis
        using trimmed_step [OF s2(2) _ rS r(1,5)] unfolding loop by blast
    qed
  qed
qed simp

section \<open>ext4_extent_remove_space\<close>

lemma removable_tree:
  assumes "tree_inv b used s" "tree_map s (2 ^ 32 - 1) = None" "unat (sb_blocks_cnt b) \<le> 2 ^ 48"
  shows "removable (sb_blocks_cnt b) (tree_extents s)"
  using assms tree_inv_tree_ok(2) [OF assms(1)] ends_below_top [OF assms(1,2)]
  by (simp add: removable_def tree_inv_def)

lemma remove_space_deep:
  assumes io: "io_reliable io" "alloc_laws io used" "block_size_ok (sb io)" "free_laws io used" "journaled io"
    and inv: "space_inv (sb io) used s" and top: "tree_map s (2 ^ 32 - 1) = None"
    and size: "unat (sb_blocks_cnt (sb io)) \<le> 2 ^ 48" and fuel: "2 * length (tree_extents s) + 1 < fuel"
  shows "\<exists>r s'. ext4_extent_remove_space fuel io f t s = Some (r, s') \<and> trimmed io used f t s r s'
    \<and> (r = EOK \<or> inner f t (tree_extents s))"
proof -
  have tree: "tree_inv (sb io) used s" using inv by (simp add: space_inv_def)
  note rem = removable_tree [OF tree top size]
  have "require_journaled_mutation io s = EOK"
    using io(5) by (simp add: require_journaled_mutation_def journaled_def)
  then have eq: "ext4_extent_remove_space fuel io f t s = remove_space_loop fuel io f t s"
    by (simp add: ext4_extent_remove_space_def)
  have "weight f (tree_extents s) < fuel" using weight_bound [of f "tree_extents s"] fuel by simp
  from remove_space_loop_deep [OF io(1-4) inv rem this] show ?thesis unfolding eq by blast
qed

text \<open>A range inside one extent is, with the block on either side, one contiguous run.\<close>

lemma inner_run:
  assumes "sorted_extents es" "inner f t es"
  shows "0 < unat f \<and> f \<le> t
    \<and> (\<exists>p u. \<forall>lb. unat f - 1 \<le> lb \<longrightarrow> lb \<le> unat t + 1 \<longrightarrow> ext_map es lb = Some (p + (lb - (unat f - 1)), u))"
proof -
  from assms(2) obtain e where e: "e \<in> set es" "e_first e < unat f" "unat f \<le> unat t" "unat t + 1 < e_end e"
    by (auto simp: inner_def)
  have "ext_map es lb = Some (e_phys e + (unat f - 1 - e_first e) + (lb - (unat f - 1)), extent_is_unwritten e)"
    if "unat f - 1 \<le> lb" "lb \<le> unat t + 1" for lb
    using ext_map_member [OF assms(1) e(1), of lb] that e(2-4) by (simp add: ext_covers_def)
  then have "\<exists>p u. \<forall>lb. unat f - 1 \<le> lb \<longrightarrow> lb \<le> unat t + 1 \<longrightarrow> ext_map es lb = Some (p + (lb - (unat f - 1)), u)"
    by blast
  with e(2,3) show ?thesis by (simp add: word_le_nat_alt)
qed

end
