(* ===== verification/Extent_History.thy ===== *)
theory Extent_History
  imports Extent_Clear
begin

text \<open>
  Histories of requests on one file.  The abstract machine \<open>map_step\<close> knows only the map from
  logical to physical blocks; the concrete one runs ext4_extent_get_blocks and
  ext4_extent_remove_space.  Every concrete step is an abstract one, whatever the depth of
  the tree.
\<close>

section \<open>Requests and the abstract machine\<close>

datatype file_request = Lookup u32 u32 | Allocate u32 u32 | Remove u32 u32

datatype file_answer = Failed errno | Run u64 u32 | Removed

type_synonym file_map = "nat \<Rightarrow> (nat \<times> bool) option"

text \<open>The answer for a mapped block: a contiguous written run that starts there.\<close>

definition run_at :: "file_map \<Rightarrow> u32 \<Rightarrow> u32 \<Rightarrow> u64 \<Rightarrow> u32 \<Rightarrow> bool" where
  "run_at m ib mx pb n \<longleftrightarrow>
     (case m (unat ib) of
        Some (p, False) \<Rightarrow> unat pb = p \<and> n \<le> mx \<and> (0 < mx \<longrightarrow> 0 < n)
          \<and> (\<forall>i < unat n. m (unat ib + i) = Some (p + i, False))
      | _ \<Rightarrow> pb = 0 \<and> n = 0)"

inductive map_step :: "file_request \<Rightarrow> file_answer \<Rightarrow> file_map \<Rightarrow> file_map \<Rightarrow> bool" where
  looked_up: "run_at m ib mx pb n \<Longrightarrow> map_step (Lookup ib mx) (Run pb n) m m"
| mapped: "m (unat ib) = Some (p, False) \<Longrightarrow> run_at m ib mx pb n \<Longrightarrow> map_step (Allocate ib mx) (Run pb n) m m"
| unwritten: "m (unat ib) = Some (p, True) \<Longrightarrow> map_step (Allocate ib mx) (Failed ENOTSUP) m m"
| allocated: "0 < n \<Longrightarrow> n \<le> mx \<Longrightarrow> (\<And>i. unat ib \<le> i \<Longrightarrow> i < unat ib + unat n \<Longrightarrow> m i = None) \<Longrightarrow>
    unat ` run_set pb (unat n) \<inter> data_blocks m = {} \<Longrightarrow>
    map_step (Allocate ib mx) (Run pb n) m (map_run (unat ib) (unat pb) (unat n) m)"
| no_space: "m (unat ib) = None \<Longrightarrow> e \<noteq> EOK \<Longrightarrow> map_step (Allocate ib mx) (Failed e) m m"
| removed: "map_step (Remove f t) Removed m (cut_map f t m)"
| refused: "0 < unat f \<Longrightarrow> f \<le> t \<Longrightarrow> (\<And>lb. unat f - 1 \<le> lb \<Longrightarrow> lb \<le> unat t + 1 \<Longrightarrow>
    m lb = Some (p + (lb - (unat f - 1)), u)) \<Longrightarrow> e \<noteq> EOK \<Longrightarrow> map_step (Remove f t) (Failed e) m m"

inductive_cases map_step_LookupE: "map_step (Lookup ib mx) a m m'"
inductive_cases map_step_AllocateE: "map_step (Allocate ib mx) a m m'"
inductive_cases map_step_RemoveE: "map_step (Remove f t) a m m'"

section \<open>The concrete machine\<close>

text \<open>An allocation asks for a block or more, and not for the last logical block.\<close>

fun valid_request :: "file_request \<Rightarrow> bool" where
  "valid_request (Allocate ib mx) = (0 < mx \<and> unat ib + min (unat mx) 32768 < 2 ^ 32)"
| "valid_request _ = True"

definition blocks_answer :: "errno + u64 \<times> u32 \<Rightarrow> file_answer" where
  "blocks_answer r = (case r of Inl e \<Rightarrow> Failed e | Inr (pb, n) \<Rightarrow> Run pb n)"

definition space_answer :: "errno \<Rightarrow> file_answer" where
  "space_answer r = (if r = EOK then Removed else Failed r)"

inductive file_step :: "'e lwext4 \<Rightarrow> file_request \<Rightarrow> file_answer \<Rightarrow> 'e istate \<Rightarrow> 'e istate \<Rightarrow> bool" for io where
  lookup: "ext4_extent_get_blocks io ib mx False s = (r, s') \<Longrightarrow>
    file_step io (Lookup ib mx) (blocks_answer r) s s'"
| allocate: "ext4_extent_get_blocks io ib mx True s = (r, s') \<Longrightarrow> valid_request (Allocate ib mx) \<Longrightarrow>
    file_step io (Allocate ib mx) (blocks_answer r) s s'"
| remove: "ext4_extent_remove_space fuel io f t s = Some (r, s') \<Longrightarrow>
    file_step io (Remove f t) (space_answer r) s s'"

inductive history :: "('q \<Rightarrow> 'a \<Rightarrow> 's \<Rightarrow> 's \<Rightarrow> bool) \<Rightarrow> ('q \<times> 'a) list \<Rightarrow> 's \<Rightarrow> 's \<Rightarrow> bool"
  for step where
  begins: "history step [] s s"
| goes_on: "step q a s t \<Longrightarrow> history step h t u \<Longrightarrow> history step ((q, a) # h) s u"

inductive_simps history_Nil [simp]: "history step [] s s'"
inductive_simps history_Cons: "history step (x # h) s s'"

text \<open>More fuel gives the same result.\<close>

lemma remove_space_loop_more:
  "remove_space_loop n io f t s = Some x \<Longrightarrow> n \<le> m \<Longrightarrow> remove_space_loop m io f t s = Some x"
proof (induction n arbitrary: m f s)
  case (Suc n)
  from Suc.prems(2) obtain k where m: "m = Suc k" "n \<le> k" by (cases m) auto
  note IH = Suc.IH [OF _ m(2)]
  obtain q s1 where q: "find_extent io f s = (q, s1)" by fastforce
  show ?case
  proof (cases "f \<le> t")
    case True
    show ?thesis
    proof (cases q)
      case (Inl e)
      with Suc.prems(1) True q show ?thesis by (simp add: m(1))
    next
      case (Inr p)
      define y where "y = extent (leaf_of p)"
      define l where "l = first_block y + ucast (extent_get_actual_len y) - 1"
      define z where "z = (if l < t then l else t)"
      obtain r s2 where r: "remove_leaf io p f z s1 = (r, s2)" by fastforce
      obtain v s3 where v: "find_next_extent io p s1 = (v, s3)" by fastforce
      have step: "remove_space_loop (Suc j) io f t s =
          (if \<not> have_extent (leaf_of p) \<or> entries_count (header (leaf_of p)) = 0 \<or> t < first_block y then Some (EOK, s1)
           else if first_block y < f \<and> t < l then Some (remove_middle_of_extent io f t s1)
           else if l < f then (case v of Inl e \<Rightarrow> if e = ENOENT then Some (EOK, s3) else Some (e, s3)
             | Inr nx \<Rightarrow> remove_space_loop j io (first_block nx) t s3)
           else if r \<noteq> EOK then Some (r, s2)
           else if z = 0xFFFFFFFF then Some (EOK, s2) else remove_space_loop j io (z + 1) t s2)" for j
        using True by (simp only: remove_space_loop.simps q Inr prod.case sum.case Let_def if_True
            y_def [symmetric] l_def [symmetric] z_def [symmetric] r v)
      show ?thesis using Suc.prems(1) IH unfolding m(1) step by (cases v) (auto split: if_split_asm)
    qed
  next
    case False
    with Suc.prems(1) show ?thesis by (simp add: m(1))
  qed
qed simp

lemma remove_space_more:
  "ext4_extent_remove_space n io f t s = Some x \<Longrightarrow> n \<le> m \<Longrightarrow> ext4_extent_remove_space m io f t s = Some x"
  using remove_space_loop_more [of n io f t s x m]
  by (cases "require_journaled_mutation io s = EOK") (simp_all add: ext4_extent_remove_space_def)

section \<open>Simulation\<close>

text \<open>The services work, and the file's tree and blocks are in order.\<close>

definition services_ok :: "'e lwext4 \<Rightarrow> ('e \<Rightarrow> u64 set) \<Rightarrow> bool" where
  "services_ok io used \<longleftrightarrow> io_reliable io \<and> alloc_laws io used \<and> free_laws io used \<and> journaled io
     \<and> block_size_ok (sb io) \<and> unat (sb_blocks_cnt (sb io)) \<le> 2 ^ 48"

definition file_inv :: "ext4_sb \<Rightarrow> ('e \<Rightarrow> u64 set) \<Rightarrow> 'e istate \<Rightarrow> bool" where
  "file_inv b used s \<longleftrightarrow> space_inv b used s \<and> tree_map s (2 ^ 32 - 1) = None"

lemma run_at_lookup:
  assumes "lookup_answer es ib mx pb n"
  shows "run_at (ext_map es) ib mx pb n"
proof -
  have "n \<le> mx \<and> (0 < mx \<longrightarrow> 0 < n)" if e: "ext_covers e (unat ib)" "unat n = min (unat mx) (e_end e - unat ib)" for e
    using e by (auto simp: word_le_nat_alt word_less_nat_alt ext_covers_def)
  with assms show ?thesis
    unfolding lookup_answer_def run_at_def by (auto split: option.splits bool.splits)
qed

lemma lookup_step:
  assumes sv: "services_ok io used" and inv: "file_inv (sb io) used s"
    and run: "ext4_extent_get_blocks io ib mx False s = (r, s')"
  shows "calm used s s' \<and> map_step (Lookup ib mx) (blocks_answer r) (tree_map s) (tree_map s')"
proof -
  have io: "io_reliable io" "alloc_laws io used" using sv by (simp_all add: services_ok_def)
  have tree: "tree_inv (sb io) used s" and top: "tree_map s (2 ^ 32 - 1) = None"
    using inv by (simp_all add: file_inv_def space_inv_def)
  note to = tree_inv_tree_ok(1) [OF tree]
  obtain pb n where r: "r = Inr (pb, n)" using get_blocks_returns [OF io(1) to, of ib mx] run by auto
  have "\<forall>e \<in> set (tree_extents s). e_end e < 2 ^ 32" using ends_below_top [OF tree top] by blast
  from get_blocks_answer [OF to this run [unfolded r]]
  have "run_at (tree_map s) ib mx pb n" unfolding tree_map_def by (rule run_at_lookup)
  moreover obtain p where "find_extent io ib s = (Inr p, s')"
    using run unfolding r by (auto simp: ext4_extent_get_blocks_def Let_def split: prod.splits sum.splits if_splits)
  then have cm: "calm used s s'" by (rule calm_find_extent [OF io(2)])
  ultimately show ?thesis using calm_inv(4) [OF cm] by (simp add: r blocks_answer_def looked_up)
qed

lemma allocate_step:
  assumes sv: "services_ok io used" and inv: "file_inv (sb io) used s"
    and run: "ext4_extent_get_blocks io ib mx True s = (r, s')" and v: "valid_request (Allocate ib mx)"
  shows "file_inv (sb io) used s' \<and> others used s' = others used s
    \<and> map_step (Allocate ib mx) (blocks_answer r) (tree_map s) (tree_map s')"
proof -
  have io: "io_reliable io" "alloc_laws io used" "free_laws io used" "block_size_ok (sb io)" "journaled io"
    using sv by (simp_all add: services_ok_def)
  have space: "space_inv (sb io) used s" and top: "tree_map s (2 ^ 32 - 1) = None"
    using inv by (simp_all add: file_inv_def)
  have quiet: ?thesis if cm: "calm used s s'"
    and st: "map_step (Allocate ib mx) (blocks_answer r) (tree_map s) (tree_map s)"
    using inv st by (simp add: file_inv_def space_inv_calm [OF cm] calm_inv(4) [OF cm] others_calm [OF cm])
  from get_blocks_create [OF io space top, of mx ib] v run
  have ans: "case tree_map s (unat ib) of
        None \<Rightarrow> block_mapped io used ib mx s r s'
      | Some (p, True) \<Rightarrow> r = Inl ENOTSUP \<and> calm used s s'
      | Some (p, False) \<Rightarrow> (\<exists>pb n. r = Inr (pb, n) \<and> lookup_answer (tree_extents s) ib mx pb n) \<and> calm used s s'"
    by simp
  show ?thesis
  proof (cases "tree_map s (unat ib)")
    case (Some a)
    obtain p u where a: "a = (p, u)" by fastforce
    show ?thesis
    proof (cases u)
      case True
      with ans Some a have "r = Inl ENOTSUP" "calm used s s'" by simp_all
      with Some a True show ?thesis by (intro quiet) (simp_all add: blocks_answer_def unwritten)
    next
      case False
      with ans Some a obtain pb n where r: "r = Inr (pb, n)" "lookup_answer (tree_extents s) ib mx pb n" "calm used s s'"
        by auto
      have "run_at (tree_map s) ib mx pb n" using run_at_lookup [OF r(2)] by (simp add: tree_map_def)
      with r Some a False show ?thesis by (intro quiet) (simp_all add: blocks_answer_def mapped)
    qed
  next
    case None
    with ans have bm: "block_mapped io used ib mx s r s'" by simp
    show ?thesis
    proof (cases r)
      case (Inl e)
      with bm have "tree_map s' = tree_map s" "e \<noteq> EOK" by (auto simp: block_mapped_def alloc_error_def)
      with bm None top Inl show ?thesis by (simp add: block_mapped_def file_inv_def blocks_answer_def no_space)
    next
      case (Inr a)
      obtain pb n where a: "a = (pb, n)" by fastforce
      have b: "0 < n" "n \<le> mx" "tree_map s' = map_run (unat ib) (unat pb) (unat n) (tree_map s)"
        "\<And>i. unat ib \<le> i \<Longrightarrow> i < unat ib + unat n \<Longrightarrow> tree_map s i = None"
        "run_set pb (unat n) \<inter> used (env s) = {}"
        using bm by (simp_all add: block_mapped_def Inr a)
      have "data_blocks (tree_map s) \<subseteq> unat ` used (env s)" using space by (simp add: space_inv_def)
      with b(5) have "unat ` run_set pb (unat n) \<inter> data_blocks (tree_map s) = {}"
        by (auto dest!: word_unat_eq_iff [THEN iffD2])
      from allocated [OF b(1,2,4) this]
      have step: "map_step (Allocate ib mx) (Run pb n) (tree_map s) (tree_map s')" by (simp only: b(3))
      have "unat n \<le> min (unat mx) 32768"
        using bm by (simp add: block_mapped_def Inr a word_le_nat_alt)
      moreover have "unat ib + min (unat mx) 32768 < 2 ^ 32" using v by simp
      ultimately have "unat ib + unat n < 2 ^ 32" by linarith
      then have "tree_map s' (2 ^ 32 - 1) = None" using top by (simp add: b(3) map_run_def)
      with step bm show ?thesis by (simp add: block_mapped_def file_inv_def blocks_answer_def Inr a)
    qed
  qed
qed

lemma remove_step:
  assumes sv: "services_ok io used" and inv: "file_inv (sb io) used s"
    and run: "ext4_extent_remove_space fuel io f t s = Some (r, s')"
  shows "file_inv (sb io) used s' \<and> others used s' = others used s
    \<and> map_step (Remove f t) (space_answer r) (tree_map s) (tree_map s')"
proof -
  have io: "io_reliable io" "alloc_laws io used" "block_size_ok (sb io)" "free_laws io used" "journaled io"
    and size: "unat (sb_blocks_cnt (sb io)) \<le> 2 ^ 48"
    using sv by (simp_all add: services_ok_def)
  have space: "space_inv (sb io) used s" and top: "tree_map s (2 ^ 32 - 1) = None"
    using inv by (simp_all add: file_inv_def)
  define more where "more = fuel + 2 * length (tree_extents s) + 2"
  have "ext4_extent_remove_space more io f t s = Some (r, s')"
    using run by (rule remove_space_more) (simp add: more_def)
  with remove_space_deep [OF io space top size, of more f t]
  have tr: "trimmed io used f t s r s'"
    and ok: "r = EOK \<or> inner f t (tree_extents s)"
    by (simp_all add: more_def)
  have "file_inv (sb io) used s'"
    using tr top by (auto simp: trimmed_def file_inv_def cut_map_def split: if_splits)
  moreover have "map_step (Remove f t) (space_answer r) (tree_map s) (tree_map s')"
  proof (cases "r = EOK")
    case True
    with tr show ?thesis by (simp add: trimmed_def space_answer_def removed)
  next
    case False
    have "sorted_extents (tree_extents s)"
      using space tree_inv_tree_ok(1) [of "sb io" used s] by (simp add: space_inv_def tree_ok_def extents_ok_def)
    with ok False inner_run [of "tree_extents s" f t] obtain p u where "0 < unat f" "f \<le> t"
      "\<And>lb. unat f - 1 \<le> lb \<Longrightarrow> lb \<le> unat t + 1 \<Longrightarrow> tree_map s lb = Some (p + (lb - (unat f - 1)), u)"
      unfolding tree_map_def by blast
    from refused [OF this False] False tr show ?thesis by (simp add: trimmed_def space_answer_def)
  qed
  ultimately show ?thesis using tr by (simp add: trimmed_def)
qed

lemma file_step_ok:
  assumes "file_step io q a s s'" "services_ok io used" "file_inv (sb io) used s"
  shows "file_inv (sb io) used s' \<and> others used s' = others used s \<and> map_step q a (tree_map s) (tree_map s')"
  using assms(1)
proof cases
  case (lookup ib mx r)
  with lookup_step [OF assms(2,3)]
  have cm: "calm used s s'" and st: "map_step q a (tree_map s) (tree_map s')" by blast+
  from st assms(3) show ?thesis
    by (simp add: file_inv_def space_inv_calm [OF cm] calm_inv(4) [OF cm] others_calm [OF cm])
qed (use allocate_step [OF assms(2,3)] remove_step [OF assms(2,3)] in auto)

text \<open>Every request is answered.\<close>

lemma file_step_total:
  assumes "services_ok io used" "file_inv (sb io) used s" "valid_request q"
  shows "\<exists>a s'. file_step io q a s s'"
proof (cases q)
  case (Lookup ib mx)
  then show ?thesis by (metis file_step.lookup surj_pair)
next
  case (Allocate ib mx)
  then show ?thesis using assms(3) by (metis file_step.allocate surj_pair)
next
  case (Remove f t)
  have "\<exists>r s'. ext4_extent_remove_space (2 * length (tree_extents s) + 2) io f t s = Some (r, s')"
    using remove_space_deep [of io used s "2 * length (tree_extents s) + 2" f t] assms(1,2)
    by (auto simp: services_ok_def file_inv_def)
  then show ?thesis unfolding Remove by (blast intro: file_step.remove)
qed

section \<open>Histories\<close>

text \<open>
  A concrete machine whose steps keep an invariant and a quantity, and are steps of an
  abstract machine on the abstraction of the state: so are its histories.
\<close>

locale simulation =
  fixes step :: "'q \<Rightarrow> 'a \<Rightarrow> 's \<Rightarrow> 's \<Rightarrow> bool" and spec :: "'q \<Rightarrow> 'a \<Rightarrow> 'm \<Rightarrow> 'm \<Rightarrow> bool"
    and good :: "'s \<Rightarrow> bool" and view :: "'s \<Rightarrow> 'm" and kept :: "'s \<Rightarrow> 'k"
  assumes step_good: "step q a s s' \<Longrightarrow> good s \<Longrightarrow> good s'"
    and step_kept: "step q a s s' \<Longrightarrow> good s \<Longrightarrow> kept s' = kept s"
    and step_spec: "step q a s s' \<Longrightarrow> good s \<Longrightarrow> spec q a (view s) (view s')"
begin

lemma history_simulated:
  "history step h s s' \<Longrightarrow> good s \<Longrightarrow> good s' \<and> kept s' = kept s \<and> history spec h (view s) (view s')"
proof (induction rule: history.induct)
  case (goes_on q a s t h u)
  then have "good t" "kept t = kept s" "spec q a (view s) (view t)"
    using step_good step_kept step_spec by blast+
  with goes_on.IH show ?case by (auto intro: history.goes_on)
qed simp

end

interpretation requests: simulation "file_step io" map_step
    "\<lambda>s. services_ok io used \<and> file_inv (sb io) used s" tree_map "others used" for io used
  by unfold_locales (blast dest: file_step_ok)+

text \<open>The file after ext4_extent_tree_init.\<close>

lemma tree_init_file:
  assumes "length (root s) = 60" "lengths_ok (sb io) (nodes s)"
  shows "file_inv (sb io) used (ext4_extent_tree_init io s)" "tree_map (ext4_extent_tree_init io s) = Map.empty"
  using tree_init_inv(1) [OF assms, of used] tree_init_inv(2) [OF assms]
  by (simp_all add: file_inv_def space_inv_def one_to_one_def data_blocks_def)

section \<open>A file without blocks\<close>

lemma empty_file:
  assumes "tree_inv b used s" "tree_map s = Map.empty"
  shows "root_depth s = 0" "others used s = used (env s) - {0}"
proof -
  have E: "tree_extents s = exts (nodes s) (root_depth s) 0" and ok: "extents_ok (sb_blocks_cnt b) (tree_extents s)"
    using assms(1) tree_inv_tree_ok(2) [OF assms(1)] by (simp_all add: tree_inv_def)
  have "tree_extents s = []"
  proof (rule ccontr)
    assume "tree_extents s \<noteq> []"
    then obtain e where e: "e \<in> set (tree_extents s)" by (cases "tree_extents s") auto
    then have "0 < e_len e" using ok by (simp add: extents_ok_def extent_ok_def)
    then have "ext_covers e (e_first e)" by (simp add: ext_covers_def e_end_def)
    moreover have "tree_map s (e_first e) = None" using assms(2) by simp
    ultimately show False using e by (auto simp: tree_map_def ext_map_None)
  qed
  moreover have sub: "sub b (nodes s) (root_depth s) 0" using assms(1) by (simp add: tree_inv_def)
  ultimately show d: "root_depth s = 0"
  proof (cases "root_depth s")
    case (Suc d)
    have "kids (nodes s 0) \<noteq> []" using node_valid_kids(2) [OF sub_node [OF sub [unfolded Suc]]] .
    then obtain x where x: "x \<in> set (kids (nodes s 0))" by (cases "kids (nodes s 0)") auto
    note c = sub_child [OF sub [unfolded Suc] x]
    have "exts (nodes s) d (index_get_pblock x) \<noteq> []" using sub_first [OF c(2)] c(1) by blast
    with x \<open>tree_extents s = []\<close> show ?thesis unfolding E Suc by auto
  qed simp
  have "tree_blocks s = {0}" by (simp add: tree_blocks_def d)
  then show "others used s = used (env s) - {0}" by (auto simp: others_def data_blocks_def assms(2))
qed

lemma truncate_all:
  assumes sv: "services_ok io used" and inv: "file_inv (sb io) used s"
    and fuel: "2 * length (tree_extents s) + 1 < fuel"
  shows "\<exists>s'. ext4_extent_remove_space fuel io 0 0xFFFFFFFF s = Some (EOK, s') \<and> tree_map s' = Map.empty
    \<and> root_depth s' = 0 \<and> used (env s') - {0} = others used s"
proof -
  have ok: "io_reliable io" "alloc_laws io used" "block_size_ok (sb io)" "free_laws io used" "journaled io"
    "space_inv (sb io) used s" "tree_map s (2 ^ 32 - 1) = None" "unat (sb_blocks_cnt (sb io)) \<le> 2 ^ 48"
    using sv inv by (simp_all add: services_ok_def file_inv_def)
  from remove_space_deep [OF ok fuel, of 0 "0xFFFFFFFF"]
  obtain s' where run: "ext4_extent_remove_space fuel io 0 0xFFFFFFFF s = Some (EOK, s')"
    and tr: "trimmed io used 0 0xFFFFFFFF s EOK s'" by (auto simp: inner_def)
  have tree: "tree_inv (sb io) used s" using ok(6) by (simp add: space_inv_def)
  have "tree_map s lb = None" if "\<not> lb \<le> 4294967295" for lb
    using ends_below_top [OF tree ok(7)] that
    by (force simp: tree_map_def ext_map_None ext_covers_def)
  then have m: "tree_map s' = Map.empty" using tr by (auto simp: trimmed_def cut_map_def)
  have "tree_inv (sb io) used s'" "others used s' = others used s"
    using tr by (simp_all add: trimmed_def space_inv_def)
  with empty_file [OF this(1) m] run m show ?thesis by simp
qed

end
