(* ===== verification/Extent_Deep_Properties.thy ===== *)
theory Extent_Deep_Properties
  imports Extent_History Extent_Examples
begin

text \<open>
  The properties of changes to trees of any depth, of histories of such changes and of the walk
  to the next extent, on services whose I/O works and whose allocator never hands out a block
  in use.  The witnesses run on a file system with
  1024-byte blocks, a first-fit allocator over a list of used blocks, and a file whose root
  holds four extents, so that the next insertion has to grow the tree.
\<close>

section \<open>Services\<close>

definition pool_sb :: ext4_sb where
  "pool_sb = demo_sb\<lparr>sb_block_size := 1024\<rparr>"

definition pool_alloc :: "u64 \<Rightarrow> u64 list \<Rightarrow> errno \<times> u64 \<times> u64 list" where
  "pool_alloc goal e =
     (case find (\<lambda>b. b \<notin> set e) (map of_nat [1..<8192]) of None \<Rightarrow> (ENOSPC, 0, e) | Some b \<Rightarrow> (EOK, b, b # e))"

definition pool_free :: "u64 \<Rightarrow> nat \<Rightarrow> u64 list \<Rightarrow> errno \<times> u64 list" where
  "pool_free pb n e = (EOK, filter (\<lambda>b. \<not> (pb \<le> b \<and> unat b < unat pb + n)) e)"

definition pool_io :: "u64 list lwext4" where
  "pool_io = \<lparr>sb = pool_sb, journaling_enable = True, journal_active = (\<lambda>_. True),
     trans_block_get = (\<lambda>_ e. (EOK, e)), trans_block_get_noread = (\<lambda>_ e. (EOK, e)),
     trans_set_block_dirty = (\<lambda>_ e. (EOK, e)), block_set = (\<lambda>_ e. (EOK, e)),
     balloc_alloc_block = pool_alloc, balloc_free_block = (\<lambda>pb. pool_free pb 1),
     balloc_free_blocks = (\<lambda>pb n. pool_free pb (unat n)), inode_to_goal_block = (\<lambda>_. 100),
     inode_set_extents_flag = (\<lambda>e. e)\<rparr>"

lemma pool_facts: "sb pool_io = pool_sb" "sb_blocks_cnt pool_sb = 8192" "io_reliable pool_io" "block_size_ok pool_sb"
proof -
  have "unat (1024 :: u32) = 2 ^ 10" by simp
  then show "block_size_ok pool_sb" unfolding block_size_ok_def pool_sb_def by (intro exI [of _ 10]) simp
qed (simp_all add: pool_io_def pool_sb_def demo_sb_def io_reliable_def)

lemma pool_alloc_cases:
  "pool_alloc goal e = (ENOSPC, 0, e)
    \<or> (\<exists>b. pool_alloc goal e = (EOK, b, b # e) \<and> b \<notin> set e \<and> b \<noteq> 0 \<and> b < 8192)"
proof (cases "find (\<lambda>b. b \<notin> set e) (map of_nat [1..<8192])")
  case None
  then show ?thesis by (simp add: pool_alloc_def)
next
  case (Some b)
  then have "b \<notin> set e" "b \<in> set (map of_nat [1..<8192])"
    unfolding find_Some_iff using nth_mem by blast+
  then obtain i where "b = of_nat i" "1 \<le> i" "i < 8192" "b \<notin> set e" by auto
  then have "b \<noteq> 0 \<and> b < 8192"
    by (simp add: word_less_nat_alt unat_of_nat flip: unat_eq_zero)
  with \<open>b \<notin> set e\<close> Some show ?thesis by (simp add: pool_alloc_def)
qed

lemma pool_laws: "alloc_laws pool_io set"
proof -
  have "case balloc_alloc_block pool_io goal e of (r, pb, e') \<Rightarrow>
      if r = EOK then pb \<notin> set e \<and> set e' = insert pb (set e) \<and> pb \<noteq> 0 \<and> pb < sb_blocks_cnt (sb pool_io)
        \<and> unat pb < 2 ^ 48 else set e' = set e" for goal e
  proof -
    have eq: "balloc_alloc_block pool_io goal e = pool_alloc goal e" by (simp add: pool_io_def)
    show ?thesis
      using pool_alloc_cases [of goal e] by (elim disjE exE conjE) (simp_all add: eq pool_facts word_less_nat_alt)
  qed
  moreover have "set (snd (trans_block_get pool_io pb e)) = set e
      \<and> set (snd (trans_block_get_noread pool_io pb e)) = set e
      \<and> set (snd (trans_set_block_dirty pool_io pb e)) = set e
      \<and> set (snd (block_set pool_io pb e)) = set e" for pb e
    by (simp add: pool_io_def)
  ultimately show ?thesis unfolding alloc_laws_def by (intro conjI allI) simp_all
qed

lemma pool_free_set: "set (snd (pool_free pb n e)) = set e - run_set pb n"
  by (auto simp: pool_free_def run_set_def word_le_nat_alt)

lemma pool_free_laws: "free_laws pool_io set"
proof -
  have "balloc_free_block pool_io pb e = pool_free pb 1 e" "balloc_free_blocks pool_io pb k e = pool_free pb (unat k) e" for pb k e
    by (simp_all add: pool_io_def)
  moreover have "fst (pool_free pb n e) = EOK" for pb n e by (simp add: pool_free_def)
  ultimately show ?thesis by (simp add: free_laws_def pool_free_set)
qed

lemma pool_services: "services_ok pool_io set"
  using pool_laws pool_free_laws
  by (simp add: services_ok_def pool_facts journaled_def) (simp add: pool_io_def)

section \<open>A full root\<close>

text \<open>Blocks 0 to 9, 20 to 24, 40 to 44 and 60 to 64; the new extent is 30 to 34.\<close>

definition full_root :: bytes where
  "full_root = [10,243, 4,0, 4,0, 0,0, 0,0,0,0,
     0,0,0,0, 10,0, 0,0, 232,3,0,0,
     20,0,0,0, 5,0, 0,0, 208,7,0,0,
     40,0,0,0, 5,0, 0,0, 184,11,0,0,
     60,0,0,0, 5,0, 0,0, 160,15,0,0]"

definition full_list :: "ext4_extent list" where
  "full_list = [\<lparr>first_block = 0, block_count = 10, start_hi = 0, start_lo = 1000\<rparr>,
    \<lparr>first_block = 20, block_count = 5, start_hi = 0, start_lo = 2000\<rparr>,
    \<lparr>first_block = 40, block_count = 5, start_hi = 0, start_lo = 3000\<rparr>,
    \<lparr>first_block = 60, block_count = 5, start_hi = 0, start_lo = 4000\<rparr>]"

definition full_env :: "u64 list" where
  "full_env = map of_nat ([1000..<1010] @ [2000..<2005] @ [3000..<3005] @ [4000..<4005] @ [5000..<5005])"

definition full_tree :: "u64 list istate" where
  "full_tree = \<lparr>root = full_root, root_dirty = False, bufs = (\<lambda>_. replicate 1024 0), env = full_env\<rparr>"

definition fifth_extent :: ext4_extent where
  "fifth_extent = \<lparr>first_block = 30, block_count = 5, start_hi = 0, start_lo = 5000\<rparr>"

lemma full_root_facts [demo_simps]:
  "header_load full_root = \<lparr>magic = 0xF30A, entries_count = 4, max_entries_count = 4, depth = 0, generation = 0\<rparr>"
  "length full_root = 60" "slots extent_load 4 full_root = full_list"
proof -
  have "[0..<4] = [0, Suc 0, 2, 3 :: nat]" by (simp add: upt_rec)
  then show "slots extent_load 4 full_root = full_list"
    by (simp add: slots_def full_root_def full_list_def load_defs)
qed (simp_all add: full_root_def load_defs)

lemma full_extents_ok: "extents_ok 8192 full_list"
  by (simp add: full_list_def extent_fact_defs)

lemma full_tree_inv: "tree_inv pool_sb set full_tree" "tree_extents full_tree = full_list"
proof -
  have d: "root_depth full_tree = 0" "leaves full_root = full_list"
    by (simp_all add: root_depth_def full_tree_def demo_simps leaves_def)
  have r: "root full_tree = full_root" by (simp add: full_tree_def)
  have "root_ok pool_sb full_root"
    using full_extents_ok by (simp add: root_ok_def demo_simps validate_header_root_iff validate_entries_iff pool_facts)
  then have "sub pool_sb (nodes full_tree) 0 0"
    by (simp add: r node_valid_def node_form_def demo_simps)
  moreover have "lengths_ok pool_sb (nodes full_tree)"
    by (simp add: lengths_ok_def nodes_block) (simp add: full_tree_def pool_sb_def)
  ultimately show i: "tree_inv pool_sb set full_tree"
    using full_extents_ok by (simp add: tree_inv_def d r pool_facts)
  show "tree_extents full_tree = full_list" using tree_inv_tree_ok(2) [OF i] by (simp add: d r)
qed

lemma fifth_insertable: "insertable 8192 full_list fifth_extent"
  by (simp add: insertable_def full_list_def fifth_extent_def apart_def extent_fact_defs)

lemma full_mappable: "mappable 8192 (tree_map full_tree) fifth_extent"
  using fifth_insertable mappable_insertable [OF full_extents_ok]
  by (simp add: tree_map_def full_tree_inv)

lemmas pool_hyps = pool_facts(3) pool_laws pool_facts(4) [folded pool_facts(1)] full_tree_inv(1) [folded pool_facts(1)]

lemma full_map:
  assumes "tree_map full_tree lb = Some (p, u)"
  shows "\<not> u \<and> (lb < 10 \<and> p = 1000 + lb \<or> 20 \<le> lb \<and> lb < 25 \<and> p = 1980 + lb
    \<or> 40 \<le> lb \<and> lb < 45 \<and> p = 2960 + lb \<or> 60 \<le> lb \<and> lb < 65 \<and> p = 3940 + lb)"
  using assms
  by (auto simp: tree_map_def full_tree_inv(2) full_list_def extent_fact_defs split: if_splits)

lemma full_env_set: "unat ` set full_env = {1000..<1010} \<union> {2000..<2005} \<union> {3000..<3005} \<union> {4000..<4005} \<union> {5000..<5005}"
proof -
  have "unat ` (of_nat ` {a..<b} :: u64 set) = {a..<b}" if "b < 2 ^ 64" for a b
  proof -
    have "unat (of_nat i :: u64) = i" if "i < b" for i using that \<open>b < 2 ^ 64\<close> by (simp add: unat_of_nat)
    then show ?thesis by (force simp: image_image)
  qed
  then show ?thesis unfolding full_env_def set_map set_append image_Un set_upt by (simp add: Un_assoc)
qed

lemma full_file_inv: "file_inv pool_sb set full_tree"
proof -
  have "one_to_one (tree_map full_tree)"
    unfolding one_to_one_def by (auto dest!: full_map)
  moreover have "data_blocks (tree_map full_tree) \<subseteq> unat ` set (env full_tree)"
    using full_map by (auto simp: data_blocks_def full_tree_def full_env_set) (force dest!: full_map)+
  moreover have "tree_blocks full_tree = {0}"
    by (simp add: tree_blocks_def root_depth_def full_tree_def demo_simps)
  moreover have "0 \<notin> data_blocks (tree_map full_tree)" by (auto simp: data_blocks_def dest!: full_map)
  moreover have "tree_map full_tree (2 ^ 32 - 1) = None"
    using full_map [of "2 ^ 32 - 1"] by (cases "tree_map full_tree (2 ^ 32 - 1)") auto
  ultimately show ?thesis
    using full_tree_inv(1) by (simp add: file_inv_def space_inv_def)
qed

lemmas pool_file = full_file_inv [folded pool_facts(1)]

section \<open>Insertion\<close>

text \<open>C2: insert_extent on a tree of any depth, with I/O that works and an allocator that
  hands out unused blocks: for a valid extent over unmapped logical blocks the result is a
  well-formed tree again (nodes valid and sealed, keys equal to the first block below them,
  no block in two places, all in use), and either EOK is returned and the map is the old one
  with the new blocks added, or the map is the old one and the error is EFBIG at depth 5 or
  an error of the allocator.\<close>

theorem insert_extent_correct:
  assumes "io_reliable io" "alloc_laws io used" "block_size_ok (sb io)" "tree_inv (sb io) used s"
    and "mappable (sb_blocks_cnt (sb io)) (tree_map s) x"
  shows "\<exists>r s'. insert_extent io (first_block x) x s = (r, s') \<and> tree_inv (sb io) used s'
    \<and> (if r = EOK then tree_map s' = map_insert x (tree_map s)
       else tree_map s' = tree_map s \<and> (r = EFBIG \<and> root_depth s' = 5 \<or> alloc_error io r))"
  using insert_mappable [OF assms] unfolding insertion_def no_room_def by blast

lemma insert_extent_correct_witness:
  "\<exists>r s'. insert_extent pool_io 30 fifth_extent full_tree = (r, s') \<and> tree_inv pool_sb set s'
    \<and> (if r = EOK then tree_map s' = map_insert fifth_extent (tree_map full_tree)
       else tree_map s' = tree_map full_tree \<and> (r = EFBIG \<and> root_depth s' = 5 \<or> alloc_error pool_io r))"
  using insert_extent_correct [OF pool_hyps, of fifth_extent] full_mappable
  by (simp add: pool_facts fifth_extent_def)

text \<open>A file built from ext4_extent_tree_init by any sequence of insertions of valid,
  pairwise disjoint extents, in any order: the tree is well formed after them, and its map is
  exactly the one of the extents whose insertion returned EOK; every other insertion returned
  EFBIG or an error of the allocator.\<close>

theorem insert_all_correct:
  assumes "io_reliable io" "alloc_laws io used" "block_size_ok (sb io)"
    and "length (root s) = 60" "lengths_ok (sb io) (nodes s)"
    and "\<forall>x \<in> set xs. extent_ok (sb_blocks_cnt (sb io)) x \<and> e_end x < 2 ^ 32" "sorted_wrt apart xs"
  shows "\<exists>rs s'. insert_all io xs (ext4_extent_tree_init io s) = (rs, s') \<and> tree_inv (sb io) used s'
    \<and> length rs = length xs \<and> tree_map s' = accepted xs rs Map.empty
    \<and> (\<forall>r \<in> set rs. r = EOK \<or> r = EFBIG \<or> alloc_error io r)"
proof -
  note t = tree_init_inv(1) [OF assms(4,5), of used] tree_init_inv(2) [OF assms(4,5)]
  have "\<forall>x \<in> set xs. mappable (sb_blocks_cnt (sb io)) (tree_map (ext4_extent_tree_init io s)) x"
    using assms(6) by (simp add: mappable_def t(2))
  from insert_all_run [OF assms(1-3) t(1) this assms(7)] show ?thesis by (simp add: t(2))
qed

lemma insert_all_correct_witness:
  "\<exists>rs s'. insert_all pool_io (fifth_extent # full_list) (ext4_extent_tree_init pool_io full_tree) = (rs, s')
    \<and> tree_inv pool_sb set s' \<and> length rs = 5 \<and> tree_map s' = accepted (fifth_extent # full_list) rs Map.empty"
proof -
  have "length (root full_tree) = 60" "lengths_ok (sb pool_io) (nodes full_tree)"
    using full_tree_inv(1) by (simp_all add: tree_inv_def pool_facts) (simp add: full_tree_def demo_simps)
  moreover have "\<forall>x \<in> set (fifth_extent # full_list). extent_ok (sb_blocks_cnt (sb pool_io)) x \<and> e_end x < 2 ^ 32"
    "sorted_wrt apart (fifth_extent # full_list)" "length (fifth_extent # full_list) = 5"
    by (simp_all add: pool_facts full_list_def fifth_extent_def apart_def extent_fact_defs)
  ultimately show ?thesis using insert_all_correct [OF pool_hyps(1-3)] pool_facts(1) by metis
qed

text \<open>C6: ensure_insert_room ends within its fixed number of attempts on every well-formed
  tree: it returns a path that leads to a leaf with a free entry, for the block asked for, in
  a tree of the same extents, or EFBIG at depth 5 or the allocator's error, the extents again
  being the same.  The "too many attempts" exit (EIO) is never taken.\<close>

theorem ensure_insert_room_correct:
  assumes "io_reliable io" "alloc_laws io used" "block_size_ok (sb io)" "tree_inv (sb io) used s"
  shows "\<exists>r s'. ensure_insert_room io lb s = (r, s') \<and> tree_inv (sb io) used s' \<and> tree_extents s' = tree_extents s
    \<and> (case r of Inl e \<Rightarrow> e = EFBIG \<and> root_depth s' = 5 \<or> alloc_error io e
       | Inr p \<Rightarrow> \<not> h_full (header (leaf_of p))
           \<and> (\<exists>ns. path p = ns @ [leaf_of p] \<and> path_at (nodes s') (root_depth s') 0 ns 0 (pblock_of_node (leaf_of p))
                \<and> header (leaf_of p) = header_load (nodes s' (pblock_of_node (leaf_of p)))))"
proof -
  obtain r s' where r: "ensure_insert_room io lb s = (r, s')" "reshaped (sb io) used s s'"
    "case r of Inl e \<Rightarrow> no_room io s' e
       | Inr p \<Rightarrow> (\<exists>ns. walked s' lb p ns \<and> \<not> h_full (header (leaf_of p)))"
    using ensure_insert_room_ok [OF assms] by blast
  have inv: "tree_inv (sb io) used s'" "tree_extents s' = tree_extents s"
    using r(2) by (simp_all add: reshaped_def)
  have "\<exists>ns. path p = ns @ [leaf_of p] \<and> path_at (nodes s') (root_depth s') 0 ns 0 (pblock_of_node (leaf_of p))
      \<and> header (leaf_of p) = header_load (nodes s' (pblock_of_node (leaf_of p)))" if "walked s' lb p ns" for p ns
  proof -
    have "path p = ns @ [leaf_of p]" using that by (simp add: walked_def)
    with walkedE(1) [OF that inv(1)] found_leaf_leaves(1) [OF walkedE(3) [OF that inv(1)]] show ?thesis by blast
  qed
  with r inv show ?thesis by (auto simp: no_room_def split: sum.splits)
qed

lemma ensure_insert_room_correct_witness:
  "\<exists>r s'. ensure_insert_room pool_io 30 full_tree = (r, s') \<and> tree_inv pool_sb set s' \<and> tree_extents s' = full_list"
  using ensure_insert_room_correct [OF pool_hyps, of 30] full_tree_inv(2) pool_facts(1) by metis

text \<open>grow_indepth keeps the extents of the file: on success the tree is one level
  deeper, the root holds a single index entry, and the moved node has the old root's entries
  and room for more than 80; on EFBIG (exactly at depth 5) or an allocation error nothing
  changed in shape.\<close>

theorem grow_indepth_correct:
  assumes "io_reliable io" "alloc_laws io used" "block_size_ok (sb io)" "tree_inv (sb io) used s"
    and "entries_count (header_load (root s)) \<noteq> 0"
  shows "\<exists>r s'. grow_indepth io s = (r, s') \<and> tree_inv (sb io) used s' \<and> tree_extents s' = tree_extents s
    \<and> (if r = EOK
       then root_depth s' = Suc (root_depth s) \<and> length (kids (root s')) = 1
         \<and> length (kids (nodes s' (index_get_pblock (hd (kids (root s')))))) = unat (entries_count (header_load (root s)))
         \<and> 80 < unat (max_entries_count (header_load (nodes s' (index_get_pblock (hd (kids (root s')))))))
       else root_depth s' = root_depth s \<and> (r = EFBIG \<and> root_depth s = 5 \<or> alloc_error io r))"
proof -
  obtain r s' where r: "grow_indepth io s = (r, s')" "tree_inv (sb io) used s'" "tree_extents s' = tree_extents s"
    "if r = EOK then root_depth s' = Suc (root_depth s) \<and> (\<exists>nb. grown (nodes s) (root_depth s) nb (nodes s'))
     else root_depth s' = root_depth s \<and> (r = EFBIG \<and> root_depth s = 5 \<or> alloc_error io r)"
    using grow_indepth_ok [OF assms] unfolding reshaped_def by blast
  have "length (kids (root s')) = 1
      \<and> length (kids (nodes s' (index_get_pblock (hd (kids (root s')))))) = unat (entries_count (header_load (root s)))
      \<and> 80 < unat (max_entries_count (header_load (nodes s' (index_get_pblock (hd (kids (root s')))))))"
    if "grown (nodes s) (root_depth s) nb (nodes s')" for nb
    using that by (auto simp: grown_def simp flip: length_kids)
  with r show ?thesis by (intro exI [of _ r] exI [of _ s']) (auto split: if_splits)
qed

lemma grow_indepth_correct_witness:
  "\<exists>r s'. grow_indepth pool_io full_tree = (r, s') \<and> tree_inv pool_sb set s' \<and> tree_extents s' = full_list
    \<and> root_depth s' \<le> 1"
proof -
  have "entries_count (header_load (root full_tree)) \<noteq> 0" "root_depth full_tree = 0"
    by (simp_all add: root_depth_def full_tree_def demo_simps)
  with grow_indepth_correct [OF pool_hyps] full_tree_inv(2) show ?thesis
    by (fastforce simp: pool_facts split: if_splits)
qed

section \<open>Allocation, removal and histories\<close>

text \<open>C3: ext4_extent_get_blocks with create, at an unmapped block of a file with a tree of any
  depth: it maps a run of 1 to mx blocks there, all unmapped before, to physical blocks that
  nobody had in use and that are in use now, and nothing else of the map changes; or it
  reports EFBIG or the allocator's error, the map being the old one.  Either way the tree is
  well formed, no physical block is mapped twice, and the blocks of everybody else are the
  same as before: no block is leaked, not even the candidates given back or a run whose
  insertion failed.\<close>

theorem get_blocks_allocates:
  assumes "services_ok io used" "file_inv (sb io) used s" "tree_map s (unat ib) = None"
    and "0 < mx" "unat ib + min (unat mx) 32768 < 2 ^ 32"
  shows "\<exists>r s'. ext4_extent_get_blocks io ib mx True s = (r, s')
    \<and> file_inv (sb io) used s' \<and> others used s' = others used s
    \<and> (case r of
        Inl e \<Rightarrow> tree_map s' = tree_map s \<and> (e = EFBIG \<or> alloc_error io e)
      | Inr (pb, n) \<Rightarrow> 0 < n \<and> n \<le> mx
          \<and> tree_map s' = map_run (unat ib) (unat pb) (unat n) (tree_map s)
          \<and> (\<forall>i. unat ib \<le> i \<longrightarrow> i < unat ib + unat n \<longrightarrow> tree_map s i = None)
          \<and> run_set pb (unat n) \<inter> used (env s) = {} \<and> run_set pb (unat n) \<subseteq> used (env s'))"
proof -
  have ok: "io_reliable io" "alloc_laws io used" "free_laws io used" "block_size_ok (sb io)" "journaled io"
    "space_inv (sb io) used s" "tree_map s (2 ^ 32 - 1) = None"
    using assms(1,2) by (simp_all add: services_ok_def file_inv_def)
  from get_blocks_create [OF ok assms(4,5)] assms(3)
  obtain r s' where r: "ext4_extent_get_blocks io ib mx True s = (r, s')" "block_mapped io used ib mx s r s'"
    by auto
  with allocate_step [OF assms(1,2) r(1)] assms(4,5) show ?thesis
    by (auto simp: block_mapped_def split: sum.splits)
qed

lemma get_blocks_allocates_witness:
  "\<exists>r s'. ext4_extent_get_blocks pool_io 30 4 True full_tree = (r, s')
    \<and> file_inv pool_sb set s' \<and> others set s' = others set full_tree"
proof -
  have "tree_map full_tree (unat (30 :: u32)) = None"
    using full_map [of 30] by (cases "tree_map full_tree 30") auto
  from get_blocks_allocates [OF pool_services pool_file this, of 4]
  show ?thesis unfolding pool_facts(1) by auto
qed

text \<open>C4: ext4_extent_remove_space on a file with a tree of any depth ends (two rounds for each
  extent are enough) with the file in order and the blocks of everybody else as they were.
  With EOK exactly the blocks from f to t are unmapped, so their physical blocks and the nodes
  that became empty are free again.  The only failure is EFBIG at depth 5 or the allocator's
  error, when one extent begins before the range and ends behind it, so that it has to be
  split; then nothing was removed.\<close>

theorem remove_space_correct:
  assumes "services_ok io used" "file_inv (sb io) used s" "2 * length (tree_extents s) + 1 < fuel"
  shows "\<exists>r s'. ext4_extent_remove_space fuel io f t s = Some (r, s')
    \<and> file_inv (sb io) used s' \<and> others used s' = others used s
    \<and> (if r = EOK then tree_map s' = cut_map f t (tree_map s)
       else tree_map s' = tree_map s \<and> (r = EFBIG \<and> root_depth s' = 5 \<or> alloc_error io r)
         \<and> (\<exists>x \<in> set (tree_extents s). e_first x < unat f \<and> f \<le> t \<and> unat t + 1 < e_end x))"
proof -
  have ok: "io_reliable io" "alloc_laws io used" "block_size_ok (sb io)" "free_laws io used" "journaled io"
    "space_inv (sb io) used s" "tree_map s (2 ^ 32 - 1) = None" "unat (sb_blocks_cnt (sb io)) \<le> 2 ^ 48"
    using assms(1,2) by (simp_all add: services_ok_def file_inv_def)
  from remove_space_deep [OF ok assms(3)]
  obtain r s' where r: "ext4_extent_remove_space fuel io f t s = Some (r, s')" "trimmed io used f t s r s'"
    "r = EOK \<or> inner f t (tree_extents s)" by blast
  with remove_step [OF assms(1,2) r(1)] show ?thesis
    by (auto simp: trimmed_def no_room_def inner_def word_le_nat_alt)
qed

lemma remove_space_correct_witness:
  "\<exists>r s'. ext4_extent_remove_space 10 pool_io 3 5 full_tree = Some (r, s')
    \<and> file_inv pool_sb set s' \<and> others set s' = others set full_tree
    \<and> (if r = EOK then tree_map s' = cut_map 3 5 (tree_map full_tree)
       else tree_map s' = tree_map full_tree \<and> (r = EFBIG \<and> root_depth s' = 5 \<or> alloc_error pool_io r))"
proof -
  have "2 * length (tree_extents full_tree) + 1 < 10" by (simp add: full_tree_inv(2) full_list_def)
  from remove_space_correct [OF pool_services pool_file this, of 3 5]
  show ?thesis unfolding pool_facts(1) by (auto split: if_splits)
qed

text \<open>C5: Refinement of the whole life of a file: after ext4_extent_tree_init, any history of
  lookups, allocations and removals, with the answers the code gave, is a history of the
  abstract machine \<open>map_step\<close> on the map from logical to physical blocks that starts with the
  empty map.  At its end the tree is well formed, every mapped block and every node is in use
  exactly once, and the blocks of everybody else are those from the beginning.\<close>

theorem file_histories_refine:
  assumes "services_ok io used" "length (root s) = 60" "lengths_ok (sb io) (nodes s)"
    and "history (file_step io) h (ext4_extent_tree_init io s) s'"
  shows "history map_step h Map.empty (tree_map s') \<and> space_inv (sb io) used s'
    \<and> others used s' = others used (ext4_extent_tree_init io s)"
  using requests.history_simulated [OF assms(4), of used] tree_init_file(1) [OF assms(2,3), of used]
    tree_init_file(2) [OF assms(2,3)] assms(1)
  by (simp add: file_inv_def)

lemma file_histories_refine_witness:
  "\<exists>a s'. history (file_step pool_io) [(Allocate 7 3, a)] (ext4_extent_tree_init pool_io full_tree) s'
    \<and> history map_step [(Allocate 7 3, a)] Map.empty (tree_map s') \<and> space_inv pool_sb set s'"
proof -
  have i: "length (root full_tree) = 60" "lengths_ok (sb pool_io) (nodes full_tree)"
    using full_tree_inv(1) by (simp_all add: tree_inv_def pool_facts) (simp add: full_tree_def demo_simps)
  obtain a s' where "file_step pool_io (Allocate 7 3) a (ext4_extent_tree_init pool_io full_tree) s'"
    using file_step_total [OF pool_services tree_init_file(1) [OF i], of "Allocate 7 3"] by auto
  then have "history (file_step pool_io) [(Allocate 7 3, a)] (ext4_extent_tree_init pool_io full_tree) s'"
    by (auto intro: history.intros)
  with file_histories_refine [OF pool_services i this] show ?thesis unfolding pool_facts(1) by blast
qed

text \<open>C27: Nothing is ever lost: after any history of lookups, allocations and removals that
  starts with ext4_extent_tree_init, removing all blocks ends with EOK, an empty map and the
  root as the only node, and exactly the blocks that were in use at the start are in use
  (block 0, which is never allocated, apart).\<close>

theorem truncate_gives_back:
  assumes "services_ok io used" "length (root s) = 60" "lengths_ok (sb io) (nodes s)"
    and "history (file_step io) h (ext4_extent_tree_init io s) s'" "2 * length (tree_extents s') + 1 < fuel"
  shows "\<exists>s''. ext4_extent_remove_space fuel io 0 0xFFFFFFFF s' = Some (EOK, s'')
    \<and> tree_map s'' = Map.empty \<and> root_depth s'' = 0
    \<and> used (env s'') - {0} = used (env (ext4_extent_tree_init io s)) - {0}"
proof -
  have "file_inv (sb io) used s'" "others used s' = others used (ext4_extent_tree_init io s)"
    using requests.history_simulated [OF assms(4), of used] tree_init_file(1) [OF assms(2,3), of used] assms(1) by simp_all
  with truncate_all [OF assms(1) _ assms(5)]
    empty_file(2) [OF tree_init_inv(1) [OF assms(2,3)] tree_init_inv(2) [OF assms(2,3)], of used]
  show ?thesis by auto
qed

lemma truncate_gives_back_witness:
  "\<exists>a s' s''. history (file_step pool_io) [(Allocate 7 3, a)] (ext4_extent_tree_init pool_io full_tree) s'
    \<and> ext4_extent_remove_space (2 * length (tree_extents s') + 2) pool_io 0 0xFFFFFFFF s' = Some (EOK, s'')
    \<and> tree_map s'' = Map.empty \<and> set (env s'') - {0} = set full_env - {0}"
proof -
  have i: "length (root full_tree) = 60" "lengths_ok (sb pool_io) (nodes full_tree)"
    using full_tree_inv(1) by (simp_all add: tree_inv_def pool_facts) (simp add: full_tree_def demo_simps)
  have e: "env (ext4_extent_tree_init pool_io full_tree) = full_env"
    by (simp add: ext4_extent_tree_init_def Let_def mark_dirty_def pool_io_def full_tree_def)
  obtain a s' where "file_step pool_io (Allocate 7 3) a (ext4_extent_tree_init pool_io full_tree) s'"
    using file_step_total [OF pool_services tree_init_file(1) [OF i], of "Allocate 7 3"] by auto
  then have h: "history (file_step pool_io) [(Allocate 7 3, a)] (ext4_extent_tree_init pool_io full_tree) s'"
    by (auto intro: history.intros)
  from truncate_gives_back [OF pool_services i h, of "2 * length (tree_extents s') + 2"] h e show ?thesis by auto
qed

text \<open>C20: find_next_extent on a tree of any depth returns the extent behind the one that
  find_extent found, in the order of the file's extents and across leaves, or ENOENT at the
  end; it changes neither nodes nor the blocks in use.\<close>

theorem find_next_extent_correct:
  assumes "io_reliable io" "alloc_laws io used" "tree_inv (sb io) used s" "tree_extents s \<noteq> []"
  shows "\<exists>p s1 k s2. find_extent io lb s = (Inr p, s1) \<and> search_pos (tree_extents s) (unat lb) k
    \<and> extent (leaf_of p) = tree_extents s ! k \<and> calm used s s2
    \<and> find_next_extent io p s1
      = ((if Suc k < length (tree_extents s) then Inr (tree_extents s ! Suc k) else Inl ENOENT), s2)"
proof -
  obtain p s1 ns where f: "find_extent io lb s = (Inr p, s1)" "calm used s s1" "walked s lb p ns"
    using find_extent_walked [OF assms(1-3)] by blast
  have s1: "walked s1 lb p ns" "tree_inv (sb io) used s1" "tree_extents s1 = tree_extents s"
    using f(2,3) assms(3) walked_calm [OF f(2)] calm_inv [OF f(2)] by simp_all
  note fp = found_pos(1,2) [OF s1(1,2), unfolded s1(3), OF assms(4)]
  from find_next_extent_ok [OF assms(1,2) s1(1,2), unfolded s1(3), OF assms(4)] calm_trans [OF f(2)]
  obtain s2 where "find_next_extent io p s1 = ((if Suc (found_pos s1 p ns) < length (tree_extents s)
      then Inr (tree_extents s ! Suc (found_pos s1 p ns)) else Inl ENOENT), s2)" "calm used s s2" by blast
  with f(1) fp show ?thesis by blast
qed

lemma find_next_extent_correct_witness:
  "\<exists>p s1 k s2. find_extent pool_io 22 full_tree = (Inr p, s1) \<and> search_pos full_list 22 k
    \<and> find_next_extent pool_io p s1 = ((if Suc k < 4 then Inr (full_list ! Suc k) else Inl ENOENT), s2)"
proof -
  have "tree_extents full_tree \<noteq> []" "length full_list = 4" by (simp_all add: full_tree_inv(2) full_list_def)
  with find_next_extent_correct [OF pool_hyps(1,2,4), of 22] show ?thesis
    unfolding full_tree_inv(2) by auto
qed

end
