(* ===== verification/Port_Device.thy ===== *)
theory Port_Device
  imports Prelude
begin

text \<open>
  What the two block-device adapters and the format helper share: lwext4's view of a block
  device, the caller's buffers, the services of FreeRTOS and the heap, the error table, and
  the contracts.  size_t has the 32 bits it has on the ESP32 family.

  The contract \<open>chunked\<close> is the transfer loop the four read and write functions have in
  common; \<open>block_device\<close> is what lwext4 expects of a device: reads return the blocks of one
  flat array of bytes, and writes replace exactly the blocks they name.
\<close>

section \<open>Error translation and powers of two\<close>

fun esp_error_to_lwext4 :: "esp_err \<Rightarrow> errno" where
  "esp_error_to_lwext4 ESP_OK = EOK"
| "esp_error_to_lwext4 ESP_ERR_INVALID_ARG = EINVAL"
| "esp_error_to_lwext4 ESP_ERR_INVALID_SIZE = EINVAL"
| "esp_error_to_lwext4 ESP_ERR_INVALID_STATE = EINVAL"
| "esp_error_to_lwext4 ESP_ERR_NO_MEM = ENOMEM"
| "esp_error_to_lwext4 ESP_ERR_NOT_SUPPORTED = ENOTSUP"
| "esp_error_to_lwext4 ESP_ERR_NOT_FOUND = ENOENT"
| "esp_error_to_lwext4 _ = EIO"

lemma esp_error_EOK_iff [simp]: "esp_error_to_lwext4 e = EOK \<longleftrightarrow> e = ESP_OK"
  by (cases e) simp_all

definition is_power_of_two :: "u32 \<Rightarrow> bool" where
  "is_power_of_two v \<longleftrightarrow> v \<noteq> 0 \<and> v AND (v - 1) = 0"

lemma and_double_pred: "(2 * Suc m) AND (2 * Suc m - 1) = 2 * (Suc m AND m)"
proof -
  have "2 * Suc m - 1 = Suc (2 * m)" by simp
  moreover have "(2 * Suc m) AND Suc (2 * m) = 2 * (Suc m AND m)"
    by (subst and_nat_rec) simp
  ultimately show ?thesis by metis
qed

lemma nat_and_pred_power: "n AND (n - 1) = 0 \<Longrightarrow> 0 < (n :: nat) \<Longrightarrow> \<exists>k. n = 2 ^ k"
proof (induction n rule: less_induct)
  case (less n)
  show ?case
  proof (cases "even n")
    case True
    with less.prems obtain m where n: "n = 2 * Suc m"
      by (metis evenE gr0_implies_Suc mult_pos_pos nat_0_less_mult_iff)
    then have "Suc m AND m = 0" using less.prems(1) and_double_pred [of m] by simp
    with less.IH [of "Suc m"] n obtain k where "Suc m = 2 ^ k" by auto
    then show ?thesis using n by (metis power_Suc)
  next
    case False
    then obtain m where n: "n = Suc (2 * m)" by (metis oddE Suc_eq_plus1)
    have "n AND (n - 1) = 2 * m" unfolding n by (subst and_nat_rec) simp
    with less.prems n have "n = 2 ^ 0" by simp
    then show ?thesis ..
  qed
qed

lemma is_power_of_two_iff: "is_power_of_two v \<longleftrightarrow> (\<exists>k. unat v = 2 ^ k)"
proof
  assume p: "is_power_of_two v"
  then have "0 < unat v" by (simp add: is_power_of_two_def unat_gt_0)
  moreover have "unat v AND (unat v - 1) = unat (v AND (v - 1))"
  proof -
    from p have "v \<noteq> 0" by (simp add: is_power_of_two_def)
    then show ?thesis by (simp add: unsigned_and_eq unat_minus_one)
  qed
  then have "unat v AND (unat v - 1) = 0" using p by (metis is_power_of_two_def unat_0)
  ultimately show "\<exists>k. unat v = 2 ^ k" by (intro nat_and_pred_power)
next
  assume "\<exists>k. unat v = 2 ^ k"
  then obtain k where k: "unat v = 2 ^ k" ..
  then have v: "v \<noteq> 0" by auto
  have "unat (v AND (v - 1)) = 2 ^ k AND (2 ^ k - 1)"
    using v by (simp add: unsigned_and_eq unat_minus_one k)
  also have "\<dots> = take_bit k (2 ^ k)" by (simp add: take_bit_eq_mask mask_eq_exp_minus_1)
  finally show "is_power_of_two v" using v by (simp add: is_power_of_two_def unat_eq_zero)
qed

section \<open>Devices, buffers, services\<close>

text \<open>
  A \<open>struct ext4_blockdev *\<close> as the callbacks see it: NULL, without an interface, or with
  the interface's p_user pointer.
\<close>

datatype 'u bdev_ref = Null_bdev | No_bdif | P_user "'u option"

fun adapter_from_bdev :: "'u bdev_ref \<Rightarrow> 'u option" where
  "adapter_from_bdev (P_user u) = u"
| "adapter_from_bdev _ = None"

text \<open>
  The buffer argument of a transfer: NULL, the adapter's own transfer buffer (lwext4 passes
  it back as ph_bbuf), or memory of the caller.
\<close>

datatype io_buffer = Null_buffer | Transfer_buffer | Caller_buffer bytes

text \<open>The memcpy between the transfer buffer \<open>tb\<close> and the caller's buffer at \<open>off\<close>, skipped
  when the pointers are equal.\<close>

fun copy_out :: "io_buffer \<Rightarrow> nat \<Rightarrow> nat \<Rightarrow> bytes \<Rightarrow> io_buffer \<times> bytes" where
  "copy_out (Caller_buffer d) off n tb = (Caller_buffer (mem_write off (mem_read 0 n tb) d), tb)"
| "copy_out Transfer_buffer off n tb = (Transfer_buffer, if off = 0 then tb else mem_move off 0 n tb)"
| "copy_out Null_buffer off n tb = (Null_buffer, tb)"

fun copy_in :: "io_buffer \<Rightarrow> nat \<Rightarrow> nat \<Rightarrow> bytes \<Rightarrow> bytes" where
  "copy_in (Caller_buffer d) off n tb = mem_write 0 (mem_read off n d) tb"
| "copy_in Transfer_buffer off n tb = (if off = 0 then tb else mem_move 0 off n tb)"
| "copy_in Null_buffer off n tb = tb"

text \<open>What a buffer holds, given the transfer buffer.\<close>

fun buffer_bytes :: "io_buffer \<Rightarrow> bytes \<Rightarrow> bytes" where
  "buffer_bytes (Caller_buffer d) tb = d"
| "buffer_bytes Transfer_buffer tb = tb"
| "buffer_bytes Null_buffer tb = []"

text \<open>
  FreeRTOS and the ESP-IDF heap, on a world \<open>'w\<close> that also holds the lower device's state.
  A boolean is the test against pdTRUE or NULL.
\<close>

record 'w platform =
  xSemaphoreTakeRecursive :: "'w \<Rightarrow> bool \<times> 'w"
  xSemaphoreGiveRecursive :: "'w \<Rightarrow> bool \<times> 'w"
  xSemaphoreCreateRecursiveMutex :: "'w \<Rightarrow> bool \<times> 'w"
  vSemaphoreDelete :: "'w \<Rightarrow> 'w"
  calloc_ok :: "'w \<Rightarrow> bool \<times> 'w"
  heap_free :: "'w \<Rightarrow> 'w"
  heap_caps_aligned_alloc :: "u32 \<Rightarrow> u32 \<Rightarrow> u32 \<Rightarrow> 'w \<Rightarrow> bytes option \<times> 'w"
  heap_caps_free :: "bytes option \<Rightarrow> 'w \<Rightarrow> 'w"
  malloc_cap_8bit :: u32

text \<open>
  What the FreeRTOS and heap documentation promises about resources: \<open>live\<close> counts the
  allocations and mutexes that exist.  An aligned allocation has the size asked for.
\<close>

definition counts :: "('w \<Rightarrow> int) \<Rightarrow> 'w platform \<Rightarrow> bool" where
  "counts live P \<longleftrightarrow>
     (\<forall>w. live (snd (xSemaphoreTakeRecursive P w)) = live w)
     \<and> (\<forall>w. live (snd (xSemaphoreGiveRecursive P w)) = live w)
     \<and> (\<forall>w. live (snd (calloc_ok P w)) = live w + (if fst (calloc_ok P w) then 1 else 0))
     \<and> (\<forall>w. live (snd (xSemaphoreCreateRecursiveMutex P w))
           = live w + (if fst (xSemaphoreCreateRecursiveMutex P w) then 1 else 0))
     \<and> (\<forall>al n caps w. live (snd (heap_caps_aligned_alloc P al n caps w))
           = live w + (if fst (heap_caps_aligned_alloc P al n caps w) = None then 0 else 1))
     \<and> (\<forall>w. live (vSemaphoreDelete P w) = live w - 1) \<and> (\<forall>w. live (heap_free P w) = live w - 1)
     \<and> (\<forall>tb w. live (heap_caps_free P tb w) = live w - (if tb = None then 0 else 1))"

text \<open>FreeRTOS and the heap do not touch the device.\<close>

definition platform_keeps :: "('w \<Rightarrow> bytes) \<Rightarrow> 'w platform \<Rightarrow> bool" where
  "platform_keeps contents P \<longleftrightarrow> (\<forall>w. contents (snd (xSemaphoreTakeRecursive P w)) = contents w
     \<and> contents (snd (xSemaphoreGiveRecursive P w)) = contents w
     \<and> contents (snd (calloc_ok P w)) = contents w \<and> contents (heap_free P w) = contents w)"

definition alloc_sized :: "'w platform \<Rightarrow> bool" where
  "alloc_sized P \<longleftrightarrow> (\<forall>al n caps w tb. fst (heap_caps_aligned_alloc P al n caps w) = Some tb
     \<longrightarrow> length tb = unat n)"

text \<open>Build configuration: the Kconfig choices and the constants of lwext4's headers.\<close>

record port_config =
  extents_enable :: bool
  round_to_full_groups :: bool
  feature_set_ext4 :: bool
  feature_set_ext3 :: bool
  f_set_ext2 :: u32
  f_set_ext3 :: u32
  f_set_ext4 :: u32
  ext4_max_block_size :: u32

abbreviation SIZE_MAX :: u32 where "SIZE_MAX \<equiv> 0xFFFFFFFF"

lemma div_bound_mult: "(n :: u32) \<le> SIZE_MAX div b \<Longrightarrow> unat n * unat b < 2 ^ 32"
proof -
  assume "n \<le> SIZE_MAX div b"
  then have "unat n \<le> 4294967295 div unat b" by (simp add: word_le_nat_alt unat_div)
  then have "unat n * unat b \<le> (4294967295 div unat b) * unat b" by simp
  also have "\<dots> \<le> 4294967295" by simp
  finally show ?thesis by simp
qed

section \<open>The transfer loop\<close>

text \<open>
  \<open>run n pos off s\<close> transfers \<open>n\<close> blocks in chunks of at most \<open>maxb\<close>, from device position
  \<open>pos\<close> and buffer offset \<open>off\<close>; the first error ends it.  With a buffer of no block the loop
  of the code would not end.
\<close>

locale chunked =
  fixes run :: "u32 \<Rightarrow> u64 \<Rightarrow> nat \<Rightarrow> 's \<Rightarrow> (errno \<times> 's) option"
    and chunk :: "u32 \<Rightarrow> u64 \<Rightarrow> nat \<Rightarrow> 's \<Rightarrow> errno \<times> 's"
    and adv :: "'s \<Rightarrow> u32 \<Rightarrow> u64"
    and maxb :: "'s \<Rightarrow> u32"
    and bsz :: "'s \<Rightarrow> u32"
    and stride :: "'s \<Rightarrow> u64"
  assumes run_unfold: "run n pos off s =
      (if n \<noteq> 0 then
         (let c = (if n > maxb s then maxb s else n) in
          case chunk c pos off s of (r, s') \<Rightarrow>
          if r \<noteq> EOK then Some (r, s')
          else run (n - c) (pos + adv s c) (off + unat (c * bsz s)) s')
       else Some (EOK, s))"
    and chunk_same: "chunk c pos off s = (r, s') \<Longrightarrow>
      maxb s' = maxb s \<and> bsz s' = bsz s \<and> stride s' = stride s"
    and adv_stride: "unat c * unat (bsz s) < 2 ^ 32 \<Longrightarrow> adv s c = of_nat (unat c) * stride s"
begin

lemma run_rule_aux:
  assumes step: "\<And>k c t r t'. \<lbrakk>J k t; 0 < unat c; k + unat c \<le> goal_n; unat c = min (goal_n - k) (unat m);
      chunk c (pos0 + of_nat k * w) (k * b) t = (r, t')\<rbrakk>
      \<Longrightarrow> (if r = EOK then J (k + unat c) t' else Q r t')"
    and m: "m \<noteq> 0" "unat m * b < 2 ^ 32"
    and inv: "J k s" "maxb s = m" "unat (bsz s) = b" "stride s = w"
    and n: "k + unat n = goal_n"
  shows "\<exists>r s'. run n (pos0 + of_nat k * w) (k * b) s = Some (r, s')
    \<and> (if r = EOK then J goal_n s' else Q r s')"
  using inv n
proof (induction "unat n" arbitrary: n k s rule: less_induct)
  case less
  show ?case
  proof (cases "n = 0")
    case True
    then show ?thesis using less.prems by (simp add: run_unfold)
  next
    case False
    define c where "c = (if n > m then m else n)"
    have cm: "unat c = min (unat n) (unat m)" by (simp add: c_def word_less_nat_alt min_def)
    then have c: "0 < unat c" "unat c \<le> unat m" "unat c \<le> unat n"
      using False m(1) by (auto simp: unat_gt_0)
    have small: "unat c * b < 2 ^ 32" using c(2) m(2) by (meson le_less_trans mult_le_mono1)
    obtain r t where ch: "chunk c (pos0 + of_nat k * w) (k * b) s = (r, t)" by fastforce
    have st: "if r = EOK then J (k + unat c) t else Q r t"
      by (rule step [OF less.prems(1) c(1) _ _ ch]) (use cm c(3) less.prems(5) in auto)
    have un: "run n (pos0 + of_nat k * w) (k * b) s = (if r \<noteq> EOK then Some (r, t)
        else run (n - c) (pos0 + of_nat k * w + adv s c) (k * b + unat (c * bsz s)) t)"
    proof -
      have ce: "(if n > maxb s then maxb s else n) = c" by (simp add: c_def less.prems(2))
      show ?thesis
        unfolding run_unfold [of n "pos0 + of_nat k * w" "k * b" s] Let_def ce ch prod.case
        using False by (simp only: not_False_eq_True if_True if_False)
    qed
    show ?thesis
    proof (cases "r = EOK")
      case True
      have eqs: "pos0 + of_nat k * w + adv s c = pos0 + of_nat (k + unat c) * w"
        "k * b + unat (c * bsz s) = (k + unat c) * b"
        using small less.prems(3,4) adv_stride [of c s]
        by (simp_all add: distrib_right unat_mult_lem [THEN iffD1])
      have "unat (n - c) = unat n - unat c" using c(3) by (simp add: unat_sub word_le_nat_alt)
      then have "\<exists>r s'. run (n - c) (pos0 + of_nat (k + unat c) * w) ((k + unat c) * b) t = Some (r, s')
          \<and> (if r = EOK then J goal_n s' else Q r s')"
        using c less.prems chunk_same [OF ch] st True by (intro less.hyps) simp_all
      with un eqs True show ?thesis by simp
    next
      case False
      with un st show ?thesis by simp
    qed
  qed
qed

text \<open>The loop ends, and an invariant of the chunks that counts the blocks done holds for the
  whole transfer, or the first failing chunk's condition does.\<close>

lemma run_rule:
  assumes "maxb s \<noteq> 0" "unat (maxb s) * unat (bsz s) < 2 ^ 32" "J 0 s"
    and "\<And>k c t r t'. \<lbrakk>J k t; 0 < unat c; k + unat c \<le> unat n; unat c = min (unat n - k) (unat (maxb s));
      chunk c (pos + of_nat k * stride s) (k * unat (bsz s)) t = (r, t')\<rbrakk>
      \<Longrightarrow> (if r = EOK then J (k + unat c) t' else Q r t')"
  shows "\<exists>r s'. run n pos 0 s = Some (r, s') \<and> (if r = EOK then J (unat n) s' else Q r s')"
  using run_rule_aux [of J "unat n" "maxb s" pos "stride s" "unat (bsz s)" Q 0 s n, OF assms(4,1,2,3)]
  by simp

lemma run_returns:
  assumes "maxb s \<noteq> 0" "unat (maxb s) * unat (bsz s) < 2 ^ 32"
  shows "\<exists>r s'. run n pos 0 s = Some (r, s')"
proof -
  have "\<exists>r s'. run n pos 0 s = Some (r, s') \<and> (if r = EOK then True else True)"
    by (rule run_rule [OF assms, of "\<lambda>_ _. True"]) simp_all
  then show ?thesis by auto
qed

lemma run_succeeds:
  assumes "maxb s \<noteq> 0" "unat (maxb s) * unat (bsz s) < 2 ^ 32" "J s"
    and "\<And>c p off t r t'. J t \<Longrightarrow> chunk c p off t = (r, t') \<Longrightarrow> r = EOK \<and> J t'"
  shows "\<exists>s'. run n pos 0 s = Some (EOK, s')"
proof -
  have "\<exists>r s'. run n pos 0 s = Some (r, s') \<and> (if r = EOK then J s' else False)"
    by (rule run_rule [OF assms(1,2), of "\<lambda>_. J"]) (use assms(3,4) in auto)
  then show ?thesis by (auto split: if_splits)
qed

end

section \<open>The block-device contract\<close>

text \<open>
  \<open>disk\<close> is the flat array behind the device, \<open>tbuf\<close> the transfer buffer, \<open>B\<close> the block
  size and \<open>ok\<close> the device's invariant.
\<close>

definition same_outside :: "nat \<Rightarrow> nat \<Rightarrow> bytes \<Rightarrow> bytes \<Rightarrow> bool" where
  "same_outside off n d d' \<longleftrightarrow> length d' = length d
     \<and> (\<forall>i < length d. i < off \<or> off + n \<le> i \<longrightarrow> d' ! i = d ! i)"

lemma same_outside_refl [simp]: "same_outside off n d d"
  by (simp add: same_outside_def)

lemma same_outside_write [intro]:
  "off + length bs \<le> length d \<Longrightarrow> length bs \<le> n \<Longrightarrow> same_outside off n d (mem_write off bs d)"
  by (auto simp: same_outside_def mem_simps)

lemma same_outside_trans:
  "same_outside off n d d' \<Longrightarrow> same_outside off n d' d'' \<Longrightarrow> same_outside off n d d''"
  by (simp add: same_outside_def)

lemma same_outside_mono:
  "same_outside off n d d' \<Longrightarrow> off' \<le> off \<Longrightarrow> off + n \<le> off' + n' \<Longrightarrow> same_outside off' n' d d'"
  by (auto simp: same_outside_def)

lemma same_outside_read:
  "same_outside off n d d' \<Longrightarrow> a + m \<le> length d \<Longrightarrow> a + m \<le> off \<or> off + n \<le> a
    \<Longrightarrow> mem_read a m d' = mem_read a m d"
  by (intro nth_equalityI) (auto simp: same_outside_def mem_simps)

definition read_into :: "io_buffer \<Rightarrow> bytes \<Rightarrow> io_buffer" where
  "read_into buf bs = (case buf of Caller_buffer d \<Rightarrow> Caller_buffer (mem_write 0 bs d) | _ \<Rightarrow> buf)"

locale block_device =
  fixes bread :: "io_buffer \<Rightarrow> u64 \<Rightarrow> u32 \<Rightarrow> 's \<Rightarrow> (errno \<times> io_buffer \<times> 's) option"
    and bwrite :: "io_buffer \<Rightarrow> u64 \<Rightarrow> u32 \<Rightarrow> 's \<Rightarrow> (errno \<times> 's) option"
    and ok :: "'s \<Rightarrow> bool"
    and disk :: "'s \<Rightarrow> bytes"
    and tbuf :: "'s \<Rightarrow> bytes"
    and B :: nat
  assumes read_law: "ok s \<Longrightarrow> buf \<noteq> Null_buffer \<Longrightarrow> unat n * B \<le> length (buffer_bytes buf (tbuf s)) \<Longrightarrow>
      \<exists>r buf' s'. bread buf b n s = Some (r, buf', s') \<and> ok s' \<and> disk s' = disk s
        \<and> length (tbuf s') = length (tbuf s)
        \<and> (r = EOK \<longrightarrow> buf' = read_into buf (mem_read (unat b * B) (unat n * B) (disk s))
             \<and> mem_read 0 (unat n * B) (buffer_bytes buf' (tbuf s'))
               = mem_read (unat b * B) (unat n * B) (disk s)
             \<and> (n \<noteq> 0 \<longrightarrow> (unat b + unat n) * B \<le> length (disk s)))"
    and write_law: "ok s \<Longrightarrow> buf \<noteq> Null_buffer \<Longrightarrow> unat n * B \<le> length (buffer_bytes buf (tbuf s)) \<Longrightarrow>
      \<exists>r s'. bwrite buf b n s = Some (r, s') \<and> ok s'
        \<and> length (tbuf s') = length (tbuf s)
        \<and> same_outside (unat b * B) (unat n * B) (disk s) (disk s')
        \<and> (r = EOK \<longrightarrow>
             disk s' = mem_write (unat b * B) (mem_read 0 (unat n * B) (buffer_bytes buf (tbuf s))) (disk s)
             \<and> (n \<noteq> 0 \<longrightarrow> (unat b + unat n) * B \<le> length (disk s)))"
begin

text \<open>What is written is what is read back.\<close>

lemma write_read:
  assumes "ok s" "unat n * B \<le> length d" "unat n * B \<le> length e" "n \<noteq> 0"
    and "bwrite (Caller_buffer d) b n s = Some (EOK, s1)"
    and "bread (Caller_buffer e) b n s1 = Some (EOK, buf, s2)"
  shows "buf = Caller_buffer (mem_write 0 (mem_read 0 (unat n * B) d) e)"
proof -
  from write_law [OF assms(1), of "Caller_buffer d" n b] assms(2,4,5)
  have w: "ok s1" "disk s1 = mem_write (unat b * B) (mem_read 0 (unat n * B) d) (disk s)"
    "(unat b + unat n) * B \<le> length (disk s)" by auto
  from read_law [OF w(1), of "Caller_buffer e" n b] assms(3,6)
  have "buf = read_into (Caller_buffer e) (mem_read (unat b * B) (unat n * B) (disk s1))" by auto
  with w(2,3) assms(2) show ?thesis by (simp add: read_into_def mem_simps distrib_right)
qed

text \<open>A write, complete or failed, does not change what other blocks read as.\<close>

lemma write_elsewhere:
  assumes "ok s" "unat n * B \<le> length d" "unat m * B \<le> length e" "m \<noteq> 0"
    and "bwrite (Caller_buffer d) b n s = Some (r, s1)"
    and "bread (Caller_buffer e) c m s1 = Some (EOK, buf, s2)"
    and "unat c + unat m \<le> unat b \<or> unat b + unat n \<le> unat c"
  shows "buf = Caller_buffer (mem_write 0 (mem_read (unat c * B) (unat m * B) (disk s)) e)"
proof -
  from write_law [OF assms(1), of "Caller_buffer d" n b] assms(2,5)
  have w: "ok s1" "same_outside (unat b * B) (unat n * B) (disk s) (disk s1)" by auto
  from read_law [OF w(1), of "Caller_buffer e" m c] assms(3,4,6)
  have r: "buf = read_into (Caller_buffer e) (mem_read (unat c * B) (unat m * B) (disk s1))"
    "(unat c + unat m) * B \<le> length (disk s)" using w(2) by (auto simp: same_outside_def)
  have "unat c * B + unat m * B \<le> unat b * B \<or> unat b * B + unat n * B \<le> unat c * B"
    using assms(7) by (metis distrib_right mult_le_mono1)
  then have "mem_read (unat c * B) (unat m * B) (disk s1) = mem_read (unat c * B) (unat m * B) (disk s)"
    using r(2) by (intro same_outside_read [OF w(2)]) (simp_all add: distrib_right)
  with r show ?thesis by (simp add: read_into_def)
qed

end

end
