(* ===== verification/Port_Format.thy ===== *)
theory Port_Format
  imports Port_Device
begin

text \<open>
  port/lwext4_port_format.c: the shared format helper.  It checks the parameters, optionally
  rounds the length down to whole block groups, and runs lwext4's ext4_mkfs (a parameter) on
  a wrapper device that locks every transfer and reports progress.
\<close>

section \<open>A block device seen through its interface\<close>

text \<open>
  \<open>struct ext4_blockdev\<close> with its interface, over the state \<open>'s\<close> the callbacks work on.
\<close>

record 's bdev_iface =
  if_open :: "'s \<Rightarrow> errno \<times> 's"
  if_bread :: "io_buffer \<Rightarrow> u64 \<Rightarrow> u32 \<Rightarrow> 's \<Rightarrow> (errno \<times> io_buffer \<times> 's) option"
  if_bwrite :: "io_buffer \<Rightarrow> u64 \<Rightarrow> u32 \<Rightarrow> 's \<Rightarrow> (errno \<times> 's) option"
  if_close :: "'s \<Rightarrow> errno \<times> 's"
  if_lock :: "('s \<Rightarrow> errno \<times> 's) option"
  if_unlock :: "('s \<Rightarrow> errno \<times> 's) option"
  if_ph_bsize :: u32
  if_ph_bcnt :: u64
  bd_part_offset :: u64
  bd_part_size :: u64

text \<open>A lock or unlock callback that may be NULL.\<close>

definition call_opt :: "('s \<Rightarrow> errno \<times> 's) option \<Rightarrow> 's \<Rightarrow> errno \<times> 's" where
  "call_opt f s = (case f of None \<Rightarrow> (EOK, s) | Some g \<Rightarrow> g s)"

section \<open>The wrapper\<close>

text \<open>
  \<open>struct lwext4_port_format_wrapper\<close>: \<open>inner_iface\<close> is \<open>inner->bdif\<close> (\<open>None\<close> when either
  pointer is NULL) on the state \<open>inner_state\<close>; the progress callback works on the caller's
  state \<open>caller\<close> (its progress_arg).
\<close>

record ('s, 'c) format_wrapper =
  inner_iface :: "'s bdev_iface option"
  inner_state :: 's
  blocks_since_progress :: u32
  blocks_read :: u64
  blocks_written :: u64
  progress :: "(u64 \<Rightarrow> u64 \<Rightarrow> 'c \<Rightarrow> 'c) option"
  caller :: 'c
  wr_ph_bsize :: u32
  wr_ph_bcnt :: u64
  wr_part_offset :: u64
  wr_part_size :: u64

abbreviation PROGRESS_INTERVAL_BLOCKS :: u32 where "PROGRESS_INTERVAL_BLOCKS \<equiv> 4096"

definition format_wrapper_open ::
  "('s, 'c) format_wrapper bdev_ref \<Rightarrow> errno \<times> ('s, 'c) format_wrapper bdev_ref" where
  "format_wrapper_open bdev =
     (case adapter_from_bdev bdev of None \<Rightarrow> (EINVAL, bdev)
      | Some w \<Rightarrow>
          (case inner_iface w of None \<Rightarrow> (EINVAL, bdev)
           | Some i \<Rightarrow> (case if_open i (inner_state w) of (rc, s) \<Rightarrow>
               (rc, P_user (Some (w\<lparr>inner_state := s\<rparr>))))))"

definition format_wrapper_close ::
  "('s, 'c) format_wrapper bdev_ref \<Rightarrow> errno \<times> ('s, 'c) format_wrapper bdev_ref" where
  "format_wrapper_close bdev =
     (case adapter_from_bdev bdev of None \<Rightarrow> (EINVAL, bdev)
      | Some w \<Rightarrow>
          (case inner_iface w of None \<Rightarrow> (EINVAL, bdev)
           | Some i \<Rightarrow> (case if_close i (inner_state w) of (rc, s) \<Rightarrow>
               (rc, P_user (Some (w\<lparr>inner_state := s\<rparr>))))))"

definition format_wrapper_report :: "('s, 'c) format_wrapper \<Rightarrow> ('s, 'c) format_wrapper" where
  "format_wrapper_report w =
     (let w1 = w\<lparr>blocks_since_progress := 0\<rparr>
      in w1\<lparr>caller := the (progress w1) (blocks_read w1 * ucast (wr_ph_bsize w1))
              (blocks_written w1 * ucast (wr_ph_bsize w1)) (caller w1)\<rparr>)"

definition format_wrapper_account :: "u32 \<Rightarrow> ('s, 'c) format_wrapper \<Rightarrow> ('s, 'c) format_wrapper" where
  "format_wrapper_account block_count w =
     (if progress w = None then w
      else
        let w1 = w\<lparr>blocks_since_progress :=
              (if 0xFFFFFFFF - blocks_since_progress w < block_count then PROGRESS_INTERVAL_BLOCKS
               else blocks_since_progress w + block_count)\<rparr> in
        if blocks_since_progress w1 \<ge> PROGRESS_INTERVAL_BLOCKS then format_wrapper_report w1 else w1)"

definition format_wrapper_read ::
  "io_buffer \<Rightarrow> u64 \<Rightarrow> u32 \<Rightarrow> ('s, 'c) format_wrapper bdev_ref
     \<Rightarrow> (errno \<times> io_buffer \<times> ('s, 'c) format_wrapper bdev_ref) option" where
  "format_wrapper_read buffer block_id block_count bdev =
     (case adapter_from_bdev bdev of None \<Rightarrow> Some (EINVAL, buffer, bdev)
      | Some w \<Rightarrow>
          (case inner_iface w of None \<Rightarrow> Some (EINVAL, buffer, bdev)
           | Some i \<Rightarrow>
               (case call_opt (if_lock i) (inner_state w) of (rc, s1) \<Rightarrow>
                if rc \<noteq> EOK then Some (rc, buffer, P_user (Some (w\<lparr>inner_state := s1\<rparr>)))
                else
                  (case if_bread i buffer block_id block_count s1 of
                     None \<Rightarrow> None
                   | Some (rc, buffer', s2) \<Rightarrow>
                       (case call_opt (if_unlock i) s2 of (unlock_rc, s3) \<Rightarrow>
                        let rc' = (if rc = EOK then unlock_rc else rc); w1 = w\<lparr>inner_state := s3\<rparr> in
                        Some (rc', buffer', P_user (Some
                          (if rc' = EOK then
                             format_wrapper_account block_count
                               (w1\<lparr>blocks_read := blocks_read w1 + ucast block_count\<rparr>)
                           else w1))))))))"

definition format_wrapper_write ::
  "io_buffer \<Rightarrow> u64 \<Rightarrow> u32 \<Rightarrow> ('s, 'c) format_wrapper bdev_ref
     \<Rightarrow> (errno \<times> ('s, 'c) format_wrapper bdev_ref) option" where
  "format_wrapper_write buffer block_id block_count bdev =
     (case adapter_from_bdev bdev of None \<Rightarrow> Some (EINVAL, bdev)
      | Some w \<Rightarrow>
          (case inner_iface w of None \<Rightarrow> Some (EINVAL, bdev)
           | Some i \<Rightarrow>
               (case call_opt (if_lock i) (inner_state w) of (rc, s1) \<Rightarrow>
                if rc \<noteq> EOK then Some (rc, P_user (Some (w\<lparr>inner_state := s1\<rparr>)))
                else
                  (case if_bwrite i buffer block_id block_count s1 of
                     None \<Rightarrow> None
                   | Some (rc, s2) \<Rightarrow>
                       (case call_opt (if_unlock i) s2 of (unlock_rc, s3) \<Rightarrow>
                        let rc' = (if rc = EOK then unlock_rc else rc); w1 = w\<lparr>inner_state := s3\<rparr> in
                        Some (rc', P_user (Some
                          (if rc' = EOK then
                             format_wrapper_account block_count
                               (w1\<lparr>blocks_written := blocks_written w1 + ucast block_count\<rparr>)
                           else w1))))))))"

definition format_wrapper_init ::
  "'s bdev_iface \<Rightarrow> 's \<Rightarrow> (u64 \<Rightarrow> u64 \<Rightarrow> 'c \<Rightarrow> 'c) option \<Rightarrow> 'c \<Rightarrow> ('s, 'c) format_wrapper" where
  "format_wrapper_init i s prog c =
     \<lparr>inner_iface = Some i, inner_state = s, blocks_since_progress = 0, blocks_read = 0,
      blocks_written = 0, progress = prog, caller = c, wr_ph_bsize = if_ph_bsize i,
      wr_ph_bcnt = if_ph_bcnt i, wr_part_offset = bd_part_offset i, wr_part_size = bd_part_size i\<rparr>"

section \<open>Formatting\<close>

text \<open>\<open>lwext4_port_bdl_format_config_t\<close> and lwext4's \<open>struct ext4_mkfs_info\<close>.\<close>

record 'c format_config =
  fc_block_size :: u32
  fc_inode_size :: u32
  fc_inodes :: u32
  fc_journal_blocks :: u32
  fc_journal :: bool
  fc_label :: "string option"
  fc_feature_set :: u32
  fc_progress :: "(u64 \<Rightarrow> u64 \<Rightarrow> 'c \<Rightarrow> 'c) option"

record mkfs_info =
  mi_len :: u64
  mi_block_size :: u32
  mi_blocks_per_group :: u32
  mi_inode_size :: u32
  mi_inodes :: u32
  mi_journal_blocks :: u32
  mi_journal :: bool
  mi_label :: string

definition format_info :: "u64 \<Rightarrow> 'c format_config \<Rightarrow> mkfs_info" where
  "format_info part_size config =
     \<lparr>mi_len = part_size,
      mi_block_size = (if fc_block_size config \<noteq> 0 then fc_block_size config else 4096),
      mi_blocks_per_group = 0, mi_inode_size = fc_inode_size config, mi_inodes = fc_inodes config,
      mi_journal_blocks = fc_journal_blocks config, mi_journal = fc_journal config,
      mi_label = (case fc_label config of None \<Rightarrow> '''' | Some l \<Rightarrow> l)\<rparr>"

text \<open>The feature sets the adapters accept; 0 selects the configured default.\<close>

definition feature_set_known :: "port_config \<Rightarrow> u32 \<Rightarrow> bool" where
  "feature_set_known K fs \<longleftrightarrow> fs = 0 \<or> fs = f_set_ext2 K \<or> fs = f_set_ext3 K
     \<or> extents_enable K \<and> fs = f_set_ext4 K"

text \<open>The checks and the rounding to whole groups, up to the choice of the feature set.\<close>

definition format_checks :: "port_config \<Rightarrow> mkfs_info \<Rightarrow> esp_err + mkfs_info" where
  "format_checks K info =
     (let bs = mi_block_size info; ino = mi_inode_size info in
      if bs < 1024 \<or> bs > ext4_max_block_size K \<or> bs > 0xFFFFFFFF div 8 then Inl ESP_ERR_INVALID_SIZE
      else if ino \<noteq> 0 \<and> (ino < 128 \<or> ino > bs \<or> \<not> is_power_of_two ino) then Inl ESP_ERR_INVALID_ARG
      else if round_to_full_groups K then
        (let blocks_per_group = bs * 8;
             group_bytes = ucast blocks_per_group * ucast bs :: u64;
             rounded_len = (mi_len info div group_bytes) * group_bytes in
         if rounded_len = 0 then Inl ESP_ERR_INVALID_SIZE
         else Inr (info\<lparr>mi_blocks_per_group := blocks_per_group, mi_len := rounded_len\<rparr>))
      else Inr info)"

definition format_feature_set :: "port_config \<Rightarrow> u32 \<Rightarrow> u32" where
  "format_feature_set K requested =
     (if requested \<noteq> 0 then requested
      else if feature_set_ext4 K then f_set_ext4 K
      else if feature_set_ext3 K then f_set_ext3 K else f_set_ext2 K)"

text \<open>
  \<open>dev\<close> is \<open>None\<close> when bdev or its bdif is NULL; \<open>alloc\<close> and \<open>release\<close> are the calloc and
  free of the \<open>struct ext4_fs\<close>; \<open>mkfs\<close> is ext4_mkfs, which gets the wrapper device.
\<close>

definition lwext4_port_format_blockdev ::
  "port_config \<Rightarrow> ('s \<Rightarrow> bool \<times> 's) \<Rightarrow> ('s \<Rightarrow> 's)
     \<Rightarrow> (mkfs_info \<Rightarrow> u32 \<Rightarrow> ('s, 'c) format_wrapper \<Rightarrow> (errno \<times> ('s, 'c) format_wrapper) option)
     \<Rightarrow> 's bdev_iface option \<Rightarrow> 'c format_config option \<Rightarrow> 'c \<Rightarrow> 's \<Rightarrow> (esp_err \<times> 's \<times> 'c) option" where
  "lwext4_port_format_blockdev K alloc release mkfs dev config c s =
     (case (dev, config) of
        (Some i, Some cfg) \<Rightarrow>
          (case alloc s of (allocated, s1) \<Rightarrow>
           if \<not> allocated then Some (ESP_ERR_NO_MEM, s1, c)
           else
             (case format_checks K (format_info (bd_part_size i) cfg) of
                Inl e \<Rightarrow> Some (e, release s1, c)
              | Inr info \<Rightarrow>
                  (case call_opt (if_lock i) s1 of (rc, s2) \<Rightarrow>
                   if rc \<noteq> EOK then
                     Some (if rc = ENOMEM then ESP_ERR_NO_MEM else ESP_FAIL, release s2, c)
                   else
                     (case mkfs info (format_feature_set K (fc_feature_set cfg))
                             (format_wrapper_init i s2 (fc_progress cfg) c) of
                        None \<Rightarrow> None
                      | Some (rc, w) \<Rightarrow>
                          (case call_opt (if_unlock i) (inner_state w) of (unlock_rc, s3) \<Rightarrow>
                           let rc' = (if rc = EOK then unlock_rc else rc) in
                           Some (if rc' \<noteq> EOK then ESP_FAIL else ESP_OK, release s3, caller w))))))
      | _ \<Rightarrow> Some (ESP_ERR_INVALID_ARG, s, c))"

section \<open>The wrapper is the device\<close>

text \<open>
  A device whose lock callbacks touch neither the disk nor the transfer buffer: the wrapper
  around it is a block device with the same contents.
\<close>

locale format_device = block_device "if_bread i" "if_bwrite i" ok disk tbuf B
  for i :: "'s bdev_iface" and ok disk tbuf B +
  assumes lock_law: "ok s \<Longrightarrow> call_opt (if_lock i) s = (r, s') \<Longrightarrow> ok s' \<and> disk s' = disk s \<and> tbuf s' = tbuf s"
    and unlock_law: "ok s \<Longrightarrow> call_opt (if_unlock i) s = (r, s') \<Longrightarrow> ok s' \<and> disk s' = disk s \<and> tbuf s' = tbuf s"
    and open_law: "ok s \<Longrightarrow> if_open i s = (r, s') \<Longrightarrow> ok s' \<and> disk s' = disk s"
    and close_law: "ok s \<Longrightarrow> if_close i s = (r, s') \<Longrightarrow> ok s' \<and> disk s' = disk s"
    and tbuf_law: "ok s \<Longrightarrow> B \<le> length (tbuf s)"
    and bsize_law: "unat (if_ph_bsize i) = B"
begin

definition wrapped_ok :: "('s, 'c) format_wrapper bdev_ref \<Rightarrow> bool" where
  "wrapped_ok bdev = (case adapter_from_bdev bdev of None \<Rightarrow> False
     | Some w \<Rightarrow> inner_iface w = Some i \<and> ok (inner_state w))"

definition wrapped_disk :: "('s, 'c) format_wrapper bdev_ref \<Rightarrow> bytes" where
  "wrapped_disk bdev = disk (inner_state (the (adapter_from_bdev bdev)))"

definition wrapped_tbuf :: "('s, 'c) format_wrapper bdev_ref \<Rightarrow> bytes" where
  "wrapped_tbuf bdev = tbuf (inner_state (the (adapter_from_bdev bdev)))"

lemma account_inner [simp]:
  "inner_state (format_wrapper_account n w) = inner_state w"
  "inner_iface (format_wrapper_account n w) = inner_iface w"
  by (simp_all add: format_wrapper_account_def format_wrapper_report_def Let_def)

lemma wrapped_okE:
  assumes "wrapped_ok bdev"
  obtains w where "bdev = P_user (Some w)" "inner_iface w = Some i" "ok (inner_state w)"
  using assms by (cases bdev rule: adapter_from_bdev.cases) (auto simp: wrapped_ok_def split: option.splits)

end

sublocale format_device \<subseteq>
  wrapped: block_device format_wrapper_read format_wrapper_write wrapped_ok wrapped_disk wrapped_tbuf B
proof unfold_locales
  fix s :: "('s, 'd) format_wrapper bdev_ref" and buf and n :: u32 and b :: u64
  assume s: "wrapped_ok s" and buf: "buf \<noteq> Null_buffer"
    "unat n * B \<le> length (buffer_bytes buf (wrapped_tbuf s))"
  obtain w where w: "s = P_user (Some w)" "inner_iface w = Some i" "ok (inner_state w)"
    by (rule wrapped_okE [OF s])
  obtain rc s1 where lk: "call_opt (if_lock i) (inner_state w) = (rc, s1)" by fastforce
  from lock_law [OF w(3) lk] have s1: "ok s1" "disk s1 = disk (inner_state w)" "tbuf s1 = tbuf (inner_state w)"
    by simp_all
  have buf1: "unat n * B \<le> length (buffer_bytes buf (tbuf s1))"
    using buf(2) by (simp add: wrapped_tbuf_def w(1) s1(3))
  show "\<exists>r buf' s'. format_wrapper_read buf b n s = Some (r, buf', s') \<and> wrapped_ok s'
      \<and> wrapped_disk s' = wrapped_disk s \<and> length (wrapped_tbuf s') = length (wrapped_tbuf s)
      \<and> (r = EOK \<longrightarrow> buf' = read_into buf (mem_read (unat b * B) (unat n * B) (wrapped_disk s))
           \<and> mem_read 0 (unat n * B) (buffer_bytes buf' (wrapped_tbuf s'))
             = mem_read (unat b * B) (unat n * B) (wrapped_disk s)
           \<and> (n \<noteq> 0 \<longrightarrow> (unat b + unat n) * B \<le> length (wrapped_disk s)))"
  proof -
    from read_law [OF s1(1) buf(1) buf1, of b] obtain r buf' s2 where
      rd: "if_bread i buf b n s1 = Some (r, buf', s2)" "ok s2" "disk s2 = disk s1" "length (tbuf s2) = length (tbuf s1)"
        "r = EOK \<Longrightarrow> buf' = read_into buf (mem_read (unat b * B) (unat n * B) (disk s1))
           \<and> mem_read 0 (unat n * B) (buffer_bytes buf' (tbuf s2)) = mem_read (unat b * B) (unat n * B) (disk s1)
           \<and> (n \<noteq> 0 \<longrightarrow> (unat b + unat n) * B \<le> length (disk s1))"
      by blast
    obtain urc s3 where un: "call_opt (if_unlock i) s2 = (urc, s3)" by fastforce
    from unlock_law [OF rd(2) un] have "ok s3" "disk s3 = disk s2" "tbuf s3 = tbuf s2" by simp_all
    with lk s1 rd un w show ?thesis
      by (auto simp: format_wrapper_read_def wrapped_ok_def wrapped_disk_def wrapped_tbuf_def Let_def)
  qed
  show "\<exists>r s'. format_wrapper_write buf b n s = Some (r, s') \<and> wrapped_ok s'
      \<and> length (wrapped_tbuf s') = length (wrapped_tbuf s)
      \<and> same_outside (unat b * B) (unat n * B) (wrapped_disk s) (wrapped_disk s')
      \<and> (r = EOK \<longrightarrow>
           wrapped_disk s' = mem_write (unat b * B)
             (mem_read 0 (unat n * B) (buffer_bytes buf (wrapped_tbuf s))) (wrapped_disk s)
           \<and> (n \<noteq> 0 \<longrightarrow> (unat b + unat n) * B \<le> length (wrapped_disk s)))"
  proof -
    from write_law [OF s1(1) buf(1) buf1, of b] obtain r s2 where
      wr: "if_bwrite i buf b n s1 = Some (r, s2)" "ok s2" "length (tbuf s2) = length (tbuf s1)"
        "same_outside (unat b * B) (unat n * B) (disk s1) (disk s2)"
        "r = EOK \<Longrightarrow> disk s2 = mem_write (unat b * B) (mem_read 0 (unat n * B) (buffer_bytes buf (tbuf s1))) (disk s1)
           \<and> (n \<noteq> 0 \<longrightarrow> (unat b + unat n) * B \<le> length (disk s1))"
      by blast
    obtain urc s3 where un: "call_opt (if_unlock i) s2 = (urc, s3)" by fastforce
    from unlock_law [OF wr(2) un] have "ok s3" "disk s3 = disk s2" "tbuf s3 = tbuf s2" by simp_all
    with lk s1 wr un w show ?thesis
      by (auto simp: format_wrapper_write_def wrapped_ok_def wrapped_disk_def wrapped_tbuf_def Let_def)
  qed
qed

section \<open>Rounding to whole groups\<close>

lemma format_checks_len:
  assumes "format_checks K info = Inr info'" "round_to_full_groups K"
  shows "\<exists>g. g = 8 * unat (mi_block_size info) * unat (mi_block_size info)
    \<and> unat (mi_blocks_per_group info') = 8 * unat (mi_block_size info)
    \<and> g dvd unat (mi_len info') \<and> 0 < unat (mi_len info')
    \<and> unat (mi_len info') \<le> unat (mi_len info) \<and> unat (mi_len info) < unat (mi_len info') + g
    \<and> mi_block_size info' = mi_block_size info"
proof -
  define bs where "bs = mi_block_size info"
  define g where "g = 8 * unat bs * unat bs"
  have bs: "\<not> bs < 1024" "\<not> bs > 0xFFFFFFFF div 8"
    and len: "mi_len info div (ucast (bs * 8) * ucast bs) * (ucast (bs * 8) * ucast bs) \<noteq> 0"
    and info': "info' = info\<lparr>mi_blocks_per_group := bs * 8,
        mi_len := mi_len info div (ucast (bs * 8) * ucast bs) * (ucast (bs * 8) * ucast bs)\<rparr>"
    using assms by (auto simp: format_checks_def Let_def bs_def split: if_splits)
  have le: "unat bs \<le> 536870911" using bs(2) by (simp add: not_less word_le_nat_alt)
  have b8: "unat (bs * 8) = 8 * unat bs" using le by (simp add: unat_mult_lem [THEN iffD1])
  have "unat bs * unat bs \<le> 536870911 * 536870911" using le by (intro mult_le_mono)
  then have gb: "unat (ucast (bs * 8) * ucast bs :: u64) = g"
    by (subst unat_mult_lem [THEN iffD1]) (simp_all add: b8 g_def)
  have g0: "0 < g" using bs(1) by (auto simp: g_def unat_gt_0 not_less)
  let ?l = "unat (mi_len info)"
  have le_l: "?l div g * g \<le> ?l" by simp
  then have "?l div g * g < 2 ^ 64"
    by (rule le_less_trans) (use unat64_less [of "mi_len info"] in simp)
  then have l': "unat (mi_len info') = ?l div g * g"
    by (simp add: info') (subst unat_mult_lem [THEN iffD1], simp_all only: unat_div gb, simp)
  have "0 < ?l div g * g" using len l' by (simp add: info' unat_gt_0 [symmetric])
  moreover have "?l < ?l div g * g + g" using g0 by (metis add.commute mod_less_divisor nat_add_left_cancel_less mult_div_mod_eq mult.commute)
  ultimately show ?thesis
    using l' b8 by (intro exI [of _ g]) (simp add: info' g_def bs_def)
qed

section \<open>Progress\<close>

text \<open>
  What a user of the wrapper device can do to it: any sequence of the four callbacks, with
  memory large enough for the request, or the transfer buffer for a single block.
\<close>

definition request_ok :: "('s, 'c) format_wrapper \<Rightarrow> io_buffer \<Rightarrow> u32 \<Rightarrow> bool" where
  "request_ok w buf n = (case buf of Null_buffer \<Rightarrow> False | Transfer_buffer \<Rightarrow> unat n \<le> 1
     | Caller_buffer d \<Rightarrow> unat n * unat (wr_ph_bsize w) \<le> length d)"

inductive wrapper_step :: "('s, 'c) format_wrapper \<Rightarrow> ('s, 'c) format_wrapper \<Rightarrow> bool" where
  step_open: "format_wrapper_open (P_user (Some w)) = (rc, P_user (Some w')) \<Longrightarrow> wrapper_step w w'"
| step_close: "format_wrapper_close (P_user (Some w)) = (rc, P_user (Some w')) \<Longrightarrow> wrapper_step w w'"
| step_read: "format_wrapper_read buf b n (P_user (Some w)) = Some (rc, buf', P_user (Some w'))
    \<Longrightarrow> request_ok w buf n \<Longrightarrow> wrapper_step w w'"
| step_write: "format_wrapper_write buf b n (P_user (Some w)) = Some (rc, P_user (Some w'))
    \<Longrightarrow> request_ok w buf n \<Longrightarrow> wrapper_step w w'"

text \<open>lwext4's formatter reaches the device only through its interface.\<close>

definition uses_device ::
  "(mkfs_info \<Rightarrow> u32 \<Rightarrow> ('s, 'c) format_wrapper \<Rightarrow> (errno \<times> ('s, 'c) format_wrapper) option) \<Rightarrow> bool" where
  "uses_device mkfs \<longleftrightarrow> (\<forall>info fs w r w'. mkfs info fs w = Some (r, w') \<longrightarrow> wrapper_step\<^sup>*\<^sup>* w w')"

lemma uses_deviceD: "uses_device mkfs \<Longrightarrow> mkfs info fs w = Some (r, w') \<Longrightarrow> wrapper_step\<^sup>*\<^sup>* w w'"
  by (simp add: uses_device_def)

text \<open>A caller that keeps a list of the reports; the totals of its last one.\<close>

definition log_progress :: "u64 \<Rightarrow> u64 \<Rightarrow> (u64 \<times> u64) list \<Rightarrow> (u64 \<times> u64) list" where
  "log_progress r w log = log @ [(r, w)]"

definition last_report :: "(u64 \<times> u64) list \<Rightarrow> u64 \<times> u64" where
  "last_report log = (if log = [] then (0, 0) else last log)"

definition progress_inv :: "('s, (u64 \<times> u64) list) format_wrapper \<Rightarrow> bool" where
  "progress_inv w \<longleftrightarrow> progress w = Some log_progress \<and> blocks_since_progress w < PROGRESS_INTERVAL_BLOCKS
     \<and> (blocks_read w + blocks_written w) * ucast (wr_ph_bsize w)
       = fst (last_report (caller w)) + snd (last_report (caller w))
         + ucast (blocks_since_progress w) * ucast (wr_ph_bsize w)"

lemma progress_inv_inner [simp]: "progress_inv (w\<lparr>inner_state := s\<rparr>) = progress_inv w"
  by (simp add: progress_inv_def)

lemma ucast_add_exact:
  "\<not> 0xFFFFFFFF - (a :: u32) < b \<Longrightarrow> (ucast (a + b) :: u64) = ucast a + ucast b"
proof -
  assume "\<not> 0xFFFFFFFF - a < b"
  then have "b \<le> 0xFFFFFFFF - a" by simp
  moreover have "a \<le> 0xFFFFFFFF" using unat32_less [of a] by (simp add: word_le_nat_alt)
  ultimately have "unat a + unat b < 2 ^ 32"
    using unat32_less [of a] by (simp add: word_le_nat_alt unat_sub)
  then have "unat (a + b) = unat a + unat b" by (simp add: unat_word_ariths)
  then have "(of_nat (unat (a + b)) :: u64) = of_nat (unat a) + of_nat (unat b)" by simp
  then show ?thesis by (simp only: of_nat_unat)
qed

lemma progress_inv_account:
  assumes "progress_inv w" "r + wr = blocks_read w + blocks_written w + ucast n"
    "w' = w\<lparr>blocks_read := r, blocks_written := wr\<rparr>"
  shows "progress_inv (format_wrapper_account n w')"
proof (cases "0xFFFFFFFF - blocks_since_progress w < n \<or> blocks_since_progress w + n \<ge> PROGRESS_INTERVAL_BLOCKS")
  case True
  then have "format_wrapper_account n w' = w'\<lparr>blocks_since_progress := 0,
      caller := caller w @ [(r * ucast (wr_ph_bsize w), wr * ucast (wr_ph_bsize w))]\<rparr>"
    using assms(1,3)
    by (auto simp: progress_inv_def format_wrapper_account_def format_wrapper_report_def log_progress_def Let_def)
  then show ?thesis
    using assms(1,3) by (simp add: progress_inv_def last_report_def distrib_right)
next
  case False
  then have "format_wrapper_account n w' = w'\<lparr>blocks_since_progress := blocks_since_progress w + n\<rparr>"
    using assms(1,3)
    by (auto simp: progress_inv_def format_wrapper_account_def Let_def)
  then show ?thesis
    using assms False ucast_add_exact [of "blocks_since_progress w" n]
    by (simp add: progress_inv_def algebra_simps not_le)
qed

lemma progress_inv_counted:
  assumes "progress_inv w"
  shows "progress_inv (format_wrapper_account n (w\<lparr>blocks_read := blocks_read w + ucast n\<rparr>))"
    "progress_inv (format_wrapper_account n (w\<lparr>blocks_written := blocks_written w + ucast n\<rparr>))"
  using progress_inv_account [OF assms, of "blocks_read w + ucast n" "blocks_written w" n]
    progress_inv_account [OF assms, of "blocks_read w" "blocks_written w + ucast n" n]
  by (simp_all add: ac_simps)

lemma format_wrapper_read_cases:
  assumes "format_wrapper_read buf b n (P_user (Some w)) = Some (rc, buf', P_user (Some w'))"
  shows "\<exists>s. w' = w\<lparr>inner_state := s\<rparr> \<or> w' = format_wrapper_account n
    ((w\<lparr>inner_state := s\<rparr>)\<lparr>blocks_read := blocks_read w + ucast n\<rparr>)"
  using assms
  by (auto simp: format_wrapper_read_def Let_def split: option.splits prod.splits if_splits
      intro: exI [of _ "inner_state w"])

lemma format_wrapper_write_cases:
  assumes "format_wrapper_write buf b n (P_user (Some w)) = Some (rc, P_user (Some w'))"
  shows "\<exists>s. w' = w\<lparr>inner_state := s\<rparr> \<or> w' = format_wrapper_account n
    ((w\<lparr>inner_state := s\<rparr>)\<lparr>blocks_written := blocks_written w + ucast n\<rparr>)"
  using assms
  by (auto simp: format_wrapper_write_def Let_def split: option.splits prod.splits if_splits
      intro: exI [of _ "inner_state w"])

lemma progress_inv_step:
  assumes "wrapper_step w w'" "progress_inv w"
  shows "progress_inv w'"
  using assms
proof cases
  case (step_read buf b n rc buf')
  then obtain s where "w' = w\<lparr>inner_state := s\<rparr> \<or> w' = format_wrapper_account n
    ((w\<lparr>inner_state := s\<rparr>)\<lparr>blocks_read := blocks_read w + ucast n\<rparr>)"
    using format_wrapper_read_cases by blast
  then show ?thesis
    using assms(2) progress_inv_counted [of "w\<lparr>inner_state := s\<rparr>" n] by auto
next
  case (step_write buf b n rc)
  then obtain s where "w' = w\<lparr>inner_state := s\<rparr> \<or> w' = format_wrapper_account n
    ((w\<lparr>inner_state := s\<rparr>)\<lparr>blocks_written := blocks_written w + ucast n\<rparr>)"
    using format_wrapper_write_cases by blast
  then show ?thesis
    using assms(2) progress_inv_counted [of "w\<lparr>inner_state := s\<rparr>" n] by auto
qed (use assms(2) in \<open>auto simp: format_wrapper_open_def format_wrapper_close_def split: option.splits prod.splits\<close>)

lemma progress_inv_init: "progress_inv (format_wrapper_init i s (Some log_progress) [])"
  by (simp add: progress_inv_def format_wrapper_init_def last_report_def)

lemma progress_inv_steps:
  "wrapper_step\<^sup>*\<^sup>* w w' \<Longrightarrow> progress_inv w \<Longrightarrow> progress_inv w'"
  by (induction rule: rtranclp_induct) (auto intro: progress_inv_step)

section \<open>What formatting does to the device\<close>

context format_device
begin

text \<open>The part of a wrapper's state that device operations keep.\<close>

definition holds :: "nat \<Rightarrow> ('s, 'c) format_wrapper \<Rightarrow> bool" where
  "holds n w \<longleftrightarrow> inner_iface w = Some i \<and> ok (inner_state w) \<and> length (disk (inner_state w)) = n
     \<and> wr_ph_bsize w = if_ph_bsize i"

lemma account_bsize [simp]: "wr_ph_bsize (format_wrapper_account n w) = wr_ph_bsize w"
  by (simp add: format_wrapper_account_def format_wrapper_report_def Let_def)

lemma request_fits:
  assumes "request_ok w buf n" "holds m w"
  shows "buf \<noteq> Null_buffer" "unat n * B \<le> length (buffer_bytes buf (tbuf (inner_state w)))"
proof -
  show "buf \<noteq> Null_buffer" using assms(1) by (auto simp: request_ok_def)
  have "unat n * B \<le> length (tbuf (inner_state w))" if "unat n \<le> 1"
  proof -
    have "unat n * B \<le> 1 * B" by (rule mult_le_mono1 [OF that])
    also have "\<dots> \<le> length (tbuf (inner_state w))"
      using tbuf_law [of "inner_state w"] assms(2) by (simp add: holds_def)
    finally show ?thesis .
  qed
  then show "unat n * B \<le> length (buffer_bytes buf (tbuf (inner_state w)))"
    using assms bsize_law by (cases buf) (auto simp: request_ok_def holds_def)
qed

lemma holds_read:
  assumes "format_wrapper_read buf b n (P_user (Some w)) = Some (rc, buf', P_user (Some w'))"
    and "request_ok w buf n" "holds m w"
  shows "holds m w'"
proof -
  have ok: "wrapped_ok (P_user (Some w))" using assms(3) by (simp add: wrapped_ok_def holds_def)
  have fits: "unat n * B \<le> length (buffer_bytes buf (wrapped_tbuf (P_user (Some w))))"
    using request_fits(2) [OF assms(2,3)] by (simp add: wrapped_tbuf_def)
  from wrapped.read_law [OF ok request_fits(1) [OF assms(2,3)] fits, of b] assms(1)
  have "wrapped_ok (P_user (Some w'))" "wrapped_disk (P_user (Some w')) = wrapped_disk (P_user (Some w))"
    by auto
  moreover from format_wrapper_read_cases [OF assms(1)] have "wr_ph_bsize w' = wr_ph_bsize w" by auto
  ultimately show ?thesis using assms(3) by (simp add: holds_def wrapped_ok_def wrapped_disk_def)
qed

lemma holds_write:
  assumes "format_wrapper_write buf b n (P_user (Some w)) = Some (rc, P_user (Some w'))"
    and "request_ok w buf n" "holds m w"
  shows "holds m w'"
proof -
  have ok: "wrapped_ok (P_user (Some w))" using assms(3) by (simp add: wrapped_ok_def holds_def)
  have fits: "unat n * B \<le> length (buffer_bytes buf (wrapped_tbuf (P_user (Some w))))"
    using request_fits(2) [OF assms(2,3)] by (simp add: wrapped_tbuf_def)
  from wrapped.write_law [OF ok request_fits(1) [OF assms(2,3)] fits, of b] assms(1)
  have "wrapped_ok (P_user (Some w'))"
    "length (wrapped_disk (P_user (Some w'))) = length (wrapped_disk (P_user (Some w)))"
    by (auto simp: same_outside_def)
  moreover from format_wrapper_write_cases [OF assms(1)] have "wr_ph_bsize w' = wr_ph_bsize w" by auto
  ultimately show ?thesis using assms(3) by (simp add: holds_def wrapped_ok_def wrapped_disk_def)
qed

lemma holds_step: "wrapper_step w w' \<Longrightarrow> holds m w \<Longrightarrow> holds m w'"
proof (induction rule: wrapper_step.induct)
  case (step_open w rc w')
  then show ?case using open_law [of "inner_state w"]
    by (auto simp: holds_def format_wrapper_open_def split: prod.splits)
next
  case (step_close w rc w')
  then show ?case using close_law [of "inner_state w"]
    by (auto simp: holds_def format_wrapper_close_def split: prod.splits)
qed (fact holds_read, fact holds_write)

lemma holds_steps: "wrapper_step\<^sup>*\<^sup>* w w' \<Longrightarrow> holds m w \<Longrightarrow> holds m w'"
  by (induction rule: rtranclp_induct) (auto intro: holds_step)

lemma format_spec:
  assumes "ok s"
    and keeps: "\<forall>s. ok s \<longrightarrow> ok (snd (alloc s)) \<and> disk (snd (alloc s)) = disk s"
      "\<forall>s. ok s \<longrightarrow> ok (release s) \<and> disk (release s) = disk s"
    and mkfs: "uses_device mkfs"
    and run: "lwext4_port_format_blockdev K alloc release mkfs (Some i) (Some cfg) c s = Some (e, s', c')"
  shows "ok s' \<and> length (disk s') = length (disk s) \<and> (e \<noteq> ESP_OK \<and> e \<noteq> ESP_FAIL \<longrightarrow> disk s' = disk s)
    \<and> (e = ESP_OK \<longrightarrow> (\<exists>info s2 w. format_checks K (format_info (bd_part_size i) cfg) = Inr info
         \<and> ok s2 \<and> disk s2 = disk s
         \<and> mkfs info (format_feature_set K (fc_feature_set cfg)) (format_wrapper_init i s2 (fc_progress cfg) c)
             = Some (EOK, w) \<and> disk s' = disk (inner_state w)))"
proof -
  note keep = keeps [rule_format]
  obtain b s1 where al: "alloc s = (b, s1)" by fastforce
  have s1: "ok s1" "disk s1 = disk s" using keep(1) [OF assms(1)] al by simp_all
  show ?thesis
  proof (cases "b \<and> (\<exists>info. format_checks K (format_info (bd_part_size i) cfg) = Inr info)")
    case False
    then show ?thesis
      using run al s1 keep(2) [OF s1(1)] assms(1)
      by (auto simp: lwext4_port_format_blockdev_def format_checks_def Let_def
          split: if_splits sum.splits option.splits)
  next
    case True
    then obtain info where b: b and info: "format_checks K (format_info (bd_part_size i) cfg) = Inr info" by blast
    obtain rc s2 where lk: "call_opt (if_lock i) s1 = (rc, s2)" by fastforce
    note s2 = lock_law [OF s1(1) lk]
    show ?thesis
    proof (cases "rc = EOK")
      case False
      then show ?thesis
        using run al b info lk s1 s2 keep(2) [of s2]
        by (auto simp: lwext4_port_format_blockdev_def split: if_splits)
    next
      case True
      let ?w0 = "format_wrapper_init i s2 (fc_progress cfg) c"
      obtain rc' w where mk: "mkfs info (format_feature_set K (fc_feature_set cfg)) ?w0 = Some (rc', w)"
        using run al b info lk True by (auto simp: lwext4_port_format_blockdev_def split: option.splits)
      obtain urc s3 where un: "call_opt (if_unlock i) (inner_state w) = (urc, s3)" by fastforce
      have "holds (length (disk s)) ?w0" using s2 s1 by (simp add: holds_def format_wrapper_init_def)
      from holds_steps [OF uses_deviceD [OF mkfs mk] this] have w: "ok (inner_state w)" "length (disk (inner_state w)) = length (disk s)"
        by (simp_all add: holds_def)
      note s3 = unlock_law [OF w(1) un]
      have res: "e = (if (if rc' = EOK then urc else rc') \<noteq> EOK then ESP_FAIL else ESP_OK)" "s' = release s3"
        using run al b info lk True mk un by (auto simp: lwext4_port_format_blockdev_def Let_def)
      have rl: "ok s'" "disk s' = disk (inner_state w)"
        using keep(2) [of s3] s3 res(2) by simp_all
      show ?thesis
      proof (cases "e = ESP_OK")
        case True
        then have "rc' = EOK" using res(1) by (auto split: if_splits)
        then show ?thesis using rl w info s1 s2 mk True by auto
      next
        case False
        then have "e = ESP_FAIL" using res(1) by (auto split: if_splits)
        then show ?thesis using rl w by simp
      qed
    qed
  qed
qed

end

end
