(* ===== verification/Port_Bdl.thy ===== *)
theory Port_Bdl
  imports Port_Format
begin

text \<open>
  port/lwext4_port_bdl.c: lwext4's block-device interface on top of an ESP-IDF block-device
  handle.  Transfers go through an aligned buffer in chunks; a result of the lower device is
  remembered and translated.
\<close>

section \<open>The lower device\<close>

text \<open>
  The function table of an \<open>esp_blockdev_handle_t\<close>, NULL entries as \<open>None\<close>.  A read gets
  the transfer buffer (whose length is the destination size), the byte address and the
  length, and returns the buffer's new contents.
\<close>

record 'w blockdev_ops =
  ops_read :: "(bytes \<Rightarrow> u64 \<Rightarrow> u32 \<Rightarrow> 'w \<Rightarrow> esp_err \<times> bytes \<times> 'w) option"
  ops_write :: "(bytes \<Rightarrow> u64 \<Rightarrow> u32 \<Rightarrow> 'w \<Rightarrow> esp_err \<times> 'w) option"
  ops_sync :: "('w \<Rightarrow> esp_err \<times> 'w) option"

record 'w esp_blockdev =
  dev_ops :: "'w blockdev_ops option"
  disk_size :: u64
  read_size :: u32
  write_size :: u32
  dev_read_only :: bool

section \<open>The adapter\<close>

text \<open>
  \<open>struct lwext4_port_bdl\<close>; \<open>lock\<close> tells whether the mutex exists.  The fields of the
  embedded ext4_blockdev and its interface follow the adapter's own, and \<open>world\<close> is the
  state of the lower device and of FreeRTOS.
\<close>

record 'w lwext4_port_bdl =
  lower :: "'w esp_blockdev option"
  lock :: bool
  transfer_buffer :: bytes
  transfer_buffer_size :: u32
  transfer_buffer_blocks :: u32
  last_lower_error :: esp_err
  bdl_read_only :: bool
  sync_after_write :: bool
  ph_bsize :: u32
  ph_bcnt :: u64
  ph_refctr :: u32
  part_offset :: u64
  part_size :: u64
  world :: 'w

definition save_lower_result :: "esp_err \<Rightarrow> 'w lwext4_port_bdl \<Rightarrow> errno \<times> 'w lwext4_port_bdl" where
  "save_lower_result error a = (esp_error_to_lwext4 error, a\<lparr>last_lower_error := error\<rparr>)"

abbreviation lower_dev :: "'w lwext4_port_bdl \<Rightarrow> 'w esp_blockdev" where
  "lower_dev a \<equiv> the (lower a)"

abbreviation lower_ops :: "'w lwext4_port_bdl \<Rightarrow> 'w blockdev_ops" where
  "lower_ops a \<equiv> the (dev_ops (lower_dev a))"

definition valid_lower_handle :: "'w lwext4_port_bdl option \<Rightarrow> bool" where
  "valid_lower_handle adapter =
     (case adapter of None \<Rightarrow> False
      | Some a \<Rightarrow> (case lower a of None \<Rightarrow> False | Some l \<Rightarrow> dev_ops l \<noteq> None))"

definition sync_lower :: "'w lwext4_port_bdl \<Rightarrow> esp_err \<times> 'w lwext4_port_bdl" where
  "sync_lower a =
     (if \<not> valid_lower_handle (Some a) then (ESP_ERR_INVALID_STATE, a)
      else
        (case (case ops_sync (lower_ops a) of None \<Rightarrow> (ESP_OK, world a) | Some f \<Rightarrow> f (world a)) of
           (error, w) \<Rightarrow> (error, a\<lparr>world := w, last_lower_error := error\<rparr>)))"

definition bdl_open :: "'w lwext4_port_bdl bdev_ref \<Rightarrow> errno" where
  "bdl_open bdev =
     (let adapter = adapter_from_bdev bdev; a = the adapter in
      if \<not> valid_lower_handle adapter \<or> ops_read (lower_ops a) = None
         \<or> (\<not> bdl_read_only a \<and> ops_write (lower_ops a) = None)
      then EIO else EOK)"

definition bdl_validate_io_range :: "'w lwext4_port_bdl \<Rightarrow> u64 \<Rightarrow> u32 \<Rightarrow> errno + u64" where
  "bdl_validate_io_range a block_id block_count =
     (let block_total = ph_bcnt a in
      if block_count = 0 then Inr 0
      else if block_id \<ge> block_total \<or> ucast block_count > block_total - block_id then Inl EINVAL
      else if block_count > SIZE_MAX div ph_bsize a then Inl EOVERFLOW
      else Inr (block_id * ucast (ph_bsize a)))"

section \<open>Reading\<close>

definition bdl_read_chunk ::
  "u64 \<Rightarrow> u32 \<Rightarrow> nat \<Rightarrow> io_buffer \<Rightarrow> 'w lwext4_port_bdl \<Rightarrow> errno \<times> io_buffer \<times> 'w lwext4_port_bdl" where
  "bdl_read_chunk address chunk_size off buffer a =
     (case the (ops_read (lower_ops a)) (transfer_buffer a) address chunk_size (world a) of
        (error, tb, w) \<Rightarrow>
        case save_lower_result error (a\<lparr>transfer_buffer := tb, world := w\<rparr>) of (r, a1) \<Rightarrow>
        if r \<noteq> EOK then (r, buffer, a1)
        else
          case copy_out buffer off (unat chunk_size) (transfer_buffer a1) of (buffer', tb') \<Rightarrow>
          (EOK, buffer', a1\<lparr>transfer_buffer := tb'\<rparr>))"

text \<open>With an empty transfer buffer the C loop would not end: \<open>None\<close>.\<close>

partial_function (option) bdl_read_loop ::
  "u32 \<Rightarrow> u64 \<Rightarrow> nat \<Rightarrow> io_buffer \<Rightarrow> 'w lwext4_port_bdl \<Rightarrow> (errno \<times> io_buffer \<times> 'w lwext4_port_bdl) option" where
  "bdl_read_loop blocks_remaining address off buffer a =
     (if blocks_remaining \<noteq> 0 then
        (let chunk_blocks = (if blocks_remaining > transfer_buffer_blocks a
                             then transfer_buffer_blocks a else blocks_remaining);
             chunk_size = chunk_blocks * ph_bsize a in
         case bdl_read_chunk address chunk_size off buffer a of (r, buffer', a') \<Rightarrow>
         if r \<noteq> EOK then Some (r, buffer', a')
         else bdl_read_loop (blocks_remaining - chunk_blocks) (address + ucast chunk_size)
                (off + unat chunk_size) buffer' a')
      else Some (EOK, buffer, a))"

definition bdl_read ::
  "io_buffer \<Rightarrow> u64 \<Rightarrow> u32 \<Rightarrow> 'w lwext4_port_bdl bdev_ref
     \<Rightarrow> (errno \<times> io_buffer \<times> 'w lwext4_port_bdl bdev_ref) option" where
  "bdl_read buffer block_id block_count bdev =
     (let adapter = adapter_from_bdev bdev; a = the adapter in
      if \<not> valid_lower_handle adapter \<or> buffer = Null_buffer \<or> ops_read (lower_ops a) = None
      then Some (EINVAL, buffer, bdev)
      else
        case bdl_validate_io_range a block_id block_count of
          Inl r \<Rightarrow> Some (r, buffer, bdev)
        | Inr address \<Rightarrow>
            if block_count = 0 then Some (EOK, buffer, bdev)
            else if buffer = Transfer_buffer \<and> block_count > transfer_buffer_blocks a
            then Some (EINVAL, buffer, bdev)
            else
              (case bdl_read_loop block_count address 0 buffer a of
                 None \<Rightarrow> None
               | Some (r, buffer', a') \<Rightarrow> Some (r, buffer', P_user (Some a'))))"

section \<open>Writing\<close>

definition bdl_write_chunk ::
  "io_buffer \<Rightarrow> u64 \<Rightarrow> u32 \<Rightarrow> nat \<Rightarrow> 'w lwext4_port_bdl \<Rightarrow> errno \<times> 'w lwext4_port_bdl" where
  "bdl_write_chunk buffer address chunk_size off a =
     (let tb = copy_in buffer off (unat chunk_size) (transfer_buffer a) in
      case the (ops_write (lower_ops a)) tb address chunk_size (world a) of (error, w) \<Rightarrow>
      save_lower_result error (a\<lparr>transfer_buffer := tb, world := w\<rparr>))"

partial_function (option) bdl_write_loop ::
  "io_buffer \<Rightarrow> u32 \<Rightarrow> u64 \<Rightarrow> nat \<Rightarrow> 'w lwext4_port_bdl \<Rightarrow> (errno \<times> 'w lwext4_port_bdl) option" where
  "bdl_write_loop buffer blocks_remaining address off a =
     (if blocks_remaining \<noteq> 0 then
        (let chunk_blocks = (if blocks_remaining > transfer_buffer_blocks a
                             then transfer_buffer_blocks a else blocks_remaining);
             chunk_size = chunk_blocks * ph_bsize a in
         case bdl_write_chunk buffer address chunk_size off a of (r, a') \<Rightarrow>
         if r \<noteq> EOK then Some (r, a')
         else bdl_write_loop buffer (blocks_remaining - chunk_blocks) (address + ucast chunk_size)
                (off + unat chunk_size) a')
      else Some (EOK, a))"

definition bdl_write ::
  "io_buffer \<Rightarrow> u64 \<Rightarrow> u32 \<Rightarrow> 'w lwext4_port_bdl bdev_ref \<Rightarrow> (errno \<times> 'w lwext4_port_bdl bdev_ref) option" where
  "bdl_write buffer block_id block_count bdev =
     (let adapter = adapter_from_bdev bdev; a = the adapter in
      if \<not> valid_lower_handle adapter \<or> buffer = Null_buffer then Some (EINVAL, bdev)
      else if bdl_read_only a \<or> dev_read_only (lower_dev a) then Some (EROFS, bdev)
      else if ops_write (lower_ops a) = None then Some (ENOTSUP, bdev)
      else
        case bdl_validate_io_range a block_id block_count of
          Inl r \<Rightarrow> Some (r, bdev)
        | Inr address \<Rightarrow>
            if block_count = 0 then Some (EOK, bdev)
            else if buffer = Transfer_buffer \<and> block_count > transfer_buffer_blocks a
            then Some (EINVAL, bdev)
            else
              (case bdl_write_loop buffer block_count address 0 a of
                 None \<Rightarrow> None
               | Some (r, a') \<Rightarrow>
                   if r \<noteq> EOK then Some (r, P_user (Some a'))
                   else if sync_after_write a' then
                     (case sync_lower a' of (error, a'') \<Rightarrow>
                      Some (esp_error_to_lwext4 error, P_user (Some a'')))
                   else Some (EOK, P_user (Some a'))))"

section \<open>Close, lock, unlock\<close>

definition bdl_close :: "'w lwext4_port_bdl bdev_ref \<Rightarrow> errno \<times> 'w lwext4_port_bdl bdev_ref" where
  "bdl_close bdev =
     (let adapter = adapter_from_bdev bdev in
      if \<not> valid_lower_handle adapter then (EIO, bdev)
      else case sync_lower (the adapter) of (error, a') \<Rightarrow>
        (esp_error_to_lwext4 error, P_user (Some a')))"

definition bdl_lock ::
  "'w platform \<Rightarrow> 'w lwext4_port_bdl bdev_ref \<Rightarrow> errno \<times> 'w lwext4_port_bdl bdev_ref" where
  "bdl_lock P bdev =
     (case adapter_from_bdev bdev of None \<Rightarrow> (EIO, bdev)
      | Some a \<Rightarrow>
          if \<not> lock a then (EIO, bdev)
          else case xSemaphoreTakeRecursive P (world a) of (taken, w) \<Rightarrow>
            (if taken then EOK else EIO, P_user (Some (a\<lparr>world := w\<rparr>))))"

definition bdl_unlock ::
  "'w platform \<Rightarrow> 'w lwext4_port_bdl bdev_ref \<Rightarrow> errno \<times> 'w lwext4_port_bdl bdev_ref" where
  "bdl_unlock P bdev =
     (case adapter_from_bdev bdev of None \<Rightarrow> (EIO, bdev)
      | Some a \<Rightarrow>
          if \<not> lock a then (EIO, bdev)
          else case xSemaphoreGiveRecursive P (world a) of (given, w) \<Rightarrow>
            (if given then EOK else EIO, P_user (Some (a\<lparr>world := w\<rparr>))))"

section \<open>Creation\<close>

record bdl_config =
  physical_block_size :: u32
  buffer_caps :: u32
  buffer_alignment :: u32
  cfg_transfer_buffer_blocks :: u32
  cfg_read_only :: bool
  cfg_sync_after_write :: bool
  lower_device_supports_rewrite :: bool

definition bdl_buffer_blocks :: "bdl_config \<Rightarrow> u32" where
  "bdl_buffer_blocks cfg =
     (if cfg_transfer_buffer_blocks cfg = 0 then 1 else cfg_transfer_buffer_blocks cfg)"

text \<open>\<open>out_given\<close>: the out_adapter pointer is not NULL.\<close>

definition bdl_validate_create_args ::
  "'w platform \<Rightarrow> 'w esp_blockdev option \<Rightarrow> bdl_config option \<Rightarrow> bool \<Rightarrow> esp_err" where
  "bdl_validate_create_args P lower_arg config out_given =
     (if \<not> out_given then ESP_ERR_INVALID_ARG
      else if lower_arg = None \<or> config = None \<or> dev_ops (the lower_arg) = None then ESP_ERR_INVALID_ARG
      else
        let l = the lower_arg; cfg = the config; ops = the (dev_ops l); pbs = physical_block_size cfg in
        if ops_read ops = None then ESP_ERR_NOT_SUPPORTED
        else if disk_size l = 0 \<or> read_size l = 0 \<or> \<not> is_power_of_two pbs
          \<or> buffer_caps cfg = 0 \<or> buffer_caps cfg AND malloc_cap_8bit P = 0
          \<or> \<not> is_power_of_two (buffer_alignment cfg) \<or> pbs mod buffer_alignment cfg \<noteq> 0
        then ESP_ERR_INVALID_ARG
        else if pbs mod read_size l \<noteq> 0 \<or> disk_size l mod ucast pbs \<noteq> 0 then ESP_ERR_INVALID_SIZE
        else if \<not> cfg_read_only cfg \<and> dev_read_only l then ESP_ERR_INVALID_STATE
        else if \<not> cfg_read_only cfg \<and> ops_write ops = None then ESP_ERR_NOT_SUPPORTED
        else if \<not> cfg_read_only cfg \<and> (write_size l = 0 \<or> pbs mod write_size l \<noteq> 0) then ESP_ERR_INVALID_SIZE
        else if \<not> cfg_read_only cfg \<and> \<not> lower_device_supports_rewrite cfg then ESP_ERR_NOT_SUPPORTED
        else if cfg_sync_after_write cfg \<and> ops_sync ops = None then ESP_ERR_NOT_SUPPORTED
        else if bdl_buffer_blocks cfg > SIZE_MAX div pbs then ESP_ERR_INVALID_SIZE
        else ESP_OK)"

text \<open>The error and \<open>*out_adapter\<close>, with the world left behind.\<close>

definition lwext4_port_bdl_create ::
  "'w platform \<Rightarrow> 'w esp_blockdev option \<Rightarrow> bdl_config option \<Rightarrow> bool \<Rightarrow> 'w
     \<Rightarrow> esp_err \<times> 'w lwext4_port_bdl option \<times> 'w" where
  "lwext4_port_bdl_create P lower_arg config out_given w =
     (let error = bdl_validate_create_args P lower_arg config out_given; l = the lower_arg; cfg = the config in
      if error \<noteq> ESP_OK then (error, None, w)
      else
        case calloc_ok P w of (allocated, w1) \<Rightarrow>
        if \<not> allocated then (ESP_ERR_NO_MEM, None, w1)
        else
          let blocks = bdl_buffer_blocks cfg; size = blocks * physical_block_size cfg in
          case heap_caps_aligned_alloc P (buffer_alignment cfg) size (buffer_caps cfg) w1 of (tb, w2) \<Rightarrow>
          case xSemaphoreCreateRecursiveMutex P w2 of (locked, w3) \<Rightarrow>
          if tb = None \<or> \<not> locked then
            (let w4 = (if locked then vSemaphoreDelete P w3 else w3)
             in (ESP_ERR_NO_MEM, None, heap_free P (heap_caps_free P tb w4)))
          else
            (ESP_OK,
             Some \<lparr>lower = Some l, lock = True, transfer_buffer = the tb, transfer_buffer_size = size,
               transfer_buffer_blocks = blocks, last_lower_error = ESP_OK,
               bdl_read_only = cfg_read_only cfg, sync_after_write = cfg_sync_after_write cfg,
               ph_bsize = physical_block_size cfg,
               ph_bcnt = disk_size l div ucast (physical_block_size cfg), ph_refctr = 0,
               part_offset = 0, part_size = disk_size l, world = w3\<rparr>,
             w3))"

section \<open>Get, sync, last error, destroy\<close>

definition lwext4_port_bdl_get :: "'w lwext4_port_bdl option \<Rightarrow> 'w lwext4_port_bdl bdev_ref" where
  "lwext4_port_bdl_get adapter = (case adapter of None \<Rightarrow> Null_bdev | Some a \<Rightarrow> P_user (Some a))"

definition lwext4_port_bdl_sync ::
  "'w platform \<Rightarrow> 'w lwext4_port_bdl option \<Rightarrow> esp_err \<times> 'w lwext4_port_bdl option" where
  "lwext4_port_bdl_sync P adapter =
     (case adapter of None \<Rightarrow> (ESP_ERR_INVALID_ARG, adapter)
      | Some a \<Rightarrow>
          if \<not> lock a then (ESP_ERR_INVALID_ARG, adapter)
          else
            case xSemaphoreTakeRecursive P (world a) of (taken, w) \<Rightarrow>
            if \<not> taken then (ESP_FAIL, Some (a\<lparr>world := w\<rparr>))
            else
              case sync_lower (a\<lparr>world := w\<rparr>) of (error, a1) \<Rightarrow>
              (error, Some (a1\<lparr>world := snd (xSemaphoreGiveRecursive P (world a1))\<rparr>)))"

definition lwext4_port_bdl_last_error :: "'w lwext4_port_bdl option \<Rightarrow> esp_err" where
  "lwext4_port_bdl_last_error adapter =
     (case adapter of None \<Rightarrow> ESP_ERR_INVALID_ARG | Some a \<Rightarrow> last_lower_error a)"

text \<open>On success the adapter is gone and the world remains; otherwise it is still there.\<close>

definition lwext4_port_bdl_destroy ::
  "'w platform \<Rightarrow> 'w lwext4_port_bdl option \<Rightarrow> esp_err \<times> ('w lwext4_port_bdl option + 'w)" where
  "lwext4_port_bdl_destroy P adapter =
     (case adapter of None \<Rightarrow> (ESP_ERR_INVALID_ARG, Inl adapter)
      | Some a \<Rightarrow>
          if \<not> lock a then (ESP_ERR_INVALID_ARG, Inl adapter)
          else
            case xSemaphoreTakeRecursive P (world a) of (taken, w) \<Rightarrow>
            if \<not> taken then (ESP_FAIL, Inl (Some (a\<lparr>world := w\<rparr>)))
            else if ph_refctr a \<noteq> 0 then
              (ESP_ERR_INVALID_STATE,
               Inl (Some (a\<lparr>world := snd (xSemaphoreGiveRecursive P w)\<rparr>)))
            else
              case sync_lower (a\<lparr>world := w\<rparr>) of (error, a1) \<Rightarrow>
              let w2 = snd (xSemaphoreGiveRecursive P (world a1)) in
              if error \<noteq> ESP_OK then (error, Inl (Some (a1\<lparr>world := w2\<rparr>)))
              else
                (ESP_OK, Inr (heap_free P (heap_caps_free P (Some (transfer_buffer a1))
                   (vSemaphoreDelete P w2)))))"

section \<open>Formatting\<close>

definition bdl_validate_format_args ::
  "port_config \<Rightarrow> 'w lwext4_port_bdl option \<Rightarrow> 'c format_config option \<Rightarrow> esp_err" where
  "bdl_validate_format_args K adapter config =
     (if adapter = None \<or> config = None \<or> \<not> valid_lower_handle adapter then ESP_ERR_INVALID_ARG
      else
        let a = the adapter; cfg = the config; l = lower_dev a;
            block_size = (if fc_block_size cfg \<noteq> 0 then fc_block_size cfg else 4096) in
        if ph_refctr a \<noteq> 0 then ESP_ERR_INVALID_STATE
        else if bdl_read_only a \<or> dev_read_only l \<or> ops_write (lower_ops a) = None then ESP_ERR_INVALID_STATE
        else if part_size a = 0 \<or> read_size l = 0 \<or> write_size l = 0 then ESP_ERR_INVALID_SIZE
        else if \<not> feature_set_known K (fc_feature_set cfg) then ESP_ERR_INVALID_ARG
        else if \<not> is_power_of_two block_size \<or> block_size mod read_size l \<noteq> 0
          \<or> block_size mod write_size l \<noteq> 0 \<or> part_size a mod ucast block_size \<noteq> 0
        then ESP_ERR_INVALID_SIZE
        else ESP_OK)"

text \<open>The interface the adapter installs, and its world's allocator.\<close>

definition bdl_iface :: "'w platform \<Rightarrow> 'w lwext4_port_bdl \<Rightarrow> 'w lwext4_port_bdl bdev_ref bdev_iface" where
  "bdl_iface P a =
     \<lparr>if_open = (\<lambda>s. (bdl_open s, s)), if_bread = bdl_read, if_bwrite = bdl_write, if_close = bdl_close,
      if_lock = Some (bdl_lock P), if_unlock = Some (bdl_unlock P),
      if_ph_bsize = ph_bsize a, if_ph_bcnt = ph_bcnt a,
      bd_part_offset = part_offset a, bd_part_size = part_size a\<rparr>"

fun on_world :: "('w \<Rightarrow> 'r \<times> 'w) \<Rightarrow> 'r \<Rightarrow> 'w lwext4_port_bdl bdev_ref \<Rightarrow> 'r \<times> 'w lwext4_port_bdl bdev_ref" where
  "on_world f r (P_user (Some a)) = (case f (world a) of (r', w) \<Rightarrow> (r', P_user (Some (a\<lparr>world := w\<rparr>))))"
| "on_world f r bdev = (r, bdev)"

definition lwext4_port_bdl_format ::
  "port_config \<Rightarrow> 'w platform
     \<Rightarrow> (mkfs_info \<Rightarrow> u32 \<Rightarrow> ('w lwext4_port_bdl bdev_ref, 'c) format_wrapper
           \<Rightarrow> (errno \<times> ('w lwext4_port_bdl bdev_ref, 'c) format_wrapper) option)
     \<Rightarrow> 'w lwext4_port_bdl option \<Rightarrow> 'c format_config option \<Rightarrow> 'c
     \<Rightarrow> (esp_err \<times> 'w lwext4_port_bdl option \<times> 'c) option" where
  "lwext4_port_bdl_format K P mkfs adapter config c =
     (let error = bdl_validate_format_args K adapter config in
      if error \<noteq> ESP_OK then Some (error, adapter, c)
      else
        case lwext4_port_bdl_sync P adapter of (error, ad1) \<Rightarrow>
        if error \<noteq> ESP_OK then Some (error, ad1, c)
        else
          case lwext4_port_format_blockdev K (on_world (calloc_ok P) False)
                 (\<lambda>s. snd (on_world (\<lambda>w. ((), heap_free P w)) () s)) mkfs
                 (Some (bdl_iface P (the ad1))) config c (lwext4_port_bdl_get ad1) of
            None \<Rightarrow> None
          | Some (error, bdev, c') \<Rightarrow>
              if error \<noteq> ESP_OK then Some (error, adapter_from_bdev bdev, c')
              else
                (case lwext4_port_bdl_sync P (adapter_from_bdev bdev) of (error, ad2) \<Rightarrow>
                 Some (error, ad2, c')))"

end
