(* ===== verification/Port_Transfer.thy ===== *)
theory Port_Transfer
  imports Port_Device
begin

text \<open>
  Reads and writes through a transfer buffer, once for both adapters: from what one chunk
  does to the device and the buffer follows what the whole loop does.
\<close>

section \<open>The state of a transfer\<close>

text \<open>
  \<open>dev\<close> is the adapter's invariant, \<open>frame a b\<close> says that \<open>b\<close> differs from \<open>a\<close> only in what a
  transfer may change, \<open>disk\<close> is the flat array behind the device and \<open>B\<close> the block size.
  \<open>fail r\<close> is what an adapter records about a failed chunk.
\<close>

locale transfer_state =
  fixes maxb bsz :: "'a \<Rightarrow> u32" and stride :: "'a \<Rightarrow> u64"
    and dev :: "'a \<Rightarrow> bool" and frame :: "'a \<Rightarrow> 'a \<Rightarrow> bool"
    and disk tb :: "'a \<Rightarrow> bytes" and fail :: "errno \<Rightarrow> 'a \<Rightarrow> bool" and B :: nat
  assumes frame_refl: "frame a a"
    and frame_trans: "frame a b \<Longrightarrow> frame b c \<Longrightarrow> frame a c"
    and frame_same: "frame a b \<Longrightarrow> maxb b = maxb a \<and> stride b = stride a \<and> length (tb b) = length (tb a)"
    and dev_frame: "dev a \<Longrightarrow> frame a b \<Longrightarrow> length (disk b) = length (disk a) \<Longrightarrow> dev b"
    and dev_bounds: "dev a \<Longrightarrow> maxb a \<noteq> 0 \<and> unat (maxb a) * B < 2 ^ 32
      \<and> length (tb a) = unat (maxb a) * B \<and> unat (bsz a) = B"

text \<open>Block \<open>j\<close> of the device is at position \<open>of_nat j * stride\<close>.\<close>

locale block_reader = transfer_state maxb bsz stride dev frame disk tb fail B
    + chunked run chunk adv "\<lambda>st. maxb (snd st)" "\<lambda>st. bsz (snd st)" "\<lambda>st. stride (snd st)"
  for run :: "u32 \<Rightarrow> u64 \<Rightarrow> nat \<Rightarrow> io_buffer \<times> 'a \<Rightarrow> (errno \<times> io_buffer \<times> 'a) option"
    and chunk adv maxb bsz stride dev frame disk tb fail B +
  assumes chunk_law: "\<lbrakk>chunk c (of_nat j * stride t) off (buf, t) = (r, buf', t'); dev t;
      unat c \<le> unat (maxb t); (j + unat c) * B \<le> length (disk t);
      buf \<noteq> Null_buffer; buf = Transfer_buffer \<Longrightarrow> off = 0\<rbrakk>
      \<Longrightarrow> frame t t' \<and> disk t' = disk t
        \<and> (if r = EOK then
             mem_read 0 (unat c * B) (tb t') = mem_read (j * B) (unat c * B) (disk t)
             \<and> buf' = (case buf of Caller_buffer d \<Rightarrow>
                 Caller_buffer (mem_write off (mem_read (j * B) (unat c * B) (disk t)) d) | _ \<Rightarrow> buf)
           else fail r t')"
begin

text \<open>After \<open>k\<close> of the \<open>n\<close> blocks of a read that started in \<open>(buf, a)\<close>.\<close>

definition read_done :: "io_buffer \<Rightarrow> 'a \<Rightarrow> nat \<Rightarrow> nat \<Rightarrow> nat \<Rightarrow> io_buffer \<times> 'a \<Rightarrow> bool" where
  "read_done buf a b n k st \<longleftrightarrow> frame a (snd st) \<and> disk (snd st) = disk a
     \<and> fst st = read_into buf (mem_read (b * B) (k * B) (disk a))
     \<and> (buf = Transfer_buffer \<longrightarrow> k = 0 \<or> k = n \<and>
          mem_read 0 (k * B) (tb (snd st)) = mem_read (b * B) (k * B) (disk a))"

lemma read_step:
  assumes dev: "dev a" and range: "(b + n) * B \<le> length (disk a)"
    and buf: "buf \<noteq> Null_buffer" "n * B \<le> length (buffer_bytes buf (tb a))"
      "buf = Transfer_buffer \<Longrightarrow> n \<le> unat (maxb a)"
    and J: "read_done buf a b n k t" and c: "0 < unat c" "k + unat c \<le> n"
      "unat c = min (n - k) (unat (maxb a))"
    and ch: "chunk c (of_nat b * stride a + of_nat k * stride a) (k * B) t = (r, t')"
  shows "if r = EOK then read_done buf a b n (k + unat c) t'
    else frame a (snd t') \<and> disk (snd t') = disk a \<and> fail r (snd t')"
proof -
  obtain buf0 u where t: "t = (buf0, u)" by fastforce
  obtain buf' a' where t': "t' = (buf', a')" by fastforce
  have fr: "frame a u" "disk u = disk a" and b0: "buf0 = read_into buf (mem_read (b * B) (k * B) (disk a))"
    and k0: "buf = Transfer_buffer \<Longrightarrow> k = 0"
    using J c(1,2) by (auto simp: read_done_def t)
  have cn: "buf = Transfer_buffer \<Longrightarrow> unat c = n" using k0 c(3) buf(3) by simp
  have bt: "buf0 \<noteq> Null_buffer" "buf0 = Transfer_buffer \<Longrightarrow> k * B = 0"
    using buf(1) k0 by (auto simp: b0 read_into_def split: io_buffer.splits)
  have le: "(b + k + unat c) * B \<le> length (disk a)" "(k + unat c) * B \<le> n * B"
    using c(2) by (auto intro: order_trans [OF mult_le_mono1 range] mult_le_mono1)
  have same: "maxb u = maxb a" "stride u = stride a" using frame_same [OF fr(1)] by simp_all
  have devu: "dev u" using dev_frame [OF dev fr(1)] fr(2) by simp
  have ch': "chunk c (of_nat (b + k) * stride u) (k * B) (buf0, u) = (r, buf', a')"
    using ch by (simp add: t t' same distrib_right)
  have cle: "unat c \<le> unat (maxb u)" using c(3) by (simp add: same)
  note spec = chunk_law [OF ch' devu cle le(1) [folded fr(2)] bt, unfolded fr(2) distrib_right]
  show ?thesis
  proof (cases "r = EOK")
    case True
    have "buf' = read_into buf (mem_read (b * B) ((k + unat c) * B) (disk a))"
    proof (cases buf)
      case (Caller_buffer d)
      then have "b * B + (k * B + unat c * B) \<le> length (disk a)" "k * B + unat c * B \<le> length d"
        using le buf(2) by (simp_all add: distrib_right)
      then show ?thesis
        using spec True Caller_buffer mem_copy_append [of "b * B" "k * B" "unat c * B" "disk a" 0 d]
        by (simp add: b0 read_into_def distrib_right)
    qed (use spec True buf(1) in \<open>simp_all add: b0 read_into_def\<close>)
    then show ?thesis
      using True spec k0 cn frame_trans [OF fr(1)] by (auto simp: read_done_def t')
  next
    case False
    then show ?thesis using spec frame_trans [OF fr(1)] by (simp add: t')
  qed
qed

lemma read_loop:
  assumes dev: "dev a" and range: "(unat b + unat n) * B \<le> length (disk a)"
    and buf: "buf \<noteq> Null_buffer" "unat n * B \<le> length (buffer_bytes buf (tb a))"
      "buf = Transfer_buffer \<Longrightarrow> unat n \<le> unat (maxb a)"
  shows "\<exists>r st. run n (of_nat (unat b) * stride a) 0 (buf, a) = Some (r, st)
    \<and> (if r = EOK then read_done buf a (unat b) (unat n) (unat n) st
       else frame a (snd st) \<and> disk (snd st) = disk a \<and> fail r (snd st))"
proof (rule run_rule [where s = "(buf, a)" and J = "read_done buf a (unat b) (unat n)"
      and Q = "\<lambda>r st. frame a (snd st) \<and> disk (snd st) = disk a \<and> fail r (snd st)"]; (unfold snd_conv)?)
  show "maxb a \<noteq> 0" "unat (maxb a) * unat (bsz a) < 2 ^ 32" using dev_bounds [OF dev] by simp_all
  show "read_done buf a (unat b) (unat n) 0 (buf, a)"
    using frame_refl by (cases buf) (simp_all add: read_done_def read_into_def)
  show "if r = EOK then read_done buf a (unat b) (unat n) (k + unat c) t'
      else frame a (snd t') \<and> disk (snd t') = disk a \<and> fail r (snd t')"
    if "read_done buf a (unat b) (unat n) k t" "0 < unat c" "k + unat c \<le> unat n"
      "unat c = min (unat n - k) (unat (maxb a))"
      "chunk c (of_nat (unat b) * stride a + of_nat k * stride a) (k * unat (bsz a)) t = (r, t')"
    for k c t r t'
    using read_step [OF dev range buf that(1-4), of r t'] that(5) dev_bounds [OF dev] by metis
qed

end

section \<open>Writing\<close>

locale block_writer = transfer_state maxb bsz stride dev frame disk tb fail B
    + chunked run chunk adv maxb bsz stride
  for run :: "u32 \<Rightarrow> u64 \<Rightarrow> nat \<Rightarrow> 'a \<Rightarrow> (errno \<times> 'a) option"
    and chunk adv maxb bsz stride dev frame disk tb fail B +
  fixes buf :: io_buffer
  assumes chunk_law: "\<lbrakk>chunk c (of_nat j * stride t) off t = (r, t'); dev t;
      unat c \<le> unat (maxb t); (j + unat c) * B \<le> length (disk t);
      off + unat c * B \<le> length (buffer_bytes buf (tb t));
      buf \<noteq> Null_buffer; buf = Transfer_buffer \<Longrightarrow> off = 0\<rbrakk>
      \<Longrightarrow> frame t t' \<and> same_outside (j * B) (unat c * B) (disk t) (disk t')
        \<and> (buf = Transfer_buffer \<longrightarrow> tb t' = tb t)
        \<and> (if r = EOK then disk t' = mem_write (j * B) (mem_read off (unat c * B) (buffer_bytes buf (tb t))) (disk t)
           else fail r t')"
begin

text \<open>After \<open>k\<close> of the \<open>n\<close> blocks of a write that started in \<open>a\<close>.\<close>

definition write_done :: "'a \<Rightarrow> nat \<Rightarrow> nat \<Rightarrow> nat \<Rightarrow> 'a \<Rightarrow> bool" where
  "write_done a b n k t \<longleftrightarrow> frame a t
     \<and> disk t = mem_write (b * B) (mem_read 0 (k * B) (buffer_bytes buf (tb a))) (disk a)
     \<and> (buf = Transfer_buffer \<longrightarrow> (k = 0 \<or> k = n) \<and> tb t = tb a)"

lemma write_step:
  assumes dev: "dev a" and range: "(b + n) * B \<le> length (disk a)"
    and buf: "buf \<noteq> Null_buffer" "n * B \<le> length (buffer_bytes buf (tb a))"
      "buf = Transfer_buffer \<Longrightarrow> n \<le> unat (maxb a)"
    and J: "write_done a b n k t" and c: "0 < unat c" "k + unat c \<le> n"
      "unat c = min (n - k) (unat (maxb a))"
    and ch: "chunk c (of_nat b * stride a + of_nat k * stride a) (k * B) t = (r, t')"
  shows "if r = EOK then write_done a b n (k + unat c) t'
    else frame a t' \<and> same_outside (b * B) (n * B) (disk a) (disk t') \<and> fail r t'"
proof -
  define src where "src = buffer_bytes buf (tb a)"
  have fr: "frame a t" and d: "disk t = mem_write (b * B) (mem_read 0 (k * B) src) (disk a)"
    and k0: "buf = Transfer_buffer \<Longrightarrow> k = 0 \<and> tb t = tb a"
    using J c(1,2) unfolding write_done_def src_def by auto
  have cn: "buf = Transfer_buffer \<Longrightarrow> unat c = n" using k0 c(3) buf(3) by simp
  have le: "(b + k + unat c) * B \<le> length (disk a)" "(k + unat c) * B \<le> n * B"
    using c(2) by (auto intro: order_trans [OF mult_le_mono1 range] mult_le_mono1)
  have src_t: "buffer_bytes buf (tb t) = src" using k0 by (cases buf) (simp_all add: src_def)
  have len: "(k + unat c) * B \<le> length src" unfolding src_def by (rule order_trans [OF le(2) buf(2)])
  have fit: "b * B + length (mem_read 0 (k * B) src) \<le> length (disk a)"
    using le(1) len by (simp add: length_mem_read distrib_right)
  have ld: "length (disk t) = length (disk a)" using fit by (simp add: d length_mem_write)
  have "frame t t' \<and> same_outside ((b + k) * B) (unat c * B) (disk t) (disk t')
      \<and> (buf = Transfer_buffer \<longrightarrow> tb t' = tb t)
      \<and> (if r = EOK then disk t' = mem_write ((b + k) * B) (mem_read (k * B) (unat c * B) src) (disk t)
         else fail r t')"
    using chunk_law [of c "b + k" t "k * B" r t'] ch c(3) frame_same [OF fr] dev_frame [OF dev fr ld]
      le(1) len buf(1) k0 by (simp add: src_t ld distrib_right)
  note spec = this [unfolded distrib_right]
  show ?thesis
  proof (cases "r = EOK")
    case True
    have "mem_write (b * B + k * B) (mem_read (k * B) (unat c * B) src)
        (mem_write (b * B) (mem_read 0 (k * B) src) (disk a))
        = mem_write (b * B) (mem_read 0 ((k + unat c) * B) src) (disk a)"
      using mem_copy_append [of 0 "k * B" "unat c * B" src "b * B" "disk a"] len le(1)
      by (simp add: distrib_right add.assoc)
    then show ?thesis
      using True spec k0 cn frame_trans [OF fr] by (auto simp: write_done_def d src_def [symmetric])
  next
    case False
    have "same_outside (b * B) (n * B) (disk a) (disk t)"
    proof -
      have "k * B \<le> n * B" "k * B \<le> length src" using le(2) len unfolding distrib_right by linarith+
      then show ?thesis unfolding d using fit by (intro same_outside_write) (simp_all only: length_mem_read add_0)
    qed
    moreover have "same_outside (b * B) (n * B) (disk t) (disk t')"
      using spec le(2) by (auto simp: distrib_right intro: same_outside_mono)
    ultimately show ?thesis using False spec frame_trans [OF fr] same_outside_trans by auto
  qed
qed

lemma write_loop:
  assumes dev: "dev a" and range: "(unat b + unat n) * B \<le> length (disk a)"
    and buf: "buf \<noteq> Null_buffer" "unat n * B \<le> length (buffer_bytes buf (tb a))"
      "buf = Transfer_buffer \<Longrightarrow> unat n \<le> unat (maxb a)"
  shows "\<exists>r t. run n (of_nat (unat b) * stride a) 0 a = Some (r, t)
    \<and> (if r = EOK then write_done a (unat b) (unat n) (unat n) t
       else frame a t \<and> same_outside (unat b * B) (unat n * B) (disk a) (disk t) \<and> fail r t)"
proof (rule run_rule [where J = "write_done a (unat b) (unat n)"])
  show "maxb a \<noteq> 0" "unat (maxb a) * unat (bsz a) < 2 ^ 32" using dev_bounds [OF dev] by simp_all
  show "write_done a (unat b) (unat n) 0 a"
    using frame_refl by (simp add: write_done_def)
  show "if r = EOK then write_done a (unat b) (unat n) (k + unat c) t'
      else frame a t' \<and> same_outside (unat b * B) (unat n * B) (disk a) (disk t') \<and> fail r t'"
    if "write_done a (unat b) (unat n) k t" "0 < unat c" "k + unat c \<le> unat n"
      "unat c = min (unat n - k) (unat (maxb a))"
      "chunk c (of_nat (unat b) * stride a + of_nat k * stride a) (k * unat (bsz a)) t = (r, t')"
    for k c t r t'
    using write_step [OF dev range buf that(1-4), of r t'] that(5) dev_bounds [OF dev] by metis
qed

end

end
