(* ===== verification/Port_Bdl_Correct.thy ===== *)
theory Port_Bdl_Correct
  imports Port_Bdl Port_Transfer
begin

text \<open>
  The BDL adapter is a block device: with a lower device that keeps its documented contract,
  the chunked reads and writes return and replace exactly the named blocks, and every error
  is translated and remembered.
\<close>

section \<open>What the lower device promises\<close>

text \<open>
  \<open>contents\<close> is the device's flat array.  In-range accesses move the named bytes; a failed
  write may have changed bytes inside its range only; sync changes nothing.
\<close>

definition read_ok :: "('w \<Rightarrow> bytes) \<Rightarrow> (bytes \<Rightarrow> u64 \<Rightarrow> u32 \<Rightarrow> 'w \<Rightarrow> esp_err \<times> bytes \<times> 'w) \<Rightarrow> bool" where
  "read_ok contents rd \<longleftrightarrow> (\<forall>tb addr n w. unat n \<le> length tb \<and> unat addr + unat n \<le> length (contents w) \<longrightarrow>
     (case rd tb addr n w of (e, tb', w') \<Rightarrow> length tb' = length tb \<and> contents w' = contents w
        \<and> (e = ESP_OK \<longrightarrow> tb' = mem_write 0 (mem_read (unat addr) (unat n) (contents w)) tb)))"

definition write_ok :: "('w \<Rightarrow> bytes) \<Rightarrow> (bytes \<Rightarrow> u64 \<Rightarrow> u32 \<Rightarrow> 'w \<Rightarrow> esp_err \<times> 'w) \<Rightarrow> bool" where
  "write_ok contents wr \<longleftrightarrow> (\<forall>tb addr n w. unat n \<le> length tb \<and> unat addr + unat n \<le> length (contents w) \<longrightarrow>
     (case wr tb addr n w of (e, w') \<Rightarrow> same_outside (unat addr) (unat n) (contents w) (contents w')
        \<and> (e = ESP_OK \<longrightarrow> contents w' = mem_write (unat addr) (mem_read 0 (unat n) tb) (contents w))))"

definition lower_ok :: "('w \<Rightarrow> bytes) \<Rightarrow> 'w esp_blockdev \<Rightarrow> bool" where
  "lower_ok contents l \<longleftrightarrow> (\<forall>ops. dev_ops l = Some ops \<longrightarrow>
       (\<forall>rd. ops_read ops = Some rd \<longrightarrow> read_ok contents rd)
     \<and> (\<forall>wr. ops_write ops = Some wr \<longrightarrow> write_ok contents wr)
     \<and> (\<forall>sy. ops_sync ops = Some sy \<longrightarrow> (\<forall>w. contents (snd (sy w)) = contents w)))"

lemma read_okD:
  assumes "read_ok contents rd" "unat n \<le> length tb" "unat addr + unat n \<le> length (contents w)"
    and "rd tb addr n w = (e, tb', w')"
  shows "length tb' = length tb" "contents w' = contents w"
    "e = ESP_OK \<Longrightarrow> tb' = mem_write 0 (mem_read (unat addr) (unat n) (contents w)) tb"
  using assms(1) [unfolded read_ok_def, rule_format, where tb = tb and addr = addr and n = n and w = w]
    assms(2-4) by simp_all

lemma write_okD:
  assumes "write_ok contents wr" "unat n \<le> length tb" "unat addr + unat n \<le> length (contents w)"
    and "wr tb addr n w = (e, w')"
  shows "same_outside (unat addr) (unat n) (contents w) (contents w')"
    "e = ESP_OK \<Longrightarrow> contents w' = mem_write (unat addr) (mem_read 0 (unat n) tb) (contents w)"
  using assms(1) [unfolded write_ok_def, rule_format, where tb = tb and addr = addr and n = n and w = w]
    assms(2-4) by simp_all

section \<open>The adapter's invariant\<close>

definition bdl_ok :: "'w lwext4_port_bdl \<Rightarrow> bool" where
  "bdl_ok a \<longleftrightarrow> valid_lower_handle (Some a) \<and> ops_read (lower_ops a) \<noteq> None
     \<and> (\<not> bdl_read_only a \<longrightarrow> ops_write (lower_ops a) \<noteq> None \<and> \<not> dev_read_only (lower_dev a))
     \<and> (sync_after_write a \<longrightarrow> ops_sync (lower_ops a) \<noteq> None) \<and> lock a
     \<and> is_power_of_two (ph_bsize a) \<and> transfer_buffer_blocks a \<noteq> 0
     \<and> unat (transfer_buffer_blocks a) * unat (ph_bsize a) < 2 ^ 32
     \<and> unat (transfer_buffer_size a) = unat (transfer_buffer_blocks a) * unat (ph_bsize a)
     \<and> length (transfer_buffer a) = unat (transfer_buffer_blocks a) * unat (ph_bsize a)
     \<and> unat (ph_bcnt a) * unat (ph_bsize a) = unat (disk_size (lower_dev a))
     \<and> part_offset a = 0 \<and> part_size a = disk_size (lower_dev a)"

definition bdl_dev :: "('w \<Rightarrow> bytes) \<Rightarrow> nat \<Rightarrow> 'w lwext4_port_bdl \<Rightarrow> bool" where
  "bdl_dev contents B a \<longleftrightarrow> bdl_ok a \<and> lower_ok contents (lower_dev a) \<and> unat (ph_bsize a) = B
     \<and> length (contents (world a)) = unat (disk_size (lower_dev a))"

lemma bdl_devD:
  assumes "bdl_dev contents B a"
  shows "bdl_ok a" "lower_ok contents (lower_dev a)" "unat (ph_bsize a) = B"
    "unat (ph_bcnt a) * B = length (contents (world a))" "valid_lower_handle (Some a)"
    "length (transfer_buffer a) = unat (transfer_buffer_blocks a) * B"
    "unat (transfer_buffer_blocks a) * B < 2 ^ 32" "transfer_buffer_blocks a \<noteq> 0"
    "length (contents (world a)) < 2 ^ 64" "0 < B"
    "ops_read (lower_ops a) \<noteq> None" "\<not> bdl_read_only a \<Longrightarrow> ops_write (lower_ops a) \<noteq> None"
    "\<not> bdl_read_only a \<Longrightarrow> \<not> dev_read_only (lower_dev a)"
  using assms unat64_less [of "disk_size (lower_dev a)"] is_power_of_two_iff [of "ph_bsize a"]
  unfolding bdl_dev_def bdl_ok_def by auto

text \<open>All a transfer may change: the transfer buffer, the remembered error, the world.\<close>

definition bdl_frame :: "'w lwext4_port_bdl \<Rightarrow> 'w lwext4_port_bdl \<Rightarrow> bool" where
  "bdl_frame a a' \<longleftrightarrow> length (transfer_buffer a') = length (transfer_buffer a)
     \<and> a' = a\<lparr>transfer_buffer := transfer_buffer a', last_lower_error := last_lower_error a',
          world := world a'\<rparr>"

lemma bdl_frame_refl [simp]: "bdl_frame a a"
  by (simp add: bdl_frame_def)

lemma bdl_frame_trans: "bdl_frame a b \<Longrightarrow> bdl_frame b c \<Longrightarrow> bdl_frame a c"
  by (cases a; cases b; cases c) (simp add: bdl_frame_def)

lemma bdl_frame_world: "bdl_frame a b \<Longrightarrow> bdl_frame a (b\<lparr>world := w\<rparr>)"
  by (cases a; cases b) (simp add: bdl_frame_def)

lemma bdl_frame_fields:
  assumes "bdl_frame a b"
  shows "lower b = lower a" "lock b = lock a" "transfer_buffer_blocks b = transfer_buffer_blocks a"
    "transfer_buffer_size b = transfer_buffer_size a" "bdl_read_only b = bdl_read_only a"
    "sync_after_write b = sync_after_write a" "ph_bsize b = ph_bsize a" "ph_bcnt b = ph_bcnt a"
    "ph_refctr b = ph_refctr a" "part_offset b = part_offset a" "part_size b = part_size a"
    "length (transfer_buffer b) = length (transfer_buffer a)"
  using assms by (cases a; cases b; simp add: bdl_frame_def)+

lemma bdl_dev_frame:
  assumes "bdl_dev contents B a" "bdl_frame a b" "length (contents (world b)) = length (contents (world a))"
  shows "bdl_dev contents B b"
  using assms(1,3) unfolding bdl_dev_def bdl_ok_def valid_lower_handle_def option.case
    bdl_frame_fields [OF assms(2)] by auto

section \<open>Lemmas on chunks\<close>

lemma bdl_write_chunk_same:
  "bdl_write_chunk buf addr n off a = (r, a') \<Longrightarrow>
    transfer_buffer_blocks a' = transfer_buffer_blocks a \<and> ph_bsize a' = ph_bsize a"
  by (auto simp: bdl_write_chunk_def save_lower_result_def Let_def split: prod.splits)

lemma bdl_read_chunk_same:
  "bdl_read_chunk addr n off buf a = (r, buf', a') \<Longrightarrow>
    transfer_buffer_blocks a' = transfer_buffer_blocks a \<and> ph_bsize a' = ph_bsize a"
  by (auto simp: bdl_read_chunk_def save_lower_result_def Let_def split: prod.splits if_splits)

lemma adv_bytes:
  "unat (c :: u32) * unat (b :: u32) < 2 ^ 32 \<Longrightarrow> (ucast (c * b) :: u64) = of_nat (unat c) * ucast b"
proof -
  assume "unat c * unat b < 2 ^ 32"
  then have "unat (c * b) = unat c * unat b" using unat_mult_lem [of c b] by simp
  then have "(of_nat (unat (c * b)) :: u64) = of_nat (unat c) * of_nat (unat b)" by simp
  then show ?thesis by (simp only: of_nat_unat)
qed

section \<open>One chunk\<close>

lemma bdl_range:
  assumes "bdl_dev contents B a" "bdl_validate_io_range a b n = Inr adr" "n \<noteq> 0"
  shows "adr = b * ucast (ph_bsize a) \<and> (unat b + unat n) * B \<le> length (contents (world a))"
proof -
  have "b < ph_bcnt a" "(ucast n :: u64) \<le> ph_bcnt a - b" "adr = b * ucast (ph_bsize a)"
    using assms(2,3) by (auto simp: bdl_validate_io_range_def Let_def not_le not_less split: if_splits)
  then have "unat b + unat n \<le> unat (ph_bcnt a)"
    by (simp add: word_le_nat_alt word_less_nat_alt unat_sub)
  then have "(unat b + unat n) * B \<le> unat (ph_bcnt a) * B" by simp
  with bdl_devD(4) [OF assms(1)] \<open>adr = _\<close> show ?thesis by simp
qed

lemma block_address:
  assumes "bdl_dev contents B a" "(j + m) * B \<le> length (contents (world a))"
  shows "unat (of_nat j * ucast (ph_bsize a) :: u64) = j * B"
proof -
  have "(of_nat j * ucast (ph_bsize a) :: u64) = of_nat (j * B)"
    by (simp add: bdl_devD(3) [OF assms(1), symmetric])
  moreover have "j * B < 2 ^ 64"
    using assms(2) bdl_devD(9) [OF assms(1)] by (simp add: distrib_right)
  ultimately show ?thesis by (simp add: unat_of_nat del: of_nat_mult)
qed

lemma chunk_size:
  assumes "bdl_dev contents B a" "unat c \<le> unat (transfer_buffer_blocks a)"
  shows "unat (c * ph_bsize a) = unat c * B" "unat c * B \<le> length (transfer_buffer a)"
proof -
  have "unat c * B \<le> unat (transfer_buffer_blocks a) * B" by (rule mult_le_mono1 [OF assms(2)])
  moreover from this have "unat c * B < 2 ^ 32" using bdl_devD(7) [OF assms(1)] by (rule le_less_trans)
  ultimately show "unat (c * ph_bsize a) = unat c * B" "unat c * B \<le> length (transfer_buffer a)"
    using bdl_devD(3,6) [OF assms(1)] unat_mult_lem [of c "ph_bsize a"] by simp_all
qed

lemma bdl_ops:
  assumes "bdl_dev contents B a"
  obtains rd where "ops_read (lower_ops a) = Some rd" "read_ok contents rd"
  using bdl_devD(2,5,11) [OF assms] by (auto simp: lower_ok_def valid_lower_handle_def split: option.splits)

lemma bdl_read_chunk_spec:
  assumes run: "bdl_read_chunk (of_nat j * ucast (ph_bsize t)) (c * ph_bsize t) off buf t = (r, buf', t')"
    and dev: "bdl_dev contents B t" and c: "unat c \<le> unat (transfer_buffer_blocks t)"
    and range: "(j + unat c) * B \<le> length (contents (world t))"
    and buf: "buf \<noteq> Null_buffer" "buf = Transfer_buffer \<Longrightarrow> off = 0"
  shows "bdl_frame t t' \<and> contents (world t') = contents (world t)
    \<and> (if r = EOK then
         mem_read 0 (unat c * B) (transfer_buffer t') = mem_read (j * B) (unat c * B) (contents (world t))
         \<and> buf' = (case buf of Caller_buffer d \<Rightarrow>
             Caller_buffer (mem_write off (mem_read (j * B) (unat c * B) (contents (world t))) d) | _ \<Rightarrow> buf)
       else r = esp_error_to_lwext4 (last_lower_error t'))"
proof -
  let ?addr = "of_nat j * ucast (ph_bsize t) :: u64"
  obtain rd where rd: "ops_read (lower_ops t) = Some rd" "read_ok contents rd" by (rule bdl_ops [OF dev])
  obtain e tb w where x: "rd (transfer_buffer t) ?addr (c * ph_bsize t) (world t) = (e, tb, w)"
    by (metis prod_cases3)
  note sz = chunk_size [OF dev c]
  have addr: "unat ?addr = j * B" using block_address [OF dev range] .
  have "unat (c * ph_bsize t) \<le> length (transfer_buffer t)"
    "unat ?addr + unat (c * ph_bsize t) \<le> length (contents (world t))"
    using sz range by (simp_all add: addr distrib_right)
  note rd' = read_okD [OF rd(2) this x, unfolded sz(1) addr]
  show ?thesis
  proof (cases "e = ESP_OK")
    case True
    have "mem_read 0 (unat c * B) tb = mem_read (j * B) (unat c * B) (contents (world t))"
      using rd'(3) [OF True] sz range by (simp add: mem_simps distrib_right)
    then show ?thesis
      using run buf rd'(1,2) True
      by (cases buf) (auto simp: bdl_read_chunk_def save_lower_result_def bdl_frame_def rd(1) x sz)
  next
    case False
    then show ?thesis
      using run rd'(1,2)
      by (auto simp: bdl_read_chunk_def save_lower_result_def bdl_frame_def rd(1) x)
  qed
qed

lemma bdl_write_chunk_spec:
  assumes run: "bdl_write_chunk buf (of_nat j * ucast (ph_bsize t)) (c * ph_bsize t) off t = (r, t')"
    and dev: "bdl_dev contents B t \<and> \<not> bdl_read_only t" and c: "unat c \<le> unat (transfer_buffer_blocks t)"
    and range: "(j + unat c) * B \<le> length (contents (world t))"
    and src: "off + unat c * B \<le> length (buffer_bytes buf (transfer_buffer t))"
    and buf: "buf \<noteq> Null_buffer" "buf = Transfer_buffer \<Longrightarrow> off = 0"
  shows "bdl_frame t t' \<and> same_outside (j * B) (unat c * B) (contents (world t)) (contents (world t'))
    \<and> (buf = Transfer_buffer \<longrightarrow> transfer_buffer t' = transfer_buffer t)
    \<and> (if r = EOK then contents (world t') = mem_write (j * B)
           (mem_read off (unat c * B) (buffer_bytes buf (transfer_buffer t))) (contents (world t))
       else r = esp_error_to_lwext4 (last_lower_error t'))"
proof -
  let ?addr = "of_nat j * ucast (ph_bsize t) :: u64"
  define tb where "tb = copy_in buf off (unat (c * ph_bsize t)) (transfer_buffer t)"
  from dev have dv: "bdl_dev contents B t" by simp
  from dev bdl_devD(2,5,12) [OF dv] obtain wr where wr: "ops_write (lower_ops t) = Some wr" "write_ok contents wr"
    by (auto simp: lower_ok_def valid_lower_handle_def split: option.splits)
  obtain e w where x: "wr tb ?addr (c * ph_bsize t) (world t) = (e, w)" by fastforce
  note sz = chunk_size [OF dv c]
  have addr: "unat ?addr = j * B" using block_address [OF dv range] .
  have tb: "length tb = length (transfer_buffer t)"
    "mem_read 0 (unat c * B) tb = mem_read off (unat c * B) (buffer_bytes buf (transfer_buffer t))"
    "buf = Transfer_buffer \<Longrightarrow> tb = transfer_buffer t"
    using sz src buf by (cases buf; simp add: tb_def mem_simps length_mem_read)+
  have "unat (c * ph_bsize t) \<le> length tb" "unat ?addr + unat (c * ph_bsize t) \<le> length (contents (world t))"
    using sz range by (simp_all add: addr tb distrib_right)
  note wr' = write_okD [OF wr(2) this x, unfolded sz(1) addr tb(2)]
  show ?thesis
    using run wr' tb(1,3)
    by (cases "e = ESP_OK")
      (auto simp: bdl_write_chunk_def save_lower_result_def bdl_frame_def wr(1) x tb_def [symmetric] Let_def)
qed

section \<open>The loops\<close>

interpretation bdl_ts: transfer_state
  transfer_buffer_blocks ph_bsize "\<lambda>a. ucast (ph_bsize a)"
  "bdl_dev contents B" bdl_frame "\<lambda>a. contents (world a)" transfer_buffer
  "\<lambda>r a. r = esp_error_to_lwext4 (last_lower_error a)" B for contents :: "'w \<Rightarrow> bytes" and B
  by unfold_locales
    (auto dest: bdl_devD bdl_frame_fields intro: bdl_frame_trans bdl_dev_frame)

interpretation bdl_wts: transfer_state
  transfer_buffer_blocks ph_bsize "\<lambda>a. ucast (ph_bsize a)"
  "\<lambda>a. bdl_dev contents B a \<and> \<not> bdl_read_only a" bdl_frame "\<lambda>a. contents (world a)" transfer_buffer
  "\<lambda>r a. r = esp_error_to_lwext4 (last_lower_error a)" B for contents :: "'w \<Rightarrow> bytes" and B
  by unfold_locales
    (auto dest: bdl_devD bdl_frame_fields intro: bdl_frame_trans bdl_dev_frame)

interpretation bdl_rd_loop: chunked
  "\<lambda>n pos off st. bdl_read_loop n pos off (fst st) (snd st)"
  "\<lambda>c pos off st. bdl_read_chunk pos (c * ph_bsize (snd st)) off (fst st) (snd st)"
  "\<lambda>st c. ucast (c * ph_bsize (snd st))"
  "\<lambda>st. transfer_buffer_blocks (snd st)" "\<lambda>st. ph_bsize (snd st)" "\<lambda>st. ucast (ph_bsize (snd st))"
proof unfold_locales
  fix n pos off and st :: "io_buffer \<times> 'w lwext4_port_bdl"
  show "bdl_read_loop n pos off (fst st) (snd st) =
      (if n \<noteq> 0 then
         (let c = (if n > transfer_buffer_blocks (snd st) then transfer_buffer_blocks (snd st) else n) in
          case bdl_read_chunk pos (c * ph_bsize (snd st)) off (fst st) (snd st) of (r, s') \<Rightarrow>
          if r \<noteq> EOK then Some (r, s')
          else bdl_read_loop (n - c) (pos + ucast (c * ph_bsize (snd st))) (off + unat (c * ph_bsize (snd st)))
            (fst s') (snd s'))
       else Some (EOK, st))"
    by (subst bdl_read_loop.simps) (simp add: Let_def split_beta)
qed (auto dest: bdl_read_chunk_same simp: adv_bytes)

interpretation bdl_wr_loop: chunked
  "bdl_write_loop buf"
  "\<lambda>c pos off a. bdl_write_chunk buf pos (c * ph_bsize a) off a"
  "\<lambda>a c. ucast (c * ph_bsize a)"
  transfer_buffer_blocks ph_bsize "\<lambda>a. ucast (ph_bsize a)" for buf
proof unfold_locales
  fix n pos off and a :: "'w lwext4_port_bdl"
  show "bdl_write_loop buf n pos off a =
      (if n \<noteq> 0 then
         (let c = (if n > transfer_buffer_blocks a then transfer_buffer_blocks a else n) in
          case bdl_write_chunk buf pos (c * ph_bsize a) off a of (r, s') \<Rightarrow>
          if r \<noteq> EOK then Some (r, s')
          else bdl_write_loop buf (n - c) (pos + ucast (c * ph_bsize a)) (off + unat (c * ph_bsize a)) s')
       else Some (EOK, a))"
    by (subst bdl_write_loop.simps) (simp add: Let_def split_beta)
qed (auto dest: bdl_write_chunk_same simp: adv_bytes)

interpretation bdl_rd: block_reader
  "\<lambda>n pos off st. bdl_read_loop n pos off (fst st) (snd st)"
  "\<lambda>c pos off st. bdl_read_chunk pos (c * ph_bsize (snd st)) off (fst st) (snd st)"
  "\<lambda>st c. ucast (c * ph_bsize (snd st))"
  transfer_buffer_blocks ph_bsize "\<lambda>a. ucast (ph_bsize a)"
  "bdl_dev contents B" bdl_frame "\<lambda>a. contents (world a)" transfer_buffer
  "\<lambda>r a. r = esp_error_to_lwext4 (last_lower_error a)" B for contents :: "'w \<Rightarrow> bytes" and B
  by unfold_locales (simp only: fst_conv snd_conv, rule bdl_read_chunk_spec)

interpretation bdl_wr: block_writer
  "bdl_write_loop buf"
  "\<lambda>c pos off a. bdl_write_chunk buf pos (c * ph_bsize a) off a"
  "\<lambda>a c. ucast (c * ph_bsize a)"
  transfer_buffer_blocks ph_bsize "\<lambda>a. ucast (ph_bsize a)"
  "\<lambda>a. bdl_dev contents B a \<and> \<not> bdl_read_only a" bdl_frame "\<lambda>a. contents (world a)" transfer_buffer
  "\<lambda>r a. r = esp_error_to_lwext4 (last_lower_error a)" B buf for contents :: "'w \<Rightarrow> bytes" and B buf
  by unfold_locales (rule bdl_write_chunk_spec)

section \<open>bdl_read and bdl_write\<close>

lemma bdl_validate_error:
  assumes "bdl_validate_io_range a b n = Inl r"
  shows "n \<noteq> 0" "r \<noteq> EOK" "r = EINVAL \<longleftrightarrow> unat (ph_bcnt a) < unat b + unat n"
proof -
  show n: "n \<noteq> 0" and "r \<noteq> EOK"
    using assms by (auto simp: bdl_validate_io_range_def Let_def split: if_splits)
  have "0 < unat n" using n by (simp add: unat_gt_0)
  then show "r = EINVAL \<longleftrightarrow> unat (ph_bcnt a) < unat b + unat n"
    using assms unat_sub [of b "ph_bcnt a"]
    by (cases "b < ph_bcnt a")
      (auto simp: bdl_validate_io_range_def Let_def word_le_nat_alt word_less_nat_alt split: if_splits)
qed

lemma transfer_fits:
  assumes "bdl_dev contents B a" "unat n * B \<le> length (buffer_bytes buf (transfer_buffer a))"
    "buf = Transfer_buffer"
  shows "unat n \<le> unat (transfer_buffer_blocks a)"
  using bdl_devD(6,10) [OF assms(1)] assms(2,3) by simp

lemma bdl_read_spec:
  assumes dev: "bdl_dev contents B a" and buf: "buf \<noteq> Null_buffer"
    "unat n * B \<le> length (buffer_bytes buf (transfer_buffer a))"
  shows "\<exists>r buf' a'. bdl_read buf b n (P_user (Some a)) = Some (r, buf', P_user (Some a'))
    \<and> bdl_frame a a' \<and> contents (world a') = contents (world a)
    \<and> (if r = EOK then
         buf' = read_into buf (mem_read (unat b * B) (unat n * B) (contents (world a)))
         \<and> mem_read 0 (unat n * B) (buffer_bytes buf' (transfer_buffer a'))
           = mem_read (unat b * B) (unat n * B) (contents (world a))
         \<and> (n \<noteq> 0 \<longrightarrow> (unat b + unat n) * B \<le> length (contents (world a)))
       else bdl_validate_io_range a b n = Inl r \<and> a' = a
         \<or> r = esp_error_to_lwext4 (last_lower_error a'))"
proof -
  note d = bdl_devD [OF dev]
  note tr = transfer_fits [OF dev buf(2)]
  note ng = d(5,11) buf(1)
  show ?thesis
  proof (cases "bdl_validate_io_range a b n")
    case (Inl r)
    then have "bdl_read buf b n (P_user (Some a)) = Some (r, buf, P_user (Some a))"
      by (simp add: bdl_read_def ng Let_def)
    then show ?thesis using Inl bdl_validate_error(2) [OF Inl] by (intro exI) auto
  next
    case (Inr adr)
    show ?thesis
    proof (cases "n = 0")
      case True
      then have "bdl_read buf b n (P_user (Some a)) = Some (EOK, buf, P_user (Some a))"
        using Inr by (simp add: bdl_read_def ng Let_def)
      moreover have "read_into buf [] = buf" by (cases buf) (simp_all add: read_into_def)
      ultimately show ?thesis
        using True by (intro exI [of _ EOK] exI [of _ buf] exI [of _ a]) simp
    next
      case False
      from bdl_range [OF dev Inr False]
      have rg: "adr = of_nat (unat b) * ucast (ph_bsize a)" "(unat b + unat n) * B \<le> length (contents (world a))"
        by simp_all
      obtain r st where l0: "bdl_read_loop n adr 0 (fst (buf, a)) (snd (buf, a)) = Some (r, st)"
        "if r = EOK then bdl_rd.read_done contents B buf a (unat b) (unat n) (unat n) st
         else bdl_frame a (snd st) \<and> contents (world (snd st)) = contents (world a)
           \<and> r = esp_error_to_lwext4 (last_lower_error (snd st))"
        using bdl_rd.read_loop [where b = b, OF dev rg(2) buf tr] unfolding rg(1) by blast
      obtain buf' a' where st: "st = (buf', a')" by fastforce
      note l = l0 [unfolded st fst_conv snd_conv]
      have "bdl_read buf b n (P_user (Some a)) = Some (r, buf', P_user (Some a'))"
        using Inr False tr l(1) by (auto simp: bdl_read_def word_less_nat_alt ng Let_def)
      moreover have "mem_read 0 (unat n * B) (buffer_bytes buf' (transfer_buffer a'))
          = mem_read (unat b * B) (unat n * B) (contents (world a))" if "r = EOK"
        using l(2) that False rg(2) buf
        by (cases buf) (auto simp: bdl_rd.read_done_def read_into_def mem_simps distrib_right unat_eq_zero)
      ultimately show ?thesis
        using l(2) rg(2) by (auto simp: bdl_rd.read_done_def split: if_splits)
    qed
  qed
qed

lemma sync_lower_spec:
  assumes "bdl_dev contents B a" "sync_lower a = (error, a')"
  shows "bdl_frame a a' \<and> contents (world a') = contents (world a) \<and> last_lower_error a' = error"
proof -
  have "contents (snd (case ops_sync (lower_ops a) of None \<Rightarrow> (ESP_OK, world a) | Some f \<Rightarrow> f (world a)))
      = contents (world a)"
    using bdl_devD(2,5) [OF assms(1)]
    by (auto simp: lower_ok_def valid_lower_handle_def split: option.splits)
  then show ?thesis
    using assms(2) bdl_devD(5) [OF assms(1)]
    by (auto simp: sync_lower_def bdl_frame_def split: prod.splits)
qed

text \<open>A write that succeeds with sync_after_write ends with a sync that succeeded.\<close>

lemma bdl_write_synced:
  assumes "bdl_write buf b n (P_user (Some a)) = Some (EOK, P_user (Some a'))" "n \<noteq> 0" "sync_after_write a'"
  shows "\<exists>a1. sync_lower a1 = (ESP_OK, a')"
  using assms
  by (auto simp: bdl_write_def Let_def split: if_splits sum.splits option.splits prod.splits
      dest: bdl_validate_error(2))

lemma bdl_frame_sync: "bdl_frame a a' \<Longrightarrow> sync_after_write a' = sync_after_write a"
proof -
  assume "bdl_frame a a'"
  then have "a' = a\<lparr>transfer_buffer := transfer_buffer a', last_lower_error := last_lower_error a', world := world a'\<rparr>"
    by (simp only: bdl_frame_def)
  from arg_cong [OF this, of sync_after_write] show ?thesis by simp
qed

lemma bdl_write_spec:
  assumes dev: "bdl_dev contents B a" and buf: "buf \<noteq> Null_buffer"
    "unat n * B \<le> length (buffer_bytes buf (transfer_buffer a))"
  shows "\<exists>r a'. bdl_write buf b n (P_user (Some a)) = Some (r, P_user (Some a'))
    \<and> bdl_frame a a' \<and> same_outside (unat b * B) (unat n * B) (contents (world a)) (contents (world a'))
    \<and> (if r = EOK then \<not> bdl_read_only a
         \<and> contents (world a') = mem_write (unat b * B)
             (mem_read 0 (unat n * B) (buffer_bytes buf (transfer_buffer a))) (contents (world a))
         \<and> (n \<noteq> 0 \<longrightarrow> (unat b + unat n) * B \<le> length (contents (world a)))
       else bdl_read_only a \<and> r = EROFS \<and> a' = a \<or> bdl_validate_io_range a b n = Inl r \<and> a' = a
         \<or> r = esp_error_to_lwext4 (last_lower_error a'))"
proof (cases "bdl_read_only a")
  case True
  then have "bdl_write buf b n (P_user (Some a)) = Some (EROFS, P_user (Some a))"
    using bdl_devD(5) [OF dev] buf(1) by (simp add: bdl_write_def Let_def)
  then show ?thesis using True by auto
next
  case ro: False
  note d = bdl_devD [OF dev]
  note ng = d(5) d(12,13) [OF ro] buf(1) ro
  note tr = transfer_fits [OF dev buf(2)]
  show ?thesis
  proof (cases "bdl_validate_io_range a b n")
    case (Inl r)
    then have "bdl_write buf b n (P_user (Some a)) = Some (r, P_user (Some a))"
      by (simp add: bdl_write_def ng Let_def)
    then show ?thesis using Inl bdl_validate_error(2) [OF Inl] by auto
  next
    case (Inr adr)
    show ?thesis
    proof (cases "n = 0")
      case True
      then have "bdl_write buf b n (P_user (Some a)) = Some (EOK, P_user (Some a))"
        using Inr by (simp add: bdl_write_def ng Let_def)
      then show ?thesis using True ro by simp
    next
      case False
      from bdl_range [OF dev Inr False]
      have rg: "adr = of_nat (unat b) * ucast (ph_bsize a)" "(unat b + unat n) * B \<le> length (contents (world a))"
        by simp_all
      obtain r t where l: "bdl_write_loop buf n adr 0 a = Some (r, t)"
        "if r = EOK then bdl_wr.write_done contents B buf a (unat b) (unat n) (unat n) t
         else bdl_frame a t \<and> same_outside (unat b * B) (unat n * B) (contents (world a)) (contents (world t))
           \<and> r = esp_error_to_lwext4 (last_lower_error t)"
        using bdl_wr.write_loop [where b = b, OF conjI [OF dev ro] rg(2) buf tr] unfolding rg(1) by blast
      define src where "src = mem_read 0 (unat n * B) (buffer_bytes buf (transfer_buffer a))"
      have fr: "bdl_frame a t" using l(2) by (auto simp: bdl_wr.write_done_def split: if_splits)
      have so: "same_outside (unat b * B) (unat n * B) (contents (world a)) (contents (world t))"
        using l(2) rg(2) buf(2)
        by (auto simp: bdl_wr.write_done_def distrib_right length_mem_read split: if_splits)
      have ct: "r = EOK \<Longrightarrow> contents (world t) = mem_write (unat b * B) src (contents (world a))"
        using l(2) by (simp add: bdl_wr.write_done_def src_def)
      obtain e t' where sy: "sync_lower t = (e, t')" by fastforce
      have "length (contents (world t)) = length (contents (world a))" using so by (simp add: same_outside_def)
      from sync_lower_spec [OF bdl_dev_frame [OF dev fr this] sy]
      have sy': "bdl_frame a t'" "contents (world t') = contents (world t)" "last_lower_error t' = e"
        using bdl_frame_trans [OF fr] by auto
      have run: "bdl_write buf b n (P_user (Some a)) =
          (if r \<noteq> EOK then Some (r, P_user (Some t))
           else if sync_after_write t then Some (esp_error_to_lwext4 e, P_user (Some t'))
           else Some (EOK, P_user (Some t)))"
        using Inr False tr l(1) sy by (auto simp: bdl_write_def word_less_nat_alt ng Let_def)
      consider "r \<noteq> EOK" | "r = EOK" "sync_after_write t" | "r = EOK" "\<not> sync_after_write t" by blast
      then show ?thesis
      proof cases
        case 1
        with run l(2) so fr show ?thesis by auto
      next
        case 2
        with run ct so sy' ro rg(2) show ?thesis by (auto simp: src_def)
      next
        case 3
        with run ct so fr ro rg(2) show ?thesis by (auto simp: src_def)
      qed
    qed
  qed
qed

section \<open>The adapter as a block device\<close>

definition bdl_state_ok :: "('w \<Rightarrow> bytes) \<Rightarrow> nat \<Rightarrow> 'w lwext4_port_bdl bdev_ref \<Rightarrow> bool" where
  "bdl_state_ok contents B bdev =
     (case adapter_from_bdev bdev of None \<Rightarrow> False | Some a \<Rightarrow> bdl_dev contents B a)"

definition bdl_disk :: "('w \<Rightarrow> bytes) \<Rightarrow> 'w lwext4_port_bdl bdev_ref \<Rightarrow> bytes" where
  "bdl_disk contents bdev = contents (world (the (adapter_from_bdev bdev)))"

definition bdl_tbuf :: "'w lwext4_port_bdl bdev_ref \<Rightarrow> bytes" where
  "bdl_tbuf bdev = transfer_buffer (the (adapter_from_bdev bdev))"

lemma bdl_state_okE:
  assumes "bdl_state_ok contents B bdev"
  obtains a where "bdev = P_user (Some a)" "bdl_dev contents B a"
  using assms by (cases bdev rule: adapter_from_bdev.cases) (auto simp: bdl_state_ok_def split: option.splits)

interpretation bdl: block_device bdl_read bdl_write "bdl_state_ok contents B" "bdl_disk contents" bdl_tbuf B
  for contents :: "'w \<Rightarrow> bytes" and B
proof unfold_locales
  fix s :: "'w lwext4_port_bdl bdev_ref" and buf and n :: u32 and b :: u64
  assume s: "bdl_state_ok contents B s" and buf: "buf \<noteq> Null_buffer"
    "unat n * B \<le> length (buffer_bytes buf (bdl_tbuf s))"
  obtain a where a: "s = P_user (Some a)" "bdl_dev contents B a" by (rule bdl_state_okE [OF s])
  have buf': "unat n * B \<le> length (buffer_bytes buf (transfer_buffer a))"
    using buf(2) by (simp add: a bdl_tbuf_def)
  note ok = bdl_dev_frame [OF a(2)] bdl_frame_fields(12)
  show "\<exists>r buf' s'. bdl_read buf b n s = Some (r, buf', s') \<and> bdl_state_ok contents B s'
      \<and> bdl_disk contents s' = bdl_disk contents s \<and> length (bdl_tbuf s') = length (bdl_tbuf s)
      \<and> (r = EOK \<longrightarrow> buf' = read_into buf (mem_read (unat b * B) (unat n * B) (bdl_disk contents s))
           \<and> mem_read 0 (unat n * B) (buffer_bytes buf' (bdl_tbuf s'))
             = mem_read (unat b * B) (unat n * B) (bdl_disk contents s)
           \<and> (n \<noteq> 0 \<longrightarrow> (unat b + unat n) * B \<le> length (bdl_disk contents s)))"
    using bdl_read_spec [OF a(2) buf(1) buf', of b]
    by (auto simp: a(1) bdl_state_ok_def bdl_disk_def bdl_tbuf_def ok split: if_splits)
  show "\<exists>r s'. bdl_write buf b n s = Some (r, s') \<and> bdl_state_ok contents B s'
      \<and> length (bdl_tbuf s') = length (bdl_tbuf s)
      \<and> same_outside (unat b * B) (unat n * B) (bdl_disk contents s) (bdl_disk contents s')
      \<and> (r = EOK \<longrightarrow>
           bdl_disk contents s' = mem_write (unat b * B)
             (mem_read 0 (unat n * B) (buffer_bytes buf (bdl_tbuf s))) (bdl_disk contents s)
           \<and> (n \<noteq> 0 \<longrightarrow> (unat b + unat n) * B \<le> length (bdl_disk contents s)))"
    using bdl_write_spec [OF a(2) buf(1) buf', of b]
    by (auto simp: a(1) bdl_state_ok_def bdl_disk_def bdl_tbuf_def ok same_outside_def split: if_splits)
qed

section \<open>Creation and destruction\<close>

lemma bdl_validate_create_okD:
  assumes "bdl_validate_create_args P l config out = ESP_OK"
  obtains l0 cfg ops where "l = Some l0" "config = Some cfg" "dev_ops l0 = Some ops" "ops_read ops \<noteq> None"
    "is_power_of_two (physical_block_size cfg)" "disk_size l0 mod ucast (physical_block_size cfg) = 0"
    "cfg_read_only cfg \<or> ops_write ops \<noteq> None \<and> \<not> dev_read_only l0"
    "\<not> cfg_sync_after_write cfg \<or> ops_sync ops \<noteq> None"
    "bdl_buffer_blocks cfg \<le> SIZE_MAX div physical_block_size cfg"
proof -
  obtain l0 cfg where lc: "l = Some l0" "config = Some cfg" "dev_ops l0 \<noteq> None"
    using assms by (auto simp: bdl_validate_create_args_def split: if_splits)
  then obtain ops where ops: "dev_ops l0 = Some ops" by auto
  show thesis
    by (rule that [OF lc(1,2) ops])
      (use assms in \<open>auto simp: bdl_validate_create_args_def Let_def lc ops not_less split: if_splits\<close>)
qed

lemma bdl_create_ok:
  assumes "lwext4_port_bdl_create P l config out w = (ESP_OK, adapter, w')" "alloc_sized P"
  shows "\<exists>a. adapter = Some a \<and> bdl_ok a \<and> lower a = l \<and> world a = w' \<and> ph_refctr a = 0
    \<and> last_lower_error a = ESP_OK \<and> bdl_read_only a = cfg_read_only (the config)"
proof -
  have v: "bdl_validate_create_args P l config out = ESP_OK"
    using assms(1) by (auto simp: lwext4_port_bdl_create_def Let_def split: if_splits)
  then obtain l0 cfg ops where l: "l = Some l0" "config = Some cfg" "dev_ops l0 = Some ops" "ops_read ops \<noteq> None"
    and pbs: "is_power_of_two (physical_block_size cfg)" "disk_size l0 mod ucast (physical_block_size cfg) = 0"
    and wr: "cfg_read_only cfg \<or> ops_write ops \<noteq> None \<and> \<not> dev_read_only l0"
    and sy: "\<not> cfg_sync_after_write cfg \<or> ops_sync ops \<noteq> None"
    and sz: "bdl_buffer_blocks cfg \<le> SIZE_MAX div physical_block_size cfg"
    by (rule bdl_validate_create_okD)
  note size = div_bound_mult [OF sz]
  have mult: "unat (bdl_buffer_blocks cfg * physical_block_size cfg)
      = unat (bdl_buffer_blocks cfg) * unat (physical_block_size cfg)"
    using size unat_mult_lem [of "bdl_buffer_blocks cfg" "physical_block_size cfg"] by simp
  have nz: "bdl_buffer_blocks cfg \<noteq> 0" by (simp add: bdl_buffer_blocks_def)
  have bcnt: "unat (disk_size l0 div ucast (physical_block_size cfg)) * unat (physical_block_size cfg)
      = unat (disk_size l0)"
    using pbs(2) by (simp add: unat_div word_unat_eq_iff unat_mod) (metis dvd_div_mult_self mod_0_imp_dvd)
  obtain tb a where ad: "adapter = Some a" "length tb = unat (bdl_buffer_blocks cfg * physical_block_size cfg)"
    "a = \<lparr>lower = Some l0, lock = True, transfer_buffer = tb,
       transfer_buffer_size = bdl_buffer_blocks cfg * physical_block_size cfg,
       transfer_buffer_blocks = bdl_buffer_blocks cfg, last_lower_error = ESP_OK,
       bdl_read_only = cfg_read_only cfg, sync_after_write = cfg_sync_after_write cfg,
       ph_bsize = physical_block_size cfg,
       ph_bcnt = disk_size l0 div ucast (physical_block_size cfg), ph_refctr = 0,
       part_offset = 0, part_size = disk_size l0, world = w'\<rparr>"
    using assms v l(1,2)
    by (auto simp: lwext4_port_bdl_create_def Let_def alloc_sized_def split: if_splits prod.splits)
      (metis fst_conv)
  have "bdl_ok a"
    using l pbs(1) wr sy nz size mult bcnt ad(2)
    by (auto simp: ad(3) bdl_ok_def valid_lower_handle_def)
  then show ?thesis using ad l(1,2) by simp
qed

text \<open>Creation allocates the adapter, its buffer and its mutex, or leaves nothing behind;
  destruction gives the three back, or keeps the adapter.\<close>

lemma bdl_create_balance:
  assumes "counts live P"
  shows "live (snd (snd (lwext4_port_bdl_create P l config out w)))
    = live w + (if fst (snd (lwext4_port_bdl_create P l config out w)) = None then 0 else 3)"
  using assms
  by (auto simp: lwext4_port_bdl_create_def counts_def Let_def split_beta)

lemma bdl_destroy_balance:
  assumes "counts live P" "bdl_dev contents B a" "\<And>w f. ops_sync (lower_ops a) = Some f \<Longrightarrow> live (snd (f w)) = live w"
  shows "case lwext4_port_bdl_destroy P (Some a) of
      (r, Inr w) \<Rightarrow> r = ESP_OK \<and> ph_refctr a = 0 \<and> live w = live (world a) - 3
    | (r, Inl ad) \<Rightarrow> r \<noteq> ESP_OK \<and> (\<exists>a'. ad = Some a' \<and> bdl_frame a a' \<and> live (world a') = live (world a))"
proof -
  have lk: "lock a" using bdl_devD(1) [OF assms(2)] by (simp add: bdl_ok_def)
  have sync: "live (world (snd (sync_lower (a\<lparr>world := w\<rparr>)))) = live w
      \<and> bdl_frame a (snd (sync_lower (a\<lparr>world := w\<rparr>)))" for w
    using assms(3)
    by (auto simp: sync_lower_def bdl_frame_def split: option.split prod.split) (metis snd_conv)
  show ?thesis
    using assms(1) lk sync [of "snd (xSemaphoreTakeRecursive P (world a))"]
    by (auto simp: lwext4_port_bdl_destroy_def counts_def Let_def split_beta bdl_frame_world split: sum.splits)
qed

section \<open>Formatting\<close>

lemma bdl_dev_world:
  "bdl_dev contents B a \<Longrightarrow> contents w = contents (world a) \<Longrightarrow> bdl_dev contents B (a\<lparr>world := w\<rparr>)"
  by (rule bdl_dev_frame) (simp_all add: bdl_frame_def)

lemma bdl_sync_spec:
  assumes "bdl_dev contents B a" "platform_keeps contents P"
    "lwext4_port_bdl_sync P (Some a) = (e, ad)"
  shows "\<exists>a'. ad = Some a' \<and> bdl_frame a a' \<and> contents (world a') = contents (world a)
    \<and> bdl_dev contents B a'"
proof -
  obtain t w where tk: "xSemaphoreTakeRecursive P (world a) = (t, w)" by fastforce
  have cw: "contents w = contents (world a)"
    using assms(2) tk by (metis platform_keeps_def snd_conv)
  note dw = bdl_dev_world [OF assms(1) cw]
  obtain e' a1 where sy: "sync_lower (a\<lparr>world := w\<rparr>) = (e', a1)" by fastforce
  note s = sync_lower_spec [OF dw sy]
  have fr: "bdl_frame a (a\<lparr>world := w\<rparr>)" by (simp add: bdl_frame_def)
  let ?a' = "if t then a1\<lparr>world := snd (xSemaphoreGiveRecursive P (world a1))\<rparr> else a\<lparr>world := w\<rparr>"
  have "ad = Some ?a'"
    using assms(1,3) tk sy bdl_devD(1) [OF assms(1)]
    by (simp add: lwext4_port_bdl_sync_def bdl_ok_def split: if_splits)
  moreover have "bdl_frame a ?a'" using fr s bdl_frame_trans [OF fr] by (simp add: bdl_frame_world)
  moreover have "contents (world ?a') = contents (world a)"
    using s cw assms(2) by (simp add: platform_keeps_def)
  ultimately show ?thesis using bdl_dev_frame [OF assms(1), of ?a'] by auto
qed

lemma on_world_spec:
  assumes "bdl_state_ok contents B s" "\<And>w. contents (snd (f w)) = contents w"
  shows "bdl_state_ok contents B (snd (on_world f r s)) \<and> bdl_disk contents (snd (on_world f r s)) = bdl_disk contents s
    \<and> bdl_tbuf (snd (on_world f r s)) = bdl_tbuf s"
proof -
  obtain a where a: "s = P_user (Some a)" "bdl_dev contents B a" by (rule bdl_state_okE [OF assms(1)])
  have "contents (snd (f (world a))) = contents (world a)" by (rule assms(2))
  with bdl_dev_world [OF a(2) this] show ?thesis
    by (simp add: a(1) bdl_state_ok_def bdl_disk_def bdl_tbuf_def split_beta)
qed

lemma bdl_lock_on_world:
  assumes "bdl_state_ok contents B s"
  shows "snd (bdl_lock P s) = snd (on_world (xSemaphoreTakeRecursive P) False s)"
    "snd (bdl_unlock P s) = snd (on_world (xSemaphoreGiveRecursive P) False s)"
proof -
  obtain a where a: "s = P_user (Some a)" "bdl_dev contents B a" by (rule bdl_state_okE [OF assms])
  have "lock a" using bdl_devD(1) [OF a(2)] by (simp add: bdl_ok_def)
  then show "snd (bdl_lock P s) = snd (on_world (xSemaphoreTakeRecursive P) False s)"
    "snd (bdl_unlock P s) = snd (on_world (xSemaphoreGiveRecursive P) False s)"
    by (simp_all add: a(1) bdl_lock_def bdl_unlock_def split_beta)
qed

interpretation bdl_fmt: format_device "bdl_iface P a0"
  "\<lambda>s. bdl_state_ok contents (unat (ph_bsize a0)) s \<and> platform_keeps contents P" "bdl_disk contents" bdl_tbuf
  "unat (ph_bsize a0)" for contents :: "'w \<Rightarrow> bytes" and P a0
proof (unfold_locales, goal_cases)
  case (1 s buf n b)
  then show ?case using bdl.read_law [of contents _ s buf n b] by (auto simp: bdl_iface_def)
next
  case (2 s buf n b)
  then show ?case using bdl.write_law [of contents _ s buf n b] by (auto simp: bdl_iface_def)
next
  case (3 s r s')
  then have "s' = snd (bdl_lock P s)" by (simp add: bdl_iface_def call_opt_def)
  then show ?case
    using 3 on_world_spec [of contents _ s "xSemaphoreTakeRecursive P" False] bdl_lock_on_world(1) [of contents]
    by (auto simp: platform_keeps_def)
next
  case (4 s r s')
  then have "s' = snd (bdl_unlock P s)" by (simp add: bdl_iface_def call_opt_def)
  then show ?case
    using 4 on_world_spec [of contents _ s "xSemaphoreGiveRecursive P" False] bdl_lock_on_world(2) [of contents]
    by (auto simp: platform_keeps_def)
next
  case (5 s r s')
  then show ?case by (simp add: bdl_iface_def)
next
  case (6 s r s')
  then obtain a where a: "s = P_user (Some a)" "bdl_dev contents (unat (ph_bsize a0)) a"
    by (auto elim: bdl_state_okE)
  obtain e a' where sy: "sync_lower a = (e, a')" by fastforce
  from sync_lower_spec [OF a(2) sy] have y: "bdl_frame a a'" "contents (world a') = contents (world a)" by simp_all
  with bdl_dev_frame [OF a(2)] have "bdl_dev contents (unat (ph_bsize a0)) a'" by simp
  then show ?case
    using 6 a bdl_devD(5) [OF a(2)] sy y
    by (auto simp: bdl_iface_def bdl_close_def bdl_state_ok_def bdl_disk_def)
next
  case (7 s)
  then obtain a where a: "s = P_user (Some a)" "bdl_dev contents (unat (ph_bsize a0)) a"
    by (auto elim: bdl_state_okE)
  have "1 \<le> unat (transfer_buffer_blocks a)" using bdl_devD(8) [OF a(2)] by (simp add: unat_gt_0 Suc_le_eq)
  from mult_le_mono1 [OF this, of "unat (ph_bsize a0)"] show ?case
    using bdl_devD(6) [OF a(2)] by (simp add: a(1) bdl_tbuf_def)
next
  case 8
  then show ?case by (simp add: bdl_iface_def)
qed

definition bdl_format_run ::
  "port_config \<Rightarrow> 'w platform
     \<Rightarrow> (mkfs_info \<Rightarrow> u32 \<Rightarrow> ('w lwext4_port_bdl bdev_ref, 'c) format_wrapper
           \<Rightarrow> (errno \<times> ('w lwext4_port_bdl bdev_ref, 'c) format_wrapper) option)
     \<Rightarrow> 'w lwext4_port_bdl \<Rightarrow> 'c format_config \<Rightarrow> 'c
     \<Rightarrow> (esp_err \<times> 'w lwext4_port_bdl bdev_ref \<times> 'c) option" where
  "bdl_format_run K P mkfs a cfg c =
     lwext4_port_format_blockdev K (on_world (calloc_ok P) False)
       (\<lambda>s. snd (on_world (\<lambda>w. ((), heap_free P w)) () s)) mkfs (Some (bdl_iface P a)) (Some cfg) c
       (P_user (Some a))"

text \<open>What a successful ext4_mkfs run is: \<open>d\<close> is the disk before it, \<open>d'\<close> after it.\<close>

definition mkfs_ran where
  "mkfs_ran K mkfs contents psize cfg d d' \<longleftrightarrow>
     (\<exists>info w0 w. format_checks K (format_info psize cfg) = Inr info
        \<and> bdl_disk contents (inner_state w0) = d
        \<and> mkfs info (format_feature_set K (fc_feature_set cfg)) w0 = Some (EOK, w)
        \<and> bdl_disk contents (inner_state w) = d')"

lemma bdl_format_run_spec:
  assumes dev: "bdl_dev contents B a" and P: "platform_keeps contents P"
    and mkfs: "uses_device mkfs"
    and run: "bdl_format_run K P mkfs a cfg c = Some (e, bdev, c')"
  shows "\<exists>a'. bdev = P_user (Some a') \<and> bdl_dev contents B a'
    \<and> (e = ESP_OK \<longrightarrow> mkfs_ran K mkfs contents (part_size a) cfg (contents (world a)) (contents (world a')))"
proof -
  have B: "unat (ph_bsize a) = B" using bdl_devD(3) [OF dev] .
  let ?ok = "\<lambda>s. bdl_state_ok contents (unat (ph_bsize a)) s \<and> platform_keeps contents P"
  have init: "?ok (P_user (Some a))" using dev P by (simp add: bdl_state_ok_def B)
  have k1: "\<forall>s. ?ok s \<longrightarrow> ?ok (snd (on_world (calloc_ok P) False s))
      \<and> bdl_disk contents (snd (on_world (calloc_ok P) False s)) = bdl_disk contents s"
    using on_world_spec [of contents "unat (ph_bsize a)" _ "calloc_ok P" False] by (simp add: platform_keeps_def)
  have k2: "\<forall>s. ?ok s \<longrightarrow> ?ok (snd (on_world (\<lambda>w. ((), heap_free P w)) () s))
      \<and> bdl_disk contents (snd (on_world (\<lambda>w. ((), heap_free P w)) () s)) = bdl_disk contents s"
    using on_world_spec [of contents "unat (ph_bsize a)" _ "\<lambda>w. ((), heap_free P w)" "()"]
    by (simp add: platform_keeps_def)
  note s = bdl_fmt.format_spec [OF init k1 k2 mkfs run [unfolded bdl_format_run_def]]
  then obtain a' where a': "bdev = P_user (Some a')" "bdl_dev contents B a'"
    unfolding B by (blast elim: bdl_state_okE)
  have "mkfs_ran K mkfs contents (part_size a) cfg (contents (world a)) (contents (world a'))" if e: "e = ESP_OK"
  proof -
    from s e obtain info s2 w where
      "format_checks K (format_info (bd_part_size (bdl_iface P a)) cfg) = Inr info"
      "bdl_disk contents s2 = bdl_disk contents (P_user (Some a))"
      "mkfs info (format_feature_set K (fc_feature_set cfg))
        (format_wrapper_init (bdl_iface P a) s2 (fc_progress cfg) c) = Some (EOK, w)"
      "bdl_disk contents bdev = bdl_disk contents (inner_state w)"
      by blast
    then show ?thesis
      unfolding mkfs_ran_def
      by (intro exI [of _ info] exI [of _ "format_wrapper_init (bdl_iface P a) s2 (fc_progress cfg) c"] exI [of _ w])
        (simp add: bdl_iface_def bdl_disk_def format_wrapper_init_def a'(1))
  qed
  then show ?thesis using a' by blast
qed

text \<open>
  Formatting on a device in order: it keeps the invariant, writes nothing unless every check
  passed, and success means that ext4_mkfs succeeded on the wrapper and the device was synced.
\<close>

lemma bdl_format_spec:
  assumes dev: "bdl_dev contents B a" and P: "platform_keeps contents P"
    and mkfs: "uses_device mkfs"
    and run: "lwext4_port_bdl_format K P mkfs (Some a) (Some cfg) c = Some (e, ad, c')"
  shows "\<exists>a'. ad = Some a' \<and> bdl_dev contents B a'
    \<and> (bdl_validate_format_args K (Some a) (Some cfg) \<noteq> ESP_OK \<longrightarrow>
         a' = a \<and> e = bdl_validate_format_args K (Some a) (Some cfg))
    \<and> (e = ESP_OK \<longrightarrow> mkfs_ran K mkfs contents (part_size a) cfg (contents (world a)) (contents (world a')))"
proof (cases "bdl_validate_format_args K (Some a) (Some cfg) = ESP_OK")
  case False
  then show ?thesis using run dev by (auto simp: lwext4_port_bdl_format_def)
next
  case valid: True
  obtain e1 ad1 where s1: "lwext4_port_bdl_sync P (Some a) = (e1, ad1)" by fastforce
  from bdl_sync_spec [OF dev P s1] obtain a1 where a1: "ad1 = Some a1" "bdl_frame a a1"
    "contents (world a1) = contents (world a)" "bdl_dev contents B a1" by blast
  have run': "(if e1 \<noteq> ESP_OK then Some (e1, Some a1, c)
      else case bdl_format_run K P mkfs a1 cfg c of None \<Rightarrow> None
        | Some (e2, bdev, c2) \<Rightarrow>
            if e2 \<noteq> ESP_OK then Some (e2, adapter_from_bdev bdev, c2)
            else (case lwext4_port_bdl_sync P (adapter_from_bdev bdev) of (e3, ad3) \<Rightarrow> Some (e3, ad3, c2)))
      = Some (e, ad, c')"
    using run by (simp add: lwext4_port_bdl_format_def bdl_format_run_def lwext4_port_bdl_get_def valid s1 a1(1)
        cong: if_cong)
  show ?thesis
  proof (cases "e1 = ESP_OK")
    case False
    then show ?thesis using run' valid a1 by auto
  next
    case True
    then obtain e2 bdev c2 where f: "bdl_format_run K P mkfs a1 cfg c = Some (e2, bdev, c2)"
      using run' by (auto split: option.splits)
    from bdl_format_run_spec [OF a1(4) P mkfs f] obtain a2 where a2: "bdev = P_user (Some a2)" "bdl_dev contents B a2"
      "e2 = ESP_OK \<Longrightarrow> mkfs_ran K mkfs contents (part_size a1) cfg (contents (world a1)) (contents (world a2))"
      by blast
    obtain e3 ad3 where s3: "lwext4_port_bdl_sync P (Some a2) = (e3, ad3)" by fastforce
    from bdl_sync_spec [OF a2(2) P s3] obtain a3 where a3: "ad3 = Some a3" "contents (world a3) = contents (world a2)"
      "bdl_dev contents B a3" by blast
    have "(e, ad) = (if e2 \<noteq> ESP_OK then (e2, Some a2) else (e3, Some a3))"
      using run' True f a2(1) s3 a3(1) by (simp split: if_splits)
    then show ?thesis
      using valid a2 a3 a1(3) bdl_frame_fields(11) [OF a1(2)] by (auto split: if_splits)
  qed
qed

section \<open>Termination\<close>

lemma bdl_ok_bounds:
  assumes "bdl_ok a"
  shows "transfer_buffer_blocks a \<noteq> 0" "unat (transfer_buffer_blocks a) * unat (ph_bsize a) < 2 ^ 32"
    "valid_lower_handle (Some a)" "ops_read (lower_ops a) \<noteq> None"
  using assms by (simp_all add: bdl_ok_def)

lemma bdl_read_returns:
  assumes "bdl_ok a"
  shows "\<exists>x. bdl_read buf b n (P_user (Some a)) = Some x"
proof -
  note ok = bdl_ok_bounds [OF assms]
  have "\<exists>r st. bdl_read_loop n p 0 (fst (buf, a)) (snd (buf, a)) = Some (r, st)" for p
    by (rule bdl_rd_loop.run_returns) (use ok in simp_all)
  then obtain r st where l: "bdl_read_loop n p 0 buf a = Some (r p, st p)" for p
    unfolding fst_conv snd_conv by metis
  show ?thesis by (simp add: bdl_read_def Let_def l split: sum.split prod.split)
qed

lemma bdl_write_returns:
  assumes "bdl_ok a"
  shows "\<exists>x. bdl_write buf b n (P_user (Some a)) = Some x"
proof -
  note ok = bdl_ok_bounds [OF assms]
  have "\<exists>r t. bdl_write_loop buf n p 0 a = Some (r, t)" for p
    by (rule bdl_wr_loop.run_returns) (use ok in simp_all)
  then obtain r t where l: "bdl_write_loop buf n p 0 a = Some (r p, t p)" for p by metis
  show ?thesis by (simp add: bdl_write_def Let_def l split: sum.split prod.split)
qed

text \<open>With a lower device that never reports an error, a read in range succeeds.\<close>

lemma bdl_read_succeeds:
  assumes "bdl_ok a" "buf \<noteq> Null_buffer" "buf = Transfer_buffer \<Longrightarrow> n \<le> transfer_buffer_blocks a"
    and range: "unat b + unat n \<le> unat (ph_bcnt a)" "n \<le> SIZE_MAX div ph_bsize a"
    and rd: "\<And>rd tb p m w. ops_read (lower_ops a) = Some rd \<Longrightarrow> fst (rd tb p m w) = ESP_OK"
  shows "\<exists>buf' bdev'. bdl_read buf b n (P_user (Some a)) = Some (EOK, buf', bdev')"
proof -
  note ok = bdl_ok_bounds [OF assms(1)]
  obtain f where f: "ops_read (lower_ops a) = Some f" using ok(4) by auto
  show ?thesis
  proof (cases "n = 0")
    case True
    then show ?thesis
      using assms(2) by (auto simp: bdl_read_def bdl_validate_io_range_def ok f Let_def)
  next
    case False
    then have n0: "0 < unat n" by (simp add: unat_gt_0)
    then have v: "bdl_validate_io_range a b n = Inr (b * ucast (ph_bsize a))"
      using range False unat_sub [of b "ph_bcnt a"]
      by (auto simp: bdl_validate_io_range_def Let_def word_le_nat_alt word_less_nat_alt not_le not_less)
    have step: "r = EOK \<and> lower (snd t') = lower a"
      if "lower (snd t) = lower a"
        "bdl_read_chunk p (c * ph_bsize (snd t)) off (fst t) (snd t) = (r, t')" for c p off t r t'
    proof -
      obtain e tb w where x: "f (transfer_buffer (snd t)) p (c * ph_bsize (snd t)) (world (snd t)) = (e, tb, w)"
        by (metis prod_cases3)
      have "e = ESP_OK" using rd [OF f, of "transfer_buffer (snd t)" p "c * ph_bsize (snd t)" "world (snd t)"]
        by (simp add: x)
      then show ?thesis
        using that(2) by (auto simp: bdl_read_chunk_def save_lower_result_def that(1) f x split: prod.splits)
    qed
    have "\<exists>st. bdl_read_loop n (b * ucast (ph_bsize a)) 0 (fst (buf, a)) (snd (buf, a)) = Some (EOK, st)"
    proof (rule bdl_rd_loop.run_succeeds [where J = "\<lambda>t. lower (snd t) = lower a"]; (unfold snd_conv)?)
      show "transfer_buffer_blocks a \<noteq> 0" "unat (transfer_buffer_blocks a) * unat (ph_bsize a) < 2 ^ 32"
        by (fact ok(1), fact ok(2))
    qed (rule refl, rule step)
    then obtain buf' a' where "bdl_read_loop n (b * ucast (ph_bsize a)) 0 buf a = Some (EOK, buf', a')" by auto
    then show ?thesis
      using v False assms(2,3) by (auto simp: bdl_read_def ok f Let_def)
  qed
qed

end
