(* ===== verification/Port_Sdmmc.thy ===== *)
theory Port_Sdmmc
  imports Port_Transfer Port_Format
begin

text \<open>
  port/lwext4_port_sdmmc.c: lwext4's block-device interface directly on an SD card.  A block
  is a sector, and a sector number must fit the driver's size_t.
\<close>

section \<open>The card and the driver\<close>

text \<open>The two \<open>int\<close> fields of the card's CSD register that the adapter reads.\<close>

record sdmmc_card =
  sector_size :: "32 word"
  capacity :: "32 word"

text \<open>
  The driver: \<open>sdmmc_read_sectors\<close> gets the transfer buffer, the first sector and the number
  of sectors, and returns the buffer's new contents.
\<close>

record 'w sdmmc_driver =
  sdmmc_read_sectors :: "bytes \<Rightarrow> u32 \<Rightarrow> u32 \<Rightarrow> 'w \<Rightarrow> esp_err \<times> bytes \<times> 'w"
  sdmmc_write_sectors :: "bytes \<Rightarrow> u32 \<Rightarrow> u32 \<Rightarrow> 'w \<Rightarrow> esp_err \<times> 'w"

text \<open>A conversion of an \<open>int\<close> to \<open>uint64_t\<close>.\<close>

definition int_to_u64 :: "32 word \<Rightarrow> u64" where
  "int_to_u64 x = word_of_int (sint x)"

section \<open>The adapter\<close>

record 'w lwext4_port_sdmmc =
  sd_card :: "sdmmc_card option"
  sd_lock :: bool
  sd_transfer_buffer :: bytes
  sd_transfer_buffer_size :: u32
  sd_transfer_buffer_blocks :: u32
  sd_ph_bsize :: u32
  sd_ph_bcnt :: u64
  sd_ph_refctr :: u32
  sd_part_offset :: u64
  sd_part_size :: u64
  sd_world :: 'w

abbreviation card_of :: "'w lwext4_port_sdmmc \<Rightarrow> sdmmc_card" where
  "card_of a \<equiv> the (sd_card a)"

definition valid_card :: "'w lwext4_port_sdmmc option \<Rightarrow> bool" where
  "valid_card adapter =
     (case adapter of None \<Rightarrow> False
      | Some a \<Rightarrow> (case sd_card a of None \<Rightarrow> False
          | Some c \<Rightarrow> sint (sector_size c) > 0 \<and> sint (capacity c) > 0))"

definition device_size :: "sdmmc_card \<Rightarrow> u64" where
  "device_size c = int_to_u64 (capacity c) * int_to_u64 (sector_size c)"

definition sdmmc_open :: "'w lwext4_port_sdmmc bdev_ref \<Rightarrow> errno" where
  "sdmmc_open bdev = (if valid_card (adapter_from_bdev bdev) then EOK else EIO)"

definition sdmmc_close :: "'w lwext4_port_sdmmc bdev_ref \<Rightarrow> errno" where
  "sdmmc_close bdev = (if valid_card (adapter_from_bdev bdev) then EOK else EIO)"

definition sdmmc_validate_io_range :: "'w lwext4_port_sdmmc \<Rightarrow> u64 \<Rightarrow> u32 \<Rightarrow> errno + u64" where
  "sdmmc_validate_io_range a block_id block_count =
     (let total_sectors = int_to_u64 (capacity (card_of a)) in
      if block_count = 0 then Inr 0
      else if block_id \<ge> total_sectors \<or> ucast block_count > total_sectors - block_id then Inl EINVAL
      else if block_count > SIZE_MAX div sd_ph_bsize a then Inl EOVERFLOW
      else if block_id > ucast SIZE_MAX \<or> block_count > SIZE_MAX - ucast block_id then Inl EOVERFLOW
      else Inr block_id)"

section \<open>Reading\<close>

definition sdmmc_read_chunk ::
  "'w sdmmc_driver \<Rightarrow> u64 \<Rightarrow> u32 \<Rightarrow> nat \<Rightarrow> io_buffer \<Rightarrow> 'w lwext4_port_sdmmc
     \<Rightarrow> errno \<times> io_buffer \<times> 'w lwext4_port_sdmmc" where
  "sdmmc_read_chunk drv sector chunk_blocks off buffer a =
     (let chunk_size = chunk_blocks * sd_ph_bsize a in
      case sdmmc_read_sectors drv (sd_transfer_buffer a) (ucast sector) chunk_blocks (sd_world a) of
        (error, tb, w) \<Rightarrow>
        let a1 = a\<lparr>sd_transfer_buffer := tb, sd_world := w\<rparr> in
        if error \<noteq> ESP_OK then (esp_error_to_lwext4 error, buffer, a1)
        else
          case copy_out buffer off (unat chunk_size) tb of (buffer', tb') \<Rightarrow>
          (EOK, buffer', a1\<lparr>sd_transfer_buffer := tb'\<rparr>))"

partial_function (option) sdmmc_read_loop ::
  "'w sdmmc_driver \<Rightarrow> u32 \<Rightarrow> u64 \<Rightarrow> nat \<Rightarrow> io_buffer \<Rightarrow> 'w lwext4_port_sdmmc
     \<Rightarrow> (errno \<times> io_buffer \<times> 'w lwext4_port_sdmmc) option" where
  "sdmmc_read_loop drv blocks_remaining sector off buffer a =
     (if blocks_remaining \<noteq> 0 then
        (let chunk_blocks = (if blocks_remaining > sd_transfer_buffer_blocks a
                             then sd_transfer_buffer_blocks a else blocks_remaining);
             chunk_size = chunk_blocks * sd_ph_bsize a in
         case sdmmc_read_chunk drv sector chunk_blocks off buffer a of (r, buffer', a') \<Rightarrow>
         if r \<noteq> EOK then Some (r, buffer', a')
         else sdmmc_read_loop drv (blocks_remaining - chunk_blocks) (sector + ucast chunk_blocks)
                (off + unat chunk_size) buffer' a')
      else Some (EOK, buffer, a))"

definition sdmmc_read ::
  "'w sdmmc_driver \<Rightarrow> io_buffer \<Rightarrow> u64 \<Rightarrow> u32 \<Rightarrow> 'w lwext4_port_sdmmc bdev_ref
     \<Rightarrow> (errno \<times> io_buffer \<times> 'w lwext4_port_sdmmc bdev_ref) option" where
  "sdmmc_read drv buffer block_id block_count bdev =
     (let adapter = adapter_from_bdev bdev; a = the adapter in
      if \<not> valid_card adapter \<or> buffer = Null_buffer then Some (EINVAL, buffer, bdev)
      else
        case sdmmc_validate_io_range a block_id block_count of
          Inl r \<Rightarrow> Some (r, buffer, bdev)
        | Inr sector \<Rightarrow>
            if block_count = 0 then Some (EOK, buffer, bdev)
            else if buffer = Transfer_buffer \<and> block_count > sd_transfer_buffer_blocks a
            then Some (EINVAL, buffer, bdev)
            else
              (case sdmmc_read_loop drv block_count sector 0 buffer a of
                 None \<Rightarrow> None
               | Some (r, buffer', a') \<Rightarrow> Some (r, buffer', P_user (Some a'))))"

section \<open>Writing\<close>

definition sdmmc_write_chunk ::
  "'w sdmmc_driver \<Rightarrow> io_buffer \<Rightarrow> u64 \<Rightarrow> u32 \<Rightarrow> nat \<Rightarrow> 'w lwext4_port_sdmmc
     \<Rightarrow> errno \<times> 'w lwext4_port_sdmmc" where
  "sdmmc_write_chunk drv buffer sector chunk_blocks off a =
     (let chunk_size = chunk_blocks * sd_ph_bsize a;
          tb = copy_in buffer off (unat chunk_size) (sd_transfer_buffer a) in
      case sdmmc_write_sectors drv tb (ucast sector) chunk_blocks (sd_world a) of (error, w) \<Rightarrow>
      let a1 = a\<lparr>sd_transfer_buffer := tb, sd_world := w\<rparr> in
      if error \<noteq> ESP_OK then (esp_error_to_lwext4 error, a1) else (EOK, a1))"

partial_function (option) sdmmc_write_loop ::
  "'w sdmmc_driver \<Rightarrow> io_buffer \<Rightarrow> u32 \<Rightarrow> u64 \<Rightarrow> nat \<Rightarrow> 'w lwext4_port_sdmmc
     \<Rightarrow> (errno \<times> 'w lwext4_port_sdmmc) option" where
  "sdmmc_write_loop drv buffer blocks_remaining sector off a =
     (if blocks_remaining \<noteq> 0 then
        (let chunk_blocks = (if blocks_remaining > sd_transfer_buffer_blocks a
                             then sd_transfer_buffer_blocks a else blocks_remaining);
             chunk_size = chunk_blocks * sd_ph_bsize a in
         case sdmmc_write_chunk drv buffer sector chunk_blocks off a of (r, a') \<Rightarrow>
         if r \<noteq> EOK then Some (r, a')
         else sdmmc_write_loop drv buffer (blocks_remaining - chunk_blocks) (sector + ucast chunk_blocks)
                (off + unat chunk_size) a')
      else Some (EOK, a))"

definition sdmmc_write ::
  "'w sdmmc_driver \<Rightarrow> io_buffer \<Rightarrow> u64 \<Rightarrow> u32 \<Rightarrow> 'w lwext4_port_sdmmc bdev_ref
     \<Rightarrow> (errno \<times> 'w lwext4_port_sdmmc bdev_ref) option" where
  "sdmmc_write drv buffer block_id block_count bdev =
     (let adapter = adapter_from_bdev bdev; a = the adapter in
      if \<not> valid_card adapter \<or> buffer = Null_buffer then Some (EINVAL, bdev)
      else
        case sdmmc_validate_io_range a block_id block_count of
          Inl r \<Rightarrow> Some (r, bdev)
        | Inr sector \<Rightarrow>
            if block_count = 0 then Some (EOK, bdev)
            else if buffer = Transfer_buffer \<and> block_count > sd_transfer_buffer_blocks a
            then Some (EINVAL, bdev)
            else
              (case sdmmc_write_loop drv buffer block_count sector 0 a of
                 None \<Rightarrow> None
               | Some (r, a') \<Rightarrow> Some (r, P_user (Some a'))))"

section \<open>Lock and unlock\<close>

definition sdmmc_lock ::
  "'w platform \<Rightarrow> 'w lwext4_port_sdmmc bdev_ref \<Rightarrow> errno \<times> 'w lwext4_port_sdmmc bdev_ref" where
  "sdmmc_lock P bdev =
     (case adapter_from_bdev bdev of None \<Rightarrow> (EIO, bdev)
      | Some a \<Rightarrow>
          if \<not> sd_lock a then (EIO, bdev)
          else case xSemaphoreTakeRecursive P (sd_world a) of (taken, w) \<Rightarrow>
            (if taken then EOK else EIO, P_user (Some (a\<lparr>sd_world := w\<rparr>))))"

definition sdmmc_unlock ::
  "'w platform \<Rightarrow> 'w lwext4_port_sdmmc bdev_ref \<Rightarrow> errno \<times> 'w lwext4_port_sdmmc bdev_ref" where
  "sdmmc_unlock P bdev =
     (case adapter_from_bdev bdev of None \<Rightarrow> (EIO, bdev)
      | Some a \<Rightarrow>
          if \<not> sd_lock a then (EIO, bdev)
          else case xSemaphoreGiveRecursive P (sd_world a) of (given, w) \<Rightarrow>
            (if given then EOK else EIO, P_user (Some (a\<lparr>sd_world := w\<rparr>))))"

section \<open>Creation\<close>

record sdmmc_config =
  sd_physical_block_size :: u32
  sd_buffer_caps :: u32
  sd_buffer_alignment :: u32
  sd_cfg_transfer_buffer_blocks :: u32

definition sdmmc_buffer_blocks :: "sdmmc_config \<Rightarrow> u32" where
  "sdmmc_buffer_blocks cfg =
     (if sd_cfg_transfer_buffer_blocks cfg = 0 then 1 else sd_cfg_transfer_buffer_blocks cfg)"

definition sdmmc_validate_create_args ::
  "'w platform \<Rightarrow> sdmmc_card option \<Rightarrow> sdmmc_config option \<Rightarrow> bool \<Rightarrow> esp_err" where
  "sdmmc_validate_create_args P card_arg config out_given =
     (if \<not> out_given then ESP_ERR_INVALID_ARG
      else if card_arg = None \<or> config = None then ESP_ERR_INVALID_ARG
      else
        let c = the card_arg; cfg = the config; pbs = sd_physical_block_size cfg in
        if sector_size c = 0 \<or> sint (capacity c) \<le> 0 then ESP_ERR_INVALID_SIZE
        else if pbs \<noteq> sector_size c then ESP_ERR_INVALID_SIZE
        else if \<not> is_power_of_two pbs \<or> sd_buffer_caps cfg = 0
          \<or> sd_buffer_caps cfg AND malloc_cap_8bit P = 0
          \<or> \<not> is_power_of_two (sd_buffer_alignment cfg) \<or> pbs mod sd_buffer_alignment cfg \<noteq> 0
        then ESP_ERR_INVALID_ARG
        else if sdmmc_buffer_blocks cfg > SIZE_MAX div pbs then ESP_ERR_INVALID_SIZE
        else ESP_OK)"

definition lwext4_port_sdmmc_create ::
  "'w platform \<Rightarrow> sdmmc_card option \<Rightarrow> sdmmc_config option \<Rightarrow> bool \<Rightarrow> 'w
     \<Rightarrow> esp_err \<times> 'w lwext4_port_sdmmc option \<times> 'w" where
  "lwext4_port_sdmmc_create P card_arg config out_given w =
     (let error = sdmmc_validate_create_args P card_arg config out_given; c = the card_arg; cfg = the config in
      if error \<noteq> ESP_OK then (error, None, w)
      else
        case calloc_ok P w of (allocated, w1) \<Rightarrow>
        if \<not> allocated then (ESP_ERR_NO_MEM, None, w1)
        else
          let blocks = sdmmc_buffer_blocks cfg; size = blocks * sd_physical_block_size cfg in
          case heap_caps_aligned_alloc P (sd_buffer_alignment cfg) size (sd_buffer_caps cfg) w1 of (tb, w2) \<Rightarrow>
          case xSemaphoreCreateRecursiveMutex P w2 of (locked, w3) \<Rightarrow>
          if tb = None \<or> \<not> locked then
            (let w4 = (if locked then vSemaphoreDelete P w3 else w3)
             in (ESP_ERR_NO_MEM, None, heap_free P (heap_caps_free P tb w4)))
          else
            (ESP_OK,
             Some \<lparr>sd_card = Some c, sd_lock = True, sd_transfer_buffer = the tb,
               sd_transfer_buffer_size = size, sd_transfer_buffer_blocks = blocks,
               sd_ph_bsize = sd_physical_block_size cfg, sd_ph_bcnt = int_to_u64 (capacity c),
               sd_ph_refctr = 0, sd_part_offset = 0, sd_part_size = device_size c, sd_world = w3\<rparr>,
             w3))"

section \<open>Get, sync, destroy\<close>

definition lwext4_port_sdmmc_get :: "'w lwext4_port_sdmmc option \<Rightarrow> 'w lwext4_port_sdmmc bdev_ref" where
  "lwext4_port_sdmmc_get adapter = (case adapter of None \<Rightarrow> Null_bdev | Some a \<Rightarrow> P_user (Some a))"

definition lwext4_port_sdmmc_sync ::
  "'w platform \<Rightarrow> 'w lwext4_port_sdmmc option \<Rightarrow> esp_err \<times> 'w lwext4_port_sdmmc option" where
  "lwext4_port_sdmmc_sync P adapter =
     (case adapter of None \<Rightarrow> (ESP_ERR_INVALID_ARG, adapter)
      | Some a \<Rightarrow>
          if \<not> sd_lock a then (ESP_ERR_INVALID_ARG, adapter)
          else
            case xSemaphoreTakeRecursive P (sd_world a) of (taken, w) \<Rightarrow>
            if \<not> taken then (ESP_FAIL, Some (a\<lparr>sd_world := w\<rparr>))
            else
              case xSemaphoreGiveRecursive P w of (given, w') \<Rightarrow>
              (if given then ESP_OK else ESP_FAIL, Some (a\<lparr>sd_world := w'\<rparr>)))"

definition lwext4_port_sdmmc_destroy ::
  "'w platform \<Rightarrow> 'w lwext4_port_sdmmc option \<Rightarrow> esp_err \<times> ('w lwext4_port_sdmmc option + 'w)" where
  "lwext4_port_sdmmc_destroy P adapter =
     (case adapter of None \<Rightarrow> (ESP_ERR_INVALID_ARG, Inl adapter)
      | Some a \<Rightarrow>
          if \<not> sd_lock a then (ESP_ERR_INVALID_ARG, Inl adapter)
          else
            case xSemaphoreTakeRecursive P (sd_world a) of (taken, w) \<Rightarrow>
            if \<not> taken then (ESP_FAIL, Inl (Some (a\<lparr>sd_world := w\<rparr>)))
            else
              let w2 = snd (xSemaphoreGiveRecursive P w) in
              if sd_ph_refctr a \<noteq> 0 then (ESP_ERR_INVALID_STATE, Inl (Some (a\<lparr>sd_world := w2\<rparr>)))
              else
                (ESP_OK, Inr (heap_free P (heap_caps_free P (Some (sd_transfer_buffer a))
                   (vSemaphoreDelete P w2)))))"

section \<open>Formatting\<close>

definition sdmmc_validate_format_args ::
  "port_config \<Rightarrow> 'w lwext4_port_sdmmc option \<Rightarrow> 'c format_config option \<Rightarrow> esp_err" where
  "sdmmc_validate_format_args K adapter config =
     (if adapter = None \<or> config = None \<or> \<not> valid_card adapter then ESP_ERR_INVALID_ARG
      else
        let a = the adapter; cfg = the config;
            block_size = (if fc_block_size cfg \<noteq> 0 then fc_block_size cfg else 4096) in
        if sd_ph_refctr a \<noteq> 0 then ESP_ERR_INVALID_STATE
        else if \<not> feature_set_known K (fc_feature_set cfg) then ESP_ERR_INVALID_ARG
        else if \<not> is_power_of_two block_size \<or> block_size mod sector_size (card_of a) \<noteq> 0
          \<or> sd_part_size a mod ucast block_size \<noteq> 0
        then ESP_ERR_INVALID_SIZE
        else ESP_OK)"

definition sdmmc_iface ::
  "'w sdmmc_driver \<Rightarrow> 'w platform \<Rightarrow> 'w lwext4_port_sdmmc \<Rightarrow> 'w lwext4_port_sdmmc bdev_ref bdev_iface" where
  "sdmmc_iface drv P a =
     \<lparr>if_open = (\<lambda>s. (sdmmc_open s, s)), if_bread = sdmmc_read drv, if_bwrite = sdmmc_write drv,
      if_close = (\<lambda>s. (sdmmc_close s, s)),
      if_lock = Some (sdmmc_lock P), if_unlock = Some (sdmmc_unlock P),
      if_ph_bsize = sd_ph_bsize a, if_ph_bcnt = sd_ph_bcnt a,
      bd_part_offset = sd_part_offset a, bd_part_size = sd_part_size a\<rparr>"

fun sd_on_world ::
  "('w \<Rightarrow> 'r \<times> 'w) \<Rightarrow> 'r \<Rightarrow> 'w lwext4_port_sdmmc bdev_ref \<Rightarrow> 'r \<times> 'w lwext4_port_sdmmc bdev_ref" where
  "sd_on_world f r (P_user (Some a)) =
     (case f (sd_world a) of (r', w) \<Rightarrow> (r', P_user (Some (a\<lparr>sd_world := w\<rparr>))))"
| "sd_on_world f r bdev = (r, bdev)"

definition lwext4_port_sdmmc_format ::
  "port_config \<Rightarrow> 'w sdmmc_driver \<Rightarrow> 'w platform
     \<Rightarrow> (mkfs_info \<Rightarrow> u32 \<Rightarrow> ('w lwext4_port_sdmmc bdev_ref, 'c) format_wrapper
           \<Rightarrow> (errno \<times> ('w lwext4_port_sdmmc bdev_ref, 'c) format_wrapper) option)
     \<Rightarrow> 'w lwext4_port_sdmmc option \<Rightarrow> 'c format_config option \<Rightarrow> 'c
     \<Rightarrow> (esp_err \<times> 'w lwext4_port_sdmmc option \<times> 'c) option" where
  "lwext4_port_sdmmc_format K drv P mkfs adapter config c =
     (let error = sdmmc_validate_format_args K adapter config in
      if error \<noteq> ESP_OK then Some (error, adapter, c)
      else
        case lwext4_port_format_blockdev K (sd_on_world (calloc_ok P) False)
               (\<lambda>s. snd (sd_on_world (\<lambda>w. ((), heap_free P w)) () s)) mkfs
               (Some (sdmmc_iface drv P (the adapter))) config c (lwext4_port_sdmmc_get adapter) of
          None \<Rightarrow> None
        | Some (error, bdev, c') \<Rightarrow> Some (error, adapter_from_bdev bdev, c'))"

end
