(* ===== verification/Port_Sdmmc_Correct.thy ===== *)
theory Port_Sdmmc_Correct
  imports Port_Sdmmc
begin

text \<open>
  The SDMMC adapter is a block device as well, over a driver that moves whole sectors: the
  same two contracts as for the BDL adapter, with sectors in place of byte addresses.
\<close>

section \<open>What the driver promises\<close>

text \<open>\<open>contents\<close> is the card's flat array and \<open>B\<close> its sector size.\<close>

definition sectors_read_ok ::
  "('w \<Rightarrow> bytes) \<Rightarrow> nat \<Rightarrow> (bytes \<Rightarrow> u32 \<Rightarrow> u32 \<Rightarrow> 'w \<Rightarrow> esp_err \<times> bytes \<times> 'w) \<Rightarrow> bool" where
  "sectors_read_ok contents B rd \<longleftrightarrow> (\<forall>tb s n w.
     unat n * B \<le> length tb \<and> (unat s + unat n) * B \<le> length (contents w) \<longrightarrow>
     (case rd tb s n w of (e, tb', w') \<Rightarrow> length tb' = length tb \<and> contents w' = contents w
        \<and> (e = ESP_OK \<longrightarrow> tb' = mem_write 0 (mem_read (unat s * B) (unat n * B) (contents w)) tb)))"

definition sectors_write_ok ::
  "('w \<Rightarrow> bytes) \<Rightarrow> nat \<Rightarrow> (bytes \<Rightarrow> u32 \<Rightarrow> u32 \<Rightarrow> 'w \<Rightarrow> esp_err \<times> 'w) \<Rightarrow> bool" where
  "sectors_write_ok contents B wr \<longleftrightarrow> (\<forall>tb s n w.
     unat n * B \<le> length tb \<and> (unat s + unat n) * B \<le> length (contents w) \<longrightarrow>
     (case wr tb s n w of (e, w') \<Rightarrow> same_outside (unat s * B) (unat n * B) (contents w) (contents w')
        \<and> (e = ESP_OK \<longrightarrow> contents w' = mem_write (unat s * B) (mem_read 0 (unat n * B) tb) (contents w))))"

definition driver_ok :: "('w \<Rightarrow> bytes) \<Rightarrow> nat \<Rightarrow> 'w sdmmc_driver \<Rightarrow> bool" where
  "driver_ok contents B drv \<longleftrightarrow> sectors_read_ok contents B (sdmmc_read_sectors drv)
     \<and> sectors_write_ok contents B (sdmmc_write_sectors drv)"

lemma sectors_read_okD:
  assumes "sectors_read_ok contents B rd" "unat n * B \<le> length tb" "(unat s + unat n) * B \<le> length (contents w)"
    and "rd tb s n w = (e, tb', w')"
  shows "length tb' = length tb" "contents w' = contents w"
    "e = ESP_OK \<Longrightarrow> tb' = mem_write 0 (mem_read (unat s * B) (unat n * B) (contents w)) tb"
  using assms(1) [unfolded sectors_read_ok_def, rule_format, where tb = tb and s = s and n = n and w = w]
    assms(2-4) by simp_all

lemma sectors_write_okD:
  assumes "sectors_write_ok contents B wr" "unat n * B \<le> length tb" "(unat s + unat n) * B \<le> length (contents w)"
    and "wr tb s n w = (e, w')"
  shows "same_outside (unat s * B) (unat n * B) (contents w) (contents w')"
    "e = ESP_OK \<Longrightarrow> contents w' = mem_write (unat s * B) (mem_read 0 (unat n * B) tb) (contents w)"
  using assms(1) [unfolded sectors_write_ok_def, rule_format, where tb = tb and s = s and n = n and w = w]
    assms(2-4) by simp_all

section \<open>The adapter's invariant\<close>

definition sd_ok :: "'w lwext4_port_sdmmc \<Rightarrow> bool" where
  "sd_ok a \<longleftrightarrow> valid_card (Some a) \<and> sd_lock a \<and> sd_ph_bsize a = sector_size (card_of a)
     \<and> is_power_of_two (sd_ph_bsize a) \<and> sd_transfer_buffer_blocks a \<noteq> 0
     \<and> unat (sd_transfer_buffer_blocks a) * unat (sd_ph_bsize a) < 2 ^ 32
     \<and> unat (sd_transfer_buffer_size a) = unat (sd_transfer_buffer_blocks a) * unat (sd_ph_bsize a)
     \<and> length (sd_transfer_buffer a) = unat (sd_transfer_buffer_blocks a) * unat (sd_ph_bsize a)
     \<and> sd_ph_bcnt a = int_to_u64 (capacity (card_of a))
     \<and> unat (sd_part_size a) = unat (sd_ph_bcnt a) * unat (sd_ph_bsize a) \<and> sd_part_offset a = 0"

definition sd_dev :: "('w \<Rightarrow> bytes) \<Rightarrow> nat \<Rightarrow> 'w sdmmc_driver \<Rightarrow> 'w lwext4_port_sdmmc \<Rightarrow> bool" where
  "sd_dev contents B drv a \<longleftrightarrow> sd_ok a \<and> driver_ok contents B drv \<and> unat (sd_ph_bsize a) = B
     \<and> length (contents (sd_world a)) = unat (sd_ph_bcnt a) * B"

definition sd_frame :: "'w lwext4_port_sdmmc \<Rightarrow> 'w lwext4_port_sdmmc \<Rightarrow> bool" where
  "sd_frame a a' \<longleftrightarrow> length (sd_transfer_buffer a') = length (sd_transfer_buffer a)
     \<and> a' = a\<lparr>sd_transfer_buffer := sd_transfer_buffer a', sd_world := sd_world a'\<rparr>"

lemma int_to_u64_pos:
  assumes "0 < sint (x :: u32)"
  shows "int_to_u64 x = ucast x" "unat x < 2 ^ 31"
proof -
  have u: "0 \<le> uint x" "uint x < 2 ^ 32" using unsigned_less [of x] by simp_all
  have e: "sint x = uint x - 2 ^ 32 * of_bool (bit (uint x) 31)"
    using u by (simp add: sint_uint signed_take_bit_eq_take_bit_minus take_bit_int_eq_self)
  then have s: "sint x = uint x" using assms u by (cases "bit (uint x) 31") simp_all
  then show "int_to_u64 x = ucast x" by (simp add: int_to_u64_def)
  have "sint x < 2 ^ 31" using sint_less [of x] by simp
  then have "int (unat x) < int (2 ^ 31)" using s by simp
  then show "unat x < 2 ^ 31" by (simp only: of_nat_less_iff)
qed

lemma sd_devD:
  assumes "sd_dev contents B drv a"
  shows "sd_ok a" "driver_ok contents B drv" "unat (sd_ph_bsize a) = B" "valid_card (Some a)"
    "length (contents (sd_world a)) = unat (sd_ph_bcnt a) * B" "0 < B"
    "length (sd_transfer_buffer a) = unat (sd_transfer_buffer_blocks a) * B"
    "unat (sd_transfer_buffer_blocks a) * B < 2 ^ 32" "sd_transfer_buffer_blocks a \<noteq> 0"
    "sd_ph_bcnt a = int_to_u64 (capacity (card_of a))" "unat (sd_ph_bcnt a) < 2 ^ 31"
  using assms is_power_of_two_iff [of "sd_ph_bsize a"] int_to_u64_pos [of "capacity (card_of a)"]
  unfolding sd_dev_def sd_ok_def valid_card_def by (auto split: option.splits)

lemma sd_frame_refl [simp]: "sd_frame a a"
  by (simp add: sd_frame_def)

lemma sd_frame_trans: "sd_frame a b \<Longrightarrow> sd_frame b c \<Longrightarrow> sd_frame a c"
  by (cases a; cases b; cases c) (simp add: sd_frame_def)

lemma sd_frame_fields:
  assumes "sd_frame a b"
  shows "sd_card b = sd_card a" "sd_lock b = sd_lock a" "sd_transfer_buffer_blocks b = sd_transfer_buffer_blocks a"
    "sd_transfer_buffer_size b = sd_transfer_buffer_size a" "sd_ph_bsize b = sd_ph_bsize a"
    "sd_ph_bcnt b = sd_ph_bcnt a" "sd_ph_refctr b = sd_ph_refctr a"
    "sd_part_offset b = sd_part_offset a" "sd_part_size b = sd_part_size a"
    "length (sd_transfer_buffer b) = length (sd_transfer_buffer a)"
  using assms by (cases a; cases b; simp add: sd_frame_def)+

lemma sd_dev_frame:
  assumes "sd_dev contents B drv a" "sd_frame a b" "length (contents (sd_world b)) = length (contents (sd_world a))"
  shows "sd_dev contents B drv b"
  using assms(1,3) unfolding sd_dev_def sd_ok_def valid_card_def option.case
    sd_frame_fields [OF assms(2)] by auto

section \<open>One chunk\<close>

lemma sd_sector:
  assumes "sd_dev contents B drv a" "(j + m) * B \<le> length (contents (sd_world a))"
  shows "unat (ucast (of_nat j :: u64) :: u32) = j"
proof -
  have "j + m \<le> unat (sd_ph_bcnt a)" using assms(2) sd_devD(5,6) [OF assms(1)] by simp
  then have "j < 2 ^ 31" using sd_devD(11) [OF assms(1)] by linarith
  then show ?thesis by (simp add: unsigned_ucast_eq unat_of_nat take_bit_nat_eq_self)
qed

lemma sd_chunk_size:
  assumes "sd_dev contents B drv a" "unat c \<le> unat (sd_transfer_buffer_blocks a)"
  shows "unat (c * sd_ph_bsize a) = unat c * B" "unat c * B \<le> length (sd_transfer_buffer a)"
proof -
  have "unat c * B \<le> unat (sd_transfer_buffer_blocks a) * B" by (rule mult_le_mono1 [OF assms(2)])
  moreover from this have "unat c * B < 2 ^ 32" using sd_devD(8) [OF assms(1)] by (rule le_less_trans)
  ultimately show "unat (c * sd_ph_bsize a) = unat c * B" "unat c * B \<le> length (sd_transfer_buffer a)"
    using sd_devD(3,7) [OF assms(1)] unat_mult_lem [of c "sd_ph_bsize a"] by simp_all
qed

lemma sdmmc_read_chunk_spec:
  assumes run: "sdmmc_read_chunk drv (of_nat j) c off buf t = (r, buf', t')"
    and dev: "sd_dev contents B drv t" and c: "unat c \<le> unat (sd_transfer_buffer_blocks t)"
    and range: "(j + unat c) * B \<le> length (contents (sd_world t))"
    and buf: "buf \<noteq> Null_buffer" "buf = Transfer_buffer \<Longrightarrow> off = 0"
  shows "sd_frame t t' \<and> contents (sd_world t') = contents (sd_world t)
    \<and> (if r = EOK then
         mem_read 0 (unat c * B) (sd_transfer_buffer t') = mem_read (j * B) (unat c * B) (contents (sd_world t))
         \<and> buf' = (case buf of Caller_buffer d \<Rightarrow>
             Caller_buffer (mem_write off (mem_read (j * B) (unat c * B) (contents (sd_world t))) d) | _ \<Rightarrow> buf)
       else True)"
proof -
  obtain e tb w where
    x: "sdmmc_read_sectors drv (sd_transfer_buffer t) (ucast (of_nat j :: u64)) c (sd_world t) = (e, tb, w)"
    by (metis prod_cases3)
  note sz = sd_chunk_size [OF dev c]
  note sec = sd_sector [OF dev range]
  have rd: "sectors_read_ok contents B (sdmmc_read_sectors drv)" using sd_devD(2) [OF dev] by (simp add: driver_ok_def)
  have "(unat (ucast (of_nat j :: u64) :: u32) + unat c) * B \<le> length (contents (sd_world t))"
    unfolding sec by (rule range)
  note rd' = sectors_read_okD [OF rd sz(2) this x, unfolded sec]
  show ?thesis
  proof (cases "e = ESP_OK")
    case True
    have "mem_read 0 (unat c * B) tb = mem_read (j * B) (unat c * B) (contents (sd_world t))"
      using rd'(3) [OF True] sz range by (simp add: mem_simps distrib_right)
    then show ?thesis
      using run buf rd'(1,2) True
      by (cases buf) (auto simp: sdmmc_read_chunk_def sd_frame_def x sz Let_def)
  next
    case False
    then show ?thesis
      using run rd'(1,2) by (auto simp: sdmmc_read_chunk_def sd_frame_def x Let_def)
  qed
qed

lemma sdmmc_write_chunk_spec:
  assumes run: "sdmmc_write_chunk drv buf (of_nat j) c off t = (r, t')"
    and dev: "sd_dev contents B drv t" and c: "unat c \<le> unat (sd_transfer_buffer_blocks t)"
    and range: "(j + unat c) * B \<le> length (contents (sd_world t))"
    and src: "off + unat c * B \<le> length (buffer_bytes buf (sd_transfer_buffer t))"
    and buf: "buf \<noteq> Null_buffer" "buf = Transfer_buffer \<Longrightarrow> off = 0"
  shows "sd_frame t t' \<and> same_outside (j * B) (unat c * B) (contents (sd_world t)) (contents (sd_world t'))
    \<and> (buf = Transfer_buffer \<longrightarrow> sd_transfer_buffer t' = sd_transfer_buffer t)
    \<and> (if r = EOK then contents (sd_world t') = mem_write (j * B)
           (mem_read off (unat c * B) (buffer_bytes buf (sd_transfer_buffer t))) (contents (sd_world t))
       else True)"
proof -
  define tb where "tb = copy_in buf off (unat (c * sd_ph_bsize t)) (sd_transfer_buffer t)"
  obtain e w where x: "sdmmc_write_sectors drv tb (ucast (of_nat j :: u64)) c (sd_world t) = (e, w)" by fastforce
  note sz = sd_chunk_size [OF dev c]
  note sec = sd_sector [OF dev range]
  have wr: "sectors_write_ok contents B (sdmmc_write_sectors drv)" using sd_devD(2) [OF dev] by (simp add: driver_ok_def)
  have tb: "length tb = length (sd_transfer_buffer t)"
    "mem_read 0 (unat c * B) tb = mem_read off (unat c * B) (buffer_bytes buf (sd_transfer_buffer t))"
    "buf = Transfer_buffer \<Longrightarrow> tb = sd_transfer_buffer t"
    using sz src buf by (cases buf; simp add: tb_def mem_simps length_mem_read)+
  have "unat c * B \<le> length tb" "(unat (ucast (of_nat j :: u64) :: u32) + unat c) * B \<le> length (contents (sd_world t))"
    unfolding sec tb(1) by (rule sz(2), rule range)
  note wr' = sectors_write_okD [OF wr this x, unfolded sec tb(2)]
  show ?thesis
    using run wr' tb(1,3)
    by (cases "e = ESP_OK") (auto simp: sdmmc_write_chunk_def sd_frame_def x tb_def [symmetric] Let_def)
qed

section \<open>The loops\<close>

lemma sdmmc_write_chunk_same:
  "sdmmc_write_chunk drv buf p c off a = (r, a') \<Longrightarrow>
    sd_transfer_buffer_blocks a' = sd_transfer_buffer_blocks a \<and> sd_ph_bsize a' = sd_ph_bsize a"
  by (auto simp: sdmmc_write_chunk_def Let_def split: prod.splits if_splits)

lemma sdmmc_read_chunk_same:
  "sdmmc_read_chunk drv p c off buf a = (r, buf', a') \<Longrightarrow>
    sd_transfer_buffer_blocks a' = sd_transfer_buffer_blocks a \<and> sd_ph_bsize a' = sd_ph_bsize a"
  by (auto simp: sdmmc_read_chunk_def Let_def split: prod.splits if_splits)

interpretation sd_ts: transfer_state
  sd_transfer_buffer_blocks sd_ph_bsize "\<lambda>_. 1"
  "sd_dev contents B drv" sd_frame "\<lambda>a. contents (sd_world a)" sd_transfer_buffer
  "\<lambda>r a. True" B for contents :: "'w \<Rightarrow> bytes" and B drv
  by unfold_locales (auto dest: sd_devD sd_frame_fields intro: sd_frame_trans sd_dev_frame)

interpretation sd_rd_loop: chunked
  "\<lambda>n pos off st. sdmmc_read_loop drv n pos off (fst st) (snd st)"
  "\<lambda>c pos off st. sdmmc_read_chunk drv pos c off (fst st) (snd st)"
  "\<lambda>st c. ucast c"
  "\<lambda>st. sd_transfer_buffer_blocks (snd st)" "\<lambda>st. sd_ph_bsize (snd st)" "\<lambda>st. 1" for drv :: "'w sdmmc_driver"
proof unfold_locales
  fix n pos off and st :: "io_buffer \<times> 'w lwext4_port_sdmmc"
  show "sdmmc_read_loop drv n pos off (fst st) (snd st) =
      (if n \<noteq> 0 then
         (let c = (if n > sd_transfer_buffer_blocks (snd st) then sd_transfer_buffer_blocks (snd st) else n) in
          case sdmmc_read_chunk drv pos c off (fst st) (snd st) of (r, s') \<Rightarrow>
          if r \<noteq> EOK then Some (r, s')
          else sdmmc_read_loop drv (n - c) (pos + ucast c) (off + unat (c * sd_ph_bsize (snd st)))
            (fst s') (snd s'))
       else Some (EOK, st))"
    by (subst sdmmc_read_loop.simps) (simp add: Let_def split_beta)
qed (auto dest: sdmmc_read_chunk_same)

interpretation sd_wr_loop: chunked
  "sdmmc_write_loop drv buf"
  "\<lambda>c pos off a. sdmmc_write_chunk drv buf pos c off a"
  "\<lambda>a c. ucast c"
  sd_transfer_buffer_blocks sd_ph_bsize "\<lambda>_. 1" for drv :: "'w sdmmc_driver" and buf
proof unfold_locales
  fix n pos off and a :: "'w lwext4_port_sdmmc"
  show "sdmmc_write_loop drv buf n pos off a =
      (if n \<noteq> 0 then
         (let c = (if n > sd_transfer_buffer_blocks a then sd_transfer_buffer_blocks a else n) in
          case sdmmc_write_chunk drv buf pos c off a of (r, s') \<Rightarrow>
          if r \<noteq> EOK then Some (r, s')
          else sdmmc_write_loop drv buf (n - c) (pos + ucast c) (off + unat (c * sd_ph_bsize a)) s')
       else Some (EOK, a))"
    by (subst sdmmc_write_loop.simps) (simp add: Let_def split_beta)
qed (auto dest: sdmmc_write_chunk_same)

interpretation sd_rd: block_reader
  "\<lambda>n pos off st. sdmmc_read_loop drv n pos off (fst st) (snd st)"
  "\<lambda>c pos off st. sdmmc_read_chunk drv pos c off (fst st) (snd st)"
  "\<lambda>st c. ucast c"
  sd_transfer_buffer_blocks sd_ph_bsize "\<lambda>_. 1"
  "sd_dev contents B drv" sd_frame "\<lambda>a. contents (sd_world a)" sd_transfer_buffer
  "\<lambda>r a. True" B for contents :: "'w \<Rightarrow> bytes" and B drv
  by unfold_locales (simp only: fst_conv snd_conv mult_1_right, rule sdmmc_read_chunk_spec)

interpretation sd_wr: block_writer
  "sdmmc_write_loop drv buf"
  "\<lambda>c pos off a. sdmmc_write_chunk drv buf pos c off a"
  "\<lambda>a c. ucast c"
  sd_transfer_buffer_blocks sd_ph_bsize "\<lambda>_. 1"
  "sd_dev contents B drv" sd_frame "\<lambda>a. contents (sd_world a)" sd_transfer_buffer
  "\<lambda>r a. True" B buf for contents :: "'w \<Rightarrow> bytes" and B drv buf
  by unfold_locales (simp only: mult_1_right, rule sdmmc_write_chunk_spec)

section \<open>sdmmc_read and sdmmc_write\<close>

lemma sdmmc_validate_error:
  assumes "sdmmc_validate_io_range a b n = Inl r" "sd_ph_bcnt a = int_to_u64 (capacity (card_of a))"
  shows "n \<noteq> 0" "r \<noteq> EOK" "r = EINVAL \<longleftrightarrow> unat (sd_ph_bcnt a) < unat b + unat n"
proof -
  show n: "n \<noteq> 0" and "r \<noteq> EOK"
    using assms by (auto simp: sdmmc_validate_io_range_def Let_def split: if_splits)
  have "0 < unat n" using n by (simp add: unat_gt_0)
  then show "r = EINVAL \<longleftrightarrow> unat (sd_ph_bcnt a) < unat b + unat n"
    using assms unat_sub [of b "sd_ph_bcnt a"]
    by (cases "b < sd_ph_bcnt a")
      (auto simp: sdmmc_validate_io_range_def Let_def word_le_nat_alt word_less_nat_alt split: if_splits)
qed

lemma sdmmc_range:
  assumes "sd_dev contents B drv a" "sdmmc_validate_io_range a b n = Inr sector" "n \<noteq> 0"
  shows "sector = of_nat (unat b) * 1 \<and> (unat b + unat n) * B \<le> length (contents (sd_world a))"
proof -
  have "b < sd_ph_bcnt a" "(ucast n :: u64) \<le> sd_ph_bcnt a - b" "sector = b"
    using assms(2,3) sd_devD(10) [OF assms(1)]
    by (auto simp: sdmmc_validate_io_range_def Let_def not_le not_less split: if_splits)
  then have "unat b + unat n \<le> unat (sd_ph_bcnt a)"
    by (simp add: word_le_nat_alt word_less_nat_alt unat_sub)
  with sd_devD(5) [OF assms(1)] \<open>sector = b\<close> show ?thesis by simp
qed

lemma sd_transfer_fits:
  assumes "sd_dev contents B drv a" "unat n * B \<le> length (buffer_bytes buf (sd_transfer_buffer a))"
    "buf = Transfer_buffer"
  shows "unat n \<le> unat (sd_transfer_buffer_blocks a)"
  using sd_devD(6,7) [OF assms(1)] assms(2,3) by simp

lemma sdmmc_read_spec:
  assumes dev: "sd_dev contents B drv a" and buf: "buf \<noteq> Null_buffer"
    "unat n * B \<le> length (buffer_bytes buf (sd_transfer_buffer a))"
  shows "\<exists>r buf' a'. sdmmc_read drv buf b n (P_user (Some a)) = Some (r, buf', P_user (Some a'))
    \<and> sd_frame a a' \<and> contents (sd_world a') = contents (sd_world a)
    \<and> (r = EOK \<longrightarrow>
         buf' = read_into buf (mem_read (unat b * B) (unat n * B) (contents (sd_world a)))
         \<and> mem_read 0 (unat n * B) (buffer_bytes buf' (sd_transfer_buffer a'))
           = mem_read (unat b * B) (unat n * B) (contents (sd_world a))
         \<and> (n \<noteq> 0 \<longrightarrow> (unat b + unat n) * B \<le> length (contents (sd_world a))))"
proof -
  note ng = sd_devD(4) [OF dev] buf(1)
  note tr = sd_transfer_fits [OF dev buf(2)]
  show ?thesis
  proof (cases "sdmmc_validate_io_range a b n")
    case (Inl r)
    then have "sdmmc_read drv buf b n (P_user (Some a)) = Some (r, buf, P_user (Some a))"
      by (simp add: sdmmc_read_def ng Let_def)
    then show ?thesis using sdmmc_validate_error(2) [OF Inl sd_devD(10) [OF dev]]
      by (intro exI) auto
  next
    case (Inr adr)
    show ?thesis
    proof (cases "n = 0")
      case True
      then have "sdmmc_read drv buf b n (P_user (Some a)) = Some (EOK, buf, P_user (Some a))"
        using Inr by (simp add: sdmmc_read_def ng Let_def)
      moreover have "read_into buf [] = buf" by (cases buf) (simp_all add: read_into_def)
      ultimately show ?thesis
        using True by (intro exI [of _ EOK] exI [of _ buf] exI [of _ a]) simp
    next
      case False
      note rg = sdmmc_range [OF dev Inr False, THEN conjunct1] sdmmc_range [OF dev Inr False, THEN conjunct2]
      obtain r st where l0: "sdmmc_read_loop drv n adr 0 (fst (buf, a)) (snd (buf, a)) = Some (r, st)"
        "if r = EOK then sd_rd.read_done contents B buf a (unat b) (unat n) (unat n) st
         else sd_frame a (snd st) \<and> contents (sd_world (snd st)) = contents (sd_world a) \<and> True"
        using sd_rd.read_loop [where b = b, OF dev rg(2) buf tr] unfolding rg(1) by blast
      obtain buf' a' where st: "st = (buf', a')" by fastforce
      note l = l0 [unfolded st fst_conv snd_conv]
      have "sdmmc_read drv buf b n (P_user (Some a)) = Some (r, buf', P_user (Some a'))"
        using Inr False tr l(1) by (auto simp: sdmmc_read_def word_less_nat_alt ng Let_def)
      moreover have "mem_read 0 (unat n * B) (buffer_bytes buf' (sd_transfer_buffer a'))
          = mem_read (unat b * B) (unat n * B) (contents (sd_world a))" if "r = EOK"
        using l(2) that False rg(2) buf
        by (cases buf) (auto simp: sd_rd.read_done_def read_into_def mem_simps distrib_right unat_eq_zero)
      ultimately show ?thesis
        using l(2) rg(2) by (auto simp: sd_rd.read_done_def split: if_splits)
    qed
  qed
qed

lemma sdmmc_write_spec:
  assumes dev: "sd_dev contents B drv a" and buf: "buf \<noteq> Null_buffer"
    "unat n * B \<le> length (buffer_bytes buf (sd_transfer_buffer a))"
  shows "\<exists>r a'. sdmmc_write drv buf b n (P_user (Some a)) = Some (r, P_user (Some a'))
    \<and> sd_frame a a' \<and> same_outside (unat b * B) (unat n * B) (contents (sd_world a)) (contents (sd_world a'))
    \<and> (r = EOK \<longrightarrow>
         contents (sd_world a') = mem_write (unat b * B)
             (mem_read 0 (unat n * B) (buffer_bytes buf (sd_transfer_buffer a))) (contents (sd_world a))
         \<and> (n \<noteq> 0 \<longrightarrow> (unat b + unat n) * B \<le> length (contents (sd_world a))))"
proof -
  note ng = sd_devD(4) [OF dev] buf(1)
  note tr = sd_transfer_fits [OF dev buf(2)]
  show ?thesis
  proof (cases "sdmmc_validate_io_range a b n")
    case (Inl r)
    then have "sdmmc_write drv buf b n (P_user (Some a)) = Some (r, P_user (Some a))"
      by (simp add: sdmmc_write_def ng Let_def)
    then show ?thesis using sdmmc_validate_error(2) [OF Inl sd_devD(10) [OF dev]] by auto
  next
    case (Inr adr)
    show ?thesis
    proof (cases "n = 0")
      case True
      then have "sdmmc_write drv buf b n (P_user (Some a)) = Some (EOK, P_user (Some a))"
        using Inr by (simp add: sdmmc_write_def ng Let_def)
      then show ?thesis using True by simp
    next
      case False
      note rg = sdmmc_range [OF dev Inr False, THEN conjunct1] sdmmc_range [OF dev Inr False, THEN conjunct2]
      obtain r t where l: "sdmmc_write_loop drv buf n adr 0 a = Some (r, t)"
        "if r = EOK then sd_wr.write_done contents B buf a (unat b) (unat n) (unat n) t
         else sd_frame a t \<and> same_outside (unat b * B) (unat n * B) (contents (sd_world a)) (contents (sd_world t))
           \<and> True"
        using sd_wr.write_loop [where b = b, OF dev rg(2) buf tr] unfolding rg(1) by blast
      have "sdmmc_write drv buf b n (P_user (Some a)) = Some (r, P_user (Some t))"
        using Inr False tr l(1) by (auto simp: sdmmc_write_def word_less_nat_alt ng Let_def)
      moreover have "same_outside (unat b * B) (unat n * B) (contents (sd_world a)) (contents (sd_world t))"
        using l(2) rg(2) buf(2)
        by (auto simp: sd_wr.write_done_def distrib_right length_mem_read split: if_splits)
      ultimately show ?thesis
        using l(2) rg(2) by (auto simp: sd_wr.write_done_def split: if_splits)
    qed
  qed
qed

section \<open>The adapter as a block device\<close>

definition sd_state_ok :: "('w \<Rightarrow> bytes) \<Rightarrow> nat \<Rightarrow> 'w sdmmc_driver \<Rightarrow> 'w lwext4_port_sdmmc bdev_ref \<Rightarrow> bool" where
  "sd_state_ok contents B drv bdev =
     (case adapter_from_bdev bdev of None \<Rightarrow> False | Some a \<Rightarrow> sd_dev contents B drv a)"

definition sd_disk :: "('w \<Rightarrow> bytes) \<Rightarrow> 'w lwext4_port_sdmmc bdev_ref \<Rightarrow> bytes" where
  "sd_disk contents bdev = contents (sd_world (the (adapter_from_bdev bdev)))"

definition sd_tbuf :: "'w lwext4_port_sdmmc bdev_ref \<Rightarrow> bytes" where
  "sd_tbuf bdev = sd_transfer_buffer (the (adapter_from_bdev bdev))"

lemma sd_state_okE:
  assumes "sd_state_ok contents B drv bdev"
  obtains a where "bdev = P_user (Some a)" "sd_dev contents B drv a"
  using assms by (cases bdev rule: adapter_from_bdev.cases) (auto simp: sd_state_ok_def split: option.splits)

interpretation sd: block_device "sdmmc_read drv" "sdmmc_write drv" "sd_state_ok contents B drv"
  "sd_disk contents" sd_tbuf B for contents :: "'w \<Rightarrow> bytes" and B drv
proof unfold_locales
  fix s :: "'w lwext4_port_sdmmc bdev_ref" and buf and n :: u32 and b :: u64
  assume s: "sd_state_ok contents B drv s" and buf: "buf \<noteq> Null_buffer"
    "unat n * B \<le> length (buffer_bytes buf (sd_tbuf s))"
  obtain a where a: "s = P_user (Some a)" "sd_dev contents B drv a" by (rule sd_state_okE [OF s])
  have buf': "unat n * B \<le> length (buffer_bytes buf (sd_transfer_buffer a))"
    using buf(2) by (simp add: a sd_tbuf_def)
  note ok = sd_dev_frame [OF a(2)] sd_frame_fields(10)
  show "\<exists>r buf' s'. sdmmc_read drv buf b n s = Some (r, buf', s') \<and> sd_state_ok contents B drv s'
      \<and> sd_disk contents s' = sd_disk contents s \<and> length (sd_tbuf s') = length (sd_tbuf s)
      \<and> (r = EOK \<longrightarrow> buf' = read_into buf (mem_read (unat b * B) (unat n * B) (sd_disk contents s))
           \<and> mem_read 0 (unat n * B) (buffer_bytes buf' (sd_tbuf s'))
             = mem_read (unat b * B) (unat n * B) (sd_disk contents s)
           \<and> (n \<noteq> 0 \<longrightarrow> (unat b + unat n) * B \<le> length (sd_disk contents s)))"
    using sdmmc_read_spec [OF a(2) buf(1) buf', of b]
    by (auto simp: a(1) sd_state_ok_def sd_disk_def sd_tbuf_def ok)
  show "\<exists>r s'. sdmmc_write drv buf b n s = Some (r, s') \<and> sd_state_ok contents B drv s'
      \<and> length (sd_tbuf s') = length (sd_tbuf s)
      \<and> same_outside (unat b * B) (unat n * B) (sd_disk contents s) (sd_disk contents s')
      \<and> (r = EOK \<longrightarrow>
           sd_disk contents s' = mem_write (unat b * B)
             (mem_read 0 (unat n * B) (buffer_bytes buf (sd_tbuf s))) (sd_disk contents s)
           \<and> (n \<noteq> 0 \<longrightarrow> (unat b + unat n) * B \<le> length (sd_disk contents s)))"
    using sdmmc_write_spec [OF a(2) buf(1) buf', of b]
    by (auto simp: a(1) sd_state_ok_def sd_disk_def sd_tbuf_def ok same_outside_def)
qed

section \<open>Creation and destruction\<close>

lemma sdmmc_validate_create_okD:
  assumes "sdmmc_validate_create_args P c config out = ESP_OK"
  obtains c0 cfg where "c = Some c0" "config = Some cfg" "0 < sint (capacity c0)"
    "sd_physical_block_size cfg = sector_size c0" "is_power_of_two (sector_size c0)"
    "sdmmc_buffer_blocks cfg \<le> SIZE_MAX div sector_size c0"
proof -
  obtain c0 cfg where lc: "c = Some c0" "config = Some cfg"
    using assms by (auto simp: sdmmc_validate_create_args_def split: if_splits)
  show thesis
    by (rule that [OF lc])
      (use assms in \<open>auto simp: sdmmc_validate_create_args_def Let_def lc not_less not_le split: if_splits\<close>)
qed

lemma sdmmc_create_ok:
  assumes "lwext4_port_sdmmc_create P c config out w = (ESP_OK, adapter, w')" "alloc_sized P"
    and "0 < sint (sector_size (the c))"
  shows "\<exists>a. adapter = Some a \<and> sd_ok a \<and> sd_card a = c \<and> sd_world a = w' \<and> sd_ph_refctr a = 0"
proof -
  have v: "sdmmc_validate_create_args P c config out = ESP_OK"
    using assms(1) by (auto simp: lwext4_port_sdmmc_create_def Let_def split: if_splits)
  then obtain c0 cfg where l: "c = Some c0" "config = Some cfg" and cap: "0 < sint (capacity c0)"
    and pbs: "sd_physical_block_size cfg = sector_size c0" "is_power_of_two (sector_size c0)"
    and sz: "sdmmc_buffer_blocks cfg \<le> SIZE_MAX div sector_size c0"
    by (rule sdmmc_validate_create_okD)
  note size = div_bound_mult [OF sz]
  have mult: "unat (sdmmc_buffer_blocks cfg * sector_size c0)
      = unat (sdmmc_buffer_blocks cfg) * unat (sector_size c0)"
    using size unat_mult_lem [of "sdmmc_buffer_blocks cfg" "sector_size c0"] by simp
  have nz: "sdmmc_buffer_blocks cfg \<noteq> 0" by (simp add: sdmmc_buffer_blocks_def)
  have sec: "0 < sint (sector_size c0)" using assms(3) l(1) by simp
  note pos = int_to_u64_pos [OF cap] int_to_u64_pos [OF sec]
  have "unat (capacity c0) * unat (sector_size c0) \<le> 2 ^ 31 * 2 ^ 31"
    using pos by (intro mult_le_mono) simp_all
  then have dsz: "unat (device_size c0) = unat (capacity c0) * unat (sector_size c0)"
    by (simp add: device_size_def pos unat_mult_lem [THEN iffD1])
  obtain tb a where ad: "adapter = Some a" "length tb = unat (sdmmc_buffer_blocks cfg * sector_size c0)"
    "a = \<lparr>sd_card = Some c0, sd_lock = True, sd_transfer_buffer = tb,
       sd_transfer_buffer_size = sdmmc_buffer_blocks cfg * sector_size c0,
       sd_transfer_buffer_blocks = sdmmc_buffer_blocks cfg,
       sd_ph_bsize = sector_size c0, sd_ph_bcnt = int_to_u64 (capacity c0), sd_ph_refctr = 0,
       sd_part_offset = 0, sd_part_size = device_size c0, sd_world = w'\<rparr>"
    using assms(1,2) v l pbs(1)
    by (auto simp: lwext4_port_sdmmc_create_def Let_def alloc_sized_def split: if_splits prod.splits)
      (metis fst_conv)
  have "sd_ok a"
    using pbs cap sec nz size mult dsz ad(2) pos(1)
    by (auto simp: ad(3) sd_ok_def valid_card_def)
  then show ?thesis using ad l by simp
qed

lemma sdmmc_create_balance:
  assumes "counts live P"
  shows "live (snd (snd (lwext4_port_sdmmc_create P c config out w)))
    = live w + (if fst (snd (lwext4_port_sdmmc_create P c config out w)) = None then 0 else 3)"
  using assms
  by (auto simp: lwext4_port_sdmmc_create_def counts_def Let_def split_beta)

lemma sdmmc_destroy_balance:
  assumes "counts live P" "sd_lock a"
  shows "case lwext4_port_sdmmc_destroy P (Some a) of
      (r, Inr w) \<Rightarrow> r = ESP_OK \<and> sd_ph_refctr a = 0 \<and> live w = live (sd_world a) - 3
    | (r, Inl ad) \<Rightarrow> r \<noteq> ESP_OK \<and> (\<exists>w. ad = Some (a\<lparr>sd_world := w\<rparr>) \<and> live w = live (sd_world a))"
  using assms
  by (auto simp: lwext4_port_sdmmc_destroy_def counts_def Let_def split_beta split: sum.splits)

section \<open>Formatting\<close>

lemma sd_dev_world:
  "sd_dev contents B drv a \<Longrightarrow> contents w = contents (sd_world a) \<Longrightarrow> sd_dev contents B drv (a\<lparr>sd_world := w\<rparr>)"
  by (rule sd_dev_frame) (simp_all add: sd_frame_def)

lemma sd_on_world_spec:
  assumes "sd_state_ok contents B drv s" "\<And>w. contents (snd (f w)) = contents w"
  shows "sd_state_ok contents B drv (snd (sd_on_world f r s))
    \<and> sd_disk contents (snd (sd_on_world f r s)) = sd_disk contents s
    \<and> sd_tbuf (snd (sd_on_world f r s)) = sd_tbuf s"
proof -
  obtain a where a: "s = P_user (Some a)" "sd_dev contents B drv a" by (rule sd_state_okE [OF assms(1)])
  have "contents (snd (f (sd_world a))) = contents (sd_world a)" by (rule assms(2))
  with sd_dev_world [OF a(2) this] show ?thesis
    by (simp add: a(1) sd_state_ok_def sd_disk_def sd_tbuf_def split_beta)
qed

lemma sdmmc_lock_on_world:
  assumes "sd_state_ok contents B drv s"
  shows "snd (sdmmc_lock P s) = snd (sd_on_world (xSemaphoreTakeRecursive P) False s)"
    "snd (sdmmc_unlock P s) = snd (sd_on_world (xSemaphoreGiveRecursive P) False s)"
proof -
  obtain a where a: "s = P_user (Some a)" "sd_dev contents B drv a" by (rule sd_state_okE [OF assms])
  have "sd_lock a" using sd_devD(1) [OF a(2)] by (simp add: sd_ok_def)
  then show "snd (sdmmc_lock P s) = snd (sd_on_world (xSemaphoreTakeRecursive P) False s)"
    "snd (sdmmc_unlock P s) = snd (sd_on_world (xSemaphoreGiveRecursive P) False s)"
    by (simp_all add: a(1) sdmmc_lock_def sdmmc_unlock_def split_beta)
qed

interpretation sd_fmt: format_device "sdmmc_iface drv P a0"
  "\<lambda>s. sd_state_ok contents (unat (sd_ph_bsize a0)) drv s \<and> platform_keeps contents P"
  "sd_disk contents" sd_tbuf "unat (sd_ph_bsize a0)" for contents :: "'w \<Rightarrow> bytes" and drv P a0
proof (unfold_locales, goal_cases)
  case (1 s buf n b)
  then show ?case using sd.read_law [of contents _ drv s buf n b] by (auto simp: sdmmc_iface_def)
next
  case (2 s buf n b)
  then show ?case using sd.write_law [of contents _ drv s buf n b] by (auto simp: sdmmc_iface_def)
next
  case (3 s r s')
  then have "s' = snd (sdmmc_lock P s)" by (simp add: sdmmc_iface_def call_opt_def)
  then show ?case
    using 3 sd_on_world_spec [of contents _ drv s "xSemaphoreTakeRecursive P" False] sdmmc_lock_on_world(1) [of contents]
    by (auto simp: platform_keeps_def)
next
  case (4 s r s')
  then have "s' = snd (sdmmc_unlock P s)" by (simp add: sdmmc_iface_def call_opt_def)
  then show ?case
    using 4 sd_on_world_spec [of contents _ drv s "xSemaphoreGiveRecursive P" False] sdmmc_lock_on_world(2) [of contents]
    by (auto simp: platform_keeps_def)
next
  case (7 s)
  then obtain a where a: "s = P_user (Some a)" "sd_dev contents (unat (sd_ph_bsize a0)) drv a"
    by (auto elim: sd_state_okE)
  have "1 \<le> unat (sd_transfer_buffer_blocks a)" using sd_devD(9) [OF a(2)] by (simp add: unat_gt_0 Suc_le_eq)
  from mult_le_mono1 [OF this, of "unat (sd_ph_bsize a0)"] show ?case
    using sd_devD(7) [OF a(2)] by (simp add: a(1) sd_tbuf_def)
qed (simp_all add: sdmmc_iface_def)

lemma sdmmc_format_spec:
  assumes dev: "sd_dev contents B drv a" and P: "platform_keeps contents P"
    and mkfs: "uses_device mkfs"
    and run: "lwext4_port_sdmmc_format K drv P mkfs (Some a) (Some cfg) c = Some (e, ad, c')"
  shows "\<exists>a'. ad = Some a' \<and> sd_dev contents B drv a'
    \<and> (e \<noteq> ESP_OK \<and> e \<noteq> ESP_FAIL \<longrightarrow> contents (sd_world a') = contents (sd_world a))
    \<and> (e = ESP_OK \<longrightarrow> (\<exists>info w0 w. format_checks K (format_info (sd_part_size a) cfg) = Inr info
         \<and> sd_disk contents (inner_state w0) = contents (sd_world a)
         \<and> mkfs info (format_feature_set K (fc_feature_set cfg)) w0 = Some (EOK, w)
         \<and> sd_disk contents (inner_state w) = contents (sd_world a')))"
proof (cases "sdmmc_validate_format_args K (Some a) (Some cfg) = ESP_OK")
  case False
  then show ?thesis using run dev by (auto simp: lwext4_port_sdmmc_format_def)
next
  case True
  have B: "unat (sd_ph_bsize a) = B" using sd_devD(3) [OF dev] .
  let ?ok = "\<lambda>s. sd_state_ok contents (unat (sd_ph_bsize a)) drv s \<and> platform_keeps contents P"
  let ?free = "\<lambda>s. snd (sd_on_world (\<lambda>w. ((), heap_free P w)) () s)"
  have init: "?ok (P_user (Some a))" using dev P by (simp add: sd_state_ok_def B)
  have k1: "\<forall>s. ?ok s \<longrightarrow> ?ok (snd (sd_on_world (calloc_ok P) False s))
      \<and> sd_disk contents (snd (sd_on_world (calloc_ok P) False s)) = sd_disk contents s"
    using sd_on_world_spec [of contents "unat (sd_ph_bsize a)" drv _ "calloc_ok P" False]
    by (simp add: platform_keeps_def)
  have k2: "\<forall>s. ?ok s \<longrightarrow> ?ok (?free s) \<and> sd_disk contents (?free s) = sd_disk contents s"
    using sd_on_world_spec [of contents "unat (sd_ph_bsize a)" drv _ "\<lambda>w. ((), heap_free P w)" "()"]
    by (simp add: platform_keeps_def)
  obtain bdev where f: "lwext4_port_format_blockdev K (sd_on_world (calloc_ok P) False) ?free mkfs
      (Some (sdmmc_iface drv P a)) (Some cfg) c (P_user (Some a)) = Some (e, bdev, c')"
    "ad = adapter_from_bdev bdev"
    using run True
    by (auto simp: lwext4_port_sdmmc_format_def lwext4_port_sdmmc_get_def split: option.splits)
  note s = sd_fmt.format_spec [OF init k1 k2 mkfs f(1)]
  then obtain a' where a': "bdev = P_user (Some a')" "sd_dev contents B drv a'"
    unfolding B by (blast elim: sd_state_okE)
  have "\<exists>info w0 w. format_checks K (format_info (sd_part_size a) cfg) = Inr info
         \<and> sd_disk contents (inner_state w0) = contents (sd_world a)
         \<and> mkfs info (format_feature_set K (fc_feature_set cfg)) w0 = Some (EOK, w)
         \<and> sd_disk contents (inner_state w) = contents (sd_world a')" if e: "e = ESP_OK"
  proof -
    from s e obtain info s2 w where
      "format_checks K (format_info (bd_part_size (sdmmc_iface drv P a)) cfg) = Inr info"
      "sd_disk contents s2 = sd_disk contents (P_user (Some a))"
      "mkfs info (format_feature_set K (fc_feature_set cfg))
        (format_wrapper_init (sdmmc_iface drv P a) s2 (fc_progress cfg) c) = Some (EOK, w)"
      "sd_disk contents bdev = sd_disk contents (inner_state w)"
      by blast
    then show ?thesis
      by (intro exI [of _ info] exI [of _ "format_wrapper_init (sdmmc_iface drv P a) s2 (fc_progress cfg) c"] exI [of _ w])
        (simp add: sdmmc_iface_def sd_disk_def format_wrapper_init_def a'(1))
  qed
  moreover have "contents (sd_world a') = contents (sd_world a)" if "e \<noteq> ESP_OK \<and> e \<noteq> ESP_FAIL"
    using s that a'(1) by (simp add: sd_disk_def)
  ultimately show ?thesis using a' f(2) by auto
qed

end
