(* ===== verification/Port_Examples.thy ===== *)
theory Port_Examples
  imports Port_Bdl_Correct Port_Sdmmc_Correct
begin

text \<open>
  A small world for the witnesses of the adapters' properties: a disk of 16 bytes in blocks
  of 4 with a transfer buffer of two blocks, and a counter of live resources; a formatter, and a
  device that only counts for the progress reports.
\<close>

type_synonym mini = "bytes \<times> int"

definition mini_platform :: "mini platform" where
  "mini_platform =
     \<lparr>xSemaphoreTakeRecursive = (\<lambda>w. (True, w)), xSemaphoreGiveRecursive = (\<lambda>w. (True, w)),
      xSemaphoreCreateRecursiveMutex = (\<lambda>(d, n). (True, (d, n + 1))),
      vSemaphoreDelete = (\<lambda>(d, n). (d, n - 1)), calloc_ok = (\<lambda>(d, n). (True, (d, n + 1))),
      heap_free = (\<lambda>(d, n). (d, n - 1)),
      heap_caps_aligned_alloc = (\<lambda>al size caps (d, n). (Some (replicate (unat size) 0), (d, n + 1))),
      heap_caps_free = (\<lambda>tb (d, n). (d, n - (if tb = None then 0 else 1))), malloc_cap_8bit = 4\<rparr>"

lemma mini_counts: "counts snd mini_platform"
  by (auto simp: counts_def mini_platform_def)

lemma mini_keeps: "platform_keeps fst mini_platform"
  by (auto simp: platform_keeps_def mini_platform_def)

lemma mini_sized: "alloc_sized mini_platform"
  by (auto simp: alloc_sized_def mini_platform_def)

definition mini_disk :: bytes where
  "mini_disk = [0, 1, 2, 3, 4, 5, 6, 7, 8, 9, 10, 11, 12, 13, 14, 15]"

section \<open>A BDL adapter\<close>

definition mini_read :: "bytes \<Rightarrow> u64 \<Rightarrow> u32 \<Rightarrow> mini \<Rightarrow> esp_err \<times> bytes \<times> mini" where
  "mini_read tb addr n w = (ESP_OK, mem_write 0 (mem_read (unat addr) (unat n) (fst w)) tb, w)"

definition mini_write :: "bytes \<Rightarrow> u64 \<Rightarrow> u32 \<Rightarrow> mini \<Rightarrow> esp_err \<times> mini" where
  "mini_write tb addr n w = (ESP_OK, (mem_write (unat addr) (mem_read 0 (unat n) tb) (fst w), snd w))"

definition mini_ops :: "mini blockdev_ops" where
  "mini_ops = \<lparr>ops_read = Some mini_read, ops_write = Some mini_write, ops_sync = Some (\<lambda>w. (ESP_OK, w))\<rparr>"

definition mini_lower :: "mini esp_blockdev" where
  "mini_lower = \<lparr>dev_ops = Some mini_ops, disk_size = 16, read_size = 1, write_size = 1, dev_read_only = False\<rparr>"

definition mini_config :: bdl_config where
  "mini_config = \<lparr>physical_block_size = 4, buffer_caps = 4, buffer_alignment = 4,
     cfg_transfer_buffer_blocks = 2, cfg_read_only = False, cfg_sync_after_write = True,
     lower_device_supports_rewrite = True\<rparr>"

definition mini_adapter :: "mini lwext4_port_bdl" where
  "mini_adapter = \<lparr>lower = Some mini_lower, lock = True, transfer_buffer = replicate 8 0,
     transfer_buffer_size = 8, transfer_buffer_blocks = 2, last_lower_error = ESP_OK,
     bdl_read_only = False, sync_after_write = True, ph_bsize = 4, ph_bcnt = 4, ph_refctr = 0,
     part_offset = 0, part_size = 16, world = (mini_disk, 3)\<rparr>"

lemma mini_worlds [simp]: "fst (world mini_adapter) = mini_disk"
  by (simp add: mini_adapter_def)

lemma mini_create:
  "lwext4_port_bdl_create mini_platform (Some mini_lower) (Some mini_config) True (mini_disk, 0)
    = (ESP_OK, Some mini_adapter, (mini_disk, 3))"
  by (simp add: lwext4_port_bdl_create_def bdl_validate_create_args_def mini_lower_def mini_config_def
      mini_ops_def mini_platform_def mini_adapter_def is_power_of_two_def bdl_buffer_blocks_def Let_def)

lemma mini_lower_ok: "lower_ok fst mini_lower"
  by (auto simp: lower_ok_def mini_lower_def mini_ops_def read_ok_def write_ok_def mini_read_def
      mini_write_def mem_simps length_mem_read intro!: same_outside_write)

lemma mini_bdl_ok: "bdl_ok mini_adapter"
  using bdl_create_ok [OF mini_create mini_sized] by simp

lemma mini_bdl_dev: "bdl_dev fst 4 mini_adapter"
  using mini_bdl_ok mini_lower_ok by (simp add: bdl_dev_def mini_adapter_def mini_lower_def mini_disk_def)

lemmas mini_run_simps = mini_adapter_def mini_lower_def mini_ops_def mini_read_def mini_write_def
  valid_lower_handle_def bdl_validate_io_range_def save_lower_result_def Let_def mem_read_def
  mem_write_def mini_disk_def word_le_nat_alt

lemma mini_bytes_8: "replicate 8 x = [x, x, x, x, x, x, x, x]"
  by (simp add: numeral_eq_Suc)

lemma mini_read_run:
  "bdl_read (Caller_buffer [0, 0, 0, 0, 0, 0, 0, 0, 0, 0, 0, 0]) 1 3 (P_user (Some mini_adapter))
    = Some (EOK, Caller_buffer [4, 5, 6, 7, 8, 9, 10, 11, 12, 13, 14, 15],
        P_user (Some (mini_adapter\<lparr>transfer_buffer := [12, 13, 14, 15, 8, 9, 10, 11]\<rparr>)))"
  by (simp add: bdl_read_def bdl_read_loop.simps bdl_read_chunk_def mini_run_simps mini_bytes_8)

lemma mini_write_run:
  "bdl_write (Caller_buffer [9, 9, 9, 9, 9, 9, 9, 9, 9, 9, 9, 9]) 1 3 (P_user (Some mini_adapter))
    = Some (EOK, P_user (Some (mini_adapter\<lparr>transfer_buffer := [9, 9, 9, 9, 9, 9, 9, 9],
        world := ([0, 1, 2, 3, 9, 9, 9, 9, 9, 9, 9, 9, 9, 9, 9, 9], 3)\<rparr>)))"
  by (simp add: bdl_write_def bdl_write_loop.simps bdl_write_chunk_def sync_lower_def mini_run_simps mini_bytes_8)

definition mini_written :: "mini lwext4_port_bdl" where
  "mini_written = mini_adapter\<lparr>transfer_buffer := [7, 7, 7, 7, 0, 0, 0, 0],
     world := ([0, 1, 2, 3, 4, 5, 6, 7, 7, 7, 7, 7, 12, 13, 14, 15], 3)\<rparr>"

lemma mini_written_run:
  "bdl_write (Caller_buffer [7, 7, 7, 7]) 2 1 (P_user (Some mini_adapter)) = Some (EOK, P_user (Some mini_written))"
  by (simp add: bdl_write_def bdl_write_loop.simps bdl_write_chunk_def sync_lower_def mini_run_simps mini_bytes_8
      mini_written_def)

lemma mini_written_read:
  "bdl_read (Caller_buffer [0, 0, 0, 0]) 2 1 (P_user (Some mini_written))
    = Some (EOK, Caller_buffer [7, 7, 7, 7], P_user (Some mini_written))"
  by (simp add: bdl_read_def bdl_read_loop.simps bdl_read_chunk_def mini_run_simps mini_bytes_8 mini_written_def)

section \<open>An SDMMC adapter\<close>

definition mini_driver :: "mini sdmmc_driver" where
  "mini_driver =
     \<lparr>sdmmc_read_sectors = (\<lambda>tb s n w. (ESP_OK, mem_write 0 (mem_read (unat s * 4) (unat n * 4) (fst w)) tb, w)),
      sdmmc_write_sectors = (\<lambda>tb s n w.
        (ESP_OK, (mem_write (unat s * 4) (mem_read 0 (unat n * 4) tb) (fst w), snd w)))\<rparr>"

definition mini_card :: sdmmc_card where
  "mini_card = \<lparr>sector_size = 4, capacity = 4\<rparr>"

definition mini_sd_config :: sdmmc_config where
  "mini_sd_config = \<lparr>sd_physical_block_size = 4, sd_buffer_caps = 4, sd_buffer_alignment = 4,
     sd_cfg_transfer_buffer_blocks = 2\<rparr>"

definition mini_sd :: "mini lwext4_port_sdmmc" where
  "mini_sd = \<lparr>sd_card = Some mini_card, sd_lock = True, sd_transfer_buffer = replicate 8 0,
     sd_transfer_buffer_size = 8, sd_transfer_buffer_blocks = 2, sd_ph_bsize = 4, sd_ph_bcnt = 4,
     sd_ph_refctr = 0, sd_part_offset = 0, sd_part_size = 16, sd_world = (mini_disk, 3)\<rparr>"

lemma mini_sd_worlds [simp]: "fst (sd_world mini_sd) = mini_disk"
  by (simp add: mini_sd_def)

lemma mini_sd_create:
  "lwext4_port_sdmmc_create mini_platform (Some mini_card) (Some mini_sd_config) True (mini_disk, 0)
    = (ESP_OK, Some mini_sd, (mini_disk, 3))"
  by (simp add: lwext4_port_sdmmc_create_def sdmmc_validate_create_args_def mini_card_def mini_sd_config_def
      mini_platform_def mini_sd_def is_power_of_two_def sdmmc_buffer_blocks_def device_size_def
      int_to_u64_def Let_def)

lemma mini_driver_ok: "driver_ok fst 4 mini_driver"
  by (auto simp: driver_ok_def mini_driver_def sectors_read_ok_def sectors_write_ok_def mem_simps
      length_mem_read intro!: same_outside_write)

lemma mini_sd_ok: "sd_ok mini_sd"
  using sdmmc_create_ok [OF mini_sd_create mini_sized] by (simp add: mini_card_def)

lemma mini_sd_dev: "sd_dev fst 4 mini_driver mini_sd"
  using mini_sd_ok mini_driver_ok by (simp add: sd_dev_def mini_sd_def mini_disk_def)

lemmas mini_sd_simps = mini_sd_def mini_card_def mini_driver_def valid_card_def sdmmc_validate_io_range_def
  int_to_u64_def Let_def mem_read_def mem_write_def mini_disk_def word_le_nat_alt

lemma mini_sd_read_run:
  "sdmmc_read mini_driver (Caller_buffer [0, 0, 0, 0, 0, 0, 0, 0, 0, 0, 0, 0]) 1 3 (P_user (Some mini_sd))
    = Some (EOK, Caller_buffer [4, 5, 6, 7, 8, 9, 10, 11, 12, 13, 14, 15],
        P_user (Some (mini_sd\<lparr>sd_transfer_buffer := [12, 13, 14, 15, 8, 9, 10, 11]\<rparr>)))"
  by (simp add: sdmmc_read_def sdmmc_read_loop.simps sdmmc_read_chunk_def mini_sd_simps mini_bytes_8)

section \<open>A formatter\<close>

text \<open>A stand-in for ext4_mkfs that writes the first block.\<close>

definition mini_mkfs ::
  "mkfs_info \<Rightarrow> u32 \<Rightarrow> ('s, 'c) format_wrapper \<Rightarrow> (errno \<times> ('s, 'c) format_wrapper) option" where
  "mini_mkfs info fs w =
     (case format_wrapper_write (Caller_buffer (replicate (unat (wr_ph_bsize w)) 255)) 0 1 (P_user (Some w)) of
        Some (r, P_user (Some w')) \<Rightarrow> Some (r, w') | _ \<Rightarrow> None)"

lemma mini_mkfs_uses_device: "uses_device mini_mkfs"
  unfolding uses_device_def
proof (intro allI impI)
  fix info fs and w w' :: "('s, 'c) format_wrapper" and r
  assume "mini_mkfs info fs w = Some (r, w')"
  then have st: "format_wrapper_write (Caller_buffer (replicate (unat (wr_ph_bsize w)) 255)) 0 1 (P_user (Some w))
      = Some (r, P_user (Some w'))"
    by (auto simp: mini_mkfs_def split: option.splits bdev_ref.splits)
  have "request_ok w (Caller_buffer (replicate (unat (wr_ph_bsize w)) 255)) 1"
    by (simp add: request_ok_def)
  with st show "wrapper_step\<^sup>*\<^sup>* w w'" by (intro r_into_rtranclp step_write)
qed

definition mini_port :: port_config where
  "mini_port = \<lparr>extents_enable = True, round_to_full_groups = False, feature_set_ext4 = True,
     feature_set_ext3 = False, f_set_ext2 = 2, f_set_ext3 = 3, f_set_ext4 = 4, ext4_max_block_size = 65536\<rparr>"

definition mini_format :: "(u64 \<times> u64) list format_config" where
  "mini_format = \<lparr>fc_block_size = 1024, fc_inode_size = 256, fc_inodes = 0, fc_journal_blocks = 0,
     fc_journal = False, fc_label = None, fc_feature_set = 0, fc_progress = Some log_progress\<rparr>"

section \<open>A device that only counts\<close>

text \<open>
  Blocks of one byte on a device that accepts everything, and the states of the format wrapper
  on it after a write of 3000 blocks, a read of 2000 blocks (which is reported, since 5000
  blocks are then unreported) and a write of 10 blocks (which is not).
\<close>

definition idle_iface :: "unit bdev_iface" where
  "idle_iface = \<lparr>if_open = (\<lambda>s. (EOK, s)), if_bread = (\<lambda>buf b n s. Some (EOK, buf, s)),
     if_bwrite = (\<lambda>buf b n s. Some (EOK, s)), if_close = (\<lambda>s. (EOK, s)), if_lock = None, if_unlock = None,
     if_ph_bsize = 1, if_ph_bcnt = 8192, bd_part_offset = 0, bd_part_size = 8192\<rparr>"

definition idle_wrapper :: "u32 \<Rightarrow> u64 \<Rightarrow> u64 \<Rightarrow> (u64 \<times> u64) list \<Rightarrow> (unit, (u64 \<times> u64) list) format_wrapper" where
  "idle_wrapper unreported r w reports = (format_wrapper_init idle_iface () (Some log_progress) [])
     \<lparr>blocks_since_progress := unreported, blocks_read := r, blocks_written := w, caller := reports\<rparr>"

lemmas idle_simps = idle_wrapper_def idle_iface_def format_wrapper_init_def call_opt_def Let_def
  format_wrapper_account_def format_wrapper_report_def log_progress_def request_ok_def

lemma idle_run:
  "wrapper_step\<^sup>*\<^sup>* (format_wrapper_init idle_iface () (Some log_progress) []) (idle_wrapper 10 2000 3010 [(2000, 3000)])"
proof -
  have s1: "wrapper_step (format_wrapper_init idle_iface () (Some log_progress) []) (idle_wrapper 3000 0 3000 [])"
    by (rule step_write [where buf = "Caller_buffer (replicate 3000 0)" and b = 0 and n = 3000 and rc = EOK])
      (simp_all add: format_wrapper_write_def idle_simps)
  have s2: "wrapper_step (idle_wrapper 3000 0 3000 []) (idle_wrapper 0 2000 3000 [(2000, 3000)])"
    by (rule step_read [where buf = "Caller_buffer (replicate 2000 0)" and buf' = "Caller_buffer (replicate 2000 0)"
        and b = 0 and n = 2000 and rc = EOK])
      (simp_all add: format_wrapper_read_def idle_simps)
  have s3: "wrapper_step (idle_wrapper 0 2000 3000 [(2000, 3000)]) (idle_wrapper 10 2000 3010 [(2000, 3000)])"
    by (rule step_write [where buf = "Caller_buffer (replicate 10 0)" and b = 3000 and n = 10 and rc = EOK])
      (simp_all add: format_wrapper_write_def idle_simps)
  show ?thesis
    by (intro converse_rtranclp_into_rtranclp [where r = wrapper_step, OF s1]
        converse_rtranclp_into_rtranclp [where r = wrapper_step, OF s2] r_into_rtranclp [where r = wrapper_step, OF s3])
qed

end
