(* ===== verification/Port_Properties.thy ===== *)
theory Port_Properties
  imports Port_Examples
begin

text \<open>
  The properties of the two block-device adapters and of the format helper, each with a
  witness on the small device of Port_Examples.
\<close>

section \<open>The BDL adapter\<close>

text \<open>C9: A read through the BDL adapter, in chunks of its transfer buffer, returns exactly the
  named blocks of the lower device, in the caller's memory (the rest of it untouched) or in
  the transfer buffer itself; the device is unchanged; a request outside the device is
  refused with EINVAL, and any other error is the translation of the one the adapter
  remembers from the lower device.\<close>

theorem bdl_read_correct:
  assumes "bdl_dev contents B a" "buf \<noteq> Null_buffer"
    "unat n * B \<le> length (buffer_bytes buf (transfer_buffer a))"
  shows "\<exists>r buf' a'. bdl_read buf b n (P_user (Some a)) = Some (r, buf', P_user (Some a'))
    \<and> bdl_dev contents B a' \<and> contents (world a') = contents (world a)
    \<and> (if r = EOK then
         buf' = read_into buf (mem_read (unat b * B) (unat n * B) (contents (world a)))
         \<and> mem_read 0 (unat n * B) (buffer_bytes buf' (transfer_buffer a'))
           = mem_read (unat b * B) (unat n * B) (contents (world a))
       else (r = EINVAL \<and> unat (ph_bcnt a) < unat b + unat n \<and> a' = a) \<or> (r = EOVERFLOW \<and> a' = a)
         \<or> r = esp_error_to_lwext4 (last_lower_error a'))"
proof -
  have v: "r = EINVAL \<and> unat (ph_bcnt a) < unat b + unat n \<or> r = EOVERFLOW"
    if "bdl_validate_io_range a b n = Inl r" for r
    using that bdl_validate_error(3) [OF that]
    by (auto simp: bdl_validate_io_range_def Let_def split: if_splits)
  from bdl_read_spec [OF assms, of b] bdl_dev_frame [OF assms(1)] v show ?thesis
    by (metis (no_types, lifting))
qed

lemma bdl_read_correct_witness:
  "\<exists>a'. bdl_read (Caller_buffer [0, 0, 0, 0, 0, 0, 0, 0, 0, 0, 0, 0]) 1 3 (P_user (Some mini_adapter))
      = Some (EOK, Caller_buffer [4, 5, 6, 7, 8, 9, 10, 11, 12, 13, 14, 15], P_user (Some a'))
    \<and> bdl_dev fst 4 a' \<and> fst (world a') = mini_disk"
  using bdl_read_correct [OF mini_bdl_dev, of "Caller_buffer [0, 0, 0, 0, 0, 0, 0, 0, 0, 0, 0, 0]" 3 1]
  by (auto simp: mini_read_run)

text \<open>C8: A write through the BDL adapter replaces exactly the named blocks of the lower device
  when it reports EOK, and with sync_after_write the last thing it did is then a sync of the
  lower device that succeeded; when it fails only bytes inside the named blocks may differ,
  and the error is explained by a read-only adapter, a request outside the device, or the
  remembered error of the lower device.\<close>

theorem bdl_write_correct:
  assumes "bdl_dev contents B a" "buf \<noteq> Null_buffer"
    "unat n * B \<le> length (buffer_bytes buf (transfer_buffer a))"
  shows "\<exists>r a'. bdl_write buf b n (P_user (Some a)) = Some (r, P_user (Some a'))
    \<and> bdl_dev contents B a'
    \<and> same_outside (unat b * B) (unat n * B) (contents (world a)) (contents (world a'))
    \<and> (if r = EOK then \<not> bdl_read_only a
         \<and> contents (world a') = mem_write (unat b * B)
             (mem_read 0 (unat n * B) (buffer_bytes buf (transfer_buffer a))) (contents (world a))
         \<and> (n \<noteq> 0 \<and> sync_after_write a \<longrightarrow> (\<exists>a1. sync_lower a1 = (ESP_OK, a')))
       else bdl_read_only a \<and> r = EROFS \<and> a' = a \<or> bdl_validate_io_range a b n = Inl r \<and> a' = a
         \<or> r = esp_error_to_lwext4 (last_lower_error a'))"
proof -
  have d: "bdl_dev contents B a'"
    if "bdl_frame a a'" "same_outside x y (contents (world a)) (contents (world a'))" for a' x y
    using bdl_dev_frame [OF assms(1) that(1)] that(2) by (simp add: same_outside_def)
  obtain r a' where w: "bdl_write buf b n (P_user (Some a)) = Some (r, P_user (Some a'))" "bdl_frame a a'"
    and so: "same_outside (unat b * B) (unat n * B) (contents (world a)) (contents (world a'))"
    and res: "if r = EOK then \<not> bdl_read_only a
         \<and> contents (world a') = mem_write (unat b * B)
             (mem_read 0 (unat n * B) (buffer_bytes buf (transfer_buffer a))) (contents (world a))
         \<and> (n \<noteq> 0 \<longrightarrow> (unat b + unat n) * B \<le> length (contents (world a)))
       else bdl_read_only a \<and> r = EROFS \<and> a' = a \<or> bdl_validate_io_range a b n = Inl r \<and> a' = a
         \<or> r = esp_error_to_lwext4 (last_lower_error a')"
    using bdl_write_spec [OF assms, of b] by blast
  have "\<exists>a1. sync_lower a1 = (ESP_OK, a')" if "r = EOK" "n \<noteq> 0" "sync_after_write a"
    using bdl_write_synced [of buf b n a a'] w that bdl_frame_sync [OF w(2)] by simp
  with w(1) so res d [OF w(2) so] show ?thesis
    by (intro exI [of _ r] exI [of _ a']) (auto split: if_splits)
qed

lemma bdl_write_correct_witness:
  "\<exists>a'. bdl_write (Caller_buffer [9, 9, 9, 9, 9, 9, 9, 9, 9, 9, 9, 9]) 1 3 (P_user (Some mini_adapter))
      = Some (EOK, P_user (Some a'))
    \<and> bdl_dev fst 4 a' \<and> same_outside 4 12 mini_disk (fst (world a'))
    \<and> fst (world a') = [0, 1, 2, 3, 9, 9, 9, 9, 9, 9, 9, 9, 9, 9, 9, 9]"
  using bdl_write_correct [OF mini_bdl_dev, of "Caller_buffer [9, 9, 9, 9, 9, 9, 9, 9, 9, 9, 9, 9]" 3 1]
  by (simp add: mini_write_run mem_write_def mem_read_def mini_disk_def)

text \<open>C18: What was written through the adapter is what a later read returns, and reads of other
  blocks do not see the write, even one that failed half way.\<close>

theorem bdl_write_then_read:
  assumes "bdl_state_ok contents B s" "unat n * B \<le> length d" "unat n * B \<le> length e" "n \<noteq> 0"
    and "bdl_write (Caller_buffer d) b n s = Some (r, s1)"
    and "bdl_read (Caller_buffer e) c n s1 = Some (EOK, buf, s2)"
  shows "(r = EOK \<and> c = b \<longrightarrow> buf = Caller_buffer (mem_write 0 (mem_read 0 (unat n * B) d) e))
    \<and> (unat c + unat n \<le> unat b \<or> unat b + unat n \<le> unat c \<longrightarrow>
        buf = Caller_buffer (mem_write 0 (mem_read (unat c * B) (unat n * B) (bdl_disk contents s)) e))"
  using bdl.write_read [OF assms(1-4)] bdl.write_elsewhere [OF assms(1,2,3,4,5,6)] assms(5,6) by blast

lemma bdl_write_then_read_witness:
  "\<exists>s1 s2. bdl_write (Caller_buffer [7, 7, 7, 7]) 2 1 (P_user (Some mini_adapter)) = Some (EOK, s1)
    \<and> bdl_read (Caller_buffer [0, 0, 0, 0]) 2 1 s1 = Some (EOK, Caller_buffer [7, 7, 7, 7], s2)
    \<and> Caller_buffer [7, 7, 7, 7] = Caller_buffer (mem_write 0 (mem_read 0 4 [7, 7, 7, 7]) [0, 0, 0, 0])"
proof -
  have s: "bdl_state_ok fst 4 (P_user (Some mini_adapter))" using mini_bdl_dev by (simp add: bdl_state_ok_def)
  from bdl_write_then_read [OF s _ _ _ mini_written_run mini_written_read] mini_written_run mini_written_read
  show ?thesis by auto
qed

text \<open>C29: Transfers end whatever the lower device does: with the invariant that creation
  establishes (a transfer buffer of at least one block whose size fits 32 bits), bdl_read and
  bdl_write return for every request, even when the device misbehaves.\<close>

theorem bdl_transfers_return:
  assumes "bdl_ok a"
  shows "bdl_read buf b n (P_user (Some a)) \<noteq> None \<and> bdl_write buf b n (P_user (Some a)) \<noteq> None"
  using bdl_read_returns [OF assms, of buf b n] bdl_write_returns [OF assms, of buf b n] by auto

lemma bdl_transfers_return_witness:
  "bdl_read Transfer_buffer 0 2 (P_user (Some mini_adapter)) \<noteq> None
    \<and> bdl_write Transfer_buffer 0 2 (P_user (Some mini_adapter)) \<noteq> None"
  by (rule bdl_transfers_return [OF mini_bdl_ok])

text \<open>When the lower device reports no error, every read that lies inside the device, and
  whose size fits size_t, reports EOK.\<close>

theorem bdl_reads_in_range_succeed:
  assumes "bdl_ok a" "buf \<noteq> Null_buffer" "buf = Transfer_buffer \<longrightarrow> n \<le> transfer_buffer_blocks a"
    and "unat b + unat n \<le> unat (ph_bcnt a)" "n \<le> SIZE_MAX div ph_bsize a"
    and "\<forall>rd tb p m w. ops_read (lower_ops a) = Some rd \<longrightarrow> fst (rd tb p m w) = ESP_OK"
  shows "\<exists>buf' bdev'. bdl_read buf b n (P_user (Some a)) = Some (EOK, buf', bdev')"
  by (rule bdl_read_succeeds) (use assms in auto)

lemma bdl_reads_in_range_succeed_witness:
  "\<exists>buf' bdev'. bdl_read (Caller_buffer (replicate 12 0)) 1 3 (P_user (Some mini_adapter)) = Some (EOK, buf', bdev')"
  by (rule bdl_reads_in_range_succeed [OF mini_bdl_ok])
    (simp_all add: mini_adapter_def mini_lower_def mini_ops_def mini_read_def word_le_nat_alt unat_div)

text \<open>C26: A successful lwext4_port_bdl_create establishes the adapter's invariant over the given
  device: block count times block size is the device size, the transfer buffer holds a
  positive number of blocks, and every callback the adapter will need exists.\<close>

theorem bdl_create_establishes:
  assumes "lwext4_port_bdl_create P l config out w = (ESP_OK, adapter, w')" "alloc_sized P"
  shows "\<exists>a. adapter = Some a \<and> bdl_ok a \<and> lower a = l \<and> world a = w' \<and> ph_refctr a = 0
    \<and> last_lower_error a = ESP_OK \<and> bdl_read_only a = cfg_read_only (the config)"
  by (rule bdl_create_ok [OF assms])

lemma bdl_create_establishes_witness:
  "bdl_ok mini_adapter \<and> ph_refctr mini_adapter = 0"
  using bdl_create_establishes [OF mini_create mini_sized] by simp

text \<open>C25: Neither creation nor destruction leaks: creation leaves three more resources (adapter,
  buffer, mutex) when it returns an adapter and none otherwise; destruction gives back the
  three when it succeeds, and only when no file system holds the device, and keeps the
  adapter and its resources when it reports an error.\<close>

theorem bdl_resources_balance:
  assumes "counts live P" "bdl_dev contents B a"
    and "\<forall>w f. ops_sync (lower_ops a) = Some f \<longrightarrow> live (snd (f w)) = live w"
  shows "(case lwext4_port_bdl_create P l config out w of
        (_, ad, w') \<Rightarrow> live w' = live w + (if ad = None then 0 else 3))
    \<and> (case lwext4_port_bdl_destroy P (Some a) of
        (r, Inr w) \<Rightarrow> r = ESP_OK \<and> ph_refctr a = 0 \<and> live w = live (world a) - 3
      | (r, Inl ad) \<Rightarrow> r \<noteq> ESP_OK \<and> (\<exists>a'. ad = Some a' \<and> bdl_frame a a' \<and> live (world a') = live (world a)))"
  using bdl_create_balance [OF assms(1), of l config out w] bdl_destroy_balance [OF assms(1,2)] assms(3)
  by (auto split: prod.splits)

lemma bdl_resources_balance_witness:
  "snd (snd (snd (lwext4_port_bdl_create mini_platform (Some mini_lower) (Some mini_config) True (mini_disk, 0)))) = 3"
proof -
  have sy: "\<forall>w f. ops_sync (lower_ops mini_adapter) = Some f \<longrightarrow> snd (snd (f w)) = snd w"
    by (simp add: mini_adapter_def mini_lower_def mini_ops_def)
  from bdl_resources_balance [OF mini_counts mini_bdl_dev sy,
      where l = "Some mini_lower" and config = "Some mini_config" and out = True and w = "(mini_disk, 0)"]
  show ?thesis by (simp add: mini_create)
qed

text \<open>C35: lwext4_port_bdl_format keeps the adapter's invariant; when a check fails it returns that
  error and leaves the adapter and the device alone; when it reports ESP_OK then the checks
  passed, ext4_mkfs succeeded on the wrapper device starting from the present contents, and
  the device holds what ext4_mkfs left.\<close>

theorem bdl_format_correct:
  assumes "bdl_dev contents B a" "platform_keeps contents P" "uses_device mkfs"
    and "lwext4_port_bdl_format K P mkfs (Some a) (Some cfg) c = Some (e, ad, c')"
  shows "\<exists>a'. ad = Some a' \<and> bdl_dev contents B a'
    \<and> (bdl_validate_format_args K (Some a) (Some cfg) \<noteq> ESP_OK \<longrightarrow>
         a' = a \<and> e = bdl_validate_format_args K (Some a) (Some cfg))
    \<and> (e = ESP_OK \<longrightarrow> mkfs_ran K mkfs contents (part_size a) cfg (contents (world a)) (contents (world a')))"
  by (rule bdl_format_spec [OF assms])

lemma bdl_format_correct_witness:
  "\<exists>e ad c'. lwext4_port_bdl_format mini_port mini_platform mini_mkfs (Some mini_adapter) (Some mini_format) []
      = Some (e, ad, c') \<and> (\<exists>a'. ad = Some a' \<and> bdl_dev fst 4 a')"
proof -
  have "bdl_validate_format_args mini_port (Some mini_adapter) (Some mini_format) = ESP_ERR_INVALID_SIZE"
    by (simp add: bdl_validate_format_args_def valid_lower_handle_def mini_adapter_def mini_lower_def
        mini_ops_def mini_format_def feature_set_known_def mini_port_def is_power_of_two_def Let_def)
  then have "lwext4_port_bdl_format mini_port mini_platform mini_mkfs (Some mini_adapter) (Some mini_format) []
      = Some (ESP_ERR_INVALID_SIZE, Some mini_adapter, [])"
    by (simp add: lwext4_port_bdl_format_def)
  with bdl_format_correct [OF mini_bdl_dev mini_keeps mini_mkfs_uses_device this] show ?thesis by blast
qed

text \<open>A read-only adapter changes nothing, with any lower device: every write, including an
  empty one, is refused (EROFS, or EINVAL for a NULL buffer) and formatting is refused, both
  with the adapter and the device exactly as they were.\<close>

theorem bdl_read_only_refuses:
  assumes "bdl_read_only a" "valid_lower_handle (Some a)"
  shows "bdl_write buf b n (P_user (Some a))
      = Some (if buf = Null_buffer then EINVAL else EROFS, P_user (Some a))
    \<and> (\<exists>e. e \<noteq> ESP_OK \<and> lwext4_port_bdl_format K P mkfs (Some a) cfg c = Some (e, Some a, c))"
  using assms
  by (auto simp: bdl_write_def lwext4_port_bdl_format_def bdl_validate_format_args_def Let_def)

lemma bdl_read_only_refuses_witness:
  "bdl_write (Caller_buffer [1, 2, 3, 4]) 0 1 (P_user (Some (mini_adapter\<lparr>bdl_read_only := True\<rparr>)))
    = Some (EROFS, P_user (Some (mini_adapter\<lparr>bdl_read_only := True\<rparr>)))"
proof -
  have "bdl_read_only (mini_adapter\<lparr>bdl_read_only := True\<rparr>)"
    "valid_lower_handle (Some (mini_adapter\<lparr>bdl_read_only := True\<rparr>))"
    by (simp_all add: valid_lower_handle_def mini_adapter_def mini_lower_def)
  from bdl_read_only_refuses [OF this, of "Caller_buffer [1, 2, 3, 4]" 0 1, THEN conjunct1]
  show ?thesis by simp
qed

section \<open>The SDMMC adapter\<close>

text \<open>C17: The SDMMC adapter refines the same flat device: its reads return exactly the named
  sectors of the card, its writes replace exactly them, and on an error of a write only
  those may have changed; the sector numbers handed to the driver never wrap.\<close>

theorem sdmmc_transfers_correct:
  assumes "sd_dev contents B drv a" "buf \<noteq> Null_buffer"
    "unat n * B \<le> length (buffer_bytes buf (sd_transfer_buffer a))"
  shows "(\<exists>r buf' a'. sdmmc_read drv buf b n (P_user (Some a)) = Some (r, buf', P_user (Some a'))
      \<and> sd_dev contents B drv a' \<and> contents (sd_world a') = contents (sd_world a)
      \<and> (r = EOK \<longrightarrow> buf' = read_into buf (mem_read (unat b * B) (unat n * B) (contents (sd_world a)))
         \<and> mem_read 0 (unat n * B) (buffer_bytes buf' (sd_transfer_buffer a'))
           = mem_read (unat b * B) (unat n * B) (contents (sd_world a))))
    \<and> (\<exists>r a'. sdmmc_write drv buf b n (P_user (Some a)) = Some (r, P_user (Some a'))
      \<and> sd_dev contents B drv a'
      \<and> same_outside (unat b * B) (unat n * B) (contents (sd_world a)) (contents (sd_world a'))
      \<and> (r = EOK \<longrightarrow> contents (sd_world a') = mem_write (unat b * B)
           (mem_read 0 (unat n * B) (buffer_bytes buf (sd_transfer_buffer a))) (contents (sd_world a))))"
proof -
  have d: "sd_dev contents B drv a'"
    if "sd_frame a a'" "same_outside x y (contents (sd_world a)) (contents (sd_world a'))" for a' x y
    using sd_dev_frame [OF assms(1) that(1)] that(2) by (simp add: same_outside_def)
  from sdmmc_read_spec [OF assms, of b] sdmmc_write_spec [OF assms, of b] d sd_dev_frame [OF assms(1)]
  show ?thesis by (intro conjI) (metis (no_types, lifting))+
qed

lemma sdmmc_transfers_correct_witness:
  "\<exists>a'. sdmmc_read mini_driver (Caller_buffer [0, 0, 0, 0, 0, 0, 0, 0, 0, 0, 0, 0]) 1 3 (P_user (Some mini_sd))
      = Some (EOK, Caller_buffer [4, 5, 6, 7, 8, 9, 10, 11, 12, 13, 14, 15], P_user (Some a'))
    \<and> sd_dev fst 4 mini_driver a' \<and> fst (sd_world a') = mini_disk"
  using sdmmc_transfers_correct [OF mini_sd_dev, of "Caller_buffer [0, 0, 0, 0, 0, 0, 0, 0, 0, 0, 0, 0]" 3 1]
  by (auto simp: mini_sd_read_run)

text \<open>C38: A successful lwext4_port_sdmmc_create on a card with a positive sector size establishes
  the adapter's invariant (the partition size is capacity times sector size, computed
  without overflow), and creation and destruction balance their resources.\<close>

theorem sdmmc_create_destroy:
  assumes "alloc_sized P" "counts live P" "0 < sint (sector_size (the c))"
    and "lwext4_port_sdmmc_create P c config out w = (e, adapter, w')"
  shows "(case adapter of None \<Rightarrow> e \<noteq> ESP_OK \<and> live w' = live w
    | Some a \<Rightarrow> e = ESP_OK \<and> sd_ok a \<and> sd_card a = c \<and> sd_world a = w' \<and> sd_ph_refctr a = 0
        \<and> (case lwext4_port_sdmmc_destroy P adapter of
             (r, Inr w2) \<Rightarrow> r = ESP_OK \<and> live w2 = live w
           | (r, Inl ad) \<Rightarrow> r = ESP_FAIL \<and> ad \<noteq> None))"
proof (cases "e = ESP_OK")
  case True
  from sdmmc_create_ok [OF assms(4) [unfolded True] assms(1,3)] obtain a where
    a: "adapter = Some a" "sd_ok a" "sd_card a = c" "sd_world a = w'" "sd_ph_refctr a = 0" by blast
  have l: "live w' = live w + 3" using sdmmc_create_balance [OF assms(2), of c config out w] assms(4) a(1) by simp
  have lk: "sd_lock a" using a(2) by (simp add: sd_ok_def)
  from sdmmc_destroy_balance [OF assms(2) lk] show ?thesis
    using True a l lk
    by (auto simp: lwext4_port_sdmmc_destroy_def Let_def split_beta split: sum.splits if_splits)
next
  case False
  then have "adapter = None"
    using assms(4) by (auto simp: lwext4_port_sdmmc_create_def Let_def split: if_splits prod.splits)
  then show ?thesis using False sdmmc_create_balance [OF assms(2), of c config out w] assms(4) by simp
qed

lemma sdmmc_create_destroy_witness: "sd_ok mini_sd \<and> sd_world mini_sd = (mini_disk, 3)"
  using sdmmc_create_destroy [OF mini_sized mini_counts _ mini_sd_create] by (simp add: mini_card_def)

text \<open>lwext4_port_sdmmc_format keeps the adapter's invariant, writes nothing unless it got as
  far as ext4_mkfs, and reports ESP_OK only when ext4_mkfs succeeded on the card.\<close>

theorem sdmmc_format_correct:
  assumes "sd_dev contents B drv a" "platform_keeps contents P" "uses_device mkfs"
    and "lwext4_port_sdmmc_format K drv P mkfs (Some a) (Some cfg) c = Some (e, ad, c')"
  shows "\<exists>a'. ad = Some a' \<and> sd_dev contents B drv a'
    \<and> (e \<noteq> ESP_OK \<and> e \<noteq> ESP_FAIL \<longrightarrow> contents (sd_world a') = contents (sd_world a))
    \<and> (e = ESP_OK \<longrightarrow> (\<exists>info w0 w. format_checks K (format_info (sd_part_size a) cfg) = Inr info
         \<and> sd_disk contents (inner_state w0) = contents (sd_world a)
         \<and> mkfs info (format_feature_set K (fc_feature_set cfg)) w0 = Some (EOK, w)
         \<and> sd_disk contents (inner_state w) = contents (sd_world a')))"
  by (rule sdmmc_format_spec [OF assms])

lemma sdmmc_format_correct_witness:
  "\<exists>e ad c'. lwext4_port_sdmmc_format mini_port mini_driver mini_platform mini_mkfs (Some mini_sd) (Some mini_format) []
      = Some (e, ad, c') \<and> (\<exists>a'. ad = Some a' \<and> sd_dev fst 4 mini_driver a' \<and> fst (sd_world a') = mini_disk)"
proof -
  have "sdmmc_validate_format_args mini_port (Some mini_sd) (Some mini_format) = ESP_ERR_INVALID_SIZE"
    by (simp add: sdmmc_validate_format_args_def valid_card_def mini_sd_def mini_card_def
        mini_format_def feature_set_known_def mini_port_def is_power_of_two_def Let_def)
  then have "lwext4_port_sdmmc_format mini_port mini_driver mini_platform mini_mkfs (Some mini_sd) (Some mini_format) []
      = Some (ESP_ERR_INVALID_SIZE, Some mini_sd, [])"
    by (simp add: lwext4_port_sdmmc_format_def)
  with sdmmc_format_correct [OF mini_sd_dev mini_keeps mini_mkfs_uses_device this] show ?thesis
    by (auto simp: mini_sd_def)
qed

section \<open>The format helper\<close>

text \<open>C36: With rounding enabled, the length handed to ext4_mkfs is the largest multiple of the
  group size (8 * block_size blocks of block_size bytes) that fits the device and is not
  zero; none of the products overflows, whatever the requested block size.\<close>

theorem format_rounds_to_groups:
  assumes "format_checks K info = Inr info'" "round_to_full_groups K"
  shows "\<exists>g. g = 8 * unat (mi_block_size info) * unat (mi_block_size info)
    \<and> unat (mi_blocks_per_group info') = 8 * unat (mi_block_size info)
    \<and> g dvd unat (mi_len info') \<and> 0 < unat (mi_len info')
    \<and> unat (mi_len info') \<le> unat (mi_len info) \<and> unat (mi_len info) < unat (mi_len info') + g
    \<and> mi_block_size info' = mi_block_size info"
  by (rule format_checks_len [OF assms])

lemma format_rounds_to_groups_witness:
  "\<exists>info'. format_checks (mini_port\<lparr>round_to_full_groups := True\<rparr>) (format_info 20000000 mini_format) = Inr info'
    \<and> 0 < unat (mi_len info') \<and> 8388608 dvd unat (mi_len info')"
proof -
  obtain info' where r: "format_checks (mini_port\<lparr>round_to_full_groups := True\<rparr>) (format_info 20000000 mini_format) = Inr info'"
    by (simp add: format_checks_def format_info_def mini_format_def mini_port_def is_power_of_two_def Let_def)
  from format_rounds_to_groups [OF r] r show ?thesis
    by (auto simp: mini_port_def format_info_def mini_format_def)
qed

text \<open>C37: Whatever sequence of device operations the formatter performs, the reports add up: the
  bytes of the last progress report plus those of blocks_since_progress are the bytes
  transferred so far, and fewer than 4096 blocks are unreported; the 32-bit counter never
  wraps, and the byte totals are exact modulo 2^64.\<close>

theorem progress_reports_add_up:
  assumes "wrapper_step\<^sup>*\<^sup>* (format_wrapper_init i s (Some log_progress) []) w"
  shows "unat (blocks_since_progress w) < 4096
    \<and> (blocks_read w + blocks_written w) * ucast (wr_ph_bsize w)
      = fst (last_report (caller w)) + snd (last_report (caller w))
        + ucast (blocks_since_progress w) * ucast (wr_ph_bsize w)"
  using progress_inv_steps [OF assms progress_inv_init] by (simp add: progress_inv_def word_less_nat_alt)

lemma progress_reports_add_up_witness:
  "wrapper_step\<^sup>*\<^sup>* (format_wrapper_init idle_iface () (Some log_progress) []) (idle_wrapper 10 2000 3010 [(2000, 3000)])
    \<and> unat (blocks_since_progress (idle_wrapper 10 2000 3010 [(2000, 3000)])) < 4096
    \<and> (2000 + 3010) * 1 = fst (last_report [(2000, 3000)]) + snd (last_report [(2000, 3000)]) + ucast (10 :: u32) * 1"
  using idle_run progress_reports_add_up [OF idle_run] by (simp add: idle_wrapper_def idle_iface_def format_wrapper_init_def)

end
