(* ===== verification/Port_Stubs.thy ===== *)
theory Port_Stubs
  imports Port_Device
begin

text \<open>
  The two small files that complete the port: the heap shim that gives lwext4 its memory
  (port/lwext4_port_esp_heap.c) and the attribute stubs that let the build without the
  GPL-licensed ext4_xattr.c link (port/lwext4_xattr_stub.c).
\<close>

section \<open>The heap shim\<close>

text \<open>
  ESP-IDF's capability heap: an allocation asks for memory with given capabilities, the
  \<open>prefer\<close> variants name capability sets in the order they are to be tried.  A NULL pointer
  is \<open>None\<close>.  The build selects exactly one mode.
\<close>

datatype heap_mode = USE_INTERNAL_SRAM | USE_PSRAM | USE_PREFER_PSRAM

record 'w heap_env =
  heap_caps_malloc :: "u32 \<Rightarrow> u32 \<Rightarrow> 'w \<Rightarrow> nat option \<times> 'w"
  heap_caps_calloc :: "u32 \<Rightarrow> u32 \<Rightarrow> u32 \<Rightarrow> 'w \<Rightarrow> nat option \<times> 'w"
  heap_caps_realloc :: "nat option \<Rightarrow> u32 \<Rightarrow> u32 \<Rightarrow> 'w \<Rightarrow> nat option \<times> 'w"
  heap_caps_malloc_prefer :: "u32 \<Rightarrow> u32 list \<Rightarrow> 'w \<Rightarrow> nat option \<times> 'w"
  heap_caps_calloc_prefer :: "u32 \<Rightarrow> u32 \<Rightarrow> u32 list \<Rightarrow> 'w \<Rightarrow> nat option \<times> 'w"
  heap_caps_realloc_prefer :: "nat option \<Rightarrow> u32 \<Rightarrow> u32 list \<Rightarrow> 'w \<Rightarrow> nat option \<times> 'w"
  heap_caps_free :: "nat option \<Rightarrow> 'w \<Rightarrow> 'w"
  LWEXT4_INTERNAL_CAPS :: u32
  LWEXT4_PSRAM_CAPS :: u32

definition ext4_user_malloc :: "heap_mode \<Rightarrow> 'w heap_env \<Rightarrow> u32 \<Rightarrow> 'w \<Rightarrow> nat option \<times> 'w" where
  "ext4_user_malloc mode H sz w =
     (case mode of
        USE_INTERNAL_SRAM \<Rightarrow> heap_caps_malloc H sz (LWEXT4_INTERNAL_CAPS H) w
      | USE_PSRAM \<Rightarrow> heap_caps_malloc H sz (LWEXT4_PSRAM_CAPS H) w
      | USE_PREFER_PSRAM \<Rightarrow> heap_caps_malloc_prefer H sz [LWEXT4_PSRAM_CAPS H, LWEXT4_INTERNAL_CAPS H] w)"

definition ext4_user_calloc :: "heap_mode \<Rightarrow> 'w heap_env \<Rightarrow> u32 \<Rightarrow> u32 \<Rightarrow> 'w \<Rightarrow> nat option \<times> 'w" where
  "ext4_user_calloc mode H cnt sz w =
     (case mode of
        USE_INTERNAL_SRAM \<Rightarrow> heap_caps_calloc H cnt sz (LWEXT4_INTERNAL_CAPS H) w
      | USE_PSRAM \<Rightarrow> heap_caps_calloc H cnt sz (LWEXT4_PSRAM_CAPS H) w
      | USE_PREFER_PSRAM \<Rightarrow> heap_caps_calloc_prefer H cnt sz [LWEXT4_PSRAM_CAPS H, LWEXT4_INTERNAL_CAPS H] w)"

definition ext4_user_realloc :: "heap_mode \<Rightarrow> 'w heap_env \<Rightarrow> nat option \<Rightarrow> u32 \<Rightarrow> 'w \<Rightarrow> nat option \<times> 'w" where
  "ext4_user_realloc mode H p sz w =
     (case mode of
        USE_INTERNAL_SRAM \<Rightarrow> heap_caps_realloc H p sz (LWEXT4_INTERNAL_CAPS H) w
      | USE_PSRAM \<Rightarrow> heap_caps_realloc H p sz (LWEXT4_PSRAM_CAPS H) w
      | USE_PREFER_PSRAM \<Rightarrow> heap_caps_realloc_prefer H p sz [LWEXT4_PSRAM_CAPS H, LWEXT4_INTERNAL_CAPS H] w)"

definition ext4_user_free :: "'w heap_env \<Rightarrow> nat option \<Rightarrow> 'w \<Rightarrow> 'w" where
  "ext4_user_free H p w = heap_caps_free H p w"

text \<open>
  The documented meaning of the \<open>prefer\<close> variant: the capability sets are tried in turn and
  the first block found is the answer.  With it, an allocation in the preferring mode fails
  only when both memories refuse, and uses internal memory only when PSRAM refused.
\<close>

fun try_caps :: "(u32 \<Rightarrow> 'w \<Rightarrow> nat option \<times> 'w) \<Rightarrow> u32 list \<Rightarrow> 'w \<Rightarrow> nat option \<times> 'w" where
  "try_caps get [] w = (None, w)"
| "try_caps get (c # cs) w = (case get c w of (Some p, w') \<Rightarrow> (Some p, w') | (None, w') \<Rightarrow> try_caps get cs w')"

lemma user_malloc_prefer:
  assumes "\<And>sz cs w. heap_caps_malloc_prefer H sz cs w = try_caps (heap_caps_malloc H sz) cs w"
  shows "ext4_user_malloc USE_PREFER_PSRAM H sz w
    = (case ext4_user_malloc USE_PSRAM H sz w of
         (Some p, w1) \<Rightarrow> (Some p, w1)
       | (None, w1) \<Rightarrow> ext4_user_malloc USE_INTERNAL_SRAM H sz w1)"
  by (simp add: ext4_user_malloc_def assms split: prod.split option.split)

section \<open>Extended attributes\<close>

text \<open>
  The entry points ext4.c refers to: no name is recognised, no prefix known, and every
  operation on attributes is refused.  A result is followed by what is stored through the
  pointers; a NULL pointer is \<open>None\<close>.
\<close>

definition ext4_extract_xattr_name ::
  "string \<Rightarrow> u32 \<Rightarrow> u8 \<Rightarrow> u32 \<Rightarrow> bool option \<Rightarrow> string option \<times> u8 \<times> u32 \<times> bool option" where
  "ext4_extract_xattr_name full_name full_name_len name_index name_len found =
     (None, name_index, name_len, (if found \<noteq> None then Some False else None))"

definition ext4_get_xattr_name_prefix :: "u8 \<Rightarrow> u32 option \<Rightarrow> string \<times> u32 option" where
  "ext4_get_xattr_name_prefix name_index ret_prefix_len =
     ('''', (if ret_prefix_len \<noteq> None then Some 0 else None))"

definition ext4_xattr_list :: "'i \<Rightarrow> 'l \<Rightarrow> u32 \<Rightarrow> errno \<times> 'i \<times> 'l \<times> u32" where
  "ext4_xattr_list inode_ref lst list_len = (ENOTSUP, inode_ref, lst, list_len)"

definition ext4_xattr_get ::
  "'i \<Rightarrow> u8 \<Rightarrow> string \<Rightarrow> u32 \<Rightarrow> bytes \<Rightarrow> u32 \<Rightarrow> u32 option \<Rightarrow> errno \<times> 'i \<times> bytes \<times> u32 option" where
  "ext4_xattr_get inode_ref name_index nm name_len buf buf_size data_size = (ENOTSUP, inode_ref, buf, data_size)"

definition ext4_xattr_remove :: "'i \<Rightarrow> u8 \<Rightarrow> string \<Rightarrow> u32 \<Rightarrow> errno \<times> 'i" where
  "ext4_xattr_remove inode_ref name_index nm name_len = (ENOTSUP, inode_ref)"

definition ext4_xattr_set :: "'i \<Rightarrow> u8 \<Rightarrow> string \<Rightarrow> u32 \<Rightarrow> bytes \<Rightarrow> u32 \<Rightarrow> errno \<times> 'i" where
  "ext4_xattr_set inode_ref name_index nm name_len v value_len = (ENOTSUP, inode_ref)"

end
