(* ===== verification/Vfs_Path.thy ===== *)
theory Vfs_Path
  imports Prelude "HOL-Library.Sublist"
begin

text \<open>
  The path functions of port/esp_lwext4.c.  A C string is a HOL string (a list of
  characters, none of them NUL); a pointer into it is the rest of the list.  They are
  related to the list of a path's components, split at slashes with empty parts dropped.
\<close>

abbreviation slash :: char where "slash \<equiv> CHR ''/''"

definition skip_slashes :: "string \<Rightarrow> string" where
  "skip_slashes p = dropWhile (\<lambda>c. c = slash) p"

definition first_name :: "string \<Rightarrow> string" where
  "first_name p = takeWhile (\<lambda>c. c \<noteq> slash) p"

definition after_name :: "string \<Rightarrow> string" where
  "after_name p = dropWhile (\<lambda>c. c \<noteq> slash) p"

lemma rest_shorter: "p \<noteq> [] \<Longrightarrow> length (after_name (skip_slashes p)) < length p"
proof (cases p)
  case (Cons c q)
  have l: "length (after_name q) \<le> length q" "length (skip_slashes q) \<le> length q" for q
    by (simp_all add: after_name_def skip_slashes_def length_dropWhile_le)
  show ?thesis
  proof (cases "c = slash")
    case True
    then show ?thesis using l(1) [of "skip_slashes q"] l(2) [of q] Cons
      by (simp add: skip_slashes_def)
  next
    case False
    then show ?thesis using l(1) [of q] Cons
      by (simp add: skip_slashes_def after_name_def)
  qed
qed simp

section \<open>Components\<close>

fun split_slash :: "string \<Rightarrow> string list" where
  "split_slash [] = [[]]"
| "split_slash (c # cs) =
     (if c = slash then [] # split_slash cs
      else (case split_slash cs of [] \<Rightarrow> [[c]] | x # xs \<Rightarrow> (c # x) # xs))"

definition components :: "string \<Rightarrow> string list" where
  "components p = filter (\<lambda>x. x \<noteq> []) (split_slash p)"

lemma split_slash_first:
  "split_slash p = first_name p # (case after_name p of [] \<Rightarrow> [] | c # cs \<Rightarrow> split_slash cs)"
  by (induction p) (auto simp: first_name_def after_name_def split: list.splits)

lemma components_Nil [simp]: "components [] = []"
  by (simp add: components_def)

lemma components_slash: "components (slash # p) = components p"
  by (simp add: components_def)

lemma components_skip [simp]: "components (skip_slashes p) = components p"
  by (induction p) (auto simp: skip_slashes_def components_slash)

lemma after_name_cases: "after_name p = [] \<or> (\<exists>q. after_name p = slash # q)"
  by (induction p) (auto simp: after_name_def)

lemma components_after:
  "components p = (if first_name p = [] then [] else [first_name p]) @ components (after_name p)"
proof -
  have s: "components p = (if first_name p = [] then [] else [first_name p])
      @ filter (\<lambda>x. x \<noteq> []) (case after_name p of [] \<Rightarrow> [] | c # cs \<Rightarrow> split_slash cs)"
    unfolding components_def by (subst split_slash_first [of p]) (simp only: filter.simps, simp)
  from after_name_cases [of p] show ?thesis
  proof
    assume "after_name p = []"
    with s show ?thesis by simp
  next
    assume "\<exists>q. after_name p = slash # q"
    then obtain q where "after_name p = slash # q" ..
    then have "components (after_name p) = filter (\<lambda>x. x \<noteq> []) (case after_name p of [] \<Rightarrow> [] | c # cs \<Rightarrow> split_slash cs)"
      by (simp only: list.case components_slash) (simp only: components_def)
    with s show ?thesis by (simp only:)
  qed
qed

lemma first_name_skip: "skip_slashes p \<noteq> [] \<Longrightarrow> first_name (skip_slashes p) \<noteq> []"
proof (induction p)
  case (Cons c p)
  then show ?case
    by (cases "c = slash") (simp_all only: skip_slashes_def first_name_def dropWhile.simps takeWhile.simps
        if_True if_False not_False_eq_True list.distinct simp_thms)
qed (simp add: skip_slashes_def)

text \<open>One round of the loops: skip slashes, take a component.\<close>

lemma components_step:
  "components p = (if skip_slashes p = [] then []
     else first_name (skip_slashes p) # components (after_name (skip_slashes p)))"
proof (cases "skip_slashes p = []")
  case True
  then show ?thesis using components_skip [of p] by simp
next
  case False
  then show ?thesis
    using components_after [of "skip_slashes p"] first_name_skip [OF False] by simp
qed

lemma components_eq_Nil_iff: "components p = [] \<longleftrightarrow> skip_slashes p = []"
  by (subst components_step) simp

section \<open>path_has_dot_component\<close>

abbreviation dot :: string where "dot \<equiv> ''.''"
abbreviation dot_dot :: string where "dot_dot \<equiv> ''..''"

text \<open>The tests on a component of the given length.\<close>

definition is_dot :: "string \<Rightarrow> bool" where
  "is_dot name \<longleftrightarrow> length name = 1 \<and> name ! 0 = CHR ''.''"

definition is_dot_dot :: "string \<Rightarrow> bool" where
  "is_dot_dot name \<longleftrightarrow> length name = 2 \<and> name ! 0 = CHR ''.'' \<and> name ! 1 = CHR ''.''"

lemma is_dot_iff: "is_dot name \<longleftrightarrow> name = dot"
  by (cases name) (auto simp: is_dot_def)

lemma is_dot_dot_iff: "is_dot_dot name \<longleftrightarrow> name = dot_dot"
  by (cases name; cases "tl name") (auto simp: is_dot_dot_def)

function path_has_dot_component :: "string \<Rightarrow> bool" where
  "path_has_dot_component p =
     (if p \<noteq> [] then
        (let component = skip_slashes p; name = first_name component in
         if is_dot name \<or> is_dot_dot name then True
         else path_has_dot_component (after_name component))
      else False)"
  by pat_completeness auto
termination
  by (relation "measure length") (auto intro: rest_shorter)

declare path_has_dot_component.simps [simp del]

lemma path_has_dot_component_iff:
  "path_has_dot_component p \<longleftrightarrow> dot \<in> set (components p) \<or> dot_dot \<in> set (components p)"
proof (induction p rule: path_has_dot_component.induct)
  case (1 p)
  show ?case
  proof (cases "p = []")
    case True
    then show ?thesis by (simp add: path_has_dot_component.simps)
  next
    case False
    let ?c = "skip_slashes p"
    have u: "path_has_dot_component p \<longleftrightarrow> first_name ?c = dot \<or> first_name ?c = dot_dot
        \<or> path_has_dot_component (after_name ?c)"
      using False by (subst path_has_dot_component.simps) (simp add: is_dot_iff is_dot_dot_iff Let_def)
    have i: "path_has_dot_component (after_name ?c) \<longleftrightarrow>
        dot \<in> set (components (after_name ?c)) \<or> dot_dot \<in> set (components (after_name ?c))"
      if "\<not> (first_name ?c = dot \<or> first_name ?c = dot_dot)"
      using 1 [OF False refl refl] that by (simp add: is_dot_iff is_dot_dot_iff)
    show ?thesis
    proof (cases "?c = []")
      case True
      then have e: "first_name ?c = []" "after_name ?c = []" by (simp_all add: first_name_def after_name_def)
      have "components p = []" using True by (simp add: components_eq_Nil_iff)
      with u e show ?thesis by (simp add: path_has_dot_component.simps)
    next
      case False
      then have c: "components p = first_name ?c # components (after_name ?c)"
        using components_step [of p] by simp
      show ?thesis
      proof (cases "first_name ?c = dot \<or> first_name ?c = dot_dot")
        case True
        then show ?thesis unfolding u c by auto
      next
        case False
        then show ?thesis unfolding u c i [OF False] by auto
      qed
    qed
  qed
qed

section \<open>path_is_mount_root\<close>

function mount_root_depth :: "string \<Rightarrow> nat \<Rightarrow> nat" where
  "mount_root_depth p depth =
     (if p \<noteq> [] then
        (let component = skip_slashes p; name = first_name component in
         mount_root_depth (after_name component)
           (if name = [] \<or> is_dot name then depth
            else if is_dot_dot name then (if depth \<noteq> 0 then depth - 1 else depth)
            else depth + 1))
      else depth)"
  by pat_completeness auto
termination
  by (relation "measure (length \<circ> fst)") (auto intro: rest_shorter)

declare mount_root_depth.simps [simp del]

definition path_is_mount_root :: "string \<Rightarrow> bool" where
  "path_is_mount_root relative_path \<longleftrightarrow> mount_root_depth relative_path 0 = 0"

text \<open>
  Lexical resolution of a list of components against a directory below the mount root: a
  dot stays, two dots go to the parent and stay at the root, a name descends.
\<close>

fun resolve :: "string list \<Rightarrow> string list \<Rightarrow> string list" where
  "resolve at [] = at"
| "resolve at (c # cs) =
     (if c = dot then resolve at cs
      else if c = dot_dot then resolve (butlast at) cs
      else resolve (at @ [c]) cs)"

lemma mount_root_depth_resolve: "mount_root_depth p (length at) = length (resolve at (components p))"
proof (induction "length p" arbitrary: p at rule: less_induct)
  case less
  show ?case
  proof (cases "skip_slashes p = []")
    case True
    then have "components p = []" "first_name (skip_slashes p) = []" "after_name (skip_slashes p) = []"
      by (simp_all add: components_eq_Nil_iff first_name_def after_name_def)
    then show ?thesis by (simp add: mount_root_depth.simps Let_def)
  next
    case False
    let ?n = "first_name (skip_slashes p)" and ?r = "after_name (skip_slashes p)"
    have p: "p \<noteq> []" using False by (auto simp: skip_slashes_def)
    have n: "?n \<noteq> []" by (rule first_name_skip [OF False])
    have c: "components p = ?n # components ?r" using components_step [of p] False by simp
    have i: "mount_root_depth ?r (length q) = length (resolve q (components ?r))" for q
      by (rule less(1) [OF rest_shorter [OF p]])
    have "mount_root_depth p (length at) = mount_root_depth ?r
        (if ?n = dot then length at else if ?n = dot_dot then length (butlast at) else length (at @ [?n]))"
      using p n by (subst mount_root_depth.simps) (simp add: Let_def is_dot_iff is_dot_dot_iff)
    then show ?thesis using c by (simp add: i del: length_butlast length_append split: if_splits)
  qed
qed

lemma path_is_mount_root_iff: "path_is_mount_root p \<longleftrightarrow> resolve [] (components p) = []"
  using mount_root_depth_resolve [of p "[]"] by (simp add: path_is_mount_root_def)

section \<open>path_is_strict_descendant\<close>

function strict_descendant_loop :: "string \<Rightarrow> string \<Rightarrow> string option" where
  "strict_descendant_loop parent child =
     (if parent \<noteq> [] then
        (let parent' = skip_slashes parent; child' = skip_slashes child in
         if parent' = [] then Some child'
         else if length (first_name parent') \<noteq> length (first_name child')
           \<or> first_name parent' \<noteq> first_name child' then None
         else strict_descendant_loop (after_name parent') (after_name child'))
      else Some child)"
  by pat_completeness auto
termination
  by (relation "measure (length \<circ> fst)") (auto intro: rest_shorter)

declare strict_descendant_loop.simps [simp del]

definition path_is_strict_descendant :: "string \<Rightarrow> string \<Rightarrow> bool" where
  "path_is_strict_descendant parent child =
     (case strict_descendant_loop parent child of
        None \<Rightarrow> False
      | Some rest \<Rightarrow> skip_slashes rest \<noteq> [])"

lemma path_is_strict_descendant_iff:
  "path_is_strict_descendant parent child \<longleftrightarrow> strict_prefix (components parent) (components child)"
proof (induction "length parent" arbitrary: parent child rule: less_induct)
  case less
  let ?p = "skip_slashes parent" and ?c = "skip_slashes child"
  show ?case
  proof (cases "?p = []")
    case True
    then have e: "components parent = []" by (simp add: components_eq_Nil_iff)
    have "path_is_strict_descendant parent child \<longleftrightarrow> ?c \<noteq> []"
      using True components_skip [of ?c] components_eq_Nil_iff [of child] components_eq_Nil_iff [of ?c]
      by (auto simp: path_is_strict_descendant_def strict_descendant_loop.simps Let_def)
    then show ?thesis unfolding e
      by (cases "components child") (simp_all add: strict_prefix_def components_eq_Nil_iff [symmetric])
  next
    case False
    have p: "parent \<noteq> []" using False by (auto simp: skip_slashes_def)
    have n: "first_name ?p \<noteq> []" by (rule first_name_skip [OF False])
    have c: "components parent = first_name ?p # components (after_name ?p)"
      using components_step [of parent] False by simp
    have u: "strict_descendant_loop parent child =
        (if first_name ?p \<noteq> first_name ?c then None
         else strict_descendant_loop (after_name ?p) (after_name ?c))"
      using p False by (subst strict_descendant_loop.simps) (simp add: Let_def)
    show ?thesis
    proof (cases "first_name ?p = first_name ?c")
      case True
      then have "?c \<noteq> []" using n by (auto simp: first_name_def)
      then have "components child = first_name ?p # components (after_name ?c)"
        using components_step [of child] True by simp
      moreover have "path_is_strict_descendant parent child
          \<longleftrightarrow> path_is_strict_descendant (after_name ?p) (after_name ?c)"
        using True by (simp add: path_is_strict_descendant_def u)
      ultimately show ?thesis
        using less [OF rest_shorter [OF p], of "after_name ?c"] c by simp
    next
      case neq: False
      then have "\<not> path_is_strict_descendant parent child"
        by (simp add: path_is_strict_descendant_def u)
      moreover have "\<not> strict_prefix (components parent) (components child)"
        using c neq components_step [of child] by (auto simp: strict_prefix_def split: if_splits)
      ultimately show ?thesis by simp
    qed
  qed
qed

end
