(* ===== verification/Vfs_Env.thy ===== *)
theory Vfs_Env
  imports Vfs_Path
begin

text \<open>
  The environment and the state of the VFS adapter (port/esp_lwext4.c): the functions of
  lwext4, FreeRTOS, the C library and ESP-IDF's VFS it calls, as fields of one record acting
  on a world \<open>'w\<close>; open files and contexts; and the small helpers that make paths, find
  descriptors and bound sizes.  size_t, int and long have 32 bits, as on the ESP32 family;
  the width of off_t is a parameter.
\<close>

section \<open>Open files\<close>

text \<open>
  lwext4's \<open>ext4_file\<close>: the two fields the adapter touches and the rest.  The adapter's file
  entry holds one.
\<close>

record 'f ext4_file =
  inode :: u32
  fsize :: u64
  file_rest :: 'f

record 'f esp_lwext4_file =
  efile :: "'f ext4_file"
  path :: "string option"
  flags :: u32
  used :: bool

text \<open>A directory entry as lwext4 returns it: \<open>name\<close> is the whole name array.\<close>

record ext4_direntry =
  de_inode :: u32
  name_length :: u8
  inode_type :: u8
  name :: string

section \<open>The environment\<close>

text \<open>
  A result code is followed by the outputs the function leaves behind its pointers; a caller
  that sees an error ignores them where the C code does.  A semaphore handle is a number;
  \<open>calloc_addr\<close> is the address the last successful calloc returned, and \<open>stored_meanwhile\<close>
  the mutex another task stored in s_contexts_lock between two critical sections.
\<close>

record ('w, 'f, 'd) vfs_env =
  xSemaphoreTake :: "nat \<Rightarrow> 'w \<Rightarrow> bool \<times> 'w"
  xSemaphoreGive :: "nat \<Rightarrow> 'w \<Rightarrow> 'w"
  xSemaphoreCreateMutex :: "'w \<Rightarrow> nat option \<times> 'w"
  vSemaphoreDelete :: "nat \<Rightarrow> 'w \<Rightarrow> 'w"
  malloc_ok :: "u32 \<Rightarrow> 'w \<Rightarrow> bool \<times> 'w"
  calloc_ok :: "u32 \<Rightarrow> u32 \<Rightarrow> 'w \<Rightarrow> bool \<times> 'w"
  calloc_addr :: "'w \<Rightarrow> nat"
  heap_free :: "'w \<Rightarrow> 'w"
  stored_meanwhile :: "'w \<Rightarrow> nat option"
  current_time :: "'w \<Rightarrow> int \<times> 'w"
  esp_vfs_register_fs :: "string \<Rightarrow> u32 \<Rightarrow> 'w \<Rightarrow> esp_err \<times> 'w"
  esp_vfs_unregister_fs :: "string \<Rightarrow> 'w \<Rightarrow> esp_err \<times> 'w"
  file_zero :: 'f
  ext4_fopen2 :: "'f ext4_file \<Rightarrow> string \<Rightarrow> u32 \<Rightarrow> 'w \<Rightarrow> errno \<times> 'f ext4_file \<times> 'w"
  ext4_fclose :: "'f ext4_file \<Rightarrow> 'w \<Rightarrow> errno \<times> 'f ext4_file \<times> 'w"
  ext4_fread :: "'f ext4_file \<Rightarrow> bytes \<Rightarrow> u32 \<Rightarrow> 'w \<Rightarrow> errno \<times> bytes \<times> u32 \<times> 'f ext4_file \<times> 'w"
  ext4_fwrite :: "'f ext4_file \<Rightarrow> bytes \<Rightarrow> u32 \<Rightarrow> 'w \<Rightarrow> errno \<times> u32 \<times> 'f ext4_file \<times> 'w"
  ext4_fseek :: "'f ext4_file \<Rightarrow> u64 \<Rightarrow> u32 \<Rightarrow> errno \<times> 'f ext4_file"
  ext4_ftell :: "'f ext4_file \<Rightarrow> u64"
  ext4_ftruncate :: "'f ext4_file \<Rightarrow> u64 \<Rightarrow> 'w \<Rightarrow> errno \<times> 'f ext4_file \<times> 'w"
  ext4_inode_exist :: "string \<Rightarrow> u8 \<Rightarrow> 'w \<Rightarrow> errno \<times> 'w"
  ext4_raw_inode_fill :: "string \<Rightarrow> 'w \<Rightarrow> errno \<times> u32 \<times> bytes \<times> 'w"
  ext4_get_sblock :: "string \<Rightarrow> 'w \<Rightarrow> errno \<times> bytes \<times> 'w"
  ext4_inode_get_size :: "bytes \<Rightarrow> bytes \<Rightarrow> u64"
  ext4_inode_get_mode :: "bytes \<Rightarrow> bytes \<Rightarrow> u32"
  ext4_inode_type :: "bytes \<Rightarrow> bytes \<Rightarrow> u32"
  ext4_inode_get_links_cnt :: "bytes \<Rightarrow> u16"
  ext4_inode_get_uid :: "bytes \<Rightarrow> u32"
  ext4_inode_get_gid :: "bytes \<Rightarrow> u32"
  ext4_inode_get_access_time :: "bytes \<Rightarrow> u32"
  ext4_inode_get_modif_time :: "bytes \<Rightarrow> u32"
  ext4_inode_get_change_inode_time :: "bytes \<Rightarrow> u32"
  ext4_mount_point_stats :: "string \<Rightarrow> 'w \<Rightarrow> errno \<times> u32 \<times> 'w"
  ext4_cache_flush :: "string \<Rightarrow> 'w \<Rightarrow> errno \<times> 'w"
  ext4_dir_open :: "string \<Rightarrow> 'w \<Rightarrow> errno \<times> 'd \<times> 'w"
  ext4_dir_entry_next :: "'d \<Rightarrow> 'w \<Rightarrow> ext4_direntry option \<times> 'd \<times> 'w"
  ext4_dir_entry_rewind :: "'d \<Rightarrow> 'd"
  ext4_dir_close :: "'d \<Rightarrow> 'w \<Rightarrow> errno \<times> 'd \<times> 'w"
  ext4_flink :: "string \<Rightarrow> string \<Rightarrow> 'w \<Rightarrow> errno \<times> 'w"
  ext4_frename :: "string \<Rightarrow> string \<Rightarrow> 'w \<Rightarrow> errno \<times> 'w"
  ext4_fremove :: "string \<Rightarrow> 'w \<Rightarrow> errno \<times> 'w"
  ext4_dir_rm :: "string \<Rightarrow> 'w \<Rightarrow> errno \<times> 'w"
  ext4_dir_mk :: "string \<Rightarrow> 'w \<Rightarrow> errno \<times> 'w"
  ext4_mode_set :: "string \<Rightarrow> u32 \<Rightarrow> 'w \<Rightarrow> errno \<times> 'w"
  ext4_atime_set :: "string \<Rightarrow> u32 \<Rightarrow> 'w \<Rightarrow> errno \<times> 'w"
  ext4_mtime_set :: "string \<Rightarrow> u32 \<Rightarrow> 'w \<Rightarrow> errno \<times> 'w"
  sizeof_ctx :: u32
  sizeof_entry :: u32
  sizeof_dir :: u32
  off_t_bits :: nat
  ext4_max_mp_name :: u32
  esp_vfs_path_max :: u32
  vfs_grow_buffer_size :: u32

text \<open>Constants of the C library (newlib) and of lwext4's headers.\<close>

abbreviation (input) O_RDONLY :: u32 where "O_RDONLY \<equiv> 0"
abbreviation (input) O_WRONLY :: u32 where "O_WRONLY \<equiv> 1"
abbreviation (input) O_RDWR :: u32 where "O_RDWR \<equiv> 2"
abbreviation (input) O_ACCMODE :: u32 where "O_ACCMODE \<equiv> 3"
abbreviation (input) O_APPEND :: u32 where "O_APPEND \<equiv> 8"
abbreviation (input) O_CREAT :: u32 where "O_CREAT \<equiv> 0x200"
abbreviation (input) O_TRUNC :: u32 where "O_TRUNC \<equiv> 0x400"
abbreviation (input) O_EXCL :: u32 where "O_EXCL \<equiv> 0x800"

abbreviation (input) SEEK_SET :: int where "SEEK_SET \<equiv> 0"
abbreviation (input) SEEK_CUR :: int where "SEEK_CUR \<equiv> 1"
abbreviation (input) SEEK_END :: int where "SEEK_END \<equiv> 2"

abbreviation (input) EXT4_DE_UNKNOWN :: u8 where "EXT4_DE_UNKNOWN \<equiv> 0"
abbreviation (input) EXT4_DE_DIR :: u8 where "EXT4_DE_DIR \<equiv> 2"

abbreviation SIZE_T_MAX :: u32 where "SIZE_T_MAX \<equiv> 0xFFFFFFFF"
abbreviation INT64_MAX :: u64 where "INT64_MAX \<equiv> 0x7FFFFFFFFFFFFFFF"

section \<open>Contexts\<close>

text \<open>
  One registered file system.  \<open>ctx_id\<close> is the context's address, which directory handles
  remember; \<open>lock\<close> is its mutex.  The list of contexts replaces the \<open>next\<close> links.
\<close>

record 'f esp_lwext4 =
  ctx_id :: nat
  base_path :: string
  mount_point :: string
  files :: "'f esp_lwext4_file list"
  max_files :: u32
  open_files :: u32
  open_dirs :: u32
  grow_buffer :: "bytes option"
  grow_buffer_size :: u32
  read_only :: bool
  lock :: nat

section \<open>Helpers\<close>

text \<open>A result \<open>Inl e\<close> is the return value -1 (or NULL) with errno set to \<open>e\<close>.\<close>

definition fail_with_errno :: "errno \<Rightarrow> errno + 'a" where
  "fail_with_errno error = Inl (if error \<noteq> EOK then error else EIO)"

definition take_lock :: "('w, 'f, 'd) vfs_env \<Rightarrow> nat \<Rightarrow> 'w \<Rightarrow> (errno + unit) \<times> 'w" where
  "take_lock E l w = (case xSemaphoreTake E l w of (taken, w') \<Rightarrow> (if taken then Inr () else Inl EIO, w'))"

definition give_lock :: "('w, 'f, 'd) vfs_env \<Rightarrow> nat \<Rightarrow> 'w \<Rightarrow> 'w" where
  "give_lock E l w = xSemaphoreGive E l w"

definition strlen :: "string \<Rightarrow> u32" where
  "strlen s = of_nat (length s)"

definition normalize_mount_point ::
  "('w, 'f, 'd) vfs_env \<Rightarrow> string option \<Rightarrow> 'w \<Rightarrow> string option \<times> 'w" where
  "normalize_mount_point E mp_arg w =
     (case mp_arg of
        None \<Rightarrow> (None, w)
      | Some mp \<Rightarrow>
          if mp = [] \<or> mp ! 0 \<noteq> slash then (None, w)
          else
            let length = strlen mp in
            if length = 0 \<or> length > ext4_max_mp_name E then (None, w)
            else
              let needs_slash = (last mp \<noteq> slash) in
              if needs_slash \<and> length = ext4_max_mp_name E then (None, w)
              else
                (case malloc_ok E (length + (if needs_slash then 2 else 1)) w of (ok, w') \<Rightarrow>
                 if \<not> ok then (None, w')
                 else (Some (if needs_slash then mp @ [slash] else mp), w')))"

definition make_path ::
  "('w, 'f, 'd) vfs_env \<Rightarrow> 'f esp_lwext4 \<Rightarrow> string option \<Rightarrow> 'w \<Rightarrow> (errno + string) \<times> 'w" where
  "make_path E ctx vfs_path w =
     (case vfs_path of
        None \<Rightarrow> (Inl EINVAL, w)
      | Some p \<Rightarrow>
          if p = [] \<or> p ! 0 \<noteq> slash then (Inl EINVAL, w)
          else
            let mount_length = strlen (mount_point ctx); suffix = tl p; path_length = strlen suffix in
            if mount_length > SIZE_T_MAX - path_length - 1 then (Inl ENAMETOOLONG, w)
            else
              (case malloc_ok E (mount_length + path_length + 1) w of (ok, w') \<Rightarrow>
               if \<not> ok then (Inl ENOMEM, w') else (Inr (mount_point ctx @ suffix), w')))"

text \<open>The index of the entry the C function returns a pointer to.\<close>

definition file_get :: "'f esp_lwext4 \<Rightarrow> int \<Rightarrow> errno + nat" where
  "file_get ctx fd =
     (if fd < 0 \<or> nat fd \<ge> unat (max_files ctx) \<or> \<not> used (files ctx ! nat fd) then Inl EBADF
      else Inr (nat fd))"

definition io_size_limit :: "u32 \<Rightarrow> u32" where
  "io_size_limit sz =
     (let ssize_max = drop_bit 1 SIZE_T_MAX in if sz > ssize_max then ssize_max else sz)"

definition off_t_max_value :: "('w, 'f, 'd) vfs_env \<Rightarrow> u64" where
  "off_t_max_value E = push_bit (off_t_bits E - 1) 1 - 1"

text \<open>\<open>put_file\<close> stores an entry through the pointer \<open>&ctx->files[i]\<close>.\<close>

definition put_file :: "nat \<Rightarrow> 'f esp_lwext4_file \<Rightarrow> 'f esp_lwext4 \<Rightarrow> 'f esp_lwext4" where
  "put_file i fl ctx = ctx\<lparr>files := (files ctx)[i := fl]\<rparr>"

definition zero_file :: "('w, 'f, 'd) vfs_env \<Rightarrow> 'f ext4_file" where
  "zero_file E = \<lparr>inode = 0, fsize = 0, file_rest = file_zero E\<rparr>"

definition zero_entry :: "('w, 'f, 'd) vfs_env \<Rightarrow> 'f esp_lwext4_file" where
  "zero_entry E = \<lparr>efile = zero_file E, path = None, flags = 0, used = False\<rparr>"

section \<open>Facts about the helpers\<close>

lemma fail_with_errno_Inl [simp]: "fail_with_errno e \<noteq> Inr r"
  by (simp add: fail_with_errno_def)

lemma fail_with_errno_code [simp]: "e \<noteq> EOK \<Longrightarrow> fail_with_errno e = Inl e"
  by (simp add: fail_with_errno_def)

lemma io_size_limit_le: "unat (io_size_limit sz) \<le> unat sz" "unat (io_size_limit sz) < 2 ^ 31"
proof -
  have d: "drop_bit 1 SIZE_T_MAX = 0x7FFFFFFF" by (simp add: drop_bit_eq_div)
  show "unat (io_size_limit sz) \<le> unat sz"
    by (auto simp: io_size_limit_def d Let_def word_less_nat_alt)
  show "unat (io_size_limit sz) < 2 ^ 31"
    by (auto simp: io_size_limit_def d Let_def word_less_nat_alt not_less)
qed

lemma sint_small:
  assumes "unat (c :: u32) < 2 ^ 31"
  shows "sint c = int (unat c)"
proof -
  have u: "uint c = int (unat c)" by (rule uint_nat)
  have "int (unat c) < int (2 ^ 31)" using assms by (simp only: of_nat_less_iff)
  then have "uint c < 2 ^ 31" unfolding u by simp
  moreover have "- (2 ^ 31) \<le> uint c" by (rule order_trans [of _ 0]) simp_all
  ultimately have "signed_take_bit 31 (uint c) = uint c" by (rule signed_take_bit_int_eq_self [rotated])
  then show ?thesis by (simp only: sint_uint u [symmetric]) simp
qed

lemma file_get_Inr: "file_get ctx fd = Inr i \<longleftrightarrow>
  0 \<le> fd \<and> i = nat fd \<and> i < unat (max_files ctx) \<and> used (files ctx ! i)"
  by (auto simp: file_get_def)

lemma put_file_simps [simp]:
  "files (put_file i fl ctx) = (files ctx)[i := fl]" "max_files (put_file i fl ctx) = max_files ctx"
  "open_files (put_file i fl ctx) = open_files ctx" "open_dirs (put_file i fl ctx) = open_dirs ctx"
  "lock (put_file i fl ctx) = lock ctx" "mount_point (put_file i fl ctx) = mount_point ctx"
  "read_only (put_file i fl ctx) = read_only ctx" "grow_buffer (put_file i fl ctx) = grow_buffer ctx"
  "grow_buffer_size (put_file i fl ctx) = grow_buffer_size ctx" "ctx_id (put_file i fl ctx) = ctx_id ctx"
  "base_path (put_file i fl ctx) = base_path ctx"
  by (simp_all add: put_file_def)

end
