(* ===== verification/Vfs_File.thy ===== *)
theory Vfs_File
  imports Vfs_Env
begin

text \<open>
  The operations of port/esp_lwext4.c on open files: open, close, read, write, seek,
  positioned transfers, stat, sync, and the growing and shrinking of files.  An operation
  takes the context and the world and returns its result, the context and the world; every
  early return of the code is a branch, with the calls that release the lock and the path.
\<close>

section \<open>Sizes\<close>

definition current_file_size_locked ::
  "('w, 'f, 'd) vfs_env \<Rightarrow> 'f esp_lwext4_file \<Rightarrow> 'w \<Rightarrow> (errno + u64) \<times> 'w" where
  "current_file_size_locked E fl w =
     (case ext4_raw_inode_fill E (the (path fl)) w of (result, inode_number, ino, w1) \<Rightarrow>
      if result \<noteq> EOK then (Inl result, w1)
      else if inode_number \<noteq> inode (efile fl) then (Inl ESTALE, w1)
      else
        case ext4_get_sblock E (the (path fl)) w1 of (result, superblock, w2) \<Rightarrow>
        if result \<noteq> EOK then (Inl result, w2)
        else (Inr (ext4_inode_get_size E superblock ino), w2))"

definition seek_to_current_end_locked ::
  "('w, 'f, 'd) vfs_env \<Rightarrow> 'f esp_lwext4_file \<Rightarrow> 'w \<Rightarrow> errno \<times> 'f esp_lwext4_file \<times> 'w" where
  "seek_to_current_end_locked E fl w =
     (case current_file_size_locked E fl w of
        (Inl result, w1) \<Rightarrow> (result, fl, w1)
      | (Inr file_size, w1) \<Rightarrow>
          if file_size > INT64_MAX then (EOVERFLOW, fl, w1)
          else case ext4_fseek E ((efile fl)\<lparr>fsize := file_size\<rparr>) file_size 0 of (result, f) \<Rightarrow>
            (result, fl\<lparr>efile := f\<rparr>, w1))"

text \<open>
  The growth loop of resize_file_locked: it writes the zero-filled buffer until the size is
  reached.  It need not end when lwext4 reports more bytes than were requested.
\<close>

partial_function (option) grow_loop ::
  "('w, 'f, 'd) vfs_env \<Rightarrow> bytes \<Rightarrow> u32 \<Rightarrow> u64 \<Rightarrow> u64 \<Rightarrow> 'f ext4_file \<Rightarrow> 'w \<Rightarrow> (errno \<times> 'f ext4_file \<times> 'w) option" where
  "grow_loop E buf buf_size new_size current_size f w =
     (if current_size < new_size then
        (let remaining = new_size - current_size;
             request = (if remaining < ucast buf_size then ucast remaining else buf_size) in
         case ext4_fwrite E f buf request w of (r, written, f', w') \<Rightarrow>
         let result = (if r = EOK \<and> written = 0 then EIO else r) in
         if result = EOK then grow_loop E buf buf_size new_size (current_size + ucast written) f' w'
         else Some (result, f', w'))
      else Some (EOK, f, w))"

definition resize_file_locked ::
  "('w, 'f, 'd) vfs_env \<Rightarrow> 'f esp_lwext4 \<Rightarrow> 'f esp_lwext4_file \<Rightarrow> u64 \<Rightarrow> 'w
     \<Rightarrow> (errno \<times> 'f esp_lwext4_file \<times> 'w) option" where
  "resize_file_locked E ctx fl new_size w =
     (if grow_buffer ctx = None \<or> grow_buffer_size ctx = 0 then Some (ENOMEM, fl, w)
      else
        case current_file_size_locked E fl w of
          (Inl result, w1) \<Rightarrow> Some (result, fl, w1)
        | (Inr current_size, w1) \<Rightarrow>
            if new_size \<le> current_size then
              (case ext4_ftruncate E (efile fl) new_size w1 of (result, f, w2) \<Rightarrow>
               Some (result, fl\<lparr>efile := f\<rparr>, w2))
            else
              let original_position = ext4_ftell E (efile fl) in
              case ext4_fseek E ((efile fl)\<lparr>fsize := current_size\<rparr>) current_size 0 of (result, f) \<Rightarrow>
              case (if result = EOK
                    then grow_loop E (the (grow_buffer ctx)) (grow_buffer_size ctx) new_size current_size f w1
                    else Some (result, f, w1)) of
                None \<Rightarrow> None
              | Some (result, f1, w2) \<Rightarrow>
                  (case ext4_fseek E f1 original_position 0 of (restore_result, f2) \<Rightarrow>
                   Some (if result = EOK \<and> restore_result \<noteq> EOK then restore_result else result,
                     fl\<lparr>efile := f2\<rparr>, w2)))"

section \<open>stat\<close>

record stat =
  st_ino :: u32
  st_mode :: u32
  st_nlink :: u16
  st_uid :: u32
  st_gid :: u32
  st_size :: u64
  st_atime :: u32
  st_mtime :: u32
  st_ctime :: u32
  st_blocks :: u64
  st_blksize :: u32

definition stat_path_locked :: "('w, 'f, 'd) vfs_env \<Rightarrow> string \<Rightarrow> 'w \<Rightarrow> (errno + stat) \<times> 'w" where
  "stat_path_locked E p w =
     (case ext4_raw_inode_fill E p w of (result, inode_number, ino, w1) \<Rightarrow>
      if result \<noteq> EOK then (fail_with_errno result, w1)
      else
        case ext4_get_sblock E p w1 of (result, superblock, w2) \<Rightarrow>
        if result \<noteq> EOK then (fail_with_errno result, w2)
        else
          let file_size = ext4_inode_get_size E superblock ino in
          if file_size > off_t_max_value E then (fail_with_errno EOVERFLOW, w2)
          else
            case ext4_mount_point_stats E p w2 of (result, block_size, w3) \<Rightarrow>
            (Inr \<lparr>st_ino = inode_number, st_mode = ext4_inode_get_mode E superblock ino,
               st_nlink = ext4_inode_get_links_cnt E ino, st_uid = ext4_inode_get_uid E ino,
               st_gid = ext4_inode_get_gid E ino, st_size = file_size,
               st_atime = ext4_inode_get_access_time E ino, st_mtime = ext4_inode_get_modif_time E ino,
               st_ctime = ext4_inode_get_change_inode_time E ino, st_blocks = (file_size + 511) div 512,
               st_blksize = (if result = EOK then block_size else 0)\<rparr>, w3))"

section \<open>open\<close>

function find_free_slot :: "'f esp_lwext4_file list \<Rightarrow> nat \<Rightarrow> nat \<Rightarrow> nat option" where
  "find_free_slot fs n i =
     (if i < n then (if \<not> used (fs ! i) then Some i else find_free_slot fs n (i + 1)) else None)"
  by pat_completeness auto
termination by (relation "measure (\<lambda>(fs, n, i). n - i)") auto

declare find_free_slot.simps [simp del]

text \<open>What must hold of the name before it is opened; \<open>EOK\<close> lets open go on.\<close>

definition open_check :: "('w, 'f, 'd) vfs_env \<Rightarrow> string \<Rightarrow> u32 \<Rightarrow> 'w \<Rightarrow> errno \<times> 'w" where
  "open_check E full_path fl w =
     (if fl AND (O_CREAT OR O_EXCL) = O_CREAT OR O_EXCL then
        (case ext4_inode_exist E full_path EXT4_DE_UNKNOWN w of (result, w') \<Rightarrow>
         (if result = EOK then EEXIST else if result \<noteq> ENOENT then result else EOK, w'))
      else
        (case ext4_inode_exist E full_path EXT4_DE_DIR w of (result, w') \<Rightarrow>
         (if result = EOK then EISDIR else if result \<noteq> ENOENT then result else EOK, w')))"

definition vfs_lwext4_open ::
  "('w, 'f, 'd) vfs_env \<Rightarrow> 'f esp_lwext4 \<Rightarrow> string option \<Rightarrow> u32 \<Rightarrow> 'w \<Rightarrow> (errno + int) \<times> 'f esp_lwext4 \<times> 'w" where
  "vfs_lwext4_open E ctx p fl w =
     (if read_only ctx \<and> (fl AND O_ACCMODE \<noteq> O_RDONLY \<or> fl AND (O_CREAT OR O_TRUNC) \<noteq> 0)
      then (fail_with_errno EROFS, ctx, w)
      else
        case make_path E ctx p w of
          (Inl e, w1) \<Rightarrow> (Inl e, ctx, w1)
        | (Inr full_path, w1) \<Rightarrow>
            case take_lock E (lock ctx) w1 of
              (Inl e, w2) \<Rightarrow> (Inl e, ctx, heap_free E w2)
            | (Inr _, w2) \<Rightarrow>
                case find_free_slot (files ctx) (unat (max_files ctx)) 0 of
                  None \<Rightarrow> (fail_with_errno EMFILE, ctx, heap_free E (give_lock E (lock ctx) w2))
                | Some i \<Rightarrow>
                    case open_check E full_path fl w2 of (result, w3) \<Rightarrow>
                    if result \<noteq> EOK
                    then (fail_with_errno result, ctx, heap_free E (give_lock E (lock ctx) w3))
                    else
                      case ext4_fopen2 E (zero_file E) full_path fl w3 of (result, f, w4) \<Rightarrow>
                      let slot = (files ctx ! i)\<lparr>efile := f\<rparr> in
                      if result \<noteq> EOK
                      then (fail_with_errno result, put_file i slot ctx,
                            heap_free E (give_lock E (lock ctx) w4))
                      else
                        (Inr (int i),
                         put_file i (slot\<lparr>path := Some full_path, flags := fl, used := True\<rparr>) ctx
                           \<lparr>open_files := open_files ctx + 1\<rparr>,
                         give_lock E (lock ctx) w4))"

section \<open>read, write, seek\<close>

definition vfs_lwext4_write ::
  "('w, 'f, 'd) vfs_env \<Rightarrow> 'f esp_lwext4 \<Rightarrow> int \<Rightarrow> bytes \<Rightarrow> u32 \<Rightarrow> 'w \<Rightarrow> (errno + int) \<times> 'f esp_lwext4 \<times> 'w" where
  "vfs_lwext4_write E ctx fd data sz w =
     (if read_only ctx then (fail_with_errno EROFS, ctx, w)
      else
        case take_lock E (lock ctx) w of
          (Inl e, w1) \<Rightarrow> (Inl e, ctx, w1)
        | (Inr _, w1) \<Rightarrow>
            case file_get ctx fd of
              Inl e \<Rightarrow> (Inl e, ctx, give_lock E (lock ctx) w1)
            | Inr i \<Rightarrow>
                let fl = files ctx ! i in
                if flags fl AND O_ACCMODE = O_RDONLY
                then (fail_with_errno EBADF, ctx, give_lock E (lock ctx) w1)
                else
                  case (if flags fl AND O_APPEND \<noteq> 0 then seek_to_current_end_locked E fl w1
                        else (EOK, fl, w1)) of (result, fl1, w2) \<Rightarrow>
                  if result \<noteq> EOK
                  then (fail_with_errno result, put_file i fl1 ctx, give_lock E (lock ctx) w2)
                  else
                    case ext4_fwrite E (efile fl1) data (io_size_limit sz) w2 of (result, written, f, w3) \<Rightarrow>
                    (if result \<noteq> EOK then fail_with_errno result else Inr (sint written),
                     put_file i (fl1\<lparr>efile := f\<rparr>) ctx, give_lock E (lock ctx) w3))"

text \<open>The result carries the caller's buffer as the call leaves it.\<close>

definition vfs_lwext4_read ::
  "('w, 'f, 'd) vfs_env \<Rightarrow> 'f esp_lwext4 \<Rightarrow> int \<Rightarrow> bytes \<Rightarrow> u32 \<Rightarrow> 'w
     \<Rightarrow> (errno + int) \<times> bytes \<times> 'f esp_lwext4 \<times> 'w" where
  "vfs_lwext4_read E ctx fd dst sz w =
     (case take_lock E (lock ctx) w of
        (Inl e, w1) \<Rightarrow> (Inl e, dst, ctx, w1)
      | (Inr _, w1) \<Rightarrow>
          case file_get ctx fd of
            Inl e \<Rightarrow> (Inl e, dst, ctx, give_lock E (lock ctx) w1)
          | Inr i \<Rightarrow>
              let fl = files ctx ! i in
              if flags fl AND O_ACCMODE = O_WRONLY
              then (fail_with_errno EBADF, dst, ctx, give_lock E (lock ctx) w1)
              else
                case ext4_fread E (efile fl) dst (io_size_limit sz) w1 of (result, dst', read_count, f, w2) \<Rightarrow>
                (if result \<noteq> EOK then fail_with_errno result else Inr (sint read_count),
                 dst', put_file i (fl\<lparr>efile := f\<rparr>) ctx, give_lock E (lock ctx) w2))"

definition seek_locked ::
  "('w, 'f, 'd) vfs_env \<Rightarrow> 'f esp_lwext4_file \<Rightarrow> int \<Rightarrow> int \<Rightarrow> (errno + int) \<times> 'f esp_lwext4_file" where
  "seek_locked E fl offset whence =
     (if whence = SEEK_END \<and> offset > 0 then (fail_with_errno EINVAL, fl)
      else if whence = SEEK_END
        \<and> offset = signed_take_bit (off_t_bits E - 1) (uint (- off_t_max_value E - 1))
      then (fail_with_errno EINVAL, fl)
      else if whence \<noteq> SEEK_END \<and> whence \<noteq> SEEK_SET \<and> whence \<noteq> SEEK_CUR then (fail_with_errno EINVAL, fl)
      else
        let lwext4_offset = (if whence = SEEK_END then - word_of_int offset else word_of_int offset) in
        case ext4_fseek E (efile fl) lwext4_offset (word_of_int whence) of (result, f) \<Rightarrow>
        if result \<noteq> EOK then (fail_with_errno result, fl\<lparr>efile := f\<rparr>)
        else
          let position = ext4_ftell E f in
          if position > off_t_max_value E then (fail_with_errno EOVERFLOW, fl\<lparr>efile := f\<rparr>)
          else (Inr (uint position), fl\<lparr>efile := f\<rparr>))"

definition vfs_lwext4_lseek ::
  "('w, 'f, 'd) vfs_env \<Rightarrow> 'f esp_lwext4 \<Rightarrow> int \<Rightarrow> int \<Rightarrow> int \<Rightarrow> 'w \<Rightarrow> (errno + int) \<times> 'f esp_lwext4 \<times> 'w" where
  "vfs_lwext4_lseek E ctx fd offset whence w =
     (case take_lock E (lock ctx) w of
        (Inl e, w1) \<Rightarrow> (Inl e, ctx, w1)
      | (Inr _, w1) \<Rightarrow>
          case file_get ctx fd of
            Inl e \<Rightarrow> (Inl e, ctx, give_lock E (lock ctx) w1)
          | Inr i \<Rightarrow>
              case seek_locked E (files ctx ! i) offset whence of (result, fl) \<Rightarrow>
              (result, put_file i fl ctx, give_lock E (lock ctx) w1))"

section \<open>pread and pwrite\<close>

text \<open>
  The block guarded by \<open>size != 0\<close> in positioned_io: the transfer's result, the number of
  bytes, the buffer, the file entry and the world.
\<close>

definition positioned_transfer ::
  "('w, 'f, 'd) vfs_env \<Rightarrow> 'f esp_lwext4 \<Rightarrow> 'f esp_lwext4_file \<Rightarrow> bytes \<Rightarrow> u32 \<Rightarrow> int \<Rightarrow> bool \<Rightarrow> 'w
     \<Rightarrow> (errno \<times> u32 \<times> bytes \<times> 'f esp_lwext4_file \<times> 'w) option" where
  "positioned_transfer E ctx fl buffer sz offset write_operation w =
     (case current_file_size_locked E fl w of
        (Inl result, w1) \<Rightarrow> Some (result, 0, buffer, fl, w1)
      | (Inr file_size, w1) \<Rightarrow>
          let off = word_of_int offset;
              read_at_or_beyond_eof = (\<not> write_operation \<and> off \<ge> file_size) in
          case (if write_operation \<and> off > file_size then resize_file_locked E ctx fl off w1
                else Some (EOK, fl, w1)) of
            None \<Rightarrow> None
          | Some (result, fl1, w2) \<Rightarrow>
              if result \<noteq> EOK \<or> read_at_or_beyond_eof then Some (result, 0, buffer, fl1, w2)
              else
                case ext4_fseek E (efile fl1) off 0 of (result, f) \<Rightarrow>
                if result \<noteq> EOK then Some (result, 0, buffer, fl1\<lparr>efile := f\<rparr>, w2)
                else if write_operation then
                  (case ext4_fwrite E f buffer (io_size_limit sz) w2 of (result, transferred, f', w3) \<Rightarrow>
                   Some (result, transferred, buffer, fl1\<lparr>efile := f'\<rparr>, w3))
                else
                  (case ext4_fread E f buffer (io_size_limit sz) w2 of (result, buffer', transferred, f', w3) \<Rightarrow>
                   Some (result, transferred, buffer', fl1\<lparr>efile := f'\<rparr>, w3)))"

definition positioned_io ::
  "('w, 'f, 'd) vfs_env \<Rightarrow> 'f esp_lwext4 \<Rightarrow> int \<Rightarrow> bytes \<Rightarrow> u32 \<Rightarrow> int \<Rightarrow> bool \<Rightarrow> 'w
     \<Rightarrow> ((errno + int) \<times> bytes \<times> 'f esp_lwext4 \<times> 'w) option" where
  "positioned_io E ctx fd buffer sz offset write_operation w =
     (if offset < 0 then Some (fail_with_errno EINVAL, buffer, ctx, w)
      else if write_operation \<and> read_only ctx then Some (fail_with_errno EROFS, buffer, ctx, w)
      else
        case take_lock E (lock ctx) w of
          (Inl e, w1) \<Rightarrow> Some (Inl e, buffer, ctx, w1)
        | (Inr _, w1) \<Rightarrow>
            case file_get ctx fd of
              Inl e \<Rightarrow> Some (Inl e, buffer, ctx, give_lock E (lock ctx) w1)
            | Inr i \<Rightarrow>
                let fl = files ctx ! i in
                if (write_operation \<and> flags fl AND O_ACCMODE = O_RDONLY)
                  \<or> (\<not> write_operation \<and> flags fl AND O_ACCMODE = O_WRONLY)
                then Some (fail_with_errno EBADF, buffer, ctx, give_lock E (lock ctx) w1)
                else
                  let original_position = ext4_ftell E (efile fl) in
                  if original_position > INT64_MAX
                  then Some (fail_with_errno EOVERFLOW, buffer, ctx, give_lock E (lock ctx) w1)
                  else
                    case (if sz \<noteq> 0 then positioned_transfer E ctx fl buffer sz offset write_operation w1
                          else Some (EOK, 0, buffer, fl, w1)) of
                      None \<Rightarrow> None
                    | Some (result, transferred, buffer', fl1, w2) \<Rightarrow>
                        (case ext4_fseek E (efile fl1) original_position 0 of (restore_result, f) \<Rightarrow>
                         Some (if result \<noteq> EOK then fail_with_errno result
                               else if restore_result \<noteq> EOK then fail_with_errno restore_result
                               else Inr (sint transferred),
                               buffer', put_file i (fl1\<lparr>efile := f\<rparr>) ctx, give_lock E (lock ctx) w2)))"

definition vfs_lwext4_pread ::
  "('w, 'f, 'd) vfs_env \<Rightarrow> 'f esp_lwext4 \<Rightarrow> int \<Rightarrow> bytes \<Rightarrow> u32 \<Rightarrow> int \<Rightarrow> 'w
     \<Rightarrow> ((errno + int) \<times> bytes \<times> 'f esp_lwext4 \<times> 'w) option" where
  "vfs_lwext4_pread E ctx fd dst sz offset w = positioned_io E ctx fd dst sz offset False w"

definition vfs_lwext4_pwrite ::
  "('w, 'f, 'd) vfs_env \<Rightarrow> 'f esp_lwext4 \<Rightarrow> int \<Rightarrow> bytes \<Rightarrow> u32 \<Rightarrow> int \<Rightarrow> 'w
     \<Rightarrow> ((errno + int) \<times> bytes \<times> 'f esp_lwext4 \<times> 'w) option" where
  "vfs_lwext4_pwrite E ctx fd src sz offset w = positioned_io E ctx fd src sz offset True w"

section \<open>close, fstat, fsync, truncation\<close>

definition vfs_lwext4_close ::
  "('w, 'f, 'd) vfs_env \<Rightarrow> 'f esp_lwext4 \<Rightarrow> int \<Rightarrow> 'w \<Rightarrow> (errno + unit) \<times> 'f esp_lwext4 \<times> 'w" where
  "vfs_lwext4_close E ctx fd w =
     (case take_lock E (lock ctx) w of
        (Inl e, w1) \<Rightarrow> (Inl e, ctx, w1)
      | (Inr _, w1) \<Rightarrow>
          case file_get ctx fd of
            Inl e \<Rightarrow> (Inl e, ctx, give_lock E (lock ctx) w1)
          | Inr i \<Rightarrow>
              case ext4_fclose E (efile (files ctx ! i)) w1 of (result, f, w2) \<Rightarrow>
              if result \<noteq> EOK
              then (fail_with_errno result, put_file i ((files ctx ! i)\<lparr>efile := f\<rparr>) ctx,
                    give_lock E (lock ctx) w2)
              else (Inr (), put_file i (zero_entry E) ctx\<lparr>open_files := open_files ctx - 1\<rparr>,
                    heap_free E (give_lock E (lock ctx) w2)))"

text \<open>\<open>st_given\<close>: the stat buffer is not NULL.\<close>

definition vfs_lwext4_fstat ::
  "('w, 'f, 'd) vfs_env \<Rightarrow> 'f esp_lwext4 \<Rightarrow> int \<Rightarrow> bool \<Rightarrow> 'w \<Rightarrow> (errno + stat) \<times> 'w" where
  "vfs_lwext4_fstat E ctx fd st_given w =
     (if \<not> st_given then (fail_with_errno EINVAL, w)
      else
        case take_lock E (lock ctx) w of
          (Inl e, w1) \<Rightarrow> (Inl e, w1)
        | (Inr _, w1) \<Rightarrow>
            case (case file_get ctx fd of
                    Inl e \<Rightarrow> (Inl e, w1)
                  | Inr i \<Rightarrow> stat_path_locked E (the (path (files ctx ! i))) w1) of
              (result, w2) \<Rightarrow> (result, give_lock E (lock ctx) w2))"

definition vfs_lwext4_fsync ::
  "('w, 'f, 'd) vfs_env \<Rightarrow> 'f esp_lwext4 \<Rightarrow> int \<Rightarrow> 'w \<Rightarrow> (errno + unit) \<times> 'w" where
  "vfs_lwext4_fsync E ctx fd w =
     (case take_lock E (lock ctx) w of
        (Inl e, w1) \<Rightarrow> (Inl e, w1)
      | (Inr _, w1) \<Rightarrow>
          case file_get ctx fd of
            Inl e \<Rightarrow> (Inl e, give_lock E (lock ctx) w1)
          | Inr i \<Rightarrow>
              case ext4_cache_flush E (mount_point ctx) w1 of (result, w2) \<Rightarrow>
              (if result = EOK then Inr () else fail_with_errno result, give_lock E (lock ctx) w2))"

definition vfs_lwext4_ftruncate ::
  "('w, 'f, 'd) vfs_env \<Rightarrow> 'f esp_lwext4 \<Rightarrow> int \<Rightarrow> int \<Rightarrow> 'w
     \<Rightarrow> ((errno + unit) \<times> 'f esp_lwext4 \<times> 'w) option" where
  "vfs_lwext4_ftruncate E ctx fd len w =
     (if len < 0 then Some (fail_with_errno EINVAL, ctx, w)
      else if read_only ctx then Some (fail_with_errno EROFS, ctx, w)
      else
        case take_lock E (lock ctx) w of
          (Inl e, w1) \<Rightarrow> Some (Inl e, ctx, w1)
        | (Inr _, w1) \<Rightarrow>
            case file_get ctx fd of
              Inl e \<Rightarrow> Some (Inl e, ctx, give_lock E (lock ctx) w1)
            | Inr i \<Rightarrow>
                if flags (files ctx ! i) AND O_ACCMODE = O_RDONLY
                then Some (fail_with_errno EBADF, ctx, give_lock E (lock ctx) w1)
                else
                  case resize_file_locked E ctx (files ctx ! i) (word_of_int len) w1 of
                    None \<Rightarrow> None
                  | Some (result, fl, w2) \<Rightarrow>
                      Some (if result = EOK then Inr () else fail_with_errno result,
                            put_file i fl ctx, give_lock E (lock ctx) w2))"

definition vfs_lwext4_truncate ::
  "('w, 'f, 'd) vfs_env \<Rightarrow> 'f esp_lwext4 \<Rightarrow> string option \<Rightarrow> int \<Rightarrow> 'w \<Rightarrow> ((errno + unit) \<times> 'w) option" where
  "vfs_lwext4_truncate E ctx p len w =
     (if len < 0 then Some (fail_with_errno EINVAL, w)
      else if read_only ctx then Some (fail_with_errno EROFS, w)
      else
        case make_path E ctx p w of
          (Inl e, w1) \<Rightarrow> Some (Inl e, w1)
        | (Inr full_path, w1) \<Rightarrow>
            case take_lock E (lock ctx) w1 of
              (Inl e, w2) \<Rightarrow> Some (Inl e, heap_free E w2)
            | (Inr _, w2) \<Rightarrow>
                let fl = (zero_entry E)\<lparr>path := Some full_path, flags := O_RDWR, used := True\<rparr> in
                case ext4_fopen2 E (efile fl) full_path O_RDWR w2 of (result, f, w3) \<Rightarrow>
                case (if result = EOK then
                        (case resize_file_locked E ctx (fl\<lparr>efile := f\<rparr>) (word_of_int len) w3 of
                           None \<Rightarrow> None
                         | Some (result, fl1, w4) \<Rightarrow>
                             (case ext4_fclose E (efile fl1) w4 of (_, _, w5) \<Rightarrow> Some (result, w5)))
                      else Some (result, w3)) of
                  None \<Rightarrow> None
                | Some (result, w6) \<Rightarrow>
                    Some (if result = EOK then Inr () else fail_with_errno result,
                          heap_free E (give_lock E (lock ctx) w6)))"

end
