(* ===== verification/Vfs_Dir.thy ===== *)
theory Vfs_Dir
  imports Vfs_File
begin

text \<open>
  The operations of port/esp_lwext4.c on paths and directories: stat, link, unlink, rename
  with its emulated replacement, directory streams, mkdir, rmdir, access and utime.
\<close>

section \<open>stat, link, unlink\<close>

definition vfs_lwext4_stat ::
  "('w, 'f, 'd) vfs_env \<Rightarrow> 'f esp_lwext4 \<Rightarrow> string option \<Rightarrow> bool \<Rightarrow> 'w \<Rightarrow> (errno + stat) \<times> 'w" where
  "vfs_lwext4_stat E ctx p st_given w =
     (if \<not> st_given then (fail_with_errno EINVAL, w)
      else
        case make_path E ctx p w of
          (Inl e, w1) \<Rightarrow> (Inl e, w1)
        | (Inr full_path, w1) \<Rightarrow>
            case take_lock E (lock ctx) w1 of
              (Inl e, w2) \<Rightarrow> (Inl e, heap_free E w2)
            | (Inr _, w2) \<Rightarrow>
                case stat_path_locked E full_path w2 of (result, w3) \<Rightarrow>
                (result, heap_free E (give_lock E (lock ctx) w3)))"

text \<open>A result code as the functions return it to the VFS.\<close>

definition to_vfs :: "errno \<Rightarrow> errno + unit" where
  "to_vfs result = (if result = EOK then Inr () else fail_with_errno result)"

text \<open>The operation may fail to return, as the directory scan of rename does.\<close>

definition two_path_operation ::
  "('w, 'f, 'd) vfs_env \<Rightarrow> 'f esp_lwext4 \<Rightarrow> string option \<Rightarrow> string option
     \<Rightarrow> (string \<Rightarrow> string \<Rightarrow> 'w \<Rightarrow> (errno \<times> 'w) option) \<Rightarrow> 'w \<Rightarrow> ((errno + unit) \<times> 'w) option" where
  "two_path_operation E ctx first second operation w =
     (case make_path E ctx first w of
        (Inl e, w1) \<Rightarrow> Some (Inl e, w1)
      | (Inr first_path, w1) \<Rightarrow>
          case make_path E ctx second w1 of
            (Inl e, w2) \<Rightarrow> Some (Inl e, heap_free E w2)
          | (Inr second_path, w2) \<Rightarrow>
              case take_lock E (lock ctx) w2 of
                (Inl e, w3) \<Rightarrow> Some (Inl e, heap_free E (heap_free E w3))
              | (Inr _, w3) \<Rightarrow>
                  case operation first_path second_path w3 of
                    None \<Rightarrow> None
                  | Some (result, w4) \<Rightarrow>
                      Some (to_vfs result, heap_free E (heap_free E (give_lock E (lock ctx) w4))))"

definition vfs_lwext4_link ::
  "('w, 'f, 'd) vfs_env \<Rightarrow> 'f esp_lwext4 \<Rightarrow> string option \<Rightarrow> string option \<Rightarrow> 'w
     \<Rightarrow> ((errno + unit) \<times> 'w) option" where
  "vfs_lwext4_link E ctx p hardlink_path w =
     (if read_only ctx then Some (fail_with_errno EROFS, w)
      else two_path_operation E ctx p hardlink_path (\<lambda>first second w. Some (ext4_flink E first second w)) w)"

definition vfs_lwext4_unlink ::
  "('w, 'f, 'd) vfs_env \<Rightarrow> 'f esp_lwext4 \<Rightarrow> string option \<Rightarrow> 'w \<Rightarrow> (errno + unit) \<times> 'w" where
  "vfs_lwext4_unlink E ctx p w =
     (if read_only ctx then (fail_with_errno EROFS, w)
      else
        case make_path E ctx p w of
          (Inl e, w1) \<Rightarrow> (Inl e, w1)
        | (Inr full_path, w1) \<Rightarrow>
            case take_lock E (lock ctx) w1 of
              (Inl e, w2) \<Rightarrow> (Inl e, heap_free E w2)
            | (Inr _, w2) \<Rightarrow>
                case ext4_inode_exist E full_path EXT4_DE_DIR w2 of (result, w3) \<Rightarrow>
                case (if result = EOK then (EISDIR, w3) else ext4_fremove E full_path w3) of (result, w4) \<Rightarrow>
                (to_vfs result, heap_free E (give_lock E (lock ctx) w4)))"

section \<open>rename\<close>

record path_info_t =
  inode_number :: u32
  is_directory :: bool

definition path_info_locked :: "('w, 'f, 'd) vfs_env \<Rightarrow> string \<Rightarrow> 'w \<Rightarrow> (errno + path_info_t) \<times> 'w" where
  "path_info_locked E p w =
     (case ext4_raw_inode_fill E p w of (result, number, ino, w1) \<Rightarrow>
      if result \<noteq> EOK then (Inl result, w1)
      else
        case ext4_get_sblock E p w1 of (result, superblock, w2) \<Rightarrow>
        if result \<noteq> EOK then (Inl result, w2)
        else (Inr \<lparr>inode_number = number, is_directory = (ext4_inode_type E superblock ino = 0x4000)\<rparr>, w2))"

text \<open>The scan ends at the first entry that is neither dot nor dot-dot, or at the end; on a
  corrupt directory whose enumeration never ends, so would the C loop.\<close>

definition entry_is_dot :: "ext4_direntry \<Rightarrow> bool" where
  "entry_is_dot entry \<longleftrightarrow> name_length entry = 1 \<and> name entry ! 0 = CHR ''.''
     \<or> name_length entry = 2 \<and> name entry ! 0 = CHR ''.'' \<and> name entry ! 1 = CHR ''.''"

partial_function (option) scan_empty ::
  "('w, 'f, 'd) vfs_env \<Rightarrow> 'd \<Rightarrow> 'w \<Rightarrow> (bool \<times> 'd \<times> 'w) option" where
  "scan_empty E directory w =
     (case ext4_dir_entry_next E directory w of (entry, d1, w1) \<Rightarrow>
      case entry of
        None \<Rightarrow> Some (True, d1, w1)
      | Some e \<Rightarrow> if \<not> entry_is_dot e then Some (False, d1, w1) else scan_empty E d1 w1)"

definition directory_is_empty_locked ::
  "('w, 'f, 'd) vfs_env \<Rightarrow> string \<Rightarrow> 'w \<Rightarrow> (errno \<times> bool \<times> 'w) option" where
  "directory_is_empty_locked E p w =
     (case ext4_dir_open E p w of (result, directory, w1) \<Rightarrow>
      if result \<noteq> EOK then Some (result, False, w1)
      else
        case scan_empty E directory w1 of
          None \<Rightarrow> None
        | Some (no_entries, d2, w2) \<Rightarrow>
            (case ext4_dir_close E d2 w2 of (result, d3, w3) \<Rightarrow> Some (result, no_entries, w3)))"

text \<open>What rename_locked decides about an existing destination, and the removal itself.\<close>

definition rename_remove_dst ::
  "('w, 'f, 'd) vfs_env \<Rightarrow> string \<Rightarrow> string \<Rightarrow> bool \<Rightarrow> 'w \<Rightarrow> (errno \<times> 'w) option" where
  "rename_remove_dst E src dst source_is_directory w =
     (if source_is_directory then
        if path_has_dot_component src \<or> path_has_dot_component dst \<or> path_is_strict_descendant src dst
        then Some (EINVAL, w)
        else
          case directory_is_empty_locked E dst w of
            None \<Rightarrow> None
          | Some (result, destination_empty, w1) \<Rightarrow>
              if result \<noteq> EOK then Some (result, w1)
              else if \<not> destination_empty then Some (ENOTEMPTY, w1)
              else Some (ext4_dir_rm E dst w1)
      else Some (ext4_fremove E dst w))"

definition rename_locked ::
  "('w, 'f, 'd) vfs_env \<Rightarrow> string \<Rightarrow> string \<Rightarrow> 'w \<Rightarrow> (errno \<times> 'w) option" where
  "rename_locked E src dst w =
     (case ext4_frename E src dst w of (result, w1) \<Rightarrow>
      if result \<noteq> EEXIST then Some (result, w1)
      else
        case path_info_locked E src w1 of
          (Inl result, w2) \<Rightarrow> Some (result, w2)
        | (Inr source, w2) \<Rightarrow>
            case path_info_locked E dst w2 of
              (Inl result, w3) \<Rightarrow> Some (result, w3)
            | (Inr destination, w3) \<Rightarrow>
                if inode_number source = inode_number destination then Some (EOK, w3)
                else if is_directory source \<noteq> is_directory destination
                then Some (if is_directory source then ENOTDIR else EISDIR, w3)
                else
                  case rename_remove_dst E src dst (is_directory source) w3 of
                    None \<Rightarrow> None
                  | Some (result, w4) \<Rightarrow>
                      if result \<noteq> EOK then Some (result, w4) else Some (ext4_frename E src dst w4))"

definition vfs_lwext4_rename ::
  "('w, 'f, 'd) vfs_env \<Rightarrow> 'f esp_lwext4 \<Rightarrow> string \<Rightarrow> string \<Rightarrow> 'w \<Rightarrow> ((errno + unit) \<times> 'w) option" where
  "vfs_lwext4_rename E ctx src dst w =
     (if read_only ctx then Some (fail_with_errno EROFS, w)
      else if path_is_mount_root src \<or> path_is_mount_root dst then Some (fail_with_errno EBUSY, w)
      else two_path_operation E ctx (Some src) (Some dst) (rename_locked E) w)"

section \<open>Directory streams\<close>

datatype dirent_kind = DT_REG | DT_DIR | DT_CHR | DT_BLK | DT_FIFO | DT_SOCK | DT_LNK | DT_UNKNOWN

definition dirent_type :: "u8 \<Rightarrow> dirent_kind" where
  "dirent_type t =
     (if t = 1 then DT_REG else if t = 2 then DT_DIR else if t = 3 then DT_CHR
      else if t = 4 then DT_BLK else if t = 5 then DT_FIFO else if t = 6 then DT_SOCK
      else if t = 7 then DT_LNK else DT_UNKNOWN)"

record dirent =
  d_ino :: u32
  d_type :: dirent_kind
  d_name :: string

text \<open>
  A directory stream; \<open>dir_ctx\<close> is the address of its context.  The \<open>DIR\<close> pointer is an
  option; the result entry is passed out instead of through the stream's own buffer.  The
  offset is a 32-bit long, wrapped where the code increments it.
\<close>

record 'd esp_lwext4_dir =
  ext4 :: 'd
  offset :: "32 word"
  dir_ctx :: "nat option"

definition vfs_lwext4_opendir ::
  "('w, 'f, 'd) vfs_env \<Rightarrow> 'f esp_lwext4 \<Rightarrow> string option \<Rightarrow> 'w
     \<Rightarrow> (errno + 'd esp_lwext4_dir) \<times> 'f esp_lwext4 \<times> 'w" where
  "vfs_lwext4_opendir E ctx nm w =
     (case make_path E ctx nm w of
        (Inl e, w1) \<Rightarrow> (Inl e, ctx, w1)
      | (Inr full_path, w1) \<Rightarrow>
          case calloc_ok E 1 (sizeof_dir E) w1 of (ok, w2) \<Rightarrow>
          if \<not> ok then (Inl ENOMEM, ctx, heap_free E w2)
          else
            case take_lock E (lock ctx) w2 of
              (Inl e, w3) \<Rightarrow> (Inl e, ctx, heap_free E (heap_free E w3))
            | (Inr _, w3) \<Rightarrow>
                case ext4_dir_open E full_path w3 of (result, d, w4) \<Rightarrow>
                let w5 = heap_free E (give_lock E (lock ctx) w4) in
                if result \<noteq> EOK then (fail_with_errno result, ctx, heap_free E w5)
                else (Inr \<lparr>ext4 = d, offset = 0, dir_ctx = Some (ctx_id ctx)\<rparr>,
                      ctx\<lparr>open_dirs := open_dirs ctx + 1\<rparr>, w5))"

definition dirent_of :: "ext4_direntry \<Rightarrow> dirent" where
  "dirent_of source = \<lparr>d_ino = de_inode source, d_type = dirent_type (inode_type source),
     d_name = take (unat (name_length source)) (name source)\<rparr>"

text \<open>
  \<open>given\<close>: the entry and out_dirent pointers are not NULL.  The result is the error code and
  \<open>*out_dirent\<close>.
\<close>

definition vfs_lwext4_readdir_r ::
  "('w, 'f, 'd) vfs_env \<Rightarrow> 'f esp_lwext4 \<Rightarrow> 'd esp_lwext4_dir option \<Rightarrow> bool \<Rightarrow> 'w
     \<Rightarrow> (errno + dirent option) \<times> 'd esp_lwext4_dir option \<times> 'w" where
  "vfs_lwext4_readdir_r E ctx pdir given w =
     (case pdir of
        None \<Rightarrow> (Inl EINVAL, pdir, w)
      | Some dir \<Rightarrow>
          if \<not> given \<or> dir_ctx dir \<noteq> Some (ctx_id ctx) then (Inl EINVAL, pdir, w)
          else
            case take_lock E (lock ctx) w of
              (Inl e, w1) \<Rightarrow> (Inl e, pdir, w1)
            | (Inr _, w1) \<Rightarrow>
                case ext4_dir_entry_next E (ext4 dir) w1 of (source, d, w2) \<Rightarrow>
                case source of
                  None \<Rightarrow> (Inr None, Some (dir\<lparr>ext4 := d\<rparr>), give_lock E (lock ctx) w2)
                | Some entry \<Rightarrow>
                    (Inr (Some (dirent_of entry)), Some (dir\<lparr>ext4 := d, offset := offset dir + 1\<rparr>),
                     give_lock E (lock ctx) w2))"

definition vfs_lwext4_readdir ::
  "('w, 'f, 'd) vfs_env \<Rightarrow> 'f esp_lwext4 \<Rightarrow> 'd esp_lwext4_dir option \<Rightarrow> 'w
     \<Rightarrow> (errno + dirent option) \<times> 'd esp_lwext4_dir option \<times> 'w" where
  "vfs_lwext4_readdir E ctx pdir w = vfs_lwext4_readdir_r E ctx pdir True w"

definition vfs_lwext4_telldir ::
  "('w, 'f, 'd) vfs_env \<Rightarrow> 'f esp_lwext4 \<Rightarrow> 'd esp_lwext4_dir option \<Rightarrow> 'w \<Rightarrow> (errno + 32 word) \<times> 'w" where
  "vfs_lwext4_telldir E ctx pdir w =
     (case pdir of
        None \<Rightarrow> (Inl EINVAL, w)
      | Some dir \<Rightarrow>
          if dir_ctx dir \<noteq> Some (ctx_id ctx) then (Inl EINVAL, w)
          else
            case take_lock E (lock ctx) w of
              (Inl e, w1) \<Rightarrow> (Inl e, w1)
            | (Inr _, w1) \<Rightarrow> (Inr (offset dir), give_lock E (lock ctx) w1))"

lemma sint_next: "sint (a :: 32 word) < sint (b :: 32 word) \<Longrightarrow> sint (a + 1) = sint a + 1"
proof -
  assume "sint a < sint b"
  moreover have "sint b < 2 ^ 31" using sint_lt [of b] by simp
  moreover have "- (2 ^ 31) \<le> sint a" using sint_ge [of a] by simp
  ultimately show ?thesis by (simp add: sint_word_ariths signed_take_bit_int_eq_self)
qed

text \<open>The forward loop of seekdir; it ends because the offset grows up to the target.\<close>

function seekdir_loop ::
  "('w, 'f, 'd) vfs_env \<Rightarrow> 32 word \<Rightarrow> 'd esp_lwext4_dir \<Rightarrow> 'w \<Rightarrow> 'd esp_lwext4_dir \<times> 'w" where
  "seekdir_loop E target dir w =
     (if sint (offset dir) < sint target then
        (case ext4_dir_entry_next E (ext4 dir) w of (entry, d, w1) \<Rightarrow>
         if entry = None then (dir\<lparr>ext4 := d\<rparr>, w1)
         else seekdir_loop E target (dir\<lparr>ext4 := d, offset := offset dir + 1\<rparr>) w1)
      else (dir, w))"
  by pat_completeness auto
termination
proof (relation "measure (\<lambda>(E, target, dir, w). nat (sint target - sint (offset dir)))", goal_cases)
  case 1 show ?case by simp
next
  case (2 E target dir w)
  have "sint (offset dir + 1) = sint (offset dir) + 1" using 2(1) by (rule sint_next)
  then show ?case using 2(1) by simp
qed

declare seekdir_loop.simps [simp del]

definition vfs_lwext4_seekdir ::
  "('w, 'f, 'd) vfs_env \<Rightarrow> 'f esp_lwext4 \<Rightarrow> 'd esp_lwext4_dir option \<Rightarrow> 32 word \<Rightarrow> 'w
     \<Rightarrow> (errno + unit) \<times> 'd esp_lwext4_dir option \<times> 'w" where
  "vfs_lwext4_seekdir E ctx pdir target w =
     (case pdir of
        None \<Rightarrow> (Inl EINVAL, pdir, w)
      | Some dir \<Rightarrow>
          if dir_ctx dir \<noteq> Some (ctx_id ctx) \<or> sint target < 0 then (Inl EINVAL, pdir, w)
          else
            case take_lock E (lock ctx) w of
              (Inl e, w1) \<Rightarrow> (Inl e, pdir, w1)
            | (Inr _, w1) \<Rightarrow>
                let dir1 = (if sint target < sint (offset dir)
                            then dir\<lparr>ext4 := ext4_dir_entry_rewind E (ext4 dir), offset := 0\<rparr> else dir) in
                case seekdir_loop E target dir1 w1 of (dir2, w2) \<Rightarrow>
                (Inr (), Some dir2, give_lock E (lock ctx) w2))"

text \<open>A closed stream is freed: the resulting pointer is None.\<close>

definition vfs_lwext4_closedir ::
  "('w, 'f, 'd) vfs_env \<Rightarrow> 'f esp_lwext4 \<Rightarrow> 'd esp_lwext4_dir option \<Rightarrow> 'w
     \<Rightarrow> (errno + unit) \<times> 'd esp_lwext4_dir option \<times> 'f esp_lwext4 \<times> 'w" where
  "vfs_lwext4_closedir E ctx pdir w =
     (case pdir of
        None \<Rightarrow> (fail_with_errno EINVAL, pdir, ctx, w)
      | Some dir \<Rightarrow>
          if dir_ctx dir \<noteq> Some (ctx_id ctx) then (fail_with_errno EINVAL, pdir, ctx, w)
          else
            case take_lock E (lock ctx) w of
              (Inl e, w1) \<Rightarrow> (Inl e, pdir, ctx, w1)
            | (Inr _, w1) \<Rightarrow>
                case ext4_dir_close E (ext4 dir) w1 of (result, d, w2) \<Rightarrow>
                let w3 = give_lock E (lock ctx) w2 in
                if result \<noteq> EOK then (fail_with_errno result, Some (dir\<lparr>ext4 := d\<rparr>), ctx, w3)
                else (Inr (), None, ctx\<lparr>open_dirs := open_dirs ctx - 1\<rparr>, heap_free E w3))"

section \<open>mkdir, rmdir, access, utime\<close>

definition vfs_lwext4_mkdir ::
  "('w, 'f, 'd) vfs_env \<Rightarrow> 'f esp_lwext4 \<Rightarrow> string option \<Rightarrow> u32 \<Rightarrow> 'w \<Rightarrow> (errno + unit) \<times> 'w" where
  "vfs_lwext4_mkdir E ctx nm mode w =
     (if read_only ctx then (fail_with_errno EROFS, w)
      else
        case make_path E ctx nm w of
          (Inl e, w1) \<Rightarrow> (Inl e, w1)
        | (Inr full_path, w1) \<Rightarrow>
            case take_lock E (lock ctx) w1 of
              (Inl e, w2) \<Rightarrow> (Inl e, heap_free E w2)
            | (Inr _, w2) \<Rightarrow>
                case ext4_inode_exist E full_path EXT4_DE_UNKNOWN w2 of (r1, w3) \<Rightarrow>
                case (if r1 = EOK then (EEXIST, w3)
                      else if r1 = ENOENT then ext4_dir_mk E full_path w3 else (r1, w3)) of (r2, w4) \<Rightarrow>
                case (if r2 = EOK then ext4_mode_set E full_path mode w4 else (r2, w4)) of (r3, w5) \<Rightarrow>
                (to_vfs r3, heap_free E (give_lock E (lock ctx) w5)))"

definition vfs_lwext4_rmdir ::
  "('w, 'f, 'd) vfs_env \<Rightarrow> 'f esp_lwext4 \<Rightarrow> string \<Rightarrow> 'w \<Rightarrow> ((errno + unit) \<times> 'w) option" where
  "vfs_lwext4_rmdir E ctx nm w =
     (if read_only ctx then Some (fail_with_errno EROFS, w)
      else if path_is_mount_root nm then Some (fail_with_errno EBUSY, w)
      else
        case make_path E ctx (Some nm) w of
          (Inl e, w1) \<Rightarrow> Some (Inl e, w1)
        | (Inr full_path, w1) \<Rightarrow>
            case take_lock E (lock ctx) w1 of
              (Inl e, w2) \<Rightarrow> Some (Inl e, heap_free E w2)
            | (Inr _, w2) \<Rightarrow>
                case directory_is_empty_locked E full_path w2 of
                  None \<Rightarrow> None
                | Some (r1, no_entries, w3) \<Rightarrow>
                    (case (if r1 = EOK then (if no_entries then ext4_dir_rm E full_path w3 else (ENOTEMPTY, w3))
                           else (r1, w3)) of (r2, w4) \<Rightarrow>
                     Some (to_vfs r2, heap_free E (give_lock E (lock ctx) w4))))"

abbreviation (input) F_OK :: u32 where "F_OK \<equiv> 0"
abbreviation (input) X_OK :: u32 where "X_OK \<equiv> 1"
abbreviation (input) W_OK :: u32 where "W_OK \<equiv> 2"
abbreviation (input) R_OK :: u32 where "R_OK \<equiv> 4"

definition vfs_lwext4_access ::
  "('w, 'f, 'd) vfs_env \<Rightarrow> 'f esp_lwext4 \<Rightarrow> string option \<Rightarrow> u32 \<Rightarrow> 'w \<Rightarrow> (errno + unit) \<times> 'w" where
  "vfs_lwext4_access E ctx p amode w =
     (if amode AND NOT (R_OK OR W_OK OR X_OK) \<noteq> 0 then (fail_with_errno EINVAL, w)
      else if amode AND W_OK \<noteq> 0 \<and> read_only ctx then (fail_with_errno EROFS, w)
      else
        case vfs_lwext4_stat E ctx p True w of
          (Inl e, w1) \<Rightarrow> (Inl e, w1)
        | (Inr st, w1) \<Rightarrow>
            if amode = F_OK then (Inr (), w1)
            else if (amode AND R_OK \<noteq> 0 \<and> st_mode st AND 0x124 = 0)
              \<or> (amode AND W_OK \<noteq> 0 \<and> st_mode st AND 0x92 = 0)
              \<or> (amode AND X_OK \<noteq> 0 \<and> st_mode st AND 0x49 = 0)
            then (fail_with_errno EACCES, w1)
            else (Inr (), w1))"

text \<open>\<open>times_arg\<close> holds actime and modtime, as time_t values.\<close>

definition vfs_lwext4_utime ::
  "('w, 'f, 'd) vfs_env \<Rightarrow> 'f esp_lwext4 \<Rightarrow> string option \<Rightarrow> (int \<times> int) option \<Rightarrow> 'w \<Rightarrow> (errno + unit) \<times> 'w" where
  "vfs_lwext4_utime E ctx p times_arg w =
     (if read_only ctx then (fail_with_errno EROFS, w)
      else
        case (case times_arg of
                None \<Rightarrow> (case current_time E w of (t, w1) \<Rightarrow> ((t, t), w1))
              | Some tm \<Rightarrow> (tm, w)) of ((actime, modtime), w1) \<Rightarrow>
        if actime < 0 \<or> modtime < 0 \<or> actime > 4294967295 \<or> modtime > 4294967295
        then (fail_with_errno EOVERFLOW, w1)
        else
          case make_path E ctx p w1 of
            (Inl e, w2) \<Rightarrow> (Inl e, w2)
          | (Inr full_path, w2) \<Rightarrow>
              case take_lock E (lock ctx) w2 of
                (Inl e, w3) \<Rightarrow> (Inl e, heap_free E w3)
              | (Inr _, w3) \<Rightarrow>
                  case ext4_atime_set E full_path (word_of_int actime) w3 of (r1, w4) \<Rightarrow>
                  case (if r1 = EOK then ext4_mtime_set E full_path (word_of_int modtime) w4
                        else (r1, w4)) of (r2, w5) \<Rightarrow>
                  (to_vfs r2, heap_free E (give_lock E (lock ctx) w5)))"

end
