(* ===== verification/Vfs_Mount.thy ===== *)
theory Vfs_Mount
  imports Vfs_Dir
begin

text \<open>
  Registration in port/esp_lwext4.c: the list of contexts with its lazily created mutex,
  esp_vfs_lwext4_register, esp_vfs_lwext4_unregister and esp_vfs_lwext4_rmdir_recurse.
\<close>

section \<open>The registry\<close>

text \<open>The static variables s_contexts and s_contexts_lock.\<close>

record 'f registry =
  s_contexts :: "'f esp_lwext4 list"
  s_contexts_lock :: "nat option"

text \<open>
  Two critical sections with the creation in between.  When another task stored its mutex
  meanwhile, that one is used and the candidate deleted.
\<close>

definition contexts_lock_get ::
  "('w, 'f, 'd) vfs_env \<Rightarrow> 'f registry \<Rightarrow> 'w \<Rightarrow> nat option \<times> 'f registry \<times> 'w" where
  "contexts_lock_get E st w =
     (case s_contexts_lock st of
        Some l \<Rightarrow> (Some l, st, w)
      | None \<Rightarrow>
          (case xSemaphoreCreateMutex E w of (created, w1) \<Rightarrow>
           case created of
             None \<Rightarrow> (None, st, w1)
           | Some candidate \<Rightarrow>
               (case stored_meanwhile E w1 of
                  None \<Rightarrow> (Some candidate, st\<lparr>s_contexts_lock := Some candidate\<rparr>, w1)
                | Some l \<Rightarrow> (Some l, st\<lparr>s_contexts_lock := Some l\<rparr>, vSemaphoreDelete E candidate w1))))"

section \<open>Freeing a context\<close>

text \<open>
  What context_free looks at: the pointers of a context, some of them NULL when it was only
  partly allocated.
\<close>

record ctx_parts =
  base_path_given :: bool
  mount_point_given :: bool
  files_given :: bool
  grow_buffer_given :: bool
  lock_given :: "nat option"

definition parts_of :: "'f esp_lwext4 \<Rightarrow> ctx_parts" where
  "parts_of ctx = \<lparr>base_path_given = True, mount_point_given = True, files_given = True,
     grow_buffer_given = (grow_buffer ctx \<noteq> None), lock_given = Some (lock ctx)\<rparr>"

definition free_if :: "('w, 'f, 'd) vfs_env \<Rightarrow> bool \<Rightarrow> 'w \<Rightarrow> 'w" where
  "free_if E given w = (if given then heap_free E w else w)"

definition context_free :: "('w, 'f, 'd) vfs_env \<Rightarrow> ctx_parts option \<Rightarrow> 'w \<Rightarrow> 'w" where
  "context_free E parts w =
     (case parts of
        None \<Rightarrow> w
      | Some c \<Rightarrow>
          let w1 = (case lock_given c of None \<Rightarrow> w | Some l \<Rightarrow> vSemaphoreDelete E l w);
              w2 = free_if E (grow_buffer_given c) w1;
              w3 = free_if E (files_given c) w2;
              w4 = free_if E (mount_point_given c) w3;
              w5 = free_if E (base_path_given c) w4 in
          heap_free E w5)"

fun lwext4_error_to_esp :: "errno \<Rightarrow> esp_err" where
  "lwext4_error_to_esp EOK = ESP_OK"
| "lwext4_error_to_esp EINVAL = ESP_ERR_INVALID_ARG"
| "lwext4_error_to_esp ENOTDIR = ESP_ERR_INVALID_ARG"
| "lwext4_error_to_esp EISDIR = ESP_ERR_INVALID_ARG"
| "lwext4_error_to_esp ENOENT = ESP_ERR_NOT_FOUND"
| "lwext4_error_to_esp ENOMEM = ESP_ERR_NO_MEM"
| "lwext4_error_to_esp EROFS = ESP_ERR_INVALID_STATE"
| "lwext4_error_to_esp ENOTSUP = ESP_ERR_NOT_SUPPORTED"
| "lwext4_error_to_esp _ = ESP_FAIL"

section \<open>Registration\<close>

record esp_vfs_lwext4_conf =
  conf_base_path :: "string option"
  conf_mount_point :: "string option"
  conf_max_files :: u32
  conf_read_only :: bool

abbreviation (input) ESP_VFS_FLAG_CONTEXT_PTR :: u32 where "ESP_VFS_FLAG_CONTEXT_PTR \<equiv> 1"
abbreviation (input) ESP_VFS_FLAG_READONLY_FS :: u32 where "ESP_VFS_FLAG_READONLY_FS \<equiv> 2"
abbreviation (input) ESP_VFS_FLAG_STATIC :: u32 where "ESP_VFS_FLAG_STATIC \<equiv> 4"

definition register_args_ok :: "('w, 'f, 'd) vfs_env \<Rightarrow> esp_vfs_lwext4_conf option \<Rightarrow> bool" where
  "register_args_ok E conf =
     (case conf of
        None \<Rightarrow> False
      | Some c \<Rightarrow>
          (case (conf_base_path c, conf_mount_point c) of
             (Some bp, Some mp) \<Rightarrow>
               \<not> (conf_max_files c = 0 \<or> conf_max_files c > 0x7FFFFFFF)
               \<and> \<not> (strlen bp < 2 \<or> strlen bp > esp_vfs_path_max E \<or> bp ! 0 \<noteq> slash
                  \<or> bp ! (unat (strlen bp) - 1) = slash \<or> strlen mp = 0 \<or> strlen mp > ext4_max_mp_name E
                  \<or> mp ! 0 \<noteq> slash
                  \<or> (mp ! (unat (strlen mp) - 1) \<noteq> slash \<and> strlen mp = ext4_max_mp_name E))
           | _ \<Rightarrow> False))"

text \<open>
  The five allocations, each attempted whatever became of the others: \<open>Inr\<close> the context,
  or \<open>Inl\<close> the pointers obtained when one of them failed.
\<close>

definition alloc_context ::
  "('w, 'f, 'd) vfs_env \<Rightarrow> esp_vfs_lwext4_conf \<Rightarrow> nat \<Rightarrow> 'w \<Rightarrow> (ctx_parts + 'f esp_lwext4) \<times> 'w" where
  "alloc_context E c addr w =
     (case malloc_ok E (strlen (the (conf_base_path c)) + 1) w of (base_ok, w1) \<Rightarrow>
      case normalize_mount_point E (conf_mount_point c) w1 of (mp, w2) \<Rightarrow>
      case calloc_ok E (conf_max_files c) (sizeof_entry E) w2 of (files_ok, w3) \<Rightarrow>
      case xSemaphoreCreateMutex E w3 of (mutex, w4) \<Rightarrow>
      case (if \<not> conf_read_only c then calloc_ok E 1 (vfs_grow_buffer_size E) w4
            else (False, w4)) of (grow_ok, w5) \<Rightarrow>
      if \<not> base_ok \<or> mp = None \<or> \<not> files_ok \<or> mutex = None
        \<or> (\<not> conf_read_only c \<and> (\<not> grow_ok \<or> vfs_grow_buffer_size E = 0))
      then (Inl \<lparr>base_path_given = base_ok, mount_point_given = (mp \<noteq> None), files_given = files_ok,
              grow_buffer_given = grow_ok, lock_given = mutex\<rparr>, w5)
      else (Inr \<lparr>ctx_id = addr, base_path = the (conf_base_path c), mount_point = the mp,
              files = replicate (unat (conf_max_files c)) (zero_entry E), max_files = conf_max_files c,
              open_files = 0, open_dirs = 0,
              grow_buffer = (if conf_read_only c then None
                             else Some (replicate (unat (vfs_grow_buffer_size E)) 0)),
              grow_buffer_size = (if conf_read_only c then 0 else vfs_grow_buffer_size E),
              read_only = conf_read_only c, lock = the mutex\<rparr>, w5))"

text \<open>Under the lock of the registry: the uniqueness check and the registration with the VFS.\<close>

definition register_locked ::
  "('w, 'f, 'd) vfs_env \<Rightarrow> 'f esp_lwext4 \<Rightarrow> nat \<Rightarrow> 'f registry \<Rightarrow> 'w \<Rightarrow> esp_err \<times> 'f registry \<times> 'w" where
  "register_locked E ctx contexts_lock st w =
     (if list_ex (\<lambda>item. base_path item = base_path ctx \<or> mount_point item = mount_point ctx) (s_contexts st)
      then (ESP_ERR_INVALID_STATE, st, context_free E (Some (parts_of ctx)) (give_lock E contexts_lock w))
      else
        let flags = (ESP_VFS_FLAG_STATIC OR ESP_VFS_FLAG_CONTEXT_PTR)
              OR (if read_only ctx then ESP_VFS_FLAG_READONLY_FS else 0) in
        case esp_vfs_register_fs E (base_path ctx) flags w of (error, w1) \<Rightarrow>
        if error = ESP_OK
        then (ESP_OK, st\<lparr>s_contexts := ctx # s_contexts st\<rparr>, give_lock E contexts_lock w1)
        else (error, st, context_free E (Some (parts_of ctx)) (give_lock E contexts_lock w1)))"

definition esp_vfs_lwext4_register ::
  "('w, 'f, 'd) vfs_env \<Rightarrow> esp_vfs_lwext4_conf option \<Rightarrow> 'f registry \<Rightarrow> 'w \<Rightarrow> esp_err \<times> 'f registry \<times> 'w" where
  "esp_vfs_lwext4_register E conf st w =
     (if \<not> register_args_ok E conf then (ESP_ERR_INVALID_ARG, st, w)
      else
        case calloc_ok E 1 (sizeof_ctx E) w of (ok, w1) \<Rightarrow>
        if \<not> ok then (ESP_ERR_NO_MEM, st, w1)
        else
          case alloc_context E (the conf) (calloc_addr E w1) w1 of
            (Inl parts, w2) \<Rightarrow> (ESP_ERR_NO_MEM, st, context_free E (Some parts) w2)
          | (Inr ctx, w2) \<Rightarrow>
              case ext4_mount_point_stats E (mount_point ctx) w2 of (result, _, w3) \<Rightarrow>
              if result \<noteq> EOK
              then (ESP_ERR_INVALID_STATE, st, context_free E (Some (parts_of ctx)) w3)
              else
                case contexts_lock_get E st w3 of
                  (None, st1, w4) \<Rightarrow> (ESP_ERR_NO_MEM, st1, context_free E (Some (parts_of ctx)) w4)
                | (Some contexts_lock, st1, w4) \<Rightarrow>
                    case take_lock E contexts_lock w4 of
                      (Inl _, w5) \<Rightarrow> (ESP_FAIL, st1, context_free E (Some (parts_of ctx)) w5)
                    | (Inr _, w5) \<Rightarrow> register_locked E ctx contexts_lock st1 w5)"

section \<open>Unregistration\<close>

text \<open>The search by base path, and the list with that entry unlinked.\<close>

fun find_context :: "string \<Rightarrow> 'f esp_lwext4 list \<Rightarrow> 'f esp_lwext4 option" where
  "find_context bp [] = None"
| "find_context bp (c # cs) = (if base_path c = bp then Some c else find_context bp cs)"

fun unlink_context :: "string \<Rightarrow> 'f esp_lwext4 list \<Rightarrow> 'f esp_lwext4 list" where
  "unlink_context bp [] = []"
| "unlink_context bp (c # cs) = (if base_path c = bp then cs else c # unlink_context bp cs)"

definition esp_vfs_lwext4_unregister ::
  "('w, 'f, 'd) vfs_env \<Rightarrow> string option \<Rightarrow> 'f registry \<Rightarrow> 'w \<Rightarrow> esp_err \<times> 'f registry \<times> 'w" where
  "esp_vfs_lwext4_unregister E bp_arg st w =
     (case bp_arg of
        None \<Rightarrow> (ESP_ERR_INVALID_ARG, st, w)
      | Some bp \<Rightarrow>
          case contexts_lock_get E st w of
            (None, st1, w1) \<Rightarrow> (ESP_ERR_NO_MEM, st1, w1)
          | (Some contexts_lock, st1, w1) \<Rightarrow>
              case take_lock E contexts_lock w1 of
                (Inl _, w2) \<Rightarrow> (ESP_FAIL, st1, w2)
              | (Inr _, w2) \<Rightarrow>
                  case find_context bp (s_contexts st1) of
                    None \<Rightarrow> (ESP_ERR_INVALID_STATE, st1, give_lock E contexts_lock w2)
                  | Some ctx \<Rightarrow>
                      case take_lock E (lock ctx) w2 of
                        (Inl _, w3) \<Rightarrow> (ESP_FAIL, st1, give_lock E contexts_lock w3)
                      | (Inr _, w3) \<Rightarrow>
                          if open_files ctx \<noteq> 0 \<or> open_dirs ctx \<noteq> 0
                          then (ESP_ERR_INVALID_STATE, st1,
                                give_lock E contexts_lock (give_lock E (lock ctx) w3))
                          else
                            case esp_vfs_unregister_fs E bp w3 of (error, w4) \<Rightarrow>
                            let w5 = give_lock E contexts_lock (give_lock E (lock ctx) w4) in
                            if error = ESP_OK
                            then (ESP_OK, st1\<lparr>s_contexts := unlink_context bp (s_contexts st1)\<rparr>,
                                  context_free E (Some (parts_of ctx)) w5)
                            else (error, st1, w5))"

section \<open>Recursive removal\<close>

text \<open>The loop over the contexts, with the longest match so far.\<close>

fun match_context ::
  "string \<Rightarrow> 'f esp_lwext4 list \<Rightarrow> ('f esp_lwext4 \<times> string) option \<Rightarrow> nat \<Rightarrow> ('f esp_lwext4 \<times> string) option" where
  "match_context p [] best matched_prefix_length = best"
| "match_context p (item # rest) best matched_prefix_length =
     (let prefix_length = length (base_path item) in
      if take prefix_length p = base_path item
        \<and> (drop prefix_length p = [] \<or> p ! prefix_length = slash)
        \<and> prefix_length > matched_prefix_length
      then match_context p rest (Some (item, drop prefix_length p)) prefix_length
      else match_context p rest best matched_prefix_length)"

text \<open>The existence checks and the removal.\<close>

definition remove_tree :: "('w, 'f, 'd) vfs_env \<Rightarrow> string \<Rightarrow> 'w \<Rightarrow> errno \<times> 'w" where
  "remove_tree E lwext4_path w =
     (case ext4_inode_exist E lwext4_path EXT4_DE_DIR w of (r1, w1) \<Rightarrow>
      case (if r1 = ENOENT then
              (case ext4_inode_exist E lwext4_path EXT4_DE_UNKNOWN w1 of (any_type_result, w2) \<Rightarrow>
               (if any_type_result = EOK then ENOTDIR else any_type_result, w2))
            else (r1, w1)) of (r2, w3) \<Rightarrow>
      if r2 = EOK then ext4_dir_rm E lwext4_path w3 else (r2, w3))"

definition esp_vfs_lwext4_rmdir_recurse ::
  "('w, 'f, 'd) vfs_env \<Rightarrow> string option \<Rightarrow> 'f registry \<Rightarrow> 'w \<Rightarrow> esp_err \<times> 'f registry \<times> 'w" where
  "esp_vfs_lwext4_rmdir_recurse E path_arg st w =
     (if path_arg = None \<or> the path_arg = [] \<or> the path_arg ! 0 \<noteq> slash then (ESP_ERR_INVALID_ARG, st, w)
      else
        case contexts_lock_get E st w of
          (None, st1, w1) \<Rightarrow> (ESP_ERR_NO_MEM, st1, w1)
        | (Some contexts_lock, st1, w1) \<Rightarrow>
            case take_lock E contexts_lock w1 of
              (Inl _, w2) \<Rightarrow> (ESP_FAIL, st1, w2)
            | (Inr _, w2) \<Rightarrow>
                case match_context (the path_arg) (s_contexts st1) None 0 of
                  None \<Rightarrow> (ESP_ERR_NOT_SUPPORTED, st1, give_lock E contexts_lock w2)
                | Some (ctx, relative_path) \<Rightarrow>
                    case take_lock E (lock ctx) w2 of
                      (Inl _, w3) \<Rightarrow> (ESP_FAIL, st1, give_lock E contexts_lock w3)
                    | (Inr _, w3') \<Rightarrow>
                        let w3 = give_lock E contexts_lock w3' in
                        if path_is_mount_root relative_path \<or> path_has_dot_component relative_path
                        then (ESP_ERR_INVALID_ARG, st1, give_lock E (lock ctx) w3)
                        else if read_only ctx \<or> open_files ctx \<noteq> 0 \<or> open_dirs ctx \<noteq> 0
                        then (ESP_ERR_INVALID_STATE, st1, give_lock E (lock ctx) w3)
                        else
                          case make_path E ctx (Some relative_path) w3 of
                            (Inl e, w4) \<Rightarrow>
                              (if e = ENOMEM then ESP_ERR_NO_MEM else ESP_ERR_INVALID_ARG, st1,
                               give_lock E (lock ctx) w4)
                          | (Inr lwext4_path, w4) \<Rightarrow>
                              case remove_tree E lwext4_path w4 of (result, w5) \<Rightarrow>
                              (lwext4_error_to_esp result, st1, give_lock E (lock ctx) (heap_free E w5)))"

end
