(* ===== verification/Vfs_Balance.thy ===== *)
theory Vfs_Balance
  imports Vfs_Mount
begin

text \<open>
  The resources of the VFS adapter.  \<open>held l w\<close> counts how often the mutex \<open>l\<close> is taken and
  \<open>live w\<close> the allocations and mutexes that exist; what the operating system promises about
  them is \<open>os_laws\<close>, and lwext4's functions leave both alone (\<open>neutral\<close>).  Every operation
  of the adapter is shown to give back each lock it takes and each path it builds, on every
  branch, whatever lwext4 returns.
\<close>

named_theorems balance \<open>effect of each operation on locks and heap\<close>

section \<open>What the environment promises\<close>

definition neutral :: "('w \<Rightarrow> 'x) \<Rightarrow> ('w, 'f, 'd) vfs_env \<Rightarrow> bool" where
  "neutral X E \<longleftrightarrow>
     (\<forall>f p fl w. X (snd (snd (ext4_fopen2 E f p fl w))) = X w)
     \<and> (\<forall>f w. X (snd (snd (ext4_fclose E f w))) = X w)
     \<and> (\<forall>f d n w. X (snd (snd (snd (snd (ext4_fread E f d n w))))) = X w)
     \<and> (\<forall>f d n w. X (snd (snd (snd (ext4_fwrite E f d n w)))) = X w)
     \<and> (\<forall>f n w. X (snd (snd (ext4_ftruncate E f n w))) = X w)
     \<and> (\<forall>p t w. X (snd (ext4_inode_exist E p t w)) = X w)
     \<and> (\<forall>p w. X (snd (snd (snd (ext4_raw_inode_fill E p w)))) = X w)
     \<and> (\<forall>p w. X (snd (snd (ext4_get_sblock E p w))) = X w)
     \<and> (\<forall>p w. X (snd (snd (ext4_mount_point_stats E p w))) = X w)
     \<and> (\<forall>p w. X (snd (ext4_cache_flush E p w)) = X w)
     \<and> (\<forall>p w. X (snd (snd (ext4_dir_open E p w))) = X w)
     \<and> (\<forall>d w. X (snd (snd (ext4_dir_entry_next E d w))) = X w)
     \<and> (\<forall>d w. X (snd (snd (ext4_dir_close E d w))) = X w)
     \<and> (\<forall>p q w. X (snd (ext4_flink E p q w)) = X w)
     \<and> (\<forall>p q w. X (snd (ext4_frename E p q w)) = X w)
     \<and> (\<forall>p w. X (snd (ext4_fremove E p w)) = X w)
     \<and> (\<forall>p w. X (snd (ext4_dir_rm E p w)) = X w)
     \<and> (\<forall>p w. X (snd (ext4_dir_mk E p w)) = X w)
     \<and> (\<forall>p n w. X (snd (ext4_mode_set E p n w)) = X w)
     \<and> (\<forall>p n w. X (snd (ext4_atime_set E p n w)) = X w)
     \<and> (\<forall>p n w. X (snd (ext4_mtime_set E p n w)) = X w)
     \<and> (\<forall>w. X (snd (current_time E w)) = X w)
     \<and> (\<forall>p fl w. X (snd (esp_vfs_register_fs E p fl w)) = X w)
     \<and> (\<forall>p w. X (snd (esp_vfs_unregister_fs E p w)) = X w)"

lemma neutralD:
  assumes "neutral X E"
  shows "X (snd (snd (ext4_fopen2 E f p fl w))) = X w"
    "X (snd (snd (ext4_fclose E f w))) = X w"
    "X (snd (snd (snd (snd (ext4_fread E f d n w))))) = X w"
    "X (snd (snd (snd (ext4_fwrite E f d n w)))) = X w"
    "X (snd (snd (ext4_ftruncate E f m w))) = X w"
    "X (snd (ext4_inode_exist E p t w)) = X w"
    "X (snd (snd (snd (ext4_raw_inode_fill E p w)))) = X w"
    "X (snd (snd (ext4_get_sblock E p w))) = X w"
    "X (snd (snd (ext4_mount_point_stats E p w))) = X w"
    "X (snd (ext4_cache_flush E p w)) = X w"
    "X (snd (snd (ext4_dir_open E p w))) = X w"
    "X (snd (snd (ext4_dir_entry_next E dd w))) = X w"
    "X (snd (snd (ext4_dir_close E dd w))) = X w"
    "X (snd (ext4_flink E p q w)) = X w"
    "X (snd (ext4_frename E p q w)) = X w"
    "X (snd (ext4_fremove E p w)) = X w"
    "X (snd (ext4_dir_rm E p w)) = X w"
    "X (snd (ext4_dir_mk E p w)) = X w"
    "X (snd (ext4_mode_set E p n w)) = X w"
    "X (snd (ext4_atime_set E p n w)) = X w"
    "X (snd (ext4_mtime_set E p n w)) = X w"
    "X (snd (current_time E w)) = X w"
    "X (snd (esp_vfs_register_fs E p fl w)) = X w"
    "X (snd (esp_vfs_unregister_fs E p w)) = X w"
  using assms [unfolded neutral_def] by simp_all

text \<open>FreeRTOS mutexes and the C library's heap.\<close>

definition os_laws :: "(nat \<Rightarrow> 'w \<Rightarrow> int) \<Rightarrow> ('w \<Rightarrow> int) \<Rightarrow> ('w, 'f, 'd) vfs_env \<Rightarrow> bool" where
  "os_laws held live E \<longleftrightarrow>
     (\<forall>k l w. held k (snd (xSemaphoreTake E l w))
        = held k w + (if fst (xSemaphoreTake E l w) \<and> k = l then 1 else 0))
     \<and> (\<forall>l w. live (snd (xSemaphoreTake E l w)) = live w)
     \<and> (\<forall>k l w. held k (xSemaphoreGive E l w) = held k w - (if k = l then 1 else 0))
     \<and> (\<forall>l w. live (xSemaphoreGive E l w) = live w)
     \<and> (\<forall>k w. held k (snd (xSemaphoreCreateMutex E w)) = held k w)
     \<and> (\<forall>w. live (snd (xSemaphoreCreateMutex E w))
        = live w + (if fst (xSemaphoreCreateMutex E w) = None then 0 else 1))
     \<and> (\<forall>k l w. held k (vSemaphoreDelete E l w) = held k w)
     \<and> (\<forall>l w. live (vSemaphoreDelete E l w) = live w - 1)
     \<and> (\<forall>k n w. held k (snd (malloc_ok E n w)) = held k w)
     \<and> (\<forall>n w. live (snd (malloc_ok E n w)) = live w + (if fst (malloc_ok E n w) then 1 else 0))
     \<and> (\<forall>k m n w. held k (snd (calloc_ok E m n w)) = held k w)
     \<and> (\<forall>m n w. live (snd (calloc_ok E m n w)) = live w + (if fst (calloc_ok E m n w) then 1 else 0))
     \<and> (\<forall>k w. held k (heap_free E w) = held k w)
     \<and> (\<forall>w. live (heap_free E w) = live w - 1)"

lemma os_lawsD:
  assumes "os_laws held live E"
  shows "held k (snd (xSemaphoreTake E l w))
      = held k w + (if fst (xSemaphoreTake E l w) \<and> k = l then 1 else 0)"
    "live (snd (xSemaphoreTake E l w)) = live w"
    "held k (xSemaphoreGive E l w) = held k w - (if k = l then 1 else 0)"
    "live (xSemaphoreGive E l w) = live w"
    "held k (snd (xSemaphoreCreateMutex E w)) = held k w"
    "live (snd (xSemaphoreCreateMutex E w))
      = live w + (if fst (xSemaphoreCreateMutex E w) = None then 0 else 1)"
    "held k (vSemaphoreDelete E l w) = held k w"
    "live (vSemaphoreDelete E l w) = live w - 1"
    "held k (snd (malloc_ok E n w)) = held k w"
    "live (snd (malloc_ok E n w)) = live w + (if fst (malloc_ok E n w) then 1 else 0)"
    "held k (snd (calloc_ok E m n w)) = held k w"
    "live (snd (calloc_ok E m n w)) = live w + (if fst (calloc_ok E m n w) then 1 else 0)"
    "held k (heap_free E w) = held k w"
    "live (heap_free E w) = live w - 1"
  using assms [unfolded os_laws_def] by simp_all

definition env_laws :: "(nat \<Rightarrow> 'w \<Rightarrow> int) \<Rightarrow> ('w \<Rightarrow> int) \<Rightarrow> ('w, 'f, 'd) vfs_env \<Rightarrow> bool" where
  "env_laws held live E \<longleftrightarrow> os_laws held live E \<and> neutral live E \<and> (\<forall>l. neutral (held l) E)"

lemma env_lawsD:
  assumes "env_laws held live E"
  shows "os_laws held live E" "neutral live E" "neutral (held l) E"
  using assms by (simp_all add: env_laws_def)

lemmas env_rules = os_lawsD [OF env_lawsD(1)] neutralD [OF env_lawsD(2)] neutralD [OF env_lawsD(3)]

section \<open>Helpers\<close>

lemma take_lock_balance [balance]:
  assumes "env_laws held live E"
  shows "live (snd (take_lock E l w)) = live w"
    "held k (snd (take_lock E l w)) = held k w + (if k = l \<and> \<not> isl (fst (take_lock E l w)) then 1 else 0)"
  using env_rules(1,2) [OF assms] by (auto simp: take_lock_def split_beta)

lemma give_lock_balance [balance]:
  assumes "env_laws held live E"
  shows "live (give_lock E l w) = live w" "held k (give_lock E l w) = held k w - (if k = l then 1 else 0)"
  using env_rules(3,4) [OF assms] by (simp_all add: give_lock_def)

lemma make_path_balance [balance]:
  assumes "env_laws held live E"
  shows "live (snd (make_path E ctx p w)) = live w + (if isl (fst (make_path E ctx p w)) then 0 else 1)"
    "held k (snd (make_path E ctx p w)) = held k w"
  using env_rules(9,10) [OF assms]
  by (auto simp: make_path_def Let_def split_beta split: option.splits)

lemma isl_simps: "x = Inl e \<Longrightarrow> isl x" "x = Inr r \<Longrightarrow> \<not> isl x"
  by auto

lemma current_file_size_balance [balance]:
  assumes "env_laws held live E"
  shows "live (snd (current_file_size_locked E fl w)) = live w"
    "held k (snd (current_file_size_locked E fl w)) = held k w"
  by (simp_all add: current_file_size_locked_def split_beta env_rules [OF assms])

lemma seek_to_current_end_balance [balance]:
  assumes "env_laws held live E"
  shows "live (snd (snd (seek_to_current_end_locked E fl w))) = live w"
    "held k (snd (snd (seek_to_current_end_locked E fl w))) = held k w"
  by (auto simp: seek_to_current_end_locked_def split_beta balance [OF assms] split: sum.splits)

lemma stat_path_balance [balance]:
  assumes "env_laws held live E"
  shows "live (snd (stat_path_locked E p w)) = live w" "held k (snd (stat_path_locked E p w)) = held k w"
  by (simp_all add: stat_path_locked_def split_beta Let_def env_rules [OF assms])

lemma path_info_balance [balance]:
  assumes "env_laws held live E"
  shows "live (snd (path_info_locked E p w)) = live w" "held k (snd (path_info_locked E p w)) = held k w"
  by (simp_all add: path_info_locked_def split_beta env_rules [OF assms])

lemma open_check_balance [balance]:
  assumes "env_laws held live E"
  shows "live (snd (open_check E p fl w)) = live w" "held k (snd (open_check E p fl w)) = held k w"
  by (simp_all add: open_check_def split_beta env_rules [OF assms])

text \<open>The two loops that may not end.\<close>

lemmas grow_loop_induct = grow_loop.raw_induct [rotated, consumes 1, case_names step]
lemmas scan_empty_induct = scan_empty.raw_induct [rotated, consumes 1, case_names step]

lemma grow_loop_keeps:
  "grow_loop E buf n new_size current f w = Some res
    \<Longrightarrow> (\<forall>f d m w. X (snd (snd (snd (ext4_fwrite E f d m w)))) = X w) \<Longrightarrow> X (snd (snd res)) = X w"
proof (induction rule: grow_loop_induct)
  case step
  then show ?case by (auto simp: Let_def split_beta split: if_splits)
qed

lemma scan_empty_keeps:
  "scan_empty E d w = Some res
    \<Longrightarrow> (\<forall>d w. X (snd (snd (ext4_dir_entry_next E d w))) = X w) \<Longrightarrow> X (snd (snd res)) = X w"
proof (induction rule: scan_empty_induct)
  case step
  then show ?case by (auto simp: split_beta split: if_splits option.splits)
qed

text \<open>What a finished call of a partial operation leaves, as destruction rules.\<close>

definition settled :: "(nat \<Rightarrow> 'w \<Rightarrow> int) \<Rightarrow> ('w \<Rightarrow> int) \<Rightarrow> 'w \<Rightarrow> 'w \<Rightarrow> bool" where
  "settled held live w w' \<longleftrightarrow> live w' = live w \<and> (\<forall>k. held k w' = held k w)"

lemma settledD:
  assumes "settled held live w w'"
  shows "live w' = live w" "held k w' = held k w"
  using assms by (simp_all add: settled_def)

lemma grow_loop_balance:
  assumes "env_laws held live E" "grow_loop E b n s c f w = Some (r, f', w')"
  shows "settled held live w w'"
  using grow_loop_keeps [OF assms(2), of live] grow_loop_keeps [OF assms(2), of "held k" for k]
  by (simp add: settled_def env_rules [OF assms(1)])

lemma scan_empty_balance:
  assumes "env_laws held live E" "scan_empty E d w = Some (b, d', w')"
  shows "settled held live w w'"
  using scan_empty_keeps [OF assms(2), of live] scan_empty_keeps [OF assms(2), of "held k" for k]
  by (simp add: settled_def env_rules [OF assms(1)])

lemma resize_balance:
  assumes "env_laws held live E" "resize_file_locked E ctx fl n w = Some (r, fl', w')"
  shows "settled held live w w'"
  using assms(2)
  by (auto simp: resize_file_locked_def Let_def split_beta settled_def balance [OF assms(1)] env_rules [OF assms(1)]
      split: sum.splits if_splits option.splits dest!: grow_loop_balance [OF assms(1)])

lemma positioned_transfer_balance:
  assumes "env_laws held live E" "positioned_transfer E ctx fl b sz off wr w = Some (r, n, b', fl', w')"
  shows "settled held live w w'"
  using assms(2)
  by (auto simp: positioned_transfer_def Let_def split_beta settled_def balance [OF assms(1)] env_rules [OF assms(1)]
      split: sum.splits if_splits option.splits dest!: resize_balance [OF assms(1)])

lemma directory_is_empty_balance:
  assumes "env_laws held live E" "directory_is_empty_locked E p w = Some (r, b, w')"
  shows "settled held live w w'"
  using assms(2)
  by (auto simp: directory_is_empty_locked_def split_beta settled_def env_rules [OF assms(1)]
      split: if_splits option.splits dest!: scan_empty_balance [OF assms(1)])

lemma rename_locked_balance:
  assumes "env_laws held live E" "rename_locked E src dst w = Some (r, w')"
  shows "settled held live w w'"
  using assms(2)
  by (auto simp: rename_locked_def rename_remove_dst_def split_beta settled_def balance [OF assms(1)]
      env_rules [OF assms(1)] prod_eq_iff split: sum.splits if_splits option.splits
      dest!: directory_is_empty_balance [OF assms(1)])

end
