(* ===== verification/Vfs_Table.thy ===== *)
theory Vfs_Table
  imports Vfs_Balance
begin

text \<open>
  The table of open files as a state machine.  A call of any operation on a context is a
  value of \<open>vfs_call\<close>, run by \<open>run_call\<close> on the context, the open directory streams and the
  world; a program is a list of calls.  The invariant of a context is \<open>ctx_ok\<close>, and the
  contract \<open>preserved\<close> carries an invariant of single calls to programs.
\<close>

section \<open>The invariant of a context\<close>

definition open_slots :: "'f esp_lwext4_file list \<Rightarrow> nat" where
  "open_slots fs = length (filter used fs)"

text \<open>
  The table has max_files entries, open_files counts the used ones, a used entry has a path,
  the mount point ends with a slash, and the buffer for growing files is there, zeroed, unless
  the context is read-only.
\<close>

definition ctx_ok :: "'f esp_lwext4 \<Rightarrow> bool" where
  "ctx_ok ctx \<longleftrightarrow> length (files ctx) = unat (max_files ctx)
     \<and> unat (open_files ctx) = open_slots (files ctx)
     \<and> (\<forall>f \<in> set (files ctx). used f \<longrightarrow> path f \<noteq> None)
     \<and> mount_point ctx \<noteq> [] \<and> last (mount_point ctx) = slash
     \<and> (if read_only ctx then grow_buffer ctx = None \<and> grow_buffer_size ctx = 0
        else grow_buffer ctx = Some (replicate (unat (grow_buffer_size ctx)) 0) \<and> grow_buffer_size ctx \<noteq> 0)"

text \<open>Everything of a context that registration fixes.\<close>

definition kin :: "'f esp_lwext4 \<Rightarrow> 'f esp_lwext4 \<Rightarrow> bool" where
  "kin c c' \<longleftrightarrow> ctx_id c' = ctx_id c \<and> base_path c' = base_path c \<and> mount_point c' = mount_point c
     \<and> max_files c' = max_files c \<and> grow_buffer c' = grow_buffer c \<and> grow_buffer_size c' = grow_buffer_size c
     \<and> read_only c' = read_only c \<and> lock c' = lock c"

lemma kin_refl [simp]: "kin c c"
  by (simp add: kin_def)

lemma kin_trans: "kin a b \<Longrightarrow> kin b c \<Longrightarrow> kin a c"
  by (simp add: kin_def)

lemma kin_put [simp]: "kin c (put_file i fl c)"
  by (simp add: kin_def)

lemma kin_counters [simp]:
  "kin c (c'\<lparr>open_files := n\<rparr>) = kin c c'" "kin c (c'\<lparr>open_dirs := n\<rparr>) = kin c c'"
  by (simp_all add: kin_def)

lemma open_slots_le: "open_slots fs \<le> length fs"
  by (simp add: open_slots_def)

lemma open_slots_update:
  "i < length fs \<Longrightarrow> open_slots (fs[i := f]) + (if used (fs ! i) then 1 else 0)
    = open_slots fs + (if used f then 1 else 0)"
  unfolding open_slots_def
proof (induction fs arbitrary: i)
  case (Cons g fs)
  then show ?case by (cases i) auto
qed simp

lemma open_slots_pos: "i < length fs \<Longrightarrow> used (fs ! i) \<Longrightarrow> 0 < open_slots fs"
  using open_slots_update [of i fs "fs ! i"] by (auto simp: open_slots_def filter_empty_conv)

lemma open_slots_same: "i < length fs \<Longrightarrow> used f = used (fs ! i) \<Longrightarrow> open_slots (fs[i := f]) = open_slots fs"
  using open_slots_update [of i fs f] by (auto split: if_splits)

text \<open>An operation on an open file changes only lwext4's part of its entry.\<close>

definition same_entry :: "'f esp_lwext4_file \<Rightarrow> 'f esp_lwext4_file \<Rightarrow> bool" where
  "same_entry fl fl' \<longleftrightarrow> path fl' = path fl \<and> flags fl' = flags fl \<and> used fl' = used fl"

lemma same_entry_refl [simp]: "same_entry fl fl" "same_entry fl (fl\<lparr>efile := f\<rparr>)"
  by (simp_all add: same_entry_def)

lemma same_entry_efile [simp]: "same_entry fl (fl'\<lparr>efile := f\<rparr>) = same_entry fl fl'"
  by (simp add: same_entry_def)

lemma seek_to_current_end_entry: "same_entry fl (fst (snd (seek_to_current_end_locked E fl w)))"
  by (auto simp: seek_to_current_end_locked_def split_beta split: sum.splits)

lemma seek_locked_entry: "same_entry fl (snd (seek_locked E fl off wh))"
  by (simp add: seek_locked_def split_beta Let_def)

lemma resize_entry: "resize_file_locked E ctx fl n w = Some (r, fl', w') \<Longrightarrow> same_entry fl fl'"
  by (auto simp: resize_file_locked_def Let_def split_beta split: sum.splits if_splits option.splits)

lemma positioned_transfer_entry:
  "positioned_transfer E ctx fl b sz off wr w = Some (r, n, b', fl', w') \<Longrightarrow> same_entry fl fl'"
  by (auto simp: positioned_transfer_def Let_def split_beta
      split: sum.splits if_splits option.splits dest!: resize_entry)

lemma ctx_ok_put:
  assumes "ctx_ok ctx" "i < unat (max_files ctx)" "same_entry (files ctx ! i) fl"
  shows "ctx_ok (put_file i fl ctx)"
proof -
  have i: "i < length (files ctx)" using assms(1,2) by (simp add: ctx_ok_def)
  have "used f \<longrightarrow> path f \<noteq> None" if "f \<in> set ((files ctx)[i := fl])" for f
    using that assms(1,3) nth_mem [OF i] set_update_subset_insert [of "files ctx" i fl]
    by (auto simp: ctx_ok_def same_entry_def)
  then show ?thesis
    using assms i open_slots_same [OF i, of fl] by (simp add: ctx_ok_def same_entry_def)
qed

lemma ctx_ok_open_dirs [simp]: "ctx_ok (ctx\<lparr>open_dirs := n\<rparr>) = ctx_ok ctx"
  by (simp add: ctx_ok_def)

lemma ctx_ok_fill:
  assumes "ctx_ok ctx" "i < unat (max_files ctx)" "\<not> used (files ctx ! i)" "used fl" "path fl \<noteq> None"
  shows "ctx_ok (put_file i fl ctx\<lparr>open_files := open_files ctx + 1\<rparr>)"
    "open_slots ((files ctx)[i := fl]) = Suc (open_slots (files ctx))"
proof -
  have i: "i < length (files ctx)" using assms(1,2) by (simp add: ctx_ok_def)
  show s: "open_slots ((files ctx)[i := fl]) = Suc (open_slots (files ctx))"
    using open_slots_update [OF i, of fl] assms(3,4) by simp
  then have "Suc (unat (open_files ctx)) \<le> unat (max_files ctx)"
    using assms(1) open_slots_le [of "(files ctx)[i := fl]"] by (simp add: ctx_ok_def)
  then have u: "unat (open_files ctx + 1) = Suc (unat (open_files ctx))"
    using unsigned_less [of "max_files ctx", where ?'a = nat] by (simp add: unat_word_ariths)
  have "used f \<longrightarrow> path f \<noteq> None" if "f \<in> set ((files ctx)[i := fl])" for f
    using that assms(1,5) set_update_subset_insert [of "files ctx" i fl] by (auto simp: ctx_ok_def)
  then show "ctx_ok (put_file i fl ctx\<lparr>open_files := open_files ctx + 1\<rparr>)"
    using assms(1) s u by (simp add: ctx_ok_def)
qed

lemma ctx_ok_clear:
  assumes "ctx_ok ctx" "i < unat (max_files ctx)" "used (files ctx ! i)" "\<not> used fl"
  shows "ctx_ok (put_file i fl ctx\<lparr>open_files := open_files ctx - 1\<rparr>)"
    "Suc (open_slots ((files ctx)[i := fl])) = open_slots (files ctx)"
proof -
  have i: "i < length (files ctx)" using assms(1,2) by (simp add: ctx_ok_def)
  show s: "Suc (open_slots ((files ctx)[i := fl])) = open_slots (files ctx)"
    using open_slots_update [OF i, of fl] assms(3,4) by simp
  then have "open_files ctx \<noteq> 0" using assms(1) by (auto simp: ctx_ok_def)
  then have u: "unat (open_files ctx - 1) = unat (open_files ctx) - 1" by (simp add: unat_minus_one)
  have "used f \<longrightarrow> path f \<noteq> None" if "f \<in> set ((files ctx)[i := fl])" for f
    using that assms(1,4) set_update_subset_insert [of "files ctx" i fl] by (auto simp: ctx_ok_def)
  then show "ctx_ok (put_file i fl ctx\<lparr>open_files := open_files ctx - 1\<rparr>)"
    using assms(1) s u by (simp add: ctx_ok_def)
qed

section \<open>The search for a free entry\<close>

lemma find_free_slot_Some:
  "find_free_slot fs n i = Some j \<Longrightarrow> i \<le> j \<and> j < n \<and> \<not> used (fs ! j) \<and> (\<forall>k. i \<le> k \<and> k < j \<longrightarrow> used (fs ! k))"
proof (induction fs n i rule: find_free_slot.induct)
  case (1 fs n i)
  note step = 1(2) [unfolded find_free_slot.simps [of fs n i]]
  show ?case
  proof (cases "i < n \<and> used (fs ! i)")
    case True
    then have "find_free_slot fs n (i + 1) = Some j" using step by simp
    with 1(1) True have "i + 1 \<le> j \<and> j < n \<and> \<not> used (fs ! j) \<and> (\<forall>k. i + 1 \<le> k \<and> k < j \<longrightarrow> used (fs ! k))"
      by blast
    moreover have "used (fs ! k)" if "i \<le> k" "k < j" "\<forall>k. i + 1 \<le> k \<and> k < j \<longrightarrow> used (fs ! k)" for k
      using that True by (cases "k = i") auto
    ultimately show ?thesis by auto
  next
    case False
    then show ?thesis using step by (auto split: if_splits)
  qed
qed

lemma find_free_slot_None:
  "find_free_slot fs n i = None \<Longrightarrow> (\<forall>k. i \<le> k \<and> k < n \<longrightarrow> used (fs ! k))"
proof (induction fs n i rule: find_free_slot.induct)
  case (1 fs n i)
  note step = 1(2) [unfolded find_free_slot.simps [of fs n i]]
  show ?case
  proof (cases "i < n")
    case True
    then have "used (fs ! i)" "find_free_slot fs n (i + 1) = None"
      using step by (auto split: if_splits)
    with 1(1) True have "\<forall>k. i + 1 \<le> k \<and> k < n \<longrightarrow> used (fs ! k)" by blast
    then have "used (fs ! k)" if "i \<le> k" "k < n" for k
      using that \<open>used (fs ! i)\<close> by (cases "k = i") auto
    then show ?thesis by blast
  qed auto
qed

end
