(* ===== verification/Vfs_Settled.thy ===== *)
theory Vfs_Settled
  imports Vfs_Table
begin

text \<open>
  One lemma per operation of the VFS adapter: which locks and allocations it leaves
  (\<open>settled\<close> when the same as before), and which entries of the table it touches.
\<close>

lemma isl_sym: "Inl e = x \<Longrightarrow> isl x" "Inr r = x \<Longrightarrow> \<not> isl x"
  by auto

section \<open>Operations on open files\<close>

definition touched :: "'f esp_lwext4 \<Rightarrow> 'f esp_lwext4 \<Rightarrow> bool" where
  "touched ctx ctx' \<longleftrightarrow> ctx' = ctx
     \<or> (\<exists>i fl. i < unat (max_files ctx) \<and> same_entry (files ctx ! i) fl \<and> ctx' = put_file i fl ctx)"

lemma touched_refl [simp]: "touched ctx ctx"
  by (simp add: touched_def)

lemma touched_put: "i < unat (max_files ctx) \<Longrightarrow> same_entry (files ctx ! i) fl \<Longrightarrow> touched ctx (put_file i fl ctx)"
  by (auto simp: touched_def)

lemma touchedD:
  assumes "touched ctx ctx'" "ctx_ok ctx"
  shows "ctx_ok ctx'" "kin ctx ctx'" "open_slots (files ctx') = open_slots (files ctx)"
    "open_dirs ctx' = open_dirs ctx" "open_files ctx' = open_files ctx"
proof -
  have l: "length (files ctx) = unat (max_files ctx)" using assms(2) by (simp add: ctx_ok_def)
  show "ctx_ok ctx'" "kin ctx ctx'" "open_dirs ctx' = open_dirs ctx" "open_files ctx' = open_files ctx"
    using assms ctx_ok_put by (auto simp: touched_def)
  from assms(1) show "open_slots (files ctx') = open_slots (files ctx)"
    unfolding touched_def
  proof (elim disjE exE conjE)
    fix i fl
    assume "i < unat (max_files ctx)" "same_entry (files ctx ! i) fl" "ctx' = put_file i fl ctx"
    then show ?thesis using l open_slots_same [of i "files ctx" fl] by (simp add: same_entry_def)
  qed simp
qed

lemma write_touched: "touched ctx (fst (snd (vfs_lwext4_write E ctx fd d n w)))"
  using seek_to_current_end_entry [of _ E]
  by (auto simp: vfs_lwext4_write_def split_beta Let_def file_get_Inr intro!: touched_put split: sum.splits)

lemma read_touched: "touched ctx (fst (snd (snd (vfs_lwext4_read E ctx fd d n w))))"
  by (auto simp: vfs_lwext4_read_def split_beta Let_def file_get_Inr intro!: touched_put split: sum.splits)

lemma lseek_touched: "touched ctx (fst (snd (vfs_lwext4_lseek E ctx fd off wh w)))"
  by (auto simp: vfs_lwext4_lseek_def split_beta file_get_Inr seek_locked_entry intro!: touched_put split: sum.splits)

lemma positioned_touched:
  "positioned_io E ctx fd b n off wr w = Some (r, b', ctx', w') \<Longrightarrow> touched ctx ctx'"
  by (auto simp: positioned_io_def split_beta Let_def file_get_Inr intro!: touched_put
      split: sum.splits if_splits option.splits dest!: positioned_transfer_entry)

lemma ftruncate_touched: "vfs_lwext4_ftruncate E ctx fd n w = Some (r, ctx', w') \<Longrightarrow> touched ctx ctx'"
  by (auto simp: vfs_lwext4_ftruncate_def split_beta file_get_Inr intro!: touched_put
      split: sum.splits if_splits option.splits dest!: resize_entry)

lemma write_settled:
  assumes "env_laws held live E"
  shows "settled held live w (snd (snd (vfs_lwext4_write E ctx fd d n w)))"
  by (auto simp: vfs_lwext4_write_def split_beta Let_def settled_def balance [OF assms] env_rules [OF assms]
      split: sum.splits)

lemma read_settled:
  assumes "env_laws held live E"
  shows "settled held live w (snd (snd (snd (vfs_lwext4_read E ctx fd d n w))))"
  by (auto simp: vfs_lwext4_read_def split_beta Let_def settled_def balance [OF assms] env_rules [OF assms]
      split: sum.splits)

lemma lseek_settled:
  assumes "env_laws held live E"
  shows "settled held live w (snd (snd (vfs_lwext4_lseek E ctx fd off wh w)))"
  by (auto simp: vfs_lwext4_lseek_def split_beta settled_def balance [OF assms] env_rules [OF assms]
      split: sum.splits)

lemma positioned_settled:
  assumes "env_laws held live E" "positioned_io E ctx fd b n off wr w = Some (r, b', ctx', w')"
  shows "settled held live w w'"
  using assms(2)
  by (auto simp: positioned_io_def split_beta Let_def settled_def balance [OF assms(1)] env_rules [OF assms(1)]
      split: sum.splits if_splits option.splits dest!: positioned_transfer_balance [OF assms(1)])

lemma fstat_settled:
  assumes "env_laws held live E"
  shows "settled held live w (snd (vfs_lwext4_fstat E ctx fd g w))"
  by (auto simp: vfs_lwext4_fstat_def split_beta settled_def balance [OF assms] env_rules [OF assms]
      split: sum.splits)

lemma fsync_settled:
  assumes "env_laws held live E"
  shows "settled held live w (snd (vfs_lwext4_fsync E ctx fd w))"
  by (auto simp: vfs_lwext4_fsync_def split_beta settled_def balance [OF assms] env_rules [OF assms]
      split: sum.splits)

lemma ftruncate_settled:
  assumes "env_laws held live E" "vfs_lwext4_ftruncate E ctx fd n w = Some (r, ctx', w')"
  shows "settled held live w w'"
  using assms(2)
  by (auto simp: vfs_lwext4_ftruncate_def split_beta settled_def balance [OF assms(1)] env_rules [OF assms(1)]
      split: sum.splits if_splits option.splits dest!: resize_balance [OF assms(1)] dest: isl_sym)

section \<open>Operations on paths\<close>

lemma truncate_settled:
  assumes "env_laws held live E" "vfs_lwext4_truncate E ctx p n w = Some (r, w')"
  shows "settled held live w w'"
  using assms(2)
  by (auto simp: vfs_lwext4_truncate_def split_beta Let_def settled_def balance [OF assms(1)]
      env_rules [OF assms(1)] split: sum.splits if_splits option.splits dest!: resize_balance [OF assms(1)] dest: isl_sym)

lemma stat_settled:
  assumes "env_laws held live E"
  shows "settled held live w (snd (vfs_lwext4_stat E ctx p g w))"
  by (auto simp: vfs_lwext4_stat_def split_beta settled_def balance [OF assms] env_rules [OF assms]
      split: sum.splits)

lemma two_path_settled:
  assumes "env_laws held live E" "two_path_operation E ctx p q f w = Some (r, w')"
    and "\<And>a b w r w'. f a b w = Some (r, w') \<Longrightarrow> settled held live w w'"
  shows "settled held live w w'"
  using assms(2)
  by (auto simp: two_path_operation_def split_beta settled_def balance [OF assms(1)] env_rules [OF assms(1)]
      split: sum.splits if_splits option.splits dest!: assms(3) dest: isl_sym)

lemma link_settled:
  assumes "env_laws held live E" "vfs_lwext4_link E ctx p q w = Some (r, w')"
  shows "settled held live w w'"
proof -
  have f: "settled held live w w'" if "Some (ext4_flink E a b w) = Some (r, w')" for a b w r w'
  proof -
    have "w' = snd (ext4_flink E a b w)" using that by (simp add: prod_eq_iff)
    then show ?thesis by (simp add: settled_def env_rules [OF assms(1)])
  qed
  show ?thesis
  proof (cases "read_only ctx")
    case True
    then show ?thesis using assms(2) by (simp add: vfs_lwext4_link_def settled_def)
  next
    case False
    then show ?thesis using assms(2)
      two_path_settled [OF assms(1), where f = "\<lambda>first second w. Some (ext4_flink E first second w)", OF _ f]
      by (simp add: vfs_lwext4_link_def)
  qed
qed

lemma unlink_settled:
  assumes "env_laws held live E"
  shows "settled held live w (snd (vfs_lwext4_unlink E ctx p w))"
  by (auto simp: vfs_lwext4_unlink_def split_beta settled_def balance [OF assms] env_rules [OF assms]
      split: sum.splits)

lemma rename_settled:
  assumes "env_laws held live E" "vfs_lwext4_rename E ctx p q w = Some (r, w')"
  shows "settled held live w w'"
  using assms(2) two_path_settled [OF assms(1) _ rename_locked_balance [OF assms(1)]]
  by (auto simp: vfs_lwext4_rename_def settled_def split: if_splits)

lemma mkdir_settled:
  assumes "env_laws held live E"
  shows "settled held live w (snd (vfs_lwext4_mkdir E ctx p m w))"
  by (auto simp: vfs_lwext4_mkdir_def split_beta settled_def balance [OF assms] env_rules [OF assms]
      split: sum.splits)

lemma rmdir_settled:
  assumes "env_laws held live E" "vfs_lwext4_rmdir E ctx p w = Some (r, w')"
  shows "settled held live w w'"
  using assms(2)
  by (auto simp: vfs_lwext4_rmdir_def split_beta settled_def balance [OF assms(1)] env_rules [OF assms(1)]
      split: sum.splits if_splits option.splits dest!: directory_is_empty_balance [OF assms(1)] dest: isl_sym)

lemma access_settled:
  assumes "env_laws held live E"
  shows "settled held live w (snd (vfs_lwext4_access E ctx p m w))"
  using stat_settled [OF assms, of w ctx p True]
  by (auto simp: vfs_lwext4_access_def split_beta settled_def split: sum.splits)

lemma utime_settled:
  assumes "env_laws held live E"
  shows "settled held live w (snd (vfs_lwext4_utime E ctx p t w))"
  by (auto simp: vfs_lwext4_utime_def split_beta settled_def balance [OF assms] env_rules [OF assms]
      split: sum.splits option.splits)

section \<open>Opening and closing\<close>

lemma open_failed:
  assumes "env_laws held live E" "vfs_lwext4_open E ctx p fl w = (Inl e, ctx', w')"
  shows "settled held live w w' \<and> touched ctx ctx'"
proof -
  have t: "touched ctx (put_file i ((files ctx ! i)\<lparr>efile := f\<rparr>) ctx)"
    if "find_free_slot (files ctx) (unat (max_files ctx)) 0 = Some i" for i f
    using find_free_slot_Some [OF that] by (intro touched_put) auto
  show ?thesis
    using assms(2)
    by (auto simp: vfs_lwext4_open_def split_beta Let_def settled_def t balance [OF assms(1)] env_rules [OF assms(1)]
        split: sum.splits if_splits option.splits dest: isl_sym)
qed

lemma open_succeeded:
  assumes "env_laws held live E" "vfs_lwext4_open E ctx p fl w = (Inr fd, ctx', w')"
  shows "\<exists>i f full_path. fd = int i \<and> find_free_slot (files ctx) (unat (max_files ctx)) 0 = Some i
    \<and> ctx' = put_file i ((files ctx ! i)\<lparr>efile := f, path := Some full_path, flags := fl, used := True\<rparr>) ctx
         \<lparr>open_files := open_files ctx + 1\<rparr>
    \<and> live w' = live w + 1 \<and> (\<forall>k. held k w' = held k w)"
  using assms(2)
  by (auto simp: vfs_lwext4_open_def split_beta Let_def balance [OF assms(1)] env_rules [OF assms(1)]
      split: sum.splits if_splits option.splits dest: isl_sym)

lemma close_failed:
  assumes "env_laws held live E" "vfs_lwext4_close E ctx fd w = (Inl e, ctx', w')"
  shows "settled held live w w' \<and> touched ctx ctx'"
  using assms(2)
  by (auto simp: vfs_lwext4_close_def split_beta settled_def file_get_Inr balance [OF assms(1)] env_rules [OF assms(1)]
      intro!: touched_put split: sum.splits if_splits dest: isl_sym)

lemma close_succeeded:
  assumes "env_laws held live E" "vfs_lwext4_close E ctx fd w = (Inr u, ctx', w')"
  shows "\<exists>i. file_get ctx fd = Inr i \<and> ctx' = put_file i (zero_entry E) ctx\<lparr>open_files := open_files ctx - 1\<rparr>
    \<and> live w' = live w - 1 \<and> (\<forall>k. held k w' = held k w)"
  using assms(2)
  by (auto simp: vfs_lwext4_close_def split_beta balance [OF assms(1)] env_rules [OF assms(1)]
      split: sum.splits if_splits dest: isl_sym)

section \<open>Directory streams\<close>

lemma opendir_effect:
  assumes "env_laws held live E" "vfs_lwext4_opendir E ctx p w = (r, ctx', w')"
  shows "(\<forall>k. held k w' = held k w) \<and> (case r of Inl e \<Rightarrow> ctx' = ctx \<and> live w' = live w
    | Inr d \<Rightarrow> dir_ctx d = Some (ctx_id ctx) \<and> offset d = 0
        \<and> ctx' = ctx\<lparr>open_dirs := open_dirs ctx + 1\<rparr> \<and> live w' = live w + 1)"
  using assms(2)
  by (auto simp: vfs_lwext4_opendir_def split_beta Let_def balance [OF assms(1)] env_rules [OF assms(1)]
      split: sum.splits if_splits dest: isl_sym)

text \<open>A stream keeps its context through every operation but a successful closedir.\<close>

lemma readdir_effect:
  assumes "env_laws held live E" "vfs_lwext4_readdir E ctx pdir w = (r, pdir', w')"
  shows "settled held live w w' \<and> map_option dir_ctx pdir' = map_option dir_ctx pdir"
  using assms(2)
  by (auto simp: vfs_lwext4_readdir_def vfs_lwext4_readdir_r_def split_beta settled_def balance [OF assms(1)]
      env_rules [OF assms(1)] split: sum.splits if_splits option.splits dest: isl_sym)

lemma telldir_settled:
  assumes "env_laws held live E"
  shows "settled held live w (snd (vfs_lwext4_telldir E ctx pdir w))"
  by (auto simp: vfs_lwext4_telldir_def split_beta settled_def balance [OF assms] env_rules [OF assms]
      split: sum.splits option.splits)

lemma seekdir_loop_effect:
  "env_laws held live E \<Longrightarrow>
   settled held live w (snd (seekdir_loop E t d w)) \<and> dir_ctx (fst (seekdir_loop E t d w)) = dir_ctx d"
proof (induction E t d w rule: seekdir_loop.induct)
  case (1 E t d w)
  show ?case
  proof (cases "sint (offset d) < sint t \<and> fst (ext4_dir_entry_next E (ext4 d) w) \<noteq> None")
    case True
    with 1 show ?thesis
      by (subst (1 2) seekdir_loop.simps)
        (auto simp: split_beta prod_eq_iff settled_def env_rules [OF 1(2)])
  next
    case False
    then show ?thesis
      by (subst (1 2) seekdir_loop.simps) (auto simp: split_beta settled_def env_rules [OF 1(2)])
  qed
qed

lemma seekdir_effect:
  assumes "env_laws held live E" "vfs_lwext4_seekdir E ctx pdir t w = (r, pdir', w')"
  shows "settled held live w w' \<and> map_option dir_ctx pdir' = map_option dir_ctx pdir"
  using assms(2) seekdir_loop_effect [OF assms(1)]
  by (auto simp: vfs_lwext4_seekdir_def split_beta settled_def Let_def balance [OF assms(1)]
      env_rules [OF assms(1)] split: sum.splits if_splits option.splits dest: isl_sym)

lemma closedir_effect:
  assumes "env_laws held live E" "vfs_lwext4_closedir E ctx pdir w = (r, pdir', ctx', w')"
  shows "(\<forall>k. held k w' = held k w) \<and> (case r of
      Inl e \<Rightarrow> ctx' = ctx \<and> live w' = live w \<and> map_option dir_ctx pdir' = map_option dir_ctx pdir
    | Inr u \<Rightarrow> pdir' = None \<and> map_option dir_ctx pdir = Some (Some (ctx_id ctx))
        \<and> ctx' = ctx\<lparr>open_dirs := open_dirs ctx - 1\<rparr> \<and> live w' = live w - 1)"
  using assms(2)
  by (auto simp: vfs_lwext4_closedir_def split_beta Let_def balance [OF assms(1)] env_rules [OF assms(1)]
      split: sum.splits if_splits option.splits dest: isl_sym)

end
