(* ===== verification/Vfs_Calls.thy ===== *)
theory Vfs_Calls
  imports Vfs_Settled
begin

text \<open>
  Programs over one context: each operation of the adapter as a call, run on the context,
  the open directory streams and the world, and the invariant that accounts for every lock
  and every allocation.
\<close>

section \<open>Calls\<close>

text \<open>Streams are named by their position; a position without a stream is a NULL pointer.\<close>

datatype vfs_call =
    Call_open "string option" u32 | Call_close int | Call_write int bytes u32
  | Call_read int bytes u32 | Call_lseek int int int | Call_pread int bytes u32 int
  | Call_pwrite int bytes u32 int | Call_fstat int bool | Call_fsync int
  | Call_ftruncate int int | Call_truncate "string option" int | Call_stat "string option" bool
  | Call_link "string option" "string option" | Call_unlink "string option"
  | Call_rename string string | Call_opendir "string option" | Call_readdir nat
  | Call_telldir nat | Call_seekdir nat "32 word" | Call_closedir nat
  | Call_mkdir "string option" u32 | Call_rmdir string | Call_access "string option" u32
  | Call_utime "string option" "(int \<times> int) option"

type_synonym ('w, 'f, 'd) vfs_state = "'f esp_lwext4 \<times> 'd esp_lwext4_dir list \<times> 'w"

definition pdir_at :: "nat \<Rightarrow> 'x list \<Rightarrow> 'x option" where
  "pdir_at i ds = (if i < length ds then Some (ds ! i) else None)"

definition put_dir :: "nat \<Rightarrow> 'x option \<Rightarrow> 'x list \<Rightarrow> 'x list" where
  "put_dir i pdir ds = (case pdir of None \<Rightarrow> take i ds @ drop (Suc i) ds | Some d \<Rightarrow> ds[i := d])"

fun run_call :: "('w, 'f, 'd) vfs_env \<Rightarrow> vfs_call \<Rightarrow> ('w, 'f, 'd) vfs_state \<Rightarrow> ('w, 'f, 'd) vfs_state option" where
  "run_call E (Call_open p fl) (ctx, ds, w) =
     (case vfs_lwext4_open E ctx p fl w of (_, ctx', w') \<Rightarrow> Some (ctx', ds, w'))"
| "run_call E (Call_close fd) (ctx, ds, w) =
     (case vfs_lwext4_close E ctx fd w of (_, ctx', w') \<Rightarrow> Some (ctx', ds, w'))"
| "run_call E (Call_write fd d n) (ctx, ds, w) =
     (case vfs_lwext4_write E ctx fd d n w of (_, ctx', w') \<Rightarrow> Some (ctx', ds, w'))"
| "run_call E (Call_read fd d n) (ctx, ds, w) =
     (case vfs_lwext4_read E ctx fd d n w of (_, _, ctx', w') \<Rightarrow> Some (ctx', ds, w'))"
| "run_call E (Call_lseek fd off wh) (ctx, ds, w) =
     (case vfs_lwext4_lseek E ctx fd off wh w of (_, ctx', w') \<Rightarrow> Some (ctx', ds, w'))"
| "run_call E (Call_pread fd d n off) (ctx, ds, w) =
     (case vfs_lwext4_pread E ctx fd d n off w of None \<Rightarrow> None | Some (_, _, ctx', w') \<Rightarrow> Some (ctx', ds, w'))"
| "run_call E (Call_pwrite fd d n off) (ctx, ds, w) =
     (case vfs_lwext4_pwrite E ctx fd d n off w of None \<Rightarrow> None | Some (_, _, ctx', w') \<Rightarrow> Some (ctx', ds, w'))"
| "run_call E (Call_fstat fd g) (ctx, ds, w) =
     (case vfs_lwext4_fstat E ctx fd g w of (_, w') \<Rightarrow> Some (ctx, ds, w'))"
| "run_call E (Call_fsync fd) (ctx, ds, w) =
     (case vfs_lwext4_fsync E ctx fd w of (_, w') \<Rightarrow> Some (ctx, ds, w'))"
| "run_call E (Call_ftruncate fd n) (ctx, ds, w) =
     (case vfs_lwext4_ftruncate E ctx fd n w of None \<Rightarrow> None | Some (_, ctx', w') \<Rightarrow> Some (ctx', ds, w'))"
| "run_call E (Call_truncate p n) (ctx, ds, w) =
     (case vfs_lwext4_truncate E ctx p n w of None \<Rightarrow> None | Some (_, w') \<Rightarrow> Some (ctx, ds, w'))"
| "run_call E (Call_stat p g) (ctx, ds, w) =
     (case vfs_lwext4_stat E ctx p g w of (_, w') \<Rightarrow> Some (ctx, ds, w'))"
| "run_call E (Call_link p q) (ctx, ds, w) =
     (case vfs_lwext4_link E ctx p q w of None \<Rightarrow> None | Some (_, w') \<Rightarrow> Some (ctx, ds, w'))"
| "run_call E (Call_unlink p) (ctx, ds, w) =
     (case vfs_lwext4_unlink E ctx p w of (_, w') \<Rightarrow> Some (ctx, ds, w'))"
| "run_call E (Call_rename p q) (ctx, ds, w) =
     (case vfs_lwext4_rename E ctx p q w of None \<Rightarrow> None | Some (_, w') \<Rightarrow> Some (ctx, ds, w'))"
| "run_call E (Call_opendir p) (ctx, ds, w) =
     (case vfs_lwext4_opendir E ctx p w of (r, ctx', w') \<Rightarrow>
      Some (ctx', (case r of Inl _ \<Rightarrow> ds | Inr d \<Rightarrow> ds @ [d]), w'))"
| "run_call E (Call_readdir i) (ctx, ds, w) =
     (case vfs_lwext4_readdir E ctx (pdir_at i ds) w of (_, pdir, w') \<Rightarrow> Some (ctx, put_dir i pdir ds, w'))"
| "run_call E (Call_telldir i) (ctx, ds, w) =
     (case vfs_lwext4_telldir E ctx (pdir_at i ds) w of (_, w') \<Rightarrow> Some (ctx, ds, w'))"
| "run_call E (Call_seekdir i t) (ctx, ds, w) =
     (case vfs_lwext4_seekdir E ctx (pdir_at i ds) t w of (_, pdir, w') \<Rightarrow> Some (ctx, put_dir i pdir ds, w'))"
| "run_call E (Call_closedir i) (ctx, ds, w) =
     (case vfs_lwext4_closedir E ctx (pdir_at i ds) w of (_, pdir, ctx', w') \<Rightarrow>
      Some (ctx', put_dir i pdir ds, w'))"
| "run_call E (Call_mkdir p m) (ctx, ds, w) =
     (case vfs_lwext4_mkdir E ctx p m w of (_, w') \<Rightarrow> Some (ctx, ds, w'))"
| "run_call E (Call_rmdir p) (ctx, ds, w) =
     (case vfs_lwext4_rmdir E ctx p w of None \<Rightarrow> None | Some (_, w') \<Rightarrow> Some (ctx, ds, w'))"
| "run_call E (Call_access p m) (ctx, ds, w) =
     (case vfs_lwext4_access E ctx p m w of (_, w') \<Rightarrow> Some (ctx, ds, w'))"
| "run_call E (Call_utime p t) (ctx, ds, w) =
     (case vfs_lwext4_utime E ctx p t w of (_, w') \<Rightarrow> Some (ctx, ds, w'))"

text \<open>A program stops at a call that does not return.\<close>

fun run_all :: "('c \<Rightarrow> 's \<Rightarrow> 's option) \<Rightarrow> 'c list \<Rightarrow> 's \<Rightarrow> 's option" where
  "run_all step [] s = Some s"
| "run_all step (c # cs) s = (case step c s of None \<Rightarrow> None | Some s' \<Rightarrow> run_all step cs s')"

section \<open>The contract of a machine\<close>

text \<open>An invariant kept by single calls holds after every program.\<close>

locale preserved =
  fixes step :: "'c \<Rightarrow> 's \<Rightarrow> 's option"
    and inv :: "'s \<Rightarrow> bool"
  assumes keeps: "inv s \<Longrightarrow> step c s = Some s' \<Longrightarrow> inv s'"
begin

lemma program: "inv s \<Longrightarrow> run_all step cs s = Some s' \<Longrightarrow> inv s'"
proof (induction cs arbitrary: s)
  case (Cons c cs)
  then show ?case using keeps by (auto split: option.splits)
qed simp

end

section \<open>Accounting for one context\<close>

definition streams_of :: "nat \<Rightarrow> 'd esp_lwext4_dir list \<Rightarrow> nat" where
  "streams_of c ds = length (filter (\<lambda>d. dir_ctx d = Some c) ds)"

text \<open>
  What a single call changes, relative to the state before: locks are as before, the heap
  has grown by the newly opened files and streams, and open_dirs follows the streams.
\<close>

definition accounted ::
  "(nat \<Rightarrow> 'w \<Rightarrow> int) \<Rightarrow> ('w \<Rightarrow> int) \<Rightarrow> ('w, 'f, 'd) vfs_state \<Rightarrow> ('w, 'f, 'd) vfs_state \<Rightarrow> bool" where
  "accounted held live s s' \<longleftrightarrow> (case (s, s') of ((ctx, ds, w), (ctx', ds', w')) \<Rightarrow>
     kin ctx ctx' \<and> ctx_ok ctx' \<and> (\<forall>k. held k w' = held k w)
     \<and> live w' - int (open_slots (files ctx')) - int (length ds')
       = live w - int (open_slots (files ctx)) - int (length ds)
     \<and> open_dirs ctx' - of_nat (streams_of (ctx_id ctx') ds')
       = open_dirs ctx - of_nat (streams_of (ctx_id ctx) ds)
     \<and> (\<forall>c. c \<noteq> ctx_id ctx \<longrightarrow> streams_of c ds' = streams_of c ds)
     \<and> dir_ctx ` set ds' \<subseteq> insert (Some (ctx_id ctx)) (dir_ctx ` set ds))"

lemma accountedD:
  assumes "accounted held live (ctx, ds, w) (ctx', ds', w')"
  shows "kin ctx ctx'" "ctx_ok ctx'" "\<forall>k. held k w' = held k w"
    "live w' - int (open_slots (files ctx')) - int (length ds')
       = live w - int (open_slots (files ctx)) - int (length ds)"
    "open_dirs ctx' - of_nat (streams_of (ctx_id ctx') ds')
       = open_dirs ctx - of_nat (streams_of (ctx_id ctx) ds)"
    "\<forall>c. c \<noteq> ctx_id ctx \<longrightarrow> streams_of c ds' = streams_of c ds"
    "dir_ctx ` set ds' \<subseteq> insert (Some (ctx_id ctx)) (dir_ctx ` set ds)"
  using assms unfolding accounted_def prod.case by blast+

lemma accounted_refl: "ctx_ok ctx \<Longrightarrow> accounted held live (ctx, ds, w) (ctx, ds, w)"
  by (auto simp: accounted_def)

lemma accounted_trans:
  assumes "accounted held live s1 s2" "accounted held live s2 s3"
  shows "accounted held live s1 s3"
proof -
  obtain c1 d1 w1 c2 d2 w2 c3 d3 w3 where s: "s1 = (c1, d1, w1)" "s2 = (c2, d2, w2)" "s3 = (c3, d3, w3)"
    by (metis prod_cases3)
  have k: "kin c1 c2" "kin c2 c3" using assms by (simp_all add: s accounted_def)
  then have "kin c1 c3" "ctx_id c2 = ctx_id c1" "ctx_id c3 = ctx_id c1" by (simp_all add: kin_def)
  moreover have "dir_ctx ` set d3 \<subseteq> insert (Some (ctx_id c1)) (dir_ctx ` set d1)"
    using assms calculation(2) unfolding s accounted_def by (simp only: prod.case) blast
  ultimately show ?thesis using assms by (simp add: s accounted_def)
qed

lemma accounted_settled:
  assumes "ctx_ok ctx" "touched ctx ctx'" "settled held live w w'"
  shows "accounted held live (ctx, ds, w) (ctx', ds, w')"
  using touchedD [OF assms(2,1)] settledD [OF assms(3)] by (auto simp: accounted_def kin_def)

lemma streams_put_same:
  assumes "dir_ctx d = dir_ctx (ds ! i)" "i < length ds"
  shows "streams_of c (ds[i := d]) = streams_of c ds"
  using assms unfolding streams_of_def
proof (induction ds arbitrary: i)
  case (Cons e ds)
  then show ?case by (cases i) auto
qed simp

lemma streams_remove:
  assumes "i < length ds"
  shows "streams_of c ds = streams_of c (take i ds @ drop (Suc i) ds)
    + (if dir_ctx (ds ! i) = Some c then 1 else 0)"
  by (subst id_take_nth_drop [OF assms]) (simp add: streams_of_def)

lemma dir_effect:
  assumes "ctx_ok ctx" "settled held live w w'" "map_option dir_ctx pdir = map_option dir_ctx (pdir_at i ds)"
  shows "accounted held live (ctx, ds, w) (ctx, put_dir i pdir ds, w')"
proof (cases "i < length ds")
  case True
  then obtain d where d: "pdir = Some d" "dir_ctx d = dir_ctx (ds ! i)"
    using assms(3) by (auto simp: pdir_at_def)
  have "dir_ctx ` set (ds[i := d]) \<subseteq> dir_ctx ` set ds"
    using d True nth_mem [OF True] set_update_subset_insert [of ds i d] by auto
  then show ?thesis
    using d True assms(1) settledD [OF assms(2)] streams_put_same [OF d(2) True]
    by (auto simp: accounted_def put_dir_def)
next
  case False
  then have "put_dir i pdir ds = ds" using assms(3) by (simp add: pdir_at_def put_dir_def)
  then show ?thesis using assms(1) settledD [OF assms(2)] by (auto simp: accounted_def)
qed

section \<open>Every call is accounted for\<close>

lemma open_accounted:
  assumes "ctx_ok ctx" "env_laws held live E" "vfs_lwext4_open E ctx p fl w = (r, ctx', w')"
  shows "accounted held live (ctx, ds, w) (ctx', ds, w')"
proof (cases r)
  case (Inl e)
  with open_failed [OF assms(2)] assms show ?thesis by (blast intro: accounted_settled)
next
  case (Inr fd)
  with open_succeeded [OF assms(2)] assms(3) obtain i f q where
    i: "find_free_slot (files ctx) (unat (max_files ctx)) 0 = Some i"
    and c: "ctx' = put_file i ((files ctx ! i)\<lparr>efile := f, path := Some q, flags := fl, used := True\<rparr>) ctx
         \<lparr>open_files := open_files ctx + 1\<rparr>"
    and w: "live w' = live w + 1" "\<forall>k. held k w' = held k w" by blast
  let ?slot = "(files ctx ! i)\<lparr>efile := f, path := Some q, flags := fl, used := True\<rparr>"
  from find_free_slot_Some [OF i] have "i < unat (max_files ctx)" "\<not> used (files ctx ! i)" by auto
  from ctx_ok_fill [OF assms(1) this, of ?slot] c w show ?thesis
    by (auto simp: accounted_def)
qed

lemma close_accounted:
  assumes "ctx_ok ctx" "env_laws held live E" "vfs_lwext4_close E ctx fd w = (r, ctx', w')"
  shows "accounted held live (ctx, ds, w) (ctx', ds, w')"
proof (cases r)
  case (Inl e)
  with close_failed [OF assms(2)] assms show ?thesis by (blast intro: accounted_settled)
next
  case (Inr u)
  with close_succeeded [OF assms(2)] assms(3) obtain i where
    i: "i < unat (max_files ctx)" "used (files ctx ! i)"
    and c: "ctx' = put_file i (zero_entry E) ctx\<lparr>open_files := open_files ctx - 1\<rparr>"
    and w: "live w' = live w - 1" "\<forall>k. held k w' = held k w" unfolding file_get_Inr by blast
  have "\<not> used (zero_entry E)" by (simp add: zero_entry_def)
  from ctx_ok_clear [OF assms(1) i this] c w show ?thesis
    by (auto simp: accounted_def)
qed

lemma opendir_accounted:
  assumes "ctx_ok ctx" "env_laws held live E" "vfs_lwext4_opendir E ctx p w = (r, ctx', w')"
  shows "accounted held live (ctx, ds, w) (ctx', case r of Inl _ \<Rightarrow> ds | Inr d \<Rightarrow> ds @ [d], w')"
  using opendir_effect [OF assms(2,3)] assms(1)
  by (cases r) (auto simp: accounted_def streams_of_def)

lemma closedir_accounted:
  assumes "ctx_ok ctx" "env_laws held live E"
    "vfs_lwext4_closedir E ctx (pdir_at i ds) w = (r, pdir, ctx', w')"
  shows "accounted held live (ctx, ds, w) (ctx', put_dir i pdir ds, w')"
proof (cases r)
  case (Inl e)
  with closedir_effect [OF assms(2,3)] show ?thesis
    using dir_effect [OF assms(1), of held live w w' pdir i ds] by (simp add: settled_def)
next
  case (Inr u)
  with closedir_effect [OF assms(2,3)] have i: "i < length ds" "dir_ctx (ds ! i) = Some (ctx_id ctx)"
    and p: "pdir = None" "ctx' = ctx\<lparr>open_dirs := open_dirs ctx - 1\<rparr>" "live w' = live w - 1"
      "\<forall>k. held k w' = held k w" by (auto simp: pdir_at_def split: if_splits)
  have s: "dir_ctx ` set (take i ds @ drop (Suc i) ds) \<subseteq> dir_ctx ` set ds"
    by (intro image_mono) (auto dest: in_set_takeD in_set_dropD)
  from i(1) have l: "length (take i ds @ drop (Suc i) ds) = length ds - 1" by simp
  show ?thesis
    using assms(1) p i s l streams_remove [OF i(1)] by (auto simp: accounted_def put_dir_def)
qed

lemma run_call_accounted:
  assumes "env_laws held live E" "ctx_ok ctx" "run_call E c (ctx, ds, w) = Some s'"
  shows "accounted held live (ctx, ds, w) s'"
proof -
  note sets = write_settled read_settled lseek_settled fstat_settled fsync_settled stat_settled
    unlink_settled mkdir_settled access_settled utime_settled telldir_settled
  note touches = write_touched read_touched lseek_touched positioned_touched ftruncate_touched
  have keep: "accounted held live (ctx, ds, w) (ctx, ds, w')" if "settled held live w w'" for w'
    using accounted_settled [OF assms(2) touched_refl that] .
  note acc = accounted_settled [OF assms(2)] keep open_accounted [OF assms(2,1)]
    close_accounted [OF assms(2,1)] opendir_accounted [OF assms(2,1)] closedir_accounted [OF assms(2,1)]
    dir_effect [OF assms(2)]
  show ?thesis
  proof (cases c)
    case (Call_pread fd d n off)
    with assms(3) positioned_settled [OF assms(1)] positioned_touched show ?thesis
      by (auto simp: vfs_lwext4_pread_def split: option.splits intro!: acc(1))
  next
    case (Call_pwrite fd d n off)
    with assms(3) positioned_settled [OF assms(1)] positioned_touched show ?thesis
      by (auto simp: vfs_lwext4_pwrite_def split: option.splits intro!: acc(1))
  next
    case (Call_ftruncate fd n)
    with assms(3) ftruncate_settled [OF assms(1)] ftruncate_touched show ?thesis
      by (auto split: option.splits intro!: acc(1))
  next
    case (Call_truncate p n)
    with assms(3) truncate_settled [OF assms(1)] show ?thesis by (auto split: option.splits intro!: acc(2))
  next
    case (Call_link p q)
    with assms(3) link_settled [OF assms(1)] show ?thesis by (auto split: option.splits intro!: acc(2))
  next
    case (Call_rename p q)
    with assms(3) rename_settled [OF assms(1)] show ?thesis by (auto split: option.splits intro!: acc(2))
  next
    case (Call_rmdir p)
    with assms(3) rmdir_settled [OF assms(1)] show ?thesis by (auto split: option.splits intro!: acc(2))
  next
    case (Call_readdir i)
    with assms(3) readdir_effect [OF assms(1)] show ?thesis by (auto split: prod.splits intro!: acc(7))
  next
    case (Call_seekdir i t)
    with assms(3) seekdir_effect [OF assms(1)] show ?thesis by (auto split: prod.splits intro!: acc(7))
  next
    case (Call_open p fl)
    with assms(3) show ?thesis by (auto split: prod.splits intro!: acc(3))
  next
    case (Call_close fd)
    with assms(3) show ?thesis by (auto split: prod.splits intro!: acc(4))
  next
    case (Call_opendir p)
    with assms(3) show ?thesis by (cases "vfs_lwext4_opendir E ctx p w") (auto dest: acc(5))
  next
    case (Call_closedir i)
    with assms(3) show ?thesis by (cases "vfs_lwext4_closedir E ctx (pdir_at i ds) w") (auto dest: acc(6))
  next
    case (Call_write fd d n)
    with assms(3) show ?thesis by (auto simp: split_beta intro!: acc(1) touches sets [OF assms(1)])
  next
    case (Call_read fd d n)
    with assms(3) show ?thesis by (auto simp: split_beta intro!: acc(1) touches sets [OF assms(1)])
  next
    case (Call_lseek fd off wh)
    with assms(3) show ?thesis by (auto simp: split_beta intro!: acc(1) touches sets [OF assms(1)])
  qed (use assms(3) in \<open>auto simp: split_beta intro!: acc(2) sets [OF assms(1)]\<close>)
qed

text \<open>The machine of one context keeps its accounts.\<close>

definition keeps_accounts ::
  "(nat \<Rightarrow> 'w \<Rightarrow> int) \<Rightarrow> ('w \<Rightarrow> int) \<Rightarrow> ('w, 'f, 'd) vfs_env \<Rightarrow> ('w, 'f, 'd) vfs_state \<Rightarrow> ('w, 'f, 'd) vfs_state \<Rightarrow> bool" where
  "keeps_accounts held live E s0 s \<longleftrightarrow> env_laws held live E \<and> accounted held live s0 s"

interpretation vfs_machine: preserved "run_call E" "keeps_accounts held live E s0"
  for E :: "('w, 'f, 'd) vfs_env" and held live s0
proof unfold_locales
  fix s c s'
  assume a: "keeps_accounts held live E s0 s" "run_call E c s = Some s'"
  obtain ctx ds w where s: "s = (ctx, ds, w)" by (metis prod_cases3)
  have "ctx_ok ctx" using a(1) by (auto simp: keeps_accounts_def accounted_def s)
  then have "accounted held live s s'"
    using run_call_accounted [of held live E ctx c ds w s'] a by (simp add: keeps_accounts_def s)
  then show "keeps_accounts held live E s0 s'"
    using a(1) accounted_trans [of held live s0 s s'] by (simp add: keeps_accounts_def)
qed

end
