(* ===== verification/Vfs_System.thy ===== *)
theory Vfs_System
  imports Vfs_Calls
begin

text \<open>
  The whole VFS adapter as a state machine: the registry, all directory streams and the
  world.  A step is a call on a registered context, a registration, an unregistration or a
  recursive removal.  The invariant \<open>system_ok\<close> says that registered prefixes and mounts are
  unique, that every stream belongs to a registered context, and accounts for every lock and
  every allocation.
\<close>

section \<open>Allocation and release of contexts\<close>

definition parts_size :: "ctx_parts \<Rightarrow> int" where
  "parts_size p = 1 + (if base_path_given p then 1 else 0) + (if mount_point_given p then 1 else 0)
     + (if files_given p then 1 else 0) + (if grow_buffer_given p then 1 else 0)
     + (if lock_given p = None then 0 else 1)"

lemma context_free_balance:
  assumes "env_laws held live E"
  shows "live (context_free E (Some p) w) = live w - parts_size p" "held k (context_free E (Some p) w) = held k w"
  by (auto simp: context_free_def Let_def free_if_def parts_size_def env_rules [OF assms] split: option.splits)

lemma normalize_balance:
  assumes "env_laws held live E"
  shows "live (snd (normalize_mount_point E mp w)) = live w + (if fst (normalize_mount_point E mp w) = None then 0 else 1)"
    "held k (snd (normalize_mount_point E mp w)) = held k w"
  by (auto simp: normalize_mount_point_def Let_def split_beta env_rules [OF assms] split: option.splits)

lemma normalize_Some:
  assumes "normalize_mount_point E (Some mp) w = (Some q, w')"
  shows "q = (if last mp = slash then mp else mp @ [slash]) \<and> mp \<noteq> [] \<and> mp ! 0 = slash"
  using assms by (auto simp: normalize_mount_point_def Let_def split_beta split: if_splits)

lemma normalize_ends_with_slash:
  assumes "fst (normalize_mount_point E mp w) = Some q"
  shows "q \<noteq> [] \<and> last q = slash"
  using assms by (auto simp: normalize_mount_point_def Let_def split_beta split: if_splits option.splits)

lemma alloc_context_effect:
  assumes "env_laws held live E" "alloc_context E c addr w = (r, w')"
  shows "(\<forall>k. held k w' = held k w) \<and> live w' = live w - 1
    + (case r of Inl parts \<Rightarrow> parts_size parts | Inr ctx \<Rightarrow> parts_size (parts_of ctx))"
  using assms(2)
  by (auto simp: alloc_context_def split_beta parts_size_def parts_of_def env_rules [OF assms(1)]
      normalize_balance [OF assms(1)] split: if_splits)

lemma alloc_context_Inr:
  assumes "alloc_context E c addr w = (Inr ctx, w')"
  shows "ctx_ok ctx \<and> ctx_id ctx = addr \<and> open_files ctx = 0 \<and> open_dirs ctx = 0
    \<and> base_path ctx = the (conf_base_path c) \<and> max_files ctx = conf_max_files c
    \<and> read_only ctx = conf_read_only c \<and> open_slots (files ctx) = 0
    \<and> (\<exists>w1 w2. normalize_mount_point E (conf_mount_point c) w1 = (Some (mount_point ctx), w2))"
  using assms
  by (auto simp: alloc_context_def split_beta ctx_ok_def open_slots_def zero_entry_def prod_eq_iff split: if_splits
      dest: normalize_ends_with_slash)

lemma contexts_lock_get_effect:
  assumes "env_laws held live E" "stored_meanwhile E = (\<lambda>_. None)"
    "contexts_lock_get E st w = (l, st', w')"
  shows "s_contexts st' = s_contexts st \<and> (\<forall>k. held k w' = held k w)
    \<and> live w' - (if s_contexts_lock st' = None then 0 else 1) = live w - (if s_contexts_lock st = None then 0 else 1)
    \<and> l = s_contexts_lock st'"
  using assms(2,3)
  by (auto simp: contexts_lock_get_def split_beta env_rules [OF assms(1)] split: option.splits)

text \<open>When another task wins the race, the candidate mutex is given back.\<close>

lemma contexts_lock_get_raced:
  assumes "env_laws held live E" "s_contexts_lock st = None"
    "fst (xSemaphoreCreateMutex E w) \<noteq> None" "stored_meanwhile E (snd (xSemaphoreCreateMutex E w)) = Some l"
  shows "\<exists>w'. contexts_lock_get E st w = (Some l, st\<lparr>s_contexts_lock := Some l\<rparr>, w') \<and> settled held live w w'"
  using assms(2-4) by (auto simp: contexts_lock_get_def split_beta settled_def env_rules [OF assms(1)])

section \<open>The system\<close>

type_synonym ('w, 'f, 'd) vfs_system = "'f registry \<times> 'd esp_lwext4_dir list \<times> 'w"

text \<open>
  The heap never returns the address of a context that is still in use, and has room for
  fewer than \<open>2 ^ 32\<close> streams.
\<close>

inductive vfs_step :: "('w, 'f, 'd) vfs_env \<Rightarrow> ('w, 'f, 'd) vfs_system \<Rightarrow> ('w, 'f, 'd) vfs_system \<Rightarrow> bool"
  for E where
  call: "i < length (s_contexts st) \<Longrightarrow> run_call E c (s_contexts st ! i, ds, w) = Some (ctx', ds', w')
    \<Longrightarrow> length ds' < 2 ^ 32
    \<Longrightarrow> vfs_step E (st, ds, w) (st\<lparr>s_contexts := (s_contexts st)[i := ctx']\<rparr>, ds', w')"
| register: "esp_vfs_lwext4_register E conf st w = (e, st', w') \<Longrightarrow> distinct (map ctx_id (s_contexts st'))
    \<Longrightarrow> vfs_step E (st, ds, w) (st', ds, w')"
| unregister: "esp_vfs_lwext4_unregister E bp st w = (e, st', w') \<Longrightarrow> vfs_step E (st, ds, w) (st', ds, w')"
| rmdir_recurse: "esp_vfs_lwext4_rmdir_recurse E p st w = (e, st', w') \<Longrightarrow> vfs_step E (st, ds, w) (st', ds, w')"

inductive_cases vfs_stepE [elim!]: "vfs_step E (st, ds, w) s'"

definition ctx_size :: "'f esp_lwext4 \<Rightarrow> int" where
  "ctx_size ctx = parts_size (parts_of ctx) + int (open_slots (files ctx))"

definition system_ok :: "(nat \<Rightarrow> 'w \<Rightarrow> int) \<Rightarrow> ('w \<Rightarrow> int) \<Rightarrow> ('w, 'f, 'd) vfs_system \<Rightarrow> bool" where
  "system_ok held live s \<longleftrightarrow> (case s of (st, ds, w) \<Rightarrow>
     distinct (map base_path (s_contexts st)) \<and> distinct (map mount_point (s_contexts st))
     \<and> distinct (map ctx_id (s_contexts st))
     \<and> (\<forall>c \<in> set (s_contexts st). ctx_ok c \<and> unat (open_dirs c) = streams_of (ctx_id c) ds)
     \<and> dir_ctx ` set ds \<subseteq> (\<lambda>c. Some (ctx_id c)) ` set (s_contexts st)
     \<and> length ds < 2 ^ 32 \<and> (\<forall>k. held k w = 0)
     \<and> live w = sum_list (map ctx_size (s_contexts st)) + int (length ds)
         + (if s_contexts_lock st = None then 0 else 1))"

lemma sum_list_update_int: "i < length xs \<Longrightarrow> sum_list (xs[i := y]) = sum_list xs - xs ! i + (y :: int)"
proof (induction xs arbitrary: i)
  case (Cons x xs)
  then show ?case by (cases i) auto
qed simp

lemma subset_insert_known: "A \<subseteq> insert x B \<Longrightarrow> x \<in> C \<Longrightarrow> B \<subseteq> C \<Longrightarrow> A \<subseteq> C"
  by blast

lemma subset_insert_absent: "A \<subseteq> insert x C \<Longrightarrow> x \<notin> A \<Longrightarrow> A \<subseteq> C"
  by blast

lemma system_okI:
  assumes "distinct (map base_path (s_contexts st))" "distinct (map mount_point (s_contexts st))"
    "distinct (map ctx_id (s_contexts st))"
    "\<forall>c \<in> set (s_contexts st). ctx_ok c \<and> unat (open_dirs c) = streams_of (ctx_id c) ds"
    "dir_ctx ` set ds \<subseteq> (\<lambda>c. Some (ctx_id c)) ` set (s_contexts st)" "length ds < 2 ^ 32"
    "\<forall>k. held k w = 0"
    "live w = sum_list (map ctx_size (s_contexts st)) + int (length ds)
         + (if s_contexts_lock st = None then 0 else 1)"
  shows "system_ok held live (st, ds, w)"
  using assms by (simp add: system_ok_def)

lemma system_okD:
  assumes "system_ok held live (st, ds, w)"
  shows "distinct (map base_path (s_contexts st))" "distinct (map mount_point (s_contexts st))"
    "distinct (map ctx_id (s_contexts st))"
    "\<forall>c \<in> set (s_contexts st). ctx_ok c \<and> unat (open_dirs c) = streams_of (ctx_id c) ds"
    "dir_ctx ` set ds \<subseteq> (\<lambda>c. Some (ctx_id c)) ` set (s_contexts st)" "length ds < 2 ^ 32"
    "\<forall>k. held k w = 0"
    "live w = sum_list (map ctx_size (s_contexts st)) + int (length ds)
         + (if s_contexts_lock st = None then 0 else 1)"
  using assms unfolding system_ok_def prod.case by blast+

lemma streams_le: "streams_of c ds \<le> length ds"
  by (simp add: streams_of_def)

lemma streams_zero: "streams_of c ds = 0 \<longleftrightarrow> Some c \<notin> dir_ctx ` set ds"
  by (force simp: streams_of_def filter_empty_conv)

lemma ctx_size_kin: "kin c c' \<Longrightarrow> ctx_size c' - int (open_slots (files c')) = ctx_size c - int (open_slots (files c))"
  by (simp add: ctx_size_def parts_of_def kin_def)

text \<open>A call on one context.\<close>

lemma call_keeps_system:
  assumes "env_laws held live E" "system_ok held live (st, ds, w)" "i < length (s_contexts st)"
    "run_call E c (s_contexts st ! i, ds, w) = Some (ctx', ds', w')" "length ds' < 2 ^ 32"
  shows "system_ok held live (st\<lparr>s_contexts := (s_contexts st)[i := ctx']\<rparr>, ds', w')"
proof -
  let ?cs = "s_contexts st"
  let ?c = "?cs ! i"
  have c: "ctx_ok ?c" "unat (open_dirs ?c) = streams_of (ctx_id ?c) ds" and d: "distinct (map ctx_id ?cs)"
    using assms(2,3) by (simp_all add: system_ok_def)
  have acc: "accounted held live (?c, ds, w) (ctx', ds', w')"
    by (rule run_call_accounted [OF assms(1) c(1) assms(4)])
  then have k: "kin ?c ctx'" and id: "ctx_id ctx' = ctx_id ?c" by (simp_all add: accounted_def kin_def)
  have m: "map g (?cs[i := ctx']) = map g ?cs" if "g ctx' = g ?c" for g :: "'b esp_lwext4 \<Rightarrow> 'x"
    using that assms(3) by (simp add: map_update list_update_same_conv)
  have od: "open_dirs ctx' = of_nat (streams_of (ctx_id ctx') ds')"
  proof -
    have "open_dirs ?c = of_nat (streams_of (ctx_id ?c) ds)" by (simp add: c(2) [symmetric])
    then show ?thesis using acc by (simp add: accounted_def)
  qed
  have "unat (open_dirs ctx') = streams_of (ctx_id ctx') ds'"
    unfolding od using streams_le [of "ctx_id ctx'" ds'] assms(5) by (simp add: unat_of_nat)
  moreover have "ctx_ok e \<and> unat (open_dirs e) = streams_of (ctx_id e) ds'"
    if "e \<in> set (?cs[i := ctx'])" "e \<noteq> ctx'" for e
  proof -
    from that(1) obtain j where jl: "j < length ?cs" "e = ?cs[i := ctx'] ! j" by (auto simp: in_set_conv_nth)
    moreover from this that(2) have "j \<noteq> i" by auto
    ultimately have j: "j < length ?cs" "j \<noteq> i" "e = ?cs ! j" by simp_all
    then have "ctx_id e \<noteq> ctx_id ?c" using d assms(3) by (simp add: distinct_conv_nth)
    then show ?thesis using acc assms(2) j by (auto simp: accounted_def system_ok_def)
  qed
  ultimately have cs: "\<forall>e \<in> set (?cs[i := ctx']). ctx_ok e \<and> unat (open_dirs e) = streams_of (ctx_id e) ds'"
    using acc by (auto simp: accounted_def)
  have ids: "(\<lambda>c. Some (ctx_id c)) ` set (?cs[i := ctx']) = (\<lambda>c. Some (ctx_id c)) ` set ?cs"
    using m [of "\<lambda>c. Some (ctx_id c)"] id by (metis (no_types, lifting) list.set_map)
  have "Some (ctx_id ?c) \<in> (\<lambda>c. Some (ctx_id c)) ` set ?cs" using assms(3) by simp
  then have dd: "dir_ctx ` set ds' \<subseteq> (\<lambda>c. Some (ctx_id c)) ` set (?cs[i := ctx'])"
    unfolding ids by (rule subset_insert_known [OF accountedD(7) [OF acc] _ system_okD(5) [OF assms(2)]])
  have "sum_list (map ctx_size (?cs[i := ctx'])) = sum_list (map ctx_size ?cs) - ctx_size ?c + ctx_size ctx'"
    using assms(3) by (simp add: map_update sum_list_update_int)
  then have l: "live w' = sum_list (map ctx_size (?cs[i := ctx'])) + int (length ds')
      + (if s_contexts_lock st = None then 0 else 1)"
    using acc assms(2) ctx_size_kin [OF k] by (simp add: accounted_def system_ok_def)
  have e: "map base_path (?cs[i := ctx']) = map base_path ?cs" "map mount_point (?cs[i := ctx']) = map mount_point ?cs"
    "map ctx_id (?cs[i := ctx']) = map ctx_id ?cs"
    using k m [of base_path] m [of mount_point] m [of ctx_id] by (simp_all only: kin_def)
  have h: "\<forall>k. held k w' = 0" using acc assms(2) by (simp add: accounted_def system_ok_def)
  note o = system_okD(1-3) [OF assms(2)]
  have n: "s_contexts (st\<lparr>s_contexts := x\<rparr>) = x" "s_contexts_lock (st\<lparr>s_contexts := x\<rparr>) = s_contexts_lock st" for x
    by simp_all
  show ?thesis
    by (rule system_okI, unfold n e) (rule o cs dd assms(5) h l)+
qed

text \<open>Registration, unregistration and recursive removal.\<close>

lemma system_ok_world:
  assumes "system_ok held live (st, ds, w)" "s_contexts st' = s_contexts st" "\<forall>k. held k w' = held k w"
    "live w' - (if s_contexts_lock st' = None then 0 else 1) = live w - (if s_contexts_lock st = None then 0 else 1)"
  shows "system_ok held live (st', ds, w')"
  using assms by (simp add: system_ok_def)

text \<open>
  What registration leaves: nothing on failure; on success one new context, unlike all the
  others, and its allocations.
\<close>

definition lock_count :: "'f registry \<Rightarrow> int" where
  "lock_count st = (if s_contexts_lock st = None then 0 else 1)"

definition registered ::
  "(nat \<Rightarrow> 'w \<Rightarrow> int) \<Rightarrow> ('w \<Rightarrow> int) \<Rightarrow> 'f registry \<Rightarrow> int \<Rightarrow> 'w \<Rightarrow> esp_err \<times> 'f registry \<times> 'w \<Rightarrow> bool" where
  "registered held live st spare w res \<longleftrightarrow> (case res of (e, st', w') \<Rightarrow>
     (\<forall>k. held k w' = held k w)
     \<and> (if e = ESP_OK then
          (\<exists>ctx. s_contexts st' = ctx # s_contexts st \<and> ctx_ok ctx \<and> open_dirs ctx = 0
            \<and> base_path ctx \<notin> base_path ` set (s_contexts st) \<and> mount_point ctx \<notin> mount_point ` set (s_contexts st)
            \<and> live w' - lock_count st' = live w - lock_count st + ctx_size ctx - spare)
        else s_contexts st' = s_contexts st \<and> live w' - lock_count st' = live w - lock_count st - spare))"

lemma register_locked_effect:
  assumes "env_laws held live E" "ctx_ok ctx" "open_dirs ctx = 0" "open_slots (files ctx) = 0"
    "\<not> isl (fst (take_lock E l w))"
  shows "registered held live st (parts_size (parts_of ctx)) w (register_locked E ctx l st (snd (take_lock E l w)))"
  using assms(2-5)
  by (auto simp: register_locked_def registered_def split_beta Let_def ctx_size_def lock_count_def
      context_free_balance [OF assms(1)] balance [OF assms(1)] env_rules [OF assms(1)] list_ex_iff)

lemma register_effect:
  assumes "env_laws held live E" "stored_meanwhile E = (\<lambda>_. None)"
  shows "registered held live st 0 w (esp_vfs_lwext4_register E conf st w)"
proof -
  let ?w1 = "snd (calloc_ok E 1 (sizeof_ctx E) w)"
  consider "\<not> register_args_ok E conf" | "\<not> fst (calloc_ok E 1 (sizeof_ctx E) w)"
    | (go) "register_args_ok E conf" "fst (calloc_ok E 1 (sizeof_ctx E) w)" by blast
  then show ?thesis
  proof cases
    case go
    obtain r w2 where al: "alloc_context E (the conf) (calloc_addr E ?w1) ?w1 = (r, w2)" by force
    note ae = alloc_context_effect [OF assms(1) al]
    have l1: "live ?w1 = live w + 1" "held k ?w1 = held k w" for k using go by (simp_all add: env_rules [OF assms(1)])
    show ?thesis
    proof (cases r)
      case (Inl parts)
      with go al ae l1 show ?thesis
        by (simp add: esp_vfs_lwext4_register_def split_beta registered_def context_free_balance [OF assms(1)])
    next
      case (Inr ctx)
      note c = alloc_context_Inr [OF al [unfolded Inr]]
      obtain res n w3 where st: "ext4_mount_point_stats E (mount_point ctx) w2 = (res, n, w3)" by (metis prod_cases3)
      then have w3: "w3 = snd (snd (ext4_mount_point_stats E (mount_point ctx) w2))" by simp
      have l3: "live w3 = live w + parts_size (parts_of ctx)" "held k w3 = held k w" for k
        using ae l1 Inr by (simp_all add: w3 env_rules [OF assms(1)])
      obtain lk st1 w4 where cg: "contexts_lock_get E st w3 = (lk, st1, w4)" by (metis prod_cases3)
      note ce = contexts_lock_get_effect [OF assms cg, folded lock_count_def]
      have l4: "live w4 - lock_count st1 = live w + parts_size (parts_of ctx) - lock_count st"
        "s_contexts st1 = s_contexts st" "held k w4 = held k w" for k using ce l3 by simp_all
      consider "res \<noteq> EOK" | "res = EOK" "lk = None" | l where "res = EOK" "lk = Some l" by auto
      then show ?thesis
      proof cases
        case 1
        with go al Inr st l3 show ?thesis
          by (simp add: esp_vfs_lwext4_register_def split_beta registered_def context_free_balance [OF assms(1)])
      next
        case 2
        with go al Inr st cg l4 show ?thesis
          by (simp add: esp_vfs_lwext4_register_def split_beta registered_def context_free_balance [OF assms(1)])
      next
        case 3
        show ?thesis
        proof (cases "fst (take_lock E l w4)")
          case (Inl e)
          with 3 go al Inr st cg l4 \<open>r = _\<close> show ?thesis
            by (simp add: esp_vfs_lwext4_register_def split_beta registered_def balance [OF assms(1)]
                context_free_balance [OF assms(1)])
        next
          case (Inr u)
          then have "esp_vfs_lwext4_register E conf st w = register_locked E ctx l st1 (snd (take_lock E l w4))"
            using 3 go al st cg \<open>r = _\<close> by (simp add: esp_vfs_lwext4_register_def split_beta)
          moreover have "registered held live st1 (parts_size (parts_of ctx)) w4 \<dots>"
            using register_locked_effect [OF assms(1), of ctx l w4 st1] c Inr by simp
          ultimately show ?thesis using l4 by (auto simp: registered_def split_beta split: if_splits)
        qed
      qed
    qed
  qed (auto simp: esp_vfs_lwext4_register_def registered_def split_beta env_rules [OF assms(1)])
qed

lemma find_context_Some:
  "find_context bp cs = Some c \<Longrightarrow> \<exists>xs ys. cs = xs @ c # ys \<and> unlink_context bp cs = xs @ ys \<and> base_path c = bp"
proof (induction cs)
  case (Cons d cs)
  show ?case
  proof (cases "base_path d = bp")
    case True
    with Cons.prems show ?thesis by (intro exI [of _ "[]"] exI [of _ cs]) auto
  next
    case False
    with Cons obtain xs ys where "cs = xs @ c # ys" "unlink_context bp cs = xs @ ys" "base_path c = bp" by auto
    then show ?thesis using False by (intro exI [of _ "d # xs"] exI [of _ ys]) simp
  qed
qed simp

lemma find_context_None: "find_context bp cs = None \<longleftrightarrow> bp \<notin> base_path ` set cs"
  by (induction cs) auto

lemma unregister_effect:
  assumes "env_laws held live E" "stored_meanwhile E = (\<lambda>_. None)"
    "esp_vfs_lwext4_unregister E bp st w = (e, st', w')"
  shows "(\<forall>k. held k w' = held k w)
    \<and> (if e = ESP_OK then
         (\<exists>b ctx. bp = Some b \<and> find_context b (s_contexts st) = Some ctx
           \<and> s_contexts st' = unlink_context b (s_contexts st)
           \<and> open_files ctx = 0 \<and> open_dirs ctx = 0
           \<and> live w' - lock_count st' = live w - lock_count st - parts_size (parts_of ctx))
       else s_contexts st' = s_contexts st \<and> live w' - lock_count st' = live w - lock_count st)"
proof -
  obtain lk st1 w1 where cg: "contexts_lock_get E st w = (lk, st1, w1)" by (metis prod_cases3)
  have ce: "s_contexts st1 = s_contexts st" "\<forall>k. held k w1 = held k w"
    "live w1 - lock_count st1 = live w - lock_count st"
    using contexts_lock_get_effect [OF assms(1,2) cg, folded lock_count_def] by simp_all
  show ?thesis
  proof (cases "bp = None \<or> lk = None")
    case True
    with assms(3) cg ce show ?thesis by (auto simp: esp_vfs_lwext4_unregister_def split: option.splits)
  next
    case False
    then obtain b l where b: "bp = Some b" "lk = Some l" by auto
    show ?thesis
    proof (cases "isl (fst (take_lock E l w1)) \<or> find_context b (s_contexts st) = None")
      case True
      with assms(3) cg ce b show ?thesis
        by (auto simp: esp_vfs_lwext4_unregister_def split_beta balance [OF assms(1)]
            split: sum.splits dest: isl_sym)
    next
      case False
      then obtain ctx where f: "find_context b (s_contexts st) = Some ctx" by auto
      show ?thesis
        using assms(3) cg ce b f False
        by (auto simp: esp_vfs_lwext4_unregister_def split_beta Let_def balance [OF assms(1)] env_rules [OF assms(1)]
            context_free_balance [OF assms(1)] lock_count_def split: sum.splits if_splits dest: isl_sym)
    qed
  qed
qed

lemma rmdir_recurse_effect:
  assumes "env_laws held live E" "stored_meanwhile E = (\<lambda>_. None)"
    "esp_vfs_lwext4_rmdir_recurse E p st w = (e, st', w')"
  shows "(\<forall>k. held k w' = held k w) \<and> s_contexts st' = s_contexts st
    \<and> live w' - lock_count st' = live w - lock_count st"
proof -
  obtain lk st1 w1 where cg: "contexts_lock_get E st w = (lk, st1, w1)" by (metis prod_cases3)
  have ce: "s_contexts st1 = s_contexts st" "\<forall>k. held k w1 = held k w"
    "live w1 - lock_count st1 = live w - lock_count st"
    using contexts_lock_get_effect [OF assms(1,2) cg, folded lock_count_def] by simp_all
  show ?thesis
    using assms(3) cg ce
    by (auto simp: esp_vfs_lwext4_rmdir_recurse_def remove_tree_def split_beta Let_def balance [OF assms(1)]
        env_rules [OF assms(1)] split: sum.splits option.splits if_splits dest: isl_sym)
qed

section \<open>The invariant of the system\<close>

lemma register_keeps_system:
  assumes "system_ok held live (st, ds, w)" "registered held live st 0 w (e, st', w')"
    "distinct (map ctx_id (s_contexts st'))"
  shows "system_ok held live (st', ds, w')"
proof (cases "e = ESP_OK")
  case True
  with assms(2) obtain ctx where c: "s_contexts st' = ctx # s_contexts st" "ctx_ok ctx" "open_dirs ctx = 0"
    "base_path ctx \<notin> base_path ` set (s_contexts st)" "mount_point ctx \<notin> mount_point ` set (s_contexts st)"
    "live w' - lock_count st' = live w - lock_count st + ctx_size ctx" "\<forall>k. held k w' = held k w"
    by (auto simp: registered_def)
  have "Some (ctx_id ctx) \<notin> dir_ctx ` set ds"
    using assms(1,3) c(1) by (auto simp: system_ok_def)
  then have "streams_of (ctx_id ctx) ds = 0" by (simp add: streams_zero)
  then show ?thesis
    using assms(1,3) c by (auto simp: system_ok_def lock_count_def)
next
  case False
  with assms(1,2) show ?thesis by (simp add: registered_def system_ok_def lock_count_def)
qed

lemma unregister_keeps_system:
  assumes "system_ok held live (st, ds, w)" "s_contexts st = xs @ ctx # ys" "s_contexts st' = xs @ ys"
    "open_files ctx = 0" "open_dirs ctx = 0" "\<forall>k. held k w' = held k w"
    "live w' - lock_count st' = live w - lock_count st - parts_size (parts_of ctx)"
  shows "system_ok held live (st', ds, w')"
proof -
  have c: "ctx_ok ctx" "streams_of (ctx_id ctx) ds = 0" using assms(1,2,5) by (auto simp: system_ok_def)
  have n: "open_slots (files ctx) = 0" using c(1) assms(4) by (simp add: ctx_ok_def)
  have d: "dir_ctx ` set ds \<subseteq> (\<lambda>c. Some (ctx_id c)) ` set (s_contexts st')"
  proof (rule subset_insert_absent)
    show "dir_ctx ` set ds \<subseteq> insert (Some (ctx_id ctx)) ((\<lambda>c. Some (ctx_id c)) ` set (s_contexts st'))"
      using system_okD(5) [OF assms(1)] by (simp add: assms(2,3))
    show "Some (ctx_id ctx) \<notin> dir_ctx ` set ds" using c(2) by (simp add: streams_zero)
  qed
  have l: "live w' = sum_list (map ctx_size (s_contexts st')) + int (length ds)
         + (if s_contexts_lock st' = None then 0 else 1)"
    using assms(1,2,3,7) n by (simp add: system_ok_def lock_count_def ctx_size_def)
  have h: "\<forall>k. held k w' = 0" using assms(1,6) by (simp add: system_ok_def)
  have o: "distinct (map g (s_contexts st'))" if "distinct (map g (s_contexts st))" for g :: "'b esp_lwext4 \<Rightarrow> 'x"
    using that by (simp add: assms(2,3))
  note s = system_okD [OF assms(1)]
  have cs: "\<forall>c \<in> set (s_contexts st'). ctx_ok c \<and> unat (open_dirs c) = streams_of (ctx_id c) ds"
    using s(4) by (simp only: assms(2,3) set_append list.set) blast
  show ?thesis
    by (rule system_okI) (rule o [OF s(1)] o [OF s(2)] o [OF s(3)] cs d s(6) h l)+
qed

lemma step_keeps_system:
  assumes "env_laws held live E" "stored_meanwhile E = (\<lambda>_. None)" "vfs_step E s s'" "system_ok held live s"
  shows "system_ok held live s'"
  using assms(3,4)
proof (induction rule: vfs_step.induct)
  case (call i st c ds w ctx' ds' w')
  show ?case by (rule call_keeps_system [OF assms(1) call(4,1,2,3)])
next
  case (register conf st w e st' w' ds)
  have "registered held live st 0 w (e, st', w')"
    using register_effect [OF assms(1,2), of st w conf] by (simp only: register(1))
  then show ?case by (rule register_keeps_system [OF register(3) _ register(2)])
next
  case (unregister bp st w e st' w' ds)
  show ?case
  proof (cases "e = ESP_OK")
    case True
    with unregister_effect [OF assms(1,2) unregister(1)] obtain b ctx where
      f: "find_context b (s_contexts st) = Some ctx" "s_contexts st' = unlink_context b (s_contexts st)"
      and r: "open_files ctx = 0" "open_dirs ctx = 0" "\<forall>k. held k w' = held k w"
        "live w' - lock_count st' = live w - lock_count st - parts_size (parts_of ctx)" by auto
    from find_context_Some [OF f(1)] f(2) obtain xs ys where
      "s_contexts st = xs @ ctx # ys" "s_contexts st' = xs @ ys" by auto
    from unregister_keeps_system [OF unregister(2) this r] show ?thesis .
  next
    case False
    with unregister_effect [OF assms(1,2) unregister(1)] show ?thesis
      by (intro system_ok_world [OF unregister(2)]) (simp_all add: lock_count_def)
  qed
next
  case (rmdir_recurse p st w e st' w' ds)
  from rmdir_recurse_effect [OF assms(1,2) rmdir_recurse(1)] show ?case
    by (intro system_ok_world [OF rmdir_recurse(2)]) (simp_all add: lock_count_def)
qed

definition empty_registry :: "'f registry" where
  "empty_registry = \<lparr>s_contexts = [], s_contexts_lock = None\<rparr>"

lemma empty_system_ok: "\<forall>k. held k w = 0 \<Longrightarrow> live w = 0 \<Longrightarrow> system_ok held live (empty_registry, [], w)"
  by (simp add: system_ok_def empty_registry_def)

lemma reachable_system_ok:
  assumes "env_laws held live E" "stored_meanwhile E = (\<lambda>_. None)" "\<forall>k. held k w = 0" "live w = 0"
    "(vfs_step E)\<^sup>*\<^sup>* (empty_registry, [], w) s"
  shows "system_ok held live s"
  using assms(5)
proof (induction rule: rtranclp_induct)
  case base
  show ?case using empty_system_ok [of held w live] assms(3,4) by simp
next
  case (step s s')
  then show ?case using step_keeps_system [OF assms(1,2)] by blast
qed

end
