(* ===== verification/Vfs_Posix.thy ===== *)
theory Vfs_Posix
  imports Vfs_System
begin

text \<open>
  What the VFS adapter promises about file contents.  \<open>data w i\<close> is the content of inode
  \<open>i\<close>; the documented behaviour of lwext4's file functions is \<open>lwext4_files\<close>: a seek works
  up to the size cached in the handle, reads and writes start at the handle's position and
  refresh the cached size, truncation only shrinks.  On top of that the adapter implements
  POSIX: positioned transfers that keep the position, zero-filled growth, appending at the
  current end.
\<close>

section \<open>The contract of lwext4's files\<close>

text \<open>Sizes stay below \<open>2 ^ 63\<close>.  Results other than EOK may leave the named inode in any state.\<close>

definition file_seeks :: "('w, 'f, 'd) vfs_env \<Rightarrow> bool" where
  "file_seeks E \<longleftrightarrow> (\<forall>f off. off \<le> INT64_MAX \<longrightarrow>
     (case ext4_fseek E f off 0 of (r, f') \<Rightarrow>
        inode f' = inode f \<and> fsize f' = fsize f
        \<and> (if off \<le> fsize f then r = EOK \<and> ext4_ftell E f' = off else r = EINVAL \<and> f' = f)))"

definition file_reads :: "('w \<Rightarrow> u32 \<Rightarrow> bytes) \<Rightarrow> ('w, 'f, 'd) vfs_env \<Rightarrow> bool" where
  "file_reads data E \<longleftrightarrow> (\<forall>f dst n w.
     (case ext4_fread E f dst n w of (r, dst', c, f', w') \<Rightarrow>
        data w' = data w \<and> inode f' = inode f
        \<and> (r = EOK \<longrightarrow>
             unat c = min (unat n) (length (data w (inode f)) - unat (ext4_ftell E f))
             \<and> dst' = mem_write 0 (mem_read (unat (ext4_ftell E f)) (unat c) (data w (inode f))) dst
             \<and> fsize f' = of_nat (length (data w (inode f))) \<and> ext4_ftell E f' = ext4_ftell E f + ucast c)))"

definition file_writes :: "('w \<Rightarrow> u32 \<Rightarrow> bytes) \<Rightarrow> ('w, 'f, 'd) vfs_env \<Rightarrow> bool" where
  "file_writes data E \<longleftrightarrow> (\<forall>f src n w.
     (case ext4_fwrite E f src n w of (r, c, f', w') \<Rightarrow>
        inode f' = inode f \<and> (\<forall>i. i \<noteq> inode f \<longrightarrow> data w' i = data w i)
        \<and> (r = EOK \<longrightarrow> unat c \<le> unat n
            \<and> (unat n \<le> length src \<and> unat (ext4_ftell E f) \<le> length (data w (inode f)) \<longrightarrow>
                data w' (inode f) = mem_write (unat (ext4_ftell E f)) (take (unat c) src) (data w (inode f))
                \<and> fsize f' = of_nat (length (data w' (inode f))) \<and> ext4_ftell E f' = ext4_ftell E f + ucast c))))"

definition file_sizes :: "('w \<Rightarrow> u32 \<Rightarrow> bytes) \<Rightarrow> ('w, 'f, 'd) vfs_env \<Rightarrow> bool" where
  "file_sizes data E \<longleftrightarrow> (\<forall>p w.
     (case ext4_raw_inode_fill E p w of (r, i, ino, w1) \<Rightarrow>
        data w1 = data w
        \<and> (r = EOK \<longrightarrow> (case ext4_get_sblock E p w1 of (r, sb, w2) \<Rightarrow>
             r = EOK \<longrightarrow> ext4_inode_get_size E sb ino = of_nat (length (data w i)))))
     \<and> data (snd (snd (ext4_get_sblock E p w))) = data w)
     \<and> (\<forall>w i. length (data w i) < 2 ^ 63)"

definition file_truncates :: "('w \<Rightarrow> u32 \<Rightarrow> bytes) \<Rightarrow> ('w, 'f, 'd) vfs_env \<Rightarrow> bool" where
  "file_truncates data E \<longleftrightarrow> (\<forall>f n w.
     (case ext4_ftruncate E f n w of (r, f', w') \<Rightarrow>
        inode f' = inode f \<and> (\<forall>i. i \<noteq> inode f \<longrightarrow> data w' i = data w i)
        \<and> (r = EOK \<longrightarrow> data w' (inode f) = take (unat n) (data w (inode f))
              \<and> fsize f' = of_nat (length (data w' (inode f))))))"

definition os_keeps_data :: "('w \<Rightarrow> u32 \<Rightarrow> bytes) \<Rightarrow> ('w, 'f, 'd) vfs_env \<Rightarrow> bool" where
  "os_keeps_data data E \<longleftrightarrow> (\<forall>l w. data (snd (xSemaphoreTake E l w)) = data w)
     \<and> (\<forall>l w. data (xSemaphoreGive E l w) = data w)"

definition lwext4_files :: "('w \<Rightarrow> u32 \<Rightarrow> bytes) \<Rightarrow> ('w, 'f, 'd) vfs_env \<Rightarrow> bool" where
  "lwext4_files data E \<longleftrightarrow> file_seeks E \<and> file_reads data E \<and> file_writes data E \<and> file_sizes data E
     \<and> file_truncates data E \<and> os_keeps_data data E"

lemma seek_result:
  assumes "lwext4_files data E" "ext4_fseek E f off 0 = (r, f')" "off \<le> INT64_MAX"
  shows "inode f' = inode f" "fsize f' = fsize f"
    "off \<le> fsize f \<Longrightarrow> r = EOK \<and> ext4_ftell E f' = off" "\<not> off \<le> fsize f \<Longrightarrow> r = EINVAL \<and> f' = f"
proof -
  have "file_seeks E" using assms(1) by (simp add: lwext4_files_def)
  from this [unfolded file_seeks_def, rule_format, OF assms(3), of f] assms(2)
  show "inode f' = inode f" "fsize f' = fsize f"
    "off \<le> fsize f \<Longrightarrow> r = EOK \<and> ext4_ftell E f' = off" "\<not> off \<le> fsize f \<Longrightarrow> r = EINVAL \<and> f' = f"
    by (simp_all split: if_splits)
qed

lemma read_result:
  assumes "lwext4_files data E" "ext4_fread E f dst n w = (r, dst', c, f', w')"
  shows "data w' = data w" "inode f' = inode f"
    "r = EOK \<Longrightarrow> unat c = min (unat n) (length (data w (inode f)) - unat (ext4_ftell E f))"
    "r = EOK \<Longrightarrow> dst' = mem_write 0 (mem_read (unat (ext4_ftell E f)) (unat c) (data w (inode f))) dst"
    "r = EOK \<Longrightarrow> fsize f' = of_nat (length (data w (inode f)))"
proof -
  have "file_reads data E" using assms(1) by (simp add: lwext4_files_def)
  from this [unfolded file_reads_def, THEN spec, of f, THEN spec, of dst, THEN spec, of n, THEN spec, of w] assms(2)
  show "data w' = data w" "inode f' = inode f"
    "r = EOK \<Longrightarrow> unat c = min (unat n) (length (data w (inode f)) - unat (ext4_ftell E f))"
    "r = EOK \<Longrightarrow> dst' = mem_write 0 (mem_read (unat (ext4_ftell E f)) (unat c) (data w (inode f))) dst"
    "r = EOK \<Longrightarrow> fsize f' = of_nat (length (data w (inode f)))"
    by simp_all
qed

lemma write_result:
  assumes "lwext4_files data E" "ext4_fwrite E f src n w = (r, c, f', w')"
  shows "inode f' = inode f" "i \<noteq> inode f \<Longrightarrow> data w' i = data w i" "r = EOK \<Longrightarrow> unat c \<le> unat n"
    "r = EOK \<Longrightarrow> unat n \<le> length src \<Longrightarrow> unat (ext4_ftell E f) \<le> length (data w (inode f)) \<Longrightarrow>
      data w' (inode f) = mem_write (unat (ext4_ftell E f)) (take (unat c) src) (data w (inode f))
      \<and> fsize f' = of_nat (length (data w' (inode f))) \<and> ext4_ftell E f' = ext4_ftell E f + ucast c"
proof -
  have "file_writes data E" using assms(1) by (simp add: lwext4_files_def)
  from this [unfolded file_writes_def, THEN spec, of f, THEN spec, of src, THEN spec, of n, THEN spec, of w] assms(2)
  show "inode f' = inode f" "i \<noteq> inode f \<Longrightarrow> data w' i = data w i" "r = EOK \<Longrightarrow> unat c \<le> unat n"
    "r = EOK \<Longrightarrow> unat n \<le> length src \<Longrightarrow> unat (ext4_ftell E f) \<le> length (data w (inode f)) \<Longrightarrow>
      data w' (inode f) = mem_write (unat (ext4_ftell E f)) (take (unat c) src) (data w (inode f))
      \<and> fsize f' = of_nat (length (data w' (inode f))) \<and> ext4_ftell E f' = ext4_ftell E f + ucast c"
    by simp_all
qed

lemma truncate_result:
  assumes "lwext4_files data E" "ext4_ftruncate E f n w = (r, f', w')"
  shows "inode f' = inode f" "i \<noteq> inode f \<Longrightarrow> data w' i = data w i"
    "r = EOK \<Longrightarrow> data w' (inode f) = take (unat n) (data w (inode f)) \<and> fsize f' = of_nat (length (data w' (inode f)))"
proof -
  have "file_truncates data E" using assms(1) by (simp add: lwext4_files_def)
  from this [unfolded file_truncates_def, THEN spec, of f, THEN spec, of n, THEN spec, of w] assms(2)
  show "inode f' = inode f" "i \<noteq> inode f \<Longrightarrow> data w' i = data w i"
    "r = EOK \<Longrightarrow> data w' (inode f) = take (unat n) (data w (inode f)) \<and> fsize f' = of_nat (length (data w' (inode f)))"
    by simp_all
qed

lemma size_bound: "lwext4_files data E \<Longrightarrow> length (data w i) < 2 ^ 63"
  by (simp add: lwext4_files_def file_sizes_def)

lemma unat_size: "lwext4_files data E \<Longrightarrow> unat (of_nat (length (data w i)) :: u64) = length (data w i)"
  using size_bound [of data E w i] by (simp add: unat_of_nat)

lemma size_le_max: "lwext4_files data E \<Longrightarrow> (of_nat (length (data w i)) :: u64) \<le> INT64_MAX"
  using size_bound [of data E w i] by (simp add: word_le_nat_alt unat_size)

lemma current_size_result:
  assumes "lwext4_files data E" "current_file_size_locked E fl w = (r, w')"
  shows "data w' = data w" "r = Inr n \<Longrightarrow> n = of_nat (length (data w (inode (efile fl))))" "r \<noteq> Inl EOK"
proof -
  have f: "file_sizes data E" using assms(1) by (simp add: lwext4_files_def)
  obtain r1 i ino w1 where a: "ext4_raw_inode_fill E (the (path fl)) w = (r1, i, ino, w1)" by (metis prod_cases4)
  obtain r2 sb w2 where b: "ext4_get_sblock E (the (path fl)) w1 = (r2, sb, w2)" by (metis prod_cases3)
  from f [unfolded file_sizes_def] a b
  have d: "data w1 = data w" "data w2 = data w1"
    "r1 = EOK \<Longrightarrow> r2 = EOK \<Longrightarrow> ext4_inode_get_size E sb ino = of_nat (length (data w i))"
    by (auto dest!: spec [of _ "the (path fl)"] simp: prod_eq_iff split: prod.splits)
  show "data w' = data w" "r = Inr n \<Longrightarrow> n = of_nat (length (data w (inode (efile fl))))" "r \<noteq> Inl EOK"
    using assms(2) a b d by (auto simp: current_file_size_locked_def split: if_splits)
qed

lemma os_data:
  assumes "lwext4_files data E"
  shows "data (snd (take_lock E l w)) = data w" "data (give_lock E l w) = data w"
  using assms by (auto simp: lwext4_files_def os_keeps_data_def take_lock_def give_lock_def split_beta)

section \<open>Growing a file\<close>

definition grow_request :: "u32 \<Rightarrow> u64 \<Rightarrow> u32" where
  "grow_request n remaining = (if remaining < ucast n then ucast remaining else n)"

lemma unat_grow_request: "unat (grow_request n remaining) = min (unat remaining) (unat n)"
proof -
  have n: "unat (ucast n :: u64) = unat n" by simp
  show ?thesis
  proof (cases "remaining < ucast n")
    case True
    then have "unat remaining < unat n" by (simp add: word_less_nat_alt n)
    moreover from this have "unat (ucast remaining :: u32) = unat remaining"
      using unsigned_less [of n, where ?'a = nat] by (simp add: unsigned_ucast_eq take_bit_nat_eq_self_iff)
    ultimately show ?thesis using True by (simp add: grow_request_def)
  next
    case False
    then show ?thesis by (simp add: grow_request_def word_less_nat_alt n)
  qed
qed

text \<open>One round of the loop writes at most what is missing.\<close>

lemma grow_advance:
  assumes "unat (c :: u32) \<le> unat (grow_request n (new_size - current))" "current < new_size"
  shows "unat (current + ucast c) = unat current + unat c" "current + ucast c \<le> new_size"
proof -
  have u: "unat (ucast c :: u64) = unat c" by simp
  have "unat (new_size - current) = unat new_size - unat current"
    using assms(2) by (simp add: unat_sub word_less_nat_alt word_le_nat_alt)
  then have le: "unat c \<le> unat new_size - unat current" using assms(1) by (simp add: unat_grow_request)
  have "unat current < unat new_size" using assms(2) by (simp add: word_less_nat_alt)
  then have "unat current + unat c < 2 ^ 64" using le unsigned_less [of new_size, where ?'a = nat] by simp
  then show s: "unat (current + ucast c) = unat current + unat c" by (simp add: unat_word_ariths u)
  show "current + ucast c \<le> new_size"
    using le \<open>unat current < unat new_size\<close> by (simp add: word_le_nat_alt s)
qed

definition grown :: "('w \<Rightarrow> u32 \<Rightarrow> bytes) \<Rightarrow> u64 \<Rightarrow> 'f ext4_file \<Rightarrow> 'w \<Rightarrow> errno \<times> 'f ext4_file \<times> 'w \<Rightarrow> bool" where
  "grown data new_size f w res \<longleftrightarrow> (case res of (r, f', w') \<Rightarrow>
     inode f' = inode f \<and> (\<forall>i. i \<noteq> inode f \<longrightarrow> data w' i = data w i)
     \<and> (r = EOK \<longrightarrow> data w' (inode f)
           = data w (inode f) @ replicate (unat new_size - length (data w (inode f))) 0
         \<and> fsize f' = new_size))"

lemma grow_loop_correct:
  "grow_loop E buf n new_size current f w = Some res \<Longrightarrow> lwext4_files data E \<Longrightarrow> buf = replicate (unat n) 0 \<Longrightarrow>
   ext4_ftell E f = current \<Longrightarrow> fsize f = current \<Longrightarrow> unat current = length (data w (inode f)) \<Longrightarrow>
   current \<le> new_size \<Longrightarrow> grown data new_size f w res"
proof (induction rule: grow_loop_induct)
  case (step rec E buf n new_size current f w res)
  note lw = step(3) and buf = step(4) and tell = step(5) and size = step(6) and len = step(7) and le = step(8)
  show ?case
  proof (cases "current < new_size")
    case False
    then have "new_size = current" "res = (EOK, f, w)" using le step(2) by simp_all
    then show ?thesis using size len by (simp add: grown_def)
  next
    case True
    define q where "q = grow_request n (new_size - current)"
    obtain r c f1 w1 where wr: "ext4_fwrite E f buf q w = (r, c, f1, w1)" by (metis prod_cases4)
    note wres = write_result [OF lw wr]
    have body: "(if (if r = EOK \<and> c = 0 then EIO else r) = EOK
        then rec E buf n new_size (current + ucast c) f1 w1
        else Some ((if r = EOK \<and> c = 0 then EIO else r), f1, w1)) = Some res"
      using step(2) True wr by (simp add: Let_def q_def grow_request_def split: if_splits)
    show ?thesis
    proof (cases "r = EOK \<and> c \<noteq> 0")
      case False
      then have "res = ((if r = EOK then EIO else r), f1, w1)" using body by (simp split: if_splits)
      then show ?thesis using wres(1,2) False by (auto simp: grown_def)
    next
      case ok: True
      then have rc: "rec E buf n new_size (current + ucast c) f1 w1 = Some res" using body by simp
      have cq: "unat c \<le> unat q" using wres(3) ok by simp
      note adv = grow_advance [OF cq [unfolded q_def] True]
      have "unat q \<le> length buf" by (simp add: q_def unat_grow_request buf)
      with wres(4) ok tell len have d: "data w1 (inode f) = mem_write (unat current) (take (unat c) buf) (data w (inode f))"
        "fsize f1 = of_nat (length (data w1 (inode f)))" "ext4_ftell E f1 = current + ucast c" by simp_all
      have "unat c \<le> unat n" using cq by (simp add: q_def unat_grow_request)
      then have d1: "data w1 (inode f) = data w (inode f) @ replicate (unat c) 0"
        using len by (simp add: d(1) mem_write_def buf min_def)
      then have l1: "unat (current + ucast c) = length (data w1 (inode f))" by (simp add: adv(1) len)
      then have s1: "fsize f1 = current + ucast c" by (metis d(2) of_nat_unat ucast_id unsigned_word_eqI)
      have "grown data new_size f1 w1 res"
        by (rule step(1) [OF rc lw buf d(3) s1 _ adv(2)]) (simp add: l1 wres(1))
      then show ?thesis using wres(1,2) d1 l1 adv(2) len
        by (auto simp: grown_def replicate_add [symmetric] adv(1) word_le_nat_alt split: prod.splits)
    qed
  qed
qed

text \<open>The loop ends when lwext4 never reports more bytes than asked for.\<close>

lemma grow_loop_returns:
  assumes "\<And>f src n w. fst (ext4_fwrite E f src n w) = EOK \<Longrightarrow> unat (fst (snd (ext4_fwrite E f src n w))) \<le> unat n"
  shows "\<exists>res. grow_loop E buf n new_size current f w = Some res"
proof (induction "unat new_size - unat current" arbitrary: current f w rule: less_induct)
  case less
  show ?case
  proof (cases "current < new_size")
    case False
    then show ?thesis by (simp add: grow_loop.simps)
  next
    case True
    define q where "q = grow_request n (new_size - current)"
    obtain r c f1 w1 where wr: "ext4_fwrite E f buf q w = (r, c, f1, w1)" by (metis prod_cases4)
    show ?thesis
    proof (cases "r = EOK \<and> c \<noteq> 0")
      case ok: True
      then have "unat c \<le> unat q" using assms [of f buf q w] wr by simp
      note adv = grow_advance [OF this [unfolded q_def] True]
      have "unat new_size - unat (current + ucast c) < unat new_size - unat current"
        using True adv(1) ok unat_gt_0 [of c] by (simp add: word_less_nat_alt)
      from less [OF this, of f1 w1] True wr ok show ?thesis
        by (subst grow_loop.simps) (simp add: Let_def q_def grow_request_def split: if_splits)
    next
      case False
      with True wr show ?thesis
        by (subst grow_loop.simps) (auto simp: Let_def q_def grow_request_def split: if_splits)
    qed
  qed
qed

text \<open>Content of a given new length: cut off or extended with zeros.\<close>

definition resized :: "nat \<Rightarrow> bytes \<Rightarrow> bytes" where
  "resized n d = take n d @ replicate (n - length d) 0"

lemma length_resized [simp]: "length (resized n d) = n"
  by (simp add: resized_def)

definition can_grow :: "'f esp_lwext4 \<Rightarrow> bool" where
  "can_grow ctx \<longleftrightarrow> grow_buffer ctx = Some (replicate (unat (grow_buffer_size ctx)) 0) \<and> grow_buffer_size ctx \<noteq> 0"

lemma ctx_ok_can_grow: "ctx_ok ctx \<Longrightarrow> \<not> read_only ctx \<Longrightarrow> can_grow ctx"
  by (simp add: ctx_ok_def can_grow_def)

lemma resize_correct:
  assumes lw: "lwext4_files data E" and "can_grow ctx" "new_size \<le> INT64_MAX" "ext4_ftell E (efile fl) \<le> INT64_MAX"
    and rs: "resize_file_locked E ctx fl new_size w = Some (r, fl', w')"
  shows "inode (efile fl') = inode (efile fl)" "i \<noteq> inode (efile fl) \<Longrightarrow> data w' i = data w i"
    "r = EOK \<Longrightarrow> data w' (inode (efile fl)) = resized (unat new_size) (data w (inode (efile fl)))
      \<and> fsize (efile fl') = new_size
      \<and> (length (data w (inode (efile fl))) < unat new_size \<longrightarrow> ext4_ftell E (efile fl') = ext4_ftell E (efile fl))"
proof -
  let ?f = "efile fl"
  let ?d = "data w (inode ?f)"
  obtain buf where buf: "grow_buffer ctx = Some buf" "buf = replicate (unat (grow_buffer_size ctx)) 0"
    "grow_buffer_size ctx \<noteq> 0" using assms(2) by (simp add: can_grow_def)
  obtain cs w1 where cs: "current_file_size_locked E fl w = (cs, w1)" by force
  note csr = current_size_result [OF lw cs]
  have "inode (efile fl') = inode ?f \<and> (\<forall>i. i \<noteq> inode ?f \<longrightarrow> data w' i = data w i)
    \<and> (r = EOK \<longrightarrow> data w' (inode ?f) = resized (unat new_size) ?d \<and> fsize (efile fl') = new_size
      \<and> (length ?d < unat new_size \<longrightarrow> ext4_ftell E (efile fl') = ext4_ftell E ?f))"
  proof (cases cs)
    case (Inl e)
    then show ?thesis using rs cs csr buf by (auto simp: resize_file_locked_def)
  next
    case (Inr current)
    have cur: "current = of_nat (length ?d)" using csr(2) Inr by simp
    have u: "unat current = length ?d" by (simp add: cur unat_size [OF lw])
    show ?thesis
    proof (cases "new_size \<le> current")
      case True
      then obtain f2 where tr: "ext4_ftruncate E ?f new_size w1 = (r, f2, w')" "fl' = fl\<lparr>efile := f2\<rparr>"
        using rs cs Inr buf by (auto simp: resize_file_locked_def split: prod.splits)
      have le: "unat new_size \<le> length ?d" using True by (simp add: word_le_nat_alt u)
      have "fsize f2 = new_size" if "r = EOK"
        using truncate_result(3) [OF lw tr(1) that] le by (simp add: csr(1))
      then show ?thesis
        using truncate_result [OF lw tr(1)] le tr(2) by (auto simp: csr(1) resized_def)
    next
      case False
      obtain r1 f1 where sk: "ext4_fseek E (?f\<lparr>fsize := current\<rparr>) current 0 = (r1, f1)" by force
      have cm: "current \<le> INT64_MAX" using size_le_max [OF lw] cur by simp
      note skr = seek_result [OF lw sk cm]
      have r1: "r1 = EOK" "ext4_ftell E f1 = current" using skr(3) by simp_all
      obtain res where gl: "grow_loop E buf (grow_buffer_size ctx) new_size current f1 w1 = Some res"
        using rs cs Inr buf False sk r1 by (auto simp: resize_file_locked_def Let_def split: option.splits)
      obtain r2 f2 w2 where res: "res = (r2, f2, w2)" by (metis prod_cases3)
      obtain r3 f3 where sk2: "ext4_fseek E f2 (ext4_ftell E ?f) 0 = (r3, f3)" by force
      have fin: "r = (if r2 = EOK \<and> r3 \<noteq> EOK then r3 else r2)" "fl' = fl\<lparr>efile := f3\<rparr>" "w' = w2"
        using rs cs Inr buf False sk r1 gl res sk2 by (auto simp: resize_file_locked_def Let_def)
      have g: "grown data new_size f1 w1 (r2, f2, w2)"
        by (rule grow_loop_correct [OF gl [unfolded res] lw buf(2) r1(2)])
          (use False skr(1,2) csr(1) u in simp_all)
      note skr2 = seek_result [OF lw sk2 assms(4)]
      have t: "ext4_ftell E f3 = ext4_ftell E ?f" if "r = EOK"
        using skr2(3,4) that fin(1) by (cases "ext4_ftell E ?f \<le> fsize f2") (auto split: if_splits)
      have "unat new_size - length ?d + length ?d = unat new_size" "length ?d \<le> unat new_size"
        using False by (simp_all add: word_le_nat_alt u)
      then show ?thesis
        using g skr(1) skr2(1,2) t fin csr(1) by (auto simp: grown_def resized_def)
    qed
  qed
  then show "inode (efile fl') = inode ?f" "i \<noteq> inode ?f \<Longrightarrow> data w' i = data w i"
    "r = EOK \<Longrightarrow> data w' (inode ?f) = resized (unat new_size) ?d \<and> fsize (efile fl') = new_size
      \<and> (length ?d < unat new_size \<longrightarrow> ext4_ftell E (efile fl') = ext4_ftell E ?f)"
    by blast+
qed

section \<open>Positioned transfers\<close>

lemma offset_word:
  assumes "0 \<le> off" "off < 2 ^ 63"
  shows "unat (word_of_int off :: u64) = nat off" "(word_of_int off :: u64) \<le> INT64_MAX"
proof -
  show u: "unat (word_of_int off :: u64) = nat off"
    using assms by (simp add: unsigned_of_int take_bit_int_eq_self)
  show "(word_of_int off :: u64) \<le> INT64_MAX" using assms by (simp add: word_le_nat_alt u)
qed

lemma pread_transfer:
  assumes lw: "lwext4_files data E" and off: "0 \<le> off" "off < 2 ^ 63"
    and pt: "positioned_transfer E ctx fl b n off False w = Some (r, c, b', fl', w')"
  shows "data w' = data w" "inode (efile fl') = inode (efile fl)"
    "r = EOK \<Longrightarrow> unat c = min (unat (io_size_limit n)) (length (data w (inode (efile fl))) - nat off)
      \<and> b' = mem_write 0 (mem_read (nat off) (unat c) (data w (inode (efile fl)))) b"
proof -
  let ?f = "efile fl"
  let ?d = "data w (inode ?f)"
  obtain cs w1 where cs: "current_file_size_locked E fl w = (cs, w1)" by force
  note csr = current_size_result [OF lw cs]
  note ow = offset_word [OF off]
  have "data w' = data w \<and> inode (efile fl') = inode ?f \<and> (r = EOK \<longrightarrow>
     unat c = min (unat (io_size_limit n)) (length ?d - nat off) \<and> b' = mem_write 0 (mem_read (nat off) (unat c) ?d) b)"
  proof (cases cs)
    case (Inl e)
    then show ?thesis using pt cs csr by (auto simp: positioned_transfer_def)
  next
    case (Inr sz)
    have u: "unat sz = length ?d" using csr(2) Inr by (simp add: unat_size [OF lw])
    show ?thesis
    proof (cases "sz \<le> word_of_int off")
      case True
      then have "length ?d \<le> nat off" by (simp add: word_le_nat_alt u ow(1))
      then show ?thesis using pt cs Inr True csr(1) by (auto simp: positioned_transfer_def Let_def)
    next
      case False
      obtain r1 f1 where sk: "ext4_fseek E ?f (word_of_int off) 0 = (r1, f1)" by force
      note skr = seek_result [OF lw sk ow(2)]
      show ?thesis
      proof (cases "r1 = EOK")
        case True
        then have t: "ext4_ftell E f1 = word_of_int off" using skr(3,4) by (cases "word_of_int off \<le> fsize ?f") auto
        obtain r2 b2 c2 f2 w2 where rd: "ext4_fread E f1 b (io_size_limit n) w1 = (r2, b2, c2, f2, w2)" by (metis prod_cases5)
        have "r = r2" "c = c2" "b' = b2" "fl' = fl\<lparr>efile := f2\<rparr>" "w' = w2"
          using pt cs Inr False sk True rd by (auto simp: positioned_transfer_def Let_def)
        then show ?thesis
          using read_result [OF lw rd] csr(1) skr(1) t ow(1) by simp
      next
        case no: False
        then show ?thesis using pt cs Inr False sk csr(1) skr(1) by (auto simp: positioned_transfer_def Let_def)
      qed
    qed
  qed
  then show "data w' = data w" "inode (efile fl') = inode ?f"
    "r = EOK \<Longrightarrow> unat c = min (unat (io_size_limit n)) (length ?d - nat off)
      \<and> b' = mem_write 0 (mem_read (nat off) (unat c) ?d) b" by blast+
qed

lemma pwrite_transfer:
  assumes lw: "lwext4_files data E" and cg: "can_grow ctx" and off: "0 \<le> off" "off < 2 ^ 63"
    and tell: "ext4_ftell E (efile fl) \<le> INT64_MAX" and len: "unat n \<le> length b"
    and pt: "positioned_transfer E ctx fl b n off True w = Some (r, c, b', fl', w')"
  shows "i \<noteq> inode (efile fl) \<Longrightarrow> data w' i = data w i" "inode (efile fl') = inode (efile fl)" "b' = b"
    "r = EOK \<Longrightarrow> unat c \<le> unat (io_size_limit n)
      \<and> data w' (inode (efile fl)) = mem_write (nat off) (take (unat c) b)
          (data w (inode (efile fl)) @ replicate (nat off - length (data w (inode (efile fl)))) 0)"
proof -
  let ?f = "efile fl"
  let ?d = "data w (inode ?f)"
  obtain cs w1 where cs: "current_file_size_locked E fl w = (cs, w1)" by force
  note csr = current_size_result [OF lw cs]
  note ow = offset_word [OF off]
  have "(\<forall>i. i \<noteq> inode ?f \<longrightarrow> data w' i = data w i) \<and> inode (efile fl') = inode ?f \<and> b' = b \<and> (r = EOK \<longrightarrow>
     unat c \<le> unat (io_size_limit n)
     \<and> data w' (inode ?f) = mem_write (nat off) (take (unat c) b) (?d @ replicate (nat off - length ?d) 0))"
  proof (cases cs)
    case (Inl e)
    then show ?thesis using pt cs csr by (auto simp: positioned_transfer_def)
  next
    case (Inr sz)
    have u: "unat sz = length ?d" using csr(2) Inr by (simp add: unat_size [OF lw])
    obtain r0 fl0 w0 where rz: "(if word_of_int off > sz then resize_file_locked E ctx fl (word_of_int off) w1
        else Some (EOK, fl, w1)) = Some (r0, fl0, w0)"
      using pt cs Inr by (auto simp: positioned_transfer_def Let_def split: option.splits)
    have g: "inode (efile fl0) = inode ?f \<and> (\<forall>i. i \<noteq> inode ?f \<longrightarrow> data w0 i = data w i)
      \<and> (r0 = EOK \<longrightarrow> data w0 (inode ?f) = ?d @ replicate (nat off - length ?d) 0)"
    proof (cases "word_of_int off > sz")
      case True
      with rz have rs: "resize_file_locked E ctx fl (word_of_int off) w1 = Some (r0, fl0, w0)" by simp
      have "length ?d < nat off" using True by (simp add: word_less_nat_alt u ow(1))
      then show ?thesis
        using resize_correct [OF lw cg ow(2) tell rs] csr(1) by (auto simp: ow(1) resized_def)
    next
      case False
      then have "nat off \<le> length ?d" by (simp add: word_less_nat_alt u ow(1))
      then show ?thesis using rz False csr(1) by auto
    qed
    show ?thesis
    proof (cases "r0 = EOK")
      case False
      then show ?thesis using pt cs Inr rz g by (auto simp: positioned_transfer_def Let_def)
    next
      case r0: True
      obtain r1 f1 where sk: "ext4_fseek E (efile fl0) (word_of_int off) 0 = (r1, f1)" by force
      note skr = seek_result [OF lw sk ow(2)]
      show ?thesis
      proof (cases "r1 = EOK")
        case True
        then have t: "ext4_ftell E f1 = word_of_int off"
          using skr(3,4) by (cases "word_of_int off \<le> fsize (efile fl0)") auto
        obtain r2 c2 f2 w2 where wr: "ext4_fwrite E f1 b (io_size_limit n) w0 = (r2, c2, f2, w2)" by (metis prod_cases4)
        have fin: "r = r2" "c = c2" "b' = b" "fl' = fl0\<lparr>efile := f2\<rparr>" "w' = w2"
          using pt cs Inr rz r0 sk True wr by (auto simp: positioned_transfer_def Let_def)
        have n: "unat (io_size_limit n) \<le> length b" using io_size_limit_le(1) [of n] len by simp
        have "nat off \<le> length (data w0 (inode ?f))" using g r0 by simp
        then show ?thesis
          using write_result [OF lw wr] skr(1) g r0 t ow(1) n fin by auto
      next
        case no: False
        then show ?thesis using pt cs Inr rz r0 sk g skr(1) by (auto simp: positioned_transfer_def Let_def)
      qed
    qed
  qed
  then show "i \<noteq> inode ?f \<Longrightarrow> data w' i = data w i" "inode (efile fl') = inode ?f" "b' = b"
    "r = EOK \<Longrightarrow> unat c \<le> unat (io_size_limit n)
      \<and> data w' (inode ?f) = mem_write (nat off) (take (unat c) b) (?d @ replicate (nat off - length ?d) 0)"
    by blast+
qed

end
