(* ===== verification/Vfs_Posix_Correct.thy ===== *)
theory Vfs_Posix_Correct
  imports Vfs_Posix
begin

text \<open>
  The file operations of the VFS adapter against POSIX, over the contract of lwext4's files:
  pread, pwrite, write with and without O_APPEND, ftruncate, and that they return.
\<close>

section \<open>Locating the file\<close>

abbreviation file_at :: "'f esp_lwext4 \<Rightarrow> nat \<Rightarrow> 'f ext4_file" where
  "file_at ctx i \<equiv> efile (files ctx ! i)"

lemma put_file_nth:
  assumes "ctx_ok ctx" "i < unat (max_files ctx)"
  shows "files (put_file i fl ctx) ! i = fl" "j \<noteq> i \<Longrightarrow> files (put_file i fl ctx) ! j = files ctx ! j"
  using assms by (simp_all add: ctx_ok_def)

text \<open>What a positioned call does once the file is found.\<close>

lemma positioned_io_cases:
  assumes "positioned_io E ctx fd b n off wr w = Some (res, b', ctx', w')"
  obtains (early) e where "res = Inl e" "b' = b" "ctx' = ctx"
      "w' = w \<or> w' = snd (take_lock E (lock ctx) w) \<or> w' = give_lock E (lock ctx) (snd (take_lock E (lock ctx) w))"
    | (run) i r c fl w2 r2 f where "file_get ctx fd = Inr i" "0 \<le> off" "wr \<longrightarrow> \<not> read_only ctx"
      "ext4_ftell E (file_at ctx i) \<le> INT64_MAX"
      "(if n \<noteq> 0 then positioned_transfer E ctx (files ctx ! i) b n off wr (snd (take_lock E (lock ctx) w))
        else Some (EOK, 0, b, files ctx ! i, snd (take_lock E (lock ctx) w))) = Some (r, c, b', fl, w2)"
      "ext4_fseek E (efile fl) (ext4_ftell E (file_at ctx i)) 0 = (r2, f)"
      "res = (if r \<noteq> EOK then fail_with_errno r else if r2 \<noteq> EOK then fail_with_errno r2 else Inr (sint c))"
      "ctx' = put_file i (fl\<lparr>efile := f\<rparr>) ctx" "w' = give_lock E (lock ctx) w2"
proof -
  let ?w1 = "snd (take_lock E (lock ctx) w)"
  note body = assms [unfolded positioned_io_def split_beta]
  consider (neg) "off < 0" | (ro) "0 \<le> off" "wr \<and> read_only ctx"
    | (lk) e where "0 \<le> off" "\<not> (wr \<and> read_only ctx)" "fst (take_lock E (lock ctx) w) = Inl e"
    | (go) u where "0 \<le> off" "\<not> (wr \<and> read_only ctx)" "fst (take_lock E (lock ctx) w) = Inr u"
    by (cases "fst (take_lock E (lock ctx) w)") (meson not_less)+
  then show thesis
  proof cases
    case neg
    then show thesis using body by (intro early [of EINVAL]) auto
  next
    case ro
    then show thesis using body by (intro early [of EROFS]) auto
  next
    case lk
    then show thesis using body by (intro early [of e]) auto
  next
    case go
    show thesis
    proof (cases "file_get ctx fd")
      case (Inl e)
      then show thesis using body go by (intro early [of e]) auto
    next
      case (Inr i)
      let ?bad = "wr \<and> flags (files ctx ! i) AND O_ACCMODE = O_RDONLY
        \<or> \<not> wr \<and> flags (files ctx ! i) AND O_ACCMODE = O_WRONLY"
      consider (mode) ?bad | (big) "\<not> ?bad" "ext4_ftell E (file_at ctx i) > INT64_MAX"
        | (ok) "\<not> ?bad" "ext4_ftell E (file_at ctx i) \<le> INT64_MAX" by (meson not_less)
      then show thesis
      proof cases
        case mode
        then show thesis using body go Inr by (intro early [of EBADF]) (auto simp: Let_def)
      next
        case big
        then show thesis using body go Inr by (intro early [of EOVERFLOW]) (auto simp: Let_def)
      next
        case ok
        let ?pt = "if n \<noteq> 0 then positioned_transfer E ctx (files ctx ! i) b n off wr ?w1
            else Some (EOK, 0, b, files ctx ! i, ?w1)"
        have ng: "\<not> off < 0" "\<not> ext4_ftell E (file_at ctx i) > INT64_MAX" using go ok by (simp_all add: not_less)
        note b2 = body [unfolded go(3) Inr sum.case Let_def if_not_P [OF ng(1)] if_not_P [OF go(2)]
            if_not_P [OF ok(1)] if_not_P [OF ng(2)]]
        from b2 obtain t where t: "?pt = Some t" by (cases ?pt) simp_all
        obtain r c b3 fl w2 where tt: "t = (r, c, b3, fl, w2)" by (metis prod_cases5)
        obtain r2 f where sk: "ext4_fseek E (efile fl) (ext4_ftell E (file_at ctx i)) 0 = (r2, f)" by force
        from b2 [unfolded t [unfolded tt] option.case prod.sel sk]
        have fin: "res = (if r \<noteq> EOK then fail_with_errno r else if r2 \<noteq> EOK then fail_with_errno r2 else Inr (sint c))"
          "b' = b3" "ctx' = put_file i (fl\<lparr>efile := f\<rparr>) ctx" "w' = give_lock E (lock ctx) w2" by simp_all
        show thesis
          by (rule run [OF Inr go(1) _ ok(2) t [unfolded tt, folded fin(2)] sk fin(1,3,4)]) (use go(2) in blast)
      qed
    qed
  qed
qed

section \<open>pread\<close>

lemma pread_spec:
  assumes lw: "lwext4_files data E" and ctx: "ctx_ok ctx" and off: "off < 2 ^ 63"
    and rd: "vfs_lwext4_pread E ctx fd dst n off w = Some (res, dst', ctx', w')"
  shows "data w' = data w"
    "res = Inr m \<Longrightarrow> \<exists>i. file_get ctx fd = Inr i
      \<and> m = int (min (unat (io_size_limit n)) (length (data w (inode (file_at ctx i))) - nat off))
      \<and> dst' = mem_write 0 (mem_read (nat off) (nat m) (data w (inode (file_at ctx i)))) dst
      \<and> inode (file_at ctx' i) = inode (file_at ctx i)
      \<and> ext4_ftell E (file_at ctx' i) = ext4_ftell E (file_at ctx i)
      \<and> (\<forall>j. j \<noteq> i \<longrightarrow> files ctx' ! j = files ctx ! j)"
proof -
  have "data w' = data w \<and> (res = Inr m \<longrightarrow> (\<exists>i. file_get ctx fd = Inr i
      \<and> m = int (min (unat (io_size_limit n)) (length (data w (inode (file_at ctx i))) - nat off))
      \<and> dst' = mem_write 0 (mem_read (nat off) (nat m) (data w (inode (file_at ctx i)))) dst
      \<and> inode (file_at ctx' i) = inode (file_at ctx i)
      \<and> ext4_ftell E (file_at ctx' i) = ext4_ftell E (file_at ctx i)
      \<and> (\<forall>j. j \<noteq> i \<longrightarrow> files ctx' ! j = files ctx ! j)))" for m
    using rd unfolding vfs_lwext4_pread_def
  proof (cases rule: positioned_io_cases)
    case (early e)
    then show ?thesis using os_data [OF lw] by auto
  next
    case (run i r c fl w2 r2 f)
    let ?d = "data w (inode (file_at ctx i))"
    have i: "i < unat (max_files ctx)" using run(1) by (simp add: file_get_Inr)
    have t: "data w2 = data w \<and> inode (efile fl) = inode (file_at ctx i) \<and> (r = EOK \<longrightarrow>
        unat c = min (unat (io_size_limit n)) (length ?d - nat off) \<and> dst' = mem_write 0 (mem_read (nat off) (unat c) ?d) dst)"
    proof (cases "n = 0")
      case True
      then show ?thesis using run(5) os_data [OF lw] by (auto simp: io_size_limit_def Let_def)
    next
      case False
      with run(5) have "positioned_transfer E ctx (files ctx ! i) dst n off False (snd (take_lock E (lock ctx) w))
          = Some (r, c, dst', fl, w2)" by simp
      from pread_transfer [OF lw run(2) off this] show ?thesis using os_data [OF lw] by simp
    qed
    note sk = seek_result [OF lw run(6,4)]
    show ?thesis
    proof (cases "r = EOK \<and> r2 = EOK")
      case True
      then have tell: "ext4_ftell E f = ext4_ftell E (file_at ctx i)"
        using sk(3,4) by (cases "ext4_ftell E (file_at ctx i) \<le> fsize (efile fl)") auto
      have "unat c < 2 ^ 31" using t True io_size_limit_le(2) [of n] by simp
      then have "res = Inr (int (unat c))" using run(7) True by (simp add: sint_small)
      then show ?thesis
        using run(1,8,9) t True sk(1) tell os_data [OF lw] put_file_nth [OF ctx i] by auto
    next
      case False
      then show ?thesis using run(7,9) t os_data [OF lw] by (auto split: if_splits)
    qed
  qed
  then show "data w' = data w"
    "res = Inr m \<Longrightarrow> \<exists>i. file_get ctx fd = Inr i
      \<and> m = int (min (unat (io_size_limit n)) (length (data w (inode (file_at ctx i))) - nat off))
      \<and> dst' = mem_write 0 (mem_read (nat off) (nat m) (data w (inode (file_at ctx i)))) dst
      \<and> inode (file_at ctx' i) = inode (file_at ctx i)
      \<and> ext4_ftell E (file_at ctx' i) = ext4_ftell E (file_at ctx i)
      \<and> (\<forall>j. j \<noteq> i \<longrightarrow> files ctx' ! j = files ctx ! j)" by blast+
qed

section \<open>pwrite\<close>

lemma pwrite_spec:
  assumes lw: "lwext4_files data E" and ctx: "ctx_ok ctx" and off: "off < 2 ^ 63" and len: "unat n \<le> length src"
    and wr: "vfs_lwext4_pwrite E ctx fd src n off w = Some (res, src', ctx', w')"
  shows "src' = src"
    "res = Inr m \<Longrightarrow> \<exists>i. file_get ctx fd = Inr i \<and> 0 \<le> m \<and> nat m \<le> unat (io_size_limit n)
      \<and> (n = 0 \<longrightarrow> data w' = data w)
      \<and> (n \<noteq> 0 \<longrightarrow> data w' = (data w)(inode (file_at ctx i) :=
          mem_write (nat off) (take (nat m) src) (data w (inode (file_at ctx i))
            @ replicate (nat off - length (data w (inode (file_at ctx i)))) 0)))
      \<and> ext4_ftell E (file_at ctx' i) = ext4_ftell E (file_at ctx i)
      \<and> (\<forall>j. j \<noteq> i \<longrightarrow> files ctx' ! j = files ctx ! j)"
    "\<exists>i. data w' = (data w)(i := data w' i)"
proof -
  have "src' = src \<and> (\<exists>i. data w' = (data w)(i := data w' i)) \<and> (res = Inr m \<longrightarrow> (\<exists>i. file_get ctx fd = Inr i
      \<and> 0 \<le> m \<and> nat m \<le> unat (io_size_limit n)
      \<and> (n = 0 \<longrightarrow> data w' = data w)
      \<and> (n \<noteq> 0 \<longrightarrow> data w' = (data w)(inode (file_at ctx i) :=
          mem_write (nat off) (take (nat m) src) (data w (inode (file_at ctx i))
            @ replicate (nat off - length (data w (inode (file_at ctx i)))) 0)))
      \<and> ext4_ftell E (file_at ctx' i) = ext4_ftell E (file_at ctx i)
      \<and> (\<forall>j. j \<noteq> i \<longrightarrow> files ctx' ! j = files ctx ! j)))" for m
    using wr unfolding vfs_lwext4_pwrite_def
  proof (cases rule: positioned_io_cases)
    case (early e)
    then have "data w' = data w" using os_data [OF lw] by auto
    then show ?thesis using early by simp
  next
    case (run i r c fl w2 r2 f)
    let ?i = "inode (file_at ctx i)"
    let ?d = "data w ?i"
    have i: "i < unat (max_files ctx)" using run(1) by (simp add: file_get_Inr)
    have cg: "can_grow ctx" using ctx_ok_can_grow [OF ctx] run(3) by simp
    have w': "data w' = data w2" using run(9) os_data [OF lw] by simp
    have t: "src' = src \<and> inode (efile fl) = ?i \<and> (\<forall>j. j \<noteq> ?i \<longrightarrow> data w2 j = data w j)
      \<and> (n = 0 \<longrightarrow> data w2 = data w \<and> c = 0) \<and> (n \<noteq> 0 \<and> r = EOK \<longrightarrow> unat c \<le> unat (io_size_limit n)
        \<and> data w2 ?i = mem_write (nat off) (take (unat c) src) (?d @ replicate (nat off - length ?d) 0))"
    proof (cases "n = 0")
      case True
      then show ?thesis using run(5) os_data [OF lw] by auto
    next
      case False
      with run(5) have "positioned_transfer E ctx (files ctx ! i) src n off True (snd (take_lock E (lock ctx) w))
          = Some (r, c, src', fl, w2)" by simp
      from pwrite_transfer [OF lw cg run(2) off run(4) len this] False show ?thesis using os_data [OF lw] by simp
    qed
    have one: "data w' = (data w)(?i := data w' ?i)" using t w' by auto
    note sk = seek_result [OF lw run(6,4)]
    show ?thesis
    proof (cases "r = EOK \<and> r2 = EOK")
      case True
      then have tell: "ext4_ftell E f = ext4_ftell E (file_at ctx i)"
        using sk(3,4) by (cases "ext4_ftell E (file_at ctx i) \<le> fsize (efile fl)") auto
      have c: "unat c \<le> unat (io_size_limit n)" using t True by (cases "n = 0") auto
      then have "unat c < 2 ^ 31" using io_size_limit_le(2) [of n] by simp
      then have "res = Inr (int (unat c))" using run(7) True by (simp add: sint_small)
      then show ?thesis
        using run(1,8) t True c sk(1) tell w' one put_file_nth [OF ctx i] by auto
    next
      case False
      then show ?thesis using run(7) t one by (auto split: if_splits)
    qed
  qed
  then show "src' = src" "\<exists>i. data w' = (data w)(i := data w' i)"
    "res = Inr m \<Longrightarrow> \<exists>i. file_get ctx fd = Inr i \<and> 0 \<le> m \<and> nat m \<le> unat (io_size_limit n)
      \<and> (n = 0 \<longrightarrow> data w' = data w)
      \<and> (n \<noteq> 0 \<longrightarrow> data w' = (data w)(inode (file_at ctx i) :=
          mem_write (nat off) (take (nat m) src) (data w (inode (file_at ctx i))
            @ replicate (nat off - length (data w (inode (file_at ctx i)))) 0)))
      \<and> ext4_ftell E (file_at ctx' i) = ext4_ftell E (file_at ctx i)
      \<and> (\<forall>j. j \<noteq> i \<longrightarrow> files ctx' ! j = files ctx ! j)" by blast+
qed

section \<open>write\<close>

lemma seek_to_current_end_result:
  assumes lw: "lwext4_files data E" and sk: "seek_to_current_end_locked E fl w = (r, fl', w')"
  shows "data w' = data w" "inode (efile fl') = inode (efile fl)"
    "r = EOK \<Longrightarrow> unat (ext4_ftell E (efile fl')) = length (data w (inode (efile fl)))"
proof -
  obtain cs w1 where cs: "current_file_size_locked E fl w = (cs, w1)" by force
  note csr = current_size_result [OF lw cs]
  have "data w' = data w \<and> inode (efile fl') = inode (efile fl)
    \<and> (r = EOK \<longrightarrow> unat (ext4_ftell E (efile fl')) = length (data w (inode (efile fl))))"
  proof (cases cs)
    case (Inl e)
    then show ?thesis using sk cs csr by (auto simp: seek_to_current_end_locked_def)
  next
    case (Inr sz)
    have s: "sz = of_nat (length (data w (inode (efile fl))))" using csr(2) Inr by simp
    have m: "sz \<le> INT64_MAX" using size_le_max [OF lw] s by simp
    obtain r1 f1 where f1: "ext4_fseek E ((efile fl)\<lparr>fsize := sz\<rparr>) sz 0 = (r1, f1)" by force
    note skr = seek_result [OF lw f1 m]
    have "w' = w1" "fl' = fl\<lparr>efile := f1\<rparr>" using sk cs Inr m f1
      by (auto simp: seek_to_current_end_locked_def split: if_splits)
    then show ?thesis using skr csr(1) s by (simp add: unat_size [OF lw])
  qed
  then show "data w' = data w" "inode (efile fl') = inode (efile fl)"
    "r = EOK \<Longrightarrow> unat (ext4_ftell E (efile fl')) = length (data w (inode (efile fl)))" by blast+
qed

text \<open>
  Where a write goes: the end of the file as it is now with O_APPEND, whatever size this
  handle remembers, and the handle's position otherwise.
\<close>

definition write_position :: "('w \<Rightarrow> u32 \<Rightarrow> bytes) \<Rightarrow> ('w, 'f, 'd) vfs_env \<Rightarrow> 'f esp_lwext4_file \<Rightarrow> 'w \<Rightarrow> nat" where
  "write_position data E fl w = (if flags fl AND O_APPEND \<noteq> 0 then length (data w (inode (efile fl)))
     else unat (ext4_ftell E (efile fl)))"

lemma write_spec:
  assumes lw: "lwext4_files data E" and len: "unat n \<le> length src"
    and wr: "vfs_lwext4_write E ctx fd src n w = (Inr m, ctx', w')"
  shows "\<exists>i. file_get ctx fd = Inr i \<and> \<not> read_only ctx \<and> flags (files ctx ! i) AND O_ACCMODE \<noteq> O_RDONLY
    \<and> 0 \<le> m \<and> nat m \<le> unat (io_size_limit n)
    \<and> (\<forall>j. j \<noteq> inode (file_at ctx i) \<longrightarrow> data w' j = data w j)
    \<and> (write_position data E (files ctx ! i) w \<le> length (data w (inode (file_at ctx i))) \<longrightarrow>
        data w' (inode (file_at ctx i)) = mem_write (write_position data E (files ctx ! i) w) (take (nat m) src)
          (data w (inode (file_at ctx i))))"
proof -
  let ?w1 = "snd (take_lock E (lock ctx) w)"
  obtain i where i: "file_get ctx fd = Inr i" "\<not> read_only ctx" "flags (files ctx ! i) AND O_ACCMODE \<noteq> O_RDONLY"
    using wr by (auto simp: vfs_lwext4_write_def split_beta Let_def split: sum.splits if_splits)
  let ?fl = "files ctx ! i"
  obtain r fl1 w2 where sk: "(if flags ?fl AND O_APPEND \<noteq> 0 then seek_to_current_end_locked E ?fl ?w1
      else (EOK, ?fl, ?w1)) = (r, fl1, w2)" by (metis prod_cases3)
  have s: "data w2 = data w \<and> inode (efile fl1) = inode (efile ?fl)
    \<and> (r = EOK \<longrightarrow> unat (ext4_ftell E (efile fl1)) = write_position data E ?fl w)"
  proof (cases "flags ?fl AND O_APPEND \<noteq> 0")
    case True
    then have "seek_to_current_end_locked E ?fl ?w1 = (r, fl1, w2)" using sk by simp
    from seek_to_current_end_result [OF lw this] True show ?thesis
      by (simp add: os_data [OF lw] write_position_def)
  next
    case False
    then show ?thesis using sk by (auto simp: os_data [OF lw] write_position_def)
  qed
  obtain r2 c f w3 where fw: "ext4_fwrite E (efile fl1) src (io_size_limit n) w2 = (r2, c, f, w3)" by (metis prod_cases4)
  have fin: "r = EOK" "r2 = EOK" "m = sint c" "data w' = data w3"
    using wr i sk fw by (auto simp: vfs_lwext4_write_def split_beta Let_def os_data [OF lw] split: sum.splits if_splits)
  note wres = write_result [OF lw fw]
  have c: "unat c \<le> unat (io_size_limit n)" using wres(3) fin by simp
  then have "unat c < 2 ^ 31" using io_size_limit_le(2) [of n] by simp
  then have m: "m = int (unat c)" using fin by (simp add: sint_small)
  have "unat (io_size_limit n) \<le> length src" using io_size_limit_le(1) [of n] len by simp
  with wres(2,4) fin s have "\<forall>j. j \<noteq> inode (efile ?fl) \<longrightarrow> data w' j = data w j"
    "write_position data E ?fl w \<le> length (data w (inode (efile ?fl))) \<longrightarrow>
      data w' (inode (efile ?fl)) = mem_write (write_position data E ?fl w) (take (unat c) src) (data w (inode (efile ?fl)))"
    by auto
  with i c m show ?thesis by auto
qed

section \<open>ftruncate\<close>

lemma ftruncate_spec:
  assumes lw: "lwext4_files data E" and ctx: "ctx_ok ctx" and len: "len < 2 ^ 63"
    and tr: "vfs_lwext4_ftruncate E ctx fd len w = Some (Inr u, ctx', w')"
    and tell: "\<And>i. file_get ctx fd = Inr i \<Longrightarrow> ext4_ftell E (file_at ctx i) \<le> INT64_MAX"
  shows "\<exists>i. file_get ctx fd = Inr i \<and> 0 \<le> len
    \<and> data w' = (data w)(inode (file_at ctx i) := resized (nat len) (data w (inode (file_at ctx i))))
    \<and> (length (data w (inode (file_at ctx i))) < nat len \<longrightarrow>
         ext4_ftell E (file_at ctx' i) = ext4_ftell E (file_at ctx i))"
proof -
  let ?w1 = "snd (take_lock E (lock ctx) w)"
  obtain i r fl w2 where i: "file_get ctx fd = Inr i" "0 \<le> len" "\<not> read_only ctx"
    and rs: "resize_file_locked E ctx (files ctx ! i) (word_of_int len) ?w1 = Some (r, fl, w2)"
    and fin: "r = EOK" "ctx' = put_file i fl ctx" "w' = give_lock E (lock ctx) w2"
    using tr by (auto simp: vfs_lwext4_ftruncate_def split_beta fail_with_errno_def
        split: sum.splits if_splits option.splits)
  have m: "i < unat (max_files ctx)" using i(1) by (simp add: file_get_Inr)
  note ow = offset_word [OF i(2) len]
  note res = resize_correct [OF lw ctx_ok_can_grow [OF ctx i(3)] ow(2) tell [OF i(1)] rs]
  have "data w' = (data w)(inode (file_at ctx i) := resized (nat len) (data w (inode (file_at ctx i))))"
    using res(2,3) fin by (auto simp: os_data [OF lw] ow(1))
  then show ?thesis
    using i res(3) fin put_file_nth [OF ctx m] by (auto simp: os_data [OF lw] ow(1))
qed

section \<open>Everything returns\<close>

definition writes_bounded :: "('w, 'f, 'd) vfs_env \<Rightarrow> bool" where
  "writes_bounded E \<longleftrightarrow> (\<forall>f src n w. fst (ext4_fwrite E f src n w) = EOK \<longrightarrow>
     unat (fst (snd (ext4_fwrite E f src n w))) \<le> unat n)"

lemma resize_returns:
  assumes "writes_bounded E"
  shows "resize_file_locked E ctx fl n w \<noteq> None"
proof -
  have g: "grow_loop E buf q s c f w \<noteq> None" for buf q s c f w
    using grow_loop_returns [of E buf q s c f w] assms by (auto simp: writes_bounded_def)
  show ?thesis
    by (auto simp: resize_file_locked_def Let_def g split: sum.splits prod.splits option.splits if_splits)
qed

lemma positioned_returns:
  assumes "writes_bounded E"
  shows "positioned_io E ctx fd b n off wr w \<noteq> None"
  by (auto simp: positioned_io_def positioned_transfer_def Let_def resize_returns [OF assms, unfolded not_None_eq]
      resize_returns [OF assms] split: sum.splits prod.splits option.splits if_splits)

lemma ftruncate_returns:
  assumes "writes_bounded E"
  shows "vfs_lwext4_ftruncate E ctx fd len w \<noteq> None"
  by (auto simp: vfs_lwext4_ftruncate_def resize_returns [OF assms]
      split: sum.splits prod.splits option.splits if_splits)

lemma truncate_returns:
  assumes "writes_bounded E"
  shows "vfs_lwext4_truncate E ctx p len w \<noteq> None"
  by (auto simp: vfs_lwext4_truncate_def Let_def resize_returns [OF assms]
      split: sum.splits prod.splits option.splits if_splits)

section \<open>pread, exactly\<close>

text \<open>
  With no I/O error, the outcome of a pread is decided by the sizes alone: the size the
  handle remembers (\<open>fsize\<close>), the true size and the handle's position.
\<close>

lemma pread_exact:
  assumes lw: "lwext4_files data E" and ctx: "ctx_ok ctx" and off: "0 \<le> off" "off < 2 ^ 63" and n: "n \<noteq> 0"
    and free: "fst (xSemaphoreTake E (lock ctx) w)"
    and i: "file_get ctx fd = Inr i" "flags (files ctx ! i) AND O_ACCMODE \<noteq> O_WRONLY"
    and pos: "ext4_ftell E (file_at ctx i) \<le> fsize (file_at ctx i)" "fsize (file_at ctx i) \<le> INT64_MAX"
    and io: "\<not> isl (fst (current_file_size_locked E (files ctx ! i) (snd (take_lock E (lock ctx) w))))"
      "\<And>f d k w. fst (ext4_fread E f d k w) = EOK"
  shows "\<exists>dst' ctx' w'. vfs_lwext4_pread E ctx fd dst n off w = Some
    (if length (data w (inode (file_at ctx i))) \<le> nat off then Inr 0
     else if unat (fsize (file_at ctx i)) < nat off
        \<or> length (data w (inode (file_at ctx i))) < unat (ext4_ftell E (file_at ctx i)) then Inl EINVAL
     else Inr (int (min (unat (io_size_limit n)) (length (data w (inode (file_at ctx i))) - nat off))),
     dst', ctx', w')"
proof -
  let ?fl = "files ctx ! i"
  let ?f = "file_at ctx i"
  let ?d = "data w (inode ?f)"
  let ?t = "ext4_ftell E ?f"
  note ow = offset_word [OF off]
  obtain w1 where tk: "take_lock E (lock ctx) w = (Inr (), w1)"
    using free by (simp add: take_lock_def split_beta)
  have tm: "?t \<le> INT64_MAX" using pos by (rule order_trans)
  then have ntm: "\<not> INT64_MAX < ?t" by simp
  obtain sz w2 where cs: "current_file_size_locked E ?fl w1 = (Inr sz, w2)"
    using io(1) tk by (metis prod.collapse isl_def old.sum.exhaust snd_conv)
  note csr = current_size_result [OF lw cs]
  have "data w1 = data w" using os_data(1) [OF lw, of "lock ctx" w] tk by simp
  then have d1: "data w1 = data w" "data w2 = data w" using csr(1) by simp_all
  have u: "unat sz = length ?d" using csr(2) d1 by (simp add: unat_size [OF lw])
  have go: "vfs_lwext4_pread E ctx fd dst n off w =
    (case positioned_transfer E ctx ?fl dst n off False w1 of None \<Rightarrow> None
     | Some (r, c, b, fl1, w3) \<Rightarrow> (case ext4_fseek E (efile fl1) ?t 0 of (r2, f) \<Rightarrow>
         Some (if r \<noteq> EOK then fail_with_errno r else if r2 \<noteq> EOK then fail_with_errno r2 else Inr (sint c),
               b, put_file i (fl1\<lparr>efile := f\<rparr>) ctx, give_lock E (lock ctx) w3)))"
    using tk off i n ntm by (simp add: vfs_lwext4_pread_def positioned_io_def Let_def)
  show ?thesis
  proof (cases "sz \<le> word_of_int off")
    case True
    then have le: "length ?d \<le> nat off" by (simp add: word_le_nat_alt u ow(1))
    have pt: "positioned_transfer E ctx ?fl dst n off False w1 = Some (EOK, 0, dst, ?fl, w2)"
      using cs True by (simp add: positioned_transfer_def)
    obtain r2 f where sk: "ext4_fseek E ?f ?t 0 = (r2, f)" by force
    have "r2 = EOK" using seek_result(3) [OF lw sk tm] pos(1) by simp
    then show ?thesis using go pt sk le by simp
  next
    case False
    then have gt: "nat off < length ?d" by (simp add: word_le_nat_alt u ow(1))
    obtain r1 f1 where sk: "ext4_fseek E ?f (word_of_int off) 0 = (r1, f1)" by force
    note skr = seek_result [OF lw sk ow(2)]
    have ct: "unat (fsize ?f) < nat off \<longleftrightarrow> \<not> word_of_int off \<le> fsize ?f"
      by (simp add: word_le_nat_alt ow(1) not_le)
    show ?thesis
    proof (cases "word_of_int off \<le> fsize ?f")
      case no: False
      then have r1: "r1 = EINVAL" "f1 = ?f" using skr(4) by simp_all
      then have pt: "positioned_transfer E ctx ?fl dst n off False w1 = Some (EINVAL, 0, dst, ?fl\<lparr>efile := ?f\<rparr>, w2)"
        using cs False sk by (simp add: positioned_transfer_def)
      show ?thesis using go pt gt no ct by (simp split: prod.split)
    next
      case yes: True
      then have t1: "r1 = EOK" "ext4_ftell E f1 = word_of_int off" using skr(3) by simp_all
      obtain r2 b2 c f2 w3 where rd: "ext4_fread E f1 dst (io_size_limit n) w2 = (r2, b2, c, f2, w3)" by (metis prod_cases5)
      have r2: "r2 = EOK" using io(2) [of f1 dst "io_size_limit n" w2] rd by simp
      note rr = read_result [OF lw rd]
      have c: "unat c = min (unat (io_size_limit n)) (length ?d - nat off)"
        using rr(3) r2 t1 skr(1) d1 ow(1) by simp
      have fs: "unat (fsize f2) = length ?d" using rr(5) r2 skr(1) d1 by (simp add: unat_size [OF lw])
      have pt: "positioned_transfer E ctx ?fl dst n off False w1 = Some (EOK, c, b2, ?fl\<lparr>efile := f2\<rparr>, w3)"
        using cs False sk t1 rd r2 by (simp add: positioned_transfer_def)
      obtain r3 f3 where sk3: "ext4_fseek E f2 ?t 0 = (r3, f3)" by force
      have r3: "r3 = (if length ?d < unat ?t then EINVAL else EOK)"
        using seek_result(3,4) [OF lw sk3 tm] by (cases "?t \<le> fsize f2") (simp_all add: word_le_nat_alt fs)
      have "unat c < 2 ^ 31" using c io_size_limit_le(2) [of n] by simp
      then have "sint c = int (unat c)" by (rule sint_small)
      then show ?thesis using go pt gt yes ct sk3 r3 c by simp
    qed
  qed
qed

end
