(* ===== verification/Vfs_Names.thy ===== *)
theory Vfs_Names
  imports Vfs_System
begin

text \<open>
  Names and directories: what lwext4 promises about them (\<open>dir_laws\<close>, \<open>name_laws\<close>), and on
  top of that the replacing rename, directory streams with telldir and seekdir, and the
  recursive removal.
\<close>

section \<open>Directory iteration\<close>

text \<open>
  \<open>listing d\<close> is the sequence of entries an iterator \<open>d\<close> walks through and \<open>at d\<close> its place.
\<close>

definition dir_laws ::
  "('d \<Rightarrow> ext4_direntry list) \<Rightarrow> ('d \<Rightarrow> nat) \<Rightarrow> ('w \<Rightarrow> 'x) \<Rightarrow> ('x \<Rightarrow> string \<Rightarrow> ext4_direntry list)
     \<Rightarrow> ('w, 'f, 'd) vfs_env \<Rightarrow> bool" where
  "dir_laws listing at fs entries E \<longleftrightarrow>
     (\<forall>d w. case ext4_dir_entry_next E d w of (e, d', w') \<Rightarrow>
        fs w' = fs w \<and> listing d' = listing d
        \<and> (if at d < length (listing d) then e = Some (listing d ! at d) \<and> at d' = Suc (at d)
           else e = None \<and> at d' = at d))
     \<and> (\<forall>d. listing (ext4_dir_entry_rewind E d) = listing d \<and> at (ext4_dir_entry_rewind E d) = 0)
     \<and> (\<forall>p w. case ext4_dir_open E p w of (r, d, w') \<Rightarrow>
        fs w' = fs w \<and> (r = EOK \<longrightarrow> listing d = entries (fs w) p \<and> at d = 0))
     \<and> (\<forall>d w. fs (snd (snd (ext4_dir_close E d w))) = fs w)"

lemma entry_next_result:
  assumes "dir_laws listing at fs entries E" "ext4_dir_entry_next E d w = (e, d', w')"
  shows "fs w' = fs w" "listing d' = listing d"
    "at d < length (listing d) \<Longrightarrow> e = Some (listing d ! at d) \<and> at d' = Suc (at d)"
    "\<not> at d < length (listing d) \<Longrightarrow> e = None \<and> at d' = at d"
  using assms(1) [unfolded dir_laws_def, THEN conjunct1, THEN spec, of d, THEN spec, of w] assms(2)
  by (simp_all split: if_splits)

lemma rewind_result:
  assumes "dir_laws listing at fs entries E"
  shows "listing (ext4_dir_entry_rewind E d) = listing d" "at (ext4_dir_entry_rewind E d) = 0"
  using assms by (simp_all add: dir_laws_def)

lemma dir_open_result:
  assumes "dir_laws listing at fs entries E" "ext4_dir_open E p w = (r, d, w')"
  shows "fs w' = fs w" "r = EOK \<Longrightarrow> listing d = entries (fs w) p \<and> at d = 0"
  using assms(1) [unfolded dir_laws_def, THEN conjunct2, THEN conjunct2, THEN conjunct1, THEN spec, of p, THEN spec, of w]
    assms(2) by simp_all

lemma dir_close_result:
  assumes "dir_laws listing at fs entries E" "ext4_dir_close E d w = (r, d', w')"
  shows "fs w' = fs w"
  using assms(1) [unfolded dir_laws_def, THEN conjunct2, THEN conjunct2, THEN conjunct2, THEN spec, of d, THEN spec, of w]
    assms(2) by simp

text \<open>The scan for emptiness ends and finds out.\<close>

lemma scan_empty_correct:
  assumes "dir_laws listing at fs entries E"
  shows "\<exists>d' w'. scan_empty E d w = Some (\<forall>e \<in> set (drop (at d) (listing d)). entry_is_dot e, d', w') \<and> fs w' = fs w"
proof (induction "length (listing d) - at d" arbitrary: d w rule: less_induct)
  case less
  obtain e d1 w1 where nx: "ext4_dir_entry_next E d w = (e, d1, w1)" by (metis prod_cases3)
  note r = entry_next_result [OF assms nx]
  show ?case
  proof (cases "at d < length (listing d)")
    case False
    then show ?thesis using nx r by (subst scan_empty.simps) simp
  next
    case True
    then have e: "e = Some (listing d ! at d)" "at d1 = Suc (at d)" using r(3) by simp_all
    have dr: "drop (at d) (listing d) = listing d ! at d # drop (at d1) (listing d1)"
      using True e r(2) by (simp add: Cons_nth_drop_Suc)
    show ?thesis
    proof (cases "entry_is_dot (listing d ! at d)")
      case dot: True
      have "length (listing d1) - at d1 < length (listing d) - at d" using True e r(2) by simp
      from less [OF this, of w1] obtain d2 w2 where
        "scan_empty E d1 w1 = Some (\<forall>e \<in> set (drop (at d1) (listing d1)). entry_is_dot e, d2, w2)" "fs w2 = fs w1"
        by blast
      moreover have "scan_empty E d w = scan_empty E d1 w1" using nx e dot by (subst scan_empty.simps) simp
      ultimately show ?thesis using dr dot r(1) by simp
    next
      case False
      then have "scan_empty E d w = Some (False, d1, w1)" using nx e by (subst scan_empty.simps) simp
      then show ?thesis using dr False r(1) by auto
    qed
  qed
qed

definition empty_listing :: "ext4_direntry list \<Rightarrow> bool" where
  "empty_listing es \<longleftrightarrow> (\<forall>e \<in> set es. entry_is_dot e)"

lemma directory_is_empty_result:
  assumes "dir_laws listing at fs entries E"
  shows "\<exists>r b w'. directory_is_empty_locked E p w = Some (r, b, w') \<and> fs w' = fs w
    \<and> (r = EOK \<longrightarrow> b = empty_listing (entries (fs w) p))"
proof -
  obtain r d w1 where op: "ext4_dir_open E p w = (r, d, w1)" by (metis prod_cases3)
  note o = dir_open_result [OF assms op]
  show ?thesis
  proof (cases "r = EOK")
    case False
    then show ?thesis using op o
      by (intro exI [of _ r] exI [of _ False] exI [of _ w1]) (simp add: directory_is_empty_locked_def)
  next
    case True
    from scan_empty_correct [OF assms, of d w1] obtain d2 w2 where
      sc: "scan_empty E d w1 = Some (\<forall>e \<in> set (drop (at d) (listing d)). entry_is_dot e, d2, w2)" "fs w2 = fs w1"
      by blast
    obtain r3 d3 w3 where cl: "ext4_dir_close E d2 w2 = (r3, d3, w3)" by (metis prod_cases3)
    show ?thesis
      using op True sc cl dir_close_result [OF assms cl] o
      by (simp add: directory_is_empty_locked_def empty_listing_def)
  qed
qed

section \<open>rename\<close>

text \<open>
  \<open>there\<close> says which names exist, \<open>inode_of\<close> and \<open>is_dir\<close> describe the object a name stands
  for.  Queries change nothing and, on a medium without I/O errors, answer for every name that
  exists; a rename reports EEXIST only when both names exist, and then changed nothing.
\<close>

definition name_laws ::
  "('w \<Rightarrow> 'x) \<Rightarrow> ('x \<Rightarrow> string \<Rightarrow> bool) \<Rightarrow> ('x \<Rightarrow> string \<Rightarrow> u32) \<Rightarrow> ('x \<Rightarrow> string \<Rightarrow> bool)
     \<Rightarrow> ('w, 'f, 'd) vfs_env \<Rightarrow> bool" where
  "name_laws fs there inode_of is_dir E \<longleftrightarrow>
     (\<forall>p w. there (fs w) p \<longrightarrow> (case ext4_raw_inode_fill E p w of (r, i, ino, w1) \<Rightarrow>
        r = EOK \<and> fs w1 = fs w \<and> i = inode_of (fs w) p
        \<and> (case ext4_get_sblock E p w1 of (r, sb, w2) \<Rightarrow>
             r = EOK \<and> fs w2 = fs w \<and> (ext4_inode_type E sb ino = 0x4000 \<longleftrightarrow> is_dir (fs w) p))))
     \<and> (\<forall>p q w. fst (ext4_frename E p q w) = EEXIST \<longrightarrow>
          fs (snd (ext4_frename E p q w)) = fs w \<and> there (fs w) p \<and> there (fs w) q)"

lemma path_info_result:
  assumes "name_laws fs there inode_of is_dir E" "there (fs w) p"
  shows "\<exists>w'. path_info_locked E p w
      = (Inr \<lparr>inode_number = inode_of (fs w) p, is_directory = is_dir (fs w) p\<rparr>, w') \<and> fs w' = fs w"
proof -
  obtain r i ino w1 where a: "ext4_raw_inode_fill E p w = (r, i, ino, w1)" by (metis prod_cases4)
  obtain r2 sb w2 where b: "ext4_get_sblock E p w1 = (r2, sb, w2)" by (metis prod_cases3)
  from assms(1) [unfolded name_laws_def, THEN conjunct1, THEN spec, of p, THEN spec, of w] assms(2) a b
  show ?thesis by (simp add: path_info_locked_def)
qed

lemma frename_exists:
  assumes "name_laws fs there inode_of is_dir E" "fst (ext4_frename E src dst w) = EEXIST"
  shows "fs (snd (ext4_frename E src dst w)) = fs w" "there (fs w) src" "there (fs w) dst"
  using assms unfolding name_laws_def by blast+

text \<open>What POSIX asks of a rename onto an existing name: the error, or \<open>None\<close> to replace it.\<close>

definition rename_verdict ::
  "('x \<Rightarrow> string \<Rightarrow> u32) \<Rightarrow> ('x \<Rightarrow> string \<Rightarrow> bool) \<Rightarrow> ('x \<Rightarrow> string \<Rightarrow> ext4_direntry list)
     \<Rightarrow> 'x \<Rightarrow> string \<Rightarrow> string \<Rightarrow> errno option" where
  "rename_verdict inode_of is_dir entries x src dst =
     (if inode_of x src = inode_of x dst then Some EOK
      else if is_dir x src \<and> \<not> is_dir x dst then Some ENOTDIR
      else if \<not> is_dir x src \<and> is_dir x dst then Some EISDIR
      else if is_dir x src \<and> (dot \<in> set (components src) \<union> set (components dst)
        \<or> dot_dot \<in> set (components src) \<union> set (components dst)
        \<or> strict_prefix (components src) (components dst)) then Some EINVAL
      else if is_dir x src \<and> \<not> empty_listing (entries x dst) then Some ENOTEMPTY
      else None)"

lemma rename_locked_correct:
  assumes dl: "dir_laws listing at fs entries E" and nl: "name_laws fs there inode_of is_dir E"
    and ex: "fst (ext4_frename E src dst w) = EEXIST"
  shows "\<exists>r w'. rename_locked E src dst w = Some (r, w')
    \<and> (case rename_verdict inode_of is_dir entries (fs w) src dst of
         Some e \<Rightarrow> fs w' = fs w \<and> (r = e \<or> e = ENOTEMPTY \<and> r \<noteq> EOK)
       | None \<Rightarrow> fs w' = fs w \<and> r \<noteq> EOK
           \<or> (\<exists>w1. fs w1 = fs w
              \<and> (case if is_dir (fs w) src then ext4_dir_rm E dst w1 else ext4_fremove E dst w1 of (r1, w2) \<Rightarrow>
                   (r, w') = (if r1 = EOK then ext4_frename E src dst w2 else (r1, w2)))))"
proof -
  let ?x = "fs w"
  define s where "s = \<lparr>inode_number = inode_of ?x src, is_directory = is_dir ?x src\<rparr>"
  define d where "d = \<lparr>inode_number = inode_of ?x dst, is_directory = is_dir ?x dst\<rparr>"
  obtain w1 where fr: "ext4_frename E src dst w = (EEXIST, w1)" using ex by (metis prod.collapse)
  then have f1: "fs w1 = ?x" "there ?x src" "there ?x dst"
    using frename_exists [OF nl ex] by simp_all
  obtain w2 where p1: "path_info_locked E src w1 = (Inr s, w2)" "fs w2 = ?x"
    using path_info_result [OF nl, of w1 src] f1 by (auto simp: s_def)
  obtain w3 where p2: "path_info_locked E dst w2 = (Inr d, w3)" "fs w3 = ?x"
    using path_info_result [OF nl, of w2 dst] p1 f1 by (auto simp: d_def)
  have body: "rename_locked E src dst w = (if inode_of ?x src = inode_of ?x dst then Some (EOK, w3)
      else if is_dir ?x src \<noteq> is_dir ?x dst then Some (if is_dir ?x src then ENOTDIR else EISDIR, w3)
      else case rename_remove_dst E src dst (is_dir ?x src) w3 of None \<Rightarrow> None
        | Some (r, w4) \<Rightarrow> if r \<noteq> EOK then Some (r, w4) else Some (ext4_frename E src dst w4))"
    using fr p1(1) p2(1) by (simp add: rename_locked_def s_def d_def)
  consider (same) "inode_of ?x src = inode_of ?x dst \<or> is_dir ?x src \<noteq> is_dir ?x dst"
    | (dir) "inode_of ?x src \<noteq> inode_of ?x dst" "is_dir ?x src" "is_dir ?x dst"
    | (fl) "inode_of ?x src \<noteq> inode_of ?x dst" "\<not> is_dir ?x src" "\<not> is_dir ?x dst" by blast
  then show ?thesis
  proof cases
    case same
    then show ?thesis using body p2(2) by (auto simp: rename_verdict_def)
  next
    case fl
    obtain r1 w4 where rm: "ext4_fremove E dst w3 = (r1, w4)" by force
    have "rename_verdict inode_of is_dir entries ?x src dst = None" using fl by (simp add: rename_verdict_def)
    moreover have "rename_locked E src dst w = Some (if r1 = EOK then ext4_frename E src dst w4 else (r1, w4))"
      using body fl rm by (simp add: rename_remove_dst_def)
    moreover obtain r w' where "(if r1 = EOK then ext4_frename E src dst w4 else (r1, w4)) = (r, w')" by force
    ultimately show ?thesis using fl rm p2(2) by (auto intro!: exI [of _ w3])
  next
    case dir
    let ?bad = "path_has_dot_component src \<or> path_has_dot_component dst \<or> path_is_strict_descendant src dst"
    have bad: "?bad \<longleftrightarrow> dot \<in> set (components src) \<union> set (components dst)
        \<or> dot_dot \<in> set (components src) \<union> set (components dst) \<or> strict_prefix (components src) (components dst)"
      by (auto simp: path_has_dot_component_iff path_is_strict_descendant_iff)
    show ?thesis
    proof (cases ?bad)
      case True
      then show ?thesis
        using body dir p2(2) bad by (simp add: rename_remove_dst_def rename_verdict_def)
    next
      case False
      obtain r1 b w4 where em: "directory_is_empty_locked E dst w3 = Some (r1, b, w4)" "fs w4 = ?x"
        "r1 = EOK \<Longrightarrow> b = empty_listing (entries ?x dst)"
        using directory_is_empty_result [OF dl, of dst w3] p2(2) by auto
      have v: "rename_verdict inode_of is_dir entries ?x src dst
          = (if empty_listing (entries ?x dst) then None else Some ENOTEMPTY)"
        using dir False bad by (simp add: rename_verdict_def)
      show ?thesis
      proof (cases "r1 = EOK \<and> b")
        case no: False
        then have "rename_locked E src dst w = Some (if r1 = EOK then ENOTEMPTY else r1, w4)"
          using body dir False em(1) by (auto simp: rename_remove_dst_def)
        then show ?thesis using v em(2,3) no by auto
      next
        case yes: True
        obtain r2 w5 where rm: "ext4_dir_rm E dst w4 = (r2, w5)" by force
        have "rename_locked E src dst w = Some (if r2 = EOK then ext4_frename E src dst w5 else (r2, w5))"
          using body dir False em(1) yes rm by (simp add: rename_remove_dst_def)
        moreover obtain r w' where "(if r2 = EOK then ext4_frename E src dst w5 else (r2, w5)) = (r, w')" by force
        ultimately show ?thesis using v em(2,3) yes rm dir by (auto intro!: exI [of _ w4])
      qed
    qed
  qed
qed

lemma rename_returns:
  assumes "dir_laws listing at fs entries E"
  shows "vfs_lwext4_rename E ctx src dst w \<noteq> None"
proof -
  have e: "directory_is_empty_locked E p w \<noteq> None" for p w using directory_is_empty_result [OF assms, of p w] by auto
  have r: "rename_locked E p q w \<noteq> None" for p q w
    by (auto simp: rename_locked_def rename_remove_dst_def e split: prod.splits sum.splits option.splits if_splits)
  then show ?thesis
    by (auto simp: vfs_lwext4_rename_def two_path_operation_def r split: prod.splits sum.splits option.splits)
qed

lemma rmdir_returns:
  assumes "dir_laws listing at fs entries E"
  shows "vfs_lwext4_rmdir E ctx p w \<noteq> None"
proof -
  have e: "directory_is_empty_locked E p w \<noteq> None" for p w using directory_is_empty_result [OF assms, of p w] by auto
  then show ?thesis
    by (auto simp: vfs_lwext4_rmdir_def e split: prod.splits sum.splits option.splits)
qed

section \<open>Directory streams\<close>

text \<open>A stream is in step when its offset counts the entries read; listings fit a long.\<close>

definition in_step :: "('d \<Rightarrow> ext4_direntry list) \<Rightarrow> ('d \<Rightarrow> nat) \<Rightarrow> 'd esp_lwext4_dir \<Rightarrow> bool" where
  "in_step listing at d \<longleftrightarrow> unat (offset d) = at (ext4 d) \<and> at (ext4 d) \<le> length (listing (ext4 d))
     \<and> length (listing (ext4 d)) < 2 ^ 31"

lemma in_step_offset:
  assumes "in_step listing at d"
  shows "sint (offset d) = int (at (ext4 d))"
proof -
  have "unat (offset d) = at (ext4 d)" "unat (offset d) < 2 ^ 31" using assms by (simp_all add: in_step_def)
  then show ?thesis using sint_small [of "offset d"] by metis
qed

lemma unat_Suc_small: "unat (c :: u32) < 2 ^ 31 \<Longrightarrow> unat (c + 1) = Suc (unat c)"
  by (simp add: unat_word_ariths)

lemma seekdir_loop_correct:
  assumes dl: "dir_laws listing at fs entries E" and st: "in_step listing at d" and t: "0 \<le> sint target"
  shows "\<exists>d' w'. seekdir_loop E target d w = (d', w') \<and> fs w' = fs w \<and> in_step listing at d'
    \<and> listing (ext4 d') = listing (ext4 d) \<and> dir_ctx d' = dir_ctx d
    \<and> at (ext4 d') = max (at (ext4 d)) (min (nat (sint target)) (length (listing (ext4 d))))"
  using st
proof (induction "length (listing (ext4 d)) - at (ext4 d)" arbitrary: d w rule: less_induct)
  case less
  note st = less(2)
  note off = in_step_offset [OF st]
  obtain e d1 w1 where nx: "ext4_dir_entry_next E (ext4 d) w = (e, d1, w1)" by (metis prod_cases3)
  note r = entry_next_result [OF dl nx]
  show ?case
  proof (cases "sint (offset d) < sint target")
    case False
    then have "seekdir_loop E target d w = (d, w)" by (simp add: seekdir_loop.simps)
    moreover have "nat (sint target) \<le> at (ext4 d)" using False off by simp
    ultimately show ?thesis using st by simp
  next
    case True
    then have lt: "at (ext4 d) < nat (sint target)" using off by simp
    show ?thesis
    proof (cases "at (ext4 d) < length (listing (ext4 d))")
      case False
      then have "seekdir_loop E target d w = (d\<lparr>ext4 := d1\<rparr>, w1)"
        using True nx r(4) by (subst seekdir_loop.simps) simp
      then show ?thesis using False r st lt by (simp add: in_step_def)
    next
      case more: True
      let ?d1 = "d\<lparr>ext4 := d1, offset := offset d + 1\<rparr>"
      have e: "e = Some (listing (ext4 d) ! at (ext4 d))" "at d1 = Suc (at (ext4 d))" using r(3) more by simp_all
      have "unat (offset d + 1) = Suc (unat (offset d))"
        using st more by (intro unat_Suc_small) (simp add: in_step_def)
      then have st1: "in_step listing at ?d1" using st e more r(2) by (simp add: in_step_def)
      have "length (listing (ext4 ?d1)) - at (ext4 ?d1) < length (listing (ext4 d)) - at (ext4 d)"
        using more e r(2) by simp
      from less(1) [OF this st1, of w1] obtain d' w' where
        "seekdir_loop E target ?d1 w1 = (d', w')" "fs w' = fs w1" "in_step listing at d'"
        "listing (ext4 d') = listing d1" "dir_ctx d' = dir_ctx d"
        "at (ext4 d') = max (at d1) (min (nat (sint target)) (length (listing d1)))" by auto
      moreover have "seekdir_loop E target d w = seekdir_loop E target ?d1 w1"
        using True nx e by (subst seekdir_loop.simps) simp
      ultimately show ?thesis using r(1,2) e lt more by (auto simp: max_def min_def)
    qed
  qed
qed

text \<open>Position after seekdir: the target, or the end when it lies beyond.\<close>

lemma seekdir_correct:
  assumes dl: "dir_laws listing at fs entries E" and os: "\<And>l w. fs (snd (xSemaphoreTake E l w)) = fs w"
      "\<And>l w. fs (xSemaphoreGive E l w) = fs w"
    and st: "in_step listing at d"
    and sk: "vfs_lwext4_seekdir E ctx (Some d) target w = (Inr u, pdir, w')"
  shows "\<exists>d'. pdir = Some d' \<and> fs w' = fs w \<and> in_step listing at d' \<and> dir_ctx d' = dir_ctx d
    \<and> listing (ext4 d') = listing (ext4 d)
    \<and> at (ext4 d') = min (nat (sint target)) (length (listing (ext4 d))) \<and> 0 \<le> sint target"
proof -
  let ?d1 = "if sint target < sint (offset d) then d\<lparr>ext4 := ext4_dir_entry_rewind E (ext4 d), offset := 0\<rparr> else d"
  let ?w1 = "snd (take_lock E (lock ctx) w)"
  have t: "0 \<le> sint target" and pd: "pdir = Some (fst (seekdir_loop E target ?d1 ?w1))"
    and w': "w' = give_lock E (lock ctx) (snd (seekdir_loop E target ?d1 ?w1))"
    using sk by (auto simp: vfs_lwext4_seekdir_def split_beta Let_def split: sum.splits if_splits)
  note off = in_step_offset [OF st]
  have st1: "in_step listing at ?d1" using st rewind_result [OF dl] by (simp add: in_step_def)
  have a1: "at (ext4 ?d1) \<le> nat (sint target)" "listing (ext4 ?d1) = listing (ext4 d)" "dir_ctx ?d1 = dir_ctx d"
    using off t rewind_result [OF dl] by auto
  have a2: "at (ext4 ?d1) \<le> length (listing (ext4 d))" using st1 a1(2) by (simp add: in_step_def)
  from seekdir_loop_correct [OF dl st1 t, of ?w1] obtain d' w2 where
    l: "seekdir_loop E target ?d1 ?w1 = (d', w2)" "fs w2 = fs ?w1" "in_step listing at d'"
      "listing (ext4 d') = listing (ext4 ?d1)" "dir_ctx d' = dir_ctx ?d1"
      "at (ext4 d') = max (at (ext4 ?d1)) (min (nat (sint target)) (length (listing (ext4 ?d1))))" by blast
  have "fs ?w1 = fs w" "fs w' = fs w2"
    using os l(1) w' by (simp_all add: take_lock_def give_lock_def split_beta)
  then show ?thesis using pd l a1 a2 t by (simp add: max_def min_def)
qed

lemma readdir_correct:
  assumes dl: "dir_laws listing at fs entries E" and st: "in_step listing at d"
    and rd: "vfs_lwext4_readdir E ctx (Some d) w = (Inr res, pdir, w')"
  shows "\<exists>d'. pdir = Some d' \<and> in_step listing at d' \<and> listing (ext4 d') = listing (ext4 d) \<and> dir_ctx d' = dir_ctx d
    \<and> (if at (ext4 d) < length (listing (ext4 d))
        then res = Some (dirent_of (listing (ext4 d) ! at (ext4 d))) \<and> at (ext4 d') = Suc (at (ext4 d))
        else res = None \<and> at (ext4 d') = at (ext4 d))"
proof -
  obtain e d1 w1 where nx: "ext4_dir_entry_next E (ext4 d) (snd (take_lock E (lock ctx) w)) = (e, d1, w1)"
    by (metis prod_cases3)
  note r = entry_next_result [OF dl nx]
  have run: "res = map_option dirent_of e \<and> pdir = Some (case e of None \<Rightarrow> d\<lparr>ext4 := d1\<rparr>
      | Some _ \<Rightarrow> d\<lparr>ext4 := d1, offset := offset d + 1\<rparr>)"
    using rd nx by (auto simp: vfs_lwext4_readdir_def vfs_lwext4_readdir_r_def split_beta
        split: sum.splits if_splits option.splits)
  show ?thesis
  proof (cases "at (ext4 d) < length (listing (ext4 d))")
    case True
    then have "unat (offset d + 1) = Suc (unat (offset d))"
      using st by (intro unat_Suc_small) (simp add: in_step_def)
    then show ?thesis using True r run st by (auto simp: in_step_def)
  next
    case False
    then show ?thesis using r run st by (auto simp: in_step_def)
  qed
qed

end
