(* ===== verification/Vfs_Recurse.thy ===== *)
theory Vfs_Recurse
  imports Vfs_Names
begin

text \<open>
  esp_vfs_lwext4_rmdir_recurse: which registered file system a path belongs to, and that
  nothing is removed unless every check passed, and then only strictly below its mount.
\<close>

section \<open>Paths below a mount\<close>

lemma split_slash_append: "split_slash (xs @ slash # ys) = split_slash xs @ split_slash ys"
proof (induction xs)
  case (Cons c xs)
  have "split_slash xs \<noteq> []" by (cases xs) (auto split: list.splits)
  then show ?case using Cons by (cases "split_slash xs") auto
qed simp

lemma components_append_slash: "components (xs @ slash # ys) = components xs @ components ys"
  by (simp add: components_def split_slash_append)

lemma resolve_plain: "dot \<notin> set cs \<Longrightarrow> dot_dot \<notin> set cs \<Longrightarrow> resolve at cs = at @ cs"
  by (induction cs arbitrary: at) auto

lemma components_full_path:
  assumes "mp \<noteq> []" "last mp = slash" "p = slash # q"
  shows "components (mp @ q) = components mp @ components p"
proof -
  have m: "mp = butlast mp @ [slash]" using assms(1,2) by (metis append_butlast_last_id)
  have "components (mp @ q) = components (butlast mp) @ components q"
    by (subst m) (simp add: components_append_slash)
  moreover have "components mp = components (butlast mp)"
    by (subst m, subst components_append_slash [of "butlast mp" "[]"]) simp
  ultimately show ?thesis using assms(3) by (simp add: components_slash)
qed

section \<open>The longest prefix\<close>

definition covers :: "'f esp_lwext4 \<Rightarrow> string \<Rightarrow> bool" where
  "covers c p \<longleftrightarrow> take (length (base_path c)) p = base_path c
     \<and> (drop (length (base_path c)) p = [] \<or> p ! length (base_path c) = slash)"

lemma match_context_cases:
  "match_context p cs best m = best \<and> (\<forall>c \<in> set cs. covers c p \<longrightarrow> length (base_path c) \<le> m)
   \<or> (\<exists>c \<in> set cs. match_context p cs best m = Some (c, drop (length (base_path c)) p) \<and> covers c p
       \<and> m < length (base_path c) \<and> (\<forall>d \<in> set cs. covers d p \<longrightarrow> length (base_path d) \<le> length (base_path c)))"
proof (induction cs arbitrary: best m)
  case (Cons item rest)
  show ?case
  proof (cases "covers item p \<and> m < length (base_path item)")
    case True
    then have s: "match_context p (item # rest) best m
        = match_context p rest (Some (item, drop (length (base_path item)) p)) (length (base_path item))"
      by (simp add: covers_def Let_def)
    from Cons [of "Some (item, drop (length (base_path item)) p)" "length (base_path item)"]
    show ?thesis unfolding s using True by (elim disjE) fastforce+
  next
    case False
    then have s: "match_context p (item # rest) best m = match_context p rest best m"
      by (auto simp: covers_def Let_def)
    have i: "covers item p \<longrightarrow> length (base_path item) \<le> m" using False by auto
    from Cons [of best m] show ?thesis
    proof
      assume "match_context p rest best m = best \<and> (\<forall>c\<in>set rest. covers c p \<longrightarrow> length (base_path c) \<le> m)"
      then show ?thesis using i s by simp
    next
      assume "\<exists>c\<in>set rest. match_context p rest best m = Some (c, drop (length (base_path c)) p) \<and> covers c p
        \<and> m < length (base_path c) \<and> (\<forall>d\<in>set rest. covers d p \<longrightarrow> length (base_path d) \<le> length (base_path c))"
      then obtain c where c: "c \<in> set rest" "match_context p rest best m = Some (c, drop (length (base_path c)) p)"
        "covers c p" "m < length (base_path c)"
        "\<forall>d\<in>set rest. covers d p \<longrightarrow> length (base_path d) \<le> length (base_path c)" by blast
      then have "covers item p \<longrightarrow> length (base_path item) \<le> length (base_path c)" using i by auto
      then show ?thesis using c s by auto
    qed
  qed
qed simp

lemma match_context_Some:
  assumes "match_context p cs None 0 = Some (c, rel)"
  shows "c \<in> set cs" "covers c p" "rel = drop (length (base_path c)) p"
    "\<forall>d \<in> set cs. covers d p \<longrightarrow> length (base_path d) \<le> length (base_path c)"
  using match_context_cases [of p cs None 0] assms by auto

section \<open>Nothing but what was asked\<close>

definition quiet :: "('w \<Rightarrow> 'x) \<Rightarrow> ('w, 'f, 'd) vfs_env \<Rightarrow> bool" where
  "quiet fs E \<longleftrightarrow> (\<forall>l w. fs (snd (xSemaphoreTake E l w)) = fs w) \<and> (\<forall>l w. fs (xSemaphoreGive E l w) = fs w)
     \<and> (\<forall>w. fs (snd (xSemaphoreCreateMutex E w)) = fs w) \<and> (\<forall>l w. fs (vSemaphoreDelete E l w) = fs w)
     \<and> (\<forall>n w. fs (snd (malloc_ok E n w)) = fs w) \<and> (\<forall>w. fs (heap_free E w) = fs w)
     \<and> (\<forall>p t w. fs (snd (ext4_inode_exist E p t w)) = fs w)"

lemma quietD:
  assumes "quiet fs E"
  shows "fs (snd (take_lock E l w)) = fs w" "fs (give_lock E l w) = fs w"
    "fs (snd (xSemaphoreCreateMutex E w)) = fs w" "fs (vSemaphoreDelete E l w) = fs w"
    "fs (heap_free E w) = fs w" "fs (snd (ext4_inode_exist E p t w)) = fs w"
    "fs (snd (make_path E ctx q w)) = fs w"
  using assms
  by (auto simp: quiet_def take_lock_def give_lock_def make_path_def Let_def split_beta split: option.splits)

lemma make_path_Inr:
  assumes "make_path E ctx (Some p) w = (Inr q, w')"
  shows "\<exists>r. p = slash # r \<and> q = mount_point ctx @ r"
  using assms by (cases p) (auto simp: make_path_def Let_def split_beta split: if_splits)

lemma contexts_lock_get_quiet:
  assumes "quiet fs E" "contexts_lock_get E st w = (l, st', w')"
  shows "fs w' = fs w" "s_contexts st' = s_contexts st"
  using assms(2) by (auto simp: contexts_lock_get_def split_beta quietD [OF assms(1)] split: option.splits)

lemma remove_tree_quiet:
  assumes "quiet fs E" "remove_tree E p w = (r, w')"
  shows "fs w' = fs w \<or> (\<exists>w1. fs w1 = fs w \<and> ext4_dir_rm E p w1 = (r, w'))"
proof (cases "fst (ext4_inode_exist E p EXT4_DE_DIR w) = EOK")
  case True
  then show ?thesis
    using assms(2) quietD(6) [OF assms(1), of p EXT4_DE_DIR w] by (auto simp: remove_tree_def split_beta)
next
  case False
  then have "w' = snd (ext4_inode_exist E p EXT4_DE_DIR w)
      \<or> w' = snd (ext4_inode_exist E p EXT4_DE_UNKNOWN (snd (ext4_inode_exist E p EXT4_DE_DIR w)))"
    using assms(2) by (auto simp: remove_tree_def split_beta split: if_splits)
  then show ?thesis using quietD(6) [OF assms(1)] by auto
qed

text \<open>A run that changes the file system went through all the checks.\<close>

lemma rmdir_recurse_run:
  assumes q: "quiet fs E" and rr: "esp_vfs_lwext4_rmdir_recurse E (Some p) st w = (e, st', w')"
    and ch: "fs w' \<noteq> fs w"
  shows "\<exists>ctx rel full w3 w4 r w5. match_context p (s_contexts st) None 0 = Some (ctx, rel)
    \<and> \<not> path_is_mount_root rel \<and> \<not> path_has_dot_component rel \<and> \<not> read_only ctx
    \<and> open_files ctx = 0 \<and> open_dirs ctx = 0
    \<and> make_path E ctx (Some rel) w3 = (Inr full, w4) \<and> fs w4 = fs w
    \<and> remove_tree E full w4 = (r, w5) \<and> e = lwext4_error_to_esp r \<and> fs w' = fs w5"
proof -
  obtain lk st1 w1 where cg: "contexts_lock_get E st w = (lk, st1, w1)" by (metis prod_cases3)
  note cq = contexts_lock_get_quiet [OF q cg]
  have p: "p \<noteq> [] \<and> p ! 0 = slash"
    using rr ch by (auto simp: esp_vfs_lwext4_rmdir_recurse_def split: if_splits)
  then obtain l where l: "lk = Some l"
    using rr ch cg cq by (cases lk) (auto simp: esp_vfs_lwext4_rmdir_recurse_def)
  obtain t w2 where tk: "take_lock E l w1 = (t, w2)" by force
  have f2: "fs w2 = fs w" using quietD(1) [OF q, of l w1] tk cq by simp
  obtain ctx rel where m: "match_context p (s_contexts st) None 0 = Some (ctx, rel)" and t: "\<not> isl t"
    using rr ch p cg l tk f2 cq quietD(2) [OF q]
    by (cases t; cases "match_context p (s_contexts st) None 0") (auto simp: esp_vfs_lwext4_rmdir_recurse_def)
  obtain t2 w3 where tk2: "take_lock E (lock ctx) w2 = (t2, w3)" by force
  have f3: "fs w3 = fs w" using quietD(1) [OF q, of "lock ctx" w2] tk2 f2 by simp
  let ?w = "give_lock E l w3"
  have fw: "fs ?w = fs w" using f3 quietD(2) [OF q] by simp
  note body = rr [unfolded esp_vfs_lwext4_rmdir_recurse_def cg l]
  have ok: "\<not> isl t2" "\<not> path_is_mount_root rel" "\<not> path_has_dot_component rel" "\<not> read_only ctx"
    "open_files ctx = 0" "open_dirs ctx = 0"
    using body ch p tk t m tk2 f3 cq quietD(2) [OF q]
    by (auto simp: Let_def split: sum.splits if_splits)
  obtain mp w4 where mk: "make_path E ctx (Some rel) ?w = (mp, w4)" by force
  have f4: "fs w4 = fs w" using quietD(7) [OF q, of ctx "Some rel" ?w] mk fw by simp
  obtain full where full: "mp = Inr full"
    using body ch p tk t m tk2 f4 cq quietD(2) [OF q] ok mk
    by (cases mp) (auto simp: Let_def split: sum.splits)
  obtain r w5 where rt: "remove_tree E full w4 = (r, w5)" by force
  have "e = lwext4_error_to_esp r \<and> w' = give_lock E (lock ctx) (heap_free E w5)"
    using body p tk t m tk2 cq ok mk full rt by (auto simp: Let_def split: sum.splits)
  then show ?thesis using m ok mk full f4 rt quietD(2,5) [OF q]
    by (intro exI [of _ ctx] exI [of _ rel] exI [of _ full] exI [of _ ?w] exI [of _ w4] exI [of _ r]
        exI [of _ w5]) simp
qed

lemma rmdir_recurse_safe:
  assumes q: "quiet fs E" and rr: "esp_vfs_lwext4_rmdir_recurse E (Some p) st w = (e, st', w')"
    and all: "\<forall>c \<in> set (s_contexts st). ctx_ok c"
    and ch: "fs w' \<noteq> fs w"
  shows "\<exists>ctx full w1. ctx \<in> set (s_contexts st) \<and> covers ctx p
    \<and> (\<forall>d \<in> set (s_contexts st). covers d p \<longrightarrow> length (base_path d) \<le> length (base_path ctx))
    \<and> \<not> read_only ctx \<and> open_files ctx = 0 \<and> open_dirs ctx = 0
    \<and> strict_prefix (components (mount_point ctx)) (components full)
    \<and> components full = components (mount_point ctx) @ components (drop (length (base_path ctx)) p)
    \<and> dot \<notin> set (components (drop (length (base_path ctx)) p))
    \<and> dot_dot \<notin> set (components (drop (length (base_path ctx)) p))
    \<and> fs w1 = fs w \<and> fs w' = fs (snd (ext4_dir_rm E full w1))
    \<and> e = lwext4_error_to_esp (fst (ext4_dir_rm E full w1))"
proof -
  from rmdir_recurse_run [OF q rr ch] obtain ctx rel full w3 w4 r w5 where
    m: "match_context p (s_contexts st) None 0 = Some (ctx, rel)"
    and ok: "\<not> path_is_mount_root rel" "\<not> path_has_dot_component rel" "\<not> read_only ctx"
      "open_files ctx = 0" "open_dirs ctx = 0"
    and mk: "make_path E ctx (Some rel) w3 = (Inr full, w4)" and f4: "fs w4 = fs w"
    and rt: "remove_tree E full w4 = (r, w5)" and e: "e = lwext4_error_to_esp r" "fs w' = fs w5" by blast
  note mc = match_context_Some [OF m]
  obtain s where s: "rel = slash # s" "full = mount_point ctx @ s" using make_path_Inr [OF mk] by blast
  have cf: "components full = components (mount_point ctx) @ components rel"
    using components_full_path [OF _ _ s(1)] all mc(1) s(2) by (auto simp: ctx_ok_def)
  have nd: "dot \<notin> set (components rel)" "dot_dot \<notin> set (components rel)"
    using ok(2) by (simp_all add: path_has_dot_component_iff)
  have "components rel \<noteq> []" using ok(1) resolve_plain [OF nd, of "[]"] by (auto simp: path_is_mount_root_iff)
  then have sp: "strict_prefix (components (mount_point ctx)) (components full)"
    unfolding cf by (simp add: strict_prefix_def)
  from remove_tree_quiet [OF q rt] ch e f4 obtain w1 where "fs w1 = fs w" "ext4_dir_rm E full w1 = (r, w5)" by auto
  then show ?thesis using mc ok cf nd sp e by (intro exI [of _ ctx] exI [of _ full] exI [of _ w1]) simp
qed

end
