(* ===== verification/Vfs_Examples.thy ===== *)
theory Vfs_Examples
  imports Vfs_Posix_Correct Vfs_Recurse
begin

text \<open>
  A small environment on which every contract of the VFS adapter's theories holds: files of at
  most 64 bytes held in the world, a flat table of names, mutexes that can be taken once, and
  a heap that counts.  The properties' witnesses run the adapter on it.
\<close>

section \<open>The environment\<close>

record mini =
  m_data :: "u32 \<Rightarrow> bytes"
  m_held :: "nat \<Rightarrow> int"
  m_live :: int
  m_tree :: "(string \<times> u32 \<times> bool) list"

type_synonym mini_dir = "ext4_direntry list \<times> nat"

definition mini_data :: "mini \<Rightarrow> u32 \<Rightarrow> bytes" where
  "mini_data w i = take 64 (m_data w i)"

definition mini_entry :: "string \<Rightarrow> u32 \<Rightarrow> bool \<Rightarrow> ext4_direntry" where
  "mini_entry nm i d = \<lparr>de_inode = i, name_length = of_nat (length nm), inode_type = (if d then 2 else 1), name = nm\<rparr>"

definition mini_entries :: "(string \<times> u32 \<times> bool) list \<Rightarrow> string \<Rightarrow> ext4_direntry list" where
  "mini_entries t p = mini_entry dot 2 True # mini_entry dot_dot 2 True
     # map (\<lambda>(q, i, d). mini_entry (drop (Suc (length p)) q) i d)
         (filter (\<lambda>(q, i, d). take (Suc (length p)) q = p @ [slash] \<and> slash \<notin> set (drop (Suc (length p)) q)) t)"

definition mini_there :: "(string \<times> u32 \<times> bool) list \<Rightarrow> string \<Rightarrow> bool" where
  "mini_there t p \<longleftrightarrow> map_of t p \<noteq> None"

definition mini_inode :: "(string \<times> u32 \<times> bool) list \<Rightarrow> string \<Rightarrow> u32" where
  "mini_inode t p = fst (the (map_of t p))"

definition mini_is_dir :: "(string \<times> u32 \<times> bool) list \<Rightarrow> string \<Rightarrow> bool" where
  "mini_is_dir t p \<longleftrightarrow> (case map_of t p of None \<Rightarrow> False | Some (i, d) \<Rightarrow> d)"

definition mini_take :: "nat \<Rightarrow> mini \<Rightarrow> bool \<times> mini" where
  "mini_take l w = (if m_held w l = 0 then (True, w\<lparr>m_held := (m_held w)(l := 1)\<rparr>) else (False, w))"

definition mini_fopen2 :: "u64 ext4_file \<Rightarrow> string \<Rightarrow> u32 \<Rightarrow> mini \<Rightarrow> errno \<times> u64 ext4_file \<times> mini" where
  "mini_fopen2 f p fl w =
     (case map_of (m_tree w) p of
        Some (i, d) \<Rightarrow>
          let w' = (if fl AND O_TRUNC \<noteq> 0 then w\<lparr>m_data := (m_data w)(i := [])\<rparr> else w) in
          (EOK, \<lparr>inode = i, fsize = of_nat (length (mini_data w' i)), file_rest = 0\<rparr>, w')
      | None \<Rightarrow>
          if fl AND O_CREAT = 0 then (ENOENT, f, w)
          else
            let i = of_nat (length (m_tree w)) + 12 in
            (EOK, \<lparr>inode = i, fsize = 0, file_rest = 0\<rparr>,
             w\<lparr>m_tree := (p, i, False) # m_tree w, m_data := (m_data w)(i := [])\<rparr>))"

definition mini_fread ::
  "u64 ext4_file \<Rightarrow> bytes \<Rightarrow> u32 \<Rightarrow> mini \<Rightarrow> errno \<times> bytes \<times> u32 \<times> u64 ext4_file \<times> mini" where
  "mini_fread f dst n w =
     (let d = mini_data w (inode f); c = min (unat n) (length d - unat (file_rest f)) in
      (EOK, mem_write 0 (mem_read (unat (file_rest f)) c d) dst, of_nat c,
       f\<lparr>fsize := of_nat (length d), file_rest := file_rest f + ucast (of_nat c :: u32)\<rparr>, w))"

definition mini_fwrite :: "u64 ext4_file \<Rightarrow> bytes \<Rightarrow> u32 \<Rightarrow> mini \<Rightarrow> errno \<times> u32 \<times> u64 ext4_file \<times> mini" where
  "mini_fwrite f src n w =
     (let d = mini_data w (inode f); p = unat (file_rest f); d' = mem_write p (take (unat n) src) d in
      if p + unat n > 64 \<or> p > length d then (ENOSPC, 0, f, w)
      else (EOK, n, f\<lparr>fsize := of_nat (length (take 64 d')), file_rest := file_rest f + ucast n\<rparr>,
            w\<lparr>m_data := (m_data w)(inode f := d')\<rparr>))"

definition mini_fseek :: "u64 ext4_file \<Rightarrow> u64 \<Rightarrow> u32 \<Rightarrow> errno \<times> u64 ext4_file" where
  "mini_fseek f off whence =
     (let target = (if whence = 0 then off else if whence = 1 then file_rest f + off else fsize f - off) in
      if target \<le> fsize f then (EOK, f\<lparr>file_rest := target\<rparr>) else (EINVAL, f))"

definition mini_ftruncate :: "u64 ext4_file \<Rightarrow> u64 \<Rightarrow> mini \<Rightarrow> errno \<times> u64 ext4_file \<times> mini" where
  "mini_ftruncate f n w =
     (let d = take (unat n) (mini_data w (inode f)) in
      (EOK, f\<lparr>fsize := of_nat (length d)\<rparr>, w\<lparr>m_data := (m_data w)(inode f := d)\<rparr>))"

definition mini_inode_exist :: "string \<Rightarrow> u8 \<Rightarrow> mini \<Rightarrow> errno \<times> mini" where
  "mini_inode_exist p t w =
     (if mini_there (m_tree w) p \<and> (t = EXT4_DE_UNKNOWN \<or> (t = EXT4_DE_DIR \<longleftrightarrow> mini_is_dir (m_tree w) p))
      then EOK else ENOENT, w)"

definition mini_raw_inode_fill :: "string \<Rightarrow> mini \<Rightarrow> errno \<times> u32 \<times> bytes \<times> mini" where
  "mini_raw_inode_fill p w =
     (case map_of (m_tree w) p of
        None \<Rightarrow> (ENOENT, 0, [], w)
      | Some (i, d) \<Rightarrow> (EOK, i, (if d then 1 else 0) # replicate (length (mini_data w i)) 0, w))"

definition mini_dir_open :: "string \<Rightarrow> mini \<Rightarrow> errno \<times> mini_dir \<times> mini" where
  "mini_dir_open p w =
     (if mini_is_dir (m_tree w) p then (EOK, (mini_entries (m_tree w) p, 0), w) else (ENOENT, ([], 0), w))"

definition mini_dir_next :: "mini_dir \<Rightarrow> mini \<Rightarrow> ext4_direntry option \<times> mini_dir \<times> mini" where
  "mini_dir_next d w =
     (if snd d < length (fst d) then (Some (fst d ! snd d), (fst d, Suc (snd d)), w) else (None, d, w))"

definition mini_frename :: "string \<Rightarrow> string \<Rightarrow> mini \<Rightarrow> errno \<times> mini" where
  "mini_frename p q w =
     (if \<not> mini_there (m_tree w) p then (ENOENT, w)
      else if mini_there (m_tree w) q then (EEXIST, w)
      else (EOK, w\<lparr>m_tree := map (\<lambda>(r, x). (if r = p then q else r, x)) (m_tree w)\<rparr>))"

definition mini_remove :: "string \<Rightarrow> mini \<Rightarrow> errno \<times> mini" where
  "mini_remove p w =
     (if \<not> mini_there (m_tree w) p then (ENOENT, w)
      else (EOK, w\<lparr>m_tree := filter (\<lambda>(q, x). q \<noteq> p \<and> take (Suc (length p)) q \<noteq> p @ [slash]) (m_tree w)\<rparr>))"

definition mini_make :: "string \<Rightarrow> u32 \<Rightarrow> bool \<Rightarrow> mini \<Rightarrow> errno \<times> mini" where
  "mini_make p i d w = (if mini_there (m_tree w) p then (EEXIST, w) else (EOK, w\<lparr>m_tree := (p, i, d) # m_tree w\<rparr>))"

definition mini_env :: "(mini, u64, mini_dir) vfs_env" where
  "mini_env = \<lparr>
     xSemaphoreTake = mini_take,
     xSemaphoreGive = (\<lambda>l w. w\<lparr>m_held := (m_held w)(l := m_held w l - 1)\<rparr>),
     xSemaphoreCreateMutex = (\<lambda>w. (Some (nat (m_live w)), w\<lparr>m_live := m_live w + 1\<rparr>)),
     vSemaphoreDelete = (\<lambda>l w. w\<lparr>m_live := m_live w - 1\<rparr>),
     malloc_ok = (\<lambda>n w. (True, w\<lparr>m_live := m_live w + 1\<rparr>)),
     calloc_ok = (\<lambda>m n w. (True, w\<lparr>m_live := m_live w + 1\<rparr>)),
     calloc_addr = (\<lambda>w. nat (m_live w)),
     heap_free = (\<lambda>w. w\<lparr>m_live := m_live w - 1\<rparr>),
     stored_meanwhile = (\<lambda>w. None),
     current_time = (\<lambda>w. (0, w)),
     esp_vfs_register_fs = (\<lambda>p fl w. (ESP_OK, w)),
     esp_vfs_unregister_fs = (\<lambda>p w. (ESP_OK, w)),
     file_zero = 0,
     ext4_fopen2 = mini_fopen2,
     ext4_fclose = (\<lambda>f w. (EOK, f, w)),
     ext4_fread = mini_fread,
     ext4_fwrite = mini_fwrite,
     ext4_fseek = mini_fseek,
     ext4_ftell = file_rest,
     ext4_ftruncate = mini_ftruncate,
     ext4_inode_exist = mini_inode_exist,
     ext4_raw_inode_fill = mini_raw_inode_fill,
     ext4_get_sblock = (\<lambda>p w. (EOK, [], w)),
     ext4_inode_get_size = (\<lambda>sb ino. of_nat (length ino - 1)),
     ext4_inode_get_mode = (\<lambda>sb ino. 0x1A4),
     ext4_inode_type = (\<lambda>sb ino. if hd ino = 1 then 0x4000 else 0x8000),
     ext4_inode_get_links_cnt = (\<lambda>ino. 1),
     ext4_inode_get_uid = (\<lambda>ino. 0),
     ext4_inode_get_gid = (\<lambda>ino. 0),
     ext4_inode_get_access_time = (\<lambda>ino. 0),
     ext4_inode_get_modif_time = (\<lambda>ino. 0),
     ext4_inode_get_change_inode_time = (\<lambda>ino. 0),
     ext4_mount_point_stats = (\<lambda>p w. (EOK, 1024, w)),
     ext4_cache_flush = (\<lambda>p w. (EOK, w)),
     ext4_dir_open = mini_dir_open,
     ext4_dir_entry_next = mini_dir_next,
     ext4_dir_entry_rewind = (\<lambda>d. (fst d, 0)),
     ext4_dir_close = (\<lambda>d w. (EOK, d, w)),
     ext4_flink = (\<lambda>p q w. mini_make q (mini_inode (m_tree w) p) False w),
     ext4_frename = mini_frename,
     ext4_fremove = mini_remove,
     ext4_dir_rm = mini_remove,
     ext4_dir_mk = (\<lambda>p w. mini_make p (of_nat (length (m_tree w)) + 12) True w),
     ext4_mode_set = (\<lambda>p m w. (EOK, w)),
     ext4_atime_set = (\<lambda>p t w. (EOK, w)),
     ext4_mtime_set = (\<lambda>p t w. (EOK, w)),
     sizeof_ctx = 64, sizeof_entry = 64, sizeof_dir = 64, off_t_bits = 32, ext4_max_mp_name = 32,
     esp_vfs_path_max = 15, vfs_grow_buffer_size = 4\<rparr>"

lemma mini_env_simps [simp]:
  "xSemaphoreTake mini_env = mini_take"
  "xSemaphoreGive mini_env = (\<lambda>l w. w\<lparr>m_held := (m_held w)(l := m_held w l - 1)\<rparr>)"
  "xSemaphoreCreateMutex mini_env = (\<lambda>w. (Some (nat (m_live w)), w\<lparr>m_live := m_live w + 1\<rparr>))"
  "vSemaphoreDelete mini_env = (\<lambda>l w. w\<lparr>m_live := m_live w - 1\<rparr>)"
  "malloc_ok mini_env = (\<lambda>n w. (True, w\<lparr>m_live := m_live w + 1\<rparr>))"
  "calloc_ok mini_env = (\<lambda>m n w. (True, w\<lparr>m_live := m_live w + 1\<rparr>))"
  "calloc_addr mini_env = (\<lambda>w. nat (m_live w))"
  "heap_free mini_env = (\<lambda>w. w\<lparr>m_live := m_live w - 1\<rparr>)"
  "stored_meanwhile mini_env = (\<lambda>w. None)"
  "current_time mini_env = (\<lambda>w. (0, w))"
  "esp_vfs_register_fs mini_env = (\<lambda>p fl w. (ESP_OK, w))"
  "esp_vfs_unregister_fs mini_env = (\<lambda>p w. (ESP_OK, w))"
  "file_zero mini_env = 0"
  "ext4_fopen2 mini_env = mini_fopen2"
  "ext4_fclose mini_env = (\<lambda>f w. (EOK, f, w))"
  "ext4_fread mini_env = mini_fread"
  "ext4_fwrite mini_env = mini_fwrite"
  "ext4_fseek mini_env = mini_fseek"
  "ext4_ftell mini_env = file_rest"
  "ext4_ftruncate mini_env = mini_ftruncate"
  "ext4_inode_exist mini_env = mini_inode_exist"
  "ext4_raw_inode_fill mini_env = mini_raw_inode_fill"
  "ext4_get_sblock mini_env = (\<lambda>p w. (EOK, [], w))"
  "ext4_inode_get_size mini_env = (\<lambda>sb ino. of_nat (length ino - 1))"
  "ext4_inode_get_mode mini_env = (\<lambda>sb ino. 0x1A4)"
  "ext4_inode_type mini_env = (\<lambda>sb ino. if hd ino = 1 then 0x4000 else 0x8000)"
  "ext4_inode_get_links_cnt mini_env = (\<lambda>ino. 1)"
  "ext4_inode_get_uid mini_env = (\<lambda>ino. 0)"
  "ext4_inode_get_gid mini_env = (\<lambda>ino. 0)"
  "ext4_inode_get_access_time mini_env = (\<lambda>ino. 0)"
  "ext4_inode_get_modif_time mini_env = (\<lambda>ino. 0)"
  "ext4_inode_get_change_inode_time mini_env = (\<lambda>ino. 0)"
  "ext4_mount_point_stats mini_env = (\<lambda>p w. (EOK, 1024, w))"
  "ext4_cache_flush mini_env = (\<lambda>p w. (EOK, w))"
  "ext4_dir_open mini_env = mini_dir_open"
  "ext4_dir_entry_next mini_env = mini_dir_next"
  "ext4_dir_entry_rewind mini_env = (\<lambda>d. (fst d, 0))"
  "ext4_dir_close mini_env = (\<lambda>d w. (EOK, d, w))"
  "ext4_flink mini_env = (\<lambda>p q w. mini_make q (mini_inode (m_tree w) p) False w)"
  "ext4_frename mini_env = mini_frename"
  "ext4_fremove mini_env = mini_remove"
  "ext4_dir_rm mini_env = mini_remove"
  "ext4_dir_mk mini_env = (\<lambda>p w. mini_make p (of_nat (length (m_tree w)) + 12) True w)"
  "ext4_mode_set mini_env = (\<lambda>p m w. (EOK, w))"
  "ext4_atime_set mini_env = (\<lambda>p t w. (EOK, w))"
  "ext4_mtime_set mini_env = (\<lambda>p t w. (EOK, w))"
  "sizeof_ctx mini_env = 64"
  "sizeof_entry mini_env = 64"
  "sizeof_dir mini_env = 64"
  "off_t_bits mini_env = 32"
  "ext4_max_mp_name mini_env = 32"
  "esp_vfs_path_max mini_env = 15"
  "vfs_grow_buffer_size mini_env = 4"
  by (simp_all add: mini_env_def)

section \<open>The contracts hold\<close>

lemmas mini_ops = mini_take_def mini_fopen2_def mini_fread_def mini_fwrite_def mini_ftruncate_def
  mini_inode_exist_def mini_raw_inode_fill_def mini_dir_open_def mini_dir_next_def mini_frename_def
  mini_remove_def mini_make_def Let_def

lemma mini_os_laws: "os_laws (\<lambda>k w. m_held w k) m_live mini_env"
  by (simp add: os_laws_def mini_take_def)

lemma mini_neutral:
  assumes "\<And>w g. X (m_data_update g w) = X w" "\<And>w g. X (m_tree_update g w) = X w"
  shows "neutral X mini_env"
  unfolding neutral_def
  by (intro conjI allI) (simp_all add: mini_ops assms split: option.split)

lemma mini_env_laws: "env_laws (\<lambda>k w. m_held w k) m_live mini_env"
  by (simp add: env_laws_def mini_os_laws mini_neutral)

lemma length_mini_data: "length (mini_data w i) \<le> 64"
  by (simp add: mini_data_def)

lemma mini_file_seeks: "file_seeks mini_env"
  by (auto simp: file_seeks_def mini_fseek_def Let_def)

lemma mini_file_reads: "file_reads mini_data mini_env"
proof -
  have "unat (of_nat (min (unat n) (length (mini_data w i) - k)) :: u32) = min (unat n) (length (mini_data w i) - k)"
    for n :: u32 and w i k
    using length_mini_data [of w i] by (simp add: unat_of_nat)
  then show ?thesis by (simp add: file_reads_def mini_fread_def Let_def)
qed

lemma mini_file_writes: "file_writes mini_data mini_env"
proof -
  have l: "take 64 (mem_write p (take n src) d) = mem_write p (take n src) d"
    if "p + n \<le> 64" "n \<le> length src" "p \<le> length d" "length d \<le> 64" for p n src and d :: bytes
    using that by (simp add: mem_write_def)
  show ?thesis
    by (auto simp: file_writes_def mini_fwrite_def Let_def mini_data_def l not_less
        split: if_splits)
qed

lemma mini_file_sizes: "file_sizes mini_data mini_env"
proof -
  have "length (mini_data w i) < 2 ^ 63" for w i using length_mini_data [of w i] by simp
  then show ?thesis
    by (auto simp: file_sizes_def mini_raw_inode_fill_def split: option.split)
qed

lemma mini_files: "lwext4_files mini_data mini_env"
proof -
  have "file_truncates mini_data mini_env"
    by (simp add: file_truncates_def mini_ftruncate_def Let_def mini_data_def)
  moreover have "os_keeps_data mini_data mini_env"
    by (auto simp: os_keeps_data_def mini_take_def mini_data_def fun_eq_iff)
  ultimately show ?thesis
    by (simp add: lwext4_files_def mini_file_seeks mini_file_reads mini_file_writes mini_file_sizes)
qed

lemma mini_writes_bounded: "writes_bounded mini_env"
  by (simp add: writes_bounded_def mini_fwrite_def Let_def)

lemma mini_dir_laws: "dir_laws fst snd m_tree mini_entries mini_env"
  by (simp add: dir_laws_def mini_dir_next_def mini_dir_open_def)

lemma mini_name_laws: "name_laws m_tree mini_there mini_inode mini_is_dir mini_env"
  by (auto simp: name_laws_def mini_raw_inode_fill_def mini_frename_def mini_there_def
      mini_inode_def mini_is_dir_def split: if_splits)

lemma mini_quiet: "quiet m_tree mini_env"
  by (simp add: quiet_def mini_take_def mini_inode_exist_def)

section \<open>A mounted example\<close>

text \<open>
  \<open>/m\<close> holds two directories, one of them empty, and two files; \<open>mini_ctx\<close> has both files
  open, the second with O_APPEND, and one free entry.
\<close>

definition mini_world :: mini where
  "mini_world = \<lparr>m_data = (\<lambda>_. [])(12 := [1, 2, 3, 4, 5, 6], 13 := [7, 8]), m_held = (\<lambda>_. 0), m_live = 0,
     m_tree = [(''/m/a'', 12, False), (''/m/b'', 13, False), (''/m/d'', 14, True), (''/m/d/c'', 15, False),
               (''/m/e'', 16, True)]\<rparr>"

definition mini_handle :: "u32 \<Rightarrow> u64 \<Rightarrow> u64 \<Rightarrow> string \<Rightarrow> u32 \<Rightarrow> u64 esp_lwext4_file" where
  "mini_handle i n pos p fl =
     \<lparr>efile = \<lparr>inode = i, fsize = n, file_rest = pos\<rparr>, path = Some p, flags = fl, used = True\<rparr>"

definition mini_ctx :: "u64 esp_lwext4" where
  "mini_ctx = \<lparr>ctx_id = 1, base_path = ''/s'', mount_point = ''/m/'',
     files = [mini_handle 12 6 2 ''/m/a'' O_RDWR, mini_handle 13 2 0 ''/m/b'' (O_RDWR OR O_APPEND), zero_entry mini_env],
     max_files = 3, open_files = 2, open_dirs = 0, grow_buffer = Some (replicate 4 0), grow_buffer_size = 4,
     read_only = False, lock = 5\<rparr>"

lemma mini_ctx_ok: "ctx_ok mini_ctx"
  by (simp add: ctx_ok_def mini_ctx_def mini_handle_def open_slots_def zero_entry_def)

text \<open>The facts that run the adapter on the example.\<close>

lemmas mini_base = take_lock_def give_lock_def strlen_def Let_def mini_ops mini_fseek_def file_get_def mini_ctx_def
  mini_world_def mini_handle_def mini_data_def mini_there_def mini_inode_def mini_is_dir_def zero_entry_def
  zero_file_def fail_with_errno_def make_path_def

lemmas mini_io = mini_base positioned_io_def positioned_transfer_def current_file_size_locked_def
  resize_file_locked_def io_size_limit_def mem_read_def mem_write_def

section \<open>A history of the system\<close>

text \<open>The file system is registered at \<open>/s\<close>, a file is opened, then a directory stream.\<close>

definition mini_conf :: esp_vfs_lwext4_conf where
  "mini_conf = \<lparr>conf_base_path = Some ''/s'', conf_mount_point = Some ''/m'', conf_max_files = 3, conf_read_only = False\<rparr>"

definition mini_fresh :: "u64 esp_lwext4" where
  "mini_fresh = \<lparr>ctx_id = 1, base_path = ''/s'', mount_point = ''/m/'', files = replicate 3 (zero_entry mini_env),
     max_files = 3, open_files = 0, open_dirs = 0, grow_buffer = Some (replicate 4 0), grow_buffer_size = 4,
     read_only = False, lock = 4\<rparr>"

definition mini_opened :: "u64 esp_lwext4" where
  "mini_opened = put_file 0 (mini_handle 12 6 0 ''/m/a'' O_RDONLY) mini_fresh\<lparr>open_files := 1\<rparr>"

definition mini_stream :: "nat \<Rightarrow> mini_dir esp_lwext4_dir" where
  "mini_stream n = \<lparr>ext4 = (mini_entries (m_tree mini_world) ''/m/d'', n), offset = of_nat n, dir_ctx = Some 1\<rparr>"

definition mini_registry :: "u64 esp_lwext4 \<Rightarrow> u64 registry" where
  "mini_registry ctx = \<lparr>s_contexts = [ctx], s_contexts_lock = Some 6\<rparr>"

lemma replicate_2_3 [simp]: "replicate 2 x = [x, x]" "replicate 3 x = [x, x, x]"
  by (simp_all add: numeral_2_eq_2 numeral_3_eq_3)

lemma mini_register:
  "esp_vfs_lwext4_register mini_env (Some mini_conf) empty_registry mini_world
    = (ESP_OK, mini_registry mini_fresh, mini_world\<lparr>m_live := 7\<rparr>)"
  by (simp add: esp_vfs_lwext4_register_def register_args_ok_def alloc_context_def normalize_mount_point_def
      contexts_lock_get_def register_locked_def mini_conf_def empty_registry_def mini_registry_def mini_fresh_def
      mini_base fun_upd_idem)

lemma mini_open:
  "vfs_lwext4_open mini_env mini_fresh (Some ''/a'') O_RDONLY (mini_world\<lparr>m_live := 7\<rparr>)
    = (Inr 0, mini_opened, mini_world\<lparr>m_live := 8\<rparr>)"
  by (simp add: vfs_lwext4_open_def open_check_def find_free_slot.simps mini_opened_def mini_fresh_def put_file_def
      mini_base fun_upd_idem)

lemma mini_opendir:
  "vfs_lwext4_opendir mini_env mini_opened (Some ''/d'') (mini_world\<lparr>m_live := 8\<rparr>)
    = (Inr (mini_stream 0), mini_opened\<lparr>open_dirs := 1\<rparr>, mini_world\<lparr>m_live := 9\<rparr>)"
  by (simp add: vfs_lwext4_opendir_def mini_opened_def mini_fresh_def put_file_def mini_stream_def
      mini_base fun_upd_idem)

lemma mini_history:
  "(vfs_step mini_env)\<^sup>*\<^sup>* (empty_registry, [], mini_world)
     (mini_registry (mini_opened\<lparr>open_dirs := 1\<rparr>), [mini_stream 0], mini_world\<lparr>m_live := 9\<rparr>)"
proof -
  have c: "s_contexts (mini_registry ctx) = [ctx]" for ctx by (simp add: mini_registry_def)
  have "vfs_step mini_env (empty_registry, [], mini_world) (mini_registry mini_fresh, [], mini_world\<lparr>m_live := 7\<rparr>)"
    by (rule vfs_step.register [OF mini_register]) (simp add: c)
  moreover have "vfs_step mini_env (mini_registry mini_fresh, [], mini_world\<lparr>m_live := 7\<rparr>)
      (mini_registry mini_opened, [], mini_world\<lparr>m_live := 8\<rparr>)"
    using vfs_step.call [of 0 "mini_registry mini_fresh" mini_env "Call_open (Some ''/a'') O_RDONLY" "[]"
        "mini_world\<lparr>m_live := 7\<rparr>" mini_opened "[]" "mini_world\<lparr>m_live := 8\<rparr>"] mini_open
    by (simp add: c) (simp add: mini_registry_def)
  moreover have "vfs_step mini_env (mini_registry mini_opened, [], mini_world\<lparr>m_live := 8\<rparr>)
      (mini_registry (mini_opened\<lparr>open_dirs := 1\<rparr>), [mini_stream 0], mini_world\<lparr>m_live := 9\<rparr>)"
    using vfs_step.call [of 0 "mini_registry mini_opened" mini_env "Call_opendir (Some ''/d'')" "[]"
        "mini_world\<lparr>m_live := 8\<rparr>" "mini_opened\<lparr>open_dirs := 1\<rparr>" "[mini_stream 0]" "mini_world\<lparr>m_live := 9\<rparr>"] mini_opendir
    by (simp add: c) (simp add: mini_registry_def)
  ultimately show ?thesis by (meson converse_rtranclp_into_rtranclp rtranclp.rtrancl_refl)
qed

lemma mini_fresh_ok: "ctx_ok mini_fresh"
  by (simp add: ctx_ok_def mini_fresh_def open_slots_def zero_entry_def)

text \<open>A handle that does not know that its file has grown.\<close>

definition mini_stale :: "u64 esp_lwext4" where
  "mini_stale = put_file 0 (mini_handle 12 2 0 ''/m/a'' O_RDWR) mini_ctx"

lemma mini_stale_ok: "ctx_ok mini_stale"
  by (simp add: ctx_ok_def mini_stale_def mini_ctx_def mini_handle_def open_slots_def zero_entry_def)

end
