(* ===== verification/Vfs_Properties.thy ===== *)
theory Vfs_Properties
  imports Vfs_Examples
begin

text \<open>
  The properties of the VFS adapter (port/esp_lwext4.c), each with a run of the adapter on
  the small environment of \<open>Vfs_Examples\<close> where it has hypotheses.
\<close>

section \<open>Registered file systems, descriptors and resources\<close>

text \<open>C7: From an empty registry, whatever calls, registrations, unregistrations and recursive
  removals are made in whatever order and whatever lwext4 answers: registered base paths and
  mount points stay unique, every context stays well formed with an exact count of its open
  files and streams, no stream outlives its context, no lock is held between operations, and
  the heap holds exactly what the registered contexts, open files and streams account for.\<close>

theorem vfs_system_safe:
  assumes "env_laws held live E" "stored_meanwhile E = (\<lambda>_. None)" "\<forall>k. held k w = 0" "live w = 0"
    "(vfs_step E)\<^sup>*\<^sup>* (empty_registry, [], w) (st, ds, w')"
  shows "distinct (map base_path (s_contexts st)) \<and> distinct (map mount_point (s_contexts st))
    \<and> (\<forall>c \<in> set (s_contexts st). ctx_ok c \<and> unat (open_dirs c) = streams_of (ctx_id c) ds)
    \<and> dir_ctx ` set ds \<subseteq> (\<lambda>c. Some (ctx_id c)) ` set (s_contexts st)
    \<and> (\<forall>k. held k w' = 0)
    \<and> live w' = sum_list (map ctx_size (s_contexts st)) + int (length ds) + lock_count st"
proof -
  note ok = system_okD [OF reachable_system_ok [OF assms]]
  from ok(1,2,4,5,7,8) show ?thesis unfolding lock_count_def by blast
qed

theorem vfs_system_safe_witness:
  "(9 :: int) = ctx_size (mini_opened\<lparr>open_dirs := 1\<rparr>) + 1 + 1 \<and> ctx_ok (mini_opened\<lparr>open_dirs := 1\<rparr>)
   \<and> streams_of 1 [mini_stream 0] = 1"
proof -
  have h: "\<forall>k. m_held mini_world k = 0" "m_live mini_world = 0" "stored_meanwhile mini_env = (\<lambda>_. None)"
    by (simp_all add: mini_world_def)
  from vfs_system_safe [OF mini_env_laws h(3,1,2) mini_history] show ?thesis
    by (simp add: mini_registry_def lock_count_def mini_opened_def mini_fresh_def put_file_def)
qed

text \<open>C15: Any program of calls on one context keeps the context well formed and everything
  registration fixed unchanged, leaves every lock as it was, and changes the heap by exactly
  the files and streams it opened and closed, which open_dirs follows.\<close>

theorem vfs_programs_account:
  assumes "env_laws held live E" "ctx_ok ctx"
    "run_all (run_call E) cs (ctx, ds, w) = Some (ctx', ds', w')"
  shows "ctx_ok ctx' \<and> kin ctx ctx' \<and> (\<forall>k. held k w' = held k w)
    \<and> live w' - int (open_slots (files ctx')) - int (length ds')
      = live w - int (open_slots (files ctx)) - int (length ds)
    \<and> open_dirs ctx' - of_nat (streams_of (ctx_id ctx') ds')
      = open_dirs ctx - of_nat (streams_of (ctx_id ctx) ds)"
proof -
  have "keeps_accounts held live E (ctx, ds, w) (ctx, ds, w)"
    using assms(1,2) by (simp add: keeps_accounts_def accounted_refl)
  then have "keeps_accounts held live E (ctx, ds, w) (ctx', ds', w')"
    by (rule vfs_machine.program) (rule assms(3))
  then have "accounted held live (ctx, ds, w) (ctx', ds', w')" by (simp add: keeps_accounts_def)
  from accountedD(1-5) [OF this] show ?thesis by blast
qed

theorem vfs_programs_account_witness:
  "run_all (run_call mini_env) [Call_opendir (Some ''/d''), Call_close 0] (mini_opened, [], mini_world\<lparr>m_live := 8\<rparr>)
     = Some (mini_fresh\<lparr>open_dirs := 1\<rparr>, [mini_stream 0], mini_world\<lparr>m_live := 8\<rparr>)
   \<and> ctx_ok (mini_fresh\<lparr>open_dirs := 1\<rparr>) \<and> kin mini_opened (mini_fresh\<lparr>open_dirs := 1\<rparr>)"
proof -
  have ok: "ctx_ok mini_opened"
    by (simp add: ctx_ok_def mini_opened_def mini_fresh_def put_file_def mini_handle_def open_slots_def zero_entry_def)
  have c: "vfs_lwext4_close mini_env (mini_opened\<lparr>open_dirs := 1\<rparr>) 0 (mini_world\<lparr>m_live := 9\<rparr>)
      = (Inr (), mini_fresh\<lparr>open_dirs := 1\<rparr>, mini_world\<lparr>m_live := 8\<rparr>)"
    by (simp add: vfs_lwext4_close_def mini_opened_def mini_fresh_def put_file_def mini_base fun_upd_idem)
  have run: "run_all (run_call mini_env) [Call_opendir (Some ''/d''), Call_close 0] (mini_opened, [], mini_world\<lparr>m_live := 8\<rparr>)
     = Some (mini_fresh\<lparr>open_dirs := 1\<rparr>, [mini_stream 0], mini_world\<lparr>m_live := 8\<rparr>)"
    by (simp add: mini_opendir c)
  from vfs_programs_account [OF mini_env_laws ok run] run show ?thesis by blast
qed

text \<open>C21: A successful open returns the lowest free descriptor, which then names the new file
  with the flags of the call; all other descriptors keep their files.\<close>

theorem open_lowest_free:
  assumes "env_laws held live E" "ctx_ok ctx" "vfs_lwext4_open E ctx p fl w = (Inr fd, ctx', w')"
  shows "\<exists>i. fd = int i \<and> i < unat (max_files ctx) \<and> \<not> used (files ctx ! i) \<and> (\<forall>k < i. used (files ctx ! k))
    \<and> file_get ctx' fd = Inr i \<and> flags (files ctx' ! i) = fl
    \<and> (\<forall>j. j \<noteq> i \<longrightarrow> files ctx' ! j = files ctx ! j)
    \<and> unat (open_files ctx') = Suc (unat (open_files ctx))"
proof -
  from open_succeeded [OF assms(1,3)] obtain i f q where
    i: "fd = int i" "find_free_slot (files ctx) (unat (max_files ctx)) 0 = Some i"
    and c: "ctx' = put_file i ((files ctx ! i)\<lparr>efile := f, path := Some q, flags := fl, used := True\<rparr>) ctx
         \<lparr>open_files := open_files ctx + 1\<rparr>" by blast
  note slot = find_free_slot_Some [OF i(2)]
  then have m: "i < unat (max_files ctx)" "\<not> used (files ctx ! i)" by auto
  have l: "i < length (files ctx)" using assms(2) m(1) by (simp add: ctx_ok_def)
  let ?f = "(files ctx ! i)\<lparr>efile := f, path := Some q, flags := fl, used := True\<rparr>"
  have "ctx_ok ctx'" "open_slots (files ctx') = Suc (open_slots (files ctx))"
    unfolding c using ctx_ok_fill [OF assms(2) m, of ?f] by simp_all
  then have "unat (open_files ctx') = Suc (unat (open_files ctx))" using assms(2) by (simp add: ctx_ok_def)
  then show ?thesis using i m l slot by (intro exI [of _ i]) (simp add: c file_get_Inr)
qed

theorem open_lowest_free_witness:
  "vfs_lwext4_open mini_env mini_fresh (Some ''/a'') O_RDONLY (mini_world\<lparr>m_live := 7\<rparr>)
     = (Inr 0, mini_opened, mini_world\<lparr>m_live := 8\<rparr>)
   \<and> file_get mini_opened 0 = Inr 0 \<and> unat (open_files mini_opened) = Suc (unat (open_files mini_fresh))"
  using open_lowest_free [OF mini_env_laws mini_fresh_ok mini_open] mini_open by auto

text \<open>C34: Opening a file and closing it again takes the table back: the descriptor is bad and
  the next one to be handed out, the other descriptors keep their files, and the count of
  open files is as before.\<close>

theorem open_close_roundtrip:
  assumes "env_laws held live E" "ctx_ok ctx" "vfs_lwext4_open E ctx p fl w = (Inr fd, ctx1, w1)"
    "vfs_lwext4_close E ctx1 fd w2 = (Inr u, ctx2, w3)"
  shows "file_get ctx2 fd = Inl EBADF \<and> find_free_slot (files ctx2) (unat (max_files ctx2)) 0 = Some (nat fd)
    \<and> (\<forall>j. j \<noteq> nat fd \<longrightarrow> files ctx2 ! j = files ctx ! j) \<and> open_files ctx2 = open_files ctx
    \<and> live w1 = live w + 1 \<and> live w3 = live w2 - 1"
proof -
  from open_succeeded [OF assms(1,3)] obtain i f q where
    i: "fd = int i" "find_free_slot (files ctx) (unat (max_files ctx)) 0 = Some i"
    and c: "ctx1 = put_file i ((files ctx ! i)\<lparr>efile := f, path := Some q, flags := fl, used := True\<rparr>) ctx
         \<lparr>open_files := open_files ctx + 1\<rparr>" and l1: "live w1 = live w + 1" by blast
  from close_succeeded [OF assms(1,4)] i(1) have c2: "ctx2 = put_file i (zero_entry E) ctx1\<lparr>open_files := open_files ctx1 - 1\<rparr>"
    and l2: "live w3 = live w2 - 1" by (auto simp: file_get_Inr)
  note slot = find_free_slot_Some [OF i(2)]
  have l: "i < length (files ctx)" "length (files ctx) = unat (max_files ctx)"
    using assms(2) slot by (simp_all add: ctx_ok_def)
  have u: "used (files ctx2 ! k) = used (files ctx ! k)" if "k \<noteq> i" for k using that by (simp add: c c2)
  have z: "\<not> used (files ctx2 ! i)" using l by (simp add: c c2 zero_entry_def)
  have "find_free_slot (files ctx2) (unat (max_files ctx2)) 0 = Some i"
  proof (cases "find_free_slot (files ctx2) (unat (max_files ctx2)) 0")
    case None
    have "i < unat (max_files ctx2)" using l by (simp add: c c2)
    with find_free_slot_None [OF None] z show ?thesis by blast
  next
    case (Some j)
    from find_free_slot_Some [OF this] slot u z have "j = i" by (metis linorder_neqE_nat zero_le)
    then show ?thesis using Some by simp
  qed
  then show ?thesis using z l l1 l2 i(1) by (simp add: file_get_def c c2)
qed

theorem open_close_roundtrip_witness:
  "\<exists>ctx2 w3. vfs_lwext4_close mini_env mini_opened 0 (mini_world\<lparr>m_live := 8\<rparr>) = (Inr (), ctx2, w3)
    \<and> file_get ctx2 0 = Inl EBADF \<and> find_free_slot (files ctx2) (unat (max_files ctx2)) 0 = Some 0 \<and> m_live w3 = 7"
proof -
  have "\<exists>ctx2 w3. vfs_lwext4_close mini_env mini_opened 0 (mini_world\<lparr>m_live := 8\<rparr>) = (Inr (), ctx2, w3)"
    by (simp add: vfs_lwext4_close_def mini_opened_def mini_fresh_def put_file_def mini_base)
  then obtain ctx2 w3 where c: "vfs_lwext4_close mini_env mini_opened 0 (mini_world\<lparr>m_live := 8\<rparr>) = (Inr (), ctx2, w3)" by blast
  from open_close_roundtrip [OF mini_env_laws mini_fresh_ok mini_open c] c show ?thesis by auto
qed

section \<open>File contents\<close>

text \<open>C10: A pread that succeeds returns the bytes of the file at the offset, as many as asked for,
  present and representable, leaves the file, the handle's position and all other descriptors
  alone; and one that fails changes no file.\<close>

theorem pread_correct:
  assumes "lwext4_files data E" "ctx_ok ctx" "off < 2 ^ 63"
    "vfs_lwext4_pread E ctx fd dst n off w = Some (res, dst', ctx', w')"
  shows "data w' = data w \<and> (\<forall>m. res = Inr m \<longrightarrow> (\<exists>i. file_get ctx fd = Inr i
      \<and> m = int (min (unat (io_size_limit n)) (length (data w (inode (file_at ctx i))) - nat off))
      \<and> dst' = mem_write 0 (mem_read (nat off) (nat m) (data w (inode (file_at ctx i)))) dst
      \<and> inode (file_at ctx' i) = inode (file_at ctx i)
      \<and> ext4_ftell E (file_at ctx' i) = ext4_ftell E (file_at ctx i)
      \<and> (\<forall>j. j \<noteq> i \<longrightarrow> files ctx' ! j = files ctx ! j)))"
  using pread_spec [OF assms] by blast

theorem pread_correct_witness:
  "\<exists>ctx' w'. vfs_lwext4_pread mini_env mini_ctx 0 (replicate 3 0) 3 3 mini_world = Some (Inr 3, [4, 5, 6], ctx', w')
    \<and> mini_data w' = mini_data mini_world \<and> file_rest (file_at ctx' 0) = 2"
proof -
  have "\<exists>ctx' w'. vfs_lwext4_pread mini_env mini_ctx 0 [0, 0, 0] 3 3 mini_world = Some (Inr 3, [4, 5, 6], ctx', w')"
    by (simp add: vfs_lwext4_pread_def mini_io)
  then obtain ctx' w' where r: "vfs_lwext4_pread mini_env mini_ctx 0 [0, 0, 0] 3 3 mini_world = Some (Inr 3, [4, 5, 6], ctx', w')" by blast
  from pread_correct [OF mini_files mini_ctx_ok _ r]
  have "mini_data w' = mini_data mini_world \<and> file_rest (file_at ctx' 0) = 2"
    by (simp add: file_get_def mini_ctx_def mini_handle_def)
  with r show ?thesis by auto
qed

text \<open>C11: A pwrite that succeeds writes the first \<open>m\<close> bytes of the source at the offset, filling
  a gap behind the old end with zeros, and keeps the handle's position and all other
  descriptors; a pwrite, failed or not, touches one file at most.\<close>

theorem pwrite_correct:
  assumes "lwext4_files data E" "ctx_ok ctx" "off < 2 ^ 63" "unat n \<le> length src"
    "vfs_lwext4_pwrite E ctx fd src n off w = Some (res, src', ctx', w')"
  shows "src' = src \<and> (\<exists>i. data w' = (data w)(i := data w' i))
    \<and> (\<forall>m. res = Inr m \<longrightarrow> (\<exists>i. file_get ctx fd = Inr i \<and> 0 \<le> m \<and> nat m \<le> unat (io_size_limit n)
      \<and> (n = 0 \<longrightarrow> data w' = data w)
      \<and> (n \<noteq> 0 \<longrightarrow> data w' = (data w)(inode (file_at ctx i) :=
          mem_write (nat off) (take (nat m) src) (data w (inode (file_at ctx i))
            @ replicate (nat off - length (data w (inode (file_at ctx i)))) 0)))
      \<and> ext4_ftell E (file_at ctx' i) = ext4_ftell E (file_at ctx i)
      \<and> (\<forall>j. j \<noteq> i \<longrightarrow> files ctx' ! j = files ctx ! j)))"
  using pwrite_spec [OF assms] by blast

theorem pwrite_correct_witness:
  "\<exists>ctx' w'. vfs_lwext4_pwrite mini_env mini_ctx 0 [9, 9] 2 8 mini_world = Some (Inr 2, [9, 9], ctx', w')
    \<and> mini_data w' 12 = [1, 2, 3, 4, 5, 6, 0, 0, 9, 9] \<and> file_rest (file_at ctx' 0) = 2"
proof -
  have "\<exists>ctx' w'. vfs_lwext4_pwrite mini_env mini_ctx 0 [9, 9] 2 8 mini_world = Some (Inr 2, [9, 9], ctx', w')"
    by (simp add: vfs_lwext4_pwrite_def mini_io grow_loop.simps)
  then obtain ctx' w' where r: "vfs_lwext4_pwrite mini_env mini_ctx 0 [9, 9] 2 8 mini_world = Some (Inr 2, [9, 9], ctx', w')" by blast
  from pwrite_correct [OF mini_files mini_ctx_ok _ _ r]
  have "mini_data w' 12 = [1, 2, 3, 4, 5, 6, 0, 0, 9, 9] \<and> file_rest (file_at ctx' 0) = 2"
    by (simp add: file_get_def mini_ctx_def mini_handle_def mini_data_def mini_world_def mem_write_def)
  with r show ?thesis by auto
qed

text \<open>C22: A write that succeeds through a writable descriptor stores the first \<open>m\<close> bytes at the
  current end of the file with O_APPEND, whatever end the handle remembers, and at the
  handle's position otherwise; no other file changes.\<close>

theorem write_correct:
  assumes "lwext4_files data E" "unat n \<le> length src" "vfs_lwext4_write E ctx fd src n w = (Inr m, ctx', w')"
  shows "\<exists>i. file_get ctx fd = Inr i \<and> \<not> read_only ctx \<and> flags (files ctx ! i) AND O_ACCMODE \<noteq> O_RDONLY
    \<and> 0 \<le> m \<and> nat m \<le> unat (io_size_limit n)
    \<and> (\<forall>j. j \<noteq> inode (file_at ctx i) \<longrightarrow> data w' j = data w j)
    \<and> (write_position data E (files ctx ! i) w \<le> length (data w (inode (file_at ctx i))) \<longrightarrow>
        data w' (inode (file_at ctx i)) = mem_write (write_position data E (files ctx ! i) w) (take (nat m) src)
          (data w (inode (file_at ctx i))))"
  by (rule write_spec [OF assms])

theorem write_correct_witness:
  "\<exists>ctx' w'. vfs_lwext4_write mini_env mini_ctx 1 [9] 1 mini_world = (Inr 1, ctx', w')
    \<and> mini_data w' 13 = [7, 8, 9]"
proof -
  have "\<exists>ctx' w'. vfs_lwext4_write mini_env mini_ctx 1 [9] 1 mini_world = (Inr 1, ctx', w')"
    by (simp add: vfs_lwext4_write_def seek_to_current_end_locked_def mini_io)
  then obtain ctx' w' where r: "vfs_lwext4_write mini_env mini_ctx 1 [9] 1 mini_world = (Inr 1, ctx', w')" by blast
  from write_correct [OF mini_files _ r] have "mini_data w' 13 = [7, 8, 9]"
    by (simp add: file_get_def mini_ctx_def mini_handle_def mini_data_def mini_world_def mem_write_def write_position_def)
  with r show ?thesis by auto
qed

text \<open>C23: An ftruncate that succeeds gives the file the asked length, cut off or extended with
  zeros, and keeps the position when it grows; no other file changes.\<close>

theorem ftruncate_correct:
  assumes "lwext4_files data E" "ctx_ok ctx" "len < 2 ^ 63"
    "vfs_lwext4_ftruncate E ctx fd len w = Some (Inr u, ctx', w')"
    "file_get ctx fd = Inr i" "ext4_ftell E (file_at ctx i) \<le> INT64_MAX"
  shows "0 \<le> len \<and> data w' = (data w)(inode (file_at ctx i) := resized (nat len) (data w (inode (file_at ctx i))))
    \<and> (length (data w (inode (file_at ctx i))) < nat len \<longrightarrow>
         ext4_ftell E (file_at ctx' i) = ext4_ftell E (file_at ctx i))"
  using ftruncate_spec [OF assms(1-4)] assms(5,6) by auto

theorem ftruncate_correct_witness:
  "\<exists>ctx' w'. vfs_lwext4_ftruncate mini_env mini_ctx 0 8 mini_world = Some (Inr (), ctx', w')
    \<and> mini_data w' 12 = [1, 2, 3, 4, 5, 6, 0, 0] \<and> file_rest (file_at ctx' 0) = 2"
proof -
  have "\<exists>ctx' w'. vfs_lwext4_ftruncate mini_env mini_ctx 0 8 mini_world = Some (Inr (), ctx', w')"
    by (simp add: vfs_lwext4_ftruncate_def mini_io grow_loop.simps)
  then obtain ctx' w' where r: "vfs_lwext4_ftruncate mini_env mini_ctx 0 8 mini_world = Some (Inr (), ctx', w')" by blast
  have i: "file_get mini_ctx 0 = Inr 0" by (simp add: file_get_def mini_ctx_def mini_handle_def)
  from ftruncate_correct [OF mini_files mini_ctx_ok _ r i]
  have "mini_data w' 12 = [1, 2, 3, 4, 5, 6, 0, 0] \<and> file_rest (file_at ctx' 0) = 2"
    by (simp add: mini_ctx_def mini_handle_def mini_data_def mini_world_def resized_def)
  with r show ?thesis by auto
qed

text \<open>C30: Without I/O errors the outcome of a pread depends on three sizes: it returns nothing
  at or behind the real end, fails with EINVAL when the offset lies behind the size this handle
  remembers (another handle made the file longer) or the handle's position behind the real end
  (another handle made it shorter), and reads the bytes otherwise.\<close>

theorem pread_outcome:
  assumes "lwext4_files data E" "ctx_ok ctx" "0 \<le> off" "off < 2 ^ 63" "n \<noteq> 0"
    "fst (xSemaphoreTake E (lock ctx) w)" "file_get ctx fd = Inr i" "flags (files ctx ! i) AND O_ACCMODE \<noteq> O_WRONLY"
    "ext4_ftell E (file_at ctx i) \<le> fsize (file_at ctx i)" "fsize (file_at ctx i) \<le> INT64_MAX"
    "\<not> isl (fst (current_file_size_locked E (files ctx ! i) (snd (take_lock E (lock ctx) w))))"
    "\<And>f d k w. fst (ext4_fread E f d k w) = EOK"
  shows "\<exists>dst' ctx' w'. vfs_lwext4_pread E ctx fd dst n off w = Some
    (if length (data w (inode (file_at ctx i))) \<le> nat off then Inr 0
     else if unat (fsize (file_at ctx i)) < nat off
        \<or> length (data w (inode (file_at ctx i))) < unat (ext4_ftell E (file_at ctx i)) then Inl EINVAL
     else Inr (int (min (unat (io_size_limit n)) (length (data w (inode (file_at ctx i))) - nat off))),
     dst', ctx', w')"
  by (rule pread_exact [OF assms])

theorem pread_outcome_witness:
  "\<exists>dst' ctx' w'. vfs_lwext4_pread mini_env mini_stale 0 [0] 1 4 mini_world = Some (Inl EINVAL, dst', ctx', w')"
proof -
  have f: "file_get mini_stale 0 = Inr 0" "flags (files mini_stale ! 0) AND O_ACCMODE \<noteq> O_WRONLY"
    "file_at mini_stale 0 = \<lparr>inode = 12, fsize = 2, file_rest = 0\<rparr>"
    by (simp_all add: file_get_def mini_stale_def mini_ctx_def mini_handle_def)
  have t: "fst (xSemaphoreTake mini_env (lock mini_stale) mini_world)"
    "\<not> isl (fst (current_file_size_locked mini_env (files mini_stale ! 0)
        (snd (take_lock mini_env (lock mini_stale) mini_world))))"
    by (simp_all add: mini_stale_def mini_io)
  have "fst (ext4_fread mini_env f d k w) = EOK" for f d k w by (simp add: mini_ops)
  then show ?thesis
    using pread_outcome [OF mini_files mini_stale_ok _ _ _ t(1) f(1,2) _ _ t(2), of 4 1 "[0]"]
    by (simp add: f mini_data_def mini_world_def)
qed

text \<open>C28: Every call returns, whatever errors lwext4 reports, as long as its writes never claim
  more than was asked for and its directory enumerations end: the loops that grow a file,
  search a directory for entries and seek in a stream all terminate.\<close>

theorem vfs_calls_return:
  assumes "writes_bounded E" "dir_laws listing at fs entries E"
  shows "run_call E c s \<noteq> None"
proof -
  obtain ctx ds w where s: "s = (ctx, ds, w)" by (metis prod_cases3)
  note ret = positioned_returns [OF assms(1)] ftruncate_returns [OF assms(1)] truncate_returns [OF assms(1)]
    rename_returns [OF assms(2)] rmdir_returns [OF assms(2)]
  show ?thesis
    by (cases c) (auto simp: s vfs_lwext4_pread_def vfs_lwext4_pwrite_def vfs_lwext4_link_def two_path_operation_def
        ret ret [unfolded not_None_eq] split: option.splits prod.splits sum.splits if_splits)
qed

theorem vfs_calls_return_witness:
  "run_call mini_env (Call_pwrite 0 [9, 9] 2 8) (mini_ctx, [], mini_world) \<noteq> None"
  by (rule vfs_calls_return [OF mini_writes_bounded mini_dir_laws])

section \<open>Names and directories\<close>

text \<open>C40: The pointer loops over paths decide what they should: whether a component is a dot or
  two dots, whether the path resolves to the root of the mount, and whether one path lies
  strictly below another, component by component.\<close>

theorem path_predicates_exact:
  "(path_has_dot_component p \<longleftrightarrow> dot \<in> set (components p) \<or> dot_dot \<in> set (components p))
   \<and> (path_is_mount_root p \<longleftrightarrow> resolve [] (components p) = [])
   \<and> (path_is_strict_descendant p q \<longleftrightarrow> strict_prefix (components p) (components q))"
  by (simp add: path_has_dot_component_iff path_is_mount_root_iff path_is_strict_descendant_iff)

text \<open>C16: A rename onto an existing name ends as POSIX asks: both names of one object are left
  alone, mismatched kinds, a directory moved below itself and a directory that is not empty are
  refused without a change, and otherwise the destination is removed, with the operation for its
  kind, and the rename repeated.\<close>

theorem rename_replaces:
  assumes "dir_laws listing at fs entries E" "name_laws fs there inode_of is_dir E"
    "fst (ext4_frename E src dst w) = EEXIST"
  shows "\<exists>r w'. rename_locked E src dst w = Some (r, w')
    \<and> (case rename_verdict inode_of is_dir entries (fs w) src dst of
         Some e \<Rightarrow> fs w' = fs w \<and> (r = e \<or> e = ENOTEMPTY \<and> r \<noteq> EOK)
       | None \<Rightarrow> fs w' = fs w \<and> r \<noteq> EOK
           \<or> (\<exists>w1. fs w1 = fs w
              \<and> (case if is_dir (fs w) src then ext4_dir_rm E dst w1 else ext4_fremove E dst w1 of (r1, w2) \<Rightarrow>
                   (r, w') = (if r1 = EOK then ext4_frename E src dst w2 else (r1, w2)))))"
  by (rule rename_locked_correct [OF assms])

theorem rename_replaces_witness:
  "\<exists>r w'. rename_locked mini_env ''/m/e'' ''/m/d'' mini_world = Some (r, w') \<and> r \<noteq> EOK
    \<and> m_tree w' = m_tree mini_world"
proof -
  have h: "fst (ext4_frename mini_env ''/m/e'' ''/m/d'' mini_world) = EEXIST" by (simp add: mini_base)
  have "rename_verdict mini_inode mini_is_dir mini_entries (m_tree mini_world) ''/m/e'' ''/m/d'' = Some ENOTEMPTY"
    by (simp add: rename_verdict_def mini_base mini_entries_def mini_entry_def empty_listing_def entry_is_dot_def
        components_def strict_prefix_def)
  with rename_replaces [OF mini_dir_laws mini_name_laws h] show ?thesis by auto
qed

text \<open>C33: A position told by telldir brings a stream of the same directory back: after seekdir the
  next readdir returns the entry that was next at telldir, from wherever the stream was.\<close>

theorem telldir_seekdir_readdir:
  assumes "dir_laws listing at fs entries E" "quiet fs E" "in_step listing at d"
    "vfs_lwext4_telldir E ctx (Some d) w = (Inr t, w1)"
    "in_step listing at d2" "listing (ext4 d2) = listing (ext4 d)"
    "vfs_lwext4_seekdir E ctx (Some d2) t w2 = (Inr u, pdir, w3)"
    "vfs_lwext4_readdir E ctx pdir w4 = (Inr res, pdir', w5)"
  shows "res = (if at (ext4 d) < length (listing (ext4 d))
    then Some (dirent_of (listing (ext4 d) ! at (ext4 d))) else None)"
proof -
  have t: "t = offset d"
    using assms(4) by (auto simp: vfs_lwext4_telldir_def split_beta split: sum.splits if_splits)
  have q: "fs (snd (xSemaphoreTake E l w)) = fs w" "fs (xSemaphoreGive E l w) = fs w" for l w
    using assms(2) by (simp_all add: quiet_def)
  from seekdir_correct [OF assms(1) q assms(5,7)] obtain d3 where
    d3: "pdir = Some d3" "in_step listing at d3" "listing (ext4 d3) = listing (ext4 d)"
      "at (ext4 d3) = min (nat (sint t)) (length (listing (ext4 d)))" using assms(6) by auto
  have "at (ext4 d3) = at (ext4 d)" using d3(4) in_step_offset [OF assms(3)] assms(3) by (simp add: t in_step_def)
  moreover from readdir_correct [OF assms(1) d3(2) assms(8) [unfolded d3(1)]]
  have "res = (if at (ext4 d3) < length (listing (ext4 d3))
    then Some (dirent_of (listing (ext4 d3) ! at (ext4 d3))) else None)" by (auto split: if_splits)
  ultimately show ?thesis using d3(3) by simp
qed

theorem telldir_seekdir_readdir_witness:
  "\<exists>pdir' w5. vfs_lwext4_readdir mini_env mini_opened (Some (mini_stream 2)) mini_world
    = (Inr (Some \<lparr>d_ino = 15, d_type = DT_REG, d_name = ''c''\<rparr>), pdir', w5)
    \<and> snd (ext4 (mini_stream 0)) = 0"
proof -
  have l: "fst (ext4 (mini_stream n)) = [mini_entry dot 2 True, mini_entry dot_dot 2 True, mini_entry ''c'' 15 False]" for n
    by (simp add: mini_stream_def mini_entries_def mini_world_def)
  have n: "snd (ext4 (mini_stream n)) = n" for n by (simp add: mini_stream_def)
  have st: "in_step fst snd (mini_stream 2)" "in_step fst snd (mini_stream 0)"
    by (simp_all add: in_step_def l) (simp_all add: mini_stream_def)
  have c: "dir_ctx (mini_stream n) = Some (ctx_id mini_opened)" for n
    by (simp add: mini_stream_def mini_opened_def mini_fresh_def)
  have "\<exists>w1. vfs_lwext4_telldir mini_env mini_opened (Some (mini_stream 2)) mini_world = (Inr 2, w1)"
    by (simp add: vfs_lwext4_telldir_def c mini_base) (simp add: mini_stream_def)
  then obtain w1 where t: "vfs_lwext4_telldir mini_env mini_opened (Some (mini_stream 2)) mini_world = (Inr 2, w1)" by blast
  have "\<exists>w3. vfs_lwext4_seekdir mini_env mini_opened (Some (mini_stream 0)) 2 mini_world
      = (Inr (), Some (mini_stream 2), w3)"
    by (simp add: vfs_lwext4_seekdir_def c mini_base)
      (simp add: mini_stream_def seekdir_loop.simps mini_dir_next_def mini_entries_def mini_world_def)
  then obtain w3 where s: "vfs_lwext4_seekdir mini_env mini_opened (Some (mini_stream 0)) 2 mini_world
      = (Inr (), Some (mini_stream 2), w3)" by blast
  have "\<exists>res pdir' w5. vfs_lwext4_readdir mini_env mini_opened (Some (mini_stream 2)) mini_world = (Inr res, pdir', w5)"
    by (simp add: vfs_lwext4_readdir_def vfs_lwext4_readdir_r_def c take_lock_def mini_ops mini_world_def split_beta)
  then obtain res pdir' w5 where
    r: "vfs_lwext4_readdir mini_env mini_opened (Some (mini_stream 2)) mini_world = (Inr res, pdir', w5)" by blast
  from telldir_seekdir_readdir [OF mini_dir_laws mini_quiet st(1) t st(2) _ s r]
  have "res = Some \<lparr>d_ino = 15, d_type = DT_REG, d_name = ''c''\<rparr>"
    by (simp add: l n dirent_of_def mini_entry_def dirent_type_def)
  with r show ?thesis by (simp add: n)
qed

text \<open>C14: When esp_vfs_lwext4_rmdir_recurse changes the file system, the path lay below a
  registered base path, the longest one that covers it, of a writable context with no open file
  or stream; the removed directory lies strictly below the mount point, named by the rest of the
  path, in which no component is a dot or two dots; and the result is that of the removal.\<close>

theorem rmdir_recurse_stays_below:
  assumes "quiet fs E" "esp_vfs_lwext4_rmdir_recurse E (Some p) st w = (e, st', w')"
    "\<forall>c \<in> set (s_contexts st). ctx_ok c" "fs w' \<noteq> fs w"
  shows "\<exists>ctx full w1. ctx \<in> set (s_contexts st) \<and> covers ctx p
    \<and> (\<forall>d \<in> set (s_contexts st). covers d p \<longrightarrow> length (base_path d) \<le> length (base_path ctx))
    \<and> \<not> read_only ctx \<and> open_files ctx = 0 \<and> open_dirs ctx = 0
    \<and> strict_prefix (components (mount_point ctx)) (components full)
    \<and> components full = components (mount_point ctx) @ components (drop (length (base_path ctx)) p)
    \<and> dot \<notin> set (components (drop (length (base_path ctx)) p))
    \<and> dot_dot \<notin> set (components (drop (length (base_path ctx)) p))
    \<and> fs w1 = fs w \<and> fs w' = fs (snd (ext4_dir_rm E full w1))
    \<and> e = lwext4_error_to_esp (fst (ext4_dir_rm E full w1))"
  by (rule rmdir_recurse_safe [OF assms])

theorem rmdir_recurse_stays_below_witness:
  "\<exists>st' w' full w1. esp_vfs_lwext4_rmdir_recurse mini_env (Some ''/s/d'') (mini_registry mini_fresh) mini_world
      = (ESP_OK, st', w')
    \<and> components full = [''m'', ''d''] \<and> m_tree w' = m_tree (snd (ext4_dir_rm mini_env full w1))"
proof -
  have "\<exists>st' w'. esp_vfs_lwext4_rmdir_recurse mini_env (Some ''/s/d'') (mini_registry mini_fresh) mini_world
      = (ESP_OK, st', w') \<and> m_tree w' \<noteq> m_tree mini_world"
    by (simp add: esp_vfs_lwext4_rmdir_recurse_def contexts_lock_get_def mini_registry_def mini_fresh_def
        remove_tree_def path_is_mount_root_iff path_has_dot_component_iff components_def mini_base) blast
  then obtain st' w' where r: "esp_vfs_lwext4_rmdir_recurse mini_env (Some ''/s/d'') (mini_registry mini_fresh) mini_world
      = (ESP_OK, st', w')" and ch: "m_tree w' \<noteq> m_tree mini_world" by blast
  have ok: "\<forall>c \<in> set (s_contexts (mini_registry mini_fresh)). ctx_ok c"
    by (simp add: mini_registry_def mini_fresh_ok)
  from rmdir_recurse_stays_below [OF mini_quiet r ok ch] r show ?thesis
    by (auto simp: mini_registry_def) (auto simp: mini_fresh_def components_def)
qed

end
