(* ===== verification/Spec2Isabelle.thy ===== *)
theory Spec2Isabelle
  imports Extent_Properties Extent_Deep_Properties Port_Properties Port_Stubs Vfs_Properties
begin

text \<open>
  Verification of esp_lwext4, the ESP-IDF port of the ext4 library lwext4.

  The program.  lwext4 itself is a git submodule that is not part of this repository.  What the
  repository adds to it, all under src/port, is modelled here: an implementation of ext4's
  extent trees that replaces lwext4's own (lwext4_extent.c); two adapters that give lwext4 a
  block device, on an ESP-IDF block-device handle (lwext4_port_bdl.c) and on an SD card
  (lwext4_port_sdmmc.c), with the format helper they share (lwext4_port_format.c); the adapter
  between ESP-IDF's virtual file system and lwext4's file functions (esp_lwext4.c); and two
  small files, the heap shim (lwext4_port_esp_heap.c) and stubs for the attribute functions
  (lwext4_xattr_stub.c).  A file operation runs through all of them: VFS adapter, lwext4 (which
  calls the extent functions to map file blocks), block-device adapter.

  What is a parameter.  lwext4, FreeRTOS, the C library's heap, the SDMMC driver, ESP-IDF's
  block devices and its VFS registry are records of functions on an abstract world, arguments
  of every definition that calls them (\<open>lwext4\<close> in Extent_Io, \<open>blockdev_ops\<close> and \<open>platform\<close> in
  Port_Bdl and Port_Device, \<open>sdmmc_driver\<close> in Port_Sdmmc, \<open>vfs_env\<close> in Vfs_Env, \<open>heap_env\<close> in
  Port_Stubs).  Theorems that rely on their documented behaviour name it as a hypothesis
  (\<open>env_laws\<close>, \<open>lwext4_files\<close>, \<open>dir_laws\<close>, \<open>name_laws\<close>, \<open>quiet\<close>, \<open>lower_ok\<close> and the like); the
  example theories instantiate each of them with concrete functions on which it is proved.

  The extent tree.
    Prelude: bytes, little-endian integers, error codes, word arithmetic.
    Extent_Layout: header, extent and index records, their loads and stores, the 48-bit block
      numbers and the length with the unwritten mark.  The locale \<open>entry_codec\<close> is what the array
      code needs of an entry kind; both kinds interpret it.
    Extent_Slots: a node as an array of twelve-byte slots; gaps, moves, splits (for any codec).
    Extent_Node: binary searches, header and entry checks, merge test, insertion position.
    Extent_Map: the specification, the partial map from logical to physical blocks that a list
      of extents denotes.
    Extent_Io: the state, the journal guard, block handles, checksums, single-node access.
    Extent_Lookup, Extent_Insert, Extent_Remove, Extent_Ops: find_extent and find_next_extent;
      merge, insertion, split, growth; leaf rewriting and index correction; the three hooks
      ext4_extent_tree_init, ext4_extent_get_blocks and ext4_extent_remove_space.
    Extent_Tree: well-formed trees of any depth (\<open>tree_ok\<close>), their extents and map, and the
      correctness of descending in them.
    Extent_Update, Extent_Cut, Extent_Space: insertion and removal in one leaf and on trees whose
      root is the only leaf; the weight that bounds the loop of remove_space.
    Extent_Path, Extent_Write: trees of any depth as a store of nodes; the path of a search, the
      extents in front of it and behind it, and the effect of writing a node back (\<open>stored\<close>,
      \<open>calm\<close>); what the allocator promises (\<open>alloc_laws\<close>).
    Extent_Deep: the invariant \<open>tree_inv\<close> (nodes valid and sealed, keys right, no block in two
      places, all in use), changes of a leaf and the correction of the keys above it.
    Extent_Grow, Extent_Split, Extent_Room: a new level, the split of a full node, and
      ensure_insert_room and insert_extent on trees of any depth; Extent_Build: sequences of
      insertions from the empty tree.
    Extent_Next: find_next_extent across leaves.
    Extent_Account: what freeing promises (\<open>free_laws\<close>), and the accounting of blocks:
      \<open>space_inv\<close> (every mapped block and every node in use, in one place), \<open>others\<close> (the
      blocks in use that are not this file's).
    Extent_Alloc: ext4_extent_get_blocks with create.
    Extent_Prune, Extent_Trim, Extent_Carve, Extent_Clear: removal of an emptied node and of the
      entries above it, remove_leaf, the split of an extent, and the loop of remove_space, on
      trees of any depth.
    Extent_History: the abstract machine \<open>map_step\<close> on maps, the concrete one \<open>file_step\<close>, and the
      locale \<open>simulation\<close>, interpreted on the two; the file without blocks at the end of it all.
    Extent_Examples, Extent_Properties; Extent_Deep_Properties: concrete images and services,
      the properties and their witnesses.
  Lookups are proved for trees of any depth and for I/O that fails anywhere.  Insertion,
  allocation and removal are proved on trees of any depth when the I/O services answer
  (\<open>io_reliable\<close>), the allocator hands out no block in use and freeing frees what it is given;
  allocation and its failures, the depth limit included, are all covered.  After an I/O error in
  the middle of a change nothing is claimed: lwext4's journal is then to discard it.
  Recursions of the C code that are bounded by the data are structural or carry a measure.  The
  fourteen attempts of ensure_insert_room are enough because each one that does not find room
  lowers \<open>crowd\<close>, which is at most twice the number of levels, so at most twelve
  (\<open>crowd_bound\<close>, \<open>room_loop\<close>).  remove_space runs with fuel: two rounds
  for each extent and two more are enough on a well-formed tree (\<open>remove_space_correct\<close>), and
  \<open>remove_space_may_hang\<close> says that on a damaged tree no fuel is.

  The block-device adapters.
    Port_Device: buffers that may be NULL, the caller's memory or the adapter's own transfer
      buffer; error translation; the contracts \<open>chunked\<close> (a transfer loop) and \<open>block_device\<close> (a
      flat array of blocks).
    Port_Transfer: what one chunk does carries over to the loop, once for both adapters.
    Port_Format: the counting wrapper, the checks and the rounding to block groups; ext4_mkfs is
      a parameter.
    Port_Bdl, Port_Bdl_Correct; Port_Sdmmc, Port_Sdmmc_Correct: the adapters and their
      interpretation of the contracts; creation, synchronisation, format gate, destruction.
    Port_Examples, Port_Properties: small devices, the properties and their witnesses.
    Port_Stubs: the heap shim and the attribute stubs.
  The transfer loops are \<open>partial_function\<close>s; that they return is proved.

  The VFS adapter.
    Vfs_Path: the pointer loops over paths, related to lists of components.
    Vfs_Env: the environment, contexts, files and small helpers.  A result \<open>Inl e\<close> stands for
      the return value -1 with errno \<open>e\<close>.
    Vfs_File, Vfs_Dir, Vfs_Mount: one definition per function of esp_lwext4.c, with every early
      return and the calls that release the lock and the path.
    Vfs_Balance, Vfs_Table, Vfs_Settled, Vfs_Calls, Vfs_System: locks and allocations; the
      invariant \<open>ctx_ok\<close> of a context; programs of calls (the locale \<open>preserved\<close>, interpreted on
      the calls of a context); the step relation \<open>vfs_step\<close> of the whole adapter with its
      registry, and its reachable states.
    Vfs_Posix, Vfs_Posix_Correct: contents of files: positioned transfers, zero-filled growth,
      appending, truncation, against what lwext4's file functions promise.
    Vfs_Names, Vfs_Recurse: the replacing rename, emptiness, directory streams, longest-prefix
      matching and recursive removal.
    Vfs_Examples, Vfs_Properties: a small file system on which every contract holds, the
      properties and their witnesses.

  Not modelled.  Tasks that wait for a lock: an operation of the VFS adapter is one step, since
  it runs under its context's lock; only the race for the creation of the registry's lock is
  in the model (\<open>stored_meanwhile\<close>).  Logging, the build-time checks, the link test
  src/test_apps/build_smoke (it has no logic of its own), and the 64-bit variants of size_t and
  long (the ESP32 family has 32-bit ones; the width of off_t is a parameter).
\<close>

end
